(* ===== verification/Prelude.thy ===== *)
theory Prelude
  imports Main "HOL-Library.Word" "HOL-Library.AList" "HOL-Library.List_Lexorder" "HOL-Library.Char_ord"
begin

text \<open>
  Shared vocabulary of the development: the fact collections, the result type of fallible
  operations, the two loop shapes that the Rust sources use again and again on vectors
  (find the first matching slot and overwrite it, or push; pick the last maximal element),
  ordered maps as sorted association lists (\<open>BTreeMap\<close>), hash maps as partial functions,
  decimal printing of unsigned integers, and the integer widths of the code.
\<close>

subsection \<open>Fact collections\<close>

named_theorems upsert_simps \<open>lookups after an upsert in a vector\<close>
named_theorems btree_simps \<open>lookups and key lists of ordered maps\<close>
named_theorems step_defs \<open>definitions of the atomic steps of state machines\<close>

subsection \<open>Integer widths\<close>

type_synonym u32 = "32 word"
type_synonym u64 = "64 word"

text \<open>The Rust cast \<open>n as i64\<close> of an unsigned 64-bit value, and \<open>i as u64\<close> back.\<close>

definition u64_as_i64 :: "nat \<Rightarrow> int" where
  "u64_as_i64 n = (let m = int n mod 2 ^ 64 in if m < 2 ^ 63 then m else m - 2 ^ 64)"

definition i64_as_u64 :: "int \<Rightarrow> nat" where
  "i64_as_u64 i = nat (i mod 2 ^ 64)"

lemma i64_u64_roundtrip: "n < 2 ^ 64 \<Longrightarrow> i64_as_u64 (u64_as_i64 n) = n"
proof -
  assume n: "n < 2 ^ 64"
  then have m: "int n mod 2 ^ 64 = int n" by (simp add: of_nat_less_iff [symmetric] del: of_nat_less_iff)
  have "(int n - 2 ^ 64) mod 2 ^ 64 = int n mod 2 ^ 64" by (simp add: mod_diff_right_eq [symmetric])
  with m show ?thesis by (simp add: i64_as_u64_def u64_as_i64_def Let_def)
qed

lemma u64_as_i64_small: "n < 2 ^ 63 \<Longrightarrow> u64_as_i64 n = int n"
proof -
  assume n: "n < 2 ^ 63"
  then have "int n < 2 ^ 63" by (simp add: of_nat_less_iff [symmetric] del: of_nat_less_iff)
  then show ?thesis by (simp add: u64_as_i64_def Let_def)
qed

text \<open>Subtraction on \<open>i64\<close>, with the wrap-around of a release build, and a range in which it is exact.\<close>

definition i64_sub :: "int \<Rightarrow> int \<Rightarrow> int" where
  "i64_sub a b = (a - b + 2 ^ 63) mod 2 ^ 64 - 2 ^ 63"

definition ms_range :: "int \<Rightarrow> bool" where
  "ms_range t \<longleftrightarrow> - (2 ^ 62) \<le> t \<and> t < 2 ^ 62"

lemma i64_sub_exact: "ms_range a \<Longrightarrow> ms_range b \<Longrightarrow> i64_sub a b = a - b"
  by (simp add: i64_sub_def ms_range_def)

subsection \<open>Results\<close>

text \<open>
  A Rust \<open>Result<T, E>\<close> is \<open>'e + 'a\<close>, the error on the left. The operator \<open>?\<close> is
  \<open>try_then\<close>: return the error early, go on with the value otherwise. Operations that
  also change state return the result paired with the state they leave behind, whatever the
  result is, because a Rust method that fails keeps the writes it already made.
\<close>

fun try_then :: "'e + 'a \<Rightarrow> ('a \<Rightarrow> 'e + 'b) \<Rightarrow> 'e + 'b" where
  "try_then (Inl e) f = Inl e"
| "try_then (Inr x) f = f x"

fun is_ok :: "'e + 'a \<Rightarrow> bool" where
  "is_ok (Inl e) = False"
| "is_ok (Inr x) = True"

definition ok_or :: "'e \<Rightarrow> 'a option \<Rightarrow> 'e + 'a" where
  "ok_or e x = (case x of None \<Rightarrow> Inl e | Some y \<Rightarrow> Inr y)"

lemma try_then_eq_Inr: "try_then r f = Inr y \<longleftrightarrow> (\<exists>x. r = Inr x \<and> f x = Inr y)"
  by (cases r) auto

lemma try_then_assoc: "try_then (try_then r f) g = try_then r (\<lambda>x. try_then (f x) g)"
  by (cases r) auto

lemma ok_or_simps [simp]: "ok_or e None = Inl e" "ok_or e (Some x) = Inr x"
  by (simp_all add: ok_or_def)

subsection \<open>Vectors: find-and-replace, or push\<close>

text \<open>
  The loop \<open>if let Some(slot) = v.iter_mut().find(p) {*slot = x} else {v.push(x)}\<close>.
\<close>

fun upsert_by :: "('a \<Rightarrow> bool) \<Rightarrow> 'a \<Rightarrow> 'a list \<Rightarrow> 'a list" where
  "upsert_by p x [] = [x]"
| "upsert_by p x (y # ys) = (if p y then x # ys else y # upsert_by p x ys)"

text \<open>The loop \<open>if let Some(slot) = v.iter_mut().find(p) {f(slot)}\<close>.\<close>

fun modify_first :: "('a \<Rightarrow> bool) \<Rightarrow> ('a \<Rightarrow> 'a) \<Rightarrow> 'a list \<Rightarrow> 'a list" where
  "modify_first p f [] = []"
| "modify_first p f (y # ys) = (if p y then f y # ys else y # modify_first p f ys)"

lemma upsert_by_append: "\<forall>y\<in>set xs. \<not> p y \<Longrightarrow> upsert_by p x (xs @ ys) = xs @ upsert_by p x ys"
  by (induction xs) auto

lemma upsert_by_push: "\<forall>y\<in>set xs. \<not> p y \<Longrightarrow> upsert_by p x xs = xs @ [x]"
  by (induction xs) auto

lemma set_upsert_by: "set (upsert_by p x xs) \<subseteq> insert x (set xs)"
  by (induction xs) auto

lemma in_set_upsert_by [intro, simp]: "x \<in> set (upsert_by p x xs)"
  by (induction xs) auto

lemma find_upsert_same [upsert_simps]: "p x \<Longrightarrow> find p (upsert_by p x xs) = Some x"
  by (induction xs) auto

lemma find_upsert_other [upsert_simps]:
  "(\<And>y. p y \<Longrightarrow> \<not> q y) \<Longrightarrow> \<not> q x \<Longrightarrow> find q (upsert_by p x xs) = find q xs"
  by (induction xs) auto

lemma filter_upsert_other [upsert_simps]:
  "(\<And>y. p y \<Longrightarrow> \<not> q y) \<Longrightarrow> \<not> q x \<Longrightarrow> filter q (upsert_by p x xs) = filter q xs"
  by (induction xs) auto

lemma map_upsert_key:
  "(\<And>y. p y \<longleftrightarrow> key y = key x) \<Longrightarrow>
   map key (upsert_by p x xs) = (if key x \<in> key ` set xs then map key xs else map key xs @ [key x])"
  by (induction xs) auto

lemma distinct_upsert_key:
  "(\<And>y. p y \<longleftrightarrow> key y = key x) \<Longrightarrow> distinct (map key xs) \<Longrightarrow>
   distinct (map key (upsert_by p x xs))"
  by (simp add: map_upsert_key)

lemma length_upsert_by:
  "length (upsert_by p x xs) = (if \<exists>y\<in>set xs. p y then length xs else Suc (length xs))"
  by (induction xs) auto

lemma upsert_upsert: "p x \<Longrightarrow> p y \<Longrightarrow> upsert_by p y (upsert_by p x xs) = upsert_by p y xs"
  by (induction xs) auto

lemma length_modify_first [simp]: "length (modify_first p f xs) = length xs"
  by (induction xs) auto

lemma find_modify_first:
  "(\<And>y. p (f y) \<longleftrightarrow> p y) \<Longrightarrow> find p (modify_first p f xs) = map_option f (find p xs)"
  by (induction xs) auto

lemma find_modify_other:
  "(\<And>y. p y \<Longrightarrow> \<not> q y \<and> \<not> q (f y)) \<Longrightarrow> find q (modify_first p f xs) = find q xs"
  by (induction xs) auto

lemma map_modify_first: "(\<And>y. p y \<Longrightarrow> k (f y) = k y) \<Longrightarrow> map k (modify_first p f xs) = map k xs"
  by (induction xs) auto

lemma find_append: "find p (xs @ ys) = (case find p xs of None \<Rightarrow> find p ys | Some x \<Rightarrow> Some x)"
  by (induction xs) auto

lemma find_SomeD: "find p xs = Some x \<Longrightarrow> x \<in> set xs \<and> p x"
  by (auto simp: find_Some_iff)

lemma find_filter_disjoint: "find q (filter p xs) = find (\<lambda>x. p x \<and> q x) xs"
  by (induction xs) auto

lemma find_Some_iff_unique:
  "distinct (map key xs) \<Longrightarrow> find (\<lambda>x. key x = k) xs = Some x \<longleftrightarrow> x \<in> set xs \<and> key x = k"
  by (induction xs) (auto simp: image_iff)

lemma find_None_key: "find (\<lambda>x. key x = k) xs = None \<longleftrightarrow> k \<notin> key ` set xs"
  by (induction xs) auto

lemma find_cong_pred: "(\<And>x. x \<in> set xs \<Longrightarrow> p x = q x) \<Longrightarrow> find p xs = find q xs"
  by (induction xs) auto

subsection \<open>Iterator maxima\<close>

text \<open>
  \<open>Iterator::max_by_key\<close> returns the last of several maximal elements; \<open>None\<close> on an
  empty iterator.
\<close>

fun max_by_key :: "('a \<Rightarrow> 'k::linorder) \<Rightarrow> 'a list \<Rightarrow> 'a option" where
  "max_by_key f [] = None"
| "max_by_key f (x # xs) =
     (case max_by_key f xs of None \<Rightarrow> Some x | Some y \<Rightarrow> if f x \<le> f y then Some y else Some x)"

lemma max_by_key_None [simp]: "max_by_key f xs = None \<longleftrightarrow> xs = []"
  by (cases xs) (auto split: option.splits)

lemma max_by_key_Some:
  "max_by_key f xs = Some y \<Longrightarrow> y \<in> set xs \<and> (\<forall>x\<in>set xs. f x \<le> f y)"
  by (induction xs arbitrary: y) (fastforce split: option.splits if_splits)+

lemma max_by_key_snoc:
  "max_by_key f (xs @ [x]) =
     (case max_by_key f xs of None \<Rightarrow> Some x | Some y \<Rightarrow> if f y \<le> f x then Some x else Some y)"
  by (induction xs) (auto split: option.splits)

subsection \<open>Ordered maps\<close>

text \<open>A \<open>BTreeMap\<close> (and \<open>serde_json::Map\<close>) as an association list sorted by key.\<close>

fun bt_insert :: "'k::linorder \<Rightarrow> 'v \<Rightarrow> ('k \<times> 'v) list \<Rightarrow> ('k \<times> 'v) list" where
  "bt_insert k v [] = [(k, v)]"
| "bt_insert k v ((k', v') # m) =
     (if k < k' then (k, v) # (k', v') # m
      else if k = k' then (k, v) # m
      else (k', v') # bt_insert k v m)"

definition bt_wf :: "('k::linorder \<times> 'v) list \<Rightarrow> bool" where
  "bt_wf m \<longleftrightarrow> sorted_wrt (<) (map fst m)"

lemma bt_wf_Nil [simp]: "bt_wf []"
  by (simp add: bt_wf_def)

lemma keys_bt_insert [btree_simps]: "fst ` set (bt_insert k v m) = insert k (fst ` set m)"
  by (induction m rule: bt_insert.induct) auto

lemma bt_wf_insert [btree_simps]: "bt_wf m \<Longrightarrow> bt_wf (bt_insert k v m)"
  unfolding bt_wf_def
proof (induction k v m rule: bt_insert.induct)
  case (2 k v k' v' m)
  have "fst x \<in> insert k (fst ` set m)" if "x \<in> set (bt_insert k v m)" for x
    using that by (metis image_eqI keys_bt_insert)
  with 2 show ?case by (fastforce split: if_splits)
qed simp

lemma map_of_bt_insert [btree_simps]: "map_of (bt_insert k v m) = (map_of m)(k \<mapsto> v)"
  by (induction k v m rule: bt_insert.induct) (auto simp: fun_eq_iff)

lemma bt_wf_distinct: "bt_wf m \<Longrightarrow> distinct (map fst m)"
  by (simp add: bt_wf_def strict_sorted_iff)

lemma bt_insert_not_Nil [simp]: "bt_insert k v m \<noteq> []"
  by (cases m) (auto split: if_splits)

lemma bt_wf_eqI:
  assumes "bt_wf a" and "bt_wf b" and "map_of a = map_of b"
  shows "a = b"
  using assms
proof (induction a arbitrary: b)
  case Nil
  then have "map_of b = Map.empty" by simp
  then show ?case by simp
next
  case (Cons x a)
  obtain k v where x: "x = (k, v)" by force
  have "map_of b k = Some v" using fun_cong [OF Cons.prems(3), of k] by (simp add: x)
  then obtain k' v' b' where b: "b = (k', v') # b'"
    by (cases b) auto
  have lt: "\<And>j. j \<in> fst ` set a \<Longrightarrow> k < j" "\<And>j. j \<in> fst ` set b' \<Longrightarrow> k' < j"
    using Cons.prems(1,2) by (auto simp: bt_wf_def x b)
  have eq: "\<And>j. (if j = k then Some v else map_of a j) = (if j = k' then Some v' else map_of b' j)"
    using fun_cong [OF Cons.prems(3)] by (simp add: x b fun_upd_def eq_commute)
  have kk: "k = k'"
  proof (rule ccontr)
    assume ne: "k \<noteq> k'"
    from eq [of k] ne have "k \<in> fst ` set b'"
      by (simp add: dom_map_of_conv_image_fst [symmetric] dom_def) (metis)
    moreover from eq [of k'] ne have "k' \<in> fst ` set a"
      by (simp add: dom_map_of_conv_image_fst [symmetric] domIff)
    ultimately show False using lt(1) [of k'] lt(2) [of k] by simp
  qed
  moreover have "v = v'" using eq [of k] kk by simp
  moreover have "map_of a = map_of b'"
  proof
    fix j
    show "map_of a j = map_of b' j"
    proof (cases "j = k")
      case True
      have "k \<notin> fst ` set a" "k \<notin> fst ` set b'" using lt(1) [of k] lt(2) [of k] kk by auto
      then show ?thesis using True by (simp add: map_of_eq_None_iff [symmetric])
    next
      case False
      then show ?thesis using eq [of j] kk by (simp split: if_splits)
    qed
  qed
  moreover have "bt_wf a" "bt_wf b'" using Cons.prems(1,2) by (simp_all add: bt_wf_def x b)
  ultimately show ?case using Cons.IH [of b'] by (simp add: x b)
qed

lemma bt_insert_commute:
  assumes "bt_wf m" and "j \<noteq> k"
  shows "bt_insert j v (bt_insert k w m) = bt_insert k w (bt_insert j v m)"
  using assms by (intro bt_wf_eqI) (auto simp: btree_simps fun_upd_twist)

subsection \<open>Stable sorting\<close>

text \<open>\<open>Vec::sort_by_key\<close> is stable; \<open>sort_key\<close> of HOL is as well.\<close>

lemma sorted_sort_key_map: "sorted (map f (sort_key f xs))"
  by simp

lemma sorted_map_unique:
  fixes f :: "'a \<Rightarrow> 'b::linorder"
  assumes "sorted_wrt (<) (map f xs)" and "sorted_wrt (<) (map f ys)" and "set xs = set ys"
  shows "xs = ys"
proof -
  have "map f xs = map f ys" using assms by (simp add: strict_sorted_equal)
  moreover have "inj_on f (set xs \<union> set ys)"
    using assms(1,3) by (simp add: strict_sorted_iff distinct_map)
  ultimately show ?thesis by (simp add: map_inj_on)
qed

lemma sort_key_id: "sorted (map f xs) \<Longrightarrow> sort_key f xs = xs"
proof (induction xs)
  case (Cons x xs)
  then have "sort_key f (x # xs) = insort_key f x xs" by simp
  also have "\<dots> = x # xs" using Cons.prems by (cases xs) auto
  finally show ?case .
qed simp

subsection \<open>Decimal printing\<close>

definition digit_char :: "nat \<Rightarrow> char" where
  "digit_char d = char_of (48 + d)"

fun show_nat :: "nat \<Rightarrow> string" where
  "show_nat n = (if n < 10 then [digit_char n] else show_nat (n div 10) @ [digit_char (n mod 10)])"

declare show_nat.simps [simp del]

definition show_int :: "int \<Rightarrow> string" where
  "show_int i = (if i < 0 then ''-'' @ show_nat (nat (- i)) else show_nat (nat i))"

fun read_digits :: "string \<Rightarrow> nat" where
  "read_digits [] = 0"
| "read_digits (c # cs) = (of_char c - 48) * 10 ^ length cs + read_digits cs"

lemma read_digits_snoc: "read_digits (xs @ [c]) = read_digits xs * 10 + (of_char c - 48)"
  by (induction xs) (auto simp: algebra_simps)

lemma of_char_digit: "d < 10 \<Longrightarrow> (of_char (digit_char d) :: nat) = 48 + d"
  by (simp add: digit_char_def)

lemma read_show_nat: "read_digits (show_nat n) = n"
proof (induction n rule: show_nat.induct)
  case (1 n)
  then show ?case
    by (subst show_nat.simps) (auto simp: read_digits_snoc of_char_digit)
qed

lemma show_nat_inj: "show_nat m = show_nat n \<Longrightarrow> m = n"
  by (metis read_show_nat)

subsection \<open>Strings\<close>

text \<open>\<open>slice.join(sep)\<close>.\<close>

fun join_with :: "'a list \<Rightarrow> 'a list list \<Rightarrow> 'a list" where
  "join_with sep [] = []"
| "join_with sep [x] = x"
| "join_with sep (x # y # zs) = x @ sep @ join_with sep (y # zs)"

subsection \<open>Joined tasks\<close>

text \<open>
  Awaiting a spawned task gives its result, or a join error (with its message) when the task
  panicked. The sources await the handles in the order they were spawned and return on the
  first failure; every task was started before the first one is awaited.
\<close>

datatype ('e, 'a) joined = Joined "'e + 'a" | JoinErr string

fun await_all :: "(string \<Rightarrow> 'e) \<Rightarrow> ('e, 'a) joined list \<Rightarrow> 'e + 'a list" where
  "await_all je [] = Inr []"
| "await_all je (JoinErr m # hs) = Inl (je m)"
| "await_all je (Joined (Inl e) # hs) = Inl e"
| "await_all je (Joined (Inr x) # hs) = try_then (await_all je hs) (\<lambda>xs. Inr (x # xs))"

lemma await_all_Inr: "await_all je hs = Inr xs \<longleftrightarrow> hs = map (\<lambda>x. Joined (Inr x)) xs"
  by (induction hs arbitrary: xs rule: await_all.induct) (auto simp: try_then_eq_Inr)

lemma await_all_ok [simp]: "await_all je (map (\<lambda>x. Joined (Inr x)) xs) = Inr xs"
  by (simp add: await_all_Inr)

end
