(* ===== verification/Core.thy ===== *)
theory Core
  imports Prelude
begin

text \<open>
  The crate \<open>crates/core\<close>: the open value type, the error type, the four budgets and the
  memory records every other crate passes around.
\<close>

subsection \<open>Values (core/src/value.rs)\<close>

text \<open>
  \<open>Value\<close> is \<open>serde_json::Value\<close>. The constructors are the ones the sources match on; a
  number is an integer in the \<open>i64\<close>/\<open>u64\<close> range or a float kept as its bit pattern,
  an object is an ordered map with string keys. The accessors below are the documented ones
  (\<open>get\<close>, \<open>as_str\<close>, ...). Printing and parsing of JSON text is not modelled: where the code
  prints or parses a value, the printer or parser is an argument.
\<close>

datatype number = IntN int | FloatN u64

datatype json =
    Null
  | Bool bool
  | Number number
  | String string
  | Array "json list"
  | Object "(string \<times> json) list"

fun jget :: "json \<Rightarrow> string \<Rightarrow> json option" where
  "jget (Object m) k = map_of m k"
| "jget _ k = None"

fun as_str :: "json \<Rightarrow> string option" where
  "as_str (String s) = Some s"
| "as_str _ = None"

fun as_bool :: "json \<Rightarrow> bool option" where
  "as_bool (Bool b) = Some b"
| "as_bool _ = None"

fun as_i64 :: "json \<Rightarrow> int option" where
  "as_i64 (Number (IntN i)) = (if - (2 ^ 63) \<le> i \<and> i < 2 ^ 63 then Some i else None)"
| "as_i64 _ = None"

fun as_u64 :: "json \<Rightarrow> nat option" where
  "as_u64 (Number (IntN i)) = (if 0 \<le> i \<and> i < 2 ^ 64 then Some (nat i) else None)"
| "as_u64 _ = None"

fun as_array :: "json \<Rightarrow> json list option" where
  "as_array (Array xs) = Some xs"
| "as_array _ = None"

fun as_object :: "json \<Rightarrow> (string \<times> json) list option" where
  "as_object (Object m) = Some m"
| "as_object _ = None"

text \<open>\<open>value.get(k).and_then(|v| v.as_str())\<close> and its kin.\<close>

definition get_str :: "json \<Rightarrow> string \<Rightarrow> string option" where
  "get_str v k = Option.bind (jget v k) as_str"

definition get_bool :: "json \<Rightarrow> string \<Rightarrow> bool option" where
  "get_bool v k = Option.bind (jget v k) as_bool"

definition get_i64 :: "json \<Rightarrow> string \<Rightarrow> int option" where
  "get_i64 v k = Option.bind (jget v k) as_i64"

definition get_u64 :: "json \<Rightarrow> string \<Rightarrow> nat option" where
  "get_u64 v k = Option.bind (jget v k) as_u64"

text \<open>An object literal \<open>json!({k: v, ...})\<close>: the pairs are inserted one by one.\<close>

fun obj_insert_all :: "(string \<times> json) list \<Rightarrow> (string \<times> json) list \<Rightarrow> (string \<times> json) list" where
  "obj_insert_all [] m = m"
| "obj_insert_all ((k, v) # kvs) m = obj_insert_all kvs (bt_insert k v m)"

definition obj_of :: "(string \<times> json) list \<Rightarrow> json" where
  "obj_of kvs = Object (obj_insert_all kvs [])"

text \<open>Well-formed values: every object is an ordered map. All values the code can build are.\<close>

fun wf_json :: "json \<Rightarrow> bool" where
  "wf_json (Array xs) = (\<forall>x\<in>set xs. wf_json x)"
| "wf_json (Object m) = (bt_wf m \<and> (\<forall>p\<in>set m. wf_json (snd p)))"
| "wf_json _ = True"

lemma set_bt_insert: "set (bt_insert k v m) \<subseteq> insert (k, v) (set m)"
  by (induction k v m rule: bt_insert.induct) auto

lemma map_of_obj_insert_all [btree_simps]:
  "map_of (obj_insert_all kvs m) = map_of m ++ map_of (rev kvs)"
  by (induction kvs m rule: obj_insert_all.induct)
     (auto simp: btree_simps map_add_def fun_eq_iff split: option.splits)

lemma bt_wf_obj_insert_all [btree_simps]: "bt_wf m \<Longrightarrow> bt_wf (obj_insert_all kvs m)"
  by (induction kvs m rule: obj_insert_all.induct) (auto simp: btree_simps)

lemma jget_obj_of: "jget (obj_of kvs) k = map_of (rev kvs) k"
  by (simp add: obj_of_def btree_simps)

lemma obj_insert_all_append:
  "obj_insert_all (xs @ ys) m = obj_insert_all ys (obj_insert_all xs m)"
  by (induction xs m rule: obj_insert_all.induct) auto

subsection \<open>Errors (core/src/error.rs)\<close>

datatype agent_error =
    BudgetExceeded string
  | Strategy string
  | Tool string
  | Memory string
  | Inference string
  | PolicyDenied string
  | Workflow string
  | Harness string
  | Serde string
  | Internal string

text \<open>\<open>to_string\<close> of the derived \<open>Display\<close>.\<close>

fun error_text :: "agent_error \<Rightarrow> string" where
  "error_text (BudgetExceeded m) = ''budget exceeded: '' @ m"
| "error_text (Strategy m) = ''strategy resolution failed: '' @ m"
| "error_text (Tool m) = ''tool invocation failed: '' @ m"
| "error_text (Memory m) = ''memory operation failed: '' @ m"
| "error_text (Inference m) = ''inference call failed: '' @ m"
| "error_text (PolicyDenied m) = ''policy denied: '' @ m"
| "error_text (Workflow m) = ''workflow error: '' @ m"
| "error_text (Harness m) = ''harness error: '' @ m"
| "error_text (Serde m) = ''serialization error: '' @ m"
| "error_text (Internal m) = ''internal: '' @ m"

type_synonym 'a result = "agent_error + 'a"

subsection \<open>Message roles (core/src/context.rs)\<close>

datatype message_role = RoleSystem | RoleUser | RoleAssistant | RoleTool

subsection \<open>Token budget (core/src/budget.rs)\<close>

record token_budget =
  tb_remaining :: u32
  tb_reserved :: u32

definition tb_new :: "u32 \<Rightarrow> token_budget" where
  "tb_new n = \<lparr>tb_remaining = n, tb_reserved = 0\<rparr>"

definition tb_consume :: "token_budget \<Rightarrow> u32 \<Rightarrow> token_budget result" where
  "tb_consume b n =
     (if n > tb_remaining b then Inl (BudgetExceeded ''tokens'')
      else Inr (b\<lparr>tb_remaining := tb_remaining b - n\<rparr>))"

definition tb_reserve :: "token_budget \<Rightarrow> u32 \<Rightarrow> token_budget result" where
  "tb_reserve b n =
     (if n > tb_remaining b then Inl (BudgetExceeded ''tokens'')
      else Inr \<lparr>tb_remaining = tb_remaining b - n, tb_reserved = tb_reserved b + n\<rparr>)"

definition tb_release :: "token_budget \<Rightarrow> u32 \<Rightarrow> token_budget" where
  "tb_release b n =
     (let n = min n (tb_reserved b)
      in \<lparr>tb_remaining = tb_remaining b + n, tb_reserved = tb_reserved b - n\<rparr>)"

definition tb_split :: "token_budget \<Rightarrow> u32 \<Rightarrow> token_budget list" where
  "tb_split b n =
     (if n = 0 then []
      else (let per = tb_remaining b div n in map (\<lambda>_. tb_new per) [0..<unat n]))"

text \<open>
  The tokens a budget still accounts for, as a number. The checked arithmetic of a debug build
  would panic where the word arithmetic here wraps; \<open>tb_wf\<close> says that neither happens.
\<close>

definition tb_total :: "token_budget \<Rightarrow> nat" where
  "tb_total b = unat (tb_remaining b) + unat (tb_reserved b)"

definition tb_wf :: "token_budget \<Rightarrow> bool" where
  "tb_wf b \<longleftrightarrow> tb_total b < 2 ^ 32"

lemma unat_sub_le: "(n :: 'a::len word) \<le> m \<Longrightarrow> unat (m - n) = unat m - unat n"
  by (simp add: unat_sub_if_size word_le_nat_alt)

lemma unat_add_small: "unat (m :: u32) + unat n < 2 ^ 32 \<Longrightarrow> unat (m + n) = unat m + unat n"
  by (simp add: unat_word_ariths)

lemma tb_new_wf [simp]: "tb_wf (tb_new n)"
  using unsigned_less [of n] by (simp add: tb_wf_def tb_total_def tb_new_def)

lemma tb_consume_Inr:
  "tb_consume b n = Inr b' \<longleftrightarrow> n \<le> tb_remaining b \<and> b' = b\<lparr>tb_remaining := tb_remaining b - n\<rparr>"
  by (auto simp: tb_consume_def not_less)

lemma tb_consume_total: "tb_consume b n = Inr b' \<Longrightarrow> tb_total b = tb_total b' + unat n"
  by (auto simp: tb_consume_Inr tb_total_def unat_sub_le word_le_nat_alt)

lemma tb_reserve_total:
  assumes "tb_wf b" and "tb_reserve b n = Inr b'"
  shows "tb_total b' = tb_total b" and "tb_wf b'"
proof -
  from assms(2) have le: "unat n \<le> unat (tb_remaining b)"
    and b': "b' = \<lparr>tb_remaining = tb_remaining b - n, tb_reserved = tb_reserved b + n\<rparr>"
    by (auto simp: tb_reserve_def word_less_nat_alt split: if_splits)
  from assms(1) le have "unat (tb_reserved b) + unat n < 2 ^ 32"
    by (simp add: tb_wf_def tb_total_def)
  then have "unat (tb_reserved b + n) = unat (tb_reserved b) + unat n" by (rule unat_add_small)
  with le show "tb_total b' = tb_total b"
    by (simp add: b' tb_total_def unat_sub_le word_le_nat_alt)
  with assms(1) show "tb_wf b'" by (simp add: tb_wf_def)
qed

lemma tb_release_total:
  assumes "tb_wf b"
  shows "tb_total (tb_release b n) = tb_total b" and "tb_wf (tb_release b n)"
proof -
  let ?n = "min n (tb_reserved b)"
  have le: "unat ?n \<le> unat (tb_reserved b)" by (simp add: word_le_nat_alt [symmetric])
  with assms have "unat (tb_remaining b) + unat ?n < 2 ^ 32" by (simp add: tb_wf_def tb_total_def)
  then have "unat (tb_remaining b + ?n) = unat (tb_remaining b) + unat ?n" by (rule unat_add_small)
  with le show "tb_total (tb_release b n) = tb_total b"
    by (simp add: tb_total_def tb_release_def Let_def unat_sub_le)
  with assms show "tb_wf (tb_release b n)" by (simp add: tb_wf_def)
qed

lemma tb_reserve_release:
  assumes "tb_reserve b n = Inr b'" and "tb_wf b"
  shows "tb_release b' n = b"
proof -
  from assms(1) have le: "unat n \<le> unat (tb_remaining b)"
    and b': "b' = \<lparr>tb_remaining = tb_remaining b - n, tb_reserved = tb_reserved b + n\<rparr>"
    by (auto simp: tb_reserve_def word_less_nat_alt split: if_splits)
  from assms(2) le have "unat (tb_reserved b) + unat n < 2 ^ 32"
    by (simp add: tb_wf_def tb_total_def)
  then have "unat (tb_reserved b + n) = unat (tb_reserved b) + unat n" by (rule unat_add_small)
  then have "min n (tb_reserved b + n) = n" by (simp add: min_def word_le_nat_alt)
  then show ?thesis by (simp add: b' tb_release_def Let_def)
qed

lemma tb_split_length: "length (tb_split b n) = unat n"
  by (simp add: tb_split_def Let_def)

lemma tb_split_sum: "sum_list (map (\<lambda>s. unat (tb_remaining s)) (tb_split b n)) \<le> unat (tb_remaining b)"
  by (simp add: tb_split_def Let_def tb_new_def map_replicate_const [symmetric] sum_list_triv comp_def
      unat_div mult.commute)

subsection \<open>Time, money and iteration budgets (core/src/budget.rs)\<close>

text \<open>A duration is its number of milliseconds, \<open>as_millis\<close>, a \<open>u128\<close> in the code.\<close>

record time_budget =
  remaining_ms :: u64

definition time_new :: "nat \<Rightarrow> time_budget" where
  "time_new d = \<lparr>remaining_ms = of_nat (min d (2 ^ 64 - 1))\<rparr>"

definition time_consume :: "time_budget \<Rightarrow> nat \<Rightarrow> time_budget result" where
  "time_consume b d =
     (let ms = (of_nat d :: u64)
      in if ms > remaining_ms b then Inl (BudgetExceeded ''time'')
         else Inr (b\<lparr>remaining_ms := remaining_ms b - ms\<rparr>))"

record money_budget =
  remaining_micro_usd :: u64

definition consume_micro :: "money_budget \<Rightarrow> u64 \<Rightarrow> money_budget result" where
  "consume_micro b micro =
     (if micro > remaining_micro_usd b then Inl (BudgetExceeded ''money'')
      else Inr (b\<lparr>remaining_micro_usd := remaining_micro_usd b - micro\<rparr>))"

record iteration_budget =
  it_remaining :: u32

definition it_new :: "u32 \<Rightarrow> iteration_budget" where
  "it_new n = \<lparr>it_remaining = n\<rparr>"

definition consume_one :: "iteration_budget \<Rightarrow> iteration_budget result" where
  "consume_one b =
     (if it_remaining b = 0 then Inl (BudgetExceeded ''iterations'')
      else Inr (b\<lparr>it_remaining := it_remaining b - 1\<rparr>))"

lemma consume_one_Inr:
  "consume_one b = Inr b' \<Longrightarrow> unat (it_remaining b) = Suc (unat (it_remaining b'))"
  by (auto simp: consume_one_def unat_minus_one unat_gt_0 split: if_splits)

lemma consume_micro_Inr:
  "consume_micro b m = Inr b' \<Longrightarrow>
   unat (remaining_micro_usd b) = unat (remaining_micro_usd b') + unat m"
  by (auto simp: consume_micro_def unat_sub_le word_le_nat_alt not_less split: if_splits)

subsection \<open>A ledger of budget operations\<close>

text \<open>What callers do with a token budget, one operation at a time; a refused operation leaves it as it was.\<close>

datatype budget_op = Consume u32 | Reserve u32 | Release u32

definition budget_step :: "token_budget \<Rightarrow> budget_op \<Rightarrow> token_budget \<times> nat" where
  "budget_step b p =
     (case p of
        Consume n \<Rightarrow> (case tb_consume b n of Inl _ \<Rightarrow> (b, 0) | Inr b' \<Rightarrow> (b', unat n))
      | Reserve n \<Rightarrow> (case tb_reserve b n of Inl _ \<Rightarrow> (b, 0) | Inr b' \<Rightarrow> (b', 0))
      | Release n \<Rightarrow> (tb_release b n, 0))"

fun budget_run :: "token_budget \<Rightarrow> budget_op list \<Rightarrow> token_budget \<times> nat" where
  "budget_run b [] = (b, 0)"
| "budget_run b (p # ps) =
     (case budget_step b p of (b', n) \<Rightarrow> (case budget_run b' ps of (b'', m) \<Rightarrow> (b'', n + m)))"

lemma tb_consume_wf: "tb_wf b \<Longrightarrow> tb_consume b n = Inr b' \<Longrightarrow> tb_wf b'"
  using tb_consume_total [of b n b'] by (simp add: tb_wf_def)

lemma budget_step_total:
  "tb_wf b \<Longrightarrow> tb_wf (fst (budget_step b p)) \<and> tb_total b = tb_total (fst (budget_step b p)) + snd (budget_step b p)"
proof (cases p)
  case (Consume n)
  then show "tb_wf b \<Longrightarrow> ?thesis"
    by (cases "tb_consume b n") (simp_all add: budget_step_def tb_consume_wf tb_consume_total)
next
  case (Reserve n)
  then show "tb_wf b \<Longrightarrow> ?thesis"
    by (cases "tb_reserve b n") (simp_all add: budget_step_def tb_reserve_total)
next
  case (Release n)
  then show "tb_wf b \<Longrightarrow> ?thesis"
    by (simp add: budget_step_def tb_release_total)
qed

text \<open>
  A token budget is a ledger: after any sequence of consumptions, reservations and releases,
  refused ones included, what remains plus what is reserved plus what was consumed is what it was
  created with, and no 32-bit counter wraps on the way.
\<close>

theorem budget_conserved:
  "tb_wf (fst (budget_run (tb_new n) ops)) \<and>
   tb_total (fst (budget_run (tb_new n) ops)) + snd (budget_run (tb_new n) ops) = unat n"
proof -
  have "tb_wf b \<Longrightarrow> tb_wf (fst (budget_run b ops)) \<and>
      tb_total (fst (budget_run b ops)) + snd (budget_run b ops) = tb_total b" for b
  proof (induction b ops rule: budget_run.induct)
    case (2 b p ps)
    obtain b' m where "budget_step b p = (b', m)" by force
    with 2 budget_step_total [of b p] show ?case by (auto split: prod.splits)
  qed simp
  moreover have "tb_total (tb_new n) = unat n" by (simp add: tb_total_def tb_new_def)
  ultimately show ?thesis using tb_new_wf [of n] by metis
qed

end
