(* ===== verification/State.thy ===== *)
theory State
  imports Core
begin

text \<open>
  The crate \<open>crates/state\<close>, first half: the per-channel reducers (\<open>reducer.rs\<close>), the
  schema of declared channels (\<open>schema.rs\<close>) and the running state of a workflow run
  (\<open>state.rs\<close>). The lemmas show what a batch of writes does to each channel, which writes may
  be reordered, and for which reducers two batches may be merged before they are applied.
\<close>

subsection \<open>Reducers (state/src/reducer.rs)\<close>

type_synonym reducer = "json \<Rightarrow> json \<Rightarrow> json"

text \<open>The \<open>match\<close> that reads a value as a vector: an array as it is, null as empty, else singleton.\<close>

fun list_of :: "json \<Rightarrow> json list" where
  "list_of (Array v) = v"
| "list_of Null = []"
| "list_of other = [other]"

definition last_write_wins :: reducer where
  "last_write_wins current incoming = incoming"

definition append_list :: reducer where
  "append_list current incoming = Array (list_of current @ list_of incoming)"

definition msg_id :: "json \<Rightarrow> string option" where
  "msg_id m = get_str m ''id''"

definition append_msg :: "json list \<Rightarrow> json \<Rightarrow> json list" where
  "append_msg out m =
     (case msg_id m of
        Some i \<Rightarrow> upsert_by (\<lambda>x. msg_id x = Some i) m out
      | None \<Rightarrow> out @ [m])"

definition append_messages :: reducer where
  "append_messages current incoming = Array (foldl append_msg (list_of current) (list_of incoming))"

definition merge_map :: reducer where
  "merge_map current incoming =
     (let base = (case current of Object m \<Rightarrow> m | _ \<Rightarrow> [])
      in Object (case incoming of Object m \<Rightarrow> obj_insert_all m base | _ \<Rightarrow> base))"

definition ts_ms :: "json \<Rightarrow> int" where
  "ts_ms v = (case get_i64 v ''ts_ms'' of None \<Rightarrow> - (2 ^ 63) | Some t \<Rightarrow> t)"

definition max_by_timestamp :: reducer where
  "max_by_timestamp current incoming = (if ts_ms incoming \<ge> ts_ms current then incoming else current)"

subsection \<open>Reducers: merging two batches first\<close>

lemma append_msg_same: "msg_id x = Some i \<Longrightarrow> msg_id y = Some i \<Longrightarrow>
    append_msg (append_msg out x) y = append_msg out y"
  by (simp add: append_msg_def upsert_upsert)

lemma upsert_id_commute:
  assumes "i \<noteq> j" and "msg_id x = Some i" and "msg_id y = Some j" and "\<exists>z\<in>set out. msg_id z = Some i"
  shows "upsert_by (\<lambda>z. msg_id z = Some j) y (upsert_by (\<lambda>z. msg_id z = Some i) x out)
       = upsert_by (\<lambda>z. msg_id z = Some i) x (upsert_by (\<lambda>z. msg_id z = Some j) y out)"
  using assms by (induction out) auto

lemma append_msg_commute:
  assumes "msg_id x = Some i" and "msg_id y \<noteq> Some i" and "\<exists>z\<in>set out. msg_id z = Some i"
  shows "append_msg (append_msg out x) y = append_msg (append_msg out y) x"
proof (cases "msg_id y")
  case None
  have "upsert_by (\<lambda>z. msg_id z = Some i) x (out @ [y]) = upsert_by (\<lambda>z. msg_id z = Some i) x out @ [y]"
    using assms(3) by (induction out) auto
  with None assms(1) show ?thesis by (simp add: append_msg_def)
next
  case (Some j)
  with assms(2) have "i \<noteq> j" by auto
  with Some assms(1,3) show ?thesis by (simp add: append_msg_def upsert_id_commute)
qed

lemma set_append_msg_id: "msg_id z = Some i \<Longrightarrow> z \<in> set out \<Longrightarrow>
    \<exists>z\<in>set (append_msg out y). msg_id z = Some i"
proof (induction out)
  case (Cons a out)
  then show ?case by (cases "msg_id y") (auto simp: append_msg_def)
qed simp

lemma append_msg_over_fold:
  assumes "msg_id x = Some i" and "\<exists>z\<in>set out. msg_id z = Some i"
    and "\<forall>y\<in>set ys. msg_id y \<noteq> Some i"
  shows "foldl append_msg (append_msg out x) ys = append_msg (foldl append_msg out ys) x"
  using assms(2,3)
proof (induction ys arbitrary: out)
  case (Cons y ys)
  then have "append_msg (append_msg out x) y = append_msg (append_msg out y) x"
    using assms(1) by (intro append_msg_commute) auto
  moreover have "\<exists>z\<in>set (append_msg out y). msg_id z = Some i"
    using Cons.prems(1) set_append_msg_id by blast
  ultimately show ?case using Cons by simp
qed simp

text \<open>The messages of a vector that carry an id carry pairwise different ones.\<close>

fun ids_distinct :: "json list \<Rightarrow> bool" where
  "ids_distinct [] = True"
| "ids_distinct (x # xs) =
     ((msg_id x = None \<or> (\<forall>y\<in>set xs. msg_id y \<noteq> msg_id x)) \<and> ids_distinct xs)"

lemma ids_distinct_append_msg: "ids_distinct out \<Longrightarrow> ids_distinct (append_msg out m)"
proof (cases "msg_id m")
  case None
  then show "ids_distinct out \<Longrightarrow> ids_distinct (append_msg out m)"
    by (induction out) (auto simp: append_msg_def)
next
  case (Some i)
  have "ids_distinct out \<Longrightarrow> ids_distinct (upsert_by (\<lambda>x. msg_id x = Some i) m out)"
  proof (induction out)
    case (Cons a out)
    then show ?case using Some set_upsert_by [of "\<lambda>x. msg_id x = Some i" m out] by fastforce
  qed simp
  with Some show "ids_distinct out \<Longrightarrow> ids_distinct (append_msg out m)" by (simp add: append_msg_def)
qed

lemma ids_distinct_fold: "ids_distinct out \<Longrightarrow> ids_distinct (foldl append_msg out ms)"
  by (induction ms arbitrary: out) (auto intro: ids_distinct_append_msg)

lemma fold_append_msg:
  assumes "ids_distinct b"
  shows "foldl append_msg a (append_msg b m) = append_msg (foldl append_msg a b) m"
proof (cases "msg_id m")
  case None
  then show ?thesis by (simp add: append_msg_def)
next
  case (Some i)
  let ?p = "\<lambda>x. msg_id x = Some i"
  from assms have "foldl append_msg a (upsert_by ?p m b) = append_msg (foldl append_msg a b) m"
  proof (induction b arbitrary: a)
    case (Cons y b)
    show ?case
    proof (cases "?p y")
      case True
      then have other: "\<forall>z\<in>set b. msg_id z \<noteq> Some i" using Cons.prems by auto
      have "\<exists>z\<in>set (append_msg a y). msg_id z = Some i" using True by (auto simp: append_msg_def)
      then have "foldl append_msg (append_msg (append_msg a y) m) b
          = append_msg (foldl append_msg (append_msg a y) b) m"
        using Some other by (intro append_msg_over_fold) auto
      with True Some show ?thesis by (simp add: append_msg_same)
    next
      case False
      with Cons show ?thesis by simp
    qed
  qed simp
  with Some show ?thesis by (simp add: append_msg_def)
qed

lemma fold_append_msgs:
  "ids_distinct b \<Longrightarrow> foldl append_msg a (foldl append_msg b c) = foldl append_msg (foldl append_msg a b) c"
  by (induction c arbitrary: b) (simp_all add: fold_append_msg ids_distinct_append_msg)

lemma append_messages_assoc:
  "ids_distinct (list_of b) \<Longrightarrow>
   append_messages (append_messages a b) c = append_messages a (append_messages b c)"
  by (simp add: append_messages_def fold_append_msgs)

lemma last_write_wins_assoc: "last_write_wins (last_write_wins a b) c = last_write_wins a (last_write_wins b c)"
  by (simp add: last_write_wins_def)

lemma append_list_assoc: "append_list (append_list a b) c = append_list a (append_list b c)"
  by (simp add: append_list_def)

lemma max_by_timestamp_assoc:
  "max_by_timestamp (max_by_timestamp a b) c = max_by_timestamp a (max_by_timestamp b c)"
  by (simp add: max_by_timestamp_def)

definition obj_fields :: "json \<Rightarrow> (string \<times> json) list" where
  "obj_fields v = (case v of Object m \<Rightarrow> m | _ \<Rightarrow> [])"

lemma merge_map_fields: "merge_map a b = Object (obj_insert_all (obj_fields b) (obj_fields a))"
  by (simp add: merge_map_def obj_fields_def Let_def split: json.splits)

lemma obj_fields_merge [simp]:
  "obj_fields (merge_map a b) = obj_insert_all (obj_fields b) (obj_fields a)"
  by (simp add: merge_map_fields) (simp add: obj_fields_def)

lemma bt_wf_obj_fields: "wf_json v \<Longrightarrow> bt_wf (obj_fields v)"
  by (cases v) (auto simp: obj_fields_def)

lemma map_of_rev_distinct: "distinct (map fst m) \<Longrightarrow> map_of (rev m) = map_of m"
  by (simp add: map_of_inject_set rev_map [symmetric] distinct_rev flip: rev_map)

lemma map_of_merge_map:
  "wf_json b \<Longrightarrow> map_of (obj_fields (merge_map a b)) = map_of (obj_fields a) ++ map_of (obj_fields b)"
  by (simp add: btree_simps map_of_rev_distinct bt_wf_distinct bt_wf_obj_fields)

lemma merge_map_assoc:
  assumes "wf_json a" and "wf_json b" and "wf_json c"
  shows "merge_map (merge_map a b) c = merge_map a (merge_map b c)"
proof -
  let ?f = obj_fields
  have wf: "bt_wf (?f a)" "bt_wf (?f b)" "bt_wf (?f c)"
    using assms by (simp_all add: bt_wf_obj_fields)
  have rev: "\<And>m :: (string \<times> json) list. bt_wf m \<Longrightarrow> map_of (rev m) = map_of m"
    by (simp add: map_of_rev_distinct bt_wf_distinct)
  have "obj_insert_all (?f c) (obj_insert_all (?f b) (?f a))
      = obj_insert_all (obj_insert_all (?f c) (?f b)) (?f a)"
    using wf by (intro bt_wf_eqI) (simp_all add: btree_simps rev map_add_assoc)
  then show ?thesis by (simp add: merge_map_fields obj_fields_def)
qed

subsection \<open>Schema (state/src/schema.rs)\<close>

record channel =
  ch_key :: string
  ch_reducer :: reducer
  ch_default :: json

type_synonym state_schema = "string \<rightharpoonup> channel"

definition schema_builder :: state_schema where
  "schema_builder = Map.empty"

definition schema_add :: "state_schema \<Rightarrow> string \<Rightarrow> reducer \<Rightarrow> state_schema" where
  "schema_add b key r = b(key \<mapsto> \<lparr>ch_key = key, ch_reducer = r, ch_default = Null\<rparr>)"

definition schema_add_with_default ::
  "state_schema \<Rightarrow> string \<Rightarrow> reducer \<Rightarrow> json \<Rightarrow> state_schema" where
  "schema_add_with_default b key r d = b(key \<mapsto> \<lparr>ch_key = key, ch_reducer = r, ch_default = d\<rparr>)"

definition schema_add_lww :: "state_schema \<Rightarrow> string \<Rightarrow> state_schema" where
  "schema_add_lww b key = b(key \<mapsto> \<lparr>ch_key = key, ch_reducer = (\<lambda>_ n. n), ch_default = Null\<rparr>)"

definition schema_defaults :: "state_schema \<Rightarrow> (string \<rightharpoonup> json)" where
  "schema_defaults sch = (\<lambda>k. map_option ch_default (sch k))"

subsection \<open>Run state (state/src/state.rs)\<close>

type_synonym writes = "(string \<times> json) list"
type_synonym valuation = "string \<rightharpoonup> json"

record run_state =
  rs_schema :: state_schema
  rs_values :: valuation
  rs_super_step :: nat

definition run_state_new :: "state_schema \<Rightarrow> run_state" where
  "run_state_new sch = \<lparr>rs_schema = sch, rs_values = schema_defaults sch, rs_super_step = 0\<rparr>"

definition from_snapshot :: "state_schema \<Rightarrow> valuation \<Rightarrow> nat \<Rightarrow> run_state" where
  "from_snapshot sch vs n = \<lparr>rs_schema = sch, rs_values = vs, rs_super_step = n\<rparr>"

definition rs_advance :: "run_state \<Rightarrow> run_state" where
  "rs_advance s = s\<lparr>rs_super_step := rs_super_step s + 1\<rparr>"

definition rs_read :: "run_state \<Rightarrow> string \<Rightarrow> json" where
  "rs_read s key = (case rs_values s key of None \<Rightarrow> Null | Some v \<Rightarrow> v)"

definition quoted :: "string \<Rightarrow> string" where
  "quoted s = [CHR 0x27] @ s @ [CHR 0x27]"

definition rs_write :: "run_state \<Rightarrow> string \<Rightarrow> json \<Rightarrow> run_state result" where
  "rs_write s key v =
     (case rs_schema s key of
        None \<Rightarrow> Inl (Internal (''unknown channel '' @ quoted key))
      | Some ch \<Rightarrow>
          (let current = rs_read s key; merged = ch_reducer ch current v
           in Inr (s\<lparr>rs_values := (rs_values s)(key \<mapsto> merged)\<rparr>)))"

text \<open>
  A batch stops at the first unknown channel; the writes before it have been applied to the
  state (\<open>&mut self\<close>) by then.
\<close>

fun merge_writes :: "run_state \<Rightarrow> writes \<Rightarrow> unit result \<times> run_state" where
  "merge_writes s [] = (Inr (), s)"
| "merge_writes s ((k, v) # ws) =
     (case rs_write s k v of
        Inl e \<Rightarrow> (Inl e, s)
      | Inr s' \<Rightarrow> merge_writes s' ws)"

subsection \<open>What a batch of writes does\<close>

lemma rs_write_Inr:
  "rs_write s k v = Inr s' \<longleftrightarrow>
   (\<exists>ch. rs_schema s k = Some ch \<and>
         s' = s\<lparr>rs_values := (rs_values s)(k \<mapsto> ch_reducer ch (rs_read s k) v)\<rparr>)"
  by (auto simp: rs_write_def Let_def split: option.splits)

lemma merge_writes_schema [simp]: "rs_schema (snd (merge_writes s ws)) = rs_schema s"
  by (induction s ws rule: merge_writes.induct) (auto simp: rs_write_Inr split: sum.splits)

lemma merge_writes_super_step [simp]: "rs_super_step (snd (merge_writes s ws)) = rs_super_step s"
  by (induction s ws rule: merge_writes.induct) (auto simp: rs_write_Inr split: sum.splits)

lemma merge_writes_ok_iff:
  "fst (merge_writes s ws) = Inr () \<longleftrightarrow> fst ` set ws \<subseteq> dom (rs_schema s)"
  by (induction s ws rule: merge_writes.induct)
     (auto simp: rs_write_def Let_def split: option.splits sum.splits)

definition writes_to :: "string \<Rightarrow> writes \<Rightarrow> json list" where
  "writes_to k ws = map snd (filter (\<lambda>w. fst w = k) ws)"

lemma writes_to_simps [simp]:
  "writes_to k [] = []"
  "writes_to k ((j, v) # ws) = (if j = k then v # writes_to k ws else writes_to k ws)"
  "writes_to k (ws @ ws') = writes_to k ws @ writes_to k ws'"
  by (simp_all add: writes_to_def)

lemma merge_writes_channel:
  assumes "fst (merge_writes s ws) = Inr ()"
  shows "rs_values (snd (merge_writes s ws)) k =
    (if writes_to k ws = [] then rs_values s k
     else Some (foldl (ch_reducer (the (rs_schema s k))) (rs_read s k) (writes_to k ws)))"
  using assms
proof (induction s ws rule: merge_writes.induct)
  case (2 s j v ws)
  from "2.prems" obtain ch where ch: "rs_schema s j = Some ch"
    by (auto simp: rs_write_def split: option.splits)
  define s' where "s' = s\<lparr>rs_values := (rs_values s)(j \<mapsto> ch_reducer ch (rs_read s j) v)\<rparr>"
  have w: "rs_write s j v = Inr s'" by (simp add: rs_write_Inr ch s'_def)
  from "2.prems" have ok: "fst (merge_writes s' ws) = Inr ()" by (simp add: w)
  note IH = "2.IH" [OF w ok]
  have rd: "rs_read s' i = (if i = j then ch_reducer ch (rs_read s j) v else rs_read s i)" for i
    by (simp add: s'_def rs_read_def)
  have sch: "rs_schema s' = rs_schema s" and vals: "rs_values s' i = (if i = j then Some (rs_read s' j) else rs_values s i)" for i
    by (simp_all add: s'_def rs_read_def)
  have "snd (merge_writes s ((j, v) # ws)) = snd (merge_writes s' ws)" by (simp add: w)
  with IH show ?case using ch by (cases "k = j") (simp_all add: rd sch vals)
qed simp

lemma merge_writes_append:
  "merge_writes s (ws @ ws') =
    (case merge_writes s ws of (Inl e, s') \<Rightarrow> (Inl e, s') | (Inr u, s') \<Rightarrow> merge_writes s' ws')"
  by (induction s ws rule: merge_writes.induct) (auto split: sum.splits)

text \<open>Two batches with the same writes to each channel, in the same order per channel, agree.\<close>

lemma merge_writes_per_channel:
  assumes "fst (merge_writes s ws) = Inr ()" and "\<And>k. writes_to k ws = writes_to k ws'"
  shows "merge_writes s ws' = merge_writes s ws"
proof -
  have dom: "fst ` set ws = {k. writes_to k ws \<noteq> []}" for ws :: writes
    by (auto simp: writes_to_def filter_empty_conv)
  have ok: "fst (merge_writes s ws') = Inr ()"
    using assms by (simp add: merge_writes_ok_iff dom)
  have "rs_values (snd (merge_writes s ws')) = rs_values (snd (merge_writes s ws))"
    using merge_writes_channel [OF ok] merge_writes_channel [OF assms(1)] assms(2)
    by (simp add: fun_eq_iff)
  then have "snd (merge_writes s ws') = snd (merge_writes s ws)"
    by (simp add: run_state.equality)
  with ok assms(1) show ?thesis by (simp add: prod_eq_iff)
qed

subsection \<open>Properties\<close>

text \<open>
  The reducers may merge batches in any grouping: last-write-wins, list append and
  newest-timestamp are associative, shallow map merge is on values whose objects are ordered maps,
  and message append is when the middle batch carries no id twice.
\<close>

theorem reducers_associative:
  assumes "wf_json a" and "wf_json b" and "wf_json c" and "ids_distinct (list_of b)"
  shows "last_write_wins (last_write_wins a b) c = last_write_wins a (last_write_wins b c) \<and>
    append_list (append_list a b) c = append_list a (append_list b c) \<and>
    append_messages (append_messages a b) c = append_messages a (append_messages b c) \<and>
    merge_map (merge_map a b) c = merge_map a (merge_map b c) \<and>
    max_by_timestamp (max_by_timestamp a b) c = max_by_timestamp a (max_by_timestamp b c)"
  using assms
  by (simp add: last_write_wins_assoc append_list_assoc append_messages_assoc merge_map_assoc
      max_by_timestamp_assoc)

theorem reducers_associative_witness:
  "append_messages (append_messages (Array [Null]) (Array [Object [(''id'', String ''m'')]])) (Bool True) =
   append_messages (Array [Null]) (append_messages (Array [Object [(''id'', String ''m'')]]) (Bool True))"
  using reducers_associative [of "Array [Null]" "Array [Object [(''id'', String ''m'')]]" "Bool True"]
  by (simp add: bt_wf_def)

text \<open>
  Message append is not associative in general, against the comment on \<open>Reducer\<close>: when a
  batch carries an id twice, merging it into the next batch first keeps a message that merging
  from the left replaces.
\<close>

theorem append_messages_not_associative:
  "let m = (\<lambda>t. Object [(''id'', String ''1''), (''text'', String t)]);
       a = Array []; b = Array [m ''x'', m ''y'']; c = Array [m ''z'']
   in append_messages (append_messages a b) c = Array [m ''z''] \<and>
      append_messages a (append_messages b c) = Array [m ''y'']"
  by (simp add: append_messages_def append_msg_def msg_id_def get_str_def Let_def)

text \<open>
  Channels do not interfere: a batch whose keys are declared succeeds, leaves in every written
  channel the fold of the channel's reducer over the values written to it in their order, leaves
  every other channel alone, and any other interleaving of the same writes gives the same state.
\<close>

theorem writes_merge_per_channel:
  assumes "fst ` set ws \<subseteq> dom (rs_schema s)" and "\<And>k. writes_to k ws = writes_to k ws'"
  shows "merge_writes s ws' = merge_writes s ws \<and> fst (merge_writes s ws) = Inr () \<and>
    (\<forall>k. rs_values (snd (merge_writes s ws)) k =
      (if writes_to k ws = [] then rs_values s k
       else Some (foldl (ch_reducer (the (rs_schema s k))) (rs_read s k) (writes_to k ws))))"
proof -
  have ok: "fst (merge_writes s ws) = Inr ()" using assms(1) by (simp add: merge_writes_ok_iff)
  show ?thesis
    using merge_writes_per_channel [OF ok assms(2)] merge_writes_channel [OF ok] ok by simp
qed

theorem writes_merge_per_channel_witness:
  "let s = run_state_new (schema_add (schema_add_lww schema_builder ''x'') ''y'' append_list)
   in merge_writes s [(''y'', Null), (''x'', Null), (''y'', Bool True)] =
      merge_writes s [(''x'', Null), (''y'', Null), (''y'', Bool True)]"
  unfolding Let_def
  by (rule conjunct1 [OF writes_merge_per_channel])
     (auto simp: run_state_new_def schema_add_def schema_add_lww_def schema_builder_def)

end
