(* ===== verification/Checkpoint.thy ===== *)
theory Checkpoint
  imports State
begin

text \<open>
  The crate \<open>crates/state\<close>, second half: snapshots and their stores (\<open>checkpointer.rs\<close>,
  the SQL checkpointer of \<open>backends.rs\<close>) and forking. The interface the workflow runners rely on
  is the locale \<open>checkpoint_store\<close>: a store refines the history of the snapshots saved
  into it, and \<open>latest\<close> answers from that history. Both back ends are interpretations.
\<close>

subsection \<open>Snapshots (state/src/checkpointer.rs)\<close>

record checkpoint_key =
  workflow_id :: string
  run_id :: string
  super_step :: nat

record checkpoint_meta =
  cm_key :: checkpoint_key
  cm_timestamp_ms :: int

record snapshot =
  sn_key :: checkpoint_key
  sn_values :: valuation
  sn_label :: string
  sn_timestamp_ms :: int

abbreviation snap_step :: "snapshot \<Rightarrow> nat" where
  "snap_step s \<equiv> super_step (sn_key s)"

definition of_run :: "string \<Rightarrow> string \<Rightarrow> snapshot \<Rightarrow> bool" where
  "of_run wid run s \<longleftrightarrow> workflow_id (sn_key s) = wid \<and> run_id (sn_key s) = run"

text \<open>The loop \<open>for (k, v) in edits {values.insert(k, v)}\<close>.\<close>

fun apply_edits :: "valuation \<Rightarrow> writes \<Rightarrow> valuation" where
  "apply_edits vs [] = vs"
| "apply_edits vs ((k, v) # es) = apply_edits (vs(k \<mapsto> v)) es"

lemma apply_edits_map: "apply_edits vs es = vs ++ map_of (rev es)"
proof (induction vs es rule: apply_edits.induct)
  case (2 vs k v es)
  have "vs ++ map_of (rev ((k, v) # es)) = vs(k \<mapsto> v) ++ map_of (rev es)"
    by (simp add: map_of_append)
  with "2.IH" show ?case by (simp only: apply_edits.simps)
qed simp

subsection \<open>The in-memory store\<close>

type_synonym im_checkpointer = "snapshot list"

definition im_save :: "im_checkpointer \<Rightarrow> snapshot \<Rightarrow> unit result \<times> im_checkpointer" where
  "im_save cp s = (Inr (), cp @ [s])"

definition im_load :: "im_checkpointer \<Rightarrow> checkpoint_key \<Rightarrow> snapshot option result" where
  "im_load cp key =
     Inr (find (\<lambda>s. workflow_id (sn_key s) = workflow_id key \<and> run_id (sn_key s) = run_id key \<and>
                    super_step (sn_key s) = super_step key) cp)"

definition im_latest :: "im_checkpointer \<Rightarrow> string \<Rightarrow> string \<Rightarrow> snapshot option result" where
  "im_latest cp wid run = Inr (max_by_key snap_step (filter (of_run wid run) cp))"

definition im_list :: "im_checkpointer \<Rightarrow> string \<Rightarrow> string \<Rightarrow> checkpoint_meta list result" where
  "im_list cp wid run =
     Inr (map (\<lambda>s. \<lparr>cm_key = sn_key s, cm_timestamp_ms = sn_timestamp_ms s\<rparr>)
              (filter (of_run wid run) cp))"

definition fork_missing :: "checkpoint_key \<Rightarrow> agent_error" where
  "fork_missing key =
     Internal (''fork: source checkpoint '' @ run_id key @ ''#'' @ show_nat (super_step key) @
               '' not found'')"

definition fork_snapshot :: "snapshot \<Rightarrow> checkpoint_key \<Rightarrow> string \<Rightarrow> writes \<Rightarrow> int \<Rightarrow> snapshot" where
  "fork_snapshot snap from new_run edits now =
     \<lparr>sn_key = \<lparr>workflow_id = workflow_id (sn_key snap), run_id = new_run,
                super_step = super_step (sn_key snap)\<rparr>,
      sn_values = apply_edits (sn_values snap) edits,
      sn_label = ''fork-of:'' @ run_id from,
      sn_timestamp_ms = now\<rparr>"

text \<open>The fresh run id (\<open>RunId::new()\<close>, a UUID) and the clock reading are arguments.\<close>

definition im_fork ::
  "im_checkpointer \<Rightarrow> checkpoint_key \<Rightarrow> writes \<Rightarrow> string \<Rightarrow> int \<Rightarrow> string result \<times> im_checkpointer" where
  "im_fork cp from edits new_run now =
     (case im_load cp from of
        Inl e \<Rightarrow> (Inl e, cp)
      | Inr None \<Rightarrow> (Inl (fork_missing from), cp)
      | Inr (Some snap) \<Rightarrow>
          (case im_save cp (fork_snapshot snap from new_run edits now) of
             (Inl e, cp') \<Rightarrow> (Inl e, cp')
           | (Inr _, cp') \<Rightarrow> (Inr new_run, cp')))"

subsection \<open>The SQL store (state/src/backends.rs)\<close>

text \<open>
  One row of \<open>agent_checkpoints\<close>. The primary key is \<open>(workflow_id, run_id, super_step)\<close>,
  so a table is a list of rows with pairwise different keys. The JSON printer \<open>enc\<close> and parser
  \<open>dec\<close> of the value column are arguments; failures of the database itself are not modelled.
\<close>

record checkpoint_row =
  col_workflow_id :: string
  col_run_id :: string
  col_super_step :: int
  col_label :: string
  col_values_json :: string
  col_timestamp_ms :: int

type_synonym sql_table = "checkpoint_row list"

definition row_key :: "checkpoint_row \<Rightarrow> string \<times> string \<times> int" where
  "row_key r = (col_workflow_id r, col_run_id r, col_super_step r)"

definition sql_save ::
  "(valuation \<Rightarrow> string result) \<Rightarrow> sql_table \<Rightarrow> snapshot \<Rightarrow> unit result \<times> sql_table" where
  "sql_save enc tab s =
     (case enc (sn_values s) of
        Inl e \<Rightarrow> (Inl e, tab)
      | Inr values_json \<Rightarrow>
          (let row = \<lparr>col_workflow_id = workflow_id (sn_key s), col_run_id = run_id (sn_key s),
                      col_super_step = u64_as_i64 (super_step (sn_key s)), col_label = sn_label s,
                      col_values_json = values_json, col_timestamp_ms = sn_timestamp_ms s\<rparr>
           in (Inr (), upsert_by (\<lambda>r. row_key r = row_key row) row tab)))"

definition row_to_snapshot :: "(string \<Rightarrow> valuation result) \<Rightarrow> checkpoint_row \<Rightarrow> snapshot result" where
  "row_to_snapshot dec r =
     try_then (dec (col_values_json r)) (\<lambda>vals.
       Inr \<lparr>sn_key = \<lparr>workflow_id = col_workflow_id r, run_id = col_run_id r,
                      super_step = i64_as_u64 (col_super_step r)\<rparr>,
            sn_values = vals, sn_label = col_label r, sn_timestamp_ms = col_timestamp_ms r\<rparr>)"

fun transpose_row :: "(string \<Rightarrow> valuation result) \<Rightarrow> checkpoint_row option \<Rightarrow> snapshot option result" where
  "transpose_row dec None = Inr None"
| "transpose_row dec (Some r) = try_then (row_to_snapshot dec r) (\<lambda>s. Inr (Some s))"

definition row_of_run :: "string \<Rightarrow> string \<Rightarrow> checkpoint_row \<Rightarrow> bool" where
  "row_of_run wid run r \<longleftrightarrow> col_workflow_id r = wid \<and> col_run_id r = run"

definition sql_load ::
  "(string \<Rightarrow> valuation result) \<Rightarrow> sql_table \<Rightarrow> checkpoint_key \<Rightarrow> snapshot option result" where
  "sql_load dec tab key =
     transpose_row dec
       (find (\<lambda>r. row_key r = (workflow_id key, run_id key, u64_as_i64 (super_step key))) tab)"

text \<open>\<open>ORDER BY super_step DESC LIMIT 1\<close>: the rows of a run have different steps.\<close>

definition sql_latest ::
  "(string \<Rightarrow> valuation result) \<Rightarrow> sql_table \<Rightarrow> string \<Rightarrow> string \<Rightarrow> snapshot option result" where
  "sql_latest dec tab wid run =
     transpose_row dec (max_by_key col_super_step (filter (row_of_run wid run) tab))"

definition sql_list :: "sql_table \<Rightarrow> string \<Rightarrow> string \<Rightarrow> checkpoint_meta list result" where
  "sql_list tab wid run =
     Inr (map (\<lambda>r. \<lparr>cm_key = \<lparr>workflow_id = col_workflow_id r, run_id = col_run_id r,
                               super_step = i64_as_u64 (col_super_step r)\<rparr>,
                     cm_timestamp_ms = col_timestamp_ms r\<rparr>)
              (sort_key col_super_step (filter (row_of_run wid run) tab)))"

definition sql_fork ::
  "(valuation \<Rightarrow> string result) \<Rightarrow> (string \<Rightarrow> valuation result) \<Rightarrow> sql_table \<Rightarrow> checkpoint_key \<Rightarrow>
   writes \<Rightarrow> string \<Rightarrow> int \<Rightarrow> string result \<times> sql_table" where
  "sql_fork enc dec tab from edits new_run now =
     (case sql_load dec tab from of
        Inl e \<Rightarrow> (Inl e, tab)
      | Inr None \<Rightarrow> (Inl (fork_missing from), tab)
      | Inr (Some snap) \<Rightarrow>
          (case sql_save enc tab (fork_snapshot snap from new_run edits now) of
             (Inl e, tab') \<Rightarrow> (Inl e, tab')
           | (Inr _, tab') \<Rightarrow> (Inr new_run, tab')))"

subsection \<open>The interface: a store refines the history of saves\<close>

text \<open>
  The abstract store is the list of all snapshots ever saved. \<open>latest\<close> is the last saved one
  among those with the highest super-step of the run.
\<close>

definition latest_spec :: "snapshot list \<Rightarrow> string \<Rightarrow> string \<Rightarrow> snapshot option" where
  "latest_spec h wid run = max_by_key snap_step (filter (of_run wid run) h)"

lemma latest_spec_save:
  "latest_spec (h @ [s]) wid run =
     (if of_run wid run s
      then (case latest_spec h wid run of
              None \<Rightarrow> Some s
            | Some t \<Rightarrow> if snap_step t \<le> snap_step s then Some s else Some t)
      else latest_spec h wid run)"
  by (simp add: latest_spec_def max_by_key_snoc)

lemma latest_spec_of_run: "latest_spec h wid run = Some s \<Longrightarrow> of_run wid run s \<and> s \<in> set h"
  using max_by_key_Some [of snap_step "filter (of_run wid run) h" s] by (auto simp: latest_spec_def)

text \<open>Saving one snapshot after another.\<close>

fun save_all :: "('c \<Rightarrow> snapshot \<Rightarrow> unit result \<times> 'c) \<Rightarrow> snapshot list \<Rightarrow> 'c \<Rightarrow> 'c" where
  "save_all save [] c = c"
| "save_all save (s # ss) c = save_all save ss (snd (save c s))"

locale checkpoint_store =
  fixes cp_save :: "'c \<Rightarrow> snapshot \<Rightarrow> unit result \<times> 'c"
    and cp_latest :: "'c \<Rightarrow> string \<Rightarrow> string \<Rightarrow> snapshot option result"
    and storable :: "snapshot \<Rightarrow> bool"
    and refines :: "'c \<Rightarrow> snapshot list \<Rightarrow> bool"
  assumes save_ok: "refines c h \<Longrightarrow> storable s \<Longrightarrow> fst (cp_save c s) = Inr ()"
    and save_refines: "refines c h \<Longrightarrow> storable s \<Longrightarrow> refines (snd (cp_save c s)) (h @ [s])"
    and latest_refines: "refines c h \<Longrightarrow> cp_latest c wid run = Inr (latest_spec h wid run)"
begin

lemma latest_after_save:
  assumes "refines c h" and "storable s" and "of_run wid run s"
    and "\<And>t. latest_spec h wid run = Some t \<Longrightarrow> snap_step t \<le> snap_step s"
  shows "cp_latest (snd (cp_save c s)) wid run = Inr (Some s)"
  using latest_refines [OF save_refines [OF assms(1,2)]] assms(3,4)
  by (auto simp: latest_spec_save split: option.splits)

lemma latest_other_run:
  assumes "refines c h" and "storable s" and "\<not> of_run wid run s"
  shows "cp_latest (snd (cp_save c s)) wid run = cp_latest c wid run"
  using latest_refines [OF save_refines [OF assms(1,2)]] latest_refines [OF assms(1)] assms(3)
  by (simp add: latest_spec_save)

lemma save_all_refines:
  "refines c h \<Longrightarrow> \<forall>s\<in>set ss. storable s \<Longrightarrow> refines (save_all cp_save ss c) (h @ ss)"
proof (induction ss arbitrary: c h)
  case (Cons s ss)
  from Cons.prems have "refines (snd (cp_save c s)) (h @ [s])" by (intro save_refines) simp_all
  from Cons.IH [OF this] Cons.prems(2) show ?case by simp
qed simp

lemma latest_after_all:
  "refines c h \<Longrightarrow> \<forall>s\<in>set ss. storable s \<Longrightarrow>
   cp_latest (save_all cp_save ss c) wid run = Inr (latest_spec (h @ ss) wid run)"
  by (rule latest_refines [OF save_all_refines])

end

interpretation im_store: checkpoint_store im_save im_latest "\<lambda>_. True" "(=)"
  by unfold_locales (auto simp: im_save_def im_latest_def latest_spec_def)

subsection \<open>The SQL store refines the history as well\<close>

text \<open>A snapshot the table can carry: its step is a non-negative \<open>BIGINT\<close>, its values survive the codec.\<close>

definition sql_storable ::
  "(valuation \<Rightarrow> string result) \<Rightarrow> (string \<Rightarrow> valuation result) \<Rightarrow> snapshot \<Rightarrow> bool" where
  "sql_storable enc dec s \<longleftrightarrow>
     snap_step s < 2 ^ 63 \<and> (\<exists>t. enc (sn_values s) = Inr t \<and> dec t = Inr (sn_values s))"

definition snap_row :: "(valuation \<Rightarrow> string result) \<Rightarrow> snapshot \<Rightarrow> checkpoint_row" where
  "snap_row enc s =
     \<lparr>col_workflow_id = workflow_id (sn_key s), col_run_id = run_id (sn_key s),
      col_super_step = u64_as_i64 (super_step (sn_key s)), col_label = sn_label s,
      col_values_json = (case enc (sn_values s) of Inr t \<Rightarrow> t | Inl _ \<Rightarrow> []),
      col_timestamp_ms = sn_timestamp_ms s\<rparr>"

text \<open>The table holds, for every key, the row of the last snapshot saved under it.\<close>

definition sql_refines ::
  "(valuation \<Rightarrow> string result) \<Rightarrow> (string \<Rightarrow> valuation result) \<Rightarrow> sql_table \<Rightarrow> snapshot list \<Rightarrow> bool" where
  "sql_refines enc dec tab h \<longleftrightarrow>
     (\<forall>s\<in>set h. sql_storable enc dec s) \<and>
     distinct (map row_key tab) \<and>
     (\<forall>k. find (\<lambda>r. row_key r = k) tab = find (\<lambda>r. row_key r = k) (rev (map (snap_row enc) h)))"

lemma sql_refines_find:
  "sql_refines enc dec tab h \<Longrightarrow>
   find (\<lambda>r. row_key r = k) tab = find (\<lambda>r. row_key r = k) (rev (map (snap_row enc) h))"
  unfolding sql_refines_def by blast

lemma row_key_snap_row [simp]:
  "row_key (snap_row enc s) = (workflow_id (sn_key s), run_id (sn_key s), u64_as_i64 (snap_step s))"
  by (simp add: row_key_def snap_row_def)

lemma sql_save_storable:
  "sql_storable enc dec s \<Longrightarrow>
   sql_save enc tab s =
     (Inr (), upsert_by (\<lambda>r. row_key r = row_key (snap_row enc s)) (snap_row enc s) tab)"
  by (auto simp: sql_storable_def sql_save_def snap_row_def Let_def)

lemma row_to_snapshot_snap_row:
  assumes "sql_storable enc dec s"
  shows "row_to_snapshot dec (snap_row enc s) = Inr s"
proof -
  from assms obtain t where t: "enc (sn_values s) = Inr t" "dec t = Inr (sn_values s)"
    and lt: "snap_step s < 2 ^ 63" by (auto simp: sql_storable_def)
  have "i64_as_u64 (u64_as_i64 (snap_step s)) = snap_step s"
    using lt by (intro i64_u64_roundtrip) simp
  with t show ?thesis by (simp add: row_to_snapshot_def snap_row_def)
qed

lemma sql_refines_save:
  assumes "sql_refines enc dec tab h" and "sql_storable enc dec s"
  shows "sql_refines enc dec (snd (sql_save enc tab s)) (h @ [s])"
proof -
  let ?r = "snap_row enc s"
  let ?tab = "upsert_by (\<lambda>r. row_key r = row_key ?r) ?r tab"
  have "find (\<lambda>r. row_key r = k) ?tab = find (\<lambda>r. row_key r = k) (rev (map (snap_row enc) (h @ [s])))" for k
  proof (cases "k = row_key ?r")
    case True
    then show ?thesis by (simp add: find_upsert_same del: row_key_snap_row)
  next
    case False
    then have "find (\<lambda>r. row_key r = k) ?tab = find (\<lambda>r. row_key r = k) tab"
      by (intro find_upsert_other) auto
    with False sql_refines_find [OF assms(1), of k] show ?thesis by (simp del: row_key_snap_row)
  qed
  moreover have "distinct (map row_key ?tab)"
    using assms(1) by (intro distinct_upsert_key) (simp_all add: sql_refines_def)
  moreover have "\<forall>t\<in>set (h @ [s]). sql_storable enc dec t"
    using assms by (simp add: sql_refines_def)
  ultimately show ?thesis
    unfolding sql_refines_def sql_save_storable [OF assms(2)] snd_conv by blast
qed

lemma sql_refines_set:
  assumes "sql_refines enc dec tab h" and "r \<in> set tab"
  shows "\<exists>s\<in>set h. r = snap_row enc s"
proof -
  have "find (\<lambda>q. row_key q = row_key r) tab = Some r"
    using assms by (simp add: find_Some_iff_unique sql_refines_def)
  then have "find (\<lambda>q. row_key q = row_key r) (rev (map (snap_row enc) h)) = Some r"
    using sql_refines_find [OF assms(1), of "row_key r"] by simp
  then show ?thesis by (auto simp: find_Some_iff) (metis length_map length_rev nth_mem set_map set_rev imageE)
qed

lemma find_rev_last_max:
  assumes "max_by_key f (filter P h) = Some s"
  shows "find (\<lambda>x. P x \<and> f x = f s) (rev h) = Some s"
  using assms
proof (induction h arbitrary: s rule: rev_induct)
  case (snoc x h)
  show ?case
  proof (cases "P x")
    case True
    show ?thesis
    proof (cases "max_by_key f (filter P h)")
      case None
      with snoc.prems True show ?thesis by (simp add: max_by_key_snoc)
    next
      case (Some y)
      with snoc.prems True snoc.IH show ?thesis
        by (auto simp: max_by_key_snoc split: if_splits)
    qed
  next
    case False
    with snoc show ?thesis by simp
  qed
qed simp

lemma find_map: "find p (map f xs) = map_option f (find (p \<circ> f) xs)"
  by (induction xs) auto

lemma sql_latest_refines:
  assumes "sql_refines enc dec tab h"
  shows "sql_latest dec tab wid run = Inr (latest_spec h wid run)"
proof (cases "latest_spec h wid run")
  case None
  then have none: "filter (of_run wid run) h = []" by (simp add: latest_spec_def)
  have "filter (row_of_run wid run) tab = []"
  proof (rule ccontr)
    assume "filter (row_of_run wid run) tab \<noteq> []"
    then obtain r where "r \<in> set tab" and "row_of_run wid run r" by (auto simp: filter_empty_conv)
    with sql_refines_set [OF assms] obtain s where "s \<in> set h" and "row_of_run wid run (snap_row enc s)"
      by blast
    with none show False by (auto simp: filter_empty_conv row_of_run_def snap_row_def of_run_def)
  qed
  with None show ?thesis by (simp add: sql_latest_def)
next
  case (Some s)
  let ?k = "row_key (snap_row enc s)"
  from Some have s: "of_run wid run s" "s \<in> set h"
    and top: "\<And>t. t \<in> set h \<Longrightarrow> of_run wid run t \<Longrightarrow> snap_step t \<le> snap_step s"
    using max_by_key_Some [of snap_step "filter (of_run wid run) h" s] by (auto simp: latest_spec_def)
  have bound: "\<And>t. t \<in> set h \<Longrightarrow> snap_step t < 2 ^ 63"
    using assms by (auto simp: sql_refines_def sql_storable_def)
  have step: "u64_as_i64 (snap_step t) = int (snap_step t)" if "t \<in> set h" for t
    using bound [OF that] by (rule u64_as_i64_small)
  have "find (\<lambda>x. of_run wid run x \<and> snap_step x = snap_step s) (rev h) = Some s"
    using Some by (intro find_rev_last_max) (simp add: latest_spec_def)
  moreover have "find ((\<lambda>r. row_key r = ?k) \<circ> snap_row enc) (rev h)
      = find (\<lambda>x. of_run wid run x \<and> snap_step x = snap_step s) (rev h)"
    using s step by (intro find_cong_pred) (auto simp: of_run_def)
  ultimately have "find (\<lambda>r. row_key r = ?k) tab = Some (snap_row enc s)"
    using sql_refines_find [OF assms, of ?k] by (simp add: rev_map find_map)
  then have r: "snap_row enc s \<in> set tab"
    by (metis find_Some_iff nth_mem)
  have ror: "row_of_run wid run (snap_row enc t) \<longleftrightarrow> of_run wid run t" for t
    by (simp add: row_of_run_def snap_row_def of_run_def)
  obtain r' where r': "max_by_key col_super_step (filter (row_of_run wid run) tab) = Some r'"
    using r s ror by (metis filter_empty_conv max_by_key_None not_None_eq)
  then have in': "r' \<in> set tab" "row_of_run wid run r'"
    and max': "col_super_step (snap_row enc s) \<le> col_super_step r'"
    using max_by_key_Some [OF r'] r s ror by auto
  from sql_refines_set [OF assms in'(1)] obtain t where t: "t \<in> set h" "r' = snap_row enc t" by blast
  have "col_super_step r' = col_super_step (snap_row enc s)"
  proof -
    have "of_run wid run t" using in'(2) t(2) ror by simp
    with max' top [OF t(1)] step [OF t(1)] step [OF s(2)] t(2) show ?thesis by (simp add: snap_row_def)
  qed
  with in' s(1) ror have "row_key r' = ?k"
    by (simp add: row_key_def row_of_run_def) (metis of_run_def row_key_def row_key_snap_row prod.inject)
  then have "r' = snap_row enc s"
    using in'(1) r assms by (metis eq_key_imp_eq_value sql_refines_def distinct_map inj_onD)
  with r' s assms Some show ?thesis
    by (simp add: sql_latest_def row_to_snapshot_snap_row sql_refines_def)
qed

interpretation sql_store: checkpoint_store "sql_save enc" "sql_latest dec" "sql_storable enc dec"
    "sql_refines enc dec" for enc dec
  by unfold_locales (simp add: sql_save_storable, rule sql_refines_save, simp_all add: sql_latest_refines)

subsection \<open>Properties\<close>

definition demo_snapshot :: "string \<Rightarrow> nat \<Rightarrow> json \<Rightarrow> snapshot" where
  "demo_snapshot run n v =
     \<lparr>sn_key = \<lparr>workflow_id = ''w'', run_id = run, super_step = n\<rparr>, sn_values = [''x'' \<mapsto> v],
      sn_label = [], sn_timestamp_ms = 0\<rparr>"

text \<open>A codec for the single-channel boolean states of the examples.\<close>

definition bit_enc :: "valuation \<Rightarrow> string result" where
  "bit_enc v = Inr (if v ''x'' = Some (Bool True) then ''1'' else ''0'')"

definition bit_dec :: "string \<Rightarrow> valuation result" where
  "bit_dec t = Inr [''x'' \<mapsto> Bool (t = ''1'')]"

lemma bit_storable: "n < 2 ^ 63 \<Longrightarrow> sql_storable bit_enc bit_dec (demo_snapshot run n (Bool b))"
  by (simp add: sql_storable_def bit_enc_def bit_dec_def demo_snapshot_def)

text \<open>
  Both back ends answer \<open>latest\<close> alike: after saving the same snapshots in the same order
  the SQL store and the in-memory store name the same snapshot, the last one saved among those of
  the run with the highest super-step.
\<close>

theorem backends_agree_on_latest:
  assumes "\<forall>s\<in>set ss. sql_storable enc dec s"
  shows "sql_latest dec (save_all (sql_save enc) ss []) wid run = im_latest (save_all im_save ss []) wid run \<and>
    im_latest (save_all im_save ss []) wid run = Inr (latest_spec ss wid run)"
proof -
  have "sql_refines enc dec [] []" by (simp add: sql_refines_def)
  from sql_store.latest_after_all [OF this assms]
    im_store.latest_after_all [of "[]" "[]" ss]
  show ?thesis by simp
qed

theorem backends_agree_on_latest_witness:
  "sql_latest bit_dec (save_all (sql_save bit_enc)
      [demo_snapshot ''r'' 1 (Bool True), demo_snapshot ''r'' 0 (Bool False)] []) ''w'' ''r'' =
   Inr (Some (demo_snapshot ''r'' 1 (Bool True)))"
  using backends_agree_on_latest [of "[demo_snapshot ''r'' 1 (Bool True), demo_snapshot ''r'' 0 (Bool False)]"
      bit_enc bit_dec "''w''" "''r''"]
  by (simp add: bit_storable) (simp add: latest_spec_def of_run_def demo_snapshot_def)

text \<open>
  The back ends disagree on \<open>load\<close> once a key is saved twice: the in-memory store keeps both
  snapshots and loads the older one, although \<open>latest\<close> names the newer; the SQL store has
  replaced the row. A fork from that key therefore starts from stale values in memory.
\<close>

theorem resaved_key_loads_stale:
  assumes "sn_key s = sn_key t" and "sql_storable enc dec s" and "sql_storable enc dec t"
  shows "im_load (save_all im_save [s, t] []) (sn_key t) = Inr (Some s) \<and>
    sql_load dec (save_all (sql_save enc) [s, t] []) (sn_key t) = Inr (Some t) \<and>
    im_latest (save_all im_save [s, t] []) (workflow_id (sn_key t)) (run_id (sn_key t)) = Inr (Some t)"
proof -
  have "sql_load dec (save_all (sql_save enc) [s, t] []) (sn_key t) = Inr (Some t)"
    using assms row_key_snap_row [of enc s] row_key_snap_row [of enc t]
    by (simp add: sql_save_storable sql_load_def row_to_snapshot_snap_row)
  with assms(1) show ?thesis by (simp add: im_load_def im_save_def im_latest_def of_run_def)
qed

theorem resaved_key_loads_stale_witness:
  "im_load (save_all im_save [demo_snapshot ''r'' 1 (Bool True), demo_snapshot ''r'' 1 (Bool False)] [])
     (sn_key (demo_snapshot ''r'' 1 (Bool False))) = Inr (Some (demo_snapshot ''r'' 1 (Bool True)))"
  by (rule conjunct1 [OF resaved_key_loads_stale [where enc = bit_enc and dec = bit_dec]])
     (simp_all add: bit_storable, simp add: demo_snapshot_def)

text \<open>
  A fork is isolated: it puts exactly one checkpoint at the head of the new run, at the source's
  super-step, with the source's values overridden by the edits (the last edit of a key wins), and
  it changes neither what any old key loads nor the latest checkpoint of any other run.
\<close>

theorem im_fork_isolated:
  fixes now :: int and edits :: writes
  assumes "im_load cp key = Inr (Some snap)" and "\<forall>s\<in>set cp. run_id (sn_key s) \<noteq> new_run"
  defines "cp' \<equiv> snd (im_fork cp key edits new_run now)"
  shows "fst (im_fork cp key edits new_run now) = Inr new_run \<and>
    (\<exists>f. im_latest cp' (workflow_id (sn_key snap)) new_run = Inr (Some f) \<and>
       snap_step f = snap_step snap \<and> sn_values f = sn_values snap ++ map_of (rev edits)) \<and>
    (\<forall>k. run_id k \<noteq> new_run \<longrightarrow> im_load cp' k = im_load cp k) \<and>
    (\<forall>wid run. run \<noteq> new_run \<longrightarrow> im_latest cp' wid run = im_latest cp wid run)"
proof -
  let ?f = "fork_snapshot snap key new_run edits now"
  have cp': "cp' = cp @ [?f]" and res: "fst (im_fork cp key edits new_run now) = Inr new_run"
    by (simp_all add: cp'_def im_fork_def assms(1) im_save_def)
  have "filter (of_run (workflow_id (sn_key snap)) new_run) cp = []"
    using assms(2) by (auto simp: of_run_def filter_empty_conv)
  then have "im_latest cp' (workflow_id (sn_key snap)) new_run = Inr (Some ?f)"
    by (simp add: cp' im_latest_def of_run_def fork_snapshot_def)
  moreover have "snap_step ?f = snap_step snap" "sn_values ?f = sn_values snap ++ map_of (rev edits)"
    by (simp_all add: fork_snapshot_def apply_edits_map)
  moreover have "im_load cp' k = im_load cp k" if "run_id k \<noteq> new_run" for k
  proof -
    have "find p (xs @ [x]) = find p xs" if "\<not> p x" for p and x :: snapshot and xs
      using that by (induction xs) auto
    then show ?thesis using that by (simp add: cp' im_load_def fork_snapshot_def)
  qed
  moreover have "im_latest cp' wid run = im_latest cp wid run" if "run \<noteq> new_run" for wid run
    using that by (simp add: cp' im_latest_def of_run_def fork_snapshot_def)
  ultimately show ?thesis using res by blast
qed

theorem im_fork_isolated_witness:
  "fst (im_fork [demo_snapshot ''r'' 1 Null] (sn_key (demo_snapshot ''r'' 1 Null)) [(''x'', Bool True)] ''r2'' 5) =
   Inr ''r2''"
  by (rule conjunct1 [OF im_fork_isolated [where snap = "demo_snapshot ''r'' 1 Null"]])
     (simp_all add: im_load_def, simp add: demo_snapshot_def)

end
