(* ===== verification/Provenance.thy ===== *)
theory Provenance
  imports Checkpoint
begin

text \<open>
  Provenance capture of \<open>crates/state\<close> (\<open>record.rs\<close> and the SQL record store of
  \<open>backends.rs\<close>) and the deterministic replay of recorded decisions into a simulator
  (\<open>crates/workflow/src/replay_sink.rs\<close>). The replay relies on the store through the locale
  \<open>record_store\<close>: a store is a finite map from keys to the last record saved under the key, and
  a listing gives the records of a run by ascending super-step. Both back ends are
  interpretations, so replay delivers the same decisions from either.
\<close>

subsection \<open>Records (state/src/record.rs)\<close>

record usage_record =
  prompt_tokens :: u32
  completion_tokens :: u32
  reasoning_tokens :: u32
  cached_tokens :: u32

record inference_record =
  inf_provider :: string
  inf_model_id :: string
  inf_model_version :: string
  inf_params_hash :: string
  inf_prompt_hash :: string
  inf_raw_completion :: string
  inf_finish_reason :: "string option"
  inf_usage :: usage_record
  inf_tool_calls :: "json list"

record tool_call_record =
  tc_tool :: string
  tc_args_hash :: string
  tc_ret :: json
  tc_is_side_effecting :: bool

record step_record =
  sr_key :: checkpoint_key
  sr_inference :: "inference_record option"
  sr_tool_calls :: "tool_call_record list"
  sr_state_snapshot :: valuation

definition step_record_new :: "checkpoint_key \<Rightarrow> step_record" where
  "step_record_new key =
     \<lparr>sr_key = key, sr_inference = None, sr_tool_calls = [], sr_state_snapshot = Map.empty\<rparr>"

definition with_inference :: "step_record \<Rightarrow> inference_record \<Rightarrow> step_record" where
  "with_inference r i = r\<lparr>sr_inference := Some i\<rparr>"

definition with_tool_call :: "step_record \<Rightarrow> tool_call_record \<Rightarrow> step_record" where
  "with_tool_call r tc = r\<lparr>sr_tool_calls := sr_tool_calls r @ [tc]\<rparr>"

definition with_state :: "step_record \<Rightarrow> valuation \<Rightarrow> step_record" where
  "with_state r st = r\<lparr>sr_state_snapshot := st\<rparr>"

abbreviation rec_step :: "step_record \<Rightarrow> nat" where
  "rec_step r \<equiv> super_step (sr_key r)"

definition same_key :: "checkpoint_key \<Rightarrow> checkpoint_key \<Rightarrow> bool" where
  "same_key a b \<longleftrightarrow>
     workflow_id a = workflow_id b \<and> run_id a = run_id b \<and> super_step a = super_step b"

lemma same_key_eq [simp]: "same_key a b \<longleftrightarrow> a = b"
  by (auto simp: same_key_def)

definition rec_of_run :: "string \<Rightarrow> string \<Rightarrow> step_record \<Rightarrow> bool" where
  "rec_of_run wid run r \<longleftrightarrow> workflow_id (sr_key r) = wid \<and> run_id (sr_key r) = run"

subsection \<open>The in-memory record store\<close>

type_synonym im_records = "step_record list"

definition im_save_record :: "im_records \<Rightarrow> step_record \<Rightarrow> unit result \<times> im_records" where
  "im_save_record g r = (Inr (), upsert_by (\<lambda>x. same_key (sr_key x) (sr_key r)) r g)"

definition im_load_record :: "im_records \<Rightarrow> checkpoint_key \<Rightarrow> step_record option result" where
  "im_load_record g key = Inr (find (\<lambda>r. same_key (sr_key r) key) g)"

definition im_list_records :: "im_records \<Rightarrow> string \<Rightarrow> string \<Rightarrow> step_record list result" where
  "im_list_records g wid run = Inr (sort_key rec_step (filter (rec_of_run wid run) g))"

subsection \<open>The SQL record store (state/src/backends.rs)\<close>

text \<open>A row of \<open>agent_step_records\<close>; \<open>enc\<close> and \<open>dec\<close> print and parse the record column.\<close>

record record_row =
  rr_workflow_id :: string
  rr_run_id :: string
  rr_super_step :: int
  rr_record_json :: string

type_synonym record_table = "record_row list"

definition rr_key :: "record_row \<Rightarrow> string \<times> string \<times> int" where
  "rr_key r = (rr_workflow_id r, rr_run_id r, rr_super_step r)"

definition sql_save_record ::
  "(step_record \<Rightarrow> string result) \<Rightarrow> record_table \<Rightarrow> step_record \<Rightarrow> unit result \<times> record_table" where
  "sql_save_record enc tab r =
     (case enc r of
        Inl e \<Rightarrow> (Inl e, tab)
      | Inr j \<Rightarrow>
          (let row = \<lparr>rr_workflow_id = workflow_id (sr_key r), rr_run_id = run_id (sr_key r),
                      rr_super_step = u64_as_i64 (rec_step r), rr_record_json = j\<rparr>
           in (Inr (), upsert_by (\<lambda>x. rr_key x = rr_key row) row tab)))"

definition sql_load_record ::
  "(string \<Rightarrow> step_record result) \<Rightarrow> record_table \<Rightarrow> checkpoint_key \<Rightarrow> step_record option result" where
  "sql_load_record dec tab key =
     (case find (\<lambda>r. rr_key r = (workflow_id key, run_id key, u64_as_i64 (super_step key))) tab of
        None \<Rightarrow> Inr None
      | Some row \<Rightarrow> try_then (dec (rr_record_json row)) (\<lambda>r. Inr (Some r)))"

text \<open>\<open>collect\<close> into a \<open>Result\<close> stops at the first row that does not parse.\<close>

fun decode_rows :: "(string \<Rightarrow> step_record result) \<Rightarrow> record_row list \<Rightarrow> step_record list result" where
  "decode_rows dec [] = Inr []"
| "decode_rows dec (row # rows) =
     try_then (dec (rr_record_json row)) (\<lambda>r. try_then (decode_rows dec rows) (\<lambda>rs. Inr (r # rs)))"

definition sql_list_records ::
  "(string \<Rightarrow> step_record result) \<Rightarrow> record_table \<Rightarrow> string \<Rightarrow> string \<Rightarrow> step_record list result" where
  "sql_list_records dec tab wid run =
     decode_rows dec
       (sort_key rr_super_step (filter (\<lambda>r. rr_workflow_id r = wid \<and> rr_run_id r = run) tab))"

subsection \<open>The recording checkpointer\<close>

record ('b, 'r) recording_checkpointer =
  rc_base :: 'b
  rc_records :: 'r

definition rc_in_memory :: "(im_checkpointer, im_records) recording_checkpointer" where
  "rc_in_memory = \<lparr>rc_base = [], rc_records = []\<rparr>"

definition rc_record ::
  "('r \<Rightarrow> step_record \<Rightarrow> unit result \<times> 'r) \<Rightarrow> ('b, 'r) recording_checkpointer \<Rightarrow> step_record \<Rightarrow>
   unit result \<times> ('b, 'r) recording_checkpointer" where
  "rc_record save rc r =
     (case save (rc_records rc) r of (res, g) \<Rightarrow> (res, rc\<lparr>rc_records := g\<rparr>))"

definition rc_save ::
  "('b \<Rightarrow> snapshot \<Rightarrow> unit result \<times> 'b) \<Rightarrow> ('b, 'r) recording_checkpointer \<Rightarrow> snapshot \<Rightarrow>
   unit result \<times> ('b, 'r) recording_checkpointer" where
  "rc_save save rc s = (case save (rc_base rc) s of (res, b) \<Rightarrow> (res, rc\<lparr>rc_base := b\<rparr>))"

definition rc_latest ::
  "('b \<Rightarrow> string \<Rightarrow> string \<Rightarrow> snapshot option result) \<Rightarrow> ('b, 'r) recording_checkpointer \<Rightarrow>
   string \<Rightarrow> string \<Rightarrow> snapshot option result" where
  "rc_latest latest rc wid run = latest (rc_base rc) wid run"

subsection \<open>The interface of a record store\<close>

text \<open>Saving one record after another.\<close>

fun save_records :: "('c \<Rightarrow> step_record \<Rightarrow> unit result \<times> 'c) \<Rightarrow> step_record list \<Rightarrow> 'c \<Rightarrow> 'c" where
  "save_records save [] c = c"
| "save_records save (r # rs) c = save_records save rs (snd (save c r))"

locale record_store =
  fixes rs_save :: "'c \<Rightarrow> step_record \<Rightarrow> unit result \<times> 'c"
    and rs_load :: "'c \<Rightarrow> checkpoint_key \<Rightarrow> step_record option result"
    and rs_list :: "'c \<Rightarrow> string \<Rightarrow> string \<Rightarrow> step_record list result"
    and rs_storable :: "step_record \<Rightarrow> bool"
    and rs_inv :: "'c \<Rightarrow> bool"
    and rs_abs :: "'c \<Rightarrow> checkpoint_key \<Rightarrow> step_record option"
  assumes save_ok: "rs_inv c \<Longrightarrow> rs_storable r \<Longrightarrow>
      fst (rs_save c r) = Inr () \<and> rs_inv (snd (rs_save c r))"
    and save_abs: "rs_inv c \<Longrightarrow> rs_storable r \<Longrightarrow>
      rs_abs (snd (rs_save c r)) = (rs_abs c)(sr_key r \<mapsto> r)"
    and load_abs: "rs_inv c \<Longrightarrow> super_step k < 2 ^ 64 \<Longrightarrow> rs_load c k = Inr (rs_abs c k)"
    and list_abs: "rs_inv c \<Longrightarrow>
      \<exists>rs. rs_list c wid run = Inr rs \<and> sorted_wrt (<) (map rec_step rs) \<and>
        set rs = {r. rs_abs c (sr_key r) = Some r \<and> rec_of_run wid run r}"
begin

lemma list_sorted: "rs_inv c \<Longrightarrow> rs_list c wid run = Inr rs \<Longrightarrow> sorted_wrt (<) (map rec_step rs)"
  using list_abs [of c wid run] by auto

lemma list_determined:
  assumes "rs_inv c" and "rs_list c wid run = Inr rs" and "sorted_wrt (<) (map rec_step rs')"
    and "set rs' = {r. rs_abs c (sr_key r) = Some r \<and> rec_of_run wid run r}"
  shows "rs' = rs"
proof -
  from list_abs [OF assms(1), of wid run] assms(2)
  have s: "sorted_wrt (<) (map rec_step rs)"
    and eq: "set rs = {r. rs_abs c (sr_key r) = Some r \<and> rec_of_run wid run r}" by auto
  have inj: "inj_on rec_step (set rs' \<union> set rs)"
    using s by (simp add: assms(4) eq [symmetric] strict_sorted_iff distinct_map)
  have "set (map rec_step rs') = set (map rec_step rs)" by (simp add: assms(4) eq)
  then have "map rec_step rs' = map rec_step rs"
    using s assms(3) by (simp add: strict_sorted_equal)
  with inj show ?thesis by (simp add: map_inj_on)
qed

lemma load_after_save:
  "rs_inv c \<Longrightarrow> rs_storable r \<Longrightarrow> super_step k < 2 ^ 64 \<Longrightarrow>
   rs_load (snd (rs_save c r)) k = (if k = sr_key r then Inr (Some r) else rs_load c k)"
  using save_ok [of c r] by (simp add: load_abs save_abs)

lemma save_records_abs:
  "rs_inv c \<Longrightarrow> \<forall>r\<in>set rs. rs_storable r \<Longrightarrow>
   rs_inv (save_records rs_save rs c) \<and>
   rs_abs (save_records rs_save rs c) = fold (\<lambda>r m. m(sr_key r \<mapsto> r)) rs (rs_abs c)"
  by (induction rs arbitrary: c) (simp_all add: save_ok save_abs)

lemma list_after_save_other:
  assumes "rs_inv c" and "rs_storable r" and "\<not> rec_of_run wid run r"
  shows "rs_list (snd (rs_save c r)) wid run = rs_list c wid run"
proof -
  let ?c = "snd (rs_save c r)"
  have inv: "rs_inv ?c" using save_ok assms by blast
  from list_abs [OF inv, of wid run] obtain rs where
    rs: "rs_list ?c wid run = Inr rs" "sorted_wrt (<) (map rec_step rs)"
      "set rs = {x. rs_abs ?c (sr_key x) = Some x \<and> rec_of_run wid run x}" by blast
  from list_abs [OF assms(1), of wid run] obtain rs0 where rs0: "rs_list c wid run = Inr rs0" by blast
  have "set rs = {x. rs_abs c (sr_key x) = Some x \<and> rec_of_run wid run x}"
    using assms by (auto simp: rs(3) save_abs rec_of_run_def)
  with list_determined [OF assms(1) rs0 rs(2)] have "rs = rs0" by simp
  with rs(1) rs0 show ?thesis by simp
qed

end

definition im_records_inv :: "im_records \<Rightarrow> bool" where
  "im_records_inv g \<longleftrightarrow> distinct (map sr_key g)"

definition im_records_abs :: "im_records \<Rightarrow> checkpoint_key \<Rightarrow> step_record option" where
  "im_records_abs g k = find (\<lambda>r. sr_key r = k) g"

lemma sorted_list_of_run:
  assumes "distinct (map sr_key g)"
  shows "sorted_wrt (<) (map rec_step (sort_key rec_step (filter (rec_of_run wid run) g)))"
proof -
  let ?f = "filter (rec_of_run wid run) g"
  have "inj_on rec_step (set ?f)"
    using assms by (auto simp: inj_on_def rec_of_run_def distinct_map)
  moreover have "distinct ?f" using assms by (simp add: distinct_map)
  ultimately have "distinct (map rec_step (sort_key rec_step ?f))"
    by (simp add: distinct_map)
  then show ?thesis by (simp add: strict_sorted_iff)
qed

interpretation im_records: record_store im_save_record im_load_record im_list_records "\<lambda>_. True"
    im_records_inv im_records_abs
proof
  show "im_records_inv c \<Longrightarrow> True \<Longrightarrow>
      fst (im_save_record c r) = Inr () \<and> im_records_inv (snd (im_save_record c r))" for c r
    by (simp add: im_save_record_def im_records_inv_def distinct_upsert_key)
  show "im_records_abs (snd (im_save_record c r)) = (im_records_abs c)(sr_key r \<mapsto> r)" for c r
    by (rule ext, simp add: im_save_record_def im_records_abs_def find_upsert_same,
        auto intro: find_upsert_other)
  show "im_load_record c k = Inr (im_records_abs c k)" for c k
    by (simp add: im_load_record_def im_records_abs_def)
  show "im_records_inv c \<Longrightarrow> \<exists>rs. im_list_records c wid run = Inr rs \<and>
        sorted_wrt (<) (map rec_step rs) \<and>
        set rs = {r. im_records_abs c (sr_key r) = Some r \<and> rec_of_run wid run r}" for c wid run
    by (auto simp: im_list_records_def im_records_inv_def im_records_abs_def find_Some_iff_unique
        intro!: exI sorted_list_of_run)
qed

text \<open>The SQL table: one row per key, and every row parses to a record with that key.\<close>

definition sql_record_storable ::
  "(step_record \<Rightarrow> string result) \<Rightarrow> (string \<Rightarrow> step_record result) \<Rightarrow> step_record \<Rightarrow> bool" where
  "sql_record_storable enc dec r \<longleftrightarrow>
     rec_step r < 2 ^ 63 \<and> (\<exists>j. enc r = Inr j \<and> dec j = Inr r)"

definition row_record :: "(string \<Rightarrow> step_record result) \<Rightarrow> record_row \<Rightarrow> step_record \<Rightarrow> bool" where
  "row_record dec row r \<longleftrightarrow>
     dec (rr_record_json row) = Inr r \<and> rec_step r < 2 ^ 63 \<and>
     rr_key row = (workflow_id (sr_key r), run_id (sr_key r), int (rec_step r))"

definition sql_records_inv :: "(string \<Rightarrow> step_record result) \<Rightarrow> record_table \<Rightarrow> bool" where
  "sql_records_inv dec tab \<longleftrightarrow>
     distinct (map rr_key tab) \<and> (\<forall>row\<in>set tab. \<exists>r. row_record dec row r)"

definition sql_records_abs ::
  "(string \<Rightarrow> step_record result) \<Rightarrow> record_table \<Rightarrow> checkpoint_key \<Rightarrow> step_record option" where
  "sql_records_abs dec tab k =
     (if super_step k < 2 ^ 64 then
        (case sql_load_record dec tab k of Inr r \<Rightarrow> r | Inl _ \<Rightarrow> None)
      else None)"

lemma u64_as_i64_inj: "m < 2 ^ 64 \<Longrightarrow> n < 2 ^ 64 \<Longrightarrow> u64_as_i64 m = u64_as_i64 n \<Longrightarrow> m = n"
  by (metis i64_u64_roundtrip)

lemma row_record_find:
  assumes "sql_records_inv dec tab"
  shows "find (\<lambda>r. rr_key r = k) tab = Some row \<longleftrightarrow> row \<in> set tab \<and> rr_key row = k"
  using assms by (simp add: find_Some_iff_unique sql_records_inv_def)

lemma sql_records_abs_Some:
  assumes "sql_records_inv dec tab"
  shows "sql_records_abs dec tab k = Some r \<longleftrightarrow>
    sr_key r = k \<and> (\<exists>row\<in>set tab. row_record dec row r)"
proof -
  have unique: "row_record dec row x \<Longrightarrow> row_record dec row y \<Longrightarrow> x = y" for row x y
    by (simp add: row_record_def)
  have hit: "sr_key r = k" if "row \<in> set tab" "rr_key row = (workflow_id k, run_id k, u64_as_i64 (super_step k))"
      "super_step k < 2 ^ 64" "dec (rr_record_json row) = Inr r" for row
  proof -
    from that(1) assms obtain x where x: "row_record dec row x" by (auto simp: sql_records_inv_def)
    with that(4) have "x = r" by (simp add: row_record_def)
    with x that(2) have *: "workflow_id k = workflow_id (sr_key r)" "run_id k = run_id (sr_key r)"
      "u64_as_i64 (super_step k) = int (rec_step r)" "rec_step r < 2 ^ 63"
      by (auto simp: row_record_def)
    then have "u64_as_i64 (super_step k) = u64_as_i64 (rec_step r)" by (simp add: u64_as_i64_small)
    with *(4) that(3) have "super_step k = rec_step r" by (intro u64_as_i64_inj) simp_all
    with * show ?thesis by simp
  qed
  show ?thesis
  proof
    assume L: "sql_records_abs dec tab k = Some r"
    then obtain row where row: "row \<in> set tab"
      "rr_key row = (workflow_id k, run_id k, u64_as_i64 (super_step k))"
      "super_step k < 2 ^ 64" "dec (rr_record_json row) = Inr r"
      by (auto simp: sql_records_abs_def sql_load_record_def row_record_find [OF assms]
          try_then_eq_Inr split: if_splits option.splits sum.splits)
    moreover from row(1) assms obtain x where "row_record dec row x" by (auto simp: sql_records_inv_def)
    with row(4) have "row_record dec row r" by (simp add: row_record_def)
    ultimately show "sr_key r = k \<and> (\<exists>row\<in>set tab. row_record dec row r)" using hit by blast
  next
    assume "sr_key r = k \<and> (\<exists>row\<in>set tab. row_record dec row r)"
    then obtain row where row: "sr_key r = k" "row \<in> set tab" "row_record dec row r" by blast
    then have lt: "super_step k < 2 ^ 63"
      and key: "rr_key row = (workflow_id k, run_id k, u64_as_i64 (super_step k))"
      by (auto simp: row_record_def u64_as_i64_small)
    then have "find (\<lambda>r. rr_key r = (workflow_id k, run_id k, u64_as_i64 (super_step k))) tab = Some row"
      using row(2) by (simp add: row_record_find [OF assms])
    moreover have "super_step k < 2 ^ 64" using lt by simp
    ultimately show "sql_records_abs dec tab k = Some r"
      using row(3) by (simp add: sql_records_abs_def sql_load_record_def row_record_def)
  qed
qed

lemma sql_save_record_storable:
  assumes "sql_record_storable enc dec r"
  shows "\<exists>row. row_record dec row r \<and>
    sql_save_record enc tab r = (Inr (), upsert_by (\<lambda>x. rr_key x = rr_key row) row tab)"
proof -
  from assms obtain j where j: "enc r = Inr j" "dec j = Inr r" and lt: "rec_step r < 2 ^ 63"
    by (auto simp: sql_record_storable_def)
  let ?row = "\<lparr>rr_workflow_id = workflow_id (sr_key r), rr_run_id = run_id (sr_key r),
      rr_super_step = u64_as_i64 (rec_step r), rr_record_json = j\<rparr>"
  have "row_record dec ?row r" using j lt by (simp add: row_record_def rr_key_def u64_as_i64_small)
  with j show ?thesis by (auto simp: sql_save_record_def Let_def)
qed

lemma set_upsert_unique:
  "distinct (map key xs) \<Longrightarrow>
   set (upsert_by (\<lambda>y. key y = key x) x xs) = insert x {y \<in> set xs. key y \<noteq> key x}"
  by (induction xs) (auto simp: image_iff)

lemma row_record_key:
  "row_record dec row r \<Longrightarrow> row_record dec row' r' \<Longrightarrow> rr_key row' = rr_key row \<longleftrightarrow> sr_key r' = sr_key r"
  by (auto simp: row_record_def)

lemma sql_records_save:
  assumes "sql_records_inv dec tab" and "sql_record_storable enc dec r"
  shows "sql_records_inv dec (snd (sql_save_record enc tab r))"
    and "sql_records_abs dec (snd (sql_save_record enc tab r)) = (sql_records_abs dec tab)(sr_key r \<mapsto> r)"
proof -
  from sql_save_record_storable [OF assms(2), of tab] obtain row where row: "row_record dec row r"
    and save: "sql_save_record enc tab r = (Inr (), upsert_by (\<lambda>x. rr_key x = rr_key row) row tab)"
    by blast
  let ?tab = "upsert_by (\<lambda>x. rr_key x = rr_key row) row tab"
  have dist: "distinct (map rr_key tab)" using assms(1) by (simp add: sql_records_inv_def)
  have set: "set ?tab = insert row {y \<in> set tab. rr_key y \<noteq> rr_key row}"
    using dist by (rule set_upsert_unique)
  have inv: "sql_records_inv dec ?tab"
    using assms(1) row distinct_upsert_key [OF _ dist, of "\<lambda>x. rr_key x = rr_key row" row]
    unfolding sql_records_inv_def set by auto
  then show "sql_records_inv dec (snd (sql_save_record enc tab r))" by (simp add: save)
  have "sql_records_abs dec ?tab k = Some x \<longleftrightarrow> ((sql_records_abs dec tab)(sr_key r \<mapsto> r)) k = Some x" for k x
    unfolding sql_records_abs_Some [OF inv] set
    using row row_record_key [OF row]
    by (auto simp: sql_records_abs_Some [OF assms(1)] row_record_def)
  then have "sql_records_abs dec ?tab k = ((sql_records_abs dec tab)(sr_key r \<mapsto> r)) k" for k
    by (metis not_Some_eq)
  then show "sql_records_abs dec (snd (sql_save_record enc tab r)) = (sql_records_abs dec tab)(sr_key r \<mapsto> r)"
    by (auto simp: save)
qed

lemma decode_rows_ok:
  "\<forall>row\<in>set rows. \<exists>r. row_record dec row r \<Longrightarrow>
   \<exists>rs. decode_rows dec rows = Inr rs \<and> list_all2 (row_record dec) rows rs"
proof (induction rows)
  case (Cons row rows)
  then obtain r rs where r: "row_record dec row r" "decode_rows dec rows = Inr rs"
    "list_all2 (row_record dec) rows rs" by auto
  then have "decode_rows dec (row # rows) = Inr (r # rs)" by (simp add: row_record_def)
  with r show ?case by (auto intro: exI [of _ "r # rs"])
qed simp

lemma row_record_list:
  assumes "list_all2 (row_record dec) rows rs"
  shows "map int (map rec_step rs) = map rr_super_step rows"
    and "set rs = {r. \<exists>row\<in>set rows. row_record dec row r}"
proof -
  have unique: "row_record dec row x \<Longrightarrow> row_record dec row y \<Longrightarrow> x = y" for row x y
    by (simp add: row_record_def)
  show "map int (map rec_step rs) = map rr_super_step rows"
    using assms by (induction rows rs) (auto simp: row_record_def rr_key_def)
  show "set rs = {r. \<exists>row\<in>set rows. row_record dec row r}"
    using assms by (induction rows rs) (auto dest: unique)
qed

lemma sql_list_records_spec:
  assumes "sql_records_inv dec tab"
  shows "\<exists>rs. sql_list_records dec tab wid run = Inr rs \<and> sorted_wrt (<) (map rec_step rs) \<and>
    set rs = {r. sql_records_abs dec tab (sr_key r) = Some r \<and> rec_of_run wid run r}"
proof -
  let ?f = "filter (\<lambda>r. rr_workflow_id r = wid \<and> rr_run_id r = run) tab"
  let ?rows = "sort_key rr_super_step ?f"
  have "\<forall>row\<in>set ?rows. \<exists>r. row_record dec row r" using assms by (auto simp: sql_records_inv_def)
  from decode_rows_ok [OF this] obtain rs where rs: "decode_rows dec ?rows = Inr rs"
    "list_all2 (row_record dec) ?rows rs" by blast
  have "inj_on rr_super_step (set ?f)" "distinct ?f"
    using assms by (auto simp: sql_records_inv_def distinct_map inj_on_def rr_key_def)
  then have "distinct (map rr_super_step ?rows)" by (simp add: distinct_map)
  then have "sorted_wrt (<) (map rr_super_step ?rows)" by (simp add: strict_sorted_iff)
  then have "sorted_wrt (<) (map int (map rec_step rs))" using row_record_list(1) [OF rs(2)] by simp
  then have "sorted_wrt (<) (map rec_step rs)" by (simp add: sorted_wrt_map)
  moreover have "set rs = {r. sql_records_abs dec tab (sr_key r) = Some r \<and> rec_of_run wid run r}"
    unfolding row_record_list(2) [OF rs(2)] sql_records_abs_Some [OF assms]
    by (auto simp: row_record_def rr_key_def rec_of_run_def)
  ultimately show ?thesis using rs(1) by (auto simp: sql_list_records_def)
qed

lemma sql_load_record_abs:
  assumes "sql_records_inv dec tab" and "super_step k < 2 ^ 64"
  shows "sql_load_record dec tab k = Inr (sql_records_abs dec tab k)"
proof -
  have "\<exists>x. sql_load_record dec tab k = Inr x"
    using assms(1) row_record_find [OF assms(1), of "(workflow_id k, run_id k, u64_as_i64 (super_step k))"]
    by (force simp: sql_load_record_def sql_records_inv_def row_record_def split: option.splits)
  then show ?thesis using assms(2) by (auto simp: sql_records_abs_def)
qed

interpretation sql_records: record_store "sql_save_record enc" "sql_load_record dec"
    "sql_list_records dec" "sql_record_storable enc dec" "sql_records_inv dec" "sql_records_abs dec"
  for enc dec
proof
  show "sql_records_inv dec c \<Longrightarrow> sql_record_storable enc dec r \<Longrightarrow>
      fst (sql_save_record enc c r) = Inr () \<and> sql_records_inv dec (snd (sql_save_record enc c r))"
    for c r
    using sql_save_record_storable [of enc dec r c] sql_records_save(1) [of dec c enc r] by auto
qed (simp_all add: sql_records_save sql_load_record_abs sql_list_records_spec)

subsection \<open>Replaying recorded decisions (workflow/src/replay_sink.rs)\<close>

record step_ref =
  ref_workflow :: string
  ref_run :: string
  ref_super_step :: nat

text \<open>
  A sink is its \<open>emit\<close> operation over a state of its own. The inner loop emits the
  side-effecting calls of one step and tells whether it emitted any.
\<close>

fun emit_calls ::
  "('k \<Rightarrow> step_ref \<Rightarrow> tool_call_record \<Rightarrow> unit result \<times> 'k) \<Rightarrow> step_ref \<Rightarrow>
   tool_call_record list \<Rightarrow> bool \<Rightarrow> 'k \<Rightarrow> bool result \<times> 'k" where
  "emit_calls emit ref [] emitted_here k = (Inr emitted_here, k)"
| "emit_calls emit ref (tc # tcs) emitted_here k =
     (if \<not> tc_is_side_effecting tc then emit_calls emit ref tcs emitted_here k
      else (case emit k ref tc of
              (Inl e, k') \<Rightarrow> (Inl e, k')
            | (Inr _, k') \<Rightarrow> emit_calls emit ref tcs True k'))"

fun replay_steps ::
  "('k \<Rightarrow> step_ref \<Rightarrow> tool_call_record \<Rightarrow> unit result \<times> 'k) \<Rightarrow> string \<Rightarrow> string \<Rightarrow> nat \<Rightarrow>
   step_record list \<Rightarrow> nat \<Rightarrow> 'k \<Rightarrow> nat result \<times> 'k" where
  "replay_steps emit workflow run from_cursor [] cursor k = (Inr cursor, k)"
| "replay_steps emit workflow run from_cursor (r # recs) cursor k =
     (if rec_step r < from_cursor then replay_steps emit workflow run from_cursor recs cursor k
      else (case emit_calls emit
                  \<lparr>ref_workflow = workflow, ref_run = run, ref_super_step = rec_step r\<rparr>
                  (sr_tool_calls r) False k of
              (Inl e, k') \<Rightarrow> (Inl e, k')
            | (Inr emitted_here, k') \<Rightarrow>
                replay_steps emit workflow run from_cursor recs
                  (if emitted_here then rec_step r else cursor) k'))"

definition replay_to_sink ::
  "(string \<Rightarrow> string \<Rightarrow> step_record list result) \<Rightarrow> string \<Rightarrow> string \<Rightarrow> nat \<Rightarrow>
   ('k \<Rightarrow> step_ref \<Rightarrow> tool_call_record \<Rightarrow> unit result \<times> 'k) \<Rightarrow> 'k \<Rightarrow> nat result \<times> 'k" where
  "replay_to_sink list_records workflow run from_cursor emit k =
     (case list_records workflow run of
        Inl e \<Rightarrow> (Inl e, k)
      | Inr recs \<Rightarrow> replay_steps emit workflow run from_cursor recs from_cursor k)"

text \<open>
  The channel sink. Its state is what was sent and how many more sends the receiver lives for
  (\<open>None\<close>: it is never dropped). Waiting for room in the bounded channel delays a send but
  does not change what is sent. The text of tokio's send error is an argument.
\<close>

record channel_sink =
  sent :: "(step_ref \<times> tool_call_record) list"
  receiver_left :: "nat option"

definition channel_emit ::
  "string \<Rightarrow> channel_sink \<Rightarrow> step_ref \<Rightarrow> tool_call_record \<Rightarrow> unit result \<times> channel_sink" where
  "channel_emit closed_msg k ref tc =
     (case receiver_left k of
        None \<Rightarrow> (Inr (), k\<lparr>sent := sent k @ [(ref, tc)]\<rparr>)
      | Some 0 \<Rightarrow> (Inl (Internal (''replay channel closed: '' @ closed_msg)), k)
      | Some (Suc n) \<Rightarrow> (Inr (), k\<lparr>sent := sent k @ [(ref, tc)], receiver_left := Some n\<rparr>))"

subsection \<open>What a replay delivers\<close>

definition decisions_of :: "string \<Rightarrow> string \<Rightarrow> step_record \<Rightarrow> (step_ref \<times> tool_call_record) list" where
  "decisions_of workflow run r =
     map (Pair \<lparr>ref_workflow = workflow, ref_run = run, ref_super_step = rec_step r\<rparr>)
         (filter tc_is_side_effecting (sr_tool_calls r))"

definition decisions ::
  "string \<Rightarrow> string \<Rightarrow> nat \<Rightarrow> step_record list \<Rightarrow> (step_ref \<times> tool_call_record) list" where
  "decisions workflow run from recs =
     concat (map (decisions_of workflow run) (filter (\<lambda>r. from \<le> rec_step r) recs))"

fun emit_all ::
  "('k \<Rightarrow> step_ref \<Rightarrow> tool_call_record \<Rightarrow> unit result \<times> 'k) \<Rightarrow>
   (step_ref \<times> tool_call_record) list \<Rightarrow> 'k \<Rightarrow> unit result \<times> 'k" where
  "emit_all emit [] k = (Inr (), k)"
| "emit_all emit (d # ds) k =
     (case emit k (fst d) (snd d) of
        (Inl e, k') \<Rightarrow> (Inl e, k')
      | (Inr _, k') \<Rightarrow> emit_all emit ds k')"

lemma emit_all_append:
  "emit_all emit (xs @ ys) k =
     (case emit_all emit xs k of (Inl e, k') \<Rightarrow> (Inl e, k') | (Inr _, k') \<Rightarrow> emit_all emit ys k')"
  by (induction emit xs k rule: emit_all.induct) (auto split: prod.splits sum.splits)

lemma emit_calls_emit_all:
  "emit_calls emit ref tcs b k =
     (case emit_all emit (map (Pair ref) (filter tc_is_side_effecting tcs)) k of
        (Inl e, k') \<Rightarrow> (Inl e, k')
      | (Inr _, k') \<Rightarrow> (Inr (b \<or> (\<exists>tc\<in>set tcs. tc_is_side_effecting tc)), k'))"
  by (induction emit ref tcs b k rule: emit_calls.induct) (auto split: prod.splits sum.splits)

text \<open>The cursor a replay returns: the last step that emitted something.\<close>

definition final_cursor :: "(step_ref \<times> tool_call_record) list \<Rightarrow> nat \<Rightarrow> nat" where
  "final_cursor ds c = (if ds = [] then c else ref_super_step (fst (last ds)))"

lemma final_cursor_append:
  "final_cursor (xs @ ys) c = final_cursor ys (final_cursor xs c)"
  by (simp add: final_cursor_def)

lemma final_cursor_decisions_of:
  "final_cursor (decisions_of workflow run r) c =
     (if \<exists>tc\<in>set (sr_tool_calls r). tc_is_side_effecting tc then rec_step r else c)"
  by (auto simp: final_cursor_def decisions_of_def filter_empty_conv last_map)

lemma replay_steps_spec:
  "replay_steps emit workflow run from recs c k =
     (case emit_all emit (decisions workflow run from recs) k of
        (Inl e, k') \<Rightarrow> (Inl e, k')
      | (Inr _, k') \<Rightarrow> (Inr (final_cursor (decisions workflow run from recs) c), k'))"
proof (induction emit workflow run "from" recs c k rule: replay_steps.induct)
  case (2 emit workflow run "from" r recs c k)
  show ?case
  proof (cases "rec_step r < from")
    case True
    then have "decisions workflow run from (r # recs) = decisions workflow run from recs"
      by (simp add: decisions_def)
    with "2.IH"(1) True show ?thesis by (simp split: prod.splits sum.splits)
  next
    case False
    let ?ds = "decisions_of workflow run r" and ?rest = "decisions workflow run from recs"
    have ds: "decisions workflow run from (r # recs) = ?ds @ ?rest"
      using False by (simp add: decisions_def)
    let ?side = "\<exists>tc\<in>set (sr_tool_calls r). tc_is_side_effecting tc"
    let ?ref = "\<lparr>ref_workflow = workflow, ref_run = run, ref_super_step = rec_step r\<rparr>"
    have calls: "emit_calls emit ?ref (sr_tool_calls r) False k =
      (case emit_all emit ?ds k of (Inl e, k') \<Rightarrow> (Inl e, k') | (Inr _, k') \<Rightarrow> (Inr ?side, k'))"
      by (simp add: emit_calls_emit_all decisions_of_def split: prod.splits sum.splits)
    show ?thesis
    proof (cases "emit_all emit ?ds k")
      case (Pair res k')
      show ?thesis
      proof (cases res)
        case (Inl e)
        with Pair calls False show ?thesis by (simp add: ds emit_all_append)
      next
        case (Inr u)
        with Pair calls have "emit_calls emit ?ref (sr_tool_calls r) False k = (Inr ?side, k')" by simp
        with "2.IH"(2) [OF False this [symmetric] refl] Inr Pair False show ?thesis
          by (simp add: ds emit_all_append final_cursor_append final_cursor_decisions_of
              split: prod.splits sum.splits)
      qed
    qed
  qed
qed (simp add: decisions_def final_cursor_def)

lemma replay_to_sink_spec:
  assumes "list_records workflow run = Inr recs"
  shows "replay_to_sink list_records workflow run from emit k =
     (case emit_all emit (decisions workflow run from recs) k of
        (Inl e, k') \<Rightarrow> (Inl e, k')
      | (Inr _, k') \<Rightarrow> (Inr (final_cursor (decisions workflow run from recs) from), k'))"
  by (simp add: replay_to_sink_def assms replay_steps_spec)

lemma emit_all_channel:
  "emit_all (channel_emit msg) ds k =
     (case receiver_left k of
        None \<Rightarrow> (Inr (), k\<lparr>sent := sent k @ ds\<rparr>)
      | Some n \<Rightarrow>
          (if length ds \<le> n
           then (Inr (), k\<lparr>sent := sent k @ ds, receiver_left := Some (n - length ds)\<rparr>)
           else (Inl (Internal (''replay channel closed: '' @ msg)),
                 k\<lparr>sent := sent k @ take n ds, receiver_left := Some 0\<rparr>)))"
proof (induction ds arbitrary: k)
  case (Cons d ds)
  obtain ref tc where d: "d = (ref, tc)" by force
  show ?case
  proof (cases "receiver_left k")
    case None
    with Cons d show ?thesis by (simp add: channel_emit_def)
  next
    case (Some n)
    then show ?thesis
    proof (cases n)
      case 0
      with Some d show ?thesis by (simp add: channel_emit_def)
    next
      case (Suc m)
      with Some d Cons show ?thesis by (simp add: channel_emit_def)
    qed
  qed
qed (simp split: option.splits)

lemma set_decisions:
  "(ref, tc) \<in> set (decisions workflow run from recs) \<longleftrightarrow>
   (\<exists>r\<in>set recs. from \<le> rec_step r \<and> tc \<in> set (sr_tool_calls r) \<and> tc_is_side_effecting tc \<and>
      ref = \<lparr>ref_workflow = workflow, ref_run = run, ref_super_step = rec_step r\<rparr>)"
  by (auto simp: decisions_def decisions_of_def)

lemma decisions_later:
  "from \<le> c \<Longrightarrow>
   decisions workflow run c recs = filter (\<lambda>d. c \<le> ref_super_step (fst d)) (decisions workflow run from recs)"
proof -
  have *: "filter (\<lambda>d. c \<le> ref_super_step (fst d)) (decisions_of workflow run r) =
      (if c \<le> rec_step r then decisions_of workflow run r else [])" for r
    by (auto simp: decisions_of_def filter_map comp_def)
  show "from \<le> c \<Longrightarrow> ?thesis"
    by (induction recs) (simp_all add: decisions_def *)
qed

lemma decisions_sorted:
  assumes "sorted (map rec_step recs)"
  shows "sorted (map (\<lambda>d. ref_super_step (fst d)) (decisions workflow run from recs))"
  using assms
proof (induction recs)
  case (Cons r recs)
  have "\<forall>d\<in>set (decisions_of workflow run r). ref_super_step (fst d) = rec_step r"
    by (auto simp: decisions_of_def)
  moreover have "sorted (map (\<lambda>d. ref_super_step (fst d)) (decisions_of workflow run r))"
    by (simp add: decisions_of_def comp_def sorted_wrt_map sorted_iff_nth_mono)
  moreover have "\<forall>d\<in>set (decisions workflow run from recs). rec_step r \<le> ref_super_step (fst d)"
    using Cons.prems by (auto simp: decisions_def decisions_of_def)
  ultimately show ?case
    using Cons by (auto simp: decisions_def sorted_append)
qed (simp add: decisions_def)

text \<open>Splitting an ordered list at the key of its \<open>n\<close>-th element.\<close>

lemma sorted_split_at:
  assumes "sorted (map f ds)" and "0 < n" and "n \<le> length ds"
  shows "\<exists>a b. take n ds = a @ b \<and> (\<forall>d\<in>set b. f d = f (ds ! (n - 1))) \<and>
    a @ filter (\<lambda>d. f (ds ! (n - 1)) \<le> f d) ds = ds"
proof -
  let ?c = "f (ds ! (n - 1))"
  let ?a = "filter (\<lambda>d. f d < ?c) ds" and ?e = "filter (\<lambda>d. ?c \<le> f d) ds"
  have split: "?a @ ?e = ds"
  proof -
    have "filter (\<lambda>d. f d < c) ds @ filter (\<lambda>d. c \<le> f d) ds = ds" if "sorted (map f ds)" for c ds
      using that
    proof (induction ds)
      case (Cons x xs)
      show ?case
      proof (cases "f x < c")
        case True
        with Cons show ?thesis by simp
      next
        case False
        with Cons.prems have "\<forall>y\<in>set xs. c \<le> f y" by auto
        then have "filter (\<lambda>d. f d < c) xs = []" "filter (\<lambda>d. c \<le> f d) xs = xs"
          by (auto simp: filter_empty_conv filter_id_conv not_less)
        with False show ?thesis by simp
      qed
    qed simp
    with assms(1) show ?thesis by blast
  qed
  have len: "length ?a < n"
  proof (rule ccontr)
    assume "\<not> length ?a < n"
    then have "n - 1 < length ?a" using assms(2) by simp
    moreover then have "ds ! (n - 1) = ?a ! (n - 1)" using split by (metis nth_append)
    ultimately have "ds ! (n - 1) \<in> set ?a" by (metis nth_mem)
    then show False by simp
  qed
  have "take n ds = ?a @ take (n - length ?a) ?e"
    using len by (subst split [symmetric]) (simp only: take_append, simp)
  moreover have "\<forall>d\<in>set (take (n - length ?a) ?e). f d = ?c"
  proof
    fix d assume "d \<in> set (take (n - length ?a) ?e)"
    then have d: "d \<in> set ?e" "d \<in> set (take n ds)"
      using calculation by (auto dest: in_set_takeD)
    then obtain i where "i < n" "i < length ds" "d = ds ! i" by (auto simp: in_set_conv_nth)
    then have "f d \<le> ?c" using assms sorted_nth_mono [of "map f ds" i "n - 1"] by simp
    with d(1) show "f d = ?c" by simp
  qed
  ultimately show ?thesis using split by blast
qed

lemma decisions_resume:
  assumes "sorted (map rec_step recs)" and "0 < n"
    and "n \<le> length (decisions workflow run from recs)"
  defines "ds \<equiv> decisions workflow run from recs"
  defines "c \<equiv> ref_super_step (fst (ds ! (n - 1)))"
  shows "\<exists>a b. take n ds = a @ b \<and> (\<forall>d\<in>set b. ref_super_step (fst d) = c) \<and>
    a @ decisions workflow run c recs = ds"
proof -
  have "ds ! (n - 1) \<in> set ds" using assms(2,3) by (simp add: ds_def)
  then have "from \<le> c"
    using set_decisions [of "fst (ds ! (n - 1))" "snd (ds ! (n - 1))"] by (auto simp: ds_def c_def)
  then have "decisions workflow run c recs = filter (\<lambda>d. c \<le> ref_super_step (fst d)) ds"
    by (simp add: decisions_later ds_def)
  with sorted_split_at [of "\<lambda>d. ref_super_step (fst d)" ds n] decisions_sorted [OF assms(1)] assms(2,3)
  show ?thesis by (simp add: ds_def c_def)
qed

subsection \<open>Properties\<close>

text \<open>
  (C12) A replay delivers the recorded side-effecting decisions of the run from the cursor on, step by
  step in ascending super-step order, nothing else, and stops at the first refused emission. When
  the sink takes everything, the cursor returned is the last step that emitted something, the
  starting cursor when none did. This holds for any sink and any contents of the in-memory store.
\<close>

theorem replay_emits_decisions:
  assumes "im_records_inv g"
  shows "\<exists>recs. sorted_wrt (<) (map rec_step recs) \<and>
    set recs = {r \<in> set g. rec_of_run workflow run r} \<and>
    replay_to_sink (im_list_records g) workflow run start emit k =
      (case emit_all emit (decisions workflow run start recs) k of
         (Inl e, k') \<Rightarrow> (Inl e, k')
       | (Inr _, k') \<Rightarrow> (Inr (final_cursor (decisions workflow run start recs) start), k'))"
proof -
  let ?recs = "sort_key rec_step (filter (rec_of_run workflow run) g)"
  have "sorted_wrt (<) (map rec_step ?recs)"
    using assms by (intro sorted_list_of_run) (simp add: im_records_inv_def)
  moreover have "im_list_records g workflow run = Inr ?recs" by (simp add: im_list_records_def)
  moreover note replay_to_sink_spec [where list_records = "im_list_records g" and workflow = workflow
      and run = run and recs = ?recs and emit = emit and k = k, OF calculation(2)]
  ultimately show ?thesis by (intro exI [of _ ?recs]) auto
qed

definition demo_step_record :: "nat \<Rightarrow> tool_call_record list \<Rightarrow> step_record" where
  "demo_step_record n tcs =
     \<lparr>sr_key = \<lparr>workflow_id = ''w'', run_id = ''r'', super_step = n\<rparr>, sr_inference = None,
      sr_tool_calls = tcs, sr_state_snapshot = Map.empty\<rparr>"

definition demo_call :: "string \<Rightarrow> bool \<Rightarrow> tool_call_record" where
  "demo_call t b = \<lparr>tc_tool = t, tc_args_hash = [], tc_ret = Null, tc_is_side_effecting = b\<rparr>"

theorem replay_emits_decisions_witness:
  "let g = [demo_step_record 2 [demo_call ''read'' False], demo_step_record 1 [demo_call ''buy'' True]]
   in \<exists>recs. sorted_wrt (<) (map rec_step recs) \<and> set recs = {r \<in> set g. rec_of_run ''w'' ''r'' r} \<and>
     replay_to_sink (im_list_records g) ''w'' ''r'' 0 (channel_emit []) \<lparr>sent = [], receiver_left = None\<rparr> =
      (case emit_all (channel_emit []) (decisions ''w'' ''r'' 0 recs) \<lparr>sent = [], receiver_left = None\<rparr> of
         (Inl e, k') \<Rightarrow> (Inl e, k')
       | (Inr _, k') \<Rightarrow> (Inr (final_cursor (decisions ''w'' ''r'' 0 recs) 0), k'))"
  unfolding Let_def
  by (rule replay_emits_decisions) (simp add: im_records_inv_def demo_step_record_def)

text \<open>
  An interrupted replay loses nothing. If the consumer goes away in the middle, replaying again
  from the step of its last decision delivers everything an undisturbed replay would still have
  delivered; the only decisions delivered twice belong to that one step.
\<close>

theorem replay_resumes:
  assumes "im_records_inv g"
    and "snd (replay_to_sink (im_list_records g) workflow run start (channel_emit msg)
      \<lparr>sent = [], receiver_left = Some n\<rparr>) = k" and "sent k \<noteq> []"
  defines "c \<equiv> ref_super_step (fst (last (sent k)))"
  shows "\<exists>a b. sent k = a @ b \<and> (\<forall>d\<in>set b. ref_super_step (fst d) = c) \<and>
    a @ sent (snd (replay_to_sink (im_list_records g) workflow run c (channel_emit msg)
           \<lparr>sent = [], receiver_left = None\<rparr>)) =
    sent (snd (replay_to_sink (im_list_records g) workflow run start (channel_emit msg)
           \<lparr>sent = [], receiver_left = None\<rparr>))"
proof -
  let ?recs = "sort_key rec_step (filter (rec_of_run workflow run) g)"
  let ?ds = "decisions workflow run start ?recs"
  have list: "im_list_records g workflow run = Inr ?recs" by (simp add: im_list_records_def)
  note spec = replay_to_sink_spec [of "im_list_records g", OF list, where emit = "channel_emit msg"]
  have k: "sent k = take n ?ds"
    using assms(2) by (auto simp: spec emit_all_channel split: if_splits)
  let ?n = "min n (length ?ds)"
  have n: "0 < ?n" using assms(3) k by (cases n; cases ?ds) auto
  have "take n ?ds ! (?n - 1) = ?ds ! (?n - 1)" using n by (intro nth_take) linarith
  moreover have "last (take n ?ds) = take n ?ds ! (?n - 1)"
    using n by (subst last_conv_nth) (simp_all add: min.commute)
  ultimately have c: "c = ref_super_step (fst (?ds ! (?n - 1)))"
    unfolding c_def k by simp
  have full: "sent (snd (replay_to_sink (im_list_records g) workflow run s (channel_emit msg)
      \<lparr>sent = [], receiver_left = None\<rparr>)) = decisions workflow run s ?recs" for s
    by (simp add: spec emit_all_channel)
  have "sorted (map rec_step ?recs)" by simp
  from decisions_resume [OF this n, of workflow run start]
  have "\<exists>a b. take ?n ?ds = a @ b \<and> (\<forall>d\<in>set b. ref_super_step (fst d) = c) \<and>
      a @ decisions workflow run c ?recs = ?ds"
    unfolding c by simp
  moreover have "take ?n ?ds = sent k" unfolding k by (simp add: min_def)
  ultimately show ?thesis unfolding full by metis
qed

theorem replay_resumes_witness:
  "let g = [demo_step_record 1 [demo_call ''a'' True, demo_call ''b'' True], demo_step_record 2 [demo_call ''c'' True]];
       k = snd (replay_to_sink (im_list_records g) ''w'' ''r'' 0 (channel_emit []) \<lparr>sent = [], receiver_left = Some 1\<rparr>)
   in \<exists>a b. sent k = a @ b \<and> (\<forall>d\<in>set b. ref_super_step (fst d) = 1)"
proof -
  let ?g = "[demo_step_record 1 [demo_call ''a'' True, demo_call ''b'' True], demo_step_record 2 [demo_call ''c'' True]]"
  let ?k = "snd (replay_to_sink (im_list_records ?g) ''w'' ''r'' 0 (channel_emit []) \<lparr>sent = [], receiver_left = Some 1\<rparr>)"
  have inv: "im_records_inv ?g" by (simp add: im_records_inv_def demo_step_record_def)
  have k: "sent ?k \<noteq> [] \<and> ref_super_step (fst (last (sent ?k))) = 1" by code_simp
  from replay_resumes [OF inv refl conjunct1 [OF k]] k show ?thesis unfolding Let_def by metis
qed

text \<open>
  The two record stores are interchangeable for replay: when the same records were saved into
  both, with the SQL table's codec printing and parsing them faithfully, every replay into any sink
  has the same outcome.
\<close>

theorem replay_backends_agree:
  assumes "\<forall>r\<in>set rs. sql_record_storable enc dec r"
  shows "replay_to_sink (sql_list_records dec (save_records (sql_save_record enc) rs [])) workflow run start emit k =
    replay_to_sink (im_list_records (save_records im_save_record rs [])) workflow run start emit k"
proof -
  have sql: "sql_records_inv dec []" by (simp add: sql_records_inv_def)
  have im: "im_records_inv []" by (simp add: im_records_inv_def)
  have "sql_records_abs dec [] = im_records_abs []"
    by (rule ext) (simp add: sql_records_abs_def sql_load_record_def im_records_abs_def)
  then have abs: "sql_records_abs dec (save_records (sql_save_record enc) rs []) =
      im_records_abs (save_records im_save_record rs [])"
    using sql_records.save_records_abs [OF sql assms] im_records.save_records_abs [OF im, of rs] by simp
  have inv: "sql_records_inv dec (save_records (sql_save_record enc) rs [])"
    "im_records_inv (save_records im_save_record rs [])"
    using sql_records.save_records_abs [OF sql assms] im_records.save_records_abs [OF im, of rs] by simp_all
  from im_records.list_abs [OF inv(2), of workflow run] obtain recs where recs:
    "im_list_records (save_records im_save_record rs []) workflow run = Inr recs"
    "sorted_wrt (<) (map rec_step recs)"
    "set recs = {r. im_records_abs (save_records im_save_record rs []) (sr_key r) = Some r \<and>
       rec_of_run workflow run r}" by blast
  from sql_records.list_abs [OF inv(1), of workflow run] obtain recs' where recs':
    "sql_list_records dec (save_records (sql_save_record enc) rs []) workflow run = Inr recs'" by blast
  have "recs = recs'"
    using sql_records.list_determined [OF inv(1) recs' recs(2)] recs(3) by (simp add: abs)
  with recs recs' show ?thesis by (simp add: replay_to_sink_def)
qed

definition one_enc :: "step_record \<Rightarrow> string result" where
  "one_enc r = Inr []"

definition one_dec :: "string \<Rightarrow> step_record result" where
  "one_dec t = Inr (demo_step_record 1 [demo_call ''buy'' True])"

theorem replay_backends_agree_witness:
  "replay_to_sink (sql_list_records one_dec (save_records (sql_save_record one_enc)
      [demo_step_record 1 [demo_call ''buy'' True]] [])) ''w'' ''r'' 0 (channel_emit []) \<lparr>sent = [], receiver_left = None\<rparr> =
   replay_to_sink (im_list_records (save_records im_save_record
      [demo_step_record 1 [demo_call ''buy'' True]] [])) ''w'' ''r'' 0 (channel_emit []) \<lparr>sent = [], receiver_left = None\<rparr>"
  by (rule replay_backends_agree)
     (simp add: sql_record_storable_def one_enc_def one_dec_def, simp add: demo_step_record_def)

end
