(* ===== verification/Strings.thy ===== *)
theory Strings
  imports Prelude "HOL-Library.Sublist"
begin

text \<open>
  The operations of the Rust string library that the text-handling crates use (\<open>trim\<close>, \<open>lines\<close>, \<open>split\<close>,
  \<open>split_whitespace\<close>, \<open>split_once\<close>, \<open>find\<close>), as list functions. Text is ASCII in the models that use them, so that
  characters and bytes are the same thing.
\<close>

subsection \<open>White space\<close>

definition is_ws :: "char \<Rightarrow> bool" where
  "is_ws c \<longleftrightarrow> of_char c \<in> {9, 10, 11, 12, 13, 32 :: nat}"

definition trim_start :: "string \<Rightarrow> string" where
  "trim_start s = dropWhile is_ws s"

definition trim :: "string \<Rightarrow> string" where
  "trim s = rev (dropWhile is_ws (rev (dropWhile is_ws s)))"

lemma trim_Nil [simp]: "trim [] = []"
  by (simp add: trim_def)

lemma trim_eq_Nil [simp]: "trim s = [] \<longleftrightarrow> (\<forall>c\<in>set s. is_ws c)"
  by (auto simp: trim_def dropWhile_eq_Nil_conv dest: set_dropWhileD) (metis dropWhile_eq_Nil_conv hd_dropWhile
      hd_in_set list.set_intros(1))

text \<open>Text without white space at either end.\<close>

definition tight :: "string \<Rightarrow> bool" where
  "tight s \<longleftrightarrow> s \<noteq> [] \<longrightarrow> \<not> is_ws (hd s) \<and> \<not> is_ws (last s)"

lemma dropWhile_tight: "xs = [] \<or> \<not> p (hd xs) \<Longrightarrow> dropWhile p xs = xs"
  by (cases xs) auto

lemma trim_tight: "tight s \<Longrightarrow> trim s = s"
  by (cases "s = []") (auto simp: trim_def tight_def dropWhile_tight hd_rev)

lemma tight_trim [simp]: "tight (trim s)"
proof (cases "trim s = []")
  case False
  let ?u = "dropWhile is_ws s" and ?v = "dropWhile is_ws (rev (dropWhile is_ws s))"
  have v: "?v \<noteq> []" using False by (simp add: trim_def)
  then have u: "?u \<noteq> []" by (cases "?u = []") auto
  have l: "\<not> is_ws (last (trim s))"
    using hd_dropWhile [OF v [unfolded not_None_eq]] hd_dropWhile [of is_ws "rev ?u"] v by (simp add: trim_def last_rev)
  have "rev ?u = takeWhile is_ws (rev ?u) @ ?v" by simp
  then have "?u = rev ?v @ rev (takeWhile is_ws (rev ?u))"
    by (metis rev_append rev_rev_ident takeWhile_dropWhile_id)
  then have "hd ?u = hd (rev ?v)" using v by (metis hd_append2 rev_is_Nil_conv)
  then have "\<not> is_ws (hd (trim s))" using hd_dropWhile [OF u] by (simp add: trim_def)
  with l show ?thesis by (simp add: tight_def)
qed (simp add: tight_def)

lemma trim_idem [simp]: "trim (trim s) = trim s"
  by (simp add: trim_tight)

text \<open>\<open>split_whitespace\<close>: the maximal runs of other characters.\<close>

fun ws_tokens :: "string \<Rightarrow> string \<Rightarrow> string list" where
  "ws_tokens cur [] = (if cur = [] then [] else [cur])"
| "ws_tokens cur (c # s) =
     (if is_ws c then (if cur = [] then ws_tokens [] s else cur # ws_tokens [] s)
      else ws_tokens (cur @ [c]) s)"

definition split_whitespace :: "string \<Rightarrow> string list" where
  "split_whitespace s = ws_tokens [] s"

subsection \<open>Lines\<close>

definition lf :: char where "lf = CHR 0x0A"
definition cr :: char where "cr = CHR 0x0D"

lemma lf_cr [simp]: "lf \<noteq> cr" "cr \<noteq> lf" "is_ws lf" "is_ws cr"
  by (simp_all add: lf_def cr_def is_ws_def)

text \<open>\<open>lines\<close>: a terminated line loses its newline and one carriage return before it.\<close>

definition strip_cr :: "string \<Rightarrow> string" where
  "strip_cr s = (if s \<noteq> [] \<and> last s = cr then butlast s else s)"

fun lines_from :: "string \<Rightarrow> string \<Rightarrow> string list" where
  "lines_from cur [] = (if cur = [] then [] else [cur])"
| "lines_from cur (c # s) = (if c = lf then strip_cr cur # lines_from [] s else lines_from (cur @ [c]) s)"

definition lines_of :: "string \<Rightarrow> string list" where
  "lines_of s = lines_from [] s"

text \<open>What pushing each line and a newline makes of them.\<close>

definition unlines :: "string list \<Rightarrow> string" where
  "unlines ls = concat (map (\<lambda>l. l @ [lf]) ls)"

lemma unlines_simps [simp]:
  "unlines [] = []" "unlines (l # ls) = l @ lf # unlines ls" "unlines (xs @ ys) = unlines xs @ unlines ys"
  by (simp_all add: unlines_def)

lemma unlines_eq_Nil [simp]: "unlines ls = [] \<longleftrightarrow> ls = []"
  by (cases ls) auto

lemma lines_from_line: "lf \<notin> set l \<Longrightarrow> lines_from cur (l @ lf # s) = strip_cr (cur @ l) # lines_from [] s"
  by (induction l arbitrary: cur) auto

lemma lines_of_unlines:
  "\<forall>l\<in>set ls. lf \<notin> set l \<and> (l = [] \<or> last l \<noteq> cr) \<Longrightarrow> lines_of (unlines ls) = ls"
  by (induction ls) (auto simp: lines_of_def lines_from_line strip_cr_def)

text \<open>Without carriage returns only a missing final newline is added.\<close>

definition end_line :: "string \<Rightarrow> string" where
  "end_line s = (if s = [] \<or> last s = lf then s else s @ [lf])"

lemma unlines_lines_from:
  "cr \<notin> set cur \<Longrightarrow> lf \<notin> set cur \<Longrightarrow> cr \<notin> set s \<Longrightarrow> unlines (lines_from cur s) = end_line (cur @ s)"
  by (induction cur s rule: lines_from.induct) (auto simp: end_line_def strip_cr_def dest: last_in_set)

lemma unlines_lines_of: "cr \<notin> set s \<Longrightarrow> unlines (lines_of s) = end_line s"
  by (simp add: lines_of_def unlines_lines_from)

subsection \<open>Splitting at a pattern\<close>

text \<open>
  \<open>split\<close> with a string pattern. An empty pattern matches at every character boundary, the two ends
  included.
\<close>

fun split_ne :: "string \<Rightarrow> string \<Rightarrow> string \<Rightarrow> string list" where
  "split_ne sep cur [] = [cur]"
| "split_ne sep cur (c # s) =
     (if take (length sep) (c # s) = sep then cur # split_ne sep [] (drop (length sep - 1) s)
      else split_ne sep (cur @ [c]) s)"

definition split_on :: "string \<Rightarrow> string \<Rightarrow> string list" where
  "split_on sep s = (if sep = [] then [] # map (\<lambda>c. [c]) s @ [[]] else split_ne sep [] s)"

lemma join_with_Cons: "xs \<noteq> [] \<Longrightarrow> join_with sep (x # xs) = x @ sep @ join_with sep xs"
  by (cases xs) auto

lemma split_ne_not_Nil [simp]: "split_ne sep cur s \<noteq> []"
  by (induction sep cur s rule: split_ne.induct) auto

lemma join_split_ne: "sep \<noteq> [] \<Longrightarrow> join_with sep (split_ne sep cur s) = cur @ s"
proof (induction sep cur s rule: split_ne.induct)
  case (2 sep cur c s)
  show ?case
  proof (cases "take (length sep) (c # s) = sep")
    case True
    have "sep @ drop (length sep - 1) s = c # s"
      using True 2(3) append_take_drop_id [of "length sep" "c # s"] by (cases sep) auto
    with True 2 show ?thesis by (simp add: join_with_Cons)
  next
    case False
    with 2 show ?thesis by simp
  qed
qed simp

lemma split_on_not_Nil [simp]: "split_on sep s \<noteq> []"
  by (simp add: split_on_def)

lemma join_empty_sep: "join_with [] xs = concat xs"
  by (induction "[] :: 'a list" xs rule: join_with.induct) auto

theorem join_split_on: "join_with sep (split_on sep s) = s"
  by (simp add: split_on_def join_split_ne join_empty_sep)

text \<open>\<open>str::find\<close> and \<open>split_once\<close> on a string pattern.\<close>

fun find_sub :: "string \<Rightarrow> string \<Rightarrow> nat option" where
  "find_sub p [] = (if p = [] then Some 0 else None)"
| "find_sub p (c # s) = (if take (length p) (c # s) = p then Some 0 else map_option Suc (find_sub p s))"

definition split_once :: "string \<Rightarrow> string \<Rightarrow> (string \<times> string) option" where
  "split_once p s = map_option (\<lambda>i. (take i s, drop (i + length p) s)) (find_sub p s)"

definition starts_with :: "string \<Rightarrow> string \<Rightarrow> bool" where
  "starts_with p s \<longleftrightarrow> take (length p) s = p"

definition strip_prefix :: "string \<Rightarrow> string \<Rightarrow> string option" where
  "strip_prefix p s = (if starts_with p s then Some (drop (length p) s) else None)"

lemma starts_with_prefix: "starts_with p s \<longleftrightarrow> prefix p s"
  by (auto simp: starts_with_def prefix_def) (metis append_take_drop_id)

lemma find_sub_Some: "find_sub p s = Some i \<Longrightarrow> take (length p) (drop i s) = p \<and> i + length p \<le> length s"
proof (induction p s arbitrary: i rule: find_sub.induct)
  case (2 p c s)
  show ?case
  proof (cases "take (length p) (c # s) = p")
    case True
    with 2(2) have "i = 0" by simp
    moreover have "length p \<le> length (c # s)" using True by (metis length_take min.cobounded1)
    ultimately show ?thesis using True by simp
  next
    case False
    with 2 show ?thesis by auto
  qed
qed (auto split: if_splits)

lemma split_once_Some: "split_once p s = Some (a, b) \<Longrightarrow> s = a @ p @ b"
  by (auto simp: split_once_def dest!: find_sub_Some) (metis add.commute append_assoc append_take_drop_id drop_drop)

subsection \<open>Slices of a given size\<close>

text \<open>\<open>chunks(n.max(1))\<close>.\<close>

function slices :: "nat \<Rightarrow> 'a list \<Rightarrow> 'a list list" where
  "slices n [] = []"
| "slices n (x # xs) = (x # take (n - 1) xs) # slices n (drop (n - 1) xs)"
  by pat_completeness auto
termination by (relation "measure (\<lambda>(n, xs). length xs)") auto

lemma concat_slices [simp]: "concat (slices n xs) = xs"
  by (induction n xs rule: slices.induct) auto

lemma length_slice: "c \<in> set (slices n xs) \<Longrightarrow> 0 < length c \<and> length c \<le> max 1 n"
  by (induction n xs rule: slices.induct) auto

subsection \<open>Hexadecimal\<close>

definition hex_digit :: "nat \<Rightarrow> char" where
  "hex_digit n = char_of (if n < 10 then 48 + n else 87 + n)"

end
