(* ===== verification/Parser.thy ===== *)
theory Parser
  imports Core Strings
begin

text \<open>
  The streaming tool-call parser of \<open>crates/tool/src/parser.rs\<close> and its user, the inference
  client of \<open>crates/agent/src/inference.rs\<close>, which folds a chunk stream into a turn result. The
  lemmas show that what the parser assembles for a call depends only on the fragments that carry
  the call's index, in their order, and not on how the provider cut them into deltas or mixed them
  with the fragments of other calls.
\<close>

subsection \<open>The parser's state (tool/src/parser.rs)\<close>

datatype provider = OpenAi | Anthropic

record parsed_tool_call =
  ptc_id :: string
  ptc_name :: string
  ptc_arguments_raw :: string

record partial_call =
  part_id :: string
  part_name :: string
  part_args :: string

definition partial_default :: partial_call where
  "partial_default = \<lparr>part_id = [], part_name = [], part_args = []\<rparr>"

type_synonym call_map = "(u32 \<times> partial_call) list"

record tool_call_parser =
  tp_provider :: provider
  tp_calls :: call_map

definition parser_new :: "provider \<Rightarrow> tool_call_parser" where
  "parser_new p = \<lparr>tp_provider = p, tp_calls = []\<rparr>"

text \<open>\<open>calls.entry(idx).or_default()\<close> followed by the changes made through the entry.\<close>

definition entry_or_default :: "call_map \<Rightarrow> u32 \<Rightarrow> partial_call" where
  "entry_or_default calls idx = (case map_of calls idx of None \<Rightarrow> partial_default | Some p \<Rightarrow> p)"

definition with_entry :: "call_map \<Rightarrow> u32 \<Rightarrow> (partial_call \<Rightarrow> partial_call) \<Rightarrow> call_map" where
  "with_entry calls idx f = bt_insert idx (f (entry_or_default calls idx)) calls"

text \<open>\<open>arguments\<close>: the JSON parser is an argument.\<close>

definition arguments_of :: "(string \<Rightarrow> string + json) \<Rightarrow> parsed_tool_call \<Rightarrow> json result" where
  "arguments_of parse_json c =
     (if list_all is_ws (ptc_arguments_raw c) then Inr Null
      else (case parse_json (ptc_arguments_raw c) of
              Inl m \<Rightarrow> Inl (Tool (''tool args parse: '' @ m))
            | Inr v \<Rightarrow> Inr v))"

subsection \<open>OpenAI deltas\<close>

definition index_of :: "json \<Rightarrow> u32 option" where
  "index_of item = map_option of_nat (get_u64 item ''index'')"

definition openai_update :: "json \<Rightarrow> partial_call \<Rightarrow> partial_call" where
  "openai_update item entry =
     (let e1 = (case get_str item ''id'' of None \<Rightarrow> entry | Some i \<Rightarrow> entry\<lparr>part_id := i\<rparr>)
      in (case jget item ''function'' of
            None \<Rightarrow> e1
          | Some func \<Rightarrow>
              (let e2 = (case get_str func ''name'' of
                           None \<Rightarrow> e1 | Some n \<Rightarrow> e1\<lparr>part_name := part_name e1 @ n\<rparr>)
               in (case get_str func ''arguments'' of
                     None \<Rightarrow> e2 | Some a \<Rightarrow> e2\<lparr>part_args := part_args e2 @ a\<rparr>))))"

fun openai_items :: "call_map \<Rightarrow> json list \<Rightarrow> unit result \<times> call_map" where
  "openai_items calls [] = (Inr (), calls)"
| "openai_items calls (item # rest) =
     (case index_of item of
        None \<Rightarrow> (Inl (Tool ''openai: tool_call missing index''), calls)
      | Some idx \<Rightarrow> openai_items (with_entry calls idx (openai_update item)) rest)"

definition feed_openai :: "call_map \<Rightarrow> json \<Rightarrow> unit result \<times> call_map" where
  "feed_openai calls delta =
     (case Option.bind (jget delta ''tool_calls'') as_array of
        None \<Rightarrow> (Inl (Tool ''openai: missing tool_calls''), calls)
      | Some arr \<Rightarrow> openai_items calls arr)"

subsection \<open>Anthropic deltas\<close>

text \<open>\<open>serde_json::to_string(input).unwrap_or_default()\<close>: the printer is an argument.\<close>

definition anthropic_start :: "(json \<Rightarrow> string option) \<Rightarrow> json \<Rightarrow> partial_call \<Rightarrow> partial_call" where
  "anthropic_start print_json block entry =
     (if get_str block ''type'' = Some ''tool_use'' then
        (let e1 = (case get_str block ''id'' of None \<Rightarrow> entry | Some i \<Rightarrow> entry\<lparr>part_id := i\<rparr>);
             e2 = (case get_str block ''name'' of None \<Rightarrow> e1 | Some n \<Rightarrow> e1\<lparr>part_name := n\<rparr>)
         in (case jget block ''input'' of
               None \<Rightarrow> e2
             | Some input \<Rightarrow>
                 (if input \<noteq> Null \<and> as_object input \<noteq> Some []
                  then e2\<lparr>part_args := (case print_json input of None \<Rightarrow> [] | Some t \<Rightarrow> t)\<rparr>
                  else e2)))
      else entry)"

definition anthropic_delta :: "json \<Rightarrow> partial_call \<Rightarrow> partial_call" where
  "anthropic_delta d entry =
     (if get_str d ''type'' = Some ''input_json_delta'' then
        (case get_str d ''partial_json'' of
           None \<Rightarrow> entry
         | Some pj \<Rightarrow> entry\<lparr>part_args := part_args entry @ pj\<rparr>)
      else entry)"

definition anthropic_update :: "(json \<Rightarrow> string option) \<Rightarrow> json \<Rightarrow> partial_call \<Rightarrow> partial_call" where
  "anthropic_update print_json delta entry =
     (let e1 = (case jget delta ''content_block'' of
                  None \<Rightarrow> entry | Some block \<Rightarrow> anthropic_start print_json block entry)
      in (case jget delta ''delta'' of None \<Rightarrow> e1 | Some d \<Rightarrow> anthropic_delta d e1))"

definition feed_anthropic ::
  "(json \<Rightarrow> string option) \<Rightarrow> call_map \<Rightarrow> json \<Rightarrow> unit result \<times> call_map" where
  "feed_anthropic print_json calls delta =
     (case index_of delta of
        None \<Rightarrow> (Inl (Tool ''anthropic: delta missing index''), calls)
      | Some idx \<Rightarrow> (Inr (), with_entry calls idx (anthropic_update print_json delta)))"

subsection \<open>Feeding and draining\<close>

definition feed ::
  "(json \<Rightarrow> string option) \<Rightarrow> tool_call_parser \<Rightarrow> json \<Rightarrow> unit result \<times> tool_call_parser" where
  "feed print_json p delta =
     (case (case tp_provider p of
              OpenAi \<Rightarrow> feed_openai (tp_calls p) delta
            | Anthropic \<Rightarrow> feed_anthropic print_json (tp_calls p) delta) of
        (r, calls) \<Rightarrow> (r, p\<lparr>tp_calls := calls\<rparr>))"

definition parser_finish :: "tool_call_parser \<Rightarrow> parsed_tool_call list" where
  "parser_finish p =
     map (\<lambda>(_, c). \<lparr>ptc_id = part_id c, ptc_name = part_name c, ptc_arguments_raw = part_args c\<rparr>)
         (tp_calls p)"

fun feed_all ::
  "(json \<Rightarrow> string option) \<Rightarrow> tool_call_parser \<Rightarrow> json list \<Rightarrow> unit result \<times> tool_call_parser" where
  "feed_all print_json p [] = (Inr (), p)"
| "feed_all print_json p (d # ds) =
     (case feed print_json p d of
        (Inl e, p') \<Rightarrow> (Inl e, p')
      | (Inr _, p') \<Rightarrow> feed_all print_json p' ds)"

subsection \<open>The inference client (agent/src/inference.rs)\<close>

text \<open>
  The runner, its token chunk and its usage arithmetic come from the crate \<open>atomr_infer_core\<close>.
  Here a chunk has the four fields the loop reads; \<open>usage_add\<close> is an argument.
\<close>

record ('u, 'f) token_chunk =
  text_delta :: string
  tool_call_delta :: "json option"
  chunk_usage :: "'u option"
  chunk_finish :: "'f option"

record ('u, 'f) turn_result =
  tr_text :: string
  tr_usage :: 'u
  tr_finish_reason :: "'f option"
  tr_tool_calls :: "parsed_tool_call list"

record ('u, 'f) drain_state =
  ds_text :: string
  ds_usage :: 'u
  ds_finish :: "'f option"
  ds_parser :: tool_call_parser

fun drain ::
  "(json \<Rightarrow> string option) \<Rightarrow> ('u \<Rightarrow> 'u \<Rightarrow> 'u) \<Rightarrow> ('u, 'f) drain_state \<Rightarrow>
   (string + ('u, 'f) token_chunk) list \<Rightarrow> ('u, 'f) drain_state result" where
  "drain print_json usage_add s [] = Inr s"
| "drain print_json usage_add s (Inl m # _) = Inl (Inference m)"
| "drain print_json usage_add s (Inr chunk # items) =
     (let s1 = s\<lparr>ds_text := ds_text s @ text_delta chunk\<rparr>
      in (case (case tool_call_delta chunk of
                  None \<Rightarrow> (Inr (), ds_parser s1)
                | Some d \<Rightarrow> feed print_json (ds_parser s1) d) of
            (Inl e, _) \<Rightarrow> Inl e
          | (Inr _, p) \<Rightarrow>
              drain print_json usage_add
                (s1\<lparr>ds_parser := p,
                    ds_usage := (case chunk_usage chunk of
                                   None \<Rightarrow> ds_usage s1 | Some u \<Rightarrow> usage_add (ds_usage s1) u),
                    ds_finish := (case chunk_finish chunk of
                                    None \<Rightarrow> ds_finish s1 | Some r \<Rightarrow> Some r)\<rparr>)
                items))"

definition client_run ::
  "(json \<Rightarrow> string option) \<Rightarrow> ('u \<Rightarrow> 'u \<Rightarrow> 'u) \<Rightarrow> 'u \<Rightarrow> provider \<Rightarrow>
   string + (string + ('u, 'f) token_chunk) list \<Rightarrow> ('u, 'f) turn_result result" where
  "client_run print_json usage_add usage_default prov executed =
     (case executed of
        Inl m \<Rightarrow> Inl (Inference m)
      | Inr stream \<Rightarrow>
          try_then
            (drain print_json usage_add
               \<lparr>ds_text = [], ds_usage = usage_default, ds_finish = None, ds_parser = parser_new prov\<rparr>
               stream)
            (\<lambda>s. Inr \<lparr>tr_text = ds_text s, tr_usage = ds_usage s, tr_finish_reason = ds_finish s,
                      tr_tool_calls = parser_finish (ds_parser s)\<rparr>))"

subsection \<open>What a sequence of fragments assembles\<close>

lemma map_of_with_entry [btree_simps]:
  "map_of (with_entry calls idx f) = (map_of calls)(idx \<mapsto> f (entry_or_default calls idx))"
  by (simp add: with_entry_def btree_simps)

lemma entry_with_entry:
  "entry_or_default (with_entry calls idx f) j =
     (if j = idx then f (entry_or_default calls idx) else entry_or_default calls j)"
  by (simp add: entry_or_default_def [of _ j] btree_simps)

lemma bt_wf_with_entry [btree_simps]: "bt_wf calls \<Longrightarrow> bt_wf (with_entry calls idx f)"
  by (simp add: with_entry_def btree_simps)

text \<open>The fragments for index \<open>i\<close>, and the entry they build one after another.\<close>

definition fragments :: "u32 \<Rightarrow> json list \<Rightarrow> json list" where
  "fragments i items = filter (\<lambda>x. index_of x = Some i) items"

lemma fragments_simps [simp]:
  "fragments i [] = []"
  "fragments i (x # xs) = (if index_of x = Some i then x # fragments i xs else fragments i xs)"
  "fragments i (xs @ ys) = fragments i xs @ fragments i ys"
  by (simp_all add: fragments_def)

text \<open>A generic fold over entries: both providers are instances.\<close>

fun fold_entries :: "(json \<Rightarrow> partial_call \<Rightarrow> partial_call) \<Rightarrow> call_map \<Rightarrow> json list \<Rightarrow> call_map" where
  "fold_entries upd calls [] = calls"
| "fold_entries upd calls (x # xs) =
     (case index_of x of
        None \<Rightarrow> fold_entries upd calls xs
      | Some i \<Rightarrow> fold_entries upd (with_entry calls i (upd x)) xs)"

lemma map_of_fold_entries:
  "map_of (fold_entries upd calls xs) i =
     (if fragments i xs = [] then map_of calls i
      else Some (fold upd (fragments i xs) (entry_or_default calls i)))"
  by (induction upd calls xs rule: fold_entries.induct)
     (auto simp: btree_simps entry_with_entry split: option.splits)

lemma bt_wf_fold_entries: "bt_wf calls \<Longrightarrow> bt_wf (fold_entries upd calls xs)"
  by (induction upd calls xs rule: fold_entries.induct) (auto simp: btree_simps split: option.splits)

text \<open>Same fragments per index, same calls.\<close>

lemma fold_entries_cong:
  assumes "bt_wf calls" and "\<And>i. fragments i xs = fragments i ys"
  shows "fold_entries upd calls xs = fold_entries upd calls ys"
  using assms by (intro bt_wf_eqI) (auto simp: bt_wf_fold_entries map_of_fold_entries fun_eq_iff)

lemma openai_items_ok_iff:
  "fst (openai_items calls xs) = Inr () \<longleftrightarrow> (\<forall>x\<in>set xs. index_of x \<noteq> None)"
  by (induction calls xs rule: openai_items.induct) (auto split: option.splits)

lemma openai_items_fold:
  "\<forall>x\<in>set xs. index_of x \<noteq> None \<Longrightarrow>
   openai_items calls xs = (Inr (), fold_entries openai_update calls xs)"
  by (induction calls xs rule: openai_items.induct) (auto split: option.splits)

text \<open>The items a delta carries; a delta without a \<open>tool_calls\<close> array is refused.\<close>

definition delta_items :: "json \<Rightarrow> json list option" where
  "delta_items d = Option.bind (jget d ''tool_calls'') as_array"

lemma fold_entries_append:
  "fold_entries upd calls (xs @ ys) = fold_entries upd (fold_entries upd calls xs) ys"
  by (induction upd calls xs rule: fold_entries.induct) (auto split: option.splits)

lemma feed_all_openai:
  assumes "tp_provider p = OpenAi"
    and "\<forall>d\<in>set ds. \<exists>xs. delta_items d = Some xs \<and> (\<forall>x\<in>set xs. index_of x \<noteq> None)"
  shows "feed_all pj p ds =
    (Inr (), p\<lparr>tp_calls := fold_entries openai_update (tp_calls p)
                            (concat (map (\<lambda>d. the (delta_items d)) ds))\<rparr>)"
  using assms
proof (induction ds arbitrary: p)
  case (Cons d ds)
  from Cons.prems(2) obtain xs where xs: "delta_items d = Some xs" "\<forall>x\<in>set xs. index_of x \<noteq> None"
    by auto
  then have "feed pj p d = (Inr (), p\<lparr>tp_calls := fold_entries openai_update (tp_calls p) xs\<rparr>)"
    using Cons.prems(1) openai_items_fold [OF xs(2)]
    by (simp add: feed_def feed_openai_def delta_items_def)
  with Cons xs(1) show ?case by (simp add: fold_entries_append)
qed simp

lemma feed_all_anthropic:
  assumes "tp_provider p = Anthropic" and "\<forall>d\<in>set ds. index_of d \<noteq> None"
  shows "feed_all pj p ds =
    (Inr (), p\<lparr>tp_calls := fold_entries (anthropic_update pj) (tp_calls p) ds\<rparr>)"
  using assms
proof (induction ds arbitrary: p)
  case (Cons d ds)
  then obtain i where "index_of d = Some i" by auto
  with Cons show ?case by (simp add: feed_def feed_anthropic_def)
qed simp

subsection \<open>The assembled call\<close>

definition frag_name :: "json \<Rightarrow> string" where
  "frag_name x = (case Option.bind (jget x ''function'') (\<lambda>f. get_str f ''name'') of
                    None \<Rightarrow> [] | Some n \<Rightarrow> n)"

definition frag_args :: "json \<Rightarrow> string" where
  "frag_args x = (case Option.bind (jget x ''function'') (\<lambda>f. get_str f ''arguments'') of
                    None \<Rightarrow> [] | Some a \<Rightarrow> a)"

text \<open>The last id sent wins; names and arguments are concatenated.\<close>

fun last_id :: "string \<Rightarrow> json list \<Rightarrow> string" where
  "last_id i [] = i"
| "last_id i (x # xs) = last_id (case get_str x ''id'' of None \<Rightarrow> i | Some j \<Rightarrow> j) xs"

lemma openai_update_fields:
  "part_id (openai_update x e) = (case get_str x ''id'' of None \<Rightarrow> part_id e | Some j \<Rightarrow> j)"
  "part_name (openai_update x e) = part_name e @ frag_name x"
  "part_args (openai_update x e) = part_args e @ frag_args x"
  by (simp_all add: openai_update_def frag_name_def frag_args_def Let_def split: option.splits)

lemma fold_openai_update:
  "fold openai_update xs e =
     \<lparr>part_id = last_id (part_id e) xs, part_name = part_name e @ concat (map frag_name xs),
      part_args = part_args e @ concat (map frag_args xs)\<rparr>"
  by (induction xs arbitrary: e) (simp_all add: openai_update_fields)

text \<open>The keys of the result are the indices seen, in ascending order.\<close>

lemma keys_fold_entries:
  "fst ` set (fold_entries upd calls xs) = fst ` set calls \<union> {i. fragments i xs \<noteq> []}"
  by (induction upd calls xs rule: fold_entries.induct)
     (auto simp: with_entry_def btree_simps split: option.splits if_splits)

lemma parser_finish_openai:
  assumes "\<forall>d\<in>set ds. \<exists>xs. delta_items d = Some xs \<and> (\<forall>x\<in>set xs. index_of x \<noteq> None)"
  defines "items \<equiv> concat (map (\<lambda>d. the (delta_items d)) ds)"
  shows "\<exists>idxs. sorted_wrt (<) idxs \<and> set idxs = {i. fragments i items \<noteq> []} \<and>
    parser_finish (snd (feed_all pj (parser_new OpenAi) ds)) =
      map (\<lambda>i. \<lparr>ptc_id = last_id [] (fragments i items),
                ptc_name = concat (map frag_name (fragments i items)),
                ptc_arguments_raw = concat (map frag_args (fragments i items))\<rparr>) idxs"
proof -
  let ?m = "fold_entries openai_update [] items"
  have wf: "bt_wf ?m" by (simp add: bt_wf_fold_entries)
  have fed: "tp_calls (snd (feed_all pj (parser_new OpenAi) ds)) = ?m"
    using feed_all_openai [of "parser_new OpenAi" ds pj] assms by (simp add: parser_new_def)
  have val: "c = fold openai_update (fragments i items) partial_default" if "(i, c) \<in> set ?m" for i c
  proof -
    from that wf have "map_of ?m i = Some c" by (simp add: bt_wf_distinct)
    then show ?thesis
      by (simp add: map_of_fold_entries entry_or_default_def split: if_splits)
  qed
  have "parser_finish (snd (feed_all pj (parser_new OpenAi) ds)) =
      map ((\<lambda>i. \<lparr>ptc_id = last_id [] (fragments i items),
                ptc_name = concat (map frag_name (fragments i items)),
                ptc_arguments_raw = concat (map frag_args (fragments i items))\<rparr>) \<circ> fst) ?m"
    unfolding parser_finish_def fed
    by (rule map_cong) (auto simp: fold_openai_update partial_default_def dest!: val)
  moreover have "set (map fst ?m) = {i. fragments i items \<noteq> []}"
    using keys_fold_entries [of openai_update "[]" items] by simp
  moreover have "sorted_wrt (<) (map fst ?m)" using wf by (simp add: bt_wf_def)
  ultimately show ?thesis by (intro exI [of _ "map fst ?m"]) simp
qed

lemma fold_anthropic_deltas:
  assumes "\<forall>d\<in>set ds. jget d ''content_block'' = None"
  shows "fold (anthropic_update pj) ds e =
    e\<lparr>part_args := part_args e @ concat (map (\<lambda>d.
        case jget d ''delta'' of
          None \<Rightarrow> []
        | Some x \<Rightarrow> (if get_str x ''type'' = Some ''input_json_delta''
                   then (case get_str x ''partial_json'' of None \<Rightarrow> [] | Some pj \<Rightarrow> pj) else [])) ds)\<rparr>"
  using assms
  by (induction ds arbitrary: e)
     (auto simp: anthropic_update_def anthropic_delta_def Let_def split: option.splits)

text \<open>The text of a turn is the concatenation of the chunks' text.\<close>

lemma drain_text:
  "drain pj add s items = Inr s' \<Longrightarrow>
   \<exists>chunks. items = map Inr chunks \<and> ds_text s' = ds_text s @ concat (map text_delta chunks) \<and>
     feed_all pj (ds_parser s) (List.map_filter tool_call_delta chunks) = (Inr (), ds_parser s')"
proof (induction pj add s items rule: drain.induct)
  case (3 pj add s chunk items)
  let ?fed = "case tool_call_delta chunk of
      None \<Rightarrow> (Inr (), ds_parser s) | Some d \<Rightarrow> feed pj (ds_parser s) d"
  obtain r p where fed: "?fed = (r, p)" by force
  let ?s1 = "s\<lparr>ds_text := ds_text s @ text_delta chunk\<rparr>"
  have fed1: "(case tool_call_delta chunk of
      None \<Rightarrow> (Inr (), ds_parser ?s1) | Some d \<Rightarrow> feed pj (ds_parser ?s1) d) = (r, p)"
    using fed by (simp split: option.splits)
  with "3.prems" obtain u where r: "r = Inr u"
    by (cases r) (simp_all add: Let_def del: option.case_eq_if)
  note fed2 = fed1 [unfolded r]
  from "3.prems" "3.IH" [OF refl fed2 [symmetric] refl] fed2 obtain chunks where
    c: "items = map Inr chunks" "ds_text s' = ds_text s @ text_delta chunk @ concat (map text_delta chunks)"
      "feed_all pj p (List.map_filter tool_call_delta chunks) = (Inr (), ds_parser s')"
    by (auto simp: Let_def)
  have "feed_all pj (ds_parser s) (List.map_filter tool_call_delta (chunk # chunks)) = (Inr (), ds_parser s')"
    using c(3) fed r by (simp add: List.map_filter_simps split: option.splits)
  with c show ?case by (intro exI [of _ "chunk # chunks"]) simp
qed (simp_all add: List.map_filter_simps)

lemma client_run_ok:
  assumes "client_run pj add u0 prov (Inr stream) = Inr t"
  shows "\<exists>chunks p. stream = map Inr chunks \<and> tr_text t = concat (map text_delta chunks) \<and>
    feed_all pj (parser_new prov) (List.map_filter tool_call_delta chunks) = (Inr (), p) \<and>
    tr_tool_calls t = parser_finish p"
  using assms drain_text [of pj add _ stream]
  by (fastforce simp: client_run_def try_then_eq_Inr)

subsection \<open>Properties\<close>

text \<open>
  What the OpenAI side of the parser returns, for a stream of well-formed deltas: one call per
  index that occurs, in ascending index order, with the last id sent for the index, the
  concatenation of its name fragments and the concatenation of its argument fragments.
\<close>

theorem openai_assembly:
  assumes "\<forall>d\<in>set ds. \<exists>xs. delta_items d = Some xs \<and> (\<forall>x\<in>set xs. index_of x \<noteq> None)"
  shows "let items = concat (map (\<lambda>d. the (delta_items d)) ds)
    in \<exists>idxs. sorted_wrt (<) idxs \<and> set idxs = {i. fragments i items \<noteq> []} \<and>
      parser_finish (snd (feed_all pj (parser_new OpenAi) ds)) =
        map (\<lambda>i. \<lparr>ptc_id = last_id [] (fragments i items),
                  ptc_name = concat (map frag_name (fragments i items)),
                  ptc_arguments_raw = concat (map frag_args (fragments i items))\<rparr>) idxs"
  unfolding Let_def by (rule parser_finish_openai [OF assms])

definition demo_fragment :: "int \<Rightarrow> string \<Rightarrow> json" where
  "demo_fragment i a = obj_of [(''index'', Number (IntN i)), (''function'', obj_of [(''arguments'', String a)])]"

definition demo_delta :: "json list \<Rightarrow> json" where
  "demo_delta items = obj_of [(''tool_calls'', Array items)]"

lemma demo_items: "delta_items (demo_delta items) = Some items"
  by (simp add: delta_items_def demo_delta_def jget_obj_of)

lemma demo_index: "0 \<le> i \<Longrightarrow> i < 2 ^ 64 \<Longrightarrow> index_of (demo_fragment i a) = Some (of_nat (nat i))"
  by (simp add: index_of_def demo_fragment_def get_u64_def jget_obj_of)

theorem openai_assembly_witness:
  "let ds = [demo_delta [demo_fragment 1 ''x'', demo_fragment 0 ''a''], demo_delta [demo_fragment 1 ''y'']];
       items = concat (map (\<lambda>d. the (delta_items d)) ds)
    in \<exists>idxs. sorted_wrt (<) idxs \<and> set idxs = {i. fragments i items \<noteq> []} \<and>
      parser_finish (snd (feed_all (\<lambda>_. None) (parser_new OpenAi) ds)) =
        map (\<lambda>i. \<lparr>ptc_id = last_id [] (fragments i items),
                  ptc_name = concat (map frag_name (fragments i items)),
                  ptc_arguments_raw = concat (map frag_args (fragments i items))\<rparr>) idxs"
  unfolding Let_def by (rule openai_assembly [unfolded Let_def]) (simp add: demo_items demo_index)

text \<open>
  The calls do not depend on how the provider cut the stream: two streams of well-formed deltas
  that carry the same fragments per index in the same order give the same calls, whatever the deltas'
  boundaries and however the fragments of different calls are mixed.
\<close>

theorem openai_chunking_invariant:
  assumes "\<forall>d\<in>set ds. \<exists>xs. delta_items d = Some xs \<and> (\<forall>x\<in>set xs. index_of x \<noteq> None)"
    and "\<forall>d\<in>set ds'. \<exists>xs. delta_items d = Some xs \<and> (\<forall>x\<in>set xs. index_of x \<noteq> None)"
    and "\<And>i. fragments i (concat (map (\<lambda>d. the (delta_items d)) ds)) =
      fragments i (concat (map (\<lambda>d. the (delta_items d)) ds'))"
  shows "parser_finish (snd (feed_all pj (parser_new OpenAi) ds)) =
    parser_finish (snd (feed_all pj (parser_new OpenAi) ds'))"
  using feed_all_openai [OF _ assms(1), of "parser_new OpenAi" pj]
    feed_all_openai [OF _ assms(2), of "parser_new OpenAi" pj]
    fold_entries_cong [OF bt_wf_Nil assms(3), of openai_update]
  by (simp add: parser_new_def)

theorem openai_chunking_invariant_witness:
  "parser_finish (snd (feed_all (\<lambda>_. None) (parser_new OpenAi)
      [demo_delta [demo_fragment 0 ''a'', demo_fragment 1 ''b''], demo_delta [demo_fragment 0 ''c'']])) =
   parser_finish (snd (feed_all (\<lambda>_. None) (parser_new OpenAi)
      [demo_delta [demo_fragment 1 ''b''], demo_delta [demo_fragment 0 ''a'', demo_fragment 0 ''c'']]))"
  by (rule openai_chunking_invariant) (auto simp: demo_items demo_index)

text \<open>
  A successful client run consumed a stream without a failed chunk; the turn's text is the
  concatenation of the chunk texts and its tool calls are what the parser, fed the chunks' deltas in
  order, returns.
\<close>

theorem client_run_turn:
  assumes "client_run pj add u0 prov (Inr stream) = Inr t"
  shows "\<exists>chunks p. stream = map Inr chunks \<and> tr_text t = concat (map text_delta chunks) \<and>
    feed_all pj (parser_new prov) (List.map_filter tool_call_delta chunks) = (Inr (), p) \<and>
    tr_tool_calls t = parser_finish p"
  by (rule client_run_ok [OF assms])

definition demo_chunk :: "(nat, unit) token_chunk" where
  "demo_chunk = \<lparr>text_delta = ''a'', tool_call_delta = None, chunk_usage = None, chunk_finish = None\<rparr>"

theorem client_run_turn_witness:
  "\<exists>chunks p. [Inr demo_chunk :: string + (nat, unit) token_chunk] = map Inr chunks \<and>
     ''a'' = concat (map text_delta chunks) \<and>
     feed_all (\<lambda>_. None) (parser_new OpenAi) (List.map_filter tool_call_delta chunks) = (Inr (), p) \<and>
     [] = parser_finish p"
proof -
  have "client_run (\<lambda>_. None) (+) 0 OpenAi (Inr [Inr demo_chunk]) =
      Inr \<lparr>tr_text = ''a'', tr_usage = 0, tr_finish_reason = None, tr_tool_calls = []\<rparr>"
    by (simp add: client_run_def parser_finish_def parser_new_def demo_chunk_def)
  from client_run_turn [OF this] show ?thesis by simp
qed

end
