(* ===== verification/Replay.thy ===== *)
theory Replay
  imports Provenance Parser
begin

text \<open>
  Side-effect-free replay of the model side of a run (\<open>crates/agent/src/replay.rs\<close>): a live turn
  is captured as an inference record, a replay provider serves the recorded turns in order. The
  serde codecs of the finish reason and of a parsed tool call are arguments: \<open>fr_to\<close>,
  \<open>fr_from\<close>, \<open>tc_to\<close>, \<open>tc_from\<close>. The round trip below assumes of them that parsing undoes printing.
\<close>

subsection \<open>Replay errors\<close>

datatype replay_error =
    MissingStep string nat nat
  | NoInference nat
  | Decode string

fun replay_error_text :: "replay_error \<Rightarrow> string" where
  "replay_error_text (MissingStep run step available) =
     ''replay: no record for step '' @ show_nat step @ '' of run '' @ run @ '' (have '' @
     show_nat available @ '' steps)''"
| "replay_error_text (NoInference step) =
     ''replay: step '' @ show_nat step @ '' has no recorded inference''"
| "replay_error_text (Decode m) = ''replay: could not decode recorded value: '' @ m"

definition replay_to_agent_error :: "replay_error \<Rightarrow> agent_error" where
  "replay_to_agent_error e = Inference (replay_error_text e)"

subsection \<open>Recording a turn\<close>

text \<open>
  \<open>TokenUsage\<close> of \<open>atomr_infer_core\<close>, by the four counters the code reads and writes.
\<close>

record token_usage =
  input_tokens :: u32
  output_tokens :: u32
  tu_reasoning_tokens :: u32
  tu_cached_tokens :: u32

fun provider_to_str :: "provider \<Rightarrow> string" where
  "provider_to_str OpenAi = ''open_ai''"
| "provider_to_str Anthropic = ''anthropic''"

text \<open>The derived \<open>Deserialize\<close> of \<open>Provider\<close> with \<open>rename_all = snake_case\<close>.\<close>

definition provider_from_str :: "string \<Rightarrow> provider option" where
  "provider_from_str s =
     (if s = ''open_ai'' then Some OpenAi else if s = ''anthropic'' then Some Anthropic else None)"

definition record_turn ::
  "('f \<Rightarrow> json option) \<Rightarrow> (parsed_tool_call \<Rightarrow> json option) \<Rightarrow> provider \<Rightarrow> string \<Rightarrow> string \<Rightarrow>
   string \<Rightarrow> string \<Rightarrow> (token_usage, 'f) turn_result \<Rightarrow> inference_record" where
  "record_turn fr_to tc_to prov model_id model_version params_hash prompt_hash turn =
     \<lparr>inf_provider = provider_to_str prov, inf_model_id = model_id,
      inf_model_version = model_version, inf_params_hash = params_hash,
      inf_prompt_hash = prompt_hash, inf_raw_completion = tr_text turn,
      inf_finish_reason =
        Option.bind (Option.bind (tr_finish_reason turn) fr_to) as_str,
      inf_usage = \<lparr>prompt_tokens = input_tokens (tr_usage turn),
                   completion_tokens = output_tokens (tr_usage turn),
                   reasoning_tokens = tu_reasoning_tokens (tr_usage turn),
                   cached_tokens = tu_cached_tokens (tr_usage turn)\<rparr>,
      inf_tool_calls = List.map_filter tc_to (tr_tool_calls turn)\<rparr>"

subsection \<open>Decoding a record\<close>

fun decode_calls ::
  "(json \<Rightarrow> string + parsed_tool_call) \<Rightarrow> json list \<Rightarrow> replay_error + parsed_tool_call list" where
  "decode_calls tc_from [] = Inr []"
| "decode_calls tc_from (v # vs) =
     (case tc_from v of
        Inl m \<Rightarrow> Inl (Decode (''tool_call: '' @ m))
      | Inr c \<Rightarrow> try_then (decode_calls tc_from vs) (\<lambda>cs. Inr (c # cs)))"

definition decode_finish ::
  "(json \<Rightarrow> string + 'f) \<Rightarrow> string option \<Rightarrow> replay_error + 'f option" where
  "decode_finish fr_from fr =
     (case fr of
        None \<Rightarrow> Inr None
      | Some s \<Rightarrow>
          (case fr_from (String s) of
             Inl m \<Rightarrow> Inl (Decode (''finish_reason '' @ quoted s @ '': '' @ m))
           | Inr r \<Rightarrow> Inr (Some r)))"

definition turn_from_record ::
  "(json \<Rightarrow> string + 'f) \<Rightarrow> (json \<Rightarrow> string + parsed_tool_call) \<Rightarrow> inference_record \<Rightarrow>
   replay_error + (token_usage, 'f) turn_result" where
  "turn_from_record fr_from tc_from i =
     (let u = inf_usage i;
          usage = \<lparr>input_tokens = prompt_tokens u, output_tokens = completion_tokens u,
                   tu_reasoning_tokens = reasoning_tokens u, tu_cached_tokens = cached_tokens u\<rparr>
      in try_then (decode_finish fr_from (inf_finish_reason i)) (\<lambda>finish.
         try_then (decode_calls tc_from (inf_tool_calls i)) (\<lambda>calls.
           Inr \<lparr>tr_text = inf_raw_completion i, tr_usage = usage, tr_finish_reason = finish,
                tr_tool_calls = calls\<rparr>)))"

subsection \<open>The replay provider\<close>

record replay_provider =
  rp_provider :: provider
  rp_run :: string
  rp_steps :: "step_record list"
  rp_cursor :: nat

definition from_steps :: "string \<Rightarrow> step_record list \<Rightarrow> replay_provider" where
  "from_steps run steps =
     \<lparr>rp_provider =
        (case Option.bind (Option.bind (find (\<lambda>s. sr_inference s \<noteq> None) steps) sr_inference)
                (\<lambda>i. provider_from_str (inf_provider i)) of
           None \<Rightarrow> OpenAi | Some p \<Rightarrow> p),
      rp_run = run, rp_steps = steps, rp_cursor = 0\<rparr>"

definition replay_load ::
  "(string \<Rightarrow> string \<Rightarrow> step_record list result) \<Rightarrow> string \<Rightarrow> string \<Rightarrow> replay_provider result" where
  "replay_load list_records workflow run =
     try_then (list_records workflow run) (\<lambda>steps. Inr (from_steps run steps))"

definition replay_remaining :: "replay_provider \<Rightarrow> nat" where
  "replay_remaining p = length (rp_steps p) - rp_cursor p"

definition next_record ::
  "(json \<Rightarrow> string + 'f) \<Rightarrow> (json \<Rightarrow> string + parsed_tool_call) \<Rightarrow> replay_provider \<Rightarrow>
   (replay_error + (token_usage, 'f) turn_result) \<times> replay_provider" where
  "next_record fr_from tc_from p =
     (let idx = rp_cursor p
      in if idx < length (rp_steps p) then
           (case sr_inference (rp_steps p ! idx) of
              None \<Rightarrow> (Inl (NoInference idx), p)
            | Some i \<Rightarrow>
                (case turn_from_record fr_from tc_from i of
                   Inl e \<Rightarrow> (Inl e, p)
                 | Inr turn \<Rightarrow> (Inr turn, p\<lparr>rp_cursor := idx + 1\<rparr>)))
         else (Inl (MissingStep (rp_run p) idx (length (rp_steps p))), p))"

definition replay_run ::
  "(json \<Rightarrow> string + 'f) \<Rightarrow> (json \<Rightarrow> string + parsed_tool_call) \<Rightarrow> replay_provider \<Rightarrow>
   (token_usage, 'f) turn_result result \<times> replay_provider" where
  "replay_run fr_from tc_from p =
     (case next_record fr_from tc_from p of
        (Inl e, p') \<Rightarrow> (Inl (replay_to_agent_error e), p')
      | (Inr t, p') \<Rightarrow> (Inr t, p'))"

text \<open>Running the client \<open>n\<close> times.\<close>

fun replay_many ::
  "(json \<Rightarrow> string + 'f) \<Rightarrow> (json \<Rightarrow> string + parsed_tool_call) \<Rightarrow> nat \<Rightarrow> replay_provider \<Rightarrow>
   (token_usage, 'f) turn_result result list \<times> replay_provider" where
  "replay_many fr_from tc_from 0 p = ([], p)"
| "replay_many fr_from tc_from (Suc n) p =
     (case replay_run fr_from tc_from p of
        (r, p') \<Rightarrow> (case replay_many fr_from tc_from n p' of (rs, p'') \<Rightarrow> (r # rs, p'')))"

subsection \<open>Recording and replaying is the identity\<close>

lemma provider_roundtrip [simp]: "provider_from_str (provider_to_str p) = Some p"
  by (cases p) (simp_all add: provider_from_str_def)

lemma decode_calls_roundtrip:
  "\<forall>c\<in>set cs. \<exists>v. tc_to c = Some v \<and> tc_from v = Inr c \<Longrightarrow>
   decode_calls tc_from (List.map_filter tc_to cs) = Inr cs"
  by (induction cs) (auto simp: List.map_filter_simps)

text \<open>What the codecs have to do on the parts of one turn.\<close>

definition codec_ok ::
  "('f \<Rightarrow> json option) \<Rightarrow> (json \<Rightarrow> string + 'f) \<Rightarrow> (parsed_tool_call \<Rightarrow> json option) \<Rightarrow>
   (json \<Rightarrow> string + parsed_tool_call) \<Rightarrow> (token_usage, 'f) turn_result \<Rightarrow> bool" where
  "codec_ok fr_to fr_from tc_to tc_from t \<longleftrightarrow>
     (case tr_finish_reason t of
        None \<Rightarrow> True
      | Some r \<Rightarrow> \<exists>s. fr_to r = Some (String s) \<and> fr_from (String s) = Inr r) \<and>
     (\<forall>c\<in>set (tr_tool_calls t). \<exists>v. tc_to c = Some v \<and> tc_from v = Inr c)"

lemma turn_roundtrip:
  "codec_ok fr_to fr_from tc_to tc_from t \<Longrightarrow>
   turn_from_record fr_from tc_from (record_turn fr_to tc_to prov mi mv ph qh t) = Inr t"
  by (cases t)
     (auto simp: codec_ok_def turn_from_record_def record_turn_def decode_finish_def Let_def
       decode_calls_roundtrip split: option.splits)

lemma replay_run_step:
  assumes "rp_cursor p < length (rp_steps p)"
    and "sr_inference (rp_steps p ! rp_cursor p) = Some i"
    and "turn_from_record fr_from tc_from i = Inr t"
  shows "replay_run fr_from tc_from p = (Inr t, p\<lparr>rp_cursor := rp_cursor p + 1\<rparr>)"
  using assms by (simp add: replay_run_def next_record_def Let_def)

lemma replay_many_ok:
  assumes "map (\<lambda>s. case sr_inference s of None \<Rightarrow> Inl e | Some i \<Rightarrow> turn_from_record fr_from tc_from i)
      (drop (rp_cursor p) (rp_steps p)) = map Inr ts"
  shows "replay_many fr_from tc_from (length ts) p =
    (map Inr ts, p\<lparr>rp_cursor := rp_cursor p + length ts\<rparr>)"
  using assms
proof (induction ts arbitrary: p)
  case (Cons t ts)
  let ?c = "rp_cursor p"
  have lt: "?c < length (rp_steps p)" using Cons.prems by (cases "?c < length (rp_steps p)") auto
  then have d: "drop ?c (rp_steps p) = rp_steps p ! ?c # drop (Suc ?c) (rp_steps p)"
    by (simp add: Cons_nth_drop_Suc)
  with Cons.prems obtain i where i: "sr_inference (rp_steps p ! ?c) = Some i"
    "turn_from_record fr_from tc_from i = Inr t"
    by (auto split: option.splits)
  let ?p = "p\<lparr>rp_cursor := ?c + 1\<rparr>"
  have "replay_many fr_from tc_from (length ts) ?p = (map Inr ts, ?p\<lparr>rp_cursor := rp_cursor ?p + length ts\<rparr>)"
    using Cons.prems d by (intro Cons.IH) simp
  with replay_run_step [OF lt i] show ?case by simp
qed simp

lemma replay_run_error_stays:
  "fst (replay_run fr_from tc_from p) = Inl e \<Longrightarrow> snd (replay_run fr_from tc_from p) = p"
  by (auto simp: replay_run_def next_record_def Let_def split: if_splits option.splits sum.splits)

subsection \<open>Properties\<close>

text \<open>The steps a recording run leaves behind: one per turn, super-steps from 1.\<close>

definition recorded_steps ::
  "('f \<Rightarrow> json option) \<Rightarrow> (parsed_tool_call \<Rightarrow> json option) \<Rightarrow> provider \<Rightarrow> string \<Rightarrow> string \<Rightarrow>
   (token_usage, 'f) turn_result list \<Rightarrow> step_record list" where
  "recorded_steps fr_to tc_to prov wid run ts =
     map (\<lambda>(n, t). with_inference
            (step_record_new \<lparr>workflow_id = wid, run_id = run, super_step = n\<rparr>)
            (record_turn fr_to tc_to prov [] [] [] [] t))
         (enumerate 1 ts)"

lemma recorded_steps_listed:
  "im_list_records (save_records im_save_record (recorded_steps fr_to tc_to prov wid run ts) []) wid run =
   Inr (recorded_steps fr_to tc_to prov wid run ts)"
proof -
  let ?rs = "recorded_steps fr_to tc_to prov wid run ts"
  have "map super_step (map sr_key ?rs) = map fst (enumerate 1 ts)"
    by (simp add: recorded_steps_def with_inference_def step_record_new_def case_prod_unfold comp_def
        del: map_fst_enumerate)
  then have steps: "map super_step (map sr_key ?rs) = [1..<1 + length ts]"
    by (simp only: map_fst_enumerate)
  then have keys: "distinct (map sr_key ?rs)" by (metis distinct_map distinct_upt)
  have push: "save_records im_save_record xs g = g @ xs" if "distinct (map sr_key (g @ xs))" for xs g
    using that
  proof (induction xs arbitrary: g)
    case (Cons x xs)
    then have "\<forall>y\<in>set g. sr_key y \<noteq> sr_key x" by (auto simp: image_iff)
    then have "upsert_by (\<lambda>y. sr_key y = sr_key x) x g = g @ [x]" by (intro upsert_by_push)
    with Cons show ?case by (simp add: im_save_record_def)
  qed simp
  have "filter (rec_of_run wid run) ?rs = ?rs"
    by (auto simp: filter_id_conv recorded_steps_def rec_of_run_def with_inference_def step_record_new_def)
  moreover have "map rec_step ?rs = map super_step (map sr_key ?rs)" by simp
  then have "sorted (map rec_step ?rs)" unfolding steps by (metis sorted_upt)
  ultimately show ?thesis using push [of "[]" ?rs] keys by (simp add: im_list_records_def sort_key_id)
qed

text \<open>
  (C13) Recording a run and replaying it is the identity: when the turns of a run were recorded as
  consecutive super-steps in a record store, loading the run and asking the replay provider for as
  many turns returns them verbatim in order, without any other outcome, and one request more is a
  \<open>MissingStep\<close> error that leaves the provider where it is. The codecs must parse what they print.
\<close>

theorem record_replay_roundtrip:
  fixes wid run :: string and prov :: provider
  assumes "\<forall>t\<in>set ts. codec_ok fr_to fr_from tc_to tc_from t"
  defines "g \<equiv> save_records im_save_record (recorded_steps fr_to tc_to prov wid run ts) []"
  shows "\<exists>p p'. replay_load (im_list_records g) wid run = Inr p \<and>
    replay_many fr_from tc_from (length ts) p = (map Inr ts, p') \<and> replay_remaining p' = 0 \<and>
    replay_run fr_from tc_from p' =
      (Inl (replay_to_agent_error (MissingStep run (length ts) (length ts))), p')"
proof -
  let ?rs = "recorded_steps fr_to tc_to prov wid run ts"
  let ?p = "from_steps run ?rs"
  have len: "length ?rs = length ts" by (simp add: recorded_steps_def)
  have "map (\<lambda>s. case sr_inference s of None \<Rightarrow> Inl (Decode []) | Some i \<Rightarrow> turn_from_record fr_from tc_from i)
      (drop (rp_cursor ?p) (rp_steps ?p)) = map (\<lambda>t. Inr t) ts"
    using assms(1)
    by (auto simp: from_steps_def recorded_steps_def with_inference_def step_record_new_def
        case_prod_unfold turn_roundtrip list_eq_iff_nth_eq nth_enumerate_eq)
  from replay_many_ok [OF this]
  have "replay_many fr_from tc_from (length ts) ?p = (map Inr ts, ?p\<lparr>rp_cursor := length ts\<rparr>)"
    by (simp add: from_steps_def)
  moreover have "replay_load (im_list_records g) wid run = Inr ?p"
    by (simp add: replay_load_def g_def recorded_steps_listed)
  ultimately show ?thesis
    using len by (intro exI [of _ ?p] exI [of _ "?p\<lparr>rp_cursor := length ts\<rparr>"])
      (simp add: replay_remaining_def replay_run_def next_record_def from_steps_def Let_def)
qed

text \<open>
  The derived codec of \<open>ParsedToolCall\<close>, an object with its three fields, round trips every call; a finish reason
  printed as a string is one of the codecs the property allows.
\<close>

definition call_to_json :: "parsed_tool_call \<Rightarrow> json option" where
  "call_to_json c = Some (Object
     [(''id'', String (ptc_id c)), (''name'', String (ptc_name c)), (''arguments_raw'', String (ptc_arguments_raw c))])"

definition call_from_json :: "json \<Rightarrow> string + parsed_tool_call" where
  "call_from_json v =
     (case (jget v ''id'', jget v ''name'', jget v ''arguments_raw'') of
        (Some (String i), Some (String n), Some (String a)) \<Rightarrow>
          Inr \<lparr>ptc_id = i, ptc_name = n, ptc_arguments_raw = a\<rparr>
      | _ \<Rightarrow> Inl ''missing field'')"

lemma call_codec: "\<exists>v. call_to_json c = Some v \<and> call_from_json v = Inr c"
  by (cases c) (simp add: call_to_json_def call_from_json_def)

definition demo_finish_to :: "bool \<Rightarrow> json option" where
  "demo_finish_to b = Some (String (if b then ''tool_calls'' else ''stop''))"

definition demo_finish_from :: "json \<Rightarrow> string + bool" where
  "demo_finish_from v =
     (if v = String ''tool_calls'' then Inr True else if v = String ''stop'' then Inr False else Inl ''unknown variant'')"

definition demo_turns :: "(token_usage, bool) turn_result list" where
  "demo_turns =
     [\<lparr>tr_text = ''let me look'',
       tr_usage = \<lparr>input_tokens = 10, output_tokens = 4, tu_reasoning_tokens = 1, tu_cached_tokens = 0\<rparr>,
       tr_finish_reason = Some True,
       tr_tool_calls = [\<lparr>ptc_id = ''c1'', ptc_name = ''search'', ptc_arguments_raw = ''{}''\<rparr>,
                        \<lparr>ptc_id = ''c2'', ptc_name = ''read'', ptc_arguments_raw = ''[1]''\<rparr>]\<rparr>,
      \<lparr>tr_text = ''done'',
       tr_usage = \<lparr>input_tokens = 20, output_tokens = 2, tu_reasoning_tokens = 0, tu_cached_tokens = 7\<rparr>,
       tr_finish_reason = Some False, tr_tool_calls = []\<rparr>]"

theorem record_replay_roundtrip_witness:
  "\<exists>p p'. replay_load (im_list_records (save_records im_save_record
       (recorded_steps demo_finish_to call_to_json Anthropic ''w'' ''r'' demo_turns) [])) ''w'' ''r'' = Inr p \<and>
     replay_many demo_finish_from call_from_json 2 p = ([Inr (demo_turns ! 0), Inr (demo_turns ! 1)], p') \<and>
     replay_remaining p' = 0 \<and>
     replay_run demo_finish_from call_from_json p' = (Inl (replay_to_agent_error (MissingStep ''r'' 2 2)), p')"
proof -
  have "\<forall>t\<in>set demo_turns. codec_ok demo_finish_to demo_finish_from call_to_json call_from_json t"
    by (simp add: codec_ok_def call_codec demo_finish_to_def demo_finish_from_def split: option.splits)
  from record_replay_roundtrip [OF this, of Anthropic "''w''" "''r''"]
  show ?thesis by (simp add: demo_turns_def numeral_2_eq_2 del: replay_many.simps)
qed

end
