(* ===== verification/Dag.thy ===== *)
theory Dag
  imports Core
begin

text \<open>
  The workflow graph of \<open>crates/workflow\<close>: \<open>Dag\<close>, its builder and its topological sort
  (\<open>dag.rs\<close>), and the grouping of the sorted steps into super-step layers that
  \<open>state_runner.rs\<close> and \<open>interrupt.rs\<close> share. The lemmas show that the sort succeeds
  exactly on graphs without a cycle and without an edge from an undeclared step, that its result
  lists every step once after all its predecessors, and that an edge always goes from an earlier
  to a later layer.
\<close>

type_synonym step_id = string

subsection \<open>The graph and its builder (workflow/src/dag.rs)\<close>

record 's dag =
  dag_steps :: "(step_id \<times> 's) list"
  dag_edges :: "(step_id \<times> step_id list) list"
  dag_entry :: step_id

definition dag_builder :: "step_id \<Rightarrow> 's dag" where
  "dag_builder e = \<lparr>dag_steps = [], dag_edges = [], dag_entry = e\<rparr>"

definition dag_step :: "'s dag \<Rightarrow> step_id \<Rightarrow> 's \<Rightarrow> 's dag" where
  "dag_step d i s = d\<lparr>dag_steps := bt_insert i s (dag_steps d)\<rparr>"

definition dag_edge :: "'s dag \<Rightarrow> step_id \<Rightarrow> step_id \<Rightarrow> 's dag" where
  "dag_edge d a b =
     d\<lparr>dag_edges := AList.update a
        ((case map_of (dag_edges d) a of None \<Rightarrow> [] | Some xs \<Rightarrow> xs) @ [b]) (dag_edges d)\<rparr>"

definition dag_keys :: "'s dag \<Rightarrow> step_id list" where
  "dag_keys d = map fst (dag_steps d)"

definition succs :: "'s dag \<Rightarrow> step_id \<Rightarrow> step_id list" where
  "succs d n = (case map_of (dag_edges d) n of None \<Rightarrow> [] | Some xs \<Rightarrow> xs)"

text \<open>What the builder maintains: both maps have one entry per key, the step map is ordered.\<close>

definition dag_wf :: "'s dag \<Rightarrow> bool" where
  "dag_wf d \<longleftrightarrow> bt_wf (dag_steps d) \<and> distinct (map fst (dag_edges d))"

lemma dag_builder_wf: "dag_wf (dag_builder e)"
  by (simp add: dag_wf_def dag_builder_def)

lemma dag_step_wf: "dag_wf d \<Longrightarrow> dag_wf (dag_step d i s)"
  by (simp add: dag_wf_def dag_step_def btree_simps)

lemma dag_edge_wf: "dag_wf d \<Longrightarrow> dag_wf (dag_edge d a b)"
  by (simp add: dag_wf_def dag_edge_def distinct_update)

lemma succs_dag_edge: "succs (dag_edge d a b) n = (if n = a then succs d a @ [b] else succs d n)"
  by (simp add: succs_def dag_edge_def update_conv' split: option.splits)

subsection \<open>Topological sort\<close>

type_synonym indegrees = "(step_id \<times> nat) list"

definition deg :: "indegrees \<Rightarrow> step_id \<Rightarrow> nat option" where
  "deg ind k = map_of ind k"

text \<open>Counting: \<open>for to in tos {if let Some(d) = indeg.get_mut(to) {*d += 1}}\<close>.\<close>

fun count_in :: "indegrees \<Rightarrow> step_id list \<Rightarrow> indegrees" where
  "count_in ind [] = ind"
| "count_in ind (t # ts) =
     (case deg ind t of
        None \<Rightarrow> count_in ind ts
      | Some d \<Rightarrow> count_in (AList.update t (d + 1) ind) ts)"

definition indegrees_of :: "'s dag \<Rightarrow> indegrees" where
  "indegrees_of d =
     fold (\<lambda>e ind. count_in ind (snd e)) (dag_edges d) (map (\<lambda>k. (k, 0)) (dag_keys d))"

text \<open>
  Visiting the successors of a popped step. A successor with in-degree 0 would make the
  \<open>usize\<close> subtraction overflow; \<open>kahn_no_underflow\<close> below shows that this does not happen, and
  the model leaves such an entry as it is.
\<close>

fun relax :: "step_id list \<Rightarrow> indegrees \<Rightarrow> step_id list \<Rightarrow> indegrees \<times> step_id list" where
  "relax [] ind queue = (ind, queue)"
| "relax (s # ss) ind queue =
     (case deg ind s of
        None \<Rightarrow> relax ss ind queue
      | Some 0 \<Rightarrow> relax ss ind queue
      | Some (Suc d) \<Rightarrow>
          relax ss (AList.update s d ind) (if d = 0 then queue @ [s] else queue))"

text \<open>The main loop: pop the last (greatest) queued step, emit it, relax, sort the queue again.\<close>

lemma sum_update_Suc:
  "map_of ind s = Some (Suc d) \<Longrightarrow>
   sum_list (map snd ind) = Suc (sum_list (map snd (AList.update s d ind)))"
  by (induction ind) (auto split: if_splits)

lemma relax_measure:
  "relax ss ind q = (ind', q') \<Longrightarrow>
   sum_list (map snd ind') + length q' \<le> sum_list (map snd ind) + length q"
proof (induction ss ind q rule: relax.induct)
  case (2 s ss ind queue)
  show ?case
  proof (cases "deg ind s")
    case None
    with 2 show ?thesis by simp
  next
    case (Some n)
    show ?thesis
    proof (cases n)
      case 0
      with 2 Some show ?thesis by simp
    next
      case (Suc d)
      with Some have "sum_list (map snd ind) = Suc (sum_list (map snd (AList.update s d ind)))"
        by (intro sum_update_Suc) (simp add: deg_def)
      moreover have "sum_list (map snd ind') + length q'
          \<le> sum_list (map snd (AList.update s d ind)) + length (if d = 0 then queue @ [s] else queue)"
        using 2 Some Suc by simp
      ultimately show ?thesis by (simp split: if_splits)
    qed
  qed
qed simp

function kahn :: "'s dag \<Rightarrow> indegrees \<Rightarrow> step_id list \<Rightarrow> step_id list \<Rightarrow> step_id list" where
  "kahn d ind queue out =
     (if queue = [] then out
      else (let n = last queue; (ind', queue') = relax (succs d n) ind (butlast queue)
            in kahn d ind' (sort queue') (out @ [n])))"
  by pat_completeness auto
termination
proof (relation "measure (\<lambda>(d, ind, queue, out). sum_list (map snd ind) + length queue)", simp)
  fix d :: "'s dag" and ind :: indegrees and queue out n x ind' queue'
  assume "queue \<noteq> []" and "n = last queue" and "x = relax (succs d n) ind (butlast queue)"
    and "(ind', queue') = x"
  then have "sum_list (map snd ind') + length queue' \<le> sum_list (map snd ind) + length (butlast queue)"
    by (intro relax_measure) simp
  moreover have "length (butlast queue) < length queue" using \<open>queue \<noteq> []\<close> by simp
  ultimately show "((d, ind', sort queue', out @ [n]), d, ind, queue, out)
      \<in> measure (\<lambda>(d, ind, queue, out). sum_list (map snd ind) + length queue)"
    by simp
qed

declare kahn.simps [simp del]

definition topo_sort :: "'s dag \<Rightarrow> step_id list result" where
  "topo_sort d =
     (let ind = indegrees_of d;
          queue = sort (map fst (filter (\<lambda>(k, n). n = 0) ind));
          out = kahn d ind queue []
      in if length out \<noteq> length (dag_steps d) then Inl (Workflow ''dag has a cycle'') else Inr out)"

subsection \<open>Layers (state_runner.rs and interrupt.rs, fn layered)\<close>

type_synonym depths = "(step_id \<times> nat) list"

definition depth_of :: "depths \<Rightarrow> step_id \<Rightarrow> nat" where
  "depth_of dep s = (case map_of dep s of None \<Rightarrow> 0 | Some n \<Rightarrow> n)"

fun init_depths :: "step_id list \<Rightarrow> depths \<Rightarrow> depths" where
  "init_depths [] dep = dep"
| "init_depths (s # ss) dep = init_depths ss (AList.update s 0 dep)"

fun deepen :: "nat \<Rightarrow> step_id list \<Rightarrow> depths \<Rightarrow> depths" where
  "deepen cur [] dep = dep"
| "deepen cur (n # ns) dep = deepen cur ns (AList.update n (max (cur + 1) (depth_of dep n)) dep)"

fun compute_depths :: "'s dag \<Rightarrow> step_id list \<Rightarrow> depths \<Rightarrow> depths" where
  "compute_depths d [] dep = dep"
| "compute_depths d (s # ss) dep = compute_depths d ss (deepen (depth_of dep s) (succs d s) dep)"

fun fill_layers :: "depths \<Rightarrow> step_id list \<Rightarrow> step_id list list \<Rightarrow> step_id list list" where
  "fill_layers dep [] layers = layers"
| "fill_layers dep (s # ss) layers =
     fill_layers dep ss (layers[depth_of dep s := layers ! depth_of dep s @ [s]])"

definition layered :: "'s dag \<Rightarrow> step_id list \<Rightarrow> step_id list list" where
  "layered d order =
     (let dep = compute_depths d order (init_depths order []);
          max_d = foldl max 0 (map snd dep)
      in fill_layers dep order (replicate (max_d + 1) []))"

subsection \<open>In-degrees count the edges from steps not emitted yet\<close>

fun edge_count :: "(step_id \<times> step_id list) list \<Rightarrow> step_id set \<Rightarrow> step_id \<Rightarrow> nat" where
  "edge_count [] X v = 0"
| "edge_count (e # es) X v = (if fst e \<in> X then 0 else count_list (snd e) v) + edge_count es X v"

lemma map_of_count_in: "map_of (count_in ind ts) v = map_option (\<lambda>n. n + count_list ts v) (map_of ind v)"
  by (induction ind ts rule: count_in.induct)
     (auto simp: deg_def update_conv' option.map_ident split: option.splits)

lemma map_of_fold_count_in:
  "map_of (fold (\<lambda>e ind. count_in ind (snd e)) es ind) v =
   map_option (\<lambda>n. n + edge_count es {} v) (map_of ind v)"
  by (induction es arbitrary: ind)
     (auto simp: map_of_count_in option.map_comp comp_def option.map_ident add.assoc)

lemma map_of_indegrees:
  "map_of (indegrees_of d) v =
   (if v \<in> set (dag_keys d) then Some (edge_count (dag_edges d) {} v) else None)"
proof -
  have "map_of (map (\<lambda>k. (k, 0 :: nat)) ks) v = (if v \<in> set ks then Some 0 else None)" for ks
    by (induction ks) auto
  then show ?thesis by (simp add: indegrees_of_def map_of_fold_count_in)
qed

lemma edge_count_insert:
  assumes "distinct (map fst es)" and "n \<notin> X"
  shows "edge_count es X v =
    edge_count es (insert n X) v + count_list (case map_of es n of None \<Rightarrow> [] | Some xs \<Rightarrow> xs) v"
  using assms(1)
proof (induction es)
  case (Cons e es)
  obtain k ts where e: "e = (k, ts)" by force
  show ?case
  proof (cases "k = n")
    case True
    with Cons.prems e have "map_of es n = None" by (simp add: map_of_eq_None_iff)
    with Cons e True assms(2) show ?thesis by simp
  next
    case False
    with Cons e show ?thesis by simp
  qed
qed simp

lemma edge_count_emit:
  "dag_wf d \<Longrightarrow> n \<notin> set out \<Longrightarrow>
   edge_count (dag_edges d) (set out) v =
   edge_count (dag_edges d) (set (out @ [n])) v + count_list (succs d n) v"
  using edge_count_insert [of "dag_edges d" n "set out" v] by (simp add: dag_wf_def succs_def)

lemma edge_count_0_iff: "edge_count es X v = 0 \<longleftrightarrow> (\<forall>e\<in>set es. v \<in> set (snd e) \<longrightarrow> fst e \<in> X)"
  by (induction es) (auto simp: count_list_0_iff)

lemma in_succs:
  assumes "dag_wf d"
  shows "v \<in> set (succs d u) \<longleftrightarrow> (\<exists>ts. (u, ts) \<in> set (dag_edges d) \<and> v \<in> set ts)"
proof -
  have eq: "(u, ts) \<in> set (dag_edges d) \<longleftrightarrow> map_of (dag_edges d) u = Some ts" for ts
    using assms by (simp add: dag_wf_def)
  show ?thesis unfolding eq by (cases "map_of (dag_edges d) u") (simp_all add: succs_def)
qed

lemma edge_count_0_succs:
  assumes "dag_wf d"
  shows "edge_count (dag_edges d) X v = 0 \<longleftrightarrow> (\<forall>u. v \<in> set (succs d u) \<longrightarrow> u \<in> X)"
  unfolding edge_count_0_iff in_succs [OF assms] by (simp add: Ball_def split_paired_All) blast

subsection \<open>One round of relaxation\<close>

lemma relax_spec:
  assumes "\<And>v n. map_of ind v = Some n \<Longrightarrow> count_list ss v \<le> n" and "relax ss ind q = (ind', q')"
  shows "(\<forall>v. map_of ind' v = map_option (\<lambda>n. n - count_list ss v) (map_of ind v)) \<and>
    (\<exists>zs. q' = q @ zs \<and> distinct zs \<and>
      (\<forall>v. v \<in> set zs \<longleftrightarrow> map_of ind v = Some (count_list ss v) \<and> count_list ss v \<noteq> 0))"
  using assms
proof (induction ss arbitrary: ind q)
  case Nil
  then show ?case by (simp add: option.map_ident)
next
  case (Cons s ss)
  show ?case
  proof (cases "map_of ind s")
    case None
    have "\<And>v n. map_of ind v = Some n \<Longrightarrow> count_list ss v \<le> n"
      using Cons.prems(1) by (metis count_list.simps(2) le_trans le_add1 add.commute)
    moreover have "relax ss ind q = (ind', q')" using Cons.prems(2) None by (simp add: deg_def)
    ultimately have "(\<forall>v. map_of ind' v = map_option (\<lambda>n. n - count_list ss v) (map_of ind v)) \<and>
      (\<exists>zs. q' = q @ zs \<and> distinct zs \<and>
        (\<forall>v. v \<in> set zs \<longleftrightarrow> map_of ind v = Some (count_list ss v) \<and> count_list ss v \<noteq> 0))"
      by (rule Cons.IH)
    moreover have "map_of ind v = Some n \<Longrightarrow> count_list (s # ss) v = count_list ss v" for v n
      using None by auto
    ultimately show ?thesis
      by (intro conjI allI) (metis (no_types, lifting) option.map_cong option.set_cases, metis None option.distinct(1) count_list.simps(2))
  next
    case (Some m)
    with Cons.prems(1) obtain k where m: "m = Suc k" by (cases m) fastforce+
    let ?ind = "AList.update s k ind" and ?q = "if k = 0 then q @ [s] else q"
    have upd: "map_of ?ind v = (if v = s then Some k else map_of ind v)" for v
      by (simp add: update_conv')
    have pre: "map_of ?ind v = Some n \<Longrightarrow> count_list ss v \<le> n" for v n
      using Cons.prems(1) [of v n] Cons.prems(1) [OF Some] m by (auto simp: upd split: if_splits)
    have run: "relax ss ?ind ?q = (ind', q')" using Cons.prems(2) Some m by (simp add: deg_def)
    from Cons.IH [OF pre run] obtain zs where
      ind': "\<And>v. map_of ind' v = map_option (\<lambda>n. n - count_list ss v) (map_of ?ind v)"
      and zs: "q' = ?q @ zs" "distinct zs"
        "\<And>v. v \<in> set zs \<longleftrightarrow> map_of ?ind v = Some (count_list ss v) \<and> count_list ss v \<noteq> 0"
      by blast
    have A: "map_of ind' v = map_option (\<lambda>n. n - count_list (s # ss) v) (map_of ind v)" for v
      using Some m by (auto simp: ind' upd)
    let ?zs = "(if k = 0 then [s] else []) @ zs"
    have B: "v \<in> set ?zs \<longleftrightarrow> map_of ind v = Some (count_list (s # ss) v) \<and> count_list (s # ss) v \<noteq> 0" for v
      using Some m pre [of s k] by (auto simp: zs(3) upd)
    have "q' = q @ ?zs" "distinct ?zs" using zs by (auto simp: upd)
    with A B show ?thesis by blast
  qed
qed

subsection \<open>The invariant of the main loop\<close>

text \<open>Every step of a list comes after all steps that have an edge to it.\<close>

fun ordered_after :: "'s dag \<Rightarrow> step_id set \<Rightarrow> step_id list \<Rightarrow> bool" where
  "ordered_after d X [] = True"
| "ordered_after d X (v # vs) =
     ((\<forall>u. v \<in> set (succs d u) \<longrightarrow> u \<in> X) \<and> ordered_after d (insert v X) vs)"

lemma ordered_after_append:
  "ordered_after d X (xs @ ys) \<longleftrightarrow> ordered_after d X xs \<and> ordered_after d (X \<union> set xs) ys"
  by (induction xs arbitrary: X) auto

definition kahn_inv :: "'s dag \<Rightarrow> indegrees \<Rightarrow> step_id list \<Rightarrow> step_id list \<Rightarrow> bool" where
  "kahn_inv d ind q out \<longleftrightarrow>
     distinct (out @ q) \<and> set (out @ q) \<subseteq> set (dag_keys d) \<and>
     (\<forall>v. map_of ind v =
        (if v \<in> set (dag_keys d) then Some (edge_count (dag_edges d) (set out) v) else None)) \<and>
     (\<forall>v\<in>set (dag_keys d). edge_count (dag_edges d) (set out) v = 0 \<longleftrightarrow> v \<in> set (out @ q)) \<and>
     ordered_after d {} out"

lemma keys_count_in: "map fst (count_in ind ts) = map fst ind"
  by (induction ind ts rule: count_in.induct)
     (auto simp: deg_def update_keys map_of_eq_None_iff dest!: map_of_SomeD split: option.splits intro: rev_image_eqI)

lemma keys_indegrees: "map fst (indegrees_of d) = dag_keys d"
proof -
  have "map fst (fold (\<lambda>e ind. count_in ind (snd e)) es ind) = map fst ind" for es :: "(step_id \<times> step_id list) list" and ind
    by (induction es arbitrary: ind) (simp_all add: keys_count_in)
  then show ?thesis by (simp add: indegrees_of_def comp_def)
qed

lemma dag_keys_distinct: "dag_wf d \<Longrightarrow> distinct (dag_keys d)"
  by (simp add: dag_wf_def dag_keys_def bt_wf_distinct)

lemma kahn_inv_init:
  assumes "dag_wf d"
  shows "kahn_inv d (indegrees_of d) (sort (map fst (filter (\<lambda>(k, n). n = 0) (indegrees_of d)))) []"
proof -
  let ?ind = "indegrees_of d" and ?q = "map fst (filter (\<lambda>(k, n). n = 0) (indegrees_of d))"
  have dist: "distinct (map fst ?ind)" using dag_keys_distinct [OF assms] by (simp add: keys_indegrees)
  have q: "v \<in> set ?q \<longleftrightarrow> map_of ?ind v = Some 0" for v
    by (auto simp: map_of_eq_Some_iff [OF dist] intro: rev_image_eqI)
  have "distinct ?q" using dist by (rule distinct_map_filter)
  moreover have "set ?q \<subseteq> set (dag_keys d)"
    by (rule subsetI, drule q [THEN iffD1]) (simp add: map_of_indegrees split: if_splits)
  ultimately show ?thesis using q by (simp add: kahn_inv_def map_of_indegrees)
qed

text \<open>The subtraction in the relaxation never goes below zero.\<close>

lemma kahn_no_underflow:
  assumes "dag_wf d" and "kahn_inv d ind q out" and "q \<noteq> []" and "map_of ind v = Some m"
  shows "count_list (succs d (last q)) v \<le> m"
proof -
  have "last q \<notin> set out" using assms(2,3) by (auto simp: kahn_inv_def)
  from edge_count_emit [OF assms(1) this, of v] assms(2,4) show ?thesis
    by (auto simp: kahn_inv_def split: if_splits)
qed

lemma kahn_inv_step:
  assumes "dag_wf d" and inv: "kahn_inv d ind q out" and "q \<noteq> []"
    and run: "relax (succs d (last q)) ind (butlast q) = (ind', q')"
  shows "kahn_inv d ind' (sort q') (out @ [last q])"
proof -
  let ?n = "last q" and ?K = "set (dag_keys d)" and ?out = "out @ [last q]"
  let ?c = "\<lambda>X. edge_count (dag_edges d) X"
  have q: "q = butlast q @ [?n]" using assms(3) by simp
  have dq: "distinct (out @ q)" and sub: "set (out @ q) \<subseteq> ?K"
    and ind: "\<And>v. map_of ind v = (if v \<in> ?K then Some (?c (set out) v) else None)"
    and zero: "\<And>v. v \<in> ?K \<Longrightarrow> ?c (set out) v = 0 \<longleftrightarrow> v \<in> set (out @ q)"
    and ord: "ordered_after d {} out"
    using inv by (auto simp: kahn_inv_def)
  have nout: "?n \<notin> set out" and nK: "?n \<in> ?K" and nq: "?n \<notin> set (butlast q)"
    using dq sub assms(3) q by (auto simp: distinct_append) (metis distinct_append disjoint_iff list.set_intros(1) not_distinct_conv_prefix q)+
  note emit = edge_count_emit [OF assms(1) nout]
  have pre: "map_of ind v = Some m \<Longrightarrow> count_list (succs d ?n) v \<le> m" for v m
    using kahn_no_underflow [OF assms(1) inv assms(3)] .
  from relax_spec [OF pre run] obtain zs where
    ind': "\<And>v. map_of ind' v = map_option (\<lambda>n. n - count_list (succs d ?n) v) (map_of ind v)"
    and zs: "q' = butlast q @ zs" "distinct zs"
      "\<And>v. v \<in> set zs \<longleftrightarrow> map_of ind v = Some (count_list (succs d ?n) v) \<and> count_list (succs d ?n) v \<noteq> 0"
    by blast
  have zK: "v \<in> set zs \<longleftrightarrow> v \<in> ?K \<and> ?c (set out) v \<noteq> 0 \<and> ?c (set ?out) v = 0" for v
    using emit [of v] by (auto simp: zs(3) ind split: if_splits)
  have setq: "set q = insert ?n (set (butlast q))" by (subst q) simp
  have "distinct (?out @ sort q')"
  proof -
    have "set zs \<inter> set (out @ q) = {}" using zK zero by blast
    moreover have "distinct (butlast q)" using dq by (simp add: distinct_butlast)
    moreover have "set out \<inter> set (butlast q) = {}" using dq in_set_butlastD by fastforce
    ultimately show ?thesis using dq zs(2) nout nq by (auto simp: zs(1) setq)
  qed
  moreover have "set (?out @ sort q') \<subseteq> ?K" using sub zK setq nK by (auto simp: zs(1))
  moreover have "\<forall>v. map_of ind' v = (if v \<in> ?K then Some (?c (set ?out) v) else None)"
    using emit by (simp add: ind' ind)
  moreover have "\<forall>v\<in>?K. ?c (set ?out) v = 0 \<longleftrightarrow> v \<in> set (?out @ sort q')"
    using emit zero zK unfolding zs(1) by (auto simp: setq)
  moreover have "ordered_after d {} ?out"
    using ord zero [OF nK] assms(3) edge_count_0_succs [OF assms(1), of "set out" ?n]
    by (simp add: ordered_after_append)
  ultimately show ?thesis by (simp only: kahn_inv_def) simp
qed

lemma kahn_result:
  "dag_wf d \<Longrightarrow> kahn_inv d ind q out \<Longrightarrow> \<exists>ind'. kahn_inv d ind' [] (kahn d ind q out)"
proof (induction d ind q out rule: kahn.induct)
  case (1 d ind q out)
  show ?case
  proof (cases "q = []")
    case True
    with "1.prems" show ?thesis by (auto simp: kahn.simps)
  next
    case False
    obtain ind' q' where r: "relax (succs d (last q)) ind (butlast q) = (ind', q')" by force
    have "kahn_inv d ind' (sort q') (out @ [last q])"
      using "1.prems" False r by (rule kahn_inv_step)
    with "1.IH" [OF False refl r [symmetric] refl "1.prems"(1)] False r show ?thesis
      by (simp add: kahn.simps [of d ind q out])
  qed
qed

subsection \<open>What the topological sort returns\<close>

definition kahn_out :: "'s dag \<Rightarrow> step_id list" where
  "kahn_out d =
     kahn d (indegrees_of d) (sort (map fst (filter (\<lambda>(k, n). n = 0) (indegrees_of d)))) []"

lemma kahn_out_facts:
  assumes "dag_wf d"
  shows "distinct (kahn_out d)" and "set (kahn_out d) \<subseteq> set (dag_keys d)"
    and "ordered_after d {} (kahn_out d)"
    and "v \<in> set (dag_keys d) \<Longrightarrow>
      (\<forall>u. v \<in> set (succs d u) \<longrightarrow> u \<in> set (kahn_out d)) \<longleftrightarrow> v \<in> set (kahn_out d)"
proof -
  obtain ind' where "kahn_inv d ind' [] (kahn_out d)"
    using kahn_result [OF assms kahn_inv_init [OF assms]] by (auto simp: kahn_out_def)
  then show "distinct (kahn_out d)" and "set (kahn_out d) \<subseteq> set (dag_keys d)"
    and "ordered_after d {} (kahn_out d)"
    and "v \<in> set (dag_keys d) \<Longrightarrow>
      (\<forall>u. v \<in> set (succs d u) \<longrightarrow> u \<in> set (kahn_out d)) \<longleftrightarrow> v \<in> set (kahn_out d)"
    using edge_count_0_succs [OF assms] by (auto simp: kahn_inv_def)
qed

lemma topo_sort_kahn_out:
  "topo_sort d =
    (if length (kahn_out d) \<noteq> length (dag_keys d) then Inl (Workflow ''dag has a cycle'')
     else Inr (kahn_out d))"
  by (simp add: topo_sort_def kahn_out_def Let_def dag_keys_def)

lemma topo_sort_sound:
  assumes "dag_wf d" and "topo_sort d = Inr out"
  shows "distinct out" and "set out = set (dag_keys d)" and "ordered_after d {} out"
proof -
  have out: "out = kahn_out d" and len: "length out = length (dag_keys d)"
    using assms(2) by (auto simp: topo_sort_kahn_out split: if_splits)
  note facts = kahn_out_facts [OF assms(1)]
  show "distinct out" and "ordered_after d {} out" using facts by (simp_all add: out)
  show "set out = set (dag_keys d)"
    using facts(1,2) len dag_keys_distinct [OF assms(1)]
    by (metis List.finite_set card_subset_eq distinct_card out)
qed

text \<open>The edges between declared steps, and the edges that come from an undeclared one.\<close>

definition edge_rel :: "'s dag \<Rightarrow> (step_id \<times> step_id) set" where
  "edge_rel d = {(u, v). u \<in> set (dag_keys d) \<and> v \<in> set (dag_keys d) \<and> v \<in> set (succs d u)}"

definition dangling_edge :: "'s dag \<Rightarrow> bool" where
  "dangling_edge d \<longleftrightarrow>
     (\<exists>(u, vs) \<in> set (dag_edges d). u \<notin> set (dag_keys d) \<and> (\<exists>v \<in> set vs. v \<in> set (dag_keys d)))"

lemma dangling_edge_iff:
  "dag_wf d \<Longrightarrow>
   dangling_edge d \<longleftrightarrow> (\<exists>u v. u \<notin> set (dag_keys d) \<and> v \<in> set (dag_keys d) \<and> v \<in> set (succs d u))"
  by (auto simp: dangling_edge_def in_succs)

lemma ordered_after_pred:
  "ordered_after d X out \<Longrightarrow> v \<in> set out \<Longrightarrow> v \<in> set (succs d u) \<Longrightarrow>
   u \<in> X \<union> set (takeWhile (\<lambda>x. x \<noteq> v) out)"
  by (induction out arbitrary: X) (auto split: if_splits)

lemma length_takeWhile_in: "u \<in> set xs \<Longrightarrow> length (takeWhile (\<lambda>x. x \<noteq> u) xs) < length xs"
  by (induction xs) auto

lemma topo_sort_acyclic:
  assumes "dag_wf d" and "topo_sort d = Inr out"
  shows "acyclic (edge_rel d)" and "\<not> dangling_edge d"
proof -
  note s = topo_sort_sound [OF assms]
  have pred: "u \<in> set (takeWhile (\<lambda>x. x \<noteq> v) out)"
    if "v \<in> set (dag_keys d)" "v \<in> set (succs d u)" for u v
    using ordered_after_pred [OF s(3)] that s(2) by auto
  let ?pos = "\<lambda>v. length (takeWhile (\<lambda>x. x \<noteq> v) out)"
  have "edge_rel d \<subseteq> inv_image less_than ?pos"
  proof (clarsimp simp: edge_rel_def)
    fix u v
    assume "v \<in> set (dag_keys d)" and "v \<in> set (succs d u)"
    then have u: "u \<in> set (takeWhile (\<lambda>x. x \<noteq> v) out)" by (rule pred)
    have eq: "takeWhile (\<lambda>x. x \<noteq> u) (takeWhile (\<lambda>x. x \<noteq> v) out) = takeWhile (\<lambda>x. x \<noteq> u) out"
      using u by (induction out) auto
    show "?pos u < ?pos v"
      using length_takeWhile_in [OF u] unfolding eq .
  qed
  then show "acyclic (edge_rel d)"
    by (rule acyclic_subset [OF wf_acyclic [OF wf_inv_image [OF wf_less_than]]])
  show "\<not> dangling_edge d"
    using pred s(2) by (auto simp: dangling_edge_iff [OF assms(1)] dest: set_takeWhileD)
qed

lemma topo_sort_complete:
  assumes "dag_wf d" and "acyclic (edge_rel d)" and "\<not> dangling_edge d"
  shows "\<exists>out. topo_sort d = Inr out"
proof -
  note facts = kahn_out_facts [OF assms(1)]
  have "finite (edge_rel d)"
    by (rule finite_subset [of _ "set (dag_keys d) \<times> set (dag_keys d)"]) (auto simp: edge_rel_def)
  with assms(2) have wf: "wf (edge_rel d)" by (rule finite_acyclic_wf [rotated])
  have "v \<in> set (dag_keys d) \<Longrightarrow> v \<in> set (kahn_out d)" for v
    using wf
  proof (induction v rule: wf_induct_rule)
    case (less v)
    have "u \<in> set (kahn_out d)" if "v \<in> set (succs d u)" for u
      using that less assms(3) by (auto simp: edge_rel_def dangling_edge_iff [OF assms(1)])
    with facts(4) [OF less.prems] show ?case by blast
  qed
  with facts(2) have "set (kahn_out d) = set (dag_keys d)" by blast
  then have "length (kahn_out d) = length (dag_keys d)"
    using facts(1) dag_keys_distinct [OF assms(1)] by (metis distinct_card)
  then show ?thesis by (simp add: topo_sort_kahn_out)
qed

subsection \<open>What the layers are\<close>

lemma map_of_deepen:
  "map_of (deepen cur ns dep) v =
   (if v \<in> set ns then Some (max (cur + 1) (depth_of dep v)) else map_of dep v)"
  by (induction cur ns dep rule: deepen.induct) (auto simp: update_conv' depth_of_def)

lemma depth_of_deepen:
  "depth_of (deepen cur ns dep) v =
   (if v \<in> set ns then max (cur + 1) (depth_of dep v) else depth_of dep v)"
  by (simp add: depth_of_def map_of_deepen)

lemma compute_depths_mono: "depth_of dep v \<le> depth_of (compute_depths d ss dep) v"
proof (induction d ss dep rule: compute_depths.induct)
  case (2 d s ss dep)
  have "depth_of dep v \<le> depth_of (deepen (depth_of dep s) (succs d s) dep) v"
    by (simp add: depth_of_deepen)
  with 2 show ?case by simp
qed simp

lemma compute_depths_fixed:
  "\<forall>s\<in>set ss. v \<notin> set (succs d s) \<Longrightarrow> depth_of (compute_depths d ss dep) v = depth_of dep v"
  by (induction d ss dep rule: compute_depths.induct) (auto simp: depth_of_deepen)

lemma ordered_after_later:
  "ordered_after d X (s # ss) \<Longrightarrow> distinct (s # ss) \<Longrightarrow> X \<inter> set (s # ss) = {} \<Longrightarrow>
   w \<in> set (s # ss) \<Longrightarrow> s \<notin> set (succs d w)"
  by auto

lemma compute_depths_edge:
  assumes "ordered_after d X ss" and "distinct ss" and "X \<inter> set ss = {}"
    and "u \<in> set ss" and "v \<in> set (succs d u)"
  shows "depth_of (compute_depths d ss dep) u < depth_of (compute_depths d ss dep) v"
  using assms
proof (induction ss arbitrary: dep X)
  case (Cons s ss)
  let ?dep = "deepen (depth_of dep s) (succs d s) dep"
  show ?case
  proof (cases "u = s")
    case True
    have later: "\<And>w. w \<in> set (s # ss) \<Longrightarrow> s \<notin> set (succs d w)"
      by (rule ordered_after_later [OF Cons.prems(1-3)])
    have "depth_of (compute_depths d ss ?dep) s = depth_of dep s"
      using later by (subst compute_depths_fixed) (auto simp: depth_of_deepen)
    moreover have "depth_of dep s < depth_of ?dep v"
      using Cons.prems(5) True by (simp add: depth_of_deepen)
    ultimately show ?thesis
      using compute_depths_mono [of ?dep v d ss] True by simp
  next
    case False
    then have "depth_of (compute_depths d ss ?dep) u < depth_of (compute_depths d ss ?dep) v"
      using Cons.prems by (intro Cons.IH [of "insert s X"]) auto
    then show ?thesis by simp
  qed
qed simp

lemma dom_init_depths: "dom (map_of (init_depths ss dep)) = set ss \<union> dom (map_of dep)"
  by (induction ss dep rule: init_depths.induct) (auto simp: update_conv' dom_def split: if_splits)

lemma dom_compute_depths: "dom (map_of dep) \<subseteq> dom (map_of (compute_depths d ss dep))"
proof (induction d ss dep rule: compute_depths.induct)
  case (2 d s ss dep)
  have "dom (map_of dep) \<subseteq> dom (map_of (deepen (depth_of dep s) (succs d s) dep))"
    by (auto simp: map_of_deepen dom_def)
  with 2 show ?case by auto
qed simp

lemma foldl_max_ge: "(m :: nat) \<le> foldl max m xs" "x \<in> set xs \<Longrightarrow> x \<le> foldl max m xs"
proof -
  show ge: "(m :: nat) \<le> foldl max m xs" for m xs
    by (induction xs arbitrary: m) (auto intro: le_trans [OF max.cobounded1])
  show "x \<in> set xs \<Longrightarrow> x \<le> foldl max m xs"
    by (induction xs arbitrary: m) (auto intro: le_trans [OF max.cobounded2 ge])
qed

lemma length_fill_layers [simp]: "length (fill_layers dep ss layers) = length layers"
  by (induction dep ss layers rule: fill_layers.induct) auto

lemma fill_layers_nth:
  "\<forall>s\<in>set ss. depth_of dep s < length layers \<Longrightarrow> i < length layers \<Longrightarrow>
   fill_layers dep ss layers ! i = layers ! i @ filter (\<lambda>s. depth_of dep s = i) ss"
  by (induction dep ss layers rule: fill_layers.induct) (auto simp: nth_list_update)

definition layer_index :: "'s dag \<Rightarrow> step_id list \<Rightarrow> step_id \<Rightarrow> nat" where
  "layer_index d order = depth_of (compute_depths d order (init_depths order []))"

lemma layered_facts:
  shows "layered d order \<noteq> []"
    and "s \<in> set order \<Longrightarrow> layer_index d order s < length (layered d order)"
    and "i < length (layered d order) \<Longrightarrow>
      layered d order ! i = filter (\<lambda>s. layer_index d order s = i) order"
proof -
  let ?dep = "compute_depths d order (init_depths order [])"
  let ?n = "foldl max 0 (map snd ?dep) + 1"
  have len: "length (layered d order) = ?n" by (simp add: layered_def Let_def)
  then show "layered d order \<noteq> []" by (metis Suc_eq_plus1 length_0_conv nat.distinct(1))
  have bound: "depth_of ?dep s < ?n" if "s \<in> set order" for s
  proof -
    have "s \<in> dom (map_of ?dep)"
      using that dom_compute_depths [of "init_depths order []" d order] by (auto simp: dom_init_depths)
    then obtain m where "map_of ?dep s = Some m" by blast
    moreover then have "m \<in> set (map snd ?dep)" by (metis map_of_SomeD image_eqI set_map snd_conv)
    ultimately show ?thesis using foldl_max_ge(2) [of m "map snd ?dep" 0] by (simp add: depth_of_def)
  qed
  then show "s \<in> set order \<Longrightarrow> layer_index d order s < length (layered d order)"
    by (simp add: layer_index_def len)
  show "i < length (layered d order) \<Longrightarrow>
      layered d order ! i = filter (\<lambda>s. layer_index d order s = i) order"
    using bound
    by (simp add: len del: replicate.simps)
       (simp add: layered_def Let_def layer_index_def fill_layers_nth del: replicate.simps)
qed

lemma layered_edge:
  assumes "dag_wf d" and "topo_sort d = Inr order"
    and "u \<in> set order" and "v \<in> set (succs d u)"
  shows "layer_index d order u < layer_index d order v"
  unfolding layer_index_def
  using topo_sort_sound [OF assms(1,2)] assms(3,4) by (intro compute_depths_edge [of d "{}"]) auto

subsection \<open>Properties\<close>

text \<open>
  (C8) The topological sort decides the graph: it succeeds exactly when there is no cycle among
  the declared steps and no edge from an undeclared step to a declared one. Its result then lists
  every step once, each after all steps that have an edge to it. On failure the error says there
  is a cycle, also when the reason is an edge from an undeclared step.
\<close>

theorem topo_sort_decides:
  assumes "dag_wf d"
  shows "case topo_sort d of
      Inr out \<Rightarrow> acyclic (edge_rel d) \<and> \<not> dangling_edge d \<and>
        distinct out \<and> set out = set (dag_keys d) \<and> ordered_after d {} out
    | Inl e \<Rightarrow> e = Workflow ''dag has a cycle'' \<and> (\<not> acyclic (edge_rel d) \<or> dangling_edge d)"
proof (cases "topo_sort d")
  case (Inl e)
  then have "e = Workflow ''dag has a cycle''" by (auto simp: topo_sort_kahn_out split: if_splits)
  with Inl topo_sort_complete [OF assms] show ?thesis by auto
next
  case (Inr out)
  with topo_sort_sound [OF assms Inr] topo_sort_acyclic [OF assms Inr] show ?thesis by simp
qed

theorem topo_sort_decides_witness:
  "case topo_sort (dag_edge (dag_step (dag_builder ''a'') ''a'' ()) ''x'' ''a'') of
      Inr out \<Rightarrow> False | Inl e \<Rightarrow> e = Workflow ''dag has a cycle''"
proof -
  let ?d = "dag_edge (dag_step (dag_builder ''a'') ''a'' ()) ''x'' ''a''"
  have "dag_wf ?d" by (intro dag_edge_wf dag_step_wf dag_builder_wf)
  note t = topo_sort_decides [OF this]
  have "dangling_edge ?d" by (simp add: dangling_edge_def dag_edge_def dag_step_def dag_builder_def dag_keys_def)
  with t show ?thesis by (auto split: sum.splits)
qed

text \<open>
  (C14) The layers of a sorted graph are a partition of its steps that keeps the order within a
  layer, and every edge between steps goes from an earlier layer to a later one, so all the inputs
  of a layer are merged before it runs.
\<close>

theorem layers_partition:
  assumes "dag_wf d" and "topo_sort d = Inr order"
  defines "L \<equiv> layered d order"
  shows "(\<forall>s \<in> set order. \<exists>i. i < length L \<and> s \<in> set (L ! i) \<and>
      (\<forall>j < length L. s \<in> set (L ! j) \<longrightarrow> j = i) \<and>
      (\<forall>v \<in> set order. v \<in> set (succs d s) \<longrightarrow> (\<exists>k. i < k \<and> k < length L \<and> v \<in> set (L ! k)))) \<and>
    (\<forall>i < length L. L ! i = filter (\<lambda>s. s \<in> set (L ! i)) order)"
proof (rule conjI)
  note facts = layered_facts [where d = d and order = order, folded L_def]
  have mem: "s \<in> set (L ! i) \<longleftrightarrow> s \<in> set order \<and> layer_index d order s = i" if "i < length L" for s i
    using that facts(3) [OF that] by auto
  show "\<forall>s \<in> set order. \<exists>i. i < length L \<and> s \<in> set (L ! i) \<and>
      (\<forall>j < length L. s \<in> set (L ! j) \<longrightarrow> j = i) \<and>
      (\<forall>v \<in> set order. v \<in> set (succs d s) \<longrightarrow> (\<exists>k. i < k \<and> k < length L \<and> v \<in> set (L ! k)))"
  proof
    fix s assume s: "s \<in> set order"
    let ?i = "layer_index d order s"
    have "?i < length L" by (rule facts(2) [OF s])
    moreover have "s \<in> set (L ! ?i)" using mem [of ?i s] facts(2) [OF s] s by simp
    moreover have "\<forall>j < length L. s \<in> set (L ! j) \<longrightarrow> j = ?i" using mem by simp
    moreover have "\<forall>v \<in> set order. v \<in> set (succs d s) \<longrightarrow> (\<exists>k. ?i < k \<and> k < length L \<and> v \<in> set (L ! k))"
    proof (intro ballI impI)
      fix v assume v: "v \<in> set order" "v \<in> set (succs d s)"
      have "layer_index d order v < length L" by (rule facts(2) [OF v(1)])
      moreover have "v \<in> set (L ! layer_index d order v)"
        using mem [OF calculation, of v] v(1) by simp
      ultimately show "\<exists>k. ?i < k \<and> k < length L \<and> v \<in> set (L ! k)"
        using layered_edge [OF assms(1,2) s v(2)] by blast
    qed
    ultimately show "\<exists>i. i < length L \<and> s \<in> set (L ! i) \<and>
      (\<forall>j < length L. s \<in> set (L ! j) \<longrightarrow> j = i) \<and>
      (\<forall>v \<in> set order. v \<in> set (succs d s) \<longrightarrow> (\<exists>k. i < k \<and> k < length L \<and> v \<in> set (L ! k)))"
      by blast
  qed
  show "\<forall>i < length L. L ! i = filter (\<lambda>s. s \<in> set (L ! i)) order"
  proof (intro allI impI)
    fix i assume i: "i < length L"
    have "filter (\<lambda>s. s \<in> set (L ! i)) order = filter (\<lambda>s. layer_index d order s = i) order"
      by (rule filter_cong [OF refl]) (simp add: mem [OF i])
    with facts(3) [OF i] show "L ! i = filter (\<lambda>s. s \<in> set (L ! i)) order" by simp
  qed
qed

theorem layers_partition_witness:
  "layered (dag_edge (dag_step (dag_step (dag_builder ''a'') ''b'' ()) ''a'' ()) ''a'' ''b'') [''a'', ''b''] ! 1 =
     filter (\<lambda>s. s \<in> set (layered (dag_edge (dag_step (dag_step (dag_builder ''a'') ''b'' ()) ''a'' ()) ''a'' ''b'')
       [''a'', ''b''] ! 1)) [''a'', ''b'']"
proof -
  let ?d = "dag_edge (dag_step (dag_step (dag_builder ''a'') ''b'' ()) ''a'' ()) ''a'' ''b''"
  have "dag_wf ?d" by (intro dag_edge_wf dag_step_wf dag_builder_wf)
  moreover have "topo_sort ?d = Inr [''a'', ''b'']" by code_simp
  moreover have "1 < length (layered ?d [''a'', ''b''])" by code_simp
  ultimately show ?thesis using layers_partition [of ?d "[''a'', ''b'']"] by blast
qed

end
