(* ===== verification/Journal_Run.thy ===== *)
theory Journal_Run
  imports Dag
begin

text \<open>
  The event-sourced workflow runner of \<open>crates/workflow\<close>: the journal (\<open>event.rs\<close>), the steps
  (\<open>step.rs\<close>), the runner (\<open>runner.rs\<close>) and the dynamic fan-out (\<open>dispatch.rs\<close>). A run folds
  the journal into a state, skips the steps that are completed there and appends an event around
  every step it executes. The lemmas show what a journal remembers over crashes and reruns, and
  where a resumed run differs from an undisturbed one.
\<close>

subsection \<open>The journal (workflow/src/event.rs)\<close>

datatype workflow_event =
    StepStarted step_id string
  | StepCompleted step_id json
  | StepFailed step_id string
  | BranchTaken step_id step_id
  | HumanApproved step_id string
  | Terminated bool

type_synonym journal = "(string \<times> workflow_event) list"

definition journal_append :: "journal \<Rightarrow> string \<Rightarrow> workflow_event \<Rightarrow> journal" where
  "journal_append j wid e = j @ [(wid, e)]"

definition journal_replay :: "journal \<Rightarrow> string \<Rightarrow> workflow_event list" where
  "journal_replay j wid = map snd (filter (\<lambda>x. fst x = wid) j)"

lemma journal_replay_append [simp]:
  "journal_replay (journal_append j wid e) wid' =
     journal_replay j wid' @ (if wid = wid' then [e] else [])"
  by (simp add: journal_replay_def journal_append_def)

subsection \<open>Steps (workflow/src/step.rs)\<close>

text \<open>
  A callable is a function from its input to an outcome. \<open>JoinErr\<close> is a panic: inside a spawned
  task it is reported to the task's owner, in the runner's own task it unwinds the run.
\<close>

type_synonym wf_callable = "json \<Rightarrow> (agent_error, json) joined"

datatype join_strategy = JoinAll | JoinAny

datatype wf_step =
    Invoke wf_callable
  | Branch "json \<Rightarrow> bool" step_id step_id
  | Parallel "step_id list" join_strategy
  | Loop step_id "json \<Rightarrow> bool"
  | MapStep step_id u32
  | Human string json

subsection \<open>The runner's state (workflow/src/runner.rs)\<close>

record workflow_state =
  ws_completed :: "step_id set"
  ws_outputs :: "step_id \<rightharpoonup> json"
  ws_branches :: "step_id \<rightharpoonup> step_id"
  ws_terminated :: "bool option"

definition ws_default :: workflow_state where
  "ws_default =
     \<lparr>ws_completed = {}, ws_outputs = Map.empty, ws_branches = Map.empty, ws_terminated = None\<rparr>"

fun fold_event :: "workflow_state \<Rightarrow> workflow_event \<Rightarrow> workflow_state" where
  "fold_event s (StepCompleted sid out) =
     s\<lparr>ws_completed := insert sid (ws_completed s), ws_outputs := (ws_outputs s)(sid \<mapsto> out)\<rparr>"
| "fold_event s (BranchTaken sid chosen) = s\<lparr>ws_branches := (ws_branches s)(sid \<mapsto> chosen)\<rparr>"
| "fold_event s (Terminated ok) = s\<lparr>ws_terminated := Some ok\<rparr>"
| "fold_event s _ = s"

definition fold_events :: "workflow_event list \<Rightarrow> workflow_state" where
  "fold_events es = foldl fold_event ws_default es"

lemma fold_events_append [simp]: "fold_events (es @ fs) = foldl fold_event (fold_events es) fs"
  by (simp add: fold_events_def)

subsection \<open>Executing one step\<close>

fun par_spawn ::
  "wf_step dag \<Rightarrow> json \<Rightarrow> step_id list \<Rightarrow> (agent_error, json) joined list result" where
  "par_spawn d input [] = Inr []"
| "par_spawn d input (sid # sids) =
     (case map_of (dag_steps d) sid of
        None \<Rightarrow> Inl (Workflow (''parallel: unknown '' @ sid))
      | Some (Invoke c) \<Rightarrow> try_then (par_spawn d input sids) (\<lambda>hs. Inr (c input # hs))
      | Some _ \<Rightarrow> Inl (Workflow ''parallel currently supports only Invoke children''))"

fun par_collect ::
  "join_strategy \<Rightarrow> (agent_error, json) joined list \<Rightarrow> json option \<Rightarrow> json list \<Rightarrow>
   (json option \<times> json list) result" where
  "par_collect join [] first_ok outs = Inr (first_ok, outs)"
| "par_collect join (Joined (Inr v) # hs) first_ok outs =
     par_collect join hs (case first_ok of None \<Rightarrow> Some v | Some w \<Rightarrow> Some w) (outs @ [v])"
| "par_collect join (Joined (Inl e) # hs) first_ok outs =
     (case join of
        JoinAll \<Rightarrow> Inl e
      | JoinAny \<Rightarrow> par_collect join hs first_ok outs)"
| "par_collect join (JoinErr m # hs) first_ok outs = Inl (Workflow m)"

definition exec_parallel :: "wf_step dag \<Rightarrow> json \<Rightarrow> step_id list \<Rightarrow> join_strategy \<Rightarrow> json result" where
  "exec_parallel d input steps join =
     try_then (par_spawn d input steps) (\<lambda>handles.
       try_then (par_collect join handles None []) (\<lambda>(first_ok, outs).
         Inr (case join of
                JoinAll \<Rightarrow> Array outs
              | JoinAny \<Rightarrow> (case first_ok of None \<Rightarrow> Null | Some v \<Rightarrow> v))))"

fun exec_step ::
  "wf_step dag \<Rightarrow> wf_step \<Rightarrow> json \<Rightarrow> workflow_state \<Rightarrow> (agent_error, json) joined \<times> workflow_state" where
  "exec_step d (Invoke c) input s = (c input, s)"
| "exec_step d (Branch predicate if_true if_false) input s =
     (let chosen = (if predicate input then if_true else if_false)
      in (Joined (Inr (obj_of [(''branch'', String chosen)])),
          s\<lparr>ws_branches := (ws_branches s)(''__branch__'' \<mapsto> chosen)\<rparr>))"
| "exec_step d (Parallel steps join) input s = (Joined (exec_parallel d input steps join), s)"
| "exec_step d (Loop _ _) input s = (Joined (Inr input), s)"
| "exec_step d (MapStep _ _) input s = (Joined (Inr input), s)"
| "exec_step d (Human _ _) input s = (Joined (Inr input), s)"

subsection \<open>The run\<close>

definition started :: "string \<Rightarrow> step_id \<Rightarrow> workflow_event" where
  "started wid sid = StepStarted sid (wid @ ''/'' @ sid)"

text \<open>The loop over the sorted steps. On success it leaves the final state.\<close>

fun wf_steps ::
  "wf_step dag \<Rightarrow> string \<Rightarrow> step_id list \<Rightarrow> json \<Rightarrow> workflow_state \<Rightarrow> journal \<Rightarrow>
   (agent_error, workflow_state) joined \<times> journal" where
  "wf_steps d wid [] current_input s j = (Joined (Inr s), j)"
| "wf_steps d wid (sid # sids) current_input s j =
     (if sid \<in> ws_completed s then wf_steps d wid sids current_input s j
      else (let j1 = journal_append j wid (started wid sid)
            in case map_of (dag_steps d) sid of
                 None \<Rightarrow> (Joined (Inl (Workflow (''unknown step '' @ sid))), j1)
               | Some stp \<Rightarrow>
                   (case exec_step d stp current_input s of
                      (Joined (Inr out), s1) \<Rightarrow>
                        wf_steps d wid sids out
                          (s1\<lparr>ws_completed := insert sid (ws_completed s1),
                              ws_outputs := (ws_outputs s1)(sid \<mapsto> out)\<rparr>)
                          (journal_append j1 wid (StepCompleted sid out))
                    | (Joined (Inl e), _) \<Rightarrow>
                        (Joined (Inl e),
                         journal_append (journal_append j1 wid (StepFailed sid (error_text e)))
                           wid (Terminated False))
                    | (JoinErr m, _) \<Rightarrow> (JoinErr m, j1))))"

definition last_output :: "wf_step dag \<Rightarrow> workflow_state \<Rightarrow> json option" where
  "last_output d s =
     (case topo_sort d of
        Inl _ \<Rightarrow> None
      | Inr order \<Rightarrow> Option.bind (find (\<lambda>i. ws_outputs s i \<noteq> None) (rev order)) (ws_outputs s))"

definition wf_run :: "wf_step dag \<Rightarrow> string \<Rightarrow> json \<Rightarrow> journal \<Rightarrow> (agent_error, json) joined \<times> journal" where
  "wf_run d wid input j =
     (let s = fold_events (journal_replay j wid)
      in if ws_terminated s = Some True
         then (Joined (Inr (case last_output d s of None \<Rightarrow> Null | Some v \<Rightarrow> v)), j)
         else (case topo_sort d of
                 Inl e \<Rightarrow> (Joined (Inl e), j)
               | Inr order \<Rightarrow>
                   (case wf_steps d wid order input s j of
                      (Joined (Inr s'), j') \<Rightarrow>
                        (Joined (Inr (case last_output d s' of None \<Rightarrow> Null | Some v \<Rightarrow> v)),
                         journal_append j' wid (Terminated True))
                    | (Joined (Inl e), j') \<Rightarrow> (Joined (Inl e), j')
                    | (JoinErr m, j') \<Rightarrow> (JoinErr m, j'))))"

subsection \<open>Fan-out (workflow/src/dispatch.rs)\<close>

definition fan_inputs :: "json \<Rightarrow> json list" where
  "fan_inputs produced = (case produced of Array a \<Rightarrow> a | Null \<Rightarrow> [] | single \<Rightarrow> [single])"

text \<open>
  The tasks run under a semaphore of \<open>max 1 concurrency\<close> permits that is never closed: it delays
  them and does not change what they return. Each task returns its index with its value.
\<close>

definition fan_task :: "(json \<Rightarrow> (agent_error, json) joined) \<Rightarrow> nat \<times> json \<Rightarrow> (agent_error, nat \<times> json) joined" where
  "fan_task target p =
     (case target (snd p) of
        JoinErr m \<Rightarrow> JoinErr m
      | Joined (Inl e) \<Rightarrow> Joined (Inl e)
      | Joined (Inr v) \<Rightarrow> Joined (Inr (fst p, v)))"

definition dispatch_fan_out ::
  "(json \<Rightarrow> json result) \<Rightarrow> (json \<Rightarrow> (agent_error, json) joined) \<Rightarrow> json \<Rightarrow> json list result" where
  "dispatch_fan_out producer target seed =
     try_then (producer seed) (\<lambda>produced.
       try_then (await_all Internal (map (fan_task target) (enumerate 0 (fan_inputs produced)))) (\<lambda>out.
         Inr (map snd (sort_key fst out))))"

lemma await_fan_tasks:
  "await_all je (map (fan_task target) (enumerate n xs)) =
     try_then (await_all je (map target xs)) (\<lambda>vs. Inr (enumerate n vs))"
proof (induction xs arbitrary: n)
  case (Cons x xs)
  show ?case
  proof (cases "target x")
    case (Joined r)
    show ?thesis
    proof (cases r)
      case (Inr v)
      with Joined have "fan_task target (n, x) = Joined (Inr (n, v))" by (simp add: fan_task_def)
      with Joined Inr show ?thesis by (simp add: Cons try_then_assoc)
    qed (simp add: Joined fan_task_def)
  qed (simp add: fan_task_def)
qed simp

lemma dispatch_fan_out_order:
  "dispatch_fan_out producer target seed =
     try_then (producer seed) (\<lambda>produced. await_all Internal (map target (fan_inputs produced)))"
proof -
  have "sort_key fst (enumerate 0 vs) = enumerate 0 vs" for vs :: "json list"
    by (rule sort_key_id) (simp only: map_fst_enumerate sorted_upt)
  then have "try_then (await_all Internal hs) (\<lambda>vs. Inr (map snd (sort_key fst (enumerate 0 vs)))) =
      await_all Internal hs" for hs :: "(agent_error, json) joined list"
    by (cases "await_all Internal hs") simp_all
  then show ?thesis
    by (simp add: dispatch_fan_out_def await_fan_tasks try_then_assoc)
qed

subsection \<open>What the journal remembers\<close>

fun completed_id :: "workflow_event \<Rightarrow> step_id option" where
  "completed_id (StepCompleted sid _) = Some sid"
| "completed_id _ = None"

definition completed_ids :: "journal \<Rightarrow> string \<Rightarrow> step_id list" where
  "completed_ids j wid = List.map_filter completed_id (journal_replay j wid)"

lemma completed_ids_append [simp]:
  "completed_ids (journal_append j wid e) wid =
     completed_ids j wid @ (case completed_id e of None \<Rightarrow> [] | Some sid \<Rightarrow> [sid])"
  by (cases "completed_id e") (simp_all add: completed_ids_def List.map_filter_def)

lemma fold_completed: "ws_completed (fold_events (journal_replay j wid)) = set (completed_ids j wid)"
proof -
  have "ws_completed (foldl fold_event s es) = ws_completed s \<union> set (List.map_filter completed_id es)" for s es
  proof (induction es arbitrary: s)
    case (Cons e es)
    then show ?case by (cases e) (auto simp: List.map_filter_simps)
  qed (simp add: List.map_filter_simps)
  from this [of ws_default] show ?thesis by (simp add: fold_events_def completed_ids_def ws_default_def)
qed

text \<open>The running state agrees with what a later run would fold from the journal.\<close>

definition in_sync :: "string \<Rightarrow> workflow_state \<Rightarrow> journal \<Rightarrow> bool" where
  "in_sync wid s j \<longleftrightarrow>
     ws_completed s = ws_completed (fold_events (journal_replay j wid)) \<and>
     ws_outputs s = ws_outputs (fold_events (journal_replay j wid))"

lemma in_sync_completed: "in_sync wid s j \<Longrightarrow> ws_completed s = set (completed_ids j wid)"
  by (simp add: in_sync_def fold_completed)

lemma exec_step_state:
  "exec_step d stp input s = (r, s1) \<Longrightarrow> ws_completed s1 = ws_completed s \<and> ws_outputs s1 = ws_outputs s"
  by (cases stp) (auto simp: Let_def)

lemma in_sync_started: "in_sync wid s j \<Longrightarrow> in_sync wid s (journal_append j wid (started wid sid))"
  by (simp add: in_sync_def started_def)

text \<open>One induction over the loop carries all facts about it.\<close>

lemma wf_steps_facts:
  assumes "in_sync wid s j" and "distinct (completed_ids j wid)"
    and "wf_steps d wid sids input s j = (r, j')"
  shows "\<exists>es. j' = j @ map (Pair wid) es \<and> distinct (completed_ids j' wid) \<and>
    set (completed_ids j wid) \<subseteq> set (completed_ids j' wid) \<and>
    (\<forall>s'. r = Joined (Inr s') \<longrightarrow> in_sync wid s' j' \<and> set sids \<subseteq> ws_completed s' \<and>
       ws_terminated (fold_events (journal_replay j' wid)) = ws_terminated (fold_events (journal_replay j wid)))"
  using assms
proof (induction sids arbitrary: input s j)
  case Nil
  then show ?case by (auto intro!: exI [of _ "[]"])
next
  case (Cons sid sids)
  show ?case
  proof (cases "sid \<in> ws_completed s")
    case True
    with Cons.prems have run: "wf_steps d wid sids input s j = (r, j')" by simp
    from Cons.IH [OF Cons.prems(1,2) run] obtain es where es: "j' = j @ map (Pair wid) es"
      "distinct (completed_ids j' wid)" "set (completed_ids j wid) \<subseteq> set (completed_ids j' wid)"
      and ok: "\<And>s'. r = Joined (Inr s') \<Longrightarrow> in_sync wid s' j' \<and> set sids \<subseteq> ws_completed s' \<and>
       ws_terminated (fold_events (journal_replay j' wid)) = ws_terminated (fold_events (journal_replay j wid))"
      by blast
    have "sid \<in> set (completed_ids j' wid)"
      using True es(3) in_sync_completed [OF Cons.prems(1)] by auto
    then have "set (sid # sids) \<subseteq> ws_completed s'" if "r = Joined (Inr s')" for s'
      using ok [OF that] in_sync_completed by auto
    with es ok show ?thesis by (intro exI [of _ es]) blast
  next
    case False
    let ?j1 = "journal_append j wid (started wid sid)"
    have fresh: "sid \<notin> set (completed_ids j wid)"
      using False Cons.prems(1) by (simp add: in_sync_def fold_completed)
    have j1: "?j1 = j @ map (Pair wid) [started wid sid]" by (simp add: journal_append_def)
    have c1: "completed_ids ?j1 wid = completed_ids j wid" by (simp add: started_def)
    show ?thesis
    proof (cases "map_of (dag_steps d) sid")
      case None
      with Cons.prems(2,3) False j1 c1 show ?thesis
        by (intro exI [of _ "[started wid sid]"]) (auto simp: Let_def)
    next
      case (Some stp)
      obtain x s1 where exec: "exec_step d stp input s = (x, s1)" by force
      show ?thesis
      proof (cases x)
        case (JoinErr m)
        with Cons.prems(2,3) False Some exec j1 c1 show ?thesis
          by (intro exI [of _ "[started wid sid]"]) (auto simp: Let_def)
      next
        case (Joined y)
        show ?thesis
        proof (cases y)
          case (Inl e)
          with Cons.prems(2,3) False Some exec Joined have
            "r = Joined (Inl e)" "j' = journal_append (journal_append ?j1 wid (StepFailed sid (error_text e))) wid (Terminated False)"
            by (auto simp: Let_def)
          with Cons.prems(2) c1 show ?thesis
            by (intro exI [of _ "[started wid sid, StepFailed sid (error_text e), Terminated False]"])
              (simp add: journal_append_def [symmetric], simp add: journal_append_def)
        next
          case (Inr out)
          let ?s2 = "s1\<lparr>ws_completed := insert sid (ws_completed s1), ws_outputs := (ws_outputs s1)(sid \<mapsto> out)\<rparr>"
          let ?j2 = "journal_append ?j1 wid (StepCompleted sid out)"
          have run: "wf_steps d wid sids out ?s2 ?j2 = (r, j')"
            using Cons.prems(3) False Some exec Joined Inr by (simp add: Let_def)
          have sync: "in_sync wid ?s2 ?j2"
            using Cons.prems(1) exec_step_state [OF exec] by (simp add: in_sync_def started_def)
          have dist: "distinct (completed_ids ?j2 wid)" using Cons.prems(2) fresh c1 by simp
          from Cons.IH [OF sync dist run] obtain es where es: "j' = ?j2 @ map (Pair wid) es"
            "distinct (completed_ids j' wid)" "set (completed_ids ?j2 wid) \<subseteq> set (completed_ids j' wid)"
            and ok: "\<And>s'. r = Joined (Inr s') \<Longrightarrow> in_sync wid s' j' \<and> set sids \<subseteq> ws_completed s' \<and>
             ws_terminated (fold_events (journal_replay j' wid)) = ws_terminated (fold_events (journal_replay ?j2 wid))"
            by blast
          have "sid \<in> set (completed_ids j' wid)" "set (completed_ids j wid) \<subseteq> set (completed_ids j' wid)"
            using es(3) c1 by auto
          moreover have "set (sid # sids) \<subseteq> ws_completed s'" if "r = Joined (Inr s')" for s'
            using ok [OF that] in_sync_completed calculation(1) by auto
          moreover have "ws_terminated (fold_events (journal_replay ?j2 wid)) =
              ws_terminated (fold_events (journal_replay j wid))"
            by (simp add: started_def)
          moreover have "j' = j @ map (Pair wid) ([started wid sid, StepCompleted sid out] @ es)"
            by (simp add: es(1) journal_append_def)
          ultimately show ?thesis using es(2) ok by metis
        qed
      qed
    qed
  qed
qed

lemma start_in_sync: "in_sync wid (fold_events (journal_replay j wid)) j"
  by (simp add: in_sync_def)

lemma last_output_cong: "ws_outputs s = ws_outputs s' \<Longrightarrow> last_output d s = last_output d s'"
  by (simp add: last_output_def split: sum.splits)

text \<open>The possible shapes of a run.\<close>

lemma wf_run_cases:
  assumes "wf_run d wid input j = (r, j')"
  obtains (already) "ws_terminated (fold_events (journal_replay j wid)) = Some True" "j' = j"
      "r = Joined (Inr (case last_output d (fold_events (journal_replay j wid)) of None \<Rightarrow> Null | Some v \<Rightarrow> v))"
    | (unsorted) e where "topo_sort d = Inl e" "r = Joined (Inl e)" "j' = j"
    | (finished) order s' j1 where "topo_sort d = Inr order"
      "wf_steps d wid order input (fold_events (journal_replay j wid)) j = (Joined (Inr s'), j1)"
      "j' = journal_append j1 wid (Terminated True)"
      "r = Joined (Inr (case last_output d s' of None \<Rightarrow> Null | Some v \<Rightarrow> v))"
    | (stopped) order where "topo_sort d = Inr order" "\<not> (\<exists>v. r = Joined (Inr v))"
      "\<exists>r1. wf_steps d wid order input (fold_events (journal_replay j wid)) j = (r1, j')"
proof (cases "ws_terminated (fold_events (journal_replay j wid)) = Some True")
  case True
  with assms have "j' = j"
    "r = Joined (Inr (case last_output d (fold_events (journal_replay j wid)) of None \<Rightarrow> Null | Some v \<Rightarrow> v))"
    by (auto simp: wf_run_def Let_def)
  with True show ?thesis by (rule already)
next
  case False
  show ?thesis
  proof (cases "topo_sort d")
    case (Inl e)
    with False assms have "r = Joined (Inl e)" "j' = j" by (simp_all add: wf_run_def Let_def)
    with Inl show ?thesis by (rule unsorted)
  next
    case (Inr order)
    obtain r1 j1 where w: "wf_steps d wid order input (fold_events (journal_replay j wid)) j = (r1, j1)"
      by force
    show ?thesis
    proof (cases "\<exists>s'. r1 = Joined (Inr s')")
      case True
      then obtain s' where s': "r1 = Joined (Inr s')" by blast
      with assms False Inr w have "j' = journal_append j1 wid (Terminated True)"
        "r = Joined (Inr (case last_output d s' of None \<Rightarrow> Null | Some v \<Rightarrow> v))"
        by (simp_all add: wf_run_def Let_def)
      with Inr w s' show ?thesis by (intro finished [of order s' j1]) simp_all
    next
      case noval: False
      have out: "j' = j1 \<and> \<not> (\<exists>v. r = Joined (Inr v))"
      proof (cases r1)
        case (Joined x)
        with noval obtain e where "x = Inl e" by (cases x) simp_all
        with Joined assms False Inr w show ?thesis by (auto simp: wf_run_def Let_def)
      next
        case (JoinErr m)
        with assms False Inr w show ?thesis by (auto simp: wf_run_def Let_def)
      qed
      with Inr w show ?thesis by (intro stopped [of order]) simp_all
    qed
  qed
qed

lemma wf_run_journal:
  assumes "wf_run d wid input j = (r, j')" and "distinct (completed_ids j wid)"
  shows "(\<exists>es. j' = j @ map (Pair wid) es) \<and> distinct (completed_ids j' wid) \<and>
    set (completed_ids j wid) \<subseteq> set (completed_ids j' wid)"
  using assms(1)
proof (cases rule: wf_run_cases)
  case (finished order s' j1)
  from wf_steps_facts [OF start_in_sync assms(2) finished(2)] obtain es where
    "j1 = j @ map (Pair wid) es" "distinct (completed_ids j1 wid)"
    "set (completed_ids j wid) \<subseteq> set (completed_ids j1 wid)" by blast
  moreover have "completed_ids j' wid = completed_ids j1 wid" by (simp add: finished(3))
  moreover have "j' = j1 @ map (Pair wid) [Terminated True]"
    by (simp add: finished(3) journal_append_def)
  ultimately show ?thesis by (metis append.assoc map_append)
next
  case (stopped order)
  then obtain r1 where "wf_steps d wid order input (fold_events (journal_replay j wid)) j = (r1, j')" by blast
  from wf_steps_facts [OF start_in_sync assms(2) this] show ?thesis by blast
qed (use assms(2) in \<open>auto intro: exI [of _ "[]"]\<close>)

subsection \<open>Parallel steps\<close>

text \<open>What the outcomes of the children amount to under the two join strategies.\<close>

lemma par_collect_all:
  "par_collect JoinAll hs f outs =
     (case await_all Workflow hs of
        Inl e \<Rightarrow> Inl e
      | Inr vs \<Rightarrow> Inr (case f of None \<Rightarrow> (if vs = [] then None else Some (hd vs)) | Some w \<Rightarrow> Some w, outs @ vs))"
proof (induction hs arbitrary: f outs)
  case (Cons h hs)
  show ?case
  proof (cases h)
    case (Joined r)
    then show ?thesis
      by (cases r) (auto simp: Cons split: sum.splits option.splits)
  qed simp
qed (simp split: option.splits)

definition successes :: "(agent_error, json) joined list \<Rightarrow> json list" where
  "successes hs = List.map_filter (\<lambda>h. case h of Joined (Inr v) \<Rightarrow> Some v | _ \<Rightarrow> None) hs"

lemma par_collect_any:
  assumes "\<forall>m. JoinErr m \<notin> set hs"
  shows "par_collect JoinAny hs f outs =
    Inr (case f of None \<Rightarrow> (if successes hs = [] then None else Some (hd (successes hs))) | Some w \<Rightarrow> Some w,
         outs @ successes hs)"
  using assms
proof (induction hs arbitrary: f outs)
  case (Cons h hs)
  then obtain r where h: "h = Joined r" by (cases h) auto
  with Cons show ?case
    by (cases r) (auto simp: successes_def List.map_filter_simps split: option.splits)
qed (simp add: successes_def List.map_filter_simps split: option.splits)

subsection \<open>Properties\<close>

text \<open>Several attempts on one workflow id, each with its own graph and input, over one journal.\<close>

fun wf_runs :: "string \<Rightarrow> (wf_step dag \<times> json) list \<Rightarrow> journal \<Rightarrow> journal" where
  "wf_runs wid [] j = j"
| "wf_runs wid ((d, input) # as) j = wf_runs wid as (snd (wf_run d wid input j))"

text \<open>
  (C9) Completion is recorded at most once. Over any number of attempts, successful, failed or
  unwound by a panic in the middle of a step, the journal of a workflow never holds two completion
  events for one step, and an attempt only appends events of its own workflow.
\<close>

theorem steps_complete_once:
  "distinct (completed_ids (wf_runs wid as []) wid) \<and>
   (\<exists>es. wf_runs wid as [] = map (Pair wid) es)"
proof -
  have "distinct (completed_ids (wf_runs wid as j) wid) \<and> (\<exists>es. wf_runs wid as j = j @ map (Pair wid) es)"
    if "distinct (completed_ids j wid)" for j
    using that
  proof (induction as arbitrary: j)
    case (Cons a as)
    obtain d input where a: "a = (d, input)" by force
    obtain r j' where run: "wf_run d wid input j = (r, j')" by force
    from wf_run_journal [OF run Cons.prems] obtain es where es: "j' = j @ map (Pair wid) es"
      and dist: "distinct (completed_ids j' wid)" by blast
    from Cons.IH [OF dist] obtain fs where "distinct (completed_ids (wf_runs wid as j') wid)"
      "wf_runs wid as j' = j' @ map (Pair wid) fs" by blast
    with a run es show ?case by (auto intro: exI [of _ "es @ fs"])
  qed (auto intro: exI [of _ "[]"])
  from this [of "[]"] show ?thesis by (simp add: completed_ids_def journal_replay_def List.map_filter_simps)
qed

text \<open>
  A finished workflow is idempotent: once a run has returned a value, every later run of the
  same workflow returns that value whatever its input, executes no step and leaves the journal as
  it is.
\<close>

theorem finished_run_is_idempotent:
  assumes "wf_run d wid input j = (Joined (Inr v), j')" and "distinct (completed_ids j wid)"
  shows "wf_run d wid input' j' = (Joined (Inr v), j')"
  using assms(1)
proof (cases rule: wf_run_cases)
  case already
  then show ?thesis by (simp add: wf_run_def Let_def)
next
  case (finished order s' j1)
  from wf_steps_facts [OF start_in_sync assms(2) finished(2)] have "in_sync wid s' j1" by blast
  then have "ws_outputs s' = ws_outputs (fold_events (journal_replay j' wid))"
    by (simp add: in_sync_def finished(3))
  then have "last_output d (fold_events (journal_replay j' wid)) = last_output d s'"
    by (intro last_output_cong) simp
  moreover have "ws_terminated (fold_events (journal_replay j' wid)) = Some True"
    by (simp add: finished(3))
  ultimately show ?thesis using finished(4) by (simp add: wf_run_def Let_def)
qed auto

definition chain_dag :: "wf_callable \<Rightarrow> wf_callable \<Rightarrow> wf_step dag" where
  "chain_dag f g =
     dag_edge (dag_step (dag_step (dag_builder ''a'') ''b'' (Invoke g)) ''a'' (Invoke f)) ''a'' ''b''"

lemma chain_order: "topo_sort (chain_dag f g) = Inr [''a'', ''b'']"
  by code_simp

lemma chain_steps:
  "map_of (dag_steps (chain_dag f g)) ''a'' = Some (Invoke f)"
  "map_of (dag_steps (chain_dag f g)) ''b'' = Some (Invoke g)"
  by (simp_all add: chain_dag_def dag_edge_def dag_step_def dag_builder_def)

theorem finished_run_is_idempotent_witness:
  "let d = chain_dag (\<lambda>v. Joined (Inr (Array [v]))) (\<lambda>v. Joined (Inr (Array [v, v])))
   in wf_run d ''w'' Null (snd (wf_run d ''w'' (Bool True) [])) =
      (Joined (Inr (Array [Array [Bool True], Array [Bool True]])), snd (wf_run d ''w'' (Bool True) []))"
  unfolding Let_def
  by (rule finished_run_is_idempotent [where input = "Bool True" and j = "[]"])
     (simp_all add: wf_run_def chain_order chain_steps fold_events_def journal_replay_def journal_append_def
       ws_default_def started_def last_output_def Let_def completed_ids_def List.map_filter_simps)

text \<open>
  Every declared step runs: when a run returns a value and the journal did not say before that
  the workflow is done, every step of the graph is completed in the journal afterwards. In
  particular a \<open>Branch\<close> step does not route: the target it did not choose is executed as well,
  against the comment that it goes to one of two next steps.
\<close>

theorem successful_run_completes_every_step:
  assumes "wf_run d wid input j = (Joined (Inr v), j')" and "dag_wf d"
    and "distinct (completed_ids j wid)"
    and "ws_terminated (fold_events (journal_replay j wid)) \<noteq> Some True"
  shows "set (dag_keys d) \<subseteq> set (completed_ids j' wid) \<and> Terminated True \<in> set (journal_replay j' wid)"
  using assms(1)
proof (cases rule: wf_run_cases)
  case (finished order s' j1)
  from wf_steps_facts [OF start_in_sync assms(3) finished(2)]
  have "in_sync wid s' j1" "set order \<subseteq> ws_completed s'" by blast+
  moreover have "set order = set (dag_keys d)" by (rule topo_sort_sound(2) [OF assms(2) finished(1)])
  ultimately show ?thesis using in_sync_completed by (simp add: finished(3))
qed (use assms(4) in auto)

definition branch_dag :: "(json \<Rightarrow> bool) \<Rightarrow> wf_step dag" where
  "branch_dag p =
     dag_edge (dag_edge (dag_step (dag_step (dag_step (dag_builder ''a'')
       ''a'' (Branch p ''b'' ''c'')) ''b'' (Invoke (\<lambda>v. Joined (Inr v)))) ''c'' (Invoke (\<lambda>v. Joined (Inr v))))
       ''a'' ''b'') ''a'' ''c''"

theorem successful_run_completes_every_step_witness:
  "let d = branch_dag (\<lambda>_. True); j' = snd (wf_run d ''w'' Null [])
   in set (dag_keys d) \<subseteq> set (completed_ids j' ''w'') \<and> Terminated True \<in> set (journal_replay j' ''w'')"
proof -
  let ?d = "branch_dag (\<lambda>_. True)" and ?v = "obj_of [(''branch'', String ''b'')]"
  have wf: "dag_wf ?d" unfolding branch_dag_def by (intro dag_edge_wf dag_step_wf dag_builder_wf)
  have order: "topo_sort ?d = Inr [''a'', ''c'', ''b'']" by code_simp
  have "fst (wf_run ?d ''w'' Null []) = Joined (Inr ?v)" by code_simp
  then have run: "wf_run ?d ''w'' Null [] = (Joined (Inr ?v), snd (wf_run ?d ''w'' Null []))"
    by (simp add: prod_eq_iff)
  show ?thesis
    unfolding Let_def
    by (rule successful_run_completes_every_step [OF run wf])
       (simp_all add: completed_ids_def journal_replay_def List.map_filter_simps fold_events_def ws_default_def)
qed

text \<open>
  Resuming does not restore the data flow. In the two-step chain where \<open>b\<close> consumes the
  output of \<open>a\<close>, an undisturbed run calls \<open>b\<close> on the output of \<open>a\<close>; when the first attempt is
  unwound by a panic in \<open>b\<close>, the next run skips \<open>a\<close> and calls \<open>b\<close> on the workflow's own
  input.
\<close>

theorem resume_feeds_workflow_input:
  assumes "f input = Joined (Inr v)" and "boom v = JoinErr m"
  shows "fst (wf_run (chain_dag f g) wid input (snd (wf_run (chain_dag f boom) wid input []))) = g input \<and>
    fst (wf_run (chain_dag f g) wid input []) = g v"
proof -
  let ?j = "[(wid, started wid ''a''), (wid, StepCompleted ''a'' v), (wid, started wid ''b'')]"
  let ?s = "ws_default\<lparr>ws_completed := {''a''}, ws_outputs := [''a'' \<mapsto> v]\<rparr>"
  have first: "snd (wf_run (chain_dag f boom) wid input []) = ?j"
    using assms
    by (simp add: wf_run_def chain_order chain_steps fold_events_def journal_replay_def journal_append_def
        ws_default_def Let_def)
  have fold: "fold_events (journal_replay ?j wid) = ?s"
    by (simp add: fold_events_def journal_replay_def ws_default_def started_def)
  have out: "fst (wf_run (chain_dag f g) wid input ?j) = g input"
    unfolding wf_run_def fold
    by (cases "g input" rule: joined.exhaust)
       (auto simp: chain_order chain_steps ws_default_def last_output_def Let_def split: sum.splits)
  have fresh: "fst (wf_run (chain_dag f g) wid input []) = g v"
    using assms(1)
    by (cases "g v" rule: joined.exhaust)
       (auto simp: wf_run_def chain_order chain_steps fold_events_def journal_replay_def journal_append_def
         ws_default_def last_output_def Let_def split: sum.splits)
  show ?thesis using out fresh unfolding first by blast
qed

theorem resume_feeds_workflow_input_witness:
  "let double = (\<lambda>v. Joined (Inr (Array [v, v]))); boom = (\<lambda>_. JoinErr ''panicked'')
   in fst (wf_run (chain_dag double double) ''w'' Null (snd (wf_run (chain_dag double boom) ''w'' Null []))) =
        Joined (Inr (Array [Null, Null])) \<and>
      fst (wf_run (chain_dag double double) ''w'' Null []) =
        Joined (Inr (Array [Array [Null, Null], Array [Null, Null]]))"
  unfolding Let_def by (rule resume_feeds_workflow_input) simp_all

text \<open>
  What a parallel step returns when its children are all \<open>Invoke\<close> steps and none panics:
  under \<open>All\<close> the outputs in the order the children are listed, or the error of the first listed
  child that failed; under \<open>Any\<close> the output of the first listed child that succeeded, and \<open>Null\<close>
  as a success when every child failed.
\<close>

theorem parallel_step_result:
  assumes "\<forall>sid\<in>set steps. map_of (dag_steps d) sid = Some (Invoke (call sid))"
    and "\<forall>sid\<in>set steps. \<exists>r. call sid input = Joined r"
  shows "exec_parallel d input steps JoinAll =
      try_then (await_all Workflow (map (\<lambda>sid. call sid input) steps)) (\<lambda>vs. Inr (Array vs)) \<and>
    exec_parallel d input steps JoinAny =
      Inr (case successes (map (\<lambda>sid. call sid input) steps) of [] \<Rightarrow> Null | v # _ \<Rightarrow> v)"
proof -
  let ?hs = "map (\<lambda>sid. call sid input) steps"
  have spawn: "par_spawn d input steps = Inr ?hs"
    using assms(1) by (induction steps) auto
  have "\<forall>m. JoinErr m \<notin> set ?hs" using assms(2) by force
  from par_collect_any [OF this, of None "[]"] spawn
  have "exec_parallel d input steps JoinAny =
      Inr (case successes ?hs of [] \<Rightarrow> Null | v # _ \<Rightarrow> v)"
    by (simp add: exec_parallel_def split: list.splits)
  moreover have "exec_parallel d input steps JoinAll =
      try_then (await_all Workflow ?hs) (\<lambda>vs. Inr (Array vs))"
    by (simp add: exec_parallel_def spawn par_collect_all split: sum.splits)
  ultimately show ?thesis by blast
qed

theorem parallel_step_result_witness:
  "exec_parallel (chain_dag (\<lambda>_. Joined (Inl (Tool ''down''))) (\<lambda>v. Joined (Inl (Tool ''off'')))) Null
     [''a'', ''b''] JoinAny = Inr Null"
  using parallel_step_result [of "[''a'', ''b'']"
      "chain_dag (\<lambda>_. Joined (Inl (Tool ''down''))) (\<lambda>v. Joined (Inl (Tool ''off'')))"
      "\<lambda>sid v. if sid = ''a'' then Joined (Inl (Tool ''down'')) else Joined (Inl (Tool ''off''))" Null]
  by (simp add: chain_steps successes_def List.map_filter_simps)

text \<open>
  Fan-out keeps the order and is all or nothing: the outputs stand in the order of the produced
  inputs, a single produced value counts as one input and \<open>Null\<close> as none, and the first input, in
  that order, whose task failed or panicked decides the error.
\<close>

theorem fan_out_in_order:
  "dispatch_fan_out producer target seed =
     try_then (producer seed) (\<lambda>produced. await_all Internal (map target (fan_inputs produced)))"
  by (rule dispatch_fan_out_order)

end
