(* ===== verification/Stateful_Run.thy ===== *)
theory Stateful_Run
  imports Checkpoint Dag
begin

text \<open>
  The stateful runner (\<open>crates/workflow/src/state_runner.rs\<close>) and the subgraph built on it
  (\<open>subgraph.rs\<close>). The runner executes the layers of a graph, merges the writes of a layer
  through the channel reducers and saves a checkpoint after every layer; a new run of the same
  workflow resumes from the latest checkpoint. The runner uses a checkpoint store only through the
  locale \<open>checkpoint_store\<close>; there it is shown that crashed and failed attempts followed by a
  last complete one compute what a single undisturbed pass over the layers computes.
\<close>

subsection \<open>The runner (workflow/src/state_runner.rs)\<close>

text \<open>
  A step reads the state and returns writes. It runs as a spawned task, so its outcome is a
  result or a join error. Steps are deterministic functions of the state they read.
\<close>

type_synonym stateful_step = "run_state \<Rightarrow> (agent_error, writes) joined"
type_synonym state_dag = "stateful_step dag"

text \<open>Spawning a layer: an unknown step id ends the run before any handle is awaited.\<close>

fun spawn_layer ::
  "state_dag \<Rightarrow> run_state \<Rightarrow> step_id list \<Rightarrow> (agent_error, writes) joined list result" where
  "spawn_layer d st [] = Inr []"
| "spawn_layer d st (sid # sids) =
     (case map_of (dag_steps d) sid of
        None \<Rightarrow> Inl (Workflow (''missing step '' @ sid))
      | Some f \<Rightarrow> try_then (spawn_layer d st sids) (\<lambda>hs. Inr (f st # hs)))"

definition run_layer :: "state_dag \<Rightarrow> run_state \<Rightarrow> step_id list \<Rightarrow> run_state result" where
  "run_layer d st layer =
     try_then (spawn_layer d st layer) (\<lambda>handles.
       try_then (await_all Internal handles) (\<lambda>ws.
         case merge_writes st (concat ws) of
           (Inl e, _) \<Rightarrow> Inl e
         | (Inr _, st') \<Rightarrow> Inr (rs_advance st')))"

definition layer_snapshot :: "string \<Rightarrow> string \<Rightarrow> nat \<Rightarrow> run_state \<Rightarrow> int \<Rightarrow> snapshot" where
  "layer_snapshot wid run n st now =
     \<lparr>sn_key = \<lparr>workflow_id = wid, run_id = run, super_step = n\<rparr>,
      sn_values = rs_values st, sn_label = ''layer:'' @ show_nat n,
      sn_timestamp_ms = now\<rparr>"

lemma layer_snapshot_simps [simp]:
  "sn_key (layer_snapshot wid run n st now) = \<lparr>workflow_id = wid, run_id = run, super_step = n\<rparr>"
  "sn_values (layer_snapshot wid run n st now) = rs_values st"
  by (simp_all add: layer_snapshot_def)

text \<open>
  The loop over the layers. The set \<open>completed\<close> of the source is written and never read; it is
  left out. \<open>now\<close> gives the clock reading when a super-step is saved.
\<close>

fun run_layers ::
  "('c \<Rightarrow> snapshot \<Rightarrow> unit result \<times> 'c) \<Rightarrow> string \<Rightarrow> string \<Rightarrow> state_dag \<Rightarrow> (nat \<Rightarrow> int) \<Rightarrow> nat \<Rightarrow>
   step_id list list \<Rightarrow> nat \<Rightarrow> run_state \<Rightarrow> 'c \<Rightarrow> run_state result \<times> 'c" where
  "run_layers save wid run d now resume_at [] layer_idx st c = (Inr st, c)"
| "run_layers save wid run d now resume_at (layer # layers) layer_idx st c =
     (let n = layer_idx + 1
      in if n \<le> resume_at
         then run_layers save wid run d now resume_at layers (layer_idx + 1) st c
         else (case run_layer d st layer of
                 Inl e \<Rightarrow> (Inl e, c)
               | Inr st' \<Rightarrow>
                   (case save c (layer_snapshot wid run n st' (now n)) of
                      (Inl e, c') \<Rightarrow> (Inl e, c')
                    | (Inr _, c') \<Rightarrow>
                        run_layers save wid run d now resume_at layers (layer_idx + 1) st' c')))"

definition start_state :: "state_schema \<Rightarrow> snapshot option \<Rightarrow> run_state" where
  "start_state sch s =
     (case s of
        Some snap \<Rightarrow> from_snapshot sch (sn_values snap) (snap_step snap)
      | None \<Rightarrow> run_state_new sch)"

definition stateful_run ::
  "('c \<Rightarrow> snapshot \<Rightarrow> unit result \<times> 'c) \<Rightarrow> ('c \<Rightarrow> string \<Rightarrow> string \<Rightarrow> snapshot option result) \<Rightarrow>
   string \<Rightarrow> string \<Rightarrow> state_dag \<Rightarrow> state_schema \<Rightarrow> (nat \<Rightarrow> int) \<Rightarrow> 'c \<Rightarrow> run_state result \<times> 'c" where
  "stateful_run save latest wid run d sch now c =
     (case latest c wid run of
        Inl e \<Rightarrow> (Inl e, c)
      | Inr s \<Rightarrow>
          (let st = start_state sch s
           in case topo_sort d of
                Inl e \<Rightarrow> (Inl e, c)
              | Inr order \<Rightarrow>
                  run_layers save wid run d now (rs_super_step st) (layered d order) 0 st c))"

subsection \<open>Subgraphs (workflow/src/subgraph.rs)\<close>

record subgraph =
  sg_workflow_id :: string
  sg_run_id :: string
  sg_dag :: state_dag
  sg_schema :: state_schema
  sg_input_channels :: "string list"
  sg_output_channels :: "string list"

fun project_inputs :: "(string \<times> json) list \<Rightarrow> string list \<Rightarrow> writes" where
  "project_inputs obj [] = []"
| "project_inputs obj (k # ks) =
     (case map_of obj k of
        None \<Rightarrow> project_inputs obj ks
      | Some v \<Rightarrow> (k, v) # project_inputs obj ks)"

definition seed_snapshot :: "string \<Rightarrow> string \<Rightarrow> run_state \<Rightarrow> int \<Rightarrow> snapshot" where
  "seed_snapshot wid run st now =
     \<lparr>sn_key = \<lparr>workflow_id = wid, run_id = run, super_step = 0\<rparr>,
      sn_values = rs_values st, sn_label = ''subgraph-seed'', sn_timestamp_ms = now\<rparr>"

text \<open>
  The result object has the projected outputs and the child's full state; the pair keeps the two
  apart. \<open>show_json\<close> is the \<open>Display\<close> of a value, used in the error text only.
\<close>

definition subgraph_result :: "string list \<Rightarrow> run_state \<Rightarrow> (string \<times> json) list \<times> valuation" where
  "subgraph_result outs st =
     (obj_insert_all (map (\<lambda>k. (k, rs_read st k)) outs) [], rs_values st)"

definition subgraph_call ::
  "('c \<Rightarrow> snapshot \<Rightarrow> unit result \<times> 'c) \<Rightarrow> ('c \<Rightarrow> string \<Rightarrow> string \<Rightarrow> snapshot option result) \<Rightarrow>
   (json \<Rightarrow> string) \<Rightarrow> subgraph \<Rightarrow> int \<Rightarrow> (nat \<Rightarrow> int) \<Rightarrow> json \<Rightarrow> 'c \<Rightarrow>
   ((string \<times> json) list \<times> valuation) result \<times> 'c" where
  "subgraph_call save latest show_json sg seed_now now input c =
     (case input of
        Object m \<Rightarrow>
          (case merge_writes (run_state_new (sg_schema sg)) (project_inputs m (sg_input_channels sg)) of
             (Inl e, _) \<Rightarrow> (Inl e, c)
           | (Inr _, child) \<Rightarrow>
               (case save c (seed_snapshot (sg_workflow_id sg) (sg_run_id sg) child seed_now) of
                  (Inl e, c') \<Rightarrow> (Inl e, c')
                | (Inr _, c') \<Rightarrow>
                    (case stateful_run save latest (sg_workflow_id sg) (sg_run_id sg) (sg_dag sg)
                            (sg_schema sg) now c' of
                       (Inl e, c'') \<Rightarrow> (Inl e, c'')
                     | (Inr st, c'') \<Rightarrow> (Inr (subgraph_result (sg_output_channels sg) st), c''))))
      | other \<Rightarrow>
          (Inl (Workflow (''subgraph: expected object input, got '' @ show_json other)), c))"

subsection \<open>The specification: one undisturbed pass over the layers\<close>

fun ideal_run :: "state_dag \<Rightarrow> run_state \<Rightarrow> step_id list list \<Rightarrow> run_state result" where
  "ideal_run d st [] = Inr st"
| "ideal_run d st (layer # layers) = try_then (run_layer d st layer) (\<lambda>st'. ideal_run d st' layers)"

lemma ideal_run_append:
  "ideal_run d st (xs @ ys) = try_then (ideal_run d st xs) (\<lambda>st'. ideal_run d st' ys)"
  by (induction d st xs rule: ideal_run.induct) (simp_all add: try_then_assoc)

lemma run_layer_Inr:
  "run_layer d st layer = Inr st' \<Longrightarrow>
   rs_schema st' = rs_schema st \<and> rs_super_step st' = Suc (rs_super_step st)"
proof -
  assume "run_layer d st layer = Inr st'"
  then obtain ws where w: "(case merge_writes st (concat ws) of
      (Inl e, _) \<Rightarrow> Inl e | (Inr _, m) \<Rightarrow> Inr (rs_advance m)) = Inr st'"
    unfolding run_layer_def try_then_eq_Inr by blast
  obtain r m where m: "merge_writes st (concat ws) = (r, m)" by force
  with w have "st' = rs_advance m" by (cases r) simp_all
  then show ?thesis
    using merge_writes_schema [of st "concat ws"] merge_writes_super_step [of st "concat ws"] m
    by (simp add: rs_advance_def)
qed

lemma ideal_run_Inr:
  "ideal_run d st layers = Inr st' \<Longrightarrow>
   rs_schema st' = rs_schema st \<and> rs_super_step st' = rs_super_step st + length layers"
  by (induction d st layers arbitrary: st' rule: ideal_run.induct)
     (auto simp: try_then_eq_Inr dest: run_layer_Inr)

text \<open>
  An attempt may use a flaky version of the graph: same steps and edges, but a step may fail or
  panic where the real one succeeds. What it returns when it succeeds is the real result.
\<close>

definition flaky :: "state_dag \<Rightarrow> state_dag \<Rightarrow> bool" where
  "flaky d' d \<longleftrightarrow>
     dag_keys d' = dag_keys d \<and> dag_edges d' = dag_edges d \<and>
     (\<forall>sid f f' st ws. map_of (dag_steps d) sid = Some f \<and> map_of (dag_steps d') sid = Some f' \<and>
        f' st = Joined (Inr ws) \<longrightarrow> f st = Joined (Inr ws))"

lemma flaky_refl: "flaky d d"
  unfolding flaky_def by (metis option.inject)

lemma flaky_known:
  assumes "flaky d' d"
  shows "map_of (dag_steps d') sid = None \<longleftrightarrow> map_of (dag_steps d) sid = None"
proof -
  have "fst ` set (dag_steps d') = fst ` set (dag_steps d)"
    using assms by (metis flaky_def dag_keys_def set_map)
  then show ?thesis by (simp add: map_of_eq_None_iff)
qed

lemma flaky_order:
  assumes "flaky d' d"
  shows "topo_sort d' = topo_sort d" and "layered d' order = layered d order"
proof -
  have succs: "succs d' = succs d" using assms by (simp add: flaky_def succs_def fun_eq_iff)
  have len: "length (dag_steps d') = length (dag_steps d)"
    using assms by (metis flaky_def dag_keys_def length_map)
  have kahn: "kahn d' ind q out = kahn d ind q out" for ind q out
    using succs
  proof (induction d' ind q out rule: kahn.induct)
    case (1 d' ind q out)
    then show ?case by (subst (1 2) kahn.simps) (auto simp: Let_def split: prod.splits)
  qed
  with assms len show "topo_sort d' = topo_sort d"
    by (simp add: topo_sort_def indegrees_of_def flaky_def)
  have "compute_depths d' ss dep = compute_depths d ss dep" for ss dep
    using succs by (induction d' ss dep rule: compute_depths.induct) simp_all
  then show "layered d' order = layered d order" by (simp add: layered_def)
qed

lemma flaky_spawn:
  assumes "flaky d' d" and "spawn_layer d' st layer = Inr hs" and "await_all Internal hs = Inr ws"
  shows "spawn_layer d st layer = Inr hs"
  using assms(2,3)
proof (induction layer arbitrary: hs ws)
  case (Cons sid layer)
  from Cons.prems(1) obtain f' hs' where f': "map_of (dag_steps d') sid = Some f'"
    and hs': "spawn_layer d' st layer = Inr hs'" and hs: "hs = f' st # hs'"
    by (auto simp: try_then_eq_Inr split: option.splits)
  from Cons.prems(2) obtain w ws' where w: "f' st = Joined (Inr w)" and ws': "await_all Internal hs' = Inr ws'"
    by (auto simp: hs await_all_Inr Cons_eq_map_conv)
  from f' flaky_known [OF assms(1), of sid] obtain f where f: "map_of (dag_steps d) sid = Some f"
    by (cases "map_of (dag_steps d) sid") simp_all
  with assms(1) f' w have "f st = Joined (Inr w)" unfolding flaky_def by blast
  with Cons.IH [OF hs' ws'] f hs w show ?case by simp
qed simp

lemma flaky_run_layer:
  assumes "flaky d' d" and "run_layer d' st layer = Inr st'"
  shows "run_layer d st layer = Inr st'"
proof -
  from assms(2) obtain hs ws where hs: "spawn_layer d' st layer = Inr hs"
    and ws: "await_all Internal hs = Inr ws"
    by (auto simp: run_layer_def try_then_eq_Inr)
  from flaky_spawn [OF assms(1) hs ws] assms(2) hs show ?thesis by (simp add: run_layer_def)
qed

text \<open>A run whose process dies after at most \<open>k\<close> layers leaves this store behind.\<close>

definition crashed_run ::
  "('c \<Rightarrow> snapshot \<Rightarrow> unit result \<times> 'c) \<Rightarrow> ('c \<Rightarrow> string \<Rightarrow> string \<Rightarrow> snapshot option result) \<Rightarrow>
   string \<Rightarrow> string \<Rightarrow> state_dag \<Rightarrow> state_schema \<Rightarrow> (nat \<Rightarrow> int) \<Rightarrow> nat \<Rightarrow> 'c \<Rightarrow> 'c" where
  "crashed_run save latest wid run d sch now k c =
     (case latest c wid run of
        Inl e \<Rightarrow> c
      | Inr s \<Rightarrow>
          (case topo_sort d of
             Inl e \<Rightarrow> c
           | Inr order \<Rightarrow>
               snd (run_layers save wid run d now (rs_super_step (start_state sch s))
                      (take k (layered d order)) 0 (start_state sch s) c)))"

fun crashed_runs ::
  "('c \<Rightarrow> snapshot \<Rightarrow> unit result \<times> 'c) \<Rightarrow> ('c \<Rightarrow> string \<Rightarrow> string \<Rightarrow> snapshot option result) \<Rightarrow>
   string \<Rightarrow> string \<Rightarrow> state_schema \<Rightarrow> (state_dag \<times> (nat \<Rightarrow> int) \<times> nat) list \<Rightarrow> 'c \<Rightarrow> 'c" where
  "crashed_runs save latest wid run sch [] c = c"
| "crashed_runs save latest wid run sch ((d, now, k) # as) c =
     crashed_runs save latest wid run sch as (crashed_run save latest wid run d sch now k c)"

text \<open>A start is the initial state or the seed a caller has stored as super-step 0.\<close>

definition at_layer ::
  "state_dag \<Rightarrow> run_state \<Rightarrow> step_id list list \<Rightarrow> nat \<Rightarrow> snapshot option \<Rightarrow> bool" where
  "at_layer d init layers m s \<longleftrightarrow>
     m \<le> length layers \<and> ideal_run d init (take m layers) = Inr (start_state (rs_schema init) s) \<and>
     rs_super_step (start_state (rs_schema init) s) = m"

text \<open>A store that holds the last finished layer of the run, and how far it got.\<close>

definition ready ::
  "('c \<Rightarrow> snapshot list \<Rightarrow> bool) \<Rightarrow> string \<Rightarrow> string \<Rightarrow> state_dag \<Rightarrow> run_state \<Rightarrow> step_id list \<Rightarrow> 'c \<Rightarrow> bool" where
  "ready refines wid run d init order c \<longleftrightarrow>
     (\<exists>h m. refines c h \<and> at_layer d init (layered d order) m (latest_spec h wid run) \<and>
        (\<forall>t. latest_spec h wid run = Some t \<longrightarrow> snap_step t = m))"

lemma seed_snapshot_simps [simp]:
  "sn_key (seed_snapshot wid run st now) = \<lparr>workflow_id = wid, run_id = run, super_step = 0\<rparr>"
  "sn_values (seed_snapshot wid run st now) = rs_values st"
  by (simp_all add: seed_snapshot_def)

lemma run_layers_skip:
  "idx + length layers \<le> resume_at \<Longrightarrow>
   run_layers save wid run d now resume_at layers idx st c = (Inr st, c)"
  by (induction layers arbitrary: idx) (simp_all add: Let_def)

lemma run_layers_drop:
  "idx \<le> resume_at \<Longrightarrow>
   run_layers save wid run d now resume_at layers idx st c =
   run_layers save wid run d now resume_at (drop (resume_at - idx) layers) (max resume_at idx) st c"
proof (induction layers arbitrary: idx)
  case (Cons layer layers)
  show ?case
  proof (cases "idx = resume_at")
    case False
    with Cons.prems have "Suc idx \<le> resume_at" by simp
    with Cons.IH [of "Suc idx"] show ?thesis
      by (simp add: Let_def max_def Suc_diff_le drop_Cons' split: if_splits)
  qed simp
qed simp

text \<open>Every checkpoint an undisturbed run takes fits into the store.\<close>

definition layers_storable ::
  "(snapshot \<Rightarrow> bool) \<Rightarrow> string \<Rightarrow> string \<Rightarrow> state_dag \<Rightarrow> run_state \<Rightarrow> step_id list list \<Rightarrow> bool" where
  "layers_storable storable wid run d init layers \<longleftrightarrow>
     (\<forall>k s t. k \<le> length layers \<and> ideal_run d init (take k layers) = Inr s \<longrightarrow>
        storable (layer_snapshot wid run k s t))"

lemma layers_storableD:
  "layers_storable storable wid run d init layers \<Longrightarrow> k \<le> length layers \<Longrightarrow>
   ideal_run d init (take k layers) = Inr s \<Longrightarrow> storable (layer_snapshot wid run k s t)"
  unfolding layers_storable_def by blast

lemma next_layer:
  assumes "drop m all = layer # todo" and "ideal_run d init (take m all) = Inr st"
    and "run_layer d st layer = Inr st'"
  shows "m < length all" and "drop (Suc m) all = todo"
    and "ideal_run d init (take (Suc m) all) = Inr st'"
proof -
  show m: "m < length all" using assms(1) by (metis drop_eq_Nil leI list.distinct(1))
  have nth: "all ! m = layer" and "drop (Suc m) all = todo"
    using assms(1) m by (metis Cons_nth_drop_Suc list.inject)+
  then show "drop (Suc m) all = todo" by simp
  show "ideal_run d init (take (Suc m) all) = Inr st'"
    using assms(2,3) m by (simp add: take_Suc_conv_app_nth ideal_run_append nth)
qed

context checkpoint_store
begin

text \<open>Executing layers from a known point: the store always holds the last finished layer.\<close>

lemma run_layers_progress:
  assumes "refines c h" and "flaky d' d"
    and "ideal_run d init (take m all) = Inr st" and "rs_super_step st = m"
    and "start_state (rs_schema init) (latest_spec h wid run) = st"
    and "\<And>t. latest_spec h wid run = Some t \<Longrightarrow> snap_step t = m"
    and "drop m all = todo @ rest" and "m \<le> length all"
    and "layers_storable storable wid run d init all"
  shows "\<exists>h' m'. refines (snd (run_layers cp_save wid run d' now m todo m st c)) h' \<and>
    at_layer d init all m' (latest_spec h' wid run) \<and>
    (\<forall>t. latest_spec h' wid run = Some t \<longrightarrow> snap_step t = m')"
  using assms
proof (induction todo arbitrary: c h m st rest)
  case Nil
  then show ?case by (auto simp: at_layer_def intro!: exI [of _ h] exI [of _ m])
next
  case (Cons layer todo)
  let ?snap = "\<lambda>st'. layer_snapshot wid run (Suc m) st' (now (Suc m))"
  have here: "at_layer d init all m (latest_spec h wid run)"
    using Cons.prems by (simp add: at_layer_def)
  show ?case
  proof (cases "run_layer d' st layer")
    case (Inl e)
    with Cons.prems(1,6) here show ?thesis by (auto simp: Let_def intro!: exI [of _ h] exI [of _ m])
  next
    case (Inr st')
    note run = flaky_run_layer [OF Cons.prems(2) Inr]
    have "drop m all = layer # (todo @ rest)" using Cons.prems(7) by simp
    from next_layer [OF this Cons.prems(3) run]
    have m: "m < length all" and nth: "drop (Suc m) all = todo @ rest"
      and ideal: "ideal_run d init (take (Suc m) all) = Inr st'" .
    have st': "rs_schema st' = rs_schema init" "rs_super_step st' = Suc m"
      using run_layer_Inr [OF run] ideal_run_Inr [OF Cons.prems(3)] Cons.prems(4) by auto
    have stb: "storable (?snap st')" using m ideal by (intro layers_storableD [OF Cons.prems(9)]) simp
    let ?c = "snd (cp_save c (?snap st'))" and ?h = "h @ [?snap st']"
    have stored: "refines ?c ?h" using save_refines [OF Cons.prems(1) stb] .
    have ofrun: "of_run wid run (?snap st')" by (simp add: of_run_def)
    have lat: "latest_spec ?h wid run = Some (?snap st')"
      using Cons.prems(6) ofrun
      by (auto simp: latest_spec_save split: option.splits)
    have again: "start_state (rs_schema init) (Some (?snap st')) = st'"
      using st' by (simp add: start_state_def from_snapshot_def)
    have step: "run_layers cp_save wid run d' now m (layer # todo) m st c =
        run_layers cp_save wid run d' now m todo (Suc m) st' ?c"
      using Inr save_ok [OF Cons.prems(1) stb] by (cases "cp_save c (?snap st')") (simp add: Let_def)
    have shift: "run_layers cp_save wid run d' now m todo (Suc m) st' ?c =
        run_layers cp_save wid run d' now (Suc m) todo (Suc m) st' ?c"
    proof -
      have "run_layers cp_save wid run d' now a todo n s x = run_layers cp_save wid run d' now b todo n s x"
        if "a \<le> n" "b \<le> n" for a b n s x
        using that by (induction todo arbitrary: n s x) (auto simp: Let_def split: sum.splits prod.splits)
      then show ?thesis by simp
    qed
    have "\<exists>h' m'. refines (snd (run_layers cp_save wid run d' now (Suc m) todo (Suc m) st' ?c)) h' \<and>
      at_layer d init all m' (latest_spec h' wid run) \<and>
      (\<forall>t. latest_spec h' wid run = Some t \<longrightarrow> snap_step t = m')"
      using lat again m st'
      by (intro Cons.IH [OF stored Cons.prems(2) ideal _ _ _ nth _ Cons.prems(9)])
        auto
    then show ?thesis unfolding step shift by simp
  qed
qed

text \<open>Executing from a resume point without faults computes the ideal result.\<close>

lemma run_layers_result:
  assumes "refines c h" and "resume_at \<le> m"
    and "drop m all = todo" and "ideal_run d init (take m all) = Inr st"
    and "layers_storable storable wid run d init all"
  shows "fst (run_layers cp_save wid run d now resume_at todo m st c) = ideal_run d st todo"
  using assms
proof (induction todo arbitrary: c h m st)
  case (Cons layer todo)
  show ?case
  proof (cases "run_layer d st layer")
    case (Inr st')
    let ?snap = "layer_snapshot wid run (Suc m) st' (now (Suc m))"
    note nxt = next_layer [OF Cons.prems(3,4) Inr]
    have stb: "storable ?snap" using nxt by (intro layers_storableD [OF Cons.prems(5)]) simp_all
    from Cons.IH [OF save_refines [OF Cons.prems(1) stb] _ nxt(2,3) Cons.prems(5)] Cons.prems(2)
      save_ok [OF Cons.prems(1) stb] Inr
    show ?thesis by (cases "cp_save c ?snap") (simp add: Let_def)
  qed (use Cons.prems(2) in \<open>simp add: Let_def\<close>)
qed simp

lemma crashed_run_ready:
  assumes "ready refines wid run d init order c" and "flaky d' d" and "topo_sort d = Inr order"
    and "layers_storable storable wid run d init (layered d order)"
  shows "ready refines wid run d init order (crashed_run cp_save cp_latest wid run d' (rs_schema init) now k c)"
proof -
  let ?all = "layered d order"
  from assms(1) obtain h m where h: "refines c h" "at_layer d init ?all m (latest_spec h wid run)"
    "\<forall>t. latest_spec h wid run = Some t \<longrightarrow> snap_step t = m"
    by (auto simp: ready_def)
  let ?st = "start_state (rs_schema init) (latest_spec h wid run)"
  let ?todo = "take (k - m) (drop m ?all)"
  have run: "crashed_run cp_save cp_latest wid run d' (rs_schema init) now k c =
      snd (run_layers cp_save wid run d' now m ?todo m ?st c)"
    using h assms(3) flaky_order [OF assms(2)] run_layers_drop [of 0 m cp_save wid run d' now "take k ?all" ?st c]
    by (simp add: crashed_run_def latest_refines at_layer_def drop_take)
  have split: "drop m ?all = ?todo @ drop (k - m) (drop m ?all)"
    by (simp only: append_take_drop_id)
  have m: "ideal_run d init (take m ?all) = Inr ?st" "rs_super_step ?st = m" "m \<le> length ?all"
    using h(2) by (simp_all add: at_layer_def)
  have "\<exists>h' m'. refines (snd (run_layers cp_save wid run d' now m ?todo m ?st c)) h' \<and>
      at_layer d init ?all m' (latest_spec h' wid run) \<and>
      (\<forall>t. latest_spec h' wid run = Some t \<longrightarrow> snap_step t = m')"
    using h(3) by (intro run_layers_progress [OF h(1) assms(2) m(1,2) refl _ split m(3) assms(4)]) simp
  then show ?thesis unfolding ready_def run by blast
qed

lemma crashed_runs_ready:
  assumes "ready refines wid run d init order c" and "topo_sort d = Inr order"
    and "\<forall>(d', now, k) \<in> set as. flaky d' d"
    and "layers_storable storable wid run d init (layered d order)"
  shows "ready refines wid run d init order (crashed_runs cp_save cp_latest wid run (rs_schema init) as c)"
  using assms(1,3)
proof (induction as arbitrary: c)
  case (Cons a as)
  obtain d' now k where a: "a = (d', now, k)" by (metis prod_cases3)
  with Cons.prems have "ready refines wid run d init order
      (crashed_run cp_save cp_latest wid run d' (rs_schema init) now k c)"
    by (intro crashed_run_ready assms) auto
  with Cons a show ?case by simp
qed simp

lemma ready_run:
  assumes "ready refines wid run d init order c" and "topo_sort d = Inr order"
    and "layers_storable storable wid run d init (layered d order)"
  shows "fst (stateful_run cp_save cp_latest wid run d (rs_schema init) now c) = ideal_run d init (layered d order)"
proof -
  let ?all = "layered d order"
  from assms(1) obtain h m where h: "refines c h" "at_layer d init ?all m (latest_spec h wid run)"
    by (auto simp: ready_def)
  let ?st = "start_state (rs_schema init) (latest_spec h wid run)"
  have m: "ideal_run d init (take m ?all) = Inr ?st" "rs_super_step ?st = m"
    using h(2) by (simp_all add: at_layer_def)
  have "fst (stateful_run cp_save cp_latest wid run d (rs_schema init) now c) =
      fst (run_layers cp_save wid run d now m (drop m ?all) m ?st c)"
    using h(1) assms(2) m(2) run_layers_drop [of 0 m cp_save wid run d now ?all ?st c]
    by (simp add: stateful_run_def latest_refines Let_def)
  also have "\<dots> = ideal_run d ?st (drop m ?all)"
    using m by (intro run_layers_result [OF h(1) _ refl m(1) assms(3)]) simp
  also have "\<dots> = ideal_run d init ?all"
    using m(1) ideal_run_append [of d init "take m ?all" "drop m ?all"] by simp
  finally show ?thesis .
qed

lemma fresh_ready:
  "refines c h \<Longrightarrow> latest_spec h wid run = None \<Longrightarrow> ready refines wid run d (run_state_new sch) order c"
  unfolding ready_def at_layer_def
  by (intro exI [of _ h] exI [of _ 0]) (simp add: start_state_def run_state_new_def)

lemma seeded_ready:
  assumes "refines c h" and "latest_spec h wid run = None" and "storable (seed_snapshot wid run init now)"
    and "rs_super_step init = 0"
  shows "ready refines wid run d init order (snd (cp_save c (seed_snapshot wid run init now)))"
proof -
  let ?s = "seed_snapshot wid run init now"
  have "refines (snd (cp_save c ?s)) (h @ [?s])" by (rule save_refines [OF assms(1,3)])
  moreover have lat: "latest_spec (h @ [?s]) wid run = Some ?s"
    using assms(2) by (simp add: latest_spec_save of_run_def)
  moreover have "start_state (rs_schema init) (Some ?s) = init"
    using assms(4) by (simp add: start_state_def from_snapshot_def seed_snapshot_def)
  ultimately show ?thesis
    unfolding ready_def at_layer_def using assms(4)
    by (intro exI [of _ "h @ [?s]"] exI [of _ 0]) simp
qed

text \<open>Any number of crashed or faulty attempts, then a good one: the undisturbed result.\<close>

lemma resume_equivalence:
  assumes "refines c h" and "latest_spec h wid run = None" and "topo_sort d = Inr order"
    and "\<forall>(d', now, k) \<in> set as. flaky d' d"
    and "layers_storable storable wid run d (run_state_new sch) (layered d order)"
  shows "fst (stateful_run cp_save cp_latest wid run d sch now
      (crashed_runs cp_save cp_latest wid run sch as c)) = ideal_run d (run_state_new sch) (layered d order)"
proof -
  have sch: "rs_schema (run_state_new sch) = sch" by (simp add: run_state_new_def)
  have "ready refines wid run d (run_state_new sch) order (crashed_runs cp_save cp_latest wid run sch as c)"
    using crashed_runs_ready [of wid run d "run_state_new sch" order c as] fresh_ready [OF assms(1,2)] assms
    by (simp add: sch)
  from ready_run [OF this assms(3)] assms(5) show ?thesis by (simp add: sch)
qed

text \<open>After a complete run the store's latest checkpoint is the final state.\<close>

lemma run_layers_done:
  assumes "refines c h" and "resume_at \<le> m"
    and "\<And>t. latest_spec h wid run = Some t \<Longrightarrow> snap_step t \<le> m"
    and "drop m all = todo" and "ideal_run d init (take m all) = Inr st"
    and "layers_storable storable wid run d init all"
    and "run_layers cp_save wid run d now resume_at todo m st c = (Inr st', c')" and "todo \<noteq> []"
  shows "\<exists>h' t. refines c' h' \<and> latest_spec h' wid run = Some t \<and>
    snap_step t = m + length todo \<and> sn_values t = rs_values st'"
  using assms
proof (induction todo arbitrary: c h m st)
  case (Cons layer todo)
  from Cons.prems(2,7) obtain st1 where st1: "run_layer d st layer = Inr st1"
    by (cases "run_layer d st layer") (simp_all add: Let_def)
  let ?snap = "layer_snapshot wid run (Suc m) st1 (now (Suc m))"
  note nxt = next_layer [OF Cons.prems(4,5) st1]
  have stb: "storable ?snap" using nxt by (intro layers_storableD [OF Cons.prems(6)]) simp_all
  let ?c = "snd (cp_save c ?snap)"
  have stored: "refines ?c (h @ [?snap])" by (rule save_refines [OF Cons.prems(1) stb])
  have lat: "latest_spec (h @ [?snap]) wid run = Some ?snap"
    using Cons.prems(3) by (fastforce simp: latest_spec_save of_run_def split: option.splits)
  have run: "run_layers cp_save wid run d now resume_at todo (Suc m) st1 ?c = (Inr st', c')"
    using Cons.prems(2,7) st1 save_ok [OF Cons.prems(1) stb]
    by (cases "cp_save c ?snap") (simp add: Let_def)
  show ?case
  proof (cases "todo = []")
    case True
    with run stored lat show ?thesis by (auto intro!: exI [of _ "h @ [?snap]"])
  next
    case False
    from Cons.IH [OF stored _ _ nxt(2,3) Cons.prems(6) run False] Cons.prems(2) lat show ?thesis by auto
  qed
qed simp

lemma subgraph_first_call:
  assumes "refines c h" and "latest_spec h (sg_workflow_id sg) (sg_run_id sg) = None"
    and "topo_sort (sg_dag sg) = Inr order"
    and "merge_writes (run_state_new (sg_schema sg)) (project_inputs m (sg_input_channels sg)) = (Inr (), child)"
    and "storable (seed_snapshot (sg_workflow_id sg) (sg_run_id sg) child seed_now)"
    and "layers_storable storable (sg_workflow_id sg) (sg_run_id sg) (sg_dag sg) child (layered (sg_dag sg) order)"
  shows "fst (subgraph_call cp_save cp_latest show_json sg seed_now now (Object m) c) =
    try_then (ideal_run (sg_dag sg) child (layered (sg_dag sg) order))
      (\<lambda>st. Inr (subgraph_result (sg_output_channels sg) st))"
proof -
  let ?w = "sg_workflow_id sg" and ?r = "sg_run_id sg"
  have child: "rs_schema child = sg_schema sg" "rs_super_step child = 0"
    using merge_writes_schema [of "run_state_new (sg_schema sg)"] merge_writes_super_step [of "run_state_new (sg_schema sg)"]
    by (metis assms(4) run_state.select_convs(1,3) run_state_new_def snd_conv)+
  let ?s = "seed_snapshot ?w ?r child seed_now"
  let ?c = "snd (cp_save c ?s)"
  have rdy: "ready refines ?w ?r (sg_dag sg) child order ?c"
    by (rule seeded_ready [OF assms(1,2) assms(5) child(2)])
  have run: "fst (stateful_run cp_save cp_latest ?w ?r (sg_dag sg) (sg_schema sg) now ?c) =
      ideal_run (sg_dag sg) child (layered (sg_dag sg) order)"
    using ready_run [OF rdy assms(3,6)] by (simp add: child)
  have "fst (cp_save c ?s) = Inr ()" by (rule save_ok [OF assms(1,5)])
  then have call: "subgraph_call cp_save cp_latest show_json sg seed_now now (Object m) c =
      (case stateful_run cp_save cp_latest ?w ?r (sg_dag sg) (sg_schema sg) now ?c of
         (Inl e, c'') \<Rightarrow> (Inl e, c'')
       | (Inr st, c'') \<Rightarrow> (Inr (subgraph_result (sg_output_channels sg) st), c''))"
    by (cases "cp_save c ?s") (simp add: subgraph_call_def assms(4))
  obtain res c'' where "stateful_run cp_save cp_latest ?w ?r (sg_dag sg) (sg_schema sg) now ?c = (res, c'')"
    by force
  with call run show ?thesis by (cases res) (simp_all flip: run)
qed

text \<open>
  A call over a finished child run skips every layer: it returns the stored result and ignores
  its input.
\<close>

lemma subgraph_finished_call:
  assumes "refines c h" and "latest_spec h (sg_workflow_id sg) (sg_run_id sg) = Some t"
    and "topo_sort (sg_dag sg) = Inr order" and "length (layered (sg_dag sg) order) \<le> snap_step t"
    and "merge_writes (run_state_new (sg_schema sg)) (project_inputs m (sg_input_channels sg)) = (Inr (), child)"
    and "storable (seed_snapshot (sg_workflow_id sg) (sg_run_id sg) child seed_now)"
  shows "fst (subgraph_call cp_save cp_latest show_json sg seed_now now (Object m) c) =
    Inr (subgraph_result (sg_output_channels sg) (start_state (sg_schema sg) (Some t)))"
proof -
  let ?w = "sg_workflow_id sg" and ?r = "sg_run_id sg"
  note child = assms(5)
  let ?s = "seed_snapshot ?w ?r child seed_now"
  let ?c = "snd (cp_save c ?s)"
  have "0 < length (layered (sg_dag sg) order)" using layered_facts(1) by simp
  with assms(4) have "0 < snap_step t" by linarith
  with assms(2) have lat: "latest_spec (h @ [?s]) ?w ?r = Some t"
    by (simp add: latest_spec_save)
  have "stateful_run cp_save cp_latest ?w ?r (sg_dag sg) (sg_schema sg) now ?c =
      (Inr (start_state (sg_schema sg) (Some t)), ?c)"
    using latest_refines [OF save_refines [OF assms(1,6)], of ?w ?r] lat assms(3,4)
    by (simp add: stateful_run_def run_layers_skip start_state_def from_snapshot_def Let_def)
  then show ?thesis
    using save_ok [OF assms(1,6)]
    by (cases "cp_save c ?s") (simp add: subgraph_call_def child)
qed

lemma subgraph_second_call:
  assumes "refines c h" and "latest_spec h (sg_workflow_id sg) (sg_run_id sg) = None"
    and "subgraph_call cp_save cp_latest show_json sg seed_now now (Object m) c = (Inr r, c')"
    and "merge_writes (run_state_new (sg_schema sg)) (project_inputs m (sg_input_channels sg)) = (Inr (), child)"
    and "merge_writes (run_state_new (sg_schema sg)) (project_inputs m' (sg_input_channels sg)) = (Inr (), child')"
    and "storable (seed_snapshot (sg_workflow_id sg) (sg_run_id sg) child seed_now)"
    and "storable (seed_snapshot (sg_workflow_id sg) (sg_run_id sg) child' seed_now')"
    and "\<And>order. topo_sort (sg_dag sg) = Inr order \<Longrightarrow>
      layers_storable storable (sg_workflow_id sg) (sg_run_id sg) (sg_dag sg) child (layered (sg_dag sg) order)"
  shows "fst (subgraph_call cp_save cp_latest show_json sg seed_now' now' (Object m') c') = Inr r"
proof -
  let ?w = "sg_workflow_id sg" and ?r = "sg_run_id sg" and ?d = "sg_dag sg" and ?sch = "sg_schema sg"
  note child = assms(4)
  have child0: "rs_schema child = ?sch" "rs_super_step child = 0"
    using merge_writes_schema [of "run_state_new ?sch"] merge_writes_super_step [of "run_state_new ?sch"]
    by (metis assms(4) run_state.select_convs(1,3) run_state_new_def snd_conv)+
  let ?s = "seed_snapshot ?w ?r child seed_now"
  let ?c = "snd (cp_save c ?s)"
  have stored: "refines ?c (h @ [?s])" by (rule save_refines [OF assms(1,6)])
  have lat: "latest_spec (h @ [?s]) ?w ?r = Some ?s"
    using assms(2) by (simp add: latest_spec_save of_run_def)
  have saved: "cp_save c ?s = (Inr (), ?c)" using save_ok [OF assms(1,6)] by (metis prod.collapse)
  obtain st where run: "stateful_run cp_save cp_latest ?w ?r ?d ?sch now ?c = (Inr st, c')"
    and r: "r = subgraph_result (sg_output_channels sg) st"
    using assms(3) child saved
    by (auto simp: subgraph_call_def split: prod.split_asm sum.split_asm)
  obtain order where order: "topo_sort ?d = Inr order"
    using run latest_refines [OF stored, of ?w ?r] by (auto simp: stateful_run_def Let_def split: sum.split_asm)
  have layers: "run_layers cp_save ?w ?r ?d now 0 (layered ?d order) 0 (start_state ?sch (Some ?s)) ?c = (Inr st, c')"
    using run order latest_refines [OF stored, of ?w ?r]
    by (simp add: stateful_run_def lat start_state_def from_snapshot_def)
  have ideal0: "ideal_run ?d child (take 0 (layered ?d order)) = Inr (start_state ?sch (Some ?s))"
    using child0 by (simp add: start_state_def from_snapshot_def)
  have "\<exists>h' t. refines c' h' \<and> latest_spec h' ?w ?r = Some t \<and>
    snap_step t = 0 + length (layered ?d order) \<and> sn_values t = rs_values st"
    using lat child0 ideal0
    by (intro run_layers_done [OF stored _ _ _ ideal0 assms(8) [OF order] layers layered_facts(1)]) auto
  then obtain h' t where t: "refines c' h'" "latest_spec h' ?w ?r = Some t"
    "snap_step t = length (layered ?d order)" "sn_values t = rs_values st" by auto
  have "fst (subgraph_call cp_save cp_latest show_json sg seed_now' now' (Object m') c') =
      Inr (subgraph_result (sg_output_channels sg) (start_state ?sch (Some t)))"
    using t(3) by (intro subgraph_finished_call [OF t(1,2) order _ assms(5,7)]) simp
  also have "subgraph_result (sg_output_channels sg) (start_state ?sch (Some t)) = r"
    using t(4) by (simp add: r subgraph_result_def start_state_def from_snapshot_def rs_read_def)
  finally show ?thesis .
qed

end

subsection \<open>The properties on both back ends\<close>

text \<open>A two-step workflow for the concrete instances below: step \<open>b\<close> copies what step \<open>a\<close> writes.\<close>

definition demo_dag :: "stateful_step \<Rightarrow> state_dag" where
  "demo_dag g =
     dag_edge (dag_step (dag_step (dag_builder ''a'') ''b'' g)
       ''a'' (\<lambda>st. Joined (Inr [(''x'', Bool True)]))) ''a'' ''b''"

definition demo_copy :: stateful_step where
  "demo_copy st = Joined (Inr [(''y'', rs_read st ''x'')])"

definition demo_schema :: state_schema where
  "demo_schema = schema_add_lww (schema_add_lww schema_builder ''x'') ''y''"

lemma demo_order: "topo_sort (demo_dag g) = Inr [''a'', ''b'']"
  by code_simp

lemma demo_layers: "layered (demo_dag g) [''a'', ''b''] = [[''a''], [''b'']]"
  by code_simp

lemma demo_flaky: "flaky (demo_dag (\<lambda>_. JoinErr ''panicked'')) (demo_dag demo_copy)"
  by (auto simp: flaky_def demo_dag_def dag_edge_def dag_step_def dag_builder_def dag_keys_def
      split: if_splits)

text \<open>
  (C1) Crash recovery over the in-memory store. Whatever attempts came before (each on a graph
  whose steps may fail or panic where the real ones succeed, each killed after any number of
  layers), a run returns exactly what one undisturbed pass over the layers returns, the same final
  state or the same error, provided the store held no checkpoint of the run at the beginning.
\<close>

theorem im_resume_equivalence:
  assumes "latest_spec c wid run = None" and "topo_sort d = Inr order"
    and "\<forall>(d', now, k) \<in> set as. flaky d' d"
  shows "fst (stateful_run im_save im_latest wid run d sch now
      (crashed_runs im_save im_latest wid run sch as c)) =
    ideal_run d (run_state_new sch) (layered d order)"
  by (rule im_store.resume_equivalence [OF refl assms]) (simp add: layers_storable_def)

theorem im_resume_equivalence_witness:
  "fst (stateful_run im_save im_latest ''w'' ''r'' (demo_dag demo_copy) demo_schema (\<lambda>_. 0)
      (crashed_runs im_save im_latest ''w'' ''r'' demo_schema
         [(demo_dag (\<lambda>_. JoinErr ''panicked''), \<lambda>_. 7, 2), (demo_dag demo_copy, \<lambda>_. 8, 0)] [])) =
    ideal_run (demo_dag demo_copy) (run_state_new demo_schema) (layered (demo_dag demo_copy) [''a'', ''b''])"
  by (rule im_resume_equivalence) (simp_all add: latest_spec_def demo_order demo_flaky flaky_refl)

text \<open>
  Crash recovery over the SQL store, when the checkpoints an undisturbed run takes survive the
  JSON codec of the table and number fewer than \<open>2 ^ 63\<close>.
\<close>

theorem sql_resume_equivalence:
  assumes "sql_refines enc dec tab h" and "latest_spec h wid run = None"
    and "topo_sort d = Inr order" and "\<forall>(d', now, k) \<in> set as. flaky d' d"
    and "layers_storable (sql_storable enc dec) wid run d (run_state_new sch) (layered d order)"
  shows "fst (stateful_run (sql_save enc) (sql_latest dec) wid run d sch now
      (crashed_runs (sql_save enc) (sql_latest dec) wid run sch as tab)) =
    ideal_run d (run_state_new sch) (layered d order)"
  by (rule sql_store.resume_equivalence [OF assms])

text \<open>A codec that tells the three states of the example apart.\<close>

definition demo_enc :: "valuation \<Rightarrow> string result" where
  "demo_enc v = Inr (if v ''x'' = Some Null then ''0'' else if v ''y'' = Some Null then ''1'' else ''2'')"

definition demo_dec :: "string \<Rightarrow> valuation result" where
  "demo_dec t = Inr
     [''x'' \<mapsto> if t = ''0'' then Null else Bool True, ''y'' \<mapsto> if t = ''2'' then Bool True else Null]"

lemma demo_values:
  "k \<le> 2 \<Longrightarrow> ideal_run (demo_dag demo_copy) (run_state_new demo_schema) (take k [[''a''], [''b'']]) = Inr s \<Longrightarrow>
   rs_values s = [''x'' \<mapsto> if k = 0 then Null else Bool True, ''y'' \<mapsto> if k = 2 then Bool True else Null]"
proof -
  assume "k \<le> 2"
  then have "k = 0 \<or> k = 1 \<or> k = 2" by auto
  then show "ideal_run (demo_dag demo_copy) (run_state_new demo_schema) (take k [[''a''], [''b'']]) = Inr s \<Longrightarrow>
      ?thesis"
    by (auto simp: run_layer_def demo_dag_def dag_edge_def dag_step_def dag_builder_def demo_copy_def
        rs_write_def rs_read_def rs_advance_def run_state_new_def demo_schema_def schema_defaults_def
        schema_add_lww_def schema_builder_def fun_eq_iff)
qed

lemma demo_storable:
  "layers_storable (sql_storable demo_enc demo_dec) wid run (demo_dag demo_copy) (run_state_new demo_schema)
     [[''a''], [''b'']]"
  unfolding layers_storable_def
proof (intro allI impI, elim conjE)
  fix k s t
  assume "k \<le> length [[''a''], [''b'']]"
    and "ideal_run (demo_dag demo_copy) (run_state_new demo_schema) (take k [[''a''], [''b'']]) = Inr s"
  moreover then have "rs_values s =
      [''x'' \<mapsto> if k = 0 then Null else Bool True, ''y'' \<mapsto> if k = 2 then Bool True else Null]"
    by (intro demo_values) simp_all
  ultimately show "sql_storable demo_enc demo_dec (layer_snapshot wid run k s t)"
    by (simp add: sql_storable_def demo_enc_def demo_dec_def)
qed

theorem sql_resume_equivalence_witness:
  "fst (stateful_run (sql_save demo_enc) (sql_latest demo_dec) ''w'' ''r'' (demo_dag demo_copy) demo_schema (\<lambda>_. 0)
      (crashed_runs (sql_save demo_enc) (sql_latest demo_dec) ''w'' ''r'' demo_schema
         [(demo_dag (\<lambda>_. JoinErr ''panicked''), \<lambda>_. 7, 2)] [])) =
    ideal_run (demo_dag demo_copy) (run_state_new demo_schema) (layered (demo_dag demo_copy) [''a'', ''b''])"
  by (rule sql_resume_equivalence [where h = "[]"])
     (simp_all add: sql_refines_def latest_spec_def demo_order demo_flaky demo_layers demo_storable)

text \<open>
  A subgraph is called twice with the same child run id (a loop, a second parent run): the
  second call returns the result of the first one whatever its input is, because the finished
  child's last checkpoint outranks the new seed, which is stored as super-step 0.
\<close>

theorem subgraph_second_call_stale:
  assumes "latest_spec c (sg_workflow_id sg) (sg_run_id sg) = None"
    and "subgraph_call im_save im_latest show_json sg seed_now now (Object m) c = (Inr r, c')"
    and "fst (merge_writes (run_state_new (sg_schema sg)) (project_inputs m' (sg_input_channels sg))) = Inr ()"
  shows "fst (subgraph_call im_save im_latest show_json sg seed_now' now' (Object m') c') = Inr r"
proof -
  obtain e child where child: "merge_writes (run_state_new (sg_schema sg)) (project_inputs m (sg_input_channels sg)) = (e, child)"
    by force
  with assms(2) have "e = Inr ()" by (cases e) (auto simp: subgraph_call_def)
  with child obtain child' where
    "merge_writes (run_state_new (sg_schema sg)) (project_inputs m (sg_input_channels sg)) = (Inr (), child)"
    "merge_writes (run_state_new (sg_schema sg)) (project_inputs m' (sg_input_channels sg)) = (Inr (), child')"
    using assms(3) by (metis prod.collapse)
  from im_store.subgraph_second_call [OF refl assms(1,2) this] show ?thesis
    by (simp add: layers_storable_def)
qed

definition demo_subgraph :: subgraph where
  "demo_subgraph =
     \<lparr>sg_workflow_id = ''child'', sg_run_id = ''r'',
      sg_dag = dag_step (dag_builder ''b'') ''b'' demo_copy, sg_schema = demo_schema,
      sg_input_channels = [''x''], sg_output_channels = [''y'']\<rparr>"

theorem subgraph_second_call_stale_witness:
  "fst (subgraph_call im_save im_latest (\<lambda>_. []) demo_subgraph 0 (\<lambda>_. 0) (Object [(''x'', Bool False)])
      (snd (subgraph_call im_save im_latest (\<lambda>_. []) demo_subgraph 0 (\<lambda>_. 0) (Object [(''x'', Bool True)]) []))) =
   fst (subgraph_call im_save im_latest (\<lambda>_. []) demo_subgraph 0 (\<lambda>_. 0) (Object [(''x'', Bool True)]) [])"
proof -
  let ?call = "subgraph_call im_save im_latest (\<lambda>_. []) demo_subgraph 0 (\<lambda>_. 0) (Object [(''x'', Bool True)]) []"
  have "is_ok (fst ?call)" by code_simp
  then obtain r where r: "?call = (Inr r, snd ?call)" by (cases "fst ?call") (simp, metis prod.collapse)
  have seeded: "fst (merge_writes (run_state_new (sg_schema demo_subgraph))
      (project_inputs [(''x'', Bool False)] (sg_input_channels demo_subgraph))) = Inr ()"
    by (simp add: demo_subgraph_def rs_write_def run_state_new_def demo_schema_def schema_add_lww_def
        schema_builder_def)
  have "fst (subgraph_call im_save im_latest (\<lambda>_. []) demo_subgraph 0 (\<lambda>_. 0)
      (Object [(''x'', Bool False)]) (snd ?call)) = Inr r"
    by (rule subgraph_second_call_stale [OF _ r seeded]) (simp add: latest_spec_def)
  also have "\<dots> = fst ?call" by (subst r) simp
  finally show ?thesis .
qed

end
