(* ===== verification/Interrupts.thy ===== *)
theory Interrupts
  imports Stateful_Run
begin

text \<open>
  Breakpoints, dynamic interrupts and resume commands (\<open>crates/workflow/src/interrupt.rs\<close>): the
  interrupt control a step is given, the layered loop that pauses before and after named steps or
  when a step asks for it, and the four resume commands. The lemmas relate a paused and resumed
  run to the undisturbed pass of \<open>Stateful_Run\<close> and show which breakpoint sets defeat the
  single-use skip flag.
\<close>

subsection \<open>Commands, outcomes and the interrupt control\<close>

datatype command =
    Continue
  | Resume json
  | Update writes
  | Goto step_id

datatype pause_reason =
    DynamicInterrupt step_id
  | Before step_id
  | After step_id

datatype run_outcome =
    Done run_state
  | Paused nat pause_reason "json option"

record interrupt_request =
  ir_step_id :: step_id
  ir_payload :: "json option"

record interrupt_ctrl =
  ic_inner :: "interrupt_request option"
  ic_resume_value :: "json option"

definition ctrl_new :: interrupt_ctrl where
  "ctrl_new = \<lparr>ic_inner = None, ic_resume_value = None\<rparr>"

definition ctrl_interrupt :: "interrupt_ctrl \<Rightarrow> step_id \<Rightarrow> json option \<Rightarrow> interrupt_ctrl" where
  "ctrl_interrupt c sid payload = c\<lparr>ic_inner := Some \<lparr>ir_step_id = sid, ir_payload = payload\<rparr>\<rparr>"

definition take_resume_value :: "interrupt_ctrl \<Rightarrow> json option \<times> interrupt_ctrl" where
  "take_resume_value c = (ic_resume_value c, c\<lparr>ic_resume_value := None\<rparr>)"

definition ctrl_pending :: "interrupt_ctrl \<Rightarrow> interrupt_request option \<times> interrupt_ctrl" where
  "ctrl_pending c = (ic_inner c, c\<lparr>ic_inner := None\<rparr>)"

definition set_resume_value :: "interrupt_ctrl \<Rightarrow> json option \<Rightarrow> interrupt_ctrl" where
  "set_resume_value c v = c\<lparr>ic_resume_value := v\<rparr>"

text \<open>A step runs in the runner's own task: a panic would unwind the run and is not an outcome here.\<close>

type_synonym interruptible_step = "run_state \<Rightarrow> interrupt_ctrl \<Rightarrow> writes result \<times> interrupt_ctrl"

definition plain_step :: "(run_state \<Rightarrow> writes result) \<Rightarrow> interruptible_step" where
  "plain_step f st ctrl = (f st, ctrl)"

record interruptible =
  in_workflow_id :: string
  in_run_id :: string
  in_dag :: "interruptible_step dag"
  in_schema :: state_schema
  in_before :: "step_id set"
  in_after :: "step_id set"

subsection \<open>The layered loop\<close>

text \<open>One pass over a layer's breakpoints: the step to pause at, and the skip flag afterwards.\<close>

fun check_breaks :: "step_id set \<Rightarrow> step_id list \<Rightarrow> bool \<Rightarrow> step_id option \<times> bool" where
  "check_breaks bps [] skip = (None, skip)"
| "check_breaks bps (sid # sids) skip =
     (if sid \<in> bps then (if skip then check_breaks bps sids False else (Some sid, skip))
      else check_breaks bps sids skip)"

datatype layer_result =
    LayerWrites writes
  | LayerInterrupt interrupt_request
  | LayerError agent_error

fun run_seq ::
  "interruptible_step dag \<Rightarrow> run_state \<Rightarrow> step_id list \<Rightarrow> json option \<Rightarrow> interrupt_ctrl \<Rightarrow> writes \<Rightarrow>
   layer_result \<times> json option \<times> interrupt_ctrl" where
  "run_seq d st [] rv ctrl acc = (LayerWrites acc, rv, ctrl)"
| "run_seq d st (sid # sids) rv ctrl acc =
     (let ctrl1 = (case rv of None \<Rightarrow> ctrl | Some v \<Rightarrow> set_resume_value ctrl (Some v))
      in case map_of (dag_steps d) sid of
           None \<Rightarrow> (LayerError (Workflow (''missing step '' @ sid)), None, ctrl1)
         | Some f \<Rightarrow>
             (case f st ctrl1 of
                (Inl e, ctrl2) \<Rightarrow> (LayerError e, None, ctrl2)
              | (Inr ws, ctrl2) \<Rightarrow>
                  (case ctrl_pending ctrl2 of
                     (Some req, ctrl3) \<Rightarrow> (LayerInterrupt req, None, ctrl3)
                   | (None, ctrl3) \<Rightarrow> run_seq d st sids None ctrl3 (acc @ ws))))"

fun pause_label :: "pause_reason \<Rightarrow> string" where
  "pause_label (DynamicInterrupt sid) = ''interrupt:'' @ sid"
| "pause_label (Before sid) = ''before:'' @ sid"
| "pause_label (After sid) = ''after:'' @ sid"

definition pause_snapshot ::
  "interruptible \<Rightarrow> run_state \<Rightarrow> nat \<Rightarrow> pause_reason \<Rightarrow> json option \<Rightarrow> int \<Rightarrow> snapshot" where
  "pause_snapshot w st n reason payload now =
     \<lparr>sn_key = \<lparr>workflow_id = in_workflow_id w, run_id = in_run_id w, super_step = n\<rparr>,
      sn_values = (case payload of
                     None \<Rightarrow> rs_values st
                   | Some p \<Rightarrow> (rs_values st)(''__interrupt_payload__'' \<mapsto> p)),
      sn_label = pause_label reason, sn_timestamp_ms = now\<rparr>"

definition pause_at ::
  "('c \<Rightarrow> snapshot \<Rightarrow> unit result \<times> 'c) \<Rightarrow> interruptible \<Rightarrow> run_state \<Rightarrow> nat \<Rightarrow> pause_reason \<Rightarrow>
   json option \<Rightarrow> int \<Rightarrow> 'c \<Rightarrow> run_outcome result \<times> 'c" where
  "pause_at save w st n reason payload now c =
     (case save c (pause_snapshot w st (n - 1) reason payload now) of
        (Inl e, c') \<Rightarrow> (Inl e, c')
      | (Inr _, c') \<Rightarrow> (Inr (Paused n reason payload), c'))"

text \<open>\<open>idx\<close> is the index of the head of the remaining layers; \<open>now\<close> reads the clock per super-step.\<close>

fun int_layers ::
  "('c \<Rightarrow> snapshot \<Rightarrow> unit result \<times> 'c) \<Rightarrow> interruptible \<Rightarrow> (nat \<Rightarrow> int) \<Rightarrow> nat \<Rightarrow>
   step_id list list \<Rightarrow> nat \<Rightarrow> run_state \<Rightarrow> json option \<Rightarrow> interrupt_ctrl \<Rightarrow> bool \<Rightarrow> 'c \<Rightarrow>
   run_outcome result \<times> 'c" where
  "int_layers save w now start [] idx st rv ctrl skip c = (Inr (Done st), c)"
| "int_layers save w now start (layer # layers) idx st rv ctrl skip c =
     (let n = idx + 1
      in if n \<le> start then int_layers save w now start layers (idx + 1) st rv ctrl skip c
         else (case check_breaks (in_before w) layer skip of
                 (Some sid, _) \<Rightarrow> pause_at save w st n (Before sid) None (now n) c
               | (None, skip1) \<Rightarrow>
                   (case run_seq (in_dag w) st layer rv ctrl [] of
                      (LayerError e, _, _) \<Rightarrow> (Inl e, c)
                    | (LayerInterrupt req, _, _) \<Rightarrow>
                        pause_at save w st n (DynamicInterrupt (ir_step_id req)) (ir_payload req) (now n) c
                    | (LayerWrites ws, rv1, ctrl1) \<Rightarrow>
                        (case merge_writes st ws of
                           (Inl e, _) \<Rightarrow> (Inl e, c)
                         | (Inr _, st1) \<Rightarrow>
                             (let st2 = rs_advance st1
                              in case save c (layer_snapshot (in_workflow_id w) (in_run_id w) n st2 (now n)) of
                                   (Inl e, c1) \<Rightarrow> (Inl e, c1)
                                 | (Inr _, c1) \<Rightarrow>
                                     (case check_breaks (in_after w) layer skip1 of
                                        (Some sid, _) \<Rightarrow> (Inr (Paused n (After sid) None), c1)
                                      | (None, skip2) \<Rightarrow>
                                          int_layers save w now start layers (idx + 1) st2 rv1 ctrl1
                                            skip2 c1))))))"

text \<open>\<open>layers.iter().position(...)\<close>: the first layer that contains the step.\<close>

fun layer_position :: "step_id list list \<Rightarrow> step_id \<Rightarrow> nat option" where
  "layer_position [] sid = None"
| "layer_position (layer # layers) sid =
     (if sid \<in> set layer then Some 0 else map_option Suc (layer_position layers sid))"

definition run_inner ::
  "('c \<Rightarrow> snapshot \<Rightarrow> unit result \<times> 'c) \<Rightarrow> interruptible \<Rightarrow> (nat \<Rightarrow> int) \<Rightarrow> run_state \<Rightarrow>
   json option \<Rightarrow> step_id option \<Rightarrow> bool \<Rightarrow> 'c \<Rightarrow> run_outcome result \<times> 'c" where
  "run_inner save w now st rv goto skip c =
     (case topo_sort (in_dag w) of
        Inl e \<Rightarrow> (Inl e, c)
      | Inr order \<Rightarrow>
          (let layers = layered (in_dag w) order;
               start = (case Option.bind goto (layer_position layers) of
                          None \<Rightarrow> rs_super_step st | Some p \<Rightarrow> p)
           in int_layers save w now start layers 0 st rv ctrl_new skip c))"

definition int_run ::
  "('c \<Rightarrow> snapshot \<Rightarrow> unit result \<times> 'c) \<Rightarrow> ('c \<Rightarrow> string \<Rightarrow> string \<Rightarrow> snapshot option result) \<Rightarrow>
   interruptible \<Rightarrow> (nat \<Rightarrow> int) \<Rightarrow> 'c \<Rightarrow> run_outcome result \<times> 'c" where
  "int_run save latest w now c =
     (case latest c (in_workflow_id w) (in_run_id w) of
        Inl e \<Rightarrow> (Inl e, c)
      | Inr snap \<Rightarrow> run_inner save w now (start_state (in_schema w) snap) None None False c)"

fun command_parts :: "command \<Rightarrow> json option \<times> writes \<times> step_id option" where
  "command_parts Continue = (None, [], None)"
| "command_parts (Resume v) = (Some v, [], None)"
| "command_parts (Update es) = (None, es, None)"
| "command_parts (Goto sid) = (None, [], Some sid)"

definition int_resume ::
  "('c \<Rightarrow> snapshot \<Rightarrow> unit result \<times> 'c) \<Rightarrow> ('c \<Rightarrow> string \<Rightarrow> string \<Rightarrow> snapshot option result) \<Rightarrow>
   interruptible \<Rightarrow> (nat \<Rightarrow> int) \<Rightarrow> command \<Rightarrow> 'c \<Rightarrow> run_outcome result \<times> 'c" where
  "int_resume save latest w now cmd c =
     (case latest c (in_workflow_id w) (in_run_id w) of
        Inl e \<Rightarrow> (Inl e, c)
      | Inr None \<Rightarrow> (Inl (Workflow ''resume: no checkpoint''), c)
      | Inr (Some snap) \<Rightarrow>
          (case command_parts cmd of
             (rv, edits, goto) \<Rightarrow>
               run_inner save w now
                 (from_snapshot (in_schema w) (apply_edits (sn_values snap) edits) (snap_step snap))
                 rv goto True c))"

subsection \<open>Breakpoint checks\<close>

lemma run_state_new_step: "rs_super_step (run_state_new sch) = 0"
  by (simp add: run_state_new_def)

lemma check_breaks_none: "set layer \<inter> bps = {} \<Longrightarrow> check_breaks bps layer skip = (None, skip)"
  by (induction bps layer skip rule: check_breaks.induct) auto

lemma check_breaks_filter: "check_breaks bps layer skip = check_breaks bps (filter (\<lambda>s. s \<in> bps) layer) skip"
  by (induction bps layer skip rule: check_breaks.induct) auto

lemma filtered_in: "filter (\<lambda>s. s \<in> bps) layer = xs \<Longrightarrow> x \<in> set xs \<Longrightarrow> x \<in> bps"
  by auto

lemma check_breaks_one:
  assumes "filter (\<lambda>s. s \<in> bps) layer = [sid]"
  shows "check_breaks bps layer True = (None, False)" and "check_breaks bps layer False = (Some sid, False)"
  using filtered_in [OF assms, of sid] by (subst check_breaks_filter, simp add: assms)+

lemma check_breaks_two:
  assumes "filter (\<lambda>s. s \<in> bps) layer = a # b # rest"
  shows "check_breaks bps layer True = (Some b, False)"
  using filtered_in [OF assms, of a] filtered_in [OF assms, of b]
  by (subst check_breaks_filter, simp add: assms)

subsection \<open>A layer of plain steps\<close>

text \<open>The same graph with the steps of the stateful runner.\<close>

definition to_stateful :: "(run_state \<Rightarrow> writes result) dag \<Rightarrow> state_dag" where
  "to_stateful d =
     \<lparr>dag_steps = map (\<lambda>(i, f). (i, \<lambda>st. Joined (f st))) (dag_steps d),
      dag_edges = dag_edges d, dag_entry = dag_entry d\<rparr>"

definition to_plain :: "(run_state \<Rightarrow> writes result) dag \<Rightarrow> interruptible_step dag" where
  "to_plain d =
     \<lparr>dag_steps = map (\<lambda>(i, f). (i, plain_step f)) (dag_steps d),
      dag_edges = dag_edges d, dag_entry = dag_entry d\<rparr>"

lemma map_of_to_plain:
  "map_of (dag_steps (to_plain d)) sid = map_option plain_step (map_of (dag_steps d) sid)"
  "map_of (dag_steps (to_stateful d)) sid = map_option (\<lambda>f st. Joined (f st)) (map_of (dag_steps d) sid)"
  by (simp_all add: to_plain_def to_stateful_def map_of_map)

lemma run_seq_plain:
  assumes "ic_inner ctrl = None" and "\<forall>sid\<in>set layer. sid \<in> set (dag_keys d)"
  shows "\<exists>rv' ctrl'. run_seq (to_plain d) st layer rv ctrl acc =
    (case try_then (spawn_layer (to_stateful d) st layer) (await_all Internal) of
       Inl e \<Rightarrow> LayerError e | Inr wss \<Rightarrow> LayerWrites (acc @ concat wss), rv', ctrl') \<and> ic_inner ctrl' = None"
  using assms
proof (induction layer arbitrary: rv ctrl acc)
  case (Cons sid layer)
  from Cons.prems(2) obtain f where f: "map_of (dag_steps d) sid = Some f"
    by (metis dag_keys_def list.set_intros(1) map_of_eq_None_iff not_None_eq set_map)
  let ?ctrl = "case rv of None \<Rightarrow> ctrl | Some v \<Rightarrow> set_resume_value ctrl (Some v)"
  have inner: "ic_inner ?ctrl = None" using Cons.prems(1) by (simp add: set_resume_value_def split: option.splits)
  have known: "\<exists>hs. spawn_layer (to_stateful d) st layer = Inr hs"
  proof -
    have "\<forall>sid\<in>set layer. \<exists>g. map_of (dag_steps (to_stateful d)) sid = Some g"
      using Cons.prems(2) by (auto simp: map_of_to_plain) (metis dag_keys_def map_of_eq_None_iff not_None_eq set_map)
    then show ?thesis by (induction layer) auto
  qed
  then obtain hs where hs: "spawn_layer (to_stateful d) st layer = Inr hs" by blast
  show ?case
  proof (cases "f st")
    case (Inl e)
    with f inner hs show ?thesis by (simp add: map_of_to_plain plain_step_def Let_def)
  next
    case (Inr ws)
    have "ic_inner (?ctrl\<lparr>ic_inner := None\<rparr>) = None" by simp
    from Cons.IH [OF this, of None "acc @ ws"] Cons.prems(2) obtain rv' ctrl' where
      IH: "run_seq (to_plain d) st layer None (?ctrl\<lparr>ic_inner := None\<rparr>) (acc @ ws) =
        (case try_then (spawn_layer (to_stateful d) st layer) (await_all Internal) of
           Inl e \<Rightarrow> LayerError e | Inr wss \<Rightarrow> LayerWrites ((acc @ ws) @ concat wss), rv', ctrl')"
      "ic_inner ctrl' = None" by auto
    have "run_seq (to_plain d) st (sid # layer) rv ctrl acc =
        run_seq (to_plain d) st layer None (?ctrl\<lparr>ic_inner := None\<rparr>) (acc @ ws)"
      using f Inr inner by (simp add: map_of_to_plain plain_step_def ctrl_pending_def Let_def)
    with IH f Inr hs show ?thesis
      by (cases "await_all Internal hs") (simp_all add: map_of_to_plain)
  qed
qed simp

subsection \<open>Where the loop starts\<close>

lemma int_layers_drop:
  "idx \<le> start \<Longrightarrow>
   int_layers save w now start layers idx st rv ctrl skip c =
   int_layers save w now start (drop (start - idx) layers) start st rv ctrl skip c"
proof (induction layers arbitrary: idx)
  case (Cons layer layers)
  show ?case
  proof (cases "idx = start")
    case False
    with Cons.prems have "Suc idx \<le> start" and "start - idx = Suc (start - Suc idx)" by simp_all
    with Cons.IH [of "Suc idx"] show ?thesis by (simp add: Let_def)
  qed simp
qed simp

lemma int_layers_start:
  "start \<le> idx \<Longrightarrow> start' \<le> idx \<Longrightarrow>
   int_layers save w now start layers idx st rv ctrl skip c =
   int_layers save w now start' layers idx st rv ctrl skip c"
  by (induction layers arbitrary: idx st rv ctrl skip c)
     (simp_all add: Let_def split: prod.splits option.splits sum.splits layer_result.splits)

text \<open>What the in-memory store has to say about a run that stands at super-step \<open>k\<close> in state \<open>st\<close>.\<close>

definition stands_at :: "interruptible \<Rightarrow> im_checkpointer \<Rightarrow> nat \<Rightarrow> run_state \<Rightarrow> bool" where
  "stands_at w c k st \<longleftrightarrow>
     start_state (in_schema w) (latest_spec c (in_workflow_id w) (in_run_id w)) = st \<and>
     rs_super_step st = k \<and>
     (\<forall>t. latest_spec c (in_workflow_id w) (in_run_id w) = Some t \<longrightarrow> snap_step t = k)"

lemma latest_after_save_at:
  assumes "\<And>t. latest_spec c (in_workflow_id w) (in_run_id w) = Some t \<Longrightarrow> snap_step t \<le> snap_step s"
    and "of_run (in_workflow_id w) (in_run_id w) s"
  shows "latest_spec (c @ [s]) (in_workflow_id w) (in_run_id w) = Some s"
  using assms by (auto simp: latest_spec_save split: option.splits)

lemma pause_snapshot_simps [simp]:
  "sn_key (pause_snapshot w st n reason payload now) =
     \<lparr>workflow_id = in_workflow_id w, run_id = in_run_id w, super_step = n\<rparr>"
  "sn_values (pause_snapshot w st n reason None now) = rs_values st"
  by (simp_all add: pause_snapshot_def)

lemma stands_at_schema: "stands_at w c k st \<Longrightarrow> rs_schema st = in_schema w"
  by (auto simp: stands_at_def start_state_def from_snapshot_def run_state_new_def split: option.splits)

lemma stands_at_pause:
  assumes "stands_at w c k st"
  shows "stands_at w (c @ [pause_snapshot w st k reason None now]) k st"
proof -
  let ?s = "pause_snapshot w st k reason None now"
  have "latest_spec (c @ [?s]) (in_workflow_id w) (in_run_id w) = Some ?s"
    using assms by (intro latest_after_save_at) (auto simp: stands_at_def of_run_def)
  moreover have "start_state (in_schema w) (Some ?s) = st"
    using assms stands_at_schema [OF assms]
    by (simp add: start_state_def from_snapshot_def stands_at_def)
  ultimately show ?thesis using assms by (simp add: stands_at_def)
qed

lemma stands_at_layer:
  assumes "stands_at w c k st" and "rs_schema st' = in_schema w" and "rs_super_step st' = Suc k"
  shows "stands_at w (c @ [layer_snapshot (in_workflow_id w) (in_run_id w) (Suc k) st' now]) (Suc k) st'"
proof -
  let ?s = "layer_snapshot (in_workflow_id w) (in_run_id w) (Suc k) st' now"
  have "latest_spec (c @ [?s]) (in_workflow_id w) (in_run_id w) = Some ?s"
    using assms(1) by (intro latest_after_save_at) (auto simp: stands_at_def of_run_def)
  moreover have "start_state (in_schema w) (Some ?s) = st'"
    using assms(2,3) by (simp add: start_state_def from_snapshot_def)
  ultimately show ?thesis using assms(3) by (simp add: stands_at_def)
qed

text \<open>
  Resuming from there re-enters the loop at layer \<open>k\<close>, with the skip flag set, when the answer neither edits the state
  nor jumps.
\<close>

fun plain_answer :: "command \<Rightarrow> bool" where
  "plain_answer Continue = True"
| "plain_answer (Resume v) = True"
| "plain_answer (Update es) = False"
| "plain_answer (Goto sid) = False"

lemma resume_answer:
  assumes "stands_at w c k st" and "latest_spec c (in_workflow_id w) (in_run_id w) \<noteq> None"
    and "topo_sort (in_dag w) = Inr order" and "plain_answer cmd"
  shows "int_resume im_save im_latest w now cmd c =
    int_layers im_save w now k (drop k (layered (in_dag w) order)) k st (fst (command_parts cmd)) ctrl_new True c"
proof -
  from assms(2) obtain t where t: "latest_spec c (in_workflow_id w) (in_run_id w) = Some t" by blast
  obtain rv where cmd: "command_parts cmd = (rv, [], None)" using assms(4) by (cases cmd) auto
  have "from_snapshot (in_schema w) (sn_values t) (snap_step t) = st" "rs_super_step st = k"
    using assms(1) t by (auto simp: stands_at_def start_state_def)
  then show ?thesis
    using t assms(3) cmd int_layers_drop [of 0 k im_save w now "layered (in_dag w) order" st rv ctrl_new True c]
    by (simp add: int_resume_def im_store.latest_refines [OF refl] run_inner_def)
qed

lemma resume_from:
  assumes "stands_at w c k st" and "latest_spec c (in_workflow_id w) (in_run_id w) \<noteq> None"
    and "topo_sort (in_dag w) = Inr order"
  shows "int_resume im_save im_latest w now Continue c =
    int_layers im_save w now k (drop k (layered (in_dag w) order)) k st None ctrl_new True c"
  using resume_answer [OF assms, of Continue] by simp

lemma run_from:
  assumes "stands_at w c k st" and "topo_sort (in_dag w) = Inr order"
  shows "int_run im_save im_latest w now c =
    int_layers im_save w now k (drop k (layered (in_dag w) order)) k st None ctrl_new False c"
  using assms int_layers_drop [of 0 k im_save w now "layered (in_dag w) order" st None ctrl_new False c]
  by (simp add: int_run_def im_store.latest_refines [OF refl] run_inner_def stands_at_def)

subsection \<open>Pausing does not change the result\<close>

lemma topo_to_stateful:
  "topo_sort (to_plain d) = topo_sort (to_stateful d)"
  "layered (to_plain d) order = layered (to_stateful d) order"
proof -
  have succs: "succs (to_plain d) = succs (to_stateful d)"
    by (simp add: succs_def to_plain_def to_stateful_def fun_eq_iff)
  have keys: "dag_keys (to_plain d) = dag_keys (to_stateful d)"
    by (simp add: dag_keys_def to_plain_def to_stateful_def case_prod_unfold)
  have kahn: "kahn (to_plain d) ind q out = kahn (to_stateful d) ind q out" for ind q out
    using succs
  proof (induction "to_plain d" ind q out rule: kahn.induct)
    case (1 ind q out)
    then show ?case by (subst (1 2) kahn.simps) (auto simp: Let_def split: prod.splits)
  qed
  show "topo_sort (to_plain d) = topo_sort (to_stateful d)"
    by (simp add: topo_sort_def indegrees_of_def keys kahn) (simp add: to_plain_def to_stateful_def)
  have deepen: "compute_depths (to_plain d) ss dep = compute_depths (to_stateful d) ss dep" for ss dep
    using succs by (induction "to_plain d" ss dep rule: compute_depths.induct) simp_all
  show "layered (to_plain d) order = layered (to_stateful d) order"
    by (simp add: layered_def deepen)
qed

lemma int_layers_plain:
  assumes "in_dag w = to_plain d" and "set layer \<subseteq> set (dag_keys d)"
    and "ic_inner ctrl = None" and "start \<le> idx" and "check_breaks (in_before w) layer skip = (None, skip1)"
  shows "\<exists>rv' ctrl'. ic_inner ctrl' = None \<and>
    int_layers im_save w now start (layer # layers) idx st rv ctrl skip c =
    (case run_layer (to_stateful d) st layer of
       Inl e \<Rightarrow> (Inl e, c)
     | Inr st' \<Rightarrow>
         (let c1 = c @ [layer_snapshot (in_workflow_id w) (in_run_id w) (Suc idx) st' (now (Suc idx))]
          in case check_breaks (in_after w) layer skip1 of
               (Some sid, _) \<Rightarrow> (Inr (Paused (Suc idx) (After sid) None), c1)
             | (None, skip2) \<Rightarrow> int_layers im_save w now start layers (Suc idx) st' rv' ctrl' skip2 c1))"
proof -
  from assms(2) have "\<forall>sid\<in>set layer. sid \<in> set (dag_keys d)" by blast
  from run_seq_plain [OF assms(3) this, of st rv "[]"] obtain rv' ctrl' where
    seq: "run_seq (to_plain d) st layer rv ctrl [] =
      (case try_then (spawn_layer (to_stateful d) st layer) (await_all Internal) of
         Inl e \<Rightarrow> LayerError e | Inr wss \<Rightarrow> LayerWrites (concat wss), rv', ctrl')"
    and inner: "ic_inner ctrl' = None" unfolding append_Nil by blast
  show ?thesis
  proof (cases "try_then (spawn_layer (to_stateful d) st layer) (await_all Internal)")
    case (Inl e)
    then have "run_layer (to_stateful d) st layer = Inl e"
      by (cases "spawn_layer (to_stateful d) st layer") (simp_all add: run_layer_def)
    with Inl seq assms inner show ?thesis by (auto simp: Let_def)
  next
    case (Inr wss)
    then have layer: "run_layer (to_stateful d) st layer =
        (case merge_writes st (concat wss) of (Inl e, _) \<Rightarrow> Inl e | (Inr _, m) \<Rightarrow> Inr (rs_advance m))"
      by (cases "spawn_layer (to_stateful d) st layer") (simp_all add: run_layer_def)
    obtain r m where "merge_writes st (concat wss) = (r, m)" by force
    with layer Inr seq assms inner show ?thesis by (cases r) (auto simp: Let_def im_save_def intro!: exI [of _ rv'] exI [of _ ctrl'] split: prod.splits option.splits)
  qed
qed

text \<open>Answering a paused run, one command for each pause, until it does not pause any more or no answer is left.\<close>

fun drive ::
  "interruptible \<Rightarrow> (nat \<Rightarrow> int) \<Rightarrow> command list \<Rightarrow> run_outcome result \<times> im_checkpointer \<Rightarrow>
   run_outcome result \<times> im_checkpointer" where
  "drive w now (cmd # cmds) (Inr (Paused k reason payload), c) =
     drive w now cmds (int_resume im_save im_latest w now cmd c)"
| "drive w now cmds x = x"

lemma drive_final [simp]:
  "drive w now cmds (Inl e, c) = (Inl e, c)" "drive w now cmds (Inr (Done st), c) = (Inr (Done st), c)"
  by (cases cmds; simp)+

fun outcome_of :: "run_state result \<Rightarrow> run_outcome result" where
  "outcome_of (Inl e) = Inl e"
| "outcome_of (Inr st) = Inr (Done st)"

lemma drive_layers:
  assumes "in_dag w = to_plain d" and "topo_sort (to_plain d) = Inr order"
    and "\<forall>layer\<in>set (layered (to_plain d) order). set layer \<subseteq> set (dag_keys d) \<and>
      length (filter (\<lambda>s. s \<in> in_before w) layer) \<le> 1"
    and "drop k (layered (to_plain d) order) = todo" and "stands_at w c k st"
    and "ic_inner ctrl = None" and "2 * length todo \<le> length cmds" and "list_all plain_answer cmds"
  shows "fst (drive w now cmds (int_layers im_save w now k todo k st rv ctrl skip c)) =
    outcome_of (ideal_run (to_stateful d) st todo)"
  using assms(4-8)
proof (induction todo arbitrary: k st rv ctrl skip c cmds)
  case (Cons layer todo)
  have "layer \<in> set (layered (to_plain d) order)"
    using Cons.prems(1) by (metis list.set_intros(1) in_set_dropD)
  with assms(3) have layer: "set layer \<subseteq> set (dag_keys d)"
    and one: "length (filter (\<lambda>s. s \<in> in_before w) layer) \<le> 1" by auto
  have rest: "drop (Suc k) (layered (to_plain d) order) = todo"
    using Cons.prems(1) by (metis drop_Suc tl_drop list.sel(3))
  have new: "ic_inner ctrl_new = None" by (simp add: ctrl_new_def)
  have pass: "fst (drive w now cmds (int_layers im_save w now k (layer # todo) k st rv ctrl skip c)) =
      outcome_of (ideal_run (to_stateful d) st (layer # todo))"
    if "check_breaks (in_before w) layer skip = (None, skip1)" and "stands_at w c k st"
      and "ic_inner ctrl = None" and "Suc (2 * length todo) \<le> length cmds" and "list_all plain_answer cmds"
    for cmds rv ctrl skip skip1 c
  proof -
    from int_layers_plain [OF assms(1) layer that(3) order_refl [of k] that(1), where now = now and
        layers = todo and st = st and rv = rv and c = c ] obtain rv' ctrl' where
      ctrl': "ic_inner ctrl' = None" and
      eq: "int_layers im_save w now k (layer # todo) k st rv ctrl skip c =
        (case run_layer (to_stateful d) st layer of
           Inl e \<Rightarrow> (Inl e, c)
         | Inr st' \<Rightarrow>
             (let c1 = c @ [layer_snapshot (in_workflow_id w) (in_run_id w) (Suc k) st' (now (Suc k))]
              in case check_breaks (in_after w) layer skip1 of
                   (Some sid, _) \<Rightarrow> (Inr (Paused (Suc k) (After sid) None), c1)
                 | (None, skip2) \<Rightarrow> int_layers im_save w now k todo (Suc k) st' rv' ctrl' skip2 c1))"
      by blast
    show ?thesis
    proof (cases "run_layer (to_stateful d) st layer")
      case (Inr st')
      let ?c = "c @ [layer_snapshot (in_workflow_id w) (in_run_id w) (Suc k) st' (now (Suc k))]"
      have st': "stands_at w ?c (Suc k) st'"
        using run_layer_Inr [OF Inr] that(2) stands_at_schema [OF that(2)]
        by (intro stands_at_layer) (auto simp: stands_at_def)
      obtain hit skip2 where after: "check_breaks (in_after w) layer skip1 = (hit, skip2)" by force
      show ?thesis
      proof (cases hit)
        case None
        have "2 * length todo \<le> length cmds" using that(4) by simp
        from Cons.IH [OF rest st' ctrl' this that(5), of rv' skip2] show ?thesis
          unfolding eq using Inr None after by (simp add: Let_def int_layers_start [of k "Suc k" "Suc k"])
      next
        case (Some sid)
        note answers = that(4,5)
        obtain cmd cmds' where cmds: "cmds = cmd # cmds'" "2 * length todo \<le> length cmds'" "plain_answer cmd"
          "list_all plain_answer cmds'" using answers by (cases cmds) auto
        have "latest_spec ?c (in_workflow_id w) (in_run_id w) \<noteq> None"
          by (simp add: latest_spec_save of_run_def layer_snapshot_def split: option.splits)
        from resume_answer [OF st' this _ cmds(3)] assms(1,2) rest
        have "int_resume im_save im_latest w now cmd ?c =
            int_layers im_save w now (Suc k) todo (Suc k) st' (fst (command_parts cmd)) ctrl_new True ?c" by simp
        with Cons.IH [OF rest st' new cmds(2,4)] show ?thesis
          unfolding eq using Inr Some after cmds(1) by (simp add: Let_def)
      qed
    next
      case (Inl e)
      then show ?thesis unfolding eq by simp
    qed
  qed
  show ?case
  proof (cases "check_breaks (in_before w) layer skip")
    case (Pair hit skip1)
    show ?thesis
    proof (cases hit)
      case None
      with Pair pass Cons.prems(2-5) show ?thesis by simp
    next
      case (Some sid)
      let ?c = "c @ [pause_snapshot w st k (Before sid) None (now (Suc k))]"
      have paused: "int_layers im_save w now k (layer # todo) k st rv ctrl skip c =
          (Inr (Paused (Suc k) (Before sid) None), ?c)"
        using Pair Some by (simp add: Let_def pause_at_def im_save_def)
      have st: "stands_at w ?c k st" by (rule stands_at_pause [OF Cons.prems(2)])
      obtain cmd cmds' where cmds: "cmds = cmd # cmds'" "Suc (2 * length todo) \<le> length cmds'" "plain_answer cmd"
        "list_all plain_answer cmds'" using Cons.prems(4,5) by (cases cmds) auto
      have "latest_spec ?c (in_workflow_id w) (in_run_id w) \<noteq> None"
        by (simp add: latest_spec_save of_run_def split: option.splits)
      from resume_answer [OF st this _ cmds(3)] assms(1,2) Cons.prems(1)
      have resume: "int_resume im_save im_latest w now cmd ?c =
          int_layers im_save w now k (layer # todo) k st (fst (command_parts cmd)) ctrl_new True ?c" by simp
      have "filter (\<lambda>s. s \<in> in_before w) layer \<noteq> []"
        using Pair Some check_breaks_none [of layer "in_before w" skip]
        by (auto simp: filter_empty_conv)
      with one obtain s where "filter (\<lambda>s. s \<in> in_before w) layer = [s]"
        by (cases "filter (\<lambda>s. s \<in> in_before w) layer") auto
      then have through: "check_breaks (in_before w) layer True = (None, False)" by (rule check_breaks_one)
      from pass [OF through st new cmds(2,4)] show ?thesis
        unfolding paused cmds(1) drive.simps resume .
    qed
  qed
qed simp

lemma keys_to_plain: "dag_keys (to_plain d) = dag_keys d"
  by (simp add: dag_keys_def to_plain_def case_prod_unfold)

lemma dag_wf_to_plain: "dag_wf d \<Longrightarrow> dag_wf (to_plain d)"
  by (simp add: dag_wf_def bt_wf_def to_plain_def case_prod_unfold comp_def)

lemma layer_keys:
  assumes "dag_wf d" and "topo_sort d = Inr order" and "layer \<in> set (layered d order)"
  shows "set layer \<subseteq> set (dag_keys d)"
proof -
  from assms(3) obtain i where "i < length (layered d order)" "layer = layered d order ! i"
    by (auto simp: in_set_conv_nth)
  then have "layer = filter (\<lambda>s. layer_index d order s = i) order" by (simp add: layered_facts(3))
  then show ?thesis using topo_sort_sound(2) [OF assms(1,2)] by auto
qed

subsection \<open>A layer with two breakpoints\<close>

fun jumps :: "command \<Rightarrow> bool" where
  "jumps (Goto _) = True"
| "jumps _ = False"

text \<open>Resuming with a list of commands, one after the other; the outcomes in order.\<close>

fun resume_all ::
  "interruptible \<Rightarrow> (nat \<Rightarrow> int) \<Rightarrow> command list \<Rightarrow> im_checkpointer \<Rightarrow> run_outcome result list" where
  "resume_all w now [] c = []"
| "resume_all w now (cmd # cmds) c =
     (case int_resume im_save im_latest w now cmd c of (r, c') \<Rightarrow> r # resume_all w now cmds c')"

lemma resume_blocked:
  assumes "topo_sort (in_dag w) = Inr order" and "k < length (layered (in_dag w) order)"
    and "filter (\<lambda>s. s \<in> in_before w) (layered (in_dag w) order ! k) = a # b # rest"
    and "latest_spec c (in_workflow_id w) (in_run_id w) = Some t" and "snap_step t = k"
    and "\<not> jumps cmd"
  shows "\<exists>t' c'. int_resume im_save im_latest w now cmd c = (Inr (Paused (Suc k) (Before b) None), c') \<and>
    latest_spec c' (in_workflow_id w) (in_run_id w) = Some t' \<and> snap_step t' = k"
proof -
  obtain rv edits where cmd: "command_parts cmd = (rv, edits, None)" using assms(6) by (cases cmd) auto
  let ?all = "layered (in_dag w) order"
  let ?st = "from_snapshot (in_schema w) (apply_edits (sn_values t) edits) k"
  have d: "drop k ?all = ?all ! k # drop (Suc k) ?all" using assms(2) by (simp add: Cons_nth_drop_Suc)
  have "int_resume im_save im_latest w now cmd c = int_layers im_save w now k ?all 0 ?st rv ctrl_new True c"
    using assms(1,4,5) cmd
    by (simp add: int_resume_def im_store.latest_refines [OF refl] run_inner_def from_snapshot_def)
  also have "\<dots> = int_layers im_save w now k (?all ! k # drop (Suc k) ?all) k ?st rv ctrl_new True c"
    using int_layers_drop [of 0 k im_save w now ?all] by (simp add: d)
  also have "\<dots> = (Inr (Paused (Suc k) (Before b) None),
      c @ [pause_snapshot w ?st k (Before b) None (now (Suc k))])"
    using check_breaks_two [OF assms(3)] by (simp add: Let_def pause_at_def im_save_def)
  finally have run: "int_resume im_save im_latest w now cmd c = (Inr (Paused (Suc k) (Before b) None),
      c @ [pause_snapshot w ?st k (Before b) None (now (Suc k))])" .
  have "latest_spec (c @ [pause_snapshot w ?st k (Before b) None (now (Suc k))]) (in_workflow_id w) (in_run_id w) =
      Some (pause_snapshot w ?st k (Before b) None (now (Suc k)))"
    using assms(4,5) by (intro latest_after_save_at) (auto simp: of_run_def)
  with run show ?thesis by auto
qed

subsection \<open>Properties\<close>

text \<open>
  (C2) Breakpoints only delay a run. Take a graph of plain steps with any breakpoints after steps and at most one
  before the steps of each layer (two of them block the run, see \<open>second_breakpoint_blocks\<close>). Run it on an empty
  history and answer every pause with a command that neither edits the state nor jumps: after at most two answers
  for each layer it is done, with exactly the final state, or the error, of the undisturbed pass of the
  stateful runner.
\<close>

theorem pauses_do_not_change_result:
  assumes "dag_wf d" and "in_dag w = to_plain d" and "topo_sort (to_plain d) = Inr order"
    and "\<forall>layer\<in>set (layered (to_plain d) order). length (filter (\<lambda>s. s \<in> in_before w) layer) \<le> 1"
    and "latest_spec c (in_workflow_id w) (in_run_id w) = None"
    and "list_all plain_answer cmds" and "2 * length (layered (to_plain d) order) \<le> length cmds"
  shows "fst (drive w now cmds (int_run im_save im_latest w now c)) =
    outcome_of (ideal_run (to_stateful d) (run_state_new (in_schema w)) (layered (to_plain d) order))"
proof -
  have st: "stands_at w c 0 (run_state_new (in_schema w))"
    using assms(5) by (simp add: stands_at_def start_state_def run_state_new_def)
  have inner: "ic_inner ctrl_new = None" by (simp add: ctrl_new_def)
  have layers: "\<forall>layer\<in>set (layered (to_plain d) order). set layer \<subseteq> set (dag_keys d) \<and>
      length (filter (\<lambda>s. s \<in> in_before w) layer) \<le> 1"
    using assms(4) layer_keys [OF dag_wf_to_plain [OF assms(1)] assms(3)] by (simp add: keys_to_plain)
  have "int_run im_save im_latest w now c =
      int_layers im_save w now 0 (drop 0 (layered (to_plain d) order)) 0 (run_state_new (in_schema w)) None ctrl_new False c"
    using run_from [OF st] assms(2,3) by simp
  with drive_layers [OF assms(2,3) layers refl st inner, of cmds now None False] assms(6,7)
  show ?thesis by simp
qed

definition demo_plain :: "(run_state \<Rightarrow> writes result) dag" where
  "demo_plain =
     dag_edge (dag_step (dag_step (dag_builder ''a'')
       ''b'' (\<lambda>st. Inr [(''y'', rs_read st ''x'')])) ''a'' (\<lambda>_. Inr [(''x'', Bool True)])) ''a'' ''b''"

definition demo_interruptible :: "step_id set \<Rightarrow> step_id set \<Rightarrow> interruptible" where
  "demo_interruptible before after =
     \<lparr>in_workflow_id = ''w'', in_run_id = ''r'', in_dag = to_plain demo_plain, in_schema = demo_schema,
      in_before = before, in_after = after\<rparr>"

lemma demo_plain_facts:
  "dag_wf demo_plain" "topo_sort (to_plain demo_plain) = Inr [''a'', ''b'']"
  "layered (to_plain demo_plain) [''a'', ''b''] = [[''a''], [''b'']]"
  unfolding demo_plain_def by (intro dag_edge_wf dag_step_wf dag_builder_wf, code_simp, code_simp)

theorem pauses_do_not_change_result_witness:
  "fst (drive (demo_interruptible {''a'', ''b''} {''a''}) (\<lambda>_. 0) [Continue, Resume Null, Continue, Continue]
      (int_run im_save im_latest (demo_interruptible {''a'', ''b''} {''a''}) (\<lambda>_. 0) [])) =
   outcome_of (ideal_run (to_stateful demo_plain) (run_state_new demo_schema) [[''a''], [''b'']])"
  using pauses_do_not_change_result [of demo_plain "demo_interruptible {''a'', ''b''} {''a''}" "[''a'', ''b'']" "[]"
      "[Continue, Resume Null, Continue, Continue]" "\<lambda>_. 0"]
  by (simp add: demo_plain_facts demo_interruptible_def latest_spec_def del: drive.simps)

text \<open>
  Two breakpoints before steps of one layer block the run for good: once it stands before that
  layer, every resume that does not jump, whatever its command, value or edits, pauses again at the
  second breakpoint; no number of resumes gets past it.
\<close>

theorem second_breakpoint_blocks:
  assumes "topo_sort (in_dag w) = Inr order" and "k < length (layered (in_dag w) order)"
    and "filter (\<lambda>s. s \<in> in_before w) (layered (in_dag w) order ! k) = a # b # rest"
    and "latest_spec c (in_workflow_id w) (in_run_id w) = Some t" and "snap_step t = k"
    and "\<forall>cmd\<in>set cmds. \<not> jumps cmd"
  shows "resume_all w now cmds c = map (\<lambda>_. Inr (Paused (Suc k) (Before b) None)) cmds"
  using assms(4-6)
proof (induction cmds arbitrary: c t)
  case (Cons cmd cmds)
  then have "\<not> jumps cmd" by simp
  from resume_blocked [OF assms(1-3) Cons.prems(1,2) this, of now] obtain t' c' where
    "int_resume im_save im_latest w now cmd c = (Inr (Paused (Suc k) (Before b) None), c')"
    "latest_spec c' (in_workflow_id w) (in_run_id w) = Some t'" "snap_step t' = k" by blast
  with Cons.IH [of c' t'] Cons.prems(3) show ?case by simp
qed simp

definition demo_wide :: interruptible where
  "demo_wide =
     \<lparr>in_workflow_id = ''w'', in_run_id = ''r'',
      in_dag = to_plain (dag_step (dag_step (dag_builder ''a'') ''b'' (\<lambda>_. Inr [])) ''a'' (\<lambda>_. Inr [])),
      in_schema = demo_schema, in_before = {''a'', ''b''}, in_after = {}\<rparr>"

theorem second_breakpoint_blocks_witness:
  "resume_all demo_wide (\<lambda>_. 0) [Continue, Resume Null, Update [(''x'', Null)]]
     (snd (int_run im_save im_latest demo_wide (\<lambda>_. 0) [])) =
   map (\<lambda>_. Inr (Paused (Suc 0) (Before ''a'') None)) [Continue, Resume Null, Update [(''x'', Null)]]"
proof -
  have order: "topo_sort (in_dag demo_wide) = Inr [''b'', ''a'']" by code_simp
  have layers: "layered (in_dag demo_wide) [''b'', ''a''] = [[''b'', ''a'']]" by code_simp
  have run: "snd (int_run im_save im_latest demo_wide (\<lambda>_. 0) []) =
      [pause_snapshot demo_wide (run_state_new demo_schema) 0 (Before ''b'') None 0]"
    using run_state_new_step [of demo_schema]
    by (simp add: int_run_def im_latest_def run_inner_def order layers pause_at_def im_save_def
        start_state_def Let_def)
      (simp add: demo_wide_def)
  show ?thesis
    by (rule second_breakpoint_blocks [OF order])
       (simp_all add: layers run, simp_all add: demo_wide_def latest_spec_def of_run_def, simp_all)
qed

text \<open>
  The skip flag of a resume is spent on whatever breakpoint comes next, not on the one the run
  paused at. When a run stands before a layer with one breakpoint, a fresh \<open>run\<close> pauses there and a
  \<open>resume\<close> does not, also when the pause that is being resumed was an \<open>After\<close> or dynamic one and the
  breakpoint has never fired.
\<close>

theorem resume_skips_next_breakpoint:
  assumes "topo_sort (in_dag w) = Inr order" and "k < length (layered (in_dag w) order)"
    and "filter (\<lambda>s. s \<in> in_before w) (layered (in_dag w) order ! k) = [sid]"
    and "stands_at w c k st" and "latest_spec c (in_workflow_id w) (in_run_id w) \<noteq> None"
  shows "fst (int_run im_save im_latest w now c) = Inr (Paused (Suc k) (Before sid) None) \<and>
    fst (int_resume im_save im_latest w now Continue c) \<noteq> Inr (Paused (Suc k) (Before sid) None)"
proof
  let ?layers = "layered (in_dag w) order"
  have d: "drop k ?layers = ?layers ! k # drop (Suc k) ?layers" using assms(2) by (simp add: Cons_nth_drop_Suc)
  note check = check_breaks_one [OF assms(3)]
  show "fst (int_run im_save im_latest w now c) = Inr (Paused (Suc k) (Before sid) None)"
    unfolding run_from [OF assms(4,1)] d by (simp add: check pause_at_def im_save_def Let_def)
  have later: "fst (int_layers im_save w now s ls i st' rv ctrl skip c') \<noteq> Inr (Paused (Suc k) (Before sid) None)"
    if "k < i" for s ls i st' rv ctrl skip c'
    using that
    by (induction ls arbitrary: i st' rv ctrl skip c')
       (auto simp: Let_def pause_at_def im_save_def split: prod.splits option.splits sum.splits layer_result.splits)
  show "fst (int_resume im_save im_latest w now Continue c) \<noteq> Inr (Paused (Suc k) (Before sid) None)"
    unfolding resume_from [OF assms(4,5,1)] d
    by (auto simp: check Let_def pause_at_def im_save_def later
        split: prod.splits option.splits sum.splits layer_result.splits)
qed

theorem resume_skips_next_breakpoint_witness:
  "let w = demo_interruptible {''b''} {''a''}; c = snd (int_run im_save im_latest w (\<lambda>_. 0) [])
   in (case fst (int_run im_save im_latest w (\<lambda>_. 0) []) of Inr (Paused _ (After s) _) \<Rightarrow> s = ''a'' | _ \<Rightarrow> False) \<and>
      fst (int_resume im_save im_latest w (\<lambda>_. 0) Continue c) \<noteq> Inr (Paused 2 (Before ''b'') None)"
proof -
  let ?w = "demo_interruptible {''b''} {''a''}"
  let ?r = "int_run im_save im_latest ?w (\<lambda>_. 0) []"
  have paused: "case fst ?r of Inr (Paused _ (After s) _) \<Rightarrow> s = ''a'' | _ \<Rightarrow> False" by code_simp
  have order: "topo_sort (in_dag ?w) = Inr [''a'', ''b'']" and layers: "layered (in_dag ?w) [''a'', ''b''] = [[''a''], [''b'']]"
    by (simp_all add: demo_interruptible_def demo_plain_facts)
  have "case latest_spec (snd ?r) ''w'' ''r'' of None \<Rightarrow> False | Some t \<Rightarrow> snap_step t = 1" by code_simp
  then obtain t where t: "latest_spec (snd ?r) ''w'' ''r'' = Some t" "snap_step t = 1"
    by (auto split: option.splits)
  have "stands_at ?w (snd ?r) 1 (start_state (in_schema ?w) (latest_spec (snd ?r) ''w'' ''r''))"
    using t by (simp add: stands_at_def demo_interruptible_def start_state_def from_snapshot_def)
  from resume_skips_next_breakpoint [OF order _ _ this, where sid = "''b''" and now = "\<lambda>_. 0"] paused t layers
  show ?thesis by (simp add: Let_def numeral_2_eq_2) (simp add: demo_interruptible_def)
qed

end
