(* ===== verification/Registry.thy ===== *)
theory Registry
  imports Core
begin

text \<open>
  The registry of parked human approvals (\<open>crates/workflow/src/interrupt_registry.rs\<close>), in memory
  and over SQL. Every operation is one critical section or, for SQL, one statement that changes
  rows, so the operations of concurrent nodes form a sequence. The interface is the locale
  \<open>interrupt_registry\<close>: each operation refines its step of an abstract map from ids to approvals.
  Both back ends are interpretations; the guarantees of the module (one winning claim, one
  delivered resume, escalation) are proved once, in the locale.
\<close>

subsection \<open>Records (interrupt_registry.rs)\<close>

datatype interrupt_status = Pending | Claimed | Resolved | Expired | Escalated

record pending_interrupt =
  pi_interrupt_id :: string
  pi_workflow :: string
  pi_run :: string
  pi_step :: nat
  pi_requested_role :: "string option"
  pi_requested_clearance :: "string option"
  pi_payload :: json
  pi_created_at_ms :: int
  pi_deadline_ms :: "int option"
  pi_assignee :: "string option"
  pi_status :: interrupt_status

record interrupt_filter =
  f_role :: "string option"
  f_status :: "interrupt_status option"
  f_workflow :: "string option"
  f_deadline_before :: "int option"

definition filter_matches :: "interrupt_filter \<Rightarrow> pending_interrupt \<Rightarrow> bool" where
  "filter_matches f p \<longleftrightarrow>
     (case f_role f of None \<Rightarrow> True | Some role \<Rightarrow> pi_requested_role p = Some role) \<and>
     (case f_status f of None \<Rightarrow> True | Some status \<Rightarrow> pi_status p = status) \<and>
     (case f_workflow f of None \<Rightarrow> True | Some w \<Rightarrow> pi_workflow p = w) \<and>
     (case f_deadline_before f of
        None \<Rightarrow> True
      | Some before \<Rightarrow> (case pi_deadline_ms p of None \<Rightarrow> False | Some d \<Rightarrow> d < before))"

record escalation_policy =
  after_ms :: int
  to_role :: string

datatype registry_error =
    AlreadyClaimed string
  | NotFound string
  | AlreadyResolved string

fun registry_error_text :: "registry_error \<Rightarrow> string" where
  "registry_error_text (AlreadyClaimed i) = ''interrupt '' @ i @ '' already claimed''"
| "registry_error_text (NotFound i) = ''interrupt '' @ i @ '' not found''"
| "registry_error_text (AlreadyResolved i) = ''interrupt '' @ i @ '' already resolved''"

definition reg_err :: "registry_error \<Rightarrow> agent_error" where
  "reg_err e = Workflow (registry_error_text e)"

text \<open>
  \<open>format!("{:021}-{}", n, uuid)\<close>: the counter, padded with zeros to 21 digits, and a fresh UUID.
\<close>

definition pad_zeros :: "nat \<Rightarrow> string \<Rightarrow> string" where
  "pad_zeros w s = replicate (w - length s) (CHR ''0'') @ s"

definition next_id :: "nat \<Rightarrow> string \<Rightarrow> string \<times> nat" where
  "next_id counter uuid = (pad_zeros 21 (show_nat counter) @ ''-'' @ uuid, (counter + 1) mod 2 ^ 64)"

subsection \<open>The in-memory registry\<close>

text \<open>
  The hash map, in an arbitrary order of its entries. The answers below sort, so that they do not
  depend on that order.
\<close>

type_synonym im_registry = "(string \<times> pending_interrupt) list"

definition claimable :: "pending_interrupt \<Rightarrow> bool" where
  "claimable p \<longleftrightarrow> (pi_status p = Pending \<or> pi_status p = Escalated) \<and> pi_assignee p = None"

definition claimed_by :: "string \<Rightarrow> pending_interrupt \<Rightarrow> pending_interrupt" where
  "claimed_by person p = p\<lparr>pi_assignee := Some person, pi_status := Claimed\<rparr>"

text \<open>
  The difference is an \<open>i64_sub\<close>; \<open>overdue\<close> is the same test on unbounded integers, which the SQL statement and the
  specification use.
\<close>

definition im_overdue :: "int \<Rightarrow> escalation_policy \<Rightarrow> pending_interrupt \<Rightarrow> bool" where
  "im_overdue now pol p \<longleftrightarrow>
     pi_status p = Pending \<and> i64_sub now (pi_created_at_ms p) \<ge> after_ms pol"

definition overdue :: "int \<Rightarrow> escalation_policy \<Rightarrow> pending_interrupt \<Rightarrow> bool" where
  "overdue now pol p \<longleftrightarrow> pi_status p = Pending \<and> now - pi_created_at_ms p \<ge> after_ms pol"

definition escalate :: "escalation_policy \<Rightarrow> pending_interrupt \<Rightarrow> pending_interrupt" where
  "escalate pol p = p\<lparr>pi_status := Escalated, pi_requested_role := Some (to_role pol)\<rparr>"

definition im_register :: "im_registry \<Rightarrow> pending_interrupt \<Rightarrow> unit result \<times> im_registry" where
  "im_register g p = (Inr (), AList.update (pi_interrupt_id p) p g)"

definition im_list_interrupts :: "im_registry \<Rightarrow> interrupt_filter \<Rightarrow> pending_interrupt list result" where
  "im_list_interrupts g f = Inr (sort_key pi_interrupt_id (filter (filter_matches f) (map snd g)))"

definition im_claim :: "im_registry \<Rightarrow> string \<Rightarrow> string \<Rightarrow> unit result \<times> im_registry" where
  "im_claim g i person =
     (case map_of g i of
        None \<Rightarrow> (Inl (reg_err (NotFound i)), g)
      | Some p \<Rightarrow>
          (if claimable p then (Inr (), AList.update i (claimed_by person p) g)
           else (Inl (reg_err (AlreadyClaimed i)), g)))"

text \<open>The resolution is not stored: the code ignores the argument.\<close>

definition im_resume :: "im_registry \<Rightarrow> string \<Rightarrow> json \<Rightarrow> unit result \<times> im_registry" where
  "im_resume g i resolution =
     (case map_of g i of
        None \<Rightarrow> (Inl (reg_err (NotFound i)), g)
      | Some p \<Rightarrow>
          (if pi_status p = Resolved then (Inl (reg_err (AlreadyResolved i)), g)
           else (Inr (), AList.update i (p\<lparr>pi_status := Resolved\<rparr>) g)))"

definition im_get :: "im_registry \<Rightarrow> string \<Rightarrow> pending_interrupt option result" where
  "im_get g i = Inr (map_of g i)"

definition im_tick :: "im_registry \<Rightarrow> int \<Rightarrow> escalation_policy \<Rightarrow> string list result \<times> im_registry" where
  "im_tick g now pol =
     (Inr (sort (map (pi_interrupt_id \<circ> snd) (filter (im_overdue now pol \<circ> snd) g))),
      map (\<lambda>(k, p). (k, if im_overdue now pol p then escalate pol p else p)) g)"

subsection \<open>The SQL registry\<close>

record interrupt_row =
  ri_id :: string
  ri_workflow :: string
  ri_run :: string
  ri_step :: int
  ri_role :: "string option"
  ri_clearance :: "string option"
  ri_payload_json :: string
  ri_created :: int
  ri_deadline :: "int option"
  ri_assignee :: "string option"
  ri_status :: string

fun status_str :: "interrupt_status \<Rightarrow> string" where
  "status_str Pending = ''Pending''"
| "status_str Claimed = ''Claimed''"
| "status_str Resolved = ''Resolved''"
| "status_str Expired = ''Expired''"
| "status_str Escalated = ''Escalated''"

definition parse_status :: "string \<Rightarrow> interrupt_status" where
  "parse_status s =
     (if s = ''Claimed'' then Claimed else if s = ''Resolved'' then Resolved
      else if s = ''Expired'' then Expired else if s = ''Escalated'' then Escalated else Pending)"

lemma parse_status_str [simp]: "parse_status (status_str s) = s"
  by (cases s) (simp_all add: parse_status_def)

lemma status_str_inj [simp]: "status_str s = status_str t \<longleftrightarrow> s = t"
  by (metis parse_status_str)

definition row_to_pending :: "(string \<Rightarrow> json result) \<Rightarrow> interrupt_row \<Rightarrow> pending_interrupt result" where
  "row_to_pending dec r =
     try_then (dec (ri_payload_json r)) (\<lambda>payload.
       Inr \<lparr>pi_interrupt_id = ri_id r, pi_workflow = ri_workflow r, pi_run = ri_run r,
            pi_step = i64_as_u64 (ri_step r), pi_requested_role = ri_role r,
            pi_requested_clearance = ri_clearance r, pi_payload = payload,
            pi_created_at_ms = ri_created r, pi_deadline_ms = ri_deadline r,
            pi_assignee = ri_assignee r, pi_status = parse_status (ri_status r)\<rparr>)"

definition pending_row :: "string \<Rightarrow> pending_interrupt \<Rightarrow> interrupt_row" where
  "pending_row payload_json p =
     \<lparr>ri_id = pi_interrupt_id p, ri_workflow = pi_workflow p, ri_run = pi_run p,
      ri_step = u64_as_i64 (pi_step p), ri_role = pi_requested_role p,
      ri_clearance = pi_requested_clearance p, ri_payload_json = payload_json,
      ri_created = pi_created_at_ms p, ri_deadline = pi_deadline_ms p,
      ri_assignee = pi_assignee p, ri_status = status_str (pi_status p)\<rparr>"

type_synonym interrupt_table = "interrupt_row list"

definition sql_register ::
  "(json \<Rightarrow> string result) \<Rightarrow> interrupt_table \<Rightarrow> pending_interrupt \<Rightarrow> unit result \<times> interrupt_table" where
  "sql_register enc tab p =
     (case enc (pi_payload p) of
        Inl e \<Rightarrow> (Inl e, tab)
      | Inr j \<Rightarrow> (Inr (), upsert_by (\<lambda>r. ri_id r = pi_interrupt_id p) (pending_row j p) tab))"

fun sql_collect ::
  "(string \<Rightarrow> json result) \<Rightarrow> interrupt_filter \<Rightarrow> interrupt_row list \<Rightarrow> pending_interrupt list result" where
  "sql_collect dec f [] = Inr []"
| "sql_collect dec f (r # rs) =
     try_then (row_to_pending dec r) (\<lambda>p.
       try_then (sql_collect dec f rs) (\<lambda>ps. Inr (if filter_matches f p then p # ps else ps)))"

definition sql_list_interrupts ::
  "(string \<Rightarrow> json result) \<Rightarrow> interrupt_table \<Rightarrow> interrupt_filter \<Rightarrow> pending_interrupt list result" where
  "sql_list_interrupts dec tab f = sql_collect dec f (sort_key ri_id tab)"

definition sql_get ::
  "(string \<Rightarrow> json result) \<Rightarrow> interrupt_table \<Rightarrow> string \<Rightarrow> pending_interrupt option result" where
  "sql_get dec tab i =
     (case find (\<lambda>r. ri_id r = i) tab of
        None \<Rightarrow> Inr None
      | Some r \<Rightarrow> try_then (row_to_pending dec r) (\<lambda>p. Inr (Some p)))"

text \<open>An \<open>UPDATE ... WHERE\<close>: the number of affected rows and the new table.\<close>

definition update_where ::
  "(interrupt_row \<Rightarrow> bool) \<Rightarrow> (interrupt_row \<Rightarrow> interrupt_row) \<Rightarrow> interrupt_table \<Rightarrow> nat \<times> interrupt_table" where
  "update_where cond f tab = (length (filter cond tab), map (\<lambda>r. if cond r then f r else r) tab)"

definition sql_claim ::
  "(string \<Rightarrow> json result) \<Rightarrow> interrupt_table \<Rightarrow> string \<Rightarrow> string \<Rightarrow> unit result \<times> interrupt_table" where
  "sql_claim dec tab i person =
     (case update_where
             (\<lambda>r. ri_id r = i \<and> ri_assignee r = None \<and> ri_status r \<in> {''Pending'', ''Escalated''})
             (\<lambda>r. r\<lparr>ri_assignee := Some person, ri_status := ''Claimed''\<rparr>) tab of
        (rows_affected, tab') \<Rightarrow>
          (if rows_affected = 1 then (Inr (), tab')
           else (case sql_get dec tab' i of
                   Inl e \<Rightarrow> (Inl e, tab')
                 | Inr None \<Rightarrow> (Inl (reg_err (NotFound i)), tab')
                 | Inr (Some _) \<Rightarrow> (Inl (reg_err (AlreadyClaimed i)), tab'))))"

definition sql_resume ::
  "(string \<Rightarrow> json result) \<Rightarrow> interrupt_table \<Rightarrow> string \<Rightarrow> json \<Rightarrow> unit result \<times> interrupt_table" where
  "sql_resume dec tab i resolution =
     (case update_where (\<lambda>r. ri_id r = i \<and> ri_status r \<noteq> ''Resolved'')
             (\<lambda>r. r\<lparr>ri_status := ''Resolved''\<rparr>) tab of
        (rows_affected, tab') \<Rightarrow>
          (if rows_affected = 1 then (Inr (), tab')
           else (case sql_get dec tab' i of
                   Inl e \<Rightarrow> (Inl e, tab')
                 | Inr None \<Rightarrow> (Inl (reg_err (NotFound i)), tab')
                 | Inr (Some _) \<Rightarrow> (Inl (reg_err (AlreadyResolved i)), tab'))))"

text \<open>The two statements of \<open>tick\<close>, and their sequence.\<close>

definition row_overdue :: "int \<Rightarrow> escalation_policy \<Rightarrow> interrupt_row \<Rightarrow> bool" where
  "row_overdue now pol r \<longleftrightarrow> ri_status r = ''Pending'' \<and> now - ri_created r \<ge> after_ms pol"

definition sql_tick_select :: "interrupt_table \<Rightarrow> int \<Rightarrow> escalation_policy \<Rightarrow> string list" where
  "sql_tick_select tab now pol = map ri_id (sort_key ri_id (filter (row_overdue now pol) tab))"

definition sql_tick_update :: "interrupt_table \<Rightarrow> int \<Rightarrow> escalation_policy \<Rightarrow> interrupt_table" where
  "sql_tick_update tab now pol =
     snd (update_where (row_overdue now pol)
            (\<lambda>r. r\<lparr>ri_status := ''Escalated'', ri_role := Some (to_role pol)\<rparr>) tab)"

definition sql_tick ::
  "interrupt_table \<Rightarrow> int \<Rightarrow> escalation_policy \<Rightarrow> string list result \<times> interrupt_table" where
  "sql_tick tab now pol = (Inr (sql_tick_select tab now pol), sql_tick_update tab now pol)"

subsection \<open>Operations and the abstract registry\<close>

datatype reg_op =
    OpRegister pending_interrupt
  | OpList interrupt_filter
  | OpClaim string string
  | OpResume string json
  | OpGet string
  | OpTick int escalation_policy

datatype reg_answer =
    AnsUnit "unit result"
  | AnsList "pending_interrupt list result"
  | AnsGet "pending_interrupt option result"
  | AnsIds "string list result"

fun im_exec :: "im_registry \<Rightarrow> reg_op \<Rightarrow> reg_answer \<times> im_registry" where
  "im_exec g (OpRegister p) = (case im_register g p of (r, g') \<Rightarrow> (AnsUnit r, g'))"
| "im_exec g (OpList f) = (AnsList (im_list_interrupts g f), g)"
| "im_exec g (OpClaim i person) = (case im_claim g i person of (r, g') \<Rightarrow> (AnsUnit r, g'))"
| "im_exec g (OpResume i v) = (case im_resume g i v of (r, g') \<Rightarrow> (AnsUnit r, g'))"
| "im_exec g (OpGet i) = (AnsGet (im_get g i), g)"
| "im_exec g (OpTick now pol) = (case im_tick g now pol of (r, g') \<Rightarrow> (AnsIds r, g'))"

fun sql_exec ::
  "(json \<Rightarrow> string result) \<Rightarrow> (string \<Rightarrow> json result) \<Rightarrow> interrupt_table \<Rightarrow> reg_op \<Rightarrow>
   reg_answer \<times> interrupt_table" where
  "sql_exec enc dec g (OpRegister p) = (case sql_register enc g p of (r, g') \<Rightarrow> (AnsUnit r, g'))"
| "sql_exec enc dec g (OpList f) = (AnsList (sql_list_interrupts dec g f), g)"
| "sql_exec enc dec g (OpClaim i person) = (case sql_claim dec g i person of (r, g') \<Rightarrow> (AnsUnit r, g'))"
| "sql_exec enc dec g (OpResume i v) = (case sql_resume dec g i v of (r, g') \<Rightarrow> (AnsUnit r, g'))"
| "sql_exec enc dec g (OpGet i) = (AnsGet (sql_get dec g i), g)"
| "sql_exec enc dec g (OpTick now pol) = (case sql_tick g now pol of (r, g') \<Rightarrow> (AnsIds r, g'))"

text \<open>The abstract registry is a map from ids to approvals; \<open>reg_spec\<close> is one step of it.\<close>

type_synonym registry = "string \<rightharpoonup> pending_interrupt"

fun reg_spec :: "registry \<Rightarrow> reg_op \<Rightarrow> reg_answer \<Rightarrow> registry \<Rightarrow> bool" where
  "reg_spec m (OpRegister p) a m' \<longleftrightarrow> a = AnsUnit (Inr ()) \<and> m' = m(pi_interrupt_id p \<mapsto> p)"
| "reg_spec m (OpList f) a m' \<longleftrightarrow>
     m' = m \<and> (\<exists>ps. a = AnsList (Inr ps) \<and> sorted_wrt (<) (map pi_interrupt_id ps) \<and>
       set ps = {p. m (pi_interrupt_id p) = Some p \<and> filter_matches f p})"
| "reg_spec m (OpClaim i person) a m' \<longleftrightarrow>
     (case m i of
        None \<Rightarrow> a = AnsUnit (Inl (reg_err (NotFound i))) \<and> m' = m
      | Some p \<Rightarrow>
          (if claimable p then a = AnsUnit (Inr ()) \<and> m' = m(i \<mapsto> claimed_by person p)
           else a = AnsUnit (Inl (reg_err (AlreadyClaimed i))) \<and> m' = m))"
| "reg_spec m (OpResume i v) a m' \<longleftrightarrow>
     (case m i of
        None \<Rightarrow> a = AnsUnit (Inl (reg_err (NotFound i))) \<and> m' = m
      | Some p \<Rightarrow>
          (if pi_status p = Resolved
           then a = AnsUnit (Inl (reg_err (AlreadyResolved i))) \<and> m' = m
           else a = AnsUnit (Inr ()) \<and> m' = m(i \<mapsto> p\<lparr>pi_status := Resolved\<rparr>)))"
| "reg_spec m (OpGet i) a m' \<longleftrightarrow> a = AnsGet (Inr (m i)) \<and> m' = m"
| "reg_spec m (OpTick now pol) a m' \<longleftrightarrow>
     (\<exists>ids. a = AnsIds (Inr ids) \<and> sorted_wrt (<) ids \<and>
        set ids = {i. \<exists>p. m i = Some p \<and> overdue now pol p}) \<and>
     m' = (\<lambda>i. map_option (\<lambda>p. if overdue now pol p then escalate pol p else p) (m i))"

lemma reg_spec_deterministic:
  assumes "reg_spec m op a m'" and "reg_spec m op b m''"
  shows "a = b \<and> m' = m''"
proof (cases op)
  case (OpList f)
  with assms show ?thesis by (auto intro: sorted_map_unique)
next
  case (OpTick now pol)
  with assms show ?thesis by (auto intro: strict_sorted_equal)
qed (use assms in \<open>auto split: option.splits if_splits\<close>)

subsection \<open>The interface\<close>

fun reg_run :: "('g \<Rightarrow> reg_op \<Rightarrow> reg_answer \<times> 'g) \<Rightarrow> 'g \<Rightarrow> reg_op list \<Rightarrow> reg_answer list \<times> 'g" where
  "reg_run exec g [] = ([], g)"
| "reg_run exec g (op # ops) =
     (case exec g op of (a, g') \<Rightarrow> (case reg_run exec g' ops of (as, g'') \<Rightarrow> (a # as, g'')))"

fun is_register :: "string \<Rightarrow> reg_op \<Rightarrow> bool" where
  "is_register i (OpRegister p) = (pi_interrupt_id p = i)"
| "is_register i _ = False"

fun is_resume :: "string \<Rightarrow> reg_op \<Rightarrow> bool" where
  "is_resume i (OpResume j v) = (j = i)"
| "is_resume i _ = False"

fun is_claim :: "string \<Rightarrow> reg_op \<Rightarrow> bool" where
  "is_claim i (OpClaim j person) = (j = i)"
| "is_claim i _ = False"

text \<open>The answers to the operations that satisfy \<open>q\<close>, in order.\<close>

definition answers_to :: "(reg_op \<Rightarrow> bool) \<Rightarrow> reg_op list \<Rightarrow> reg_answer list \<Rightarrow> reg_answer list" where
  "answers_to q ops as = map snd (filter (q \<circ> fst) (zip ops as))"

text \<open>One \<open>Ok\<close> for the first of \<open>n\<close> attempts, the error for every later one.\<close>

fun one_winner :: "registry_error \<Rightarrow> nat \<Rightarrow> reg_answer list" where
  "one_winner e 0 = []"
| "one_winner e (Suc n) = AnsUnit (Inr ()) # replicate n (AnsUnit (Inl (reg_err e)))"

lemma answers_to_Nil [simp]: "answers_to q [] as = []"
  by (simp add: answers_to_def)

lemma answers_to_Cons [simp]:
  "answers_to q (op # ops) (a # as) = (if q op then [a] else []) @ answers_to q ops as"
  by (simp add: answers_to_def)

lemma claimable_simps [simp]:
  "claimable (claimed_by person p) = False"
  "pi_status p = Resolved \<Longrightarrow> claimable p = False"
  by (simp_all add: claimable_def claimed_by_def)

lemma claimable_escalate: "overdue now pol p \<Longrightarrow> claimable (escalate pol p) = claimable p"
  by (simp add: claimable_def escalate_def overdue_def)

locale interrupt_registry =
  fixes exec :: "'g \<Rightarrow> reg_op \<Rightarrow> reg_answer \<times> 'g"
    and inv :: "'g \<Rightarrow> bool"
    and abs :: "'g \<Rightarrow> registry"
    and fits :: "reg_op \<Rightarrow> bool"
  assumes exec_spec:
    "inv g \<Longrightarrow> fits op \<Longrightarrow> exec g op = (a, g') \<Longrightarrow> inv g' \<and> reg_spec (abs g) op a (abs g')"
begin

lemma run_Cons:
  assumes "inv g" and "list_all fits (op # ops)" and "reg_run exec g (op # ops) = (as, g'')"
  obtains a g' bs where "inv g'" and "reg_spec (abs g) op a (abs g')"
    and "reg_run exec g' ops = (bs, g'')" and "as = a # bs"
proof -
  obtain a h where h: "exec g op = (a, h)" by (cases "exec g op")
  obtain bs k where k: "reg_run exec h ops = (bs, k)" by (cases "reg_run exec h ops")
  show thesis
    using assms h k exec_spec [OF _ _ h] by (intro that [of h a bs]) auto
qed

lemma run_inv: "inv g \<Longrightarrow> list_all fits ops \<Longrightarrow> reg_run exec g ops = (as, g') \<Longrightarrow> inv g'"
proof (induction ops arbitrary: g as)
  case (Cons op ops)
  from Cons.prems show ?case by (rule run_Cons) (use Cons in auto)
qed simp

text \<open>The status of an approval only moves forward as long as its id is not registered again.\<close>

lemma step_resolved:
  assumes "reg_spec m op a m'" and "\<not> is_register i op" and "m i = Some p" and "pi_status p = Resolved"
  shows "m' i = Some p \<and> (is_resume i op \<longrightarrow> a = AnsUnit (Inl (reg_err (AlreadyResolved i))))"
  using assms by (cases op) (auto simp: overdue_def split: if_splits option.splits)

lemma resume_after_resolved:
  assumes "inv g" and "list_all fits ops" and "reg_run exec g ops = (as, g')"
    and "\<forall>op\<in>set ops. \<not> is_register i op" and "abs g i = Some p" and "pi_status p = Resolved"
  shows "answers_to (is_resume i) ops as
       = replicate (length (filter (is_resume i) ops)) (AnsUnit (Inl (reg_err (AlreadyResolved i)))) \<and>
         abs g' i = Some p"
  using assms
proof (induction ops arbitrary: g as)
  case (Cons op ops)
  from Cons.prems(1-3) show ?case
  proof (rule run_Cons)
    fix a h bs
    assume h: "inv h" "reg_spec (abs g) op a (abs h)" "reg_run exec h ops = (bs, g')" "as = a # bs"
    from h(2) Cons.prems have "abs h i = Some p \<and>
        (is_resume i op \<longrightarrow> a = AnsUnit (Inl (reg_err (AlreadyResolved i))))"
      using step_resolved [of "abs g" op a "abs h" i p] by auto
    with Cons h show ?thesis by auto
  qed
qed simp

lemma step_unresolved:
  assumes "reg_spec m op a m'" and "\<not> is_register i op" and "m i = Some p" and "pi_status p \<noteq> Resolved"
  shows "\<exists>q. m' i = Some q \<and> (pi_status q = Resolved \<longleftrightarrow> is_resume i op) \<and>
           (is_resume i op \<longrightarrow> a = AnsUnit (Inr ()))"
  using assms by (cases op) (auto simp: claimed_by_def escalate_def split: if_splits option.splits)

lemma resume_once:
  assumes "inv g" and "list_all fits ops" and "reg_run exec g ops = (as, g')"
    and "\<forall>op\<in>set ops. \<not> is_register i op" and "abs g i = Some p" and "pi_status p \<noteq> Resolved"
  shows "answers_to (is_resume i) ops as
       = one_winner (AlreadyResolved i) (length (filter (is_resume i) ops))"
  using assms
proof (induction ops arbitrary: g as p)
  case (Cons op ops)
  from Cons.prems(1-3) show ?case
  proof (rule run_Cons)
    fix a h bs
    assume h: "inv h" "reg_spec (abs g) op a (abs h)" "reg_run exec h ops = (bs, g')" "as = a # bs"
    from h(2) Cons.prems obtain q where q: "abs h i = Some q" "pi_status q = Resolved \<longleftrightarrow> is_resume i op"
      "is_resume i op \<longrightarrow> a = AnsUnit (Inr ())"
      using step_unresolved [of "abs g" op a "abs h" i p] by auto
    show ?thesis
    proof (cases "is_resume i op")
      case True
      with q h Cons.prems have "answers_to (is_resume i) ops bs
        = replicate (length (filter (is_resume i) ops)) (AnsUnit (Inl (reg_err (AlreadyResolved i))))"
        using resume_after_resolved [of h ops bs g' i q] by auto
      with True q h show ?thesis by simp
    next
      case False
      with q h Cons show ?thesis by auto
    qed
  qed
qed simp

lemma step_claim:
  assumes "reg_spec m op a m'" and "\<not> is_register i op" and "\<not> is_resume i op" and "m i = Some p"
  shows "\<exists>q. m' i = Some q \<and>
           (if is_claim i op
            then (if claimable p then a = AnsUnit (Inr ()) \<and> \<not> claimable q
                  else a = AnsUnit (Inl (reg_err (AlreadyClaimed i))) \<and> q = p)
            else claimable q = claimable p \<and> pi_assignee q = pi_assignee p)"
proof (cases op)
  case (OpRegister x)
  with assms show ?thesis by auto
next
  case (OpClaim j person)
  with assms show ?thesis by (cases "j = i"; cases "m j") (auto split: if_splits)
next
  case (OpResume j v)
  with assms show ?thesis by (cases "m j") (auto split: if_splits)
next
  case (OpTick now pol)
  with assms have "m' i = Some (if overdue now pol p then escalate pol p else p)" by simp
  with OpTick show ?thesis by (simp add: claimable_escalate) (simp add: escalate_def)
qed (use assms in auto)

lemma claim_lost:
  assumes "inv g" and "list_all fits ops" and "reg_run exec g ops = (as, g')"
    and "\<forall>op\<in>set ops. \<not> is_register i op \<and> \<not> is_resume i op" and "abs g i = Some p" and "\<not> claimable p"
  shows "answers_to (is_claim i) ops as
       = replicate (length (filter (is_claim i) ops)) (AnsUnit (Inl (reg_err (AlreadyClaimed i)))) \<and>
         (\<exists>q. abs g' i = Some q \<and> pi_assignee q = pi_assignee p)"
  using assms
proof (induction ops arbitrary: g as p)
  case (Cons op ops)
  from Cons.prems(1-3) show ?case
  proof (rule run_Cons)
    fix a h bs
    assume h: "inv h" "reg_spec (abs g) op a (abs h)" "reg_run exec h ops = (bs, g')" "as = a # bs"
    from h(2) Cons.prems obtain q where "abs h i = Some q" "\<not> claimable q"
      "pi_assignee q = pi_assignee p" "is_claim i op \<longrightarrow> a = AnsUnit (Inl (reg_err (AlreadyClaimed i)))"
      using step_claim [of "abs g" op a "abs h" i p] by (auto split: if_splits)
    with Cons.IH [of h bs q] Cons.prems h show ?thesis by auto
  qed
qed simp

lemma claim_once:
  assumes "inv g" and "list_all fits ops" and "reg_run exec g ops = (as, g')"
    and "\<forall>op\<in>set ops. \<not> is_register i op \<and> \<not> is_resume i op" and "abs g i = Some p" and "claimable p"
  shows "answers_to (is_claim i) ops as
       = one_winner (AlreadyClaimed i) (length (filter (is_claim i) ops)) \<and>
         (\<forall>person. find (is_claim i) ops = Some (OpClaim i person) \<longrightarrow>
            (\<exists>q. abs g' i = Some q \<and> pi_assignee q = Some person))"
  using assms
proof (induction ops arbitrary: g as p)
  case (Cons op ops)
  from Cons.prems(1-3) show ?case
  proof (rule run_Cons)
    fix a h bs
    assume h: "inv h" "reg_spec (abs g) op a (abs h)" "reg_run exec h ops = (bs, g')" "as = a # bs"
    from h(2) Cons.prems obtain q where q: "abs h i = Some q"
      "if is_claim i op then a = AnsUnit (Inr ()) \<and> \<not> claimable q else claimable q"
      using step_claim [of "abs g" op a "abs h" i p] by (auto split: if_splits)
    show ?thesis
    proof (cases "is_claim i op")
      case True
      then obtain person where op: "op = OpClaim i person" by (cases op) auto
      with h(2) Cons.prems q have "pi_assignee q = Some person" by (auto simp: claimed_by_def)
      with True op q h Cons.prems claim_lost [of h ops bs g' i q] show ?thesis by auto
    next
      case False
      with q h Cons show ?thesis by auto
    qed
  qed
qed simp

end

subsection \<open>The in-memory registry provides the interface\<close>

fun ms_fits :: "reg_op \<Rightarrow> bool" where
  "ms_fits (OpRegister p) = ms_range (pi_created_at_ms p)"
| "ms_fits (OpTick now pol) = ms_range now"
| "ms_fits _ = True"

definition im_inv :: "im_registry \<Rightarrow> bool" where
  "im_inv g \<longleftrightarrow> distinct (map fst g) \<and>
     (\<forall>(k, p)\<in>set g. pi_interrupt_id p = k \<and> ms_range (pi_created_at_ms p))"

lemma im_inv_Nil [simp]: "im_inv []"
  by (simp add: im_inv_def)

lemma im_inv_update:
  assumes "im_inv g" and "pi_interrupt_id p = i" and "ms_range (pi_created_at_ms p)"
  shows "im_inv (AList.update i p g)"
proof -
  have "set (AList.update i p g) \<subseteq> insert (i, p) (set g)"
    by (induction g) auto
  with assms show ?thesis by (fastforce simp: im_inv_def intro: distinct_update)
qed

lemma im_inv_lookup: "im_inv g \<Longrightarrow> map_of g i = Some p \<Longrightarrow> pi_interrupt_id p = i \<and> ms_range (pi_created_at_ms p)"
  by (auto simp: im_inv_def dest: map_of_SomeD)

lemma im_values: "im_inv g \<Longrightarrow> p \<in> snd ` set g \<longleftrightarrow> map_of g (pi_interrupt_id p) = Some p"
  by (force simp: im_inv_def)

lemma im_keys: "im_inv g \<Longrightarrow> map (pi_interrupt_id \<circ> snd) g = map fst g"
  by (auto simp: im_inv_def)

lemma im_distinct_ids: "im_inv g \<Longrightarrow> distinct (map (pi_interrupt_id \<circ> snd) g)"
  by (subst im_keys) (simp_all add: im_inv_def)

lemma im_overdue_eq:
  "ms_range now \<Longrightarrow> ms_range (pi_created_at_ms p) \<Longrightarrow> im_overdue now pol p = overdue now pol p"
  by (simp add: im_overdue_def overdue_def i64_sub_exact)

lemma im_list_spec:
  assumes "im_inv g"
  shows "reg_spec (map_of g) (OpList f) (AnsList (im_list_interrupts g f)) (map_of g)"
proof -
  let ?ps = "filter (filter_matches f) (map snd g)"
  have "distinct (map pi_interrupt_id (map snd g))"
    using im_distinct_ids [OF assms] by (simp add: comp_def)
  then have "distinct (map pi_interrupt_id ?ps)" by (rule distinct_map_filter)
  then have "sorted_wrt (<) (map pi_interrupt_id (sort_key pi_interrupt_id ?ps))"
    by (simp add: strict_sorted_iff distinct_map)
  moreover have "set ?ps = {p. map_of g (pi_interrupt_id p) = Some p \<and> filter_matches f p}"
    using im_values [OF assms] by auto
  ultimately show ?thesis by (simp add: im_list_interrupts_def)
qed

lemma map_of_map_values: "map_of (map (\<lambda>(k, v). (k, h v)) g) i = map_option h (map_of g i)"
  by (induction g) auto

lemma im_tick_spec:
  assumes "im_inv g" and "ms_range now" and "im_tick g now pol = (r, g')"
  shows "im_inv g' \<and> reg_spec (map_of g) (OpTick now pol) (AnsIds r) (map_of g')"
proof -
  have same: "im_overdue now pol p = overdue now pol p" if "(k, p) \<in> set g" for k p
    using that assms by (intro im_overdue_eq) (auto simp: im_inv_def)
  let ?h = "\<lambda>p. if overdue now pol p then escalate pol p else p"
  let ?ids = "map (pi_interrupt_id \<circ> snd) (filter (im_overdue now pol \<circ> snd) g)"
  have g': "g' = map (\<lambda>(k, p). (k, ?h p)) g" and r: "r = Inr (sort ?ids)"
    using assms(3) same by (auto simp: im_tick_def)
  have "map fst g' = map fst g" by (simp add: g' comp_def split_def)
  moreover have "\<forall>(k, p)\<in>set g'. pi_interrupt_id p = k \<and> ms_range (pi_created_at_ms p)"
    using assms(1) by (auto simp: g' im_inv_def escalate_def split: if_splits)
  ultimately have "im_inv g'" using assms(1) by (simp add: im_inv_def)
  moreover have "map_of g' = (\<lambda>i. map_option ?h (map_of g i))"
    by (auto simp: g' map_of_map_values [of ?h])
  moreover have "sorted_wrt (<) (sort ?ids)"
    by (simp add: strict_sorted_iff distinct_map_filter [OF im_distinct_ids [OF assms(1)]])
  moreover have "set ?ids = {i. \<exists>p. map_of g i = Some p \<and> overdue now pol p}"
  proof -
    have mem: "map_of g i = Some p \<longleftrightarrow> (i, p) \<in> set g" for i p
      using assms(1) by (intro map_of_eq_Some_iff) (simp add: im_inv_def)
    have "pi_interrupt_id p = k" if "(k, p) \<in> set g" for k p
      using that assms(1) by (auto simp: im_inv_def)
    with same show ?thesis unfolding mem by (auto simp: image_iff) blast+
  qed
  ultimately show ?thesis by (simp add: r)
qed

interpretation im_reg: interrupt_registry im_exec im_inv map_of ms_fits
proof (unfold_locales, goal_cases)
  case (1 g op a g')
  show ?case
  proof (cases op)
    case (OpRegister p)
    with 1 show ?thesis by (auto simp: im_register_def update_conv' im_inv_update)
  next
    case (OpList f)
    with 1 im_list_spec [of g f] show ?thesis by auto
  next
    case (OpClaim i person)
    with 1 im_inv_lookup [of g i] show ?thesis
      by (cases "map_of g i") (auto simp: im_claim_def update_conv' claimed_by_def intro!: im_inv_update)
  next
    case (OpResume i v)
    with 1 im_inv_lookup [of g i] show ?thesis
      by (cases "map_of g i") (auto simp: im_resume_def update_conv' intro!: im_inv_update)
  next
    case (OpGet i)
    with 1 show ?thesis by (auto simp: im_get_def)
  next
    case (OpTick now pol)
    with 1 im_tick_spec [of g now pol] show ?thesis by (auto split: prod.splits)
  qed
qed

subsection \<open>The SQL registry simulates the in-memory one\<close>

text \<open>
  \<open>tab_abs\<close> reads a table as a hash map. On rows the code wrote itself (\<open>row_good\<close>) every SQL
  operation gives the answer of the in-memory one, and commutes with \<open>tab_abs\<close>.
\<close>

definition pend :: "(string \<Rightarrow> json result) \<Rightarrow> interrupt_row \<Rightarrow> pending_interrupt" where
  "pend dec r = (case row_to_pending dec r of
       Inr p \<Rightarrow> p
     | Inl e \<Rightarrow> \<lparr>pi_interrupt_id = ri_id r, pi_workflow = [], pi_run = [], pi_step = 0,
                  pi_requested_role = None, pi_requested_clearance = None, pi_payload = Null,
                  pi_created_at_ms = 0, pi_deadline_ms = None, pi_assignee = None, pi_status = Pending\<rparr>)"

definition row_good :: "(string \<Rightarrow> json result) \<Rightarrow> interrupt_row \<Rightarrow> bool" where
  "row_good dec r \<longleftrightarrow> is_ok (dec (ri_payload_json r)) \<and>
     status_str (parse_status (ri_status r)) = ri_status r \<and> ms_range (ri_created r)"

definition tab_abs :: "(string \<Rightarrow> json result) \<Rightarrow> interrupt_table \<Rightarrow> im_registry" where
  "tab_abs dec tab = map (\<lambda>r. (ri_id r, pend dec r)) tab"

definition sql_inv :: "(string \<Rightarrow> json result) \<Rightarrow> interrupt_table \<Rightarrow> bool" where
  "sql_inv dec tab \<longleftrightarrow> distinct (map ri_id tab) \<and> (\<forall>r\<in>set tab. row_good dec r)"

fun sql_fits :: "(json \<Rightarrow> string result) \<Rightarrow> (string \<Rightarrow> json result) \<Rightarrow> reg_op \<Rightarrow> bool" where
  "sql_fits enc dec (OpRegister p) =
     (ms_range (pi_created_at_ms p) \<and> pi_step p < 2 ^ 64 \<and>
      (case enc (pi_payload p) of Inl e \<Rightarrow> False | Inr j \<Rightarrow> dec j = Inr (pi_payload p)))"
| "sql_fits enc dec op = ms_fits op"

lemma sql_fits_ms: "sql_fits enc dec op \<Longrightarrow> ms_fits op"
  by (cases op) auto

lemma row_to_pending_pend: "row_good dec r \<Longrightarrow> row_to_pending dec r = Inr (pend dec r)"
  by (cases "dec (ri_payload_json r)") (simp_all add: row_good_def row_to_pending_def pend_def)

lemma pend_simps [simp]:
  "pi_interrupt_id (pend dec r) = ri_id r"
  by (cases "dec (ri_payload_json r)") (simp_all add: row_to_pending_def pend_def)

lemma pend_fields:
  assumes "row_good dec r"
  shows "pi_created_at_ms (pend dec r) = ri_created r" and "pi_assignee (pend dec r) = ri_assignee r"
    and "pi_status (pend dec r) = parse_status (ri_status r)"
  using assms by (cases "dec (ri_payload_json r)"; simp add: row_good_def row_to_pending_def pend_def)+

lemma row_status: "row_good dec r \<Longrightarrow> ri_status r = status_str s \<longleftrightarrow> parse_status (ri_status r) = s"
  by (metis parse_status_str row_good_def)

lemmas status_tests =
  row_status [where s = Pending, simplified] row_status [where s = Escalated, simplified]
  row_status [where s = Resolved, simplified]

lemma sql_inv_Nil [simp]: "sql_inv dec []" "tab_abs dec [] = []"
  by (simp_all add: sql_inv_def tab_abs_def)

lemma im_inv_tab_abs: "sql_inv dec tab \<Longrightarrow> im_inv (tab_abs dec tab)"
  by (auto simp: sql_inv_def im_inv_def tab_abs_def comp_def pend_fields row_good_def [of dec])

lemma map_of_tab_abs: "map_of (tab_abs dec tab) i = map_option (pend dec) (find (\<lambda>r. ri_id r = i) tab)"
  by (induction tab) (auto simp: tab_abs_def)

lemma tab_abs_upsert:
  "ri_id row = i \<Longrightarrow>
   tab_abs dec (upsert_by (\<lambda>r. ri_id r = i) row tab) = AList.update i (pend dec row) (tab_abs dec tab)"
  by (induction tab) (auto simp: tab_abs_def)

lemma pend_pending_row:
  assumes "dec j = Inr (pi_payload p)" and "pi_step p < 2 ^ 64"
  shows "pend dec (pending_row j p) = p"
  using assms by (simp add: pend_def row_to_pending_def pending_row_def i64_u64_roundtrip)

lemma row_good_pending_row:
  "is_ok (dec j) \<Longrightarrow> ms_range (pi_created_at_ms p) \<Longrightarrow> row_good dec (pending_row j p)"
  by (simp add: row_good_def pending_row_def)

text \<open>An \<open>UPDATE\<close> guarded by the primary key touches at most one row.\<close>

lemma update_where_key:
  assumes "distinct (map ri_id tab)" and "\<And>r. ri_id (f r) = ri_id r"
    and "update_where (\<lambda>r. ri_id r = i \<and> c r) f tab = (n, tab')"
  shows "(case find (\<lambda>r. ri_id r = i) tab of
            Some r \<Rightarrow> (if c r then n = 1 \<and> tab_abs dec tab' = AList.update i (pend dec (f r)) (tab_abs dec tab)
                       else n = 0 \<and> tab' = tab)
          | None \<Rightarrow> n = 0 \<and> tab' = tab)"
  using assms(1,3)
proof (induction tab arbitrary: n tab')
  case (Cons r tab)
  have same: "map (\<lambda>r. if ri_id r = i \<and> c r then f r else r) tab = tab \<and>
      filter (\<lambda>r. ri_id r = i \<and> c r) tab = []" if "ri_id r = i"
    using that Cons.prems(1) by (induction tab) auto
  show ?case
  proof (cases "ri_id r = i")
    case True
    with same Cons.prems assms(2) show ?thesis
      by (auto simp: update_where_def tab_abs_def)
  next
    case False
    with Cons.prems Cons.IH [unfolded update_where_def, OF _ refl] assms(2) show ?thesis
      by (auto simp: update_where_def tab_abs_def split: option.splits if_splits)
  qed
qed (simp add: update_where_def)

lemma update_where_ids:
  "(\<And>r. ri_id (f r) = ri_id r) \<Longrightarrow> update_where c f tab = (n, tab') \<Longrightarrow> map ri_id tab' = map ri_id tab"
  by (auto simp: update_where_def)

lemma update_where_inv:
  assumes "sql_inv dec tab" and "\<And>r. ri_id (f r) = ri_id r" and "\<And>r. row_good dec r \<Longrightarrow> row_good dec (f r)"
    and "update_where c f tab = (n, tab')"
  shows "sql_inv dec tab'"
  using assms update_where_ids [OF assms(2,4)] by (auto simp: sql_inv_def update_where_def)

lemma map_sort_key: "map g (sort_key (\<lambda>x. f (g x)) xs) = sort_key f (map g xs)"
proof -
  have "map g (insort_key (\<lambda>x. f (g x)) x ys) = insort_key f (g x) (map g ys)" for x ys
    by (induction ys) auto
  then show ?thesis by (induction xs) auto
qed

lemma sql_get_good:
  assumes "sql_inv dec tab"
  shows "sql_get dec tab i = Inr (map_option (pend dec) (find (\<lambda>r. ri_id r = i) tab))"
  using assms
  by (cases "find (\<lambda>r. ri_id r = i) tab")
     (auto simp: sql_get_def row_to_pending_pend sql_inv_def dest!: find_SomeD)

lemma sql_collect_good:
  "\<forall>r\<in>set rs. row_good dec r \<Longrightarrow>
   sql_collect dec f rs = Inr (filter (filter_matches f) (map (pend dec) rs))"
  by (induction rs) (auto simp: row_to_pending_pend)

lemma sql_list_good:
  assumes "sql_inv dec tab"
  shows "sql_list_interrupts dec tab f = im_list_interrupts (tab_abs dec tab) f"
proof -
  have "map (pend dec) (sort_key ri_id tab) = sort_key pi_interrupt_id (map (pend dec) tab)"
    using map_sort_key [of "pend dec" pi_interrupt_id tab] by simp
  with assms show ?thesis
    by (simp add: sql_list_interrupts_def sql_collect_good im_list_interrupts_def sql_inv_def tab_abs_def
        comp_def filter_sort)
qed

lemma sql_claim_good:
  assumes "sql_inv dec tab" and "sql_claim dec tab i person = (r, tab')"
  shows "sql_inv dec tab' \<and> im_claim (tab_abs dec tab) i person = (r, tab_abs dec tab')"
proof -
  let ?c = "\<lambda>r. ri_assignee r = None \<and> ri_status r \<in> {''Pending'', ''Escalated''}"
  let ?f = "\<lambda>r. r\<lparr>ri_assignee := Some person, ri_status := ''Claimed''\<rparr>"
  obtain n u where u: "update_where (\<lambda>r. ri_id r = i \<and> ?c r) ?f tab = (n, u)"
    by (cases "update_where (\<lambda>r. ri_id r = i \<and> ?c r) ?f tab")
  have inv: "sql_inv dec u"
    using assms(1) by (rule update_where_inv [OF _ _ _ u]) (auto simp: row_good_def parse_status_def)
  have pend: "pend dec (?f r) = claimed_by person (pend dec r)" if "row_good dec r" for r
    using that by (cases "dec (ri_payload_json r)")
      (simp_all add: row_good_def row_to_pending_def pend_def claimed_by_def parse_status_def)
  have c: "?c r \<longleftrightarrow> claimable (pend dec r)" if "row_good dec r" for r
    using that by (auto simp: claimable_def pend_fields status_tests)
  have key: "case find (\<lambda>r. ri_id r = i) tab of
      Some r \<Rightarrow> (if ?c r then n = 1 \<and> tab_abs dec u = AList.update i (pend dec (?f r)) (tab_abs dec tab)
                 else n = 0 \<and> u = tab)
    | None \<Rightarrow> n = 0 \<and> u = tab"
    using assms(1) by (intro update_where_key [OF _ _ u]) (simp_all add: sql_inv_def)
  show ?thesis
  proof (cases "find (\<lambda>r. ri_id r = i) tab")
    case None
    with key assms u inv show ?thesis
      by (simp add: sql_claim_def sql_get_good im_claim_def map_of_tab_abs)
  next
    case (Some r0)
    then have good: "row_good dec r0" using assms(1) by (auto simp: sql_inv_def dest: find_SomeD)
    show ?thesis
    proof (cases "?c r0")
      case True
      with key Some have "n = 1" and "tab_abs dec u = AList.update i (pend dec (?f r0)) (tab_abs dec tab)"
        by simp_all
      with True Some assms u inv c [OF good] pend [OF good] show ?thesis
        by (simp add: sql_claim_def im_claim_def map_of_tab_abs)
    next
      case False
      with key Some have "n = 0 \<and> u = tab" by (simp only: option.case if_False)
      with False Some assms u inv iffD2 [OF c [OF good]] show ?thesis
        by (auto simp: sql_claim_def im_claim_def map_of_tab_abs sql_get_good)
    qed
  qed
qed

lemma sql_resume_good:
  assumes "sql_inv dec tab" and "sql_resume dec tab i v = (r, tab')"
  shows "sql_inv dec tab' \<and> im_resume (tab_abs dec tab) i v = (r, tab_abs dec tab')"
proof -
  let ?c = "\<lambda>r. ri_status r \<noteq> ''Resolved''"
  let ?f = "\<lambda>r. r\<lparr>ri_status := ''Resolved''\<rparr>"
  obtain n u where u: "update_where (\<lambda>r. ri_id r = i \<and> ?c r) ?f tab = (n, u)"
    by (cases "update_where (\<lambda>r. ri_id r = i \<and> ?c r) ?f tab")
  have inv: "sql_inv dec u"
    using assms(1) by (rule update_where_inv [OF _ _ _ u]) (auto simp: row_good_def parse_status_def)
  have pend: "pend dec (?f r) = (pend dec r)\<lparr>pi_status := Resolved\<rparr>" if "row_good dec r" for r
    using that by (cases "dec (ri_payload_json r)")
      (simp_all add: row_good_def row_to_pending_def pend_def parse_status_def)
  have c: "?c r \<longleftrightarrow> pi_status (pend dec r) \<noteq> Resolved" if "row_good dec r" for r
    using that by (auto simp: pend_fields status_tests)
  have key: "case find (\<lambda>r. ri_id r = i) tab of
      Some r \<Rightarrow> (if ?c r then n = 1 \<and> tab_abs dec u = AList.update i (pend dec (?f r)) (tab_abs dec tab)
                 else n = 0 \<and> u = tab)
    | None \<Rightarrow> n = 0 \<and> u = tab"
    using assms(1) by (intro update_where_key [OF _ _ u]) (simp_all add: sql_inv_def)
  show ?thesis
  proof (cases "find (\<lambda>r. ri_id r = i) tab")
    case None
    with key assms u inv show ?thesis
      by (simp add: sql_resume_def sql_get_good im_resume_def map_of_tab_abs)
  next
    case (Some r0)
    then have good: "row_good dec r0" using assms(1) by (auto simp: sql_inv_def dest: find_SomeD)
    show ?thesis
    proof (cases "?c r0")
      case True
      with key Some have "n = 1" and "tab_abs dec u = AList.update i (pend dec (?f r0)) (tab_abs dec tab)"
        by simp_all
      with True Some assms u inv c [OF good] pend [OF good] show ?thesis
        by (simp add: sql_resume_def im_resume_def map_of_tab_abs)
    next
      case False
      with key Some have "n = 0 \<and> u = tab" by simp
      with False Some assms u inv c [OF good] show ?thesis
        by (simp add: sql_resume_def im_resume_def map_of_tab_abs sql_get_good)
    qed
  qed
qed

lemma sql_register_good:
  assumes "sql_inv dec tab" and "sql_fits enc dec (OpRegister p)" and "sql_register enc tab p = (r, tab')"
  shows "sql_inv dec tab' \<and> im_register (tab_abs dec tab) p = (r, tab_abs dec tab')"
proof -
  from assms(2) obtain j where j: "enc (pi_payload p) = Inr j" "dec j = Inr (pi_payload p)"
    by (auto split: sum.splits)
  let ?row = "pending_row j p"
  have row: "pend dec ?row = p" "row_good dec ?row" "ri_id ?row = pi_interrupt_id p"
    using assms(2) j by (simp_all add: pend_pending_row row_good_pending_row) (simp add: pending_row_def)
  have tab': "tab' = upsert_by (\<lambda>r. ri_id r = ri_id ?row) ?row tab" and r: "r = Inr ()"
    using assms(3) j row by (simp_all add: sql_register_def)
  have "distinct (map ri_id tab')"
    unfolding tab' using assms(1) by (intro distinct_upsert_key) (simp_all add: sql_inv_def)
  moreover have "\<forall>r\<in>set tab'. row_good dec r"
    using set_upsert_by [of "\<lambda>r. ri_id r = ri_id ?row" ?row tab] assms(1) row
    by (auto simp: tab' sql_inv_def)
  ultimately have "sql_inv dec tab'" by (simp add: sql_inv_def)
  moreover have "tab_abs dec tab' = AList.update (pi_interrupt_id p) p (tab_abs dec tab)"
    unfolding tab' using row tab_abs_upsert [of ?row "ri_id ?row" dec tab] by simp
  ultimately show ?thesis by (simp add: im_register_def r)
qed

lemma sql_tick_good:
  assumes "sql_inv dec tab" and "ms_range now" and "sql_tick tab now pol = (r, tab')"
  shows "sql_inv dec tab' \<and> im_tick (tab_abs dec tab) now pol = (r, tab_abs dec tab')"
proof -
  let ?f = "\<lambda>r. r\<lparr>ri_status := ''Escalated'', ri_role := Some (to_role pol)\<rparr>"
  have due: "row_overdue now pol r \<longleftrightarrow> im_overdue now pol (pend dec r)" if "row_good dec r" for r
    using that assms(2) row_status [OF that, of Pending]
    by (auto simp: row_overdue_def im_overdue_def pend_fields i64_sub_exact row_good_def [of dec r])
  have pend: "pend dec (?f r) = escalate pol (pend dec r)" if "row_good dec r" for r
    using that by (cases "dec (ri_payload_json r)")
      (simp_all add: row_good_def row_to_pending_def pend_def parse_status_def escalate_def)
  obtain n where n: "update_where (row_overdue now pol) ?f tab = (n, tab')"
    using assms(3) by (cases "update_where (row_overdue now pol) ?f tab") (simp add: sql_tick_def sql_tick_update_def)
  have "sql_inv dec tab'"
    using assms(1) by (rule update_where_inv [OF _ _ _ n]) (auto simp: row_good_def parse_status_def)
  moreover have "tab_abs dec tab' = snd (im_tick (tab_abs dec tab) now pol)"
    using n assms(1) by (auto simp: update_where_def tab_abs_def im_tick_def sql_inv_def due pend)
  moreover have "sql_tick_select tab now pol
      = sort (map (pi_interrupt_id \<circ> snd) (filter (im_overdue now pol \<circ> snd) (tab_abs dec tab)))"
  proof -
    have "filter (row_overdue now pol) tab = filter (\<lambda>r. im_overdue now pol (pend dec r)) tab"
      using assms(1) due by (intro filter_cong) (auto simp: sql_inv_def)
    moreover have "map ri_id (sort_key ri_id xs) = sort (map ri_id xs)" for xs
      using map_sort_key [of ri_id "\<lambda>x. x" xs] by simp
    ultimately show ?thesis
      by (simp add: sql_tick_select_def tab_abs_def filter_map comp_def)
  qed
  ultimately show ?thesis using assms(3) by (auto simp: sql_tick_def im_tick_def)
qed

lemma sql_exec_simulates:
  assumes "sql_inv dec tab" and "sql_fits enc dec op" and "sql_exec enc dec tab op = (a, tab')"
  shows "sql_inv dec tab' \<and> im_exec (tab_abs dec tab) op = (a, tab_abs dec tab')"
proof (cases op)
  case (OpRegister p)
  with assms show ?thesis
    using sql_register_good [of dec tab enc p] by (cases "sql_register enc tab p") auto
next
  case (OpClaim i person)
  with assms show ?thesis
    by (cases "sql_claim dec tab i person") (auto dest: sql_claim_good [OF assms(1)])
next
  case (OpResume i v)
  with assms show ?thesis
    by (cases "sql_resume dec tab i v") (auto dest: sql_resume_good [OF assms(1)])
next
  case (OpTick now pol)
  with assms show ?thesis
    by (cases "sql_tick tab now pol") (auto dest: sql_tick_good [OF assms(1)])
qed (use assms in \<open>auto simp: sql_list_good sql_get_good im_get_def map_of_tab_abs\<close>)

interpretation sql_reg: interrupt_registry "sql_exec enc dec" "sql_inv dec"
    "\<lambda>tab. map_of (tab_abs dec tab)" "sql_fits enc dec" for enc dec
proof (unfold_locales, goal_cases)
  case (1 g op a g')
  then have "sql_inv dec g' \<and> im_exec (tab_abs dec g) op = (a, tab_abs dec g')"
    by (rule sql_exec_simulates)
  with 1 show ?case
    using im_reg.exec_spec [of "tab_abs dec g" op a "tab_abs dec g'"] im_inv_tab_abs sql_fits_ms by blast
qed

lemma sql_run_simulates:
  assumes "sql_inv dec tab" and "list_all (sql_fits enc dec) ops"
    and "reg_run (sql_exec enc dec) tab ops = (as, tab')"
  shows "sql_inv dec tab' \<and> reg_run im_exec (tab_abs dec tab) ops = (as, tab_abs dec tab')"
  using assms
proof (induction ops arbitrary: tab as)
  case (Cons op ops)
  obtain a t where t: "sql_exec enc dec tab op = (a, t)" by (cases "sql_exec enc dec tab op")
  obtain bs u where u: "reg_run (sql_exec enc dec) t ops = (bs, u)"
    by (cases "reg_run (sql_exec enc dec) t ops")
  from Cons.prems t have "sql_inv dec t \<and> im_exec (tab_abs dec tab) op = (a, tab_abs dec t)"
    by (intro sql_exec_simulates) auto
  with Cons.prems Cons.IH [of t bs] t u show ?case by auto
qed simp

subsection \<open>The guarantees of the registry\<close>

text \<open>
  (C4) In-memory and SQL registry are indistinguishable: from empty stores, any sequence of
  register, list, claim, resume, get and tick gets the same answers from both, errors included, as
  long as payloads survive the JSON codec, steps fit \<open>u64\<close> and times fit \<open>i64\<close> arithmetic.
\<close>

theorem registries_agree:
  assumes "list_all (sql_fits enc dec) ops"
  shows "fst (reg_run (sql_exec enc dec) [] ops) = fst (reg_run im_exec [] ops)"
  using sql_run_simulates [of dec "[]" enc ops, OF _ assms]
  by (cases "reg_run (sql_exec enc dec) [] ops") auto

definition demo_pending :: "string \<Rightarrow> int \<Rightarrow> pending_interrupt" where
  "demo_pending i created =
     \<lparr>pi_interrupt_id = i, pi_workflow = ''wf'', pi_run = ''r'', pi_step = 1,
      pi_requested_role = Some ''trader'', pi_requested_clearance = Some ''L3'',
      pi_payload = String ''order'', pi_created_at_ms = created, pi_deadline_ms = Some (created + 1000),
      pi_assignee = None, pi_status = Pending\<rparr>"

fun demo_enc :: "json \<Rightarrow> string result" where
  "demo_enc (String s) = Inr (CHR 0x22 # s)"
| "demo_enc v = Inl (Serde ''not a string'')"

fun demo_dec :: "string \<Rightarrow> json result" where
  "demo_dec (c # s) = (if c = CHR 0x22 then Inr (String s) else Inl (Serde ''expected value''))"
| "demo_dec [] = Inl (Serde ''EOF'')"

definition demo_ops :: "reg_op list" where
  "demo_ops = [OpRegister (demo_pending ''i1'' 0), OpClaim ''i1'' ''alice'', OpClaim ''i1'' ''bob'',
     OpTick 5000 \<lparr>after_ms = 1000, to_role = ''boss''\<rparr>, OpResume ''i1'' (Bool True), OpGet ''i1'',
     OpResume ''i1'' (Bool True)]"

lemmas demo_simps = demo_ops_def demo_pending_def ms_range_def

theorem registries_agree_witness:
  "fst (reg_run (sql_exec demo_enc demo_dec) [] demo_ops) = fst (reg_run im_exec [] demo_ops)"
  by (rule registries_agree) (simp add: demo_simps)

text \<open>
  (C10) Exactly-once resume: whatever else happens to a parked approval (claims, ticks, reads, other
  approvals), as long as its id is not registered again, the first resume of an unresolved approval
  is answered \<open>Ok\<close> and every later one \<open>AlreadyResolved\<close>.
\<close>

theorem resume_exactly_once:
  assumes "im_inv g" and "list_all ms_fits ops" and "reg_run im_exec g ops = (as, g')"
    and "\<forall>op\<in>set ops. \<not> is_register i op" and "map_of g i = Some p" and "pi_status p \<noteq> Resolved"
  shows "answers_to (is_resume i) ops as
       = one_winner (AlreadyResolved i) (length (filter (is_resume i) ops))"
  using assms by (rule im_reg.resume_once)

theorem resume_exactly_once_witness:
  "answers_to (is_resume ''i1'') (tl demo_ops)
     (fst (reg_run im_exec [(''i1'', demo_pending ''i1'' 0)] (tl demo_ops)))
   = one_winner (AlreadyResolved ''i1'') (length (filter (is_resume ''i1'') (tl demo_ops)))"
  by (rule resume_exactly_once [OF _ _ prod.collapse [symmetric],
        where p = "demo_pending ''i1'' 0"])
     (simp_all add: demo_simps im_inv_def)

text \<open>
  Claim arbitration on the SQL back end: while an approval is neither registered again nor
  resumed, the first of any number of claims wins, every later claim is answered
  \<open>AlreadyClaimed\<close>, and the approval stays assigned to the first claimer.
\<close>

theorem first_claim_wins:
  assumes "sql_inv dec tab" and "list_all (sql_fits enc dec) ops"
    and "reg_run (sql_exec enc dec) tab ops = (as, tab')"
    and "\<forall>op\<in>set ops. \<not> is_register i op \<and> \<not> is_resume i op"
    and "sql_get dec tab i = Inr (Some p)" and "claimable p"
    and "find (is_claim i) ops = Some (OpClaim i person)"
  shows "answers_to (is_claim i) ops as
       = one_winner (AlreadyClaimed i) (length (filter (is_claim i) ops)) \<and>
         (\<exists>q. sql_get dec tab' i = Inr (Some q) \<and> pi_assignee q = Some person)"
proof -
  have get: "sql_get dec t i = Inr (map_of (tab_abs dec t) i)" if "sql_inv dec t" for t
    using that by (simp add: sql_get_good map_of_tab_abs)
  have "sql_inv dec tab'" using assms(1-3) by (rule sql_reg.run_inv)
  with sql_reg.claim_once [OF assms(1-4), of p] assms(5-) get get [OF assms(1)] show ?thesis by auto
qed

theorem first_claim_wins_witness:
  "answers_to (is_claim ''i1'') (take 3 (tl demo_ops))
     (fst (reg_run (sql_exec demo_enc demo_dec) [pending_row (CHR 0x22 # ''order'') (demo_pending ''i1'' 0)]
        (take 3 (tl demo_ops))))
   = one_winner (AlreadyClaimed ''i1'') (length (filter (is_claim ''i1'') (take 3 (tl demo_ops)))) \<and>
   (\<exists>q. sql_get demo_dec (snd (reg_run (sql_exec demo_enc demo_dec)
        [pending_row (CHR 0x22 # ''order'') (demo_pending ''i1'' 0)] (take 3 (tl demo_ops)))) ''i1''
      = Inr (Some q) \<and> pi_assignee q = Some ''alice'')"
  by (rule first_claim_wins [OF _ _ prod.collapse [symmetric], where p = "demo_pending ''i1'' 0"])
     (simp_all add: demo_simps sql_inv_def row_good_def pending_row_def parse_status_def sql_get_def
        row_to_pending_def claimable_def u64_as_i64_def i64_as_u64_def)

text \<open>
  The SQL \<open>tick\<close> is a \<open>SELECT\<close> and an \<open>UPDATE\<close>, not one transaction. When another node
  claims an overdue approval between the two, \<open>tick\<close> still reports its id as escalated although
  the approval is claimed and its role is unchanged; a claim before or after a whole \<open>tick\<close> never
  leads to that.
\<close>

theorem tick_reports_claimed_approval:
  fixes dec :: "string \<Rightarrow> json result" and person :: string
  assumes "distinct (map ri_id tab)" and "find (\<lambda>r. ri_id r = i) tab = Some r"
    and "row_overdue now pol r" and "ri_assignee r = None"
  defines "mid \<equiv> snd (sql_claim dec tab i person)"
  shows "i \<in> set (sql_tick_select tab now pol) \<and> fst (sql_claim dec tab i person) = Inr () \<and>
         find (\<lambda>r. ri_id r = i) (sql_tick_update mid now pol)
           = Some (r\<lparr>ri_assignee := Some person, ri_status := ''Claimed''\<rparr>) \<and>
         i \<notin> set (sql_tick_select mid now pol)"
proof -
  let ?f = "\<lambda>r. r\<lparr>ri_assignee := Some person, ri_status := ''Claimed''\<rparr>"
  let ?c = "\<lambda>r. ri_id r = i \<and> ri_assignee r = None \<and> ri_status r \<in> {''Pending'', ''Escalated''}"
  from assms have r: "r \<in> set tab" "ri_id r = i" "ri_status r = ''Pending''" and c: "?c r"
    by (auto simp: row_overdue_def dest: find_SomeD)
  have one: "length (filter ?c tab) = 1"
  proof -
    have uniq: "s = r" if "s \<in> set tab" "?c s" for s
      using that r assms(1) unfolding distinct_map by (simp add: inj_on_def)
    have "set (filter ?c tab) = {r}" using uniq r(1) c by fastforce
    moreover have "distinct (filter ?c tab)" using assms(1) by (simp add: distinct_map)
    ultimately have "card {r} = length (filter ?c tab)" by (simp only: distinct_card [symmetric])
    then show ?thesis by simp
  qed
  then have claim: "sql_claim dec tab i person = (Inr (), map (\<lambda>r. if ?c r then ?f r else r) tab)"
    by (simp add: sql_claim_def update_where_def)
  define h where "h s = (if ?c s then ?f s else s)" for s :: interrupt_row
  have mid: "mid = map h tab" by (simp add: mid_def claim h_def)
  have due: "row_overdue now pol (h s) \<longleftrightarrow> row_overdue now pol s \<and> \<not> ?c s" for s
    by (simp add: row_overdue_def h_def)
  have id_h: "ri_id (h s) = ri_id s" for s by (simp add: h_def)
  have h_r: "h r = ?f r" unfolding h_def using c by (rule if_P)
  have find_map: "find (\<lambda>r. ri_id r = i) (map h tab) = Some (h r)" if "\<And>s. ri_id (h s) = ri_id s" for h
    using assms(2) that by (induction tab) (auto split: if_splits)
  have "find (\<lambda>r. ri_id r = i) (sql_tick_update mid now pol) = Some (?f r)"
    unfolding sql_tick_update_def update_where_def mid snd_conv map_map
    by (subst find_map) (simp_all add: id_h h_r row_overdue_def)
  moreover have "i \<notin> set (sql_tick_select mid now pol)"
  proof
    assume "i \<in> set (sql_tick_select mid now pol)"
    then obtain s where s: "s \<in> set tab" "ri_id s = i" "row_overdue now pol (h s)"
      by (auto simp: sql_tick_select_def mid id_h)
    then have "s = r" using r assms(1) unfolding distinct_map by (simp add: inj_on_def)
    with s(3) due c show False by blast
  qed
  ultimately show ?thesis using r assms(3) claim by (auto simp: sql_tick_select_def)
qed

theorem tick_reports_claimed_approval_witness:
  "''i1'' \<in> set (sql_tick_select [pending_row ''x'' (demo_pending ''i1'' 0)] 5000 \<lparr>after_ms = 1000, to_role = ''boss''\<rparr>) \<and>
   fst (sql_claim demo_dec [pending_row ''x'' (demo_pending ''i1'' 0)] ''i1'' ''alice'') = Inr () \<and>
   find (\<lambda>r. ri_id r = ''i1'')
     (sql_tick_update (snd (sql_claim demo_dec [pending_row ''x'' (demo_pending ''i1'' 0)] ''i1'' ''alice''))
        5000 \<lparr>after_ms = 1000, to_role = ''boss''\<rparr>)
     = Some ((pending_row ''x'' (demo_pending ''i1'' 0))\<lparr>ri_assignee := Some ''alice'', ri_status := ''Claimed''\<rparr>) \<and>
   ''i1'' \<notin> set (sql_tick_select
     (snd (sql_claim demo_dec [pending_row ''x'' (demo_pending ''i1'' 0)] ''i1'' ''alice''))
     5000 \<lparr>after_ms = 1000, to_role = ''boss''\<rparr>)"
  by (rule tick_reports_claimed_approval)
     (simp_all add: demo_simps pending_row_def row_overdue_def)

end
