(* ===== verification/Outbox.thy ===== *)
theory Outbox
  imports Registry
begin

text \<open>
  Resuming a parked approval together with a write to an external system of record
  (\<open>crates/workflow/src/resume_effect.rs\<close>): the outbox stores, \<open>resume_with\<close> as the three critical
  sections it runs, its single-transaction SQL variant, and the relay \<open>drive_outbox\<close>. The interface
  of the relay to its store is the locale \<open>outbox_store\<close>; the at-least-once and deduplication
  argument is carried out there and instantiated for both stores.
\<close>

subsection \<open>Records and effects\<close>

record outbox_record =
  ob_id :: string
  ob_interrupt_id :: string
  ob_payload :: json
  ob_key :: string
  ob_committed :: bool

text \<open>
  The closures of a saga act on a world \<open>'w\<close>, the external systems they talk to.
\<close>

record 'w saga_step =
  sg_key :: string
  sg_commit :: "'w \<Rightarrow> unit result \<times> 'w"
  sg_compensate :: "'w \<Rightarrow> unit result \<times> 'w"

datatype 'w resume_effect = EffOutbox outbox_record | EffSaga "'w saga_step"

subsection \<open>The in-memory outbox store\<close>

type_synonym im_outbox = "outbox_record list"

definition im_ob_save :: "im_outbox \<Rightarrow> outbox_record \<Rightarrow> unit result \<times> im_outbox" where
  "im_ob_save g r = (Inr (), upsert_by (\<lambda>x. ob_id x = ob_id r) r g)"

definition im_ob_uncommitted :: "im_outbox \<Rightarrow> outbox_record list result" where
  "im_ob_uncommitted g = Inr (filter (\<lambda>r. \<not> ob_committed r) g)"

definition im_ob_mark :: "im_outbox \<Rightarrow> string \<Rightarrow> unit result \<times> im_outbox" where
  "im_ob_mark g i = (Inr (), modify_first (\<lambda>r. ob_id r = i) (\<lambda>r. r\<lparr>ob_committed := True\<rparr>) g)"

definition im_ob_get :: "im_outbox \<Rightarrow> string \<Rightarrow> outbox_record option result" where
  "im_ob_get g i = Inr (find (\<lambda>r. ob_id r = i) g)"

subsection \<open>The SQL outbox store\<close>

record outbox_row =
  or_id :: string
  or_interrupt_id :: string
  or_payload_json :: string
  or_key :: string
  or_committed :: int

type_synonym outbox_table = "outbox_row list"

definition row_to_rec :: "(string \<Rightarrow> json result) \<Rightarrow> outbox_row \<Rightarrow> outbox_record result" where
  "row_to_rec dec r =
     try_then (dec (or_payload_json r)) (\<lambda>payload.
       Inr \<lparr>ob_id = or_id r, ob_interrupt_id = or_interrupt_id r, ob_payload = payload,
            ob_key = or_key r, ob_committed = (or_committed r \<noteq> 0)\<rparr>)"

definition rec_row :: "string \<Rightarrow> outbox_record \<Rightarrow> outbox_row" where
  "rec_row payload rec =
     \<lparr>or_id = ob_id rec, or_interrupt_id = ob_interrupt_id rec, or_payload_json = payload,
      or_key = ob_key rec, or_committed = (if ob_committed rec then 1 else 0)\<rparr>"

definition sql_ob_save ::
  "(json \<Rightarrow> string result) \<Rightarrow> outbox_table \<Rightarrow> outbox_record \<Rightarrow> unit result \<times> outbox_table" where
  "sql_ob_save enc tab rec =
     (case enc (ob_payload rec) of
        Inl e \<Rightarrow> (Inl e, tab)
      | Inr payload \<Rightarrow> (Inr (), upsert_by (\<lambda>r. or_id r = ob_id rec) (rec_row payload rec) tab))"

fun rows_to_recs :: "(string \<Rightarrow> json result) \<Rightarrow> outbox_row list \<Rightarrow> outbox_record list result" where
  "rows_to_recs dec [] = Inr []"
| "rows_to_recs dec (r # rs) =
     try_then (row_to_rec dec r) (\<lambda>x. try_then (rows_to_recs dec rs) (\<lambda>xs. Inr (x # xs)))"

definition sql_ob_uncommitted ::
  "(string \<Rightarrow> json result) \<Rightarrow> outbox_table \<Rightarrow> outbox_record list result" where
  "sql_ob_uncommitted dec tab = rows_to_recs dec (sort_key or_id (filter (\<lambda>r. or_committed r = 0) tab))"

definition sql_ob_mark :: "outbox_table \<Rightarrow> string \<Rightarrow> unit result \<times> outbox_table" where
  "sql_ob_mark tab i = (Inr (), map (\<lambda>r. if or_id r = i then r\<lparr>or_committed := 1\<rparr> else r) tab)"

definition sql_ob_get ::
  "(string \<Rightarrow> json result) \<Rightarrow> outbox_table \<Rightarrow> string \<Rightarrow> outbox_record option result" where
  "sql_ob_get dec tab i =
     (case find (\<lambda>r. or_id r = i) tab of
        None \<Rightarrow> Inr None
      | Some r \<Rightarrow> try_then (row_to_rec dec r) (\<lambda>x. Inr (Some x)))"

subsection \<open>resume\_with\<close>

text \<open>
  The validation and the three critical sections of the in-memory \<open>resume_with\<close>. Each takes and
  returns the shared stores, so that calls can be interleaved at these points.
\<close>

definition rw_check :: "im_registry \<Rightarrow> string \<Rightarrow> unit result" where
  "rw_check g i =
     try_then (im_get g i) (\<lambda>found.
       try_then (ok_or (reg_err (NotFound i)) found) (\<lambda>current.
         if pi_status current = Resolved then Inl (reg_err (AlreadyResolved i)) else Inr ()))"

definition rw_save :: "im_outbox \<Rightarrow> string \<Rightarrow> outbox_record \<Rightarrow> unit result \<times> im_outbox" where
  "rw_save ob i rec = im_ob_save ob (rec\<lparr>ob_interrupt_id := i, ob_committed := False\<rparr>)"

definition resume_with ::
  "im_registry \<Rightarrow> im_outbox \<Rightarrow> 'w \<Rightarrow> string \<Rightarrow> json \<Rightarrow> 'w resume_effect \<Rightarrow>
   unit result \<times> im_registry \<times> im_outbox \<times> 'w" where
  "resume_with g ob w i resolution effect =
     (case rw_check g i of
        Inl e \<Rightarrow> (Inl e, g, ob, w)
      | Inr _ \<Rightarrow>
          (case effect of
             EffOutbox rec \<Rightarrow>
               (case rw_save ob i rec of
                  (Inl e, ob') \<Rightarrow> (Inl e, g, ob', w)
                | (Inr _, ob') \<Rightarrow> (case im_resume g i resolution of (r, g') \<Rightarrow> (r, g', ob', w)))
           | EffSaga step \<Rightarrow>
               (case sg_commit step w of
                  (Inl e, w') \<Rightarrow> (Inl e, g, ob, snd (sg_compensate step w'))
                | (Inr _, w') \<Rightarrow> (case im_resume g i resolution of (r, g') \<Rightarrow> (r, g', ob, w')))))"

text \<open>
  The SQL variant: one transaction over both tables. A failure before the commit rolls both back;
  the insert fails when the primary key is taken (the database error is an argument).
\<close>

definition resume_with_sql ::
  "(json \<Rightarrow> string result) \<Rightarrow> agent_error \<Rightarrow> interrupt_table \<Rightarrow> outbox_table \<Rightarrow> string \<Rightarrow> json \<Rightarrow>
   outbox_record \<Rightarrow> unit result \<times> interrupt_table \<times> outbox_table" where
  "resume_with_sql enc unique_violation tab ob i resolution rec =
     (let rec = rec\<lparr>ob_interrupt_id := i, ob_committed := False\<rparr> in
      case enc (ob_payload rec) of
        Inl e \<Rightarrow> (Inl e, tab, ob)
      | Inr payload \<Rightarrow>
          (case update_where (\<lambda>r. ri_id r = i \<and> ri_status r \<noteq> ''Resolved'')
                  (\<lambda>r. r\<lparr>ri_status := ''Resolved''\<rparr>) tab of
             (rows_affected, tab') \<Rightarrow>
               (if rows_affected \<noteq> 1 then (Inl (reg_err (AlreadyResolved i)), tab, ob)
                else if ob_id rec \<in> or_id ` set ob then (Inl unique_violation, tab, ob)
                else (Inr (), tab', ob @ [rec_row payload rec]))))"

subsection \<open>The relay\<close>

text \<open>
  \<open>drive_outbox\<close> over any store and any sink. The sink acts on a world \<open>'k\<close>; the store is
  given by its operations \<open>uncommitted\<close> and \<open>mark_committed\<close>. A relayed record counts; a refused
  one is left for the next drive.
\<close>

fun drive_loop ::
  "('s \<Rightarrow> string \<Rightarrow> unit result \<times> 's) \<Rightarrow> ('k \<Rightarrow> outbox_record \<Rightarrow> unit result \<times> 'k) \<Rightarrow>
   outbox_record list \<Rightarrow> nat \<Rightarrow> 's \<Rightarrow> 'k \<Rightarrow> nat result \<times> 's \<times> 'k" where
  "drive_loop mark sink [] relayed s k = (Inr relayed, s, k)"
| "drive_loop mark sink (rec # recs) relayed s k =
     (case sink k rec of
        (Inr _, k') \<Rightarrow>
          (case mark s (ob_id rec) of
             (Inl e, s') \<Rightarrow> (Inl e, s', k')
           | (Inr _, s') \<Rightarrow> drive_loop mark sink recs (relayed + 1) s' k')
      | (Inl e, k') \<Rightarrow> drive_loop mark sink recs relayed s k')"

definition drive_outbox ::
  "('s \<Rightarrow> outbox_record list result) \<Rightarrow> ('s \<Rightarrow> string \<Rightarrow> unit result \<times> 's) \<Rightarrow>
   ('k \<Rightarrow> outbox_record \<Rightarrow> unit result \<times> 'k) \<Rightarrow> 's \<Rightarrow> 'k \<Rightarrow> nat result \<times> 's \<times> 'k" where
  "drive_outbox uncommitted mark sink s k =
     (case uncommitted s of
        Inl e \<Rightarrow> (Inl e, s, k)
      | Inr pending \<Rightarrow> drive_loop mark sink pending 0 s k)"

text \<open>
  A drive that is killed: \<open>n\<close> records are done, the next one has been handed to the sink, which may
  have accepted it, but it is not marked.
\<close>

definition drive_killed ::
  "('s \<Rightarrow> outbox_record list result) \<Rightarrow> ('s \<Rightarrow> string \<Rightarrow> unit result \<times> 's) \<Rightarrow>
   ('k \<Rightarrow> outbox_record \<Rightarrow> unit result \<times> 'k) \<Rightarrow> nat \<Rightarrow> 's \<Rightarrow> 'k \<Rightarrow> 's \<times> 'k" where
  "drive_killed uncommitted mark sink n s k =
     (case uncommitted s of
        Inl e \<Rightarrow> (s, k)
      | Inr pending \<Rightarrow>
          (case drive_loop mark sink (take n pending) 0 s k of
             (r, s', k') \<Rightarrow>
               (case drop n pending of
                  [] \<Rightarrow> (s', k')
                | rec # _ \<Rightarrow> (s', snd (sink k' rec)))))"

subsection \<open>The store as an interface\<close>

definition mark_rec :: "string \<Rightarrow> outbox_record \<Rightarrow> outbox_record" where
  "mark_rec i r = (if ob_id r = i then r\<lparr>ob_committed := True\<rparr> else r)"

lemma mark_rec_fields [simp]:
  "ob_id (mark_rec i r) = ob_id r" "ob_key (mark_rec i r) = ob_key r"
  "ob_committed (mark_rec i r) \<longleftrightarrow> ob_committed r \<or> ob_id r = i"
  by (simp_all add: mark_rec_def)

text \<open>
  A deduplicating sink: \<open>applied\<close> reads the idempotency keys of the writes the external system has
  carried out, one entry per write. Accepting a record whose key is there carries out nothing.
\<close>

definition dedup_sink :: "('k \<Rightarrow> string list) \<Rightarrow> ('k \<Rightarrow> outbox_record \<Rightarrow> unit result \<times> 'k) \<Rightarrow> bool" where
  "dedup_sink applied sink \<longleftrightarrow>
     (\<forall>k r. applied (snd (sink k r))
          = (if is_ok (fst (sink k r)) \<and> ob_key r \<notin> set (applied k)
             then applied k @ [ob_key r] else applied k))"

definition accepting :: "('k \<Rightarrow> outbox_record \<Rightarrow> unit result \<times> 'k) \<Rightarrow> bool" where
  "accepting sink \<longleftrightarrow> (\<forall>k r. fst (sink k r) = Inr ())"

text \<open>Every record marked committed has been carried out.\<close>

definition covered :: "outbox_record list \<Rightarrow> string list \<Rightarrow> bool" where
  "covered rs keys \<longleftrightarrow> (\<forall>r\<in>set rs. ob_committed r \<longrightarrow> ob_key r \<in> set keys)"

datatype outbox_event = EvSave string outbox_record | EvDrive | EvKilled nat

fun outbox_event_step ::
  "('s \<Rightarrow> outbox_record \<Rightarrow> unit result \<times> 's) \<Rightarrow> ('s \<Rightarrow> outbox_record list result) \<Rightarrow>
   ('s \<Rightarrow> string \<Rightarrow> unit result \<times> 's) \<Rightarrow> ('k \<Rightarrow> outbox_record \<Rightarrow> unit result \<times> 'k) \<Rightarrow>
   outbox_event \<Rightarrow> 's \<times> 'k \<Rightarrow> 's \<times> 'k" where
  "outbox_event_step save unc mark sink (EvSave i rec) (s, k) =
     (snd (save s (rec\<lparr>ob_interrupt_id := i, ob_committed := False\<rparr>)), k)"
| "outbox_event_step save unc mark sink EvDrive (s, k) = snd (drive_outbox unc mark sink s k)"
| "outbox_event_step save unc mark sink (EvKilled n) (s, k) = drive_killed unc mark sink n s k"

fun saved_keys :: "outbox_event list \<Rightarrow> string set" where
  "saved_keys [] = {}"
| "saved_keys (EvSave i rec # evs) = insert (ob_key rec) (saved_keys evs)"
| "saved_keys (_ # evs) = saved_keys evs"

fun saved_keys1 :: "outbox_event \<Rightarrow> string set" where
  "saved_keys1 (EvSave i rec) = {ob_key rec}"
| "saved_keys1 _ = {}"

definition event_fits :: "(outbox_record \<Rightarrow> bool) \<Rightarrow> outbox_event \<Rightarrow> bool" where
  "event_fits fits e = (case e of
       EvSave i rec \<Rightarrow> fits (rec\<lparr>ob_interrupt_id := i, ob_committed := False\<rparr>)
     | _ \<Rightarrow> True)"

locale outbox_store =
  fixes save :: "'s \<Rightarrow> outbox_record \<Rightarrow> unit result \<times> 's"
    and unc :: "'s \<Rightarrow> outbox_record list result"
    and mark :: "'s \<Rightarrow> string \<Rightarrow> unit result \<times> 's"
    and inv :: "'s \<Rightarrow> bool"
    and recs :: "'s \<Rightarrow> outbox_record list"
    and fits :: "outbox_record \<Rightarrow> bool"
  assumes ids: "inv s \<Longrightarrow> distinct (map ob_id (recs s))"
    and save_law: "inv s \<Longrightarrow> fits r \<Longrightarrow>
      fst (save s r) = Inr () \<and> inv (snd (save s r)) \<and>
      recs (snd (save s r)) = upsert_by (\<lambda>x. ob_id x = ob_id r) r (recs s)"
    and unc_law: "inv s \<Longrightarrow> \<exists>us. unc s = Inr us \<and> distinct us \<and> set us = {r \<in> set (recs s). \<not> ob_committed r}"
    and mark_law: "inv s \<Longrightarrow>
      fst (mark s i) = Inr () \<and> inv (snd (mark s i)) \<and> recs (snd (mark s i)) = map (mark_rec i) (recs s)"
begin

text \<open>The pending records \<open>us\<close> of the loop still stand for records of the store.\<close>

definition stands :: "outbox_record list \<Rightarrow> 's \<Rightarrow> bool" where
  "stands us s \<longleftrightarrow> (\<forall>u\<in>set us. \<forall>r\<in>set (recs s). ob_id r = ob_id u \<longrightarrow> ob_key r = ob_key u)"

lemma stands_unc: "inv s \<Longrightarrow> unc s = Inr us \<Longrightarrow> stands us s"
  using unc_law [of s] ids [of s] by (auto simp: stands_def distinct_map dest: inj_onD)

lemma loop_sound:
  assumes "dedup_sink applied sink" and "inv s" and "stands us s" and "covered (recs s) (applied k)"
    and "distinct (applied k)" and "drive_loop mark sink us n s k = (r, s', k')"
  shows "inv s' \<and> covered (recs s') (applied k') \<and> distinct (applied k') \<and>
         set (applied k) \<subseteq> set (applied k') \<and>
         set (applied k') \<subseteq> set (applied k) \<union> ob_key ` set us \<and> stands vs s = stands vs s' \<and>
         map ob_id (recs s') = map ob_id (recs s) \<and> ob_key ` set (recs s') = ob_key ` set (recs s) \<and>
         is_ok r"
  using assms(2-)
proof (induction us arbitrary: n s k)
  case (Cons u us)
  obtain a k1 where a: "sink k u = (a, k1)" by (cases "sink k u")
  have app: "applied k1 = (if is_ok a \<and> ob_key u \<notin> set (applied k) then applied k @ [ob_key u] else applied k)"
    using assms(1) a by (simp add: dedup_sink_def) (metis fst_conv snd_conv)
  show ?case
  proof (cases a)
    case (Inl e)
    with app a Cons.prems Cons.IH [of s k1 n] show ?thesis by (auto simp: stands_def)
  next
    case (Inr x)
    obtain b t where b: "mark s (ob_id u) = (b, t)" by (cases "mark s (ob_id u)")
    have t: "b = Inr ()" "inv t" "recs t = map (mark_rec (ob_id u)) (recs s)"
      using mark_law [OF Cons.prems(1), of "ob_id u"] b by simp_all
    have stands: "stands ws t = stands ws s" for ws by (simp add: stands_def t)
    have cov: "covered (recs t) (applied k1)"
      using Cons.prems app Inr by (auto simp: covered_def t stands_def)
    have "drive_loop mark sink us (n + 1) t k1 = (r, s', k')"
      using Cons.prems a b t Inr by simp
    moreover have "distinct (applied k1)" using Cons.prems(4) app by auto
    moreover have "stands us t" using Cons.prems(2) stands by (simp add: stands_def)
    ultimately have "inv s' \<and> covered (recs s') (applied k') \<and> distinct (applied k') \<and>
         set (applied k1) \<subseteq> set (applied k') \<and>
         set (applied k') \<subseteq> set (applied k1) \<union> ob_key ` set us \<and> stands vs t = stands vs s' \<and>
         map ob_id (recs s') = map ob_id (recs t) \<and> ob_key ` set (recs s') = ob_key ` set (recs t) \<and>
         is_ok r"
      by (intro Cons.IH t cov)
    with app stands show ?thesis by (auto simp: t comp_def image_image split: if_splits)
  qed
qed (auto simp: stands_def)

text \<open>What every event keeps, and the keys it can add to the external system.\<close>

definition sound :: "('k \<Rightarrow> string list) \<Rightarrow> 's \<Rightarrow> 'k \<Rightarrow> bool" where
  "sound applied s k \<longleftrightarrow> inv s \<and> covered (recs s) (applied k) \<and> distinct (applied k)"

lemma drive_sound:
  assumes "dedup_sink applied sink" and "sound applied s k"
  shows "sound applied (fst (snd (drive_outbox unc mark sink s k))) (snd (snd (drive_outbox unc mark sink s k))) \<and>
         set (applied (snd (snd (drive_outbox unc mark sink s k)))) \<subseteq> set (applied k) \<union> ob_key ` set (recs s) \<and>
         ob_key ` set (recs (fst (snd (drive_outbox unc mark sink s k)))) = ob_key ` set (recs s)"
proof -
  obtain us where us: "unc s = Inr us" "set us = {r \<in> set (recs s). \<not> ob_committed r}"
    using unc_law assms(2) unfolding sound_def by blast
  obtain r s' k' where d: "drive_loop mark sink us 0 s k = (r, s', k')"
    by (cases "drive_loop mark sink us 0 s k")
  have "inv s" "covered (recs s) (applied k)" "distinct (applied k)" using assms(2) by (auto simp: sound_def)
  note l = loop_sound [OF assms(1) this(1) stands_unc [OF this(1) us(1)] this(2,3) d, of "[]"]
  have "ob_key ` set us \<subseteq> ob_key ` set (recs s)" unfolding us(2) by (rule image_mono) auto
  moreover have "set (applied k') \<subseteq> set (applied k) \<union> ob_key ` set us" using l by (simp only:)
  ultimately have "set (applied k') \<subseteq> set (applied k) \<union> ob_key ` set (recs s)" by blast
  moreover have "drive_outbox unc mark sink s k = (r, s', k')" using us(1) d by (simp add: drive_outbox_def)
  ultimately show ?thesis using l by (simp only: sound_def fst_conv snd_conv)
qed

lemma killed_sound:
  assumes "dedup_sink applied sink" and "sound applied s k"
  shows "sound applied (fst (drive_killed unc mark sink n s k)) (snd (drive_killed unc mark sink n s k)) \<and>
         set (applied (snd (drive_killed unc mark sink n s k))) \<subseteq> set (applied k) \<union> ob_key ` set (recs s) \<and>
         ob_key ` set (recs (fst (drive_killed unc mark sink n s k))) = ob_key ` set (recs s)"
proof -
  obtain us where us: "unc s = Inr us" "set us = {r \<in> set (recs s). \<not> ob_committed r}"
    using unc_law assms(2) unfolding sound_def by blast
  obtain r s' k' where d: "drive_loop mark sink (take n us) 0 s k = (r, s', k')"
    by (cases "drive_loop mark sink (take n us) 0 s k")
  have s: "inv s" "covered (recs s) (applied k)" "distinct (applied k)"
    using assms(2) by (auto simp: sound_def)
  have st: "stands (take n us) s"
    using stands_unc [OF s(1) us(1)] set_take_subset [of n us] by (auto simp: stands_def)
  note l = loop_sound [OF assms(1) s(1) st s(2,3) d, of "[]"]
  have tk: "ob_key ` set (take n us) \<subseteq> ob_key ` set (recs s)"
    using us(2) set_take_subset [of n us] by (intro image_mono) auto
  have app: "set (applied k') \<subseteq> set (applied k) \<union> ob_key ` set (recs s)"
  proof -
    have "set (applied k') \<subseteq> set (applied k) \<union> ob_key ` set (take n us)" using l by (simp only:)
    with tk show ?thesis by blast
  qed
  show ?thesis
  proof (cases "drop n us")
    case Nil
    with l us d app show ?thesis by (simp add: drive_killed_def sound_def)
  next
    case (Cons u rest)
    have "u \<in> set us" using Cons in_set_dropD [of u n us] by simp
    with us have "ob_key u \<in> ob_key ` set (recs s)" by auto
    moreover have "applied (snd (sink k' u)) =
        (if is_ok (fst (sink k' u)) \<and> ob_key u \<notin> set (applied k') then applied k' @ [ob_key u] else applied k')"
      using assms(1) by (simp add: dedup_sink_def)
    ultimately show ?thesis
      using l us(1) d Cons app
      by (auto simp: drive_killed_def sound_def covered_def)
  qed
qed

lemma save_sound:
  assumes "sound applied s k" and "fits r" and "\<not> ob_committed r"
  shows "sound applied (snd (save s r)) k"
  using assms save_law [of s r] set_upsert_by [of "\<lambda>x. ob_id x = ob_id r" r "recs s"]
  by (auto simp: sound_def covered_def)

lemma event_sound:
  assumes "dedup_sink applied sink" and "sound applied s k" and "event_fits fits e"
    and "outbox_event_step save unc mark sink e (s, k) = (s', k')"
  shows "sound applied s' k' \<and> set (applied k') \<subseteq> set (applied k) \<union> ob_key ` set (recs s) \<and>
         ob_key ` set (recs s') \<subseteq> ob_key ` set (recs s) \<union> saved_keys1 e"
proof (cases e)
  case (EvSave i rec)
  let ?r = "rec\<lparr>ob_interrupt_id := i, ob_committed := False\<rparr>"
  have "sound applied s' k \<and> recs s' = upsert_by (\<lambda>x. ob_id x = ob_id rec) ?r (recs s)"
    using assms EvSave save_sound [of applied s k ?r] save_law [of s ?r]
    by (auto simp: event_fits_def sound_def)
  with assms(4) EvSave set_upsert_by [of "\<lambda>x. ob_id x = ob_id rec" ?r "recs s"] show ?thesis
    by auto
next
  case EvDrive
  with drive_sound [OF assms(1,2)] assms(4) show ?thesis
    by (cases "drive_outbox unc mark sink s k") auto
next
  case (EvKilled n)
  with killed_sound [OF assms(1,2), of n] assms(4) show ?thesis by auto
qed

lemma history_sound:
  assumes "dedup_sink applied sink" and "sound applied s k" and "list_all (event_fits fits) evs"
    and "fold (outbox_event_step save unc mark sink) evs (s, k) = (s', k')"
  shows "sound applied s' k' \<and>
         set (applied k') \<subseteq> set (applied k) \<union> ob_key ` set (recs s) \<union> saved_keys evs"
  using assms(2-)
proof (induction evs arbitrary: s k)
  case (Cons e evs)
  obtain s1 k1 where e: "outbox_event_step save unc mark sink e (s, k) = (s1, k1)"
    by (cases "outbox_event_step save unc mark sink e (s, k)")
  have "saved_keys (e # evs) = saved_keys1 e \<union> saved_keys evs" by (cases e) simp_all
  have 1: "sound applied s1 k1 \<and> set (applied k1) \<subseteq> set (applied k) \<union> ob_key ` set (recs s) \<and>
      ob_key ` set (recs s1) \<subseteq> ob_key ` set (recs s) \<union> saved_keys1 e"
    using Cons.prems by (intro event_sound [OF assms(1) _ _ e]) simp_all
  moreover have "sound applied s' k' \<and>
      set (applied k') \<subseteq> set (applied k1) \<union> ob_key ` set (recs s1) \<union> saved_keys evs"
    using Cons.prems e 1 by (intro Cons.IH) simp_all
  ultimately show ?case
    using \<open>saved_keys (e # evs) = saved_keys1 e \<union> saved_keys evs\<close> by blast
qed simp

text \<open>A sink that accepts everything empties the outbox.\<close>

lemma loop_accepting:
  assumes "accepting sink" and "inv s"
  shows "\<exists>s' k'. drive_loop mark sink us n s k = (Inr (n + length us), s', k') \<and> inv s' \<and>
           recs s' = map (\<lambda>r. if ob_id r \<in> ob_id ` set us then r\<lparr>ob_committed := True\<rparr> else r) (recs s)"
  using assms(2)
proof (induction us arbitrary: n s k)
  case (Cons u us)
  obtain k1 where a: "sink k u = (Inr (), k1)" using assms(1) by (cases "sink k u") (metis accepting_def fst_conv)
  obtain t where t: "mark s (ob_id u) = (Inr (), t)" "inv t" "recs t = map (mark_rec (ob_id u)) (recs s)"
    using mark_law [OF Cons.prems, of "ob_id u"] by (cases "mark s (ob_id u)") auto
  from Cons.IH [OF t(2), of "n + 1" k1] a t show ?case
    by (auto simp: mark_rec_def)
qed simp

lemma drive_accepting:
  assumes "accepting sink" and "inv s"
  shows "\<exists>s' k'. drive_outbox unc mark sink s k
           = (Inr (length (filter (\<lambda>r. \<not> ob_committed r) (recs s))), s', k') \<and>
           inv s' \<and> unc s' = Inr [] \<and> map ob_key (recs s') = map ob_key (recs s) \<and>
           (\<forall>r\<in>set (recs s'). ob_committed r)"
proof -
  obtain us where us: "unc s = Inr us" "distinct us" "set us = {r \<in> set (recs s). \<not> ob_committed r}"
    using unc_law assms(2) by blast
  obtain s' k' where l: "drive_loop mark sink us 0 s k = (Inr (length us), s', k')" "inv s'"
    "recs s' = map (\<lambda>r. if ob_id r \<in> ob_id ` set us then r\<lparr>ob_committed := True\<rparr> else r) (recs s)"
    using loop_accepting [OF assms, where us = us and n = 0 and k = k] by auto
  have "distinct (filter (\<lambda>r. \<not> ob_committed r) (recs s))"
    using ids [OF assms(2)] by (simp add: distinct_map)
  with us have "length us = length (filter (\<lambda>r. \<not> ob_committed r) (recs s))"
    using distinct_card [of us] distinct_card [of "filter (\<lambda>r. \<not> ob_committed r) (recs s)"] by simp
  moreover have all: "\<forall>r\<in>set (recs s'). ob_committed r" using us(3) by (auto simp: l(3))
  moreover have "unc s' = Inr []"
  proof -
    obtain us' where us': "unc s' = Inr us'" "set us' = {r \<in> set (recs s'). \<not> ob_committed r}"
      using unc_law [OF l(2)] by blast
    have "set us' = {}" unfolding us'(2) using all by simp
    then show ?thesis using us'(1) by simp
  qed
  ultimately show ?thesis using us(1) by (simp add: drive_outbox_def l comp_def image_iff)
qed

end

subsection \<open>Both stores provide the interface\<close>

lemma modify_first_mark:
  "distinct (map ob_id g) \<Longrightarrow>
   modify_first (\<lambda>r. ob_id r = i) (\<lambda>r. r\<lparr>ob_committed := True\<rparr>) g = map (mark_rec i) g"
proof (induction g)
  case (Cons r g)
  have "map (mark_rec i) g = g" if "ob_id r = i"
    using that Cons.prems by (intro map_idI) (auto simp: mark_rec_def rev_image_eqI)
  moreover have "mark_rec i r = (if ob_id r = i then r\<lparr>ob_committed := True\<rparr> else r)"
    by (simp add: mark_rec_def)
  ultimately show ?case using Cons by auto
qed simp

interpretation im_ob: outbox_store im_ob_save im_ob_uncommitted im_ob_mark
    "\<lambda>g. distinct (map ob_id g)" "\<lambda>g. g" "\<lambda>_. True"
proof (unfold_locales, goal_cases)
  case (2 s r)
  then show ?case by (simp add: im_ob_save_def distinct_upsert_key)
next
  case (3 s)
  then have "distinct (filter (\<lambda>r. \<not> ob_committed r) s)" by (simp add: distinct_map)
  then show ?case by (auto simp: im_ob_uncommitted_def)
next
  case (4 s i)
  then show ?case by (simp add: im_ob_mark_def modify_first_mark comp_def)
qed simp

definition rec_of :: "(string \<Rightarrow> json result) \<Rightarrow> outbox_row \<Rightarrow> outbox_record" where
  "rec_of dec r = (case row_to_rec dec r of
       Inr x \<Rightarrow> x
     | Inl e \<Rightarrow> \<lparr>ob_id = or_id r, ob_interrupt_id = or_interrupt_id r, ob_payload = Null,
                  ob_key = or_key r, ob_committed = (or_committed r \<noteq> 0)\<rparr>)"

definition ob_row_good :: "(string \<Rightarrow> json result) \<Rightarrow> outbox_row \<Rightarrow> bool" where
  "ob_row_good dec r \<longleftrightarrow> is_ok (dec (or_payload_json r))"

definition sql_ob_inv :: "(string \<Rightarrow> json result) \<Rightarrow> outbox_table \<Rightarrow> bool" where
  "sql_ob_inv dec tab \<longleftrightarrow> distinct (map or_id tab) \<and> (\<forall>r\<in>set tab. ob_row_good dec r)"

definition ob_fits :: "(json \<Rightarrow> string result) \<Rightarrow> (string \<Rightarrow> json result) \<Rightarrow> outbox_record \<Rightarrow> bool" where
  "ob_fits enc dec r \<longleftrightarrow>
     (case enc (ob_payload r) of Inl e \<Rightarrow> False | Inr j \<Rightarrow> dec j = Inr (ob_payload r))"

lemma rec_of_fields [simp]:
  "ob_id (rec_of dec r) = or_id r" "ob_key (rec_of dec r) = or_key r"
  "ob_committed (rec_of dec r) \<longleftrightarrow> or_committed r \<noteq> 0"
  by (cases "dec (or_payload_json r)"; simp add: rec_of_def row_to_rec_def)+

lemma row_to_rec_good: "ob_row_good dec r \<Longrightarrow> row_to_rec dec r = Inr (rec_of dec r)"
  by (cases "dec (or_payload_json r)") (simp_all add: ob_row_good_def row_to_rec_def rec_of_def)

lemma rows_to_recs_good: "\<forall>r\<in>set rs. ob_row_good dec r \<Longrightarrow> rows_to_recs dec rs = Inr (map (rec_of dec) rs)"
  by (induction rs) (simp_all add: row_to_rec_good)

lemma rec_of_rec_row: "dec j = Inr (ob_payload r) \<Longrightarrow> rec_of dec (rec_row j r) = r"
  by (simp add: rec_of_def row_to_rec_def rec_row_def)

lemma rec_of_commit: "rec_of dec (r\<lparr>or_committed := 1\<rparr>) = (rec_of dec r)\<lparr>ob_committed := True\<rparr>"
  by (cases "dec (or_payload_json r)") (simp_all add: rec_of_def row_to_rec_def)

lemma map_upsert_rec:
  "map (rec_of dec) (upsert_by (\<lambda>r. or_id r = i) row tab)
   = upsert_by (\<lambda>x. ob_id x = i) (rec_of dec row) (map (rec_of dec) tab)"
  by (induction tab) auto

lemma sql_ob_save_law:
  assumes "sql_ob_inv dec tab" and "ob_fits enc dec r" and "sql_ob_save enc tab r = (a, tab')"
  shows "a = Inr () \<and> sql_ob_inv dec tab' \<and>
         map (rec_of dec) tab' = upsert_by (\<lambda>x. ob_id x = ob_id r) r (map (rec_of dec) tab)"
proof -
  from assms(2) obtain j where j: "enc (ob_payload r) = Inr j" "dec j = Inr (ob_payload r)"
    by (auto simp: ob_fits_def split: sum.splits)
  let ?row = "rec_row j r"
  have row: "or_id ?row = ob_id r" "ob_row_good dec ?row" using j by (simp_all add: rec_row_def ob_row_good_def)
  have tab': "a = Inr ()" "tab' = upsert_by (\<lambda>x. or_id x = or_id ?row) ?row tab"
    using assms(3) j row by (simp_all add: sql_ob_save_def)
  have "distinct (map or_id tab')"
    unfolding tab' using assms(1) by (intro distinct_upsert_key) (simp_all add: sql_ob_inv_def)
  moreover have "\<forall>x\<in>set tab'. ob_row_good dec x"
    using set_upsert_by [of "\<lambda>x. or_id x = or_id ?row" ?row tab] assms(1) row
    by (auto simp: tab' sql_ob_inv_def)
  ultimately show ?thesis
    by (simp add: tab'(1) sql_ob_inv_def) (simp add: tab'(2) map_upsert_rec row rec_of_rec_row j)
qed

interpretation sql_ob: outbox_store "sql_ob_save enc" "sql_ob_uncommitted dec" sql_ob_mark
    "sql_ob_inv dec" "map (rec_of dec)" "ob_fits enc dec" for enc dec
proof (unfold_locales, goal_cases)
  case (1 s)
  then show ?case by (simp add: sql_ob_inv_def comp_def)
next
  case (2 s r)
  then show ?case using sql_ob_save_law [of dec s enc r] by (cases "sql_ob_save enc s r") simp
next
  case (3 s)
  let ?us = "map (rec_of dec) (sort_key or_id (filter (\<lambda>r. or_committed r = 0) s))"
  have "distinct (map ob_id ?us)"
    using 3 by (simp add: sql_ob_inv_def comp_def distinct_map inj_on_def)
  then have "distinct ?us" by (blast dest: distinct_map [THEN iffD1])
  moreover have "sql_ob_uncommitted dec s = Inr ?us"
    using 3 by (auto simp: sql_ob_uncommitted_def sql_ob_inv_def intro!: rows_to_recs_good)
  moreover have "set ?us = {r \<in> set (map (rec_of dec) s). \<not> ob_committed r}" by auto
  ultimately show ?case by blast
next
  case (4 s i)
  have "map or_id (snd (sql_ob_mark s i)) = map or_id s" by (simp add: sql_ob_mark_def)
  moreover have "map (rec_of dec) (snd (sql_ob_mark s i)) = map (mark_rec i) (map (rec_of dec) s)"
    by (simp add: sql_ob_mark_def mark_rec_def rec_of_commit)
  moreover have "fst (sql_ob_mark s i) = Inr () \<and> (\<forall>r\<in>set (snd (sql_ob_mark s i)). ob_row_good dec r)"
    using 4 by (auto simp: sql_ob_inv_def sql_ob_mark_def ob_row_good_def)
  ultimately show ?case
    using 4 by (simp add: sql_ob_inv_def)
qed

subsection \<open>At-least-once relay, exactly-once effect\<close>

definition demo_ledger :: "string list \<Rightarrow> outbox_record \<Rightarrow> unit result \<times> string list" where
  "demo_ledger ks r = (Inr (), if ob_key r \<in> set ks then ks else ks @ [ob_key r])"

definition demo_rec :: "string \<Rightarrow> outbox_record" where
  "demo_rec i = \<lparr>ob_id = i, ob_interrupt_id = [], ob_payload = String i, ob_key = ''key-'' @ i, ob_committed = True\<rparr>"

lemma demo_ledger_ok: "dedup_sink (\<lambda>ks. ks) demo_ledger" "accepting demo_ledger"
  by (auto simp: dedup_sink_def accepting_def demo_ledger_def)

text \<open>
  (C3) Over the SQL outbox: whatever sequence of saves, relay drives and drives killed between the
  sink and the mark has happened, with a deduplicating sink that may refuse at any time, no write was
  carried out twice and none that was never saved; and one further drive against a sink that
  accepts everything counts every pending record, leaves none pending and has carried out
  every record of the outbox exactly once.
\<close>

theorem outbox_exactly_once:
  assumes "dedup_sink applied sink" and "sql_ob_inv dec tab" and "covered (map (rec_of dec) tab) (applied k)"
    and "distinct (applied k)" and "list_all (event_fits (ob_fits enc dec)) evs"
    and "fold (outbox_event_step (sql_ob_save enc) (sql_ob_uncommitted dec) sql_ob_mark sink) evs (tab, k)
       = (tab', k')"
    and "dedup_sink applied sink'" and "accepting sink'"
  shows "distinct (applied k') \<and>
         set (applied k') \<subseteq> set (applied k) \<union> or_key ` set tab \<union> saved_keys evs \<and>
         (\<exists>tab'' k''. drive_outbox (sql_ob_uncommitted dec) sql_ob_mark sink' tab' k'
            = (Inr (length (filter (\<lambda>r. or_committed r = 0) tab')), tab'', k'') \<and>
            sql_ob_uncommitted dec tab'' = Inr [] \<and> distinct (applied k'') \<and>
            or_key ` set tab' \<subseteq> set (applied k''))"
proof -
  have h: "sql_ob.sound dec applied tab' k' \<and>
      set (applied k') \<subseteq> set (applied k) \<union> ob_key ` set (map (rec_of dec) tab) \<union> saved_keys evs"
    using assms(2-4) by (intro sql_ob.history_sound [OF assms(1) _ assms(5,6)]) (simp add: sql_ob.sound_def)
  then have inv: "sql_ob_inv dec tab'" by (simp add: sql_ob.sound_def)
  obtain t q where d: "drive_outbox (sql_ob_uncommitted dec) sql_ob_mark sink' tab' k'
      = (Inr (length (filter (\<lambda>r. \<not> ob_committed r) (map (rec_of dec) tab'))), t, q)"
    "sql_ob_uncommitted dec t = Inr []" "map ob_key (map (rec_of dec) t) = map ob_key (map (rec_of dec) tab')"
    "\<forall>r\<in>set (map (rec_of dec) t). ob_committed r"
    using sql_ob.drive_accepting [OF assms(8) inv, of k'] by blast
  have "sql_ob.sound dec applied t q"
    using sql_ob.drive_sound [OF assms(7), of dec tab' k'] h d(1) by (simp del: map_map)
  then have "distinct (applied q)" "covered (map (rec_of dec) t) (applied q)" by (simp_all add: sql_ob.sound_def)
  moreover have "or_key ` set tab' = ob_key ` set (map (rec_of dec) t)"
    using arg_cong [OF d(3), of set] by (simp add: image_image)
  ultimately have "or_key ` set tab' \<subseteq> set (applied q)" using d(4) by (auto simp: covered_def)
  moreover have "drive_outbox (sql_ob_uncommitted dec) sql_ob_mark sink' tab' k'
      = (Inr (length (filter (\<lambda>r. or_committed r = 0) tab')), t, q)"
    using d(1) by (simp add: filter_map comp_def)
  moreover have "distinct (applied k')" using h by (simp only: sql_ob.sound_def)
  ultimately show ?thesis using h d(2) \<open>distinct (applied q)\<close> by (auto simp: image_image)
qed

definition demo_events :: "outbox_event list" where
  "demo_events = [EvSave ''i1'' (demo_rec ''a''), EvKilled 0, EvSave ''i2'' (demo_rec ''b''), EvDrive]"

definition demo_world :: "outbox_table \<times> string list" where
  "demo_world = fold (outbox_event_step (sql_ob_save demo_enc) (sql_ob_uncommitted demo_dec) sql_ob_mark demo_ledger)
     demo_events ([], [])"

theorem outbox_exactly_once_witness:
  "distinct (snd demo_world) \<and>
   set (snd demo_world) \<subseteq> set [] \<union> or_key ` set ([] :: outbox_table) \<union> saved_keys demo_events \<and>
   (\<exists>tab'' k''. drive_outbox (sql_ob_uncommitted demo_dec) sql_ob_mark demo_ledger (fst demo_world) (snd demo_world)
     = (Inr (length (filter (\<lambda>r. or_committed r = 0) (fst demo_world))), tab'', k'') \<and>
     sql_ob_uncommitted demo_dec tab'' = Inr [] \<and> distinct k'' \<and>
     or_key ` set (fst demo_world) \<subseteq> set k'')"
proof (rule outbox_exactly_once [where enc = demo_enc and applied = "\<lambda>ks. ks" and sink = demo_ledger])
  show "fold (outbox_event_step (sql_ob_save demo_enc) (sql_ob_uncommitted demo_dec) sql_ob_mark demo_ledger)
     demo_events ([], []) = (fst demo_world, snd demo_world)"
    by (simp add: demo_world_def)
qed (simp_all add: demo_ledger_ok sql_ob_inv_def covered_def demo_events_def event_fits_def ob_fits_def demo_rec_def)

subsection \<open>Atomicity of resume\_with\<close>

text \<open>
  A sequential \<open>resume_with\<close> on the in-memory stores with an outbox effect is all or nothing. It
  succeeds exactly on a known, unresolved approval; then the approval is resolved and the record is in the
  outbox, uncommitted and bound to it. On an error both stores are as they were.
\<close>

theorem resume_with_all_or_nothing:
  fixes g :: im_registry and ob :: im_outbox
  assumes "im_inv g" and "resume_with g ob w i v (EffOutbox rec) = (r, g', ob', w')"
  shows "w' = w \<and>
    (case map_of g i of
       None \<Rightarrow> r = Inl (reg_err (NotFound i)) \<and> g' = g \<and> ob' = ob
     | Some p \<Rightarrow>
         (if pi_status p = Resolved then r = Inl (reg_err (AlreadyResolved i)) \<and> g' = g \<and> ob' = ob
          else r = Inr () \<and> map_of g' = (map_of g)(i \<mapsto> p\<lparr>pi_status := Resolved\<rparr>) \<and>
               im_ob_get ob' (ob_id rec) = Inr (Some (rec\<lparr>ob_interrupt_id := i, ob_committed := False\<rparr>)) \<and>
               (\<forall>j. j \<noteq> ob_id rec \<longrightarrow> im_ob_get ob' j = im_ob_get ob j)))"
  using assms(2)
  by (auto simp: resume_with_def rw_check_def im_get_def rw_save_def im_ob_save_def im_resume_def
        update_conv' im_ob_get_def upsert_simps split: option.splits if_splits)

theorem resume_with_all_or_nothing_witness:
  "(case resume_with [(''i1'', demo_pending ''i1'' 0)] [] (0 :: nat) ''i1'' (Bool True) (EffOutbox (demo_rec ''a'')) of
     (r, g', ob', w') \<Rightarrow>
       w' = 0 \<and>
       (case map_of [(''i1'', demo_pending ''i1'' 0)] ''i1'' of
          None \<Rightarrow> r = Inl (reg_err (NotFound ''i1'')) \<and> g' = [(''i1'', demo_pending ''i1'' 0)] \<and> ob' = []
        | Some p \<Rightarrow>
           (if pi_status p = Resolved then r = Inl (reg_err (AlreadyResolved ''i1'')) \<and>
              g' = [(''i1'', demo_pending ''i1'' 0)] \<and> ob' = []
            else r = Inr () \<and>
               map_of g' = (map_of [(''i1'', demo_pending ''i1'' 0)])(''i1'' \<mapsto> p\<lparr>pi_status := Resolved\<rparr>) \<and>
               im_ob_get ob' (ob_id (demo_rec ''a'')) =
                 Inr (Some ((demo_rec ''a'')\<lparr>ob_interrupt_id := ''i1'', ob_committed := False\<rparr>)) \<and>
               (\<forall>j. j \<noteq> ob_id (demo_rec ''a'') \<longrightarrow> im_ob_get ob' j = im_ob_get [] j))))"
proof -
  obtain r g' ob' w' where
    "resume_with [(''i1'', demo_pending ''i1'' 0)] [] (0 :: nat) ''i1'' (Bool True) (EffOutbox (demo_rec ''a'')) = (r, g', ob', w')"
    by (cases rule: prod_cases4)
  from resume_with_all_or_nothing [OF _ this] this show ?thesis
    by (simp add: im_inv_def demo_simps)
qed

text \<open>
  A saga effect: the approval is resolved exactly when the commit action succeeded; when it failed, the
  compensation has run on the world the commit left, the error is the commit's and the stores are
  untouched.
\<close>

lemma resume_with_saga:
  assumes "map_of g i = Some p" and "pi_status p \<noteq> Resolved" and "sg_commit step w = (c, w1)"
  shows "resume_with g ob w i v (EffSaga step) =
     (case c of
        Inl e \<Rightarrow> (Inl e, g, ob, snd (sg_compensate step w1))
      | Inr _ \<Rightarrow> (Inr (), AList.update i (p\<lparr>pi_status := Resolved\<rparr>) g, ob, w1))"
  using assms by (simp add: resume_with_def rw_check_def im_get_def im_resume_def split: sum.splits)

subsection \<open>Concurrent resume\_with\<close>

text \<open>
  The in-memory \<open>resume_with\<close> is three critical sections, not one. \<open>rw_step\<close> is one section of a call;
  a schedule names the call that moves next.
\<close>

datatype rw_pc = RwCheck | RwSave | RwResume | RwDone "unit result"

fun rw_step ::
  "string \<Rightarrow> json \<times> outbox_record \<Rightarrow> rw_pc \<times> im_registry \<times> im_outbox \<Rightarrow> rw_pc \<times> im_registry \<times> im_outbox" where
  "rw_step i (v, rec) (RwCheck, g, ob) =
     (case rw_check g i of Inl e \<Rightarrow> (RwDone (Inl e), g, ob) | Inr _ \<Rightarrow> (RwSave, g, ob))"
| "rw_step i (v, rec) (RwSave, g, ob) =
     (case rw_save ob i rec of (Inl e, ob') \<Rightarrow> (RwDone (Inl e), g, ob') | (Inr _, ob') \<Rightarrow> (RwResume, g, ob'))"
| "rw_step i (v, rec) (RwResume, g, ob) =
     (case im_resume g i v of (r, g') \<Rightarrow> (RwDone r, g', ob))"
| "rw_step i (v, rec) (RwDone r, g, ob) = (RwDone r, g, ob)"

fun rw_run ::
  "string \<Rightarrow> (json \<times> outbox_record) list \<Rightarrow> nat list \<Rightarrow> rw_pc list \<Rightarrow> im_registry \<Rightarrow> im_outbox \<Rightarrow>
   rw_pc list \<times> im_registry \<times> im_outbox" where
  "rw_run i calls [] pcs g ob = (pcs, g, ob)"
| "rw_run i calls (c # sched) pcs g ob =
     (if c < length pcs \<and> c < length calls
      then (case rw_step i (calls ! c) (pcs ! c, g, ob) of
              (pc, g', ob') \<Rightarrow> rw_run i calls sched (pcs[c := pc]) g' ob')
      else rw_run i calls sched pcs g ob)"

lemma rw_step_resume_with:
  "resume_with g ob w i v (EffOutbox rec) = (r, g', ob', w) \<Longrightarrow>
   ((rw_step i (v, rec)) ^^ 3) (RwCheck, g, ob) = (RwDone r, g', ob')"
  by (auto simp: numeral_3_eq_3 resume_with_def split: sum.splits prod.splits)

definition winners :: "rw_pc list \<Rightarrow> nat" where
  "winners pcs = length (filter (\<lambda>pc. pc = RwDone (Inr ())) pcs)"

definition resolved_in :: "im_registry \<Rightarrow> string \<Rightarrow> bool" where
  "resolved_in g i \<longleftrightarrow> (\<exists>p. map_of g i = Some p \<and> pi_status p = Resolved)"

lemma winners_update:
  "c < length pcs \<Longrightarrow> pcs ! c \<noteq> RwDone (Inr ()) \<Longrightarrow>
   winners (pcs[c := pc]) = winners pcs + (if pc = RwDone (Inr ()) then 1 else 0)"
proof (induction pcs arbitrary: c)
  case (Cons a pcs)
  then show ?case by (cases c) (auto simp: winners_def)
qed simp

lemma rw_step_winner:
  assumes "map_of g i \<noteq> None" and "rw_step i call (pc, g, ob) = (pc', g', ob')" and "pc \<noteq> RwDone (Inr ())"
  shows "map_of g' i \<noteq> None \<and>
         (pc' = RwDone (Inr ()) \<longrightarrow> \<not> resolved_in g i \<and> resolved_in g' i) \<and>
         (pc' \<noteq> RwDone (Inr ()) \<longrightarrow> g' = g)"
proof (cases call)
  case (Pair v rec)
  with assms show ?thesis
    by (cases pc)
       (auto simp: rw_save_def im_ob_save_def im_resume_def resolved_in_def update_conv' rw_check_def im_get_def
          split: sum.splits if_splits option.splits)
qed

text \<open>
  However the critical sections of any number of concurrent \<open>resume_with\<close> calls on one unresolved
  approval interleave, at most one of them returns \<open>Ok\<close>, and one does exactly when the approval has become
  resolved.
\<close>

theorem resume_with_one_winner:
  assumes "map_of g i = Some p" and "pi_status p \<noteq> Resolved"
    and "rw_run i calls sched (replicate (length calls) RwCheck) g ob = (pcs, g', ob')"
  shows "winners pcs = (if resolved_in g' i then 1 else 0)"
proof -
  have run: "winners pcs = (if resolved_in g' i then 1 else 0)"
    if "map_of g i \<noteq> None" and "winners pcs0 = (if resolved_in g i then 1 else 0)"
      and "rw_run i calls sched pcs0 g ob = (pcs, g', ob')" for pcs0 g ob
    using that
  proof (induction sched arbitrary: pcs0 g ob)
    case (Cons c sched)
    show ?case
    proof (cases "c < length pcs0 \<and> c < length calls \<and> pcs0 ! c \<noteq> RwDone (Inr ())")
      case True
      obtain pc g1 ob1 where s: "rw_step i (calls ! c) (pcs0 ! c, g, ob) = (pc, g1, ob1)"
        by (cases rule: prod_cases3)
      with rw_step_winner [OF Cons.prems(1) s] True Cons.prems winners_update [of c pcs0 pc] show ?thesis
        by (intro Cons.IH [of g1 "pcs0[c := pc]" ob1]) (auto split: if_splits)
    next
      case False
      moreover have "pcs0[c := RwDone (Inr ())] = pcs0" if "pcs0 ! c = RwDone (Inr ())"
        using that by (metis list_update_id)
      ultimately have "rw_run i calls sched pcs0 g ob = (pcs, g', ob')"
        using Cons.prems(3) by (cases "calls ! c") (auto split: if_splits)
      with Cons show ?thesis by blast
    qed
  qed simp
  show ?thesis
    by (rule run [OF _ _ assms(3)]) (use assms in \<open>auto simp: resolved_in_def winners_def\<close>)
qed

text \<open>
  The loser of a race leaves its effect behind: when two calls with different outbox records
  both pass the validation before either resolves, the second answers \<open>AlreadyResolved\<close>, yet both
  records are in the outbox, uncommitted, and the relay will forward both writes.
\<close>

theorem resume_with_loser_leaves_record:
  assumes "map_of g i = Some p" and "pi_status p \<noteq> Resolved" and "ob_id a \<noteq> ob_id b"
    and "rw_run i [(v, a), (w, b)] [0, 1, 0, 1, 0, 1] [RwCheck, RwCheck] g ob = (pcs, g', ob')"
  shows "pcs = [RwDone (Inr ()), RwDone (Inl (reg_err (AlreadyResolved i)))] \<and>
         (\<forall>rec\<in>{a, b}. \<exists>us. im_ob_uncommitted ob' = Inr us \<and>
            rec\<lparr>ob_interrupt_id := i, ob_committed := False\<rparr> \<in> set us)"
proof -
  let ?r = "\<lambda>rec. rec\<lparr>ob_interrupt_id := i, ob_committed := False\<rparr>"
  let ?s = "\<lambda>r. upsert_by (\<lambda>x. ob_id x = ob_id r) r"
  have "ob' = ?s (?r b) (?s (?r a) ob)"
    and pcs: "pcs = [RwDone (Inr ()), RwDone (Inl (reg_err (AlreadyResolved i)))]"
    using assms by (auto simp: rw_check_def im_get_def rw_save_def im_ob_save_def im_resume_def update_conv')
  then have "find (\<lambda>x. ob_id x = ob_id a) ob' = Some (?r a)" "find (\<lambda>x. ob_id x = ob_id b) ob' = Some (?r b)"
    using assms(3) by (auto simp: upsert_simps)
  then have "?r a \<in> set ob'" "?r b \<in> set ob'" by (auto dest: find_SomeD)
  with pcs show ?thesis by (simp add: im_ob_uncommitted_def)
qed

definition demo_calls :: "(json \<times> outbox_record) list" where
  "demo_calls = [(Bool True, demo_rec ''a''), (Bool False, demo_rec ''b'')]"

definition demo_registry :: im_registry where
  "demo_registry = [(''i1'', demo_pending ''i1'' 0)]"

theorem resume_with_one_winner_witness:
  "winners (fst (rw_run ''i1'' demo_calls [0, 1, 0, 1, 1, 0] (replicate (length demo_calls) RwCheck) demo_registry []))
   = (if resolved_in (fst (snd (rw_run ''i1'' demo_calls [0, 1, 0, 1, 1, 0]
            (replicate (length demo_calls) RwCheck) demo_registry []))) ''i1'' then 1 else 0)"
proof (rule resume_with_one_winner [where p = "demo_pending ''i1'' 0"])
  show "rw_run ''i1'' demo_calls [0, 1, 0, 1, 1, 0] (replicate (length demo_calls) RwCheck) demo_registry []
      = (fst (rw_run ''i1'' demo_calls [0, 1, 0, 1, 1, 0] (replicate (length demo_calls) RwCheck) demo_registry []),
         fst (snd (rw_run ''i1'' demo_calls [0, 1, 0, 1, 1, 0] (replicate (length demo_calls) RwCheck) demo_registry [])),
         snd (snd (rw_run ''i1'' demo_calls [0, 1, 0, 1, 1, 0] (replicate (length demo_calls) RwCheck) demo_registry [])))"
    by simp
qed (simp_all add: demo_registry_def demo_pending_def)

theorem resume_with_loser_leaves_record_witness:
  "case rw_run ''i1'' demo_calls [0, 1, 0, 1, 0, 1] [RwCheck, RwCheck] demo_registry [] of
     (pcs, g', ob') \<Rightarrow>
       pcs = [RwDone (Inr ()), RwDone (Inl (reg_err (AlreadyResolved ''i1'')))] \<and>
       (\<forall>rec\<in>{demo_rec ''a'', demo_rec ''b''}. \<exists>us. im_ob_uncommitted ob' = Inr us \<and>
          rec\<lparr>ob_interrupt_id := ''i1'', ob_committed := False\<rparr> \<in> set us)"
proof -
  obtain pcs g' ob' where
    r: "rw_run ''i1'' demo_calls [0, 1, 0, 1, 0, 1] [RwCheck, RwCheck] demo_registry [] = (pcs, g', ob')"
    by (cases rule: prod_cases3)
  from resume_with_loser_leaves_record [OF _ _ _ this [unfolded demo_calls_def]] show ?thesis
    unfolding r by (simp add: demo_registry_def demo_pending_def demo_rec_def)
qed

subsection \<open>The single-transaction variant\<close>

definition sql_resolved :: "interrupt_table \<Rightarrow> string \<Rightarrow> bool" where
  "sql_resolved tab i \<longleftrightarrow> (\<exists>r\<in>set tab. ri_id r = i \<and> ri_status r = ''Resolved'')"

fun sql_resumes ::
  "(json \<Rightarrow> string result) \<Rightarrow> agent_error \<Rightarrow> interrupt_table \<Rightarrow> outbox_table \<Rightarrow>
   (string \<times> json \<times> outbox_record) list \<Rightarrow> unit result list \<times> interrupt_table \<times> outbox_table" where
  "sql_resumes enc uv tab ob [] = ([], tab, ob)"
| "sql_resumes enc uv tab ob ((i, v, rec) # calls) =
     (case resume_with_sql enc uv tab ob i v rec of
        (r, tab', ob') \<Rightarrow>
          (case sql_resumes enc uv tab' ob' calls of (rs, tab'', ob'') \<Rightarrow> (r # rs, tab'', ob'')))"

lemma update_one_status:
  assumes "distinct (map ri_id tab)"
    and "update_where (\<lambda>r. ri_id r = i \<and> ri_status r \<noteq> ''Resolved'') (\<lambda>r. r\<lparr>ri_status := ''Resolved''\<rparr>) tab = (n, tab')"
  shows "map ri_id tab' = map ri_id tab \<and> (n = 1 \<longleftrightarrow> i \<in> ri_id ` set tab \<and> \<not> sql_resolved tab i) \<and>
         (n = 1 \<longrightarrow> sql_resolved tab' i) \<and> (\<forall>j. j \<noteq> i \<longrightarrow> sql_resolved tab' j = sql_resolved tab j)"
proof -
  have tab': "tab' = map (\<lambda>r. if ri_id r = i \<and> ri_status r \<noteq> ''Resolved'' then r\<lparr>ri_status := ''Resolved''\<rparr> else r) tab"
    and n: "n = length (filter (\<lambda>r. ri_id r = i \<and> ri_status r \<noteq> ''Resolved'') tab)"
    using assms(2) by (auto simp: update_where_def)
  have "map ri_id tab' = map ri_id tab" by (simp add: tab')
  moreover have "n = 1 \<longleftrightarrow> i \<in> ri_id ` set tab \<and> \<not> sql_resolved tab i"
    unfolding n using assms(1)
  proof (induction tab)
    case (Cons a tab)
    show ?case
    proof (cases "ri_id a = i")
      case True
      with Cons.prems have none: "\<forall>r\<in>set tab. ri_id r \<noteq> i" by (auto simp: image_iff)
      then have "filter (\<lambda>r. ri_id r = i \<and> ri_status r \<noteq> ''Resolved'') tab = []"
        by (auto simp: filter_empty_conv)
      with True none show ?thesis by (auto simp: sql_resolved_def)
    next
      case False
      with Cons show ?thesis by (auto simp: sql_resolved_def)
    qed
  qed (simp add: sql_resolved_def)
  moreover have "sql_resolved tab' i" if "i \<in> ri_id ` set tab"
    using that unfolding tab' by (induction tab) (auto simp: sql_resolved_def)
  moreover have "sql_resolved tab' j = sql_resolved tab j" if "j \<noteq> i" for j
    using that unfolding tab' by (induction tab) (auto simp: sql_resolved_def)
  ultimately show ?thesis by blast
qed

lemma resume_with_sql_cases:
  assumes "distinct (map ri_id tab)" and "resume_with_sql enc uv tab ob i v rec = (r, tab', ob')"
  shows "(is_ok r \<and> i \<in> ri_id ` set tab \<and> \<not> sql_resolved tab i \<and> sql_resolved tab' i \<and>
            map ri_id tab' = map ri_id tab \<and> (\<forall>j. j \<noteq> i \<longrightarrow> sql_resolved tab' j = sql_resolved tab j) \<and>
            (\<exists>row. ob' = ob @ [row] \<and> or_id row = ob_id rec \<and> or_interrupt_id row = i \<and>
               or_key row = ob_key rec \<and> or_committed row = 0)) \<or>
         (\<not> is_ok r \<and> tab' = tab \<and> ob' = ob)"
proof -
  let ?u = "update_where (\<lambda>r. ri_id r = i \<and> ri_status r \<noteq> ''Resolved'') (\<lambda>r. r\<lparr>ri_status := ''Resolved''\<rparr>) tab"
  obtain n t where u: "?u = (n, t)" by (cases ?u)
  from update_one_status [OF assms(1) u] assms(2) u show ?thesis
    by (auto simp: resume_with_sql_def Let_def rec_row_def split: sum.splits if_splits)
qed

text \<open>
  (C11) Transactional resume over SQL: after any sequence of \<open>resume_with_sql\<close> calls, failed ones
  included, the outbox holds exactly one new record for each approval that became resolved and none for the
  others; an approval is never resolved without its record nor the record written without the
  resolution.
\<close>

theorem sql_resume_atomic:
  assumes "distinct (map ri_id tab)" and "sql_resumes enc uv tab ob calls = (rs, tab', ob')"
  shows "length (filter is_ok rs) = length ob' - length ob \<and> take (length ob) ob' = ob \<and>
         (\<forall>i. length (filter (\<lambda>r. or_interrupt_id r = i) (drop (length ob) ob'))
            = (if sql_resolved tab' i \<and> \<not> sql_resolved tab i then 1 else 0))"
proof -
  have "\<exists>new. ob' = ob @ new \<and> length (filter is_ok rs) = length new \<and>
      (\<forall>i. sql_resolved tab i \<longrightarrow> sql_resolved tab' i) \<and>
      (\<forall>i. length (filter (\<lambda>r. or_interrupt_id r = i) new)
         = (if sql_resolved tab' i \<and> \<not> sql_resolved tab i then 1 else 0))"
    using assms
  proof (induction calls arbitrary: tab ob rs)
    case (Cons call calls)
    obtain i v rec where call: "call = (i, v, rec)" by (cases call) auto
    obtain r t o1 where s: "resume_with_sql enc uv tab ob i v rec = (r, t, o1)"
      by (cases rule: prod_cases3)
    obtain rs1 where rest: "sql_resumes enc uv t o1 calls = (rs1, tab', ob')" "rs = r # rs1"
      using Cons.prems(2) s call by (auto split: prod.splits)
    note c = resume_with_sql_cases [OF Cons.prems(1) s]
    then have "map ri_id t = map ri_id tab" by blast
    then have "distinct (map ri_id t)" using Cons.prems(1) by simp
    from Cons.IH [OF this rest(1)] obtain new where new: "ob' = o1 @ new"
      "length (filter is_ok rs1) = length new" "\<forall>i. sql_resolved t i \<longrightarrow> sql_resolved tab' i"
      "\<forall>j. length (filter (\<lambda>r. or_interrupt_id r = j) new)
         = (if sql_resolved tab' j \<and> \<not> sql_resolved t j then 1 else 0)"
      by blast
    show ?case
    proof (cases "is_ok r")
      case True
      with c obtain row where row: "o1 = ob @ [row]" "or_interrupt_id row = i" "\<not> sql_resolved tab i"
        "sql_resolved t i" "\<forall>j. j \<noteq> i \<longrightarrow> sql_resolved t j = sql_resolved tab j"
        by blast
      have "length (filter (\<lambda>r. or_interrupt_id r = j) (row # new))
         = (if sql_resolved tab' j \<and> \<not> sql_resolved tab j then 1 else 0)" for j
        using row new(3,4) by (cases "j = i") auto
      moreover have "\<forall>j. sql_resolved tab j \<longrightarrow> sql_resolved tab' j" using row new(3) by metis
      ultimately show ?thesis
        using True new(1,2) row(1) rest(2) by (intro exI [of _ "row # new"]) simp
    next
      case False
      with c have "t = tab" "o1 = ob" by blast+
      with False new rest(2) show ?thesis by (intro exI [of _ new]) simp
    qed
  qed simp
  then obtain new where "ob' = ob @ new" "length (filter is_ok rs) = length new"
    "\<forall>i. length (filter (\<lambda>r. or_interrupt_id r = i) new)
       = (if sql_resolved tab' i \<and> \<not> sql_resolved tab i then 1 else 0)" by blast
  then show ?thesis by simp
qed

definition demo_table :: interrupt_table where
  "demo_table = [pending_row ''x'' (demo_pending ''i1'' 0), pending_row ''x'' (demo_pending ''i2'' 0)]"

definition demo_resumes :: "unit result list \<times> interrupt_table \<times> outbox_table" where
  "demo_resumes = sql_resumes demo_enc (Internal ''UNIQUE'') demo_table []
     [(''i1'', Null, demo_rec ''a''), (''i2'', Null, demo_rec ''a''), (''i1'', Null, demo_rec ''b'')]"

theorem sql_resume_atomic_witness:
  "length (filter is_ok (fst demo_resumes)) = length (snd (snd demo_resumes)) - length ([] :: outbox_table) \<and>
   take (length ([] :: outbox_table)) (snd (snd demo_resumes)) = [] \<and>
   (\<forall>i. length (filter (\<lambda>r. or_interrupt_id r = i) (drop (length ([] :: outbox_table)) (snd (snd demo_resumes))))
      = (if sql_resolved (fst (snd demo_resumes)) i \<and> \<not> sql_resolved demo_table i then 1 else 0))"
proof (rule sql_resume_atomic)
  show "distinct (map ri_id demo_table)" by (simp add: demo_table_def pending_row_def demo_pending_def)
  show "sql_resumes demo_enc (Internal ''UNIQUE'') demo_table []
     [(''i1'', Null, demo_rec ''a''), (''i2'', Null, demo_rec ''a''), (''i1'', Null, demo_rec ''b'')]
     = (fst demo_resumes, fst (snd demo_resumes), snd (snd demo_resumes))"
    by (simp add: demo_resumes_def)
qed

end
