(* ===== verification/Contract.thy ===== *)
theory Contract
  imports Registry
begin

text \<open>
  Data contracts in front of a pipeline (\<open>crates/workflow/src/contract.rs\<close>): the validator and
  the stage that drops, routes or parks a record that breaches its contract. \<open>conforms\<close> is the
  declarative meaning of a contract; the validator is shown to decide it and to report the first
  check that fails.
\<close>

subsection \<open>Contracts and violations\<close>

datatype json_type = TString | TNumber | TBool | TArray | TObject

fun type_matches :: "json_type \<Rightarrow> json \<Rightarrow> bool" where
  "type_matches TString (String _) = True"
| "type_matches TNumber (Number _) = True"
| "type_matches TBool (Bool _) = True"
| "type_matches TArray (Array _) = True"
| "type_matches TObject (Object _) = True"
| "type_matches _ _ = False"

fun type_name :: "json_type \<Rightarrow> string" where
  "type_name TString = ''string''"
| "type_name TNumber = ''number''"
| "type_name TBool = ''bool''"
| "type_name TArray = ''array''"
| "type_name TObject = ''object''"

type_synonym type_schema = "(string \<times> json_type) list"

definition schema_require :: "type_schema \<Rightarrow> string \<Rightarrow> json_type \<Rightarrow> type_schema" where
  "schema_require s k ty = s @ [(k, ty)]"

record data_contract =
  dc_schema :: type_schema
  dc_freshness :: "int option"
  dc_continuity :: "int option"
  dc_custom :: "(json \<Rightarrow> string option) list"

datatype violation_kind = TypeDrift | StaleData | Gap | Custom

record violation =
  v_kind :: violation_kind
  v_detail :: string

subsection \<open>The validator\<close>

fun check_schema :: "type_schema \<Rightarrow> json \<Rightarrow> violation + unit" where
  "check_schema [] r = Inr ()"
| "check_schema ((key, ty) # rest) r =
     (case jget r key of
        None \<Rightarrow> Inl \<lparr>v_kind = TypeDrift, v_detail = ''missing required key `'' @ key @ ''`''\<rparr>
      | Some v \<Rightarrow>
          (if \<not> type_matches ty v
           then Inl \<lparr>v_kind = TypeDrift, v_detail = ''key `'' @ key @ ''` expected '' @ type_name ty @ '' ''\<rparr>
           else check_schema rest r))"

definition check_freshness :: "int option \<Rightarrow> json \<Rightarrow> int \<Rightarrow> violation + unit" where
  "check_freshness freshness r now =
     (case freshness of
        None \<Rightarrow> Inr ()
      | Some mx \<Rightarrow>
          try_then (ok_or \<lparr>v_kind = StaleData, v_detail = ''missing or non-integer `ts_ms` for freshness check''\<rparr>
                     (get_i64 r ''ts_ms'')) (\<lambda>ts.
            let lag = i64_sub now ts in
            if lag > mx
            then Inl \<lparr>v_kind = StaleData,
                      v_detail = ''data is '' @ show_int lag @ ''ms old, exceeds MaxLag('' @ show_int mx @ ''ms)''\<rparr>
            else Inr ()))"

definition check_continuity :: "int option \<Rightarrow> json \<Rightarrow> int option \<Rightarrow> violation + unit" where
  "check_continuity continuity r prev_ts =
     (case (continuity, prev_ts) of
        (Some cadence, Some prev) \<Rightarrow>
          try_then (ok_or \<lparr>v_kind = Gap, v_detail = ''missing or non-integer `ts_ms` for continuity check''\<rparr>
                     (get_i64 r ''ts_ms'')) (\<lambda>ts.
            let gap = i64_sub ts prev in
            if gap > cadence
            then Inl \<lparr>v_kind = Gap,
                      v_detail = ''gap of '' @ show_int gap @ ''ms exceeds ExpectedCadence('' @ show_int cadence @ ''ms)''\<rparr>
            else Inr ())
      | _ \<Rightarrow> Inr ())"

fun check_custom :: "(json \<Rightarrow> string option) list \<Rightarrow> json \<Rightarrow> violation + unit" where
  "check_custom [] r = Inr ()"
| "check_custom (check # checks) r =
     (case check r of
        Some detail \<Rightarrow> Inl \<lparr>v_kind = Custom, v_detail = detail\<rparr>
      | None \<Rightarrow> check_custom checks r)"

definition validate :: "data_contract \<Rightarrow> json \<Rightarrow> int \<Rightarrow> int option \<Rightarrow> violation + unit" where
  "validate c r now prev_ts =
     try_then (check_schema (dc_schema c) r) (\<lambda>_.
       try_then (check_freshness (dc_freshness c) r now) (\<lambda>_.
         try_then (check_continuity (dc_continuity c) r prev_ts) (\<lambda>_.
           check_custom (dc_custom c) r)))"

subsection \<open>The stage\<close>

record interrupt_spec =
  is_workflow :: string
  is_run :: string
  is_step :: nat
  is_requested_role :: "string option"
  is_requested_clearance :: "string option"
  is_deadline_ms :: "int option"

text \<open>A sink acts on a world \<open>'k\<close>; a registry is its \<open>register\<close> operation on a state \<open>'g\<close>.\<close>

datatype 'k on_breach =
    Drop
  | RouteTo "'k \<Rightarrow> json \<Rightarrow> violation \<Rightarrow> unit result \<times> 'k"
  | Interrupt interrupt_spec

datatype stage_outcome = Pass json | Dropped | Routed | Interrupted string

record 'k stage =
  st_contract :: data_contract
  st_on_breach :: "'k on_breach"
  st_has_registry :: bool

fun kind_name :: "violation_kind \<Rightarrow> string" where
  "kind_name TypeDrift = ''TypeDrift''"
| "kind_name StaleData = ''StaleData''"
| "kind_name Gap = ''Gap''"
| "kind_name Custom = ''Custom''"

definition violation_json :: "violation \<Rightarrow> json" where
  "violation_json v = obj_of [(''kind'', String (kind_name (v_kind v))), (''detail'', String (v_detail v))]"

definition breach_interrupt :: "interrupt_spec \<Rightarrow> string \<Rightarrow> violation \<Rightarrow> json \<Rightarrow> int \<Rightarrow> pending_interrupt" where
  "breach_interrupt spec i v r now =
     \<lparr>pi_interrupt_id = i, pi_workflow = is_workflow spec, pi_run = is_run spec, pi_step = is_step spec,
      pi_requested_role = is_requested_role spec, pi_requested_clearance = is_requested_clearance spec,
      pi_payload = obj_of [(''violation'', violation_json v), (''record'', r)],
      pi_created_at_ms = now, pi_deadline_ms = is_deadline_ms spec, pi_assignee = None,
      pi_status = Pending\<rparr>"

text \<open>
  \<open>run\<close>: the id counter, the registry and the sink world are the state; the UUID the id generator
  draws is an argument.
\<close>

definition stage_run ::
  "('g \<Rightarrow> pending_interrupt \<Rightarrow> unit result \<times> 'g) \<Rightarrow> 'k stage \<Rightarrow> string \<Rightarrow> json \<Rightarrow> int \<Rightarrow> int option \<Rightarrow>
   nat \<times> 'g \<times> 'k \<Rightarrow> stage_outcome result \<times> nat \<times> 'g \<times> 'k" where
  "stage_run register st uuid r now prev_ts = (\<lambda>(counter, g, k).
     case validate (st_contract st) r now prev_ts of
       Inr _ \<Rightarrow> (Inr (Pass r), counter, g, k)
     | Inl v \<Rightarrow>
         (case st_on_breach st of
            Drop \<Rightarrow> (Inr Dropped, counter, g, k)
          | RouteTo sink \<Rightarrow>
              (case sink k r v of
                 (Inl e, k') \<Rightarrow> (Inl e, counter, g, k')
               | (Inr _, k') \<Rightarrow> (Inr Routed, counter, g, k'))
          | Interrupt spec \<Rightarrow>
              (if \<not> st_has_registry st
               then (Inl (Workflow ''ContractValidateStage: Interrupt policy needs an InterruptRegistry''),
                     counter, g, k)
               else (case next_id counter uuid of
                       (i, counter') \<Rightarrow>
                         (case register g (breach_interrupt spec i v r now) of
                            (Inl e, g') \<Rightarrow> (Inl e, counter', g', k)
                          | (Inr _, g') \<Rightarrow> (Inr (Interrupted i), counter', g', k))))))"

subsection \<open>The meaning of a contract\<close>

definition well_typed :: "type_schema \<Rightarrow> json \<Rightarrow> bool" where
  "well_typed s r \<longleftrightarrow> (\<forall>(key, ty)\<in>set s. \<exists>v. jget r key = Some v \<and> type_matches ty v)"

definition fresh :: "int option \<Rightarrow> json \<Rightarrow> int \<Rightarrow> bool" where
  "fresh freshness r now \<longleftrightarrow>
     (\<forall>mx. freshness = Some mx \<longrightarrow> (\<exists>ts. get_i64 r ''ts_ms'' = Some ts \<and> now - ts \<le> mx))"

definition continuous :: "int option \<Rightarrow> json \<Rightarrow> int option \<Rightarrow> bool" where
  "continuous continuity r prev_ts \<longleftrightarrow>
     (\<forall>cadence prev. continuity = Some cadence \<and> prev_ts = Some prev \<longrightarrow>
        (\<exists>ts. get_i64 r ''ts_ms'' = Some ts \<and> ts - prev \<le> cadence))"

definition conforms :: "data_contract \<Rightarrow> json \<Rightarrow> int \<Rightarrow> int option \<Rightarrow> bool" where
  "conforms c r now prev_ts \<longleftrightarrow>
     well_typed (dc_schema c) r \<and> fresh (dc_freshness c) r now \<and>
     continuous (dc_continuity c) r prev_ts \<and> (\<forall>check\<in>set (dc_custom c). check r = None)"

text \<open>Times of at most \<open>2 ^ 62\<close> milliseconds, so that no difference leaves \<open>i64\<close>.\<close>

definition times_fit :: "json \<Rightarrow> int \<Rightarrow> int option \<Rightarrow> bool" where
  "times_fit r now prev_ts \<longleftrightarrow> ms_range now \<and>
     (case prev_ts of None \<Rightarrow> True | Some prev \<Rightarrow> ms_range prev) \<and>
     (case get_i64 r ''ts_ms'' of None \<Rightarrow> True | Some ts \<Rightarrow> ms_range ts)"

lemma check_schema_iff:
  "check_schema s r = Inr () \<longleftrightarrow> well_typed s r"
  "check_schema s r = Inl v \<Longrightarrow> v_kind v = TypeDrift"
  by (induction s r rule: check_schema.induct) (auto simp: well_typed_def split: option.splits if_splits)

lemma check_freshness_iff:
  "times_fit r now prev_ts \<Longrightarrow> check_freshness f r now = Inr () \<longleftrightarrow> fresh f r now"
  "check_freshness f r now = Inl v \<Longrightarrow> v_kind v = StaleData"
  by (cases f; cases "get_i64 r ''ts_ms''";
      auto simp: check_freshness_def fresh_def times_fit_def i64_sub_exact Let_def split: if_splits)+

lemma check_continuity_iff:
  "times_fit r now prev_ts \<Longrightarrow> check_continuity c r prev_ts = Inr () \<longleftrightarrow> continuous c r prev_ts"
  "check_continuity c r prev_ts = Inl v \<Longrightarrow> v_kind v = Gap"
  by (cases c; cases prev_ts; cases "get_i64 r ''ts_ms''";
      auto simp: check_continuity_def continuous_def times_fit_def i64_sub_exact Let_def split: if_splits)+

lemma check_custom_iff:
  "check_custom cs r = Inr () \<longleftrightarrow> (\<forall>check\<in>set cs. check r = None)"
  "check_custom cs r = Inl v \<Longrightarrow> v_kind v = Custom"
  "check_custom cs r = Inl v \<Longrightarrow> \<exists>check\<in>set cs. \<exists>d. check r = Some d"
  by (induction cs r rule: check_custom.induct) (auto split: option.splits)

lemma sum_unit_cases: obtains "x = Inr ()" | v where "x = Inl (v :: 'v)"
  by (cases x) auto

text \<open>
  (C16) The validator decides the contract: it accepts exactly the conforming records, and the kind of the
  violation it reports names the first check that fails in the order type, freshness, continuity,
  custom.
\<close>

theorem validate_decides:
  assumes "times_fit r now prev_ts"
  shows "(case validate c r now prev_ts of
            Inr _ \<Rightarrow> conforms c r now prev_ts
          | Inl v \<Rightarrow>
              (case v_kind v of
                 TypeDrift \<Rightarrow> \<not> well_typed (dc_schema c) r
               | StaleData \<Rightarrow> well_typed (dc_schema c) r \<and> \<not> fresh (dc_freshness c) r now
               | Gap \<Rightarrow> well_typed (dc_schema c) r \<and> fresh (dc_freshness c) r now \<and>
                   \<not> continuous (dc_continuity c) r prev_ts
               | Custom \<Rightarrow> well_typed (dc_schema c) r \<and> fresh (dc_freshness c) r now \<and>
                   continuous (dc_continuity c) r prev_ts \<and> (\<exists>check\<in>set (dc_custom c). check r \<noteq> None)))"
proof -
  note facts = validate_def conforms_def check_schema_iff(1) [symmetric]
    check_freshness_iff(1) [OF assms, symmetric] check_continuity_iff(1) [OF assms, symmetric]
    check_custom_iff(1) [symmetric]
  let ?s = "check_schema (dc_schema c) r" and ?f = "check_freshness (dc_freshness c) r now"
    and ?k = "check_continuity (dc_continuity c) r prev_ts" and ?u = "check_custom (dc_custom c) r"
  show ?thesis
    by (cases ?s rule: sum_unit_cases; cases ?f rule: sum_unit_cases;
        cases ?k rule: sum_unit_cases; cases ?u rule: sum_unit_cases)
       (auto simp: facts check_schema_iff(2) check_freshness_iff(2) check_continuity_iff(2)
          check_custom_iff(2) dest: check_custom_iff(3))
qed

definition demo_contract :: data_contract where
  "demo_contract = \<lparr>dc_schema = [(''close'', TNumber)], dc_freshness = Some 60000, dc_continuity = Some 1000,
     dc_custom = []\<rparr>"

definition demo_bar :: "int \<Rightarrow> json" where
  "demo_bar ts = Object [(''close'', Number (IntN 101)), (''ts_ms'', Number (IntN ts))]"

lemmas demo_bar_simps = demo_contract_def demo_bar_def get_i64_def ms_range_def times_fit_def

theorem validate_decides_witness:
  "(case validate demo_contract (demo_bar 5000) 6000 (Some 3000) of
      Inr _ \<Rightarrow> conforms demo_contract (demo_bar 5000) 6000 (Some 3000)
    | Inl v \<Rightarrow>
        (case v_kind v of
           TypeDrift \<Rightarrow> \<not> well_typed (dc_schema demo_contract) (demo_bar 5000)
         | StaleData \<Rightarrow> well_typed (dc_schema demo_contract) (demo_bar 5000) \<and>
             \<not> fresh (dc_freshness demo_contract) (demo_bar 5000) 6000
         | Gap \<Rightarrow> well_typed (dc_schema demo_contract) (demo_bar 5000) \<and>
             fresh (dc_freshness demo_contract) (demo_bar 5000) 6000 \<and>
             \<not> continuous (dc_continuity demo_contract) (demo_bar 5000) (Some 3000)
         | Custom \<Rightarrow> well_typed (dc_schema demo_contract) (demo_bar 5000) \<and>
             fresh (dc_freshness demo_contract) (demo_bar 5000) 6000 \<and>
             continuous (dc_continuity demo_contract) (demo_bar 5000) (Some 3000) \<and>
             (\<exists>check\<in>set (dc_custom demo_contract). check (demo_bar 5000) \<noteq> None)))"
  by (rule validate_decides) (simp add: demo_bar_simps)

text \<open>
  Outside that range the freshness check is unsound in a build without overflow checks: a record
  whose age does not fit \<open>i64\<close> gets a negative lag and is accepted under every non-negative limit, although
  it is the stalest possible.
\<close>

theorem freshness_wraps:
  assumes "get_i64 r ''ts_ms'' = Some ts" and "now - ts \<ge> 2 ^ 63" and "now < 2 ^ 63" and "0 \<le> mx" and "mx < 2 ^ 63"
  shows "check_freshness (Some mx) r now = Inr () \<and> \<not> fresh (Some mx) r now"
proof -
  have "- (2 ^ 63) \<le> ts"
    using assms(1) by (auto simp: get_i64_def bind_eq_Some_conv elim!: as_i64.elims split: if_splits)
  then have "(now - ts - 2 ^ 63) mod 2 ^ 64 = now - ts - 2 ^ 63"
    using assms(2,3) by (intro mod_pos_pos_trivial) simp_all
  moreover have "now - ts + 2 ^ 63 = (now - ts - 2 ^ 63) + 2 ^ 64" by simp
  then have "(now - ts + 2 ^ 63) mod 2 ^ 64 = (now - ts - 2 ^ 63) mod (2 ^ 64 :: int)"
    by (simp only: mod_add_self2)
  ultimately have lag: "i64_sub now ts = now - ts - 2 ^ 64" by (simp add: i64_sub_def)
  with assms \<open>- (2 ^ 63) \<le> ts\<close> have "i64_sub now ts \<le> mx" unfolding lag by simp
  with assms show ?thesis by (simp add: check_freshness_def fresh_def Let_def)
qed

theorem freshness_wraps_witness:
  "check_freshness (Some 60000) (demo_bar (- (2 ^ 63))) 0 = Inr () \<and> \<not> fresh (Some 60000) (demo_bar (- (2 ^ 63))) 0"
  by (rule freshness_wraps [where ts = "- (2 ^ 63)"]) (simp_all add: demo_bar_simps)

text \<open>
  A stage with the interrupt policy never lets a breaching record through: a conforming record
  passes unchanged and parks nothing; any other record parks exactly one new approval, addressed as
  the policy says, claimable, with the record as payload, and of all later resumes of it exactly the
  first one succeeds, whatever else happens to the registry.
\<close>

theorem breach_parks_for_review:
  assumes "times_fit r now prev_ts" and "im_inv g" and "st_on_breach st = Interrupt spec" and "st_has_registry st"
    and "stage_run im_register st uuid r now prev_ts (n, g, k) = (res, n', g', k')"
  shows "if conforms (st_contract st) r now prev_ts then res = Inr (Pass r) \<and> g' = g \<and> n' = n
         else (\<exists>i p. i = fst (next_id n uuid) \<and> res = Inr (Interrupted i) \<and> map_of g' = (map_of g)(i \<mapsto> p) \<and>
           claimable p \<and> pi_requested_role p = is_requested_role spec \<and> jget (pi_payload p) ''record'' = Some r \<and>
           (\<forall>ops as g''. list_all ms_fits ops \<and> (\<forall>op\<in>set ops. \<not> is_register i op) \<and>
              reg_run im_exec g' ops = (as, g'') \<longrightarrow>
              answers_to (is_resume i) ops as
              = one_winner (AlreadyResolved i) (length (filter (is_resume i) ops))))"
proof (cases "validate (st_contract st) r now prev_ts")
  case (Inr x)
  then have "conforms (st_contract st) r now prev_ts" using validate_decides [OF assms(1), of "st_contract st"] by simp
  with Inr assms(5) show ?thesis by (simp add: stage_run_def)
next
  case (Inl v)
  then have bad: "\<not> conforms (st_contract st) r now prev_ts"
    using validate_decides [OF assms(1), of "st_contract st"] by (auto simp: conforms_def split: violation_kind.splits)
  let ?i = "fst (next_id n uuid)" and ?p = "breach_interrupt spec (fst (next_id n uuid)) v r now"
  have res: "res = Inr (Interrupted ?i)" "g' = AList.update ?i ?p g"
    using assms(3-5) Inl by (auto simp: stage_run_def im_register_def breach_interrupt_def split: prod.splits)
  have p: "claimable ?p" "pi_requested_role ?p = is_requested_role spec" "pi_status ?p \<noteq> Resolved"
    "pi_interrupt_id ?p = ?i" "pi_created_at_ms ?p = now" "jget (pi_payload ?p) ''record'' = Some r"
    by (simp_all add: breach_interrupt_def claimable_def jget_obj_of)
  have g': "im_inv g'" "map_of g' ?i = Some ?p" "map_of g' = (map_of g)(?i \<mapsto> ?p)"
    using assms(1,2) p by (auto simp: res update_conv' times_fit_def intro!: im_inv_update)
  have "answers_to (is_resume ?i) ops as
      = one_winner (AlreadyResolved ?i) (length (filter (is_resume ?i) ops))"
    if "list_all ms_fits ops" "\<forall>op\<in>set ops. \<not> is_register ?i op" "reg_run im_exec g' ops = (as, g'')" for ops as g''
    using im_reg.resume_once [OF g'(1) that(1,3,2) g'(2) p(3)] .
  with bad res(1) g'(3) p show ?thesis by auto
qed

definition demo_spec :: interrupt_spec where
  "demo_spec = \<lparr>is_workflow = ''bars'', is_run = ''r'', is_step = 3, is_requested_role = Some ''desk'',
     is_requested_clearance = None, is_deadline_ms = None\<rparr>"

definition demo_stage :: "unit stage" where
  "demo_stage = \<lparr>st_contract = demo_contract, st_on_breach = Interrupt demo_spec, st_has_registry = True\<rparr>"

definition demo_stage_run :: "stage_outcome result \<times> nat \<times> im_registry \<times> unit" where
  "demo_stage_run = stage_run im_register demo_stage ''uuid'' (demo_bar 5000) 6000 (Some 3000) (0, [], ())"

theorem breach_parks_for_review_witness:
  "if conforms (st_contract demo_stage) (demo_bar 5000) 6000 (Some 3000)
   then fst demo_stage_run = Inr (Pass (demo_bar 5000)) \<and> fst (snd (snd demo_stage_run)) = [] \<and> fst (snd demo_stage_run) = 0
   else (\<exists>i p. i = fst (next_id 0 ''uuid'') \<and> fst demo_stage_run = Inr (Interrupted i) \<and>
     map_of (fst (snd (snd demo_stage_run))) = (map_of [])(i \<mapsto> p) \<and>
     claimable p \<and> pi_requested_role p = is_requested_role demo_spec \<and>
     jget (pi_payload p) ''record'' = Some (demo_bar 5000) \<and>
     (\<forall>ops as g''. list_all ms_fits ops \<and> (\<forall>op\<in>set ops. \<not> is_register i op) \<and>
        reg_run im_exec (fst (snd (snd demo_stage_run))) ops = (as, g'') \<longrightarrow>
        answers_to (is_resume i) ops as
        = one_winner (AlreadyResolved i) (length (filter (is_resume i) ops))))"
proof (rule breach_parks_for_review)
  show "times_fit (demo_bar 5000) 6000 (Some 3000)" by (simp add: demo_bar_simps)
  show "st_on_breach demo_stage = Interrupt demo_spec" "st_has_registry demo_stage" by (simp_all add: demo_stage_def)
  show "stage_run im_register demo_stage ''uuid'' (demo_bar 5000) 6000 (Some 3000) (0, [], ())
      = (fst demo_stage_run, fst (snd demo_stage_run), fst (snd (snd demo_stage_run)), snd (snd (snd demo_stage_run)))"
    by (simp only: demo_stage_run_def prod.collapse)
qed simp

end
