(* ===== verification/Callable.thy ===== *)
theory Callable
  imports Core
begin

text \<open>
  The composition layer \<open>crates/callable/src\<close>: a callable is a labelled function from an input and a
  call context to a result, acting on a world \<open>'w\<close>; decorators and pipelines build callables from
  callables. Tasks spawned by a fan-out are run one after the other here, in the order in which
  their handles are awaited.
\<close>

subsection \<open>Callables (lib.rs)\<close>

text \<open>The decorators touch only the trace of a \<open>CallCtx\<close>; the rest is carried along as \<open>'x\<close>.\<close>

record 'x call_ctx =
  cc_trace :: "string list"
  cc_rest :: 'x

record ('w, 'x) callable =
  c_call :: "json \<Rightarrow> 'x call_ctx \<Rightarrow> 'w \<Rightarrow> json result \<times> 'w"
  c_label :: string

definition fn_callable :: "(json \<Rightarrow> 'x call_ctx \<Rightarrow> 'w \<Rightarrow> json result \<times> 'w) \<Rightarrow> ('w, 'x) callable" where
  "fn_callable f = \<lparr>c_call = f, c_label = ''fn''\<rparr>"

definition fn_labeled ::
  "string \<Rightarrow> (json \<Rightarrow> 'x call_ctx \<Rightarrow> 'w \<Rightarrow> json result \<times> 'w) \<Rightarrow> ('w, 'x) callable" where
  "fn_labeled l f = \<lparr>c_call = f, c_label = l\<rparr>"

subsection \<open>Decorators (decorators.rs)\<close>

text \<open>
  A duration is its number of nanoseconds. The next delay is computed in 32-bit floats; that
  computation, from milliseconds to milliseconds, is the argument \<open>scale\<close>.
\<close>

record retry_policy =
  max_attempts :: nat
  initial_backoff :: nat
  scale :: "nat \<Rightarrow> nat"
  max_backoff :: nat

definition millis :: "nat \<Rightarrow> nat" where
  "millis ms = ms * 1000000"

definition next_delay :: "retry_policy \<Rightarrow> nat \<Rightarrow> nat" where
  "next_delay p delay = min (millis (scale p (delay div 1000000))) (max_backoff p)"

text \<open>The attempts still to make are \<open>attempts\<close>; \<open>sleep\<close> is the timer of the world.\<close>

fun retry_loop ::
  "(nat \<Rightarrow> 'w \<Rightarrow> 'w) \<Rightarrow> ('w, 'x) callable \<Rightarrow> retry_policy \<Rightarrow> json \<Rightarrow> 'x call_ctx \<Rightarrow> nat \<Rightarrow> nat \<Rightarrow>
   agent_error option \<Rightarrow> 'w \<Rightarrow> json result \<times> 'w" where
  "retry_loop sleep inner p input ctx 0 delay last_err w =
     (Inl (case last_err of Some e \<Rightarrow> e | None \<Rightarrow> Internal ''retry exhausted with no error''), w)"
| "retry_loop sleep inner p input ctx (Suc attempts) delay last_err w =
     (case c_call inner input ctx w of
        (Inr v, w1) \<Rightarrow> (Inr v, w1)
      | (Inl e, w1) \<Rightarrow>
          (if attempts = 0 then (Inl e, w1)
           else retry_loop sleep inner p input ctx attempts (next_delay p delay) (Some e) (sleep delay w1)))"

definition with_retry :: "(nat \<Rightarrow> 'w \<Rightarrow> 'w) \<Rightarrow> ('w, 'x) callable \<Rightarrow> retry_policy \<Rightarrow> ('w, 'x) callable" where
  "with_retry sleep inner p =
     \<lparr>c_call = (\<lambda>input ctx w. retry_loop sleep inner p input ctx (max_attempts p) (initial_backoff p) None w),
      c_label = ''retry('' @ c_label inner @ '')''\<rparr>"

fun fallback_loop ::
  "('w, 'x) callable list \<Rightarrow> json \<Rightarrow> 'x call_ctx \<Rightarrow> agent_error option \<Rightarrow> 'w \<Rightarrow> json result \<times> 'w" where
  "fallback_loop [] input ctx last_err w =
     (Inl (case last_err of Some e \<Rightarrow> e | None \<Rightarrow> Internal ''fallbacks exhausted''), w)"
| "fallback_loop (alt # alts) input ctx last_err w =
     (case c_call alt input ctx w of
        (Inr v, w1) \<Rightarrow> (Inr v, w1)
      | (Inl e, w1) \<Rightarrow> fallback_loop alts input ctx (Some e) w1)"

definition with_fallbacks :: "('w, 'x) callable \<Rightarrow> ('w, 'x) callable list \<Rightarrow> ('w, 'x) callable" where
  "with_fallbacks primary alternates =
     \<lparr>c_call = (\<lambda>input ctx w.
        case c_call primary input ctx w of
          (Inr v, w1) \<Rightarrow> (Inr v, w1)
        | (Inl _, w1) \<Rightarrow> fallback_loop alternates input ctx None w1),
      c_label = ''fallback('' @ c_label primary @ '')''\<rparr>"

record run_config =
  rc_run_name :: "string option"
  rc_tags :: "string list"
  rc_metadata :: "(string \<times> json) list"

definition config_trace :: "run_config \<Rightarrow> string list" where
  "config_trace cfg =
     (case rc_run_name cfg of None \<Rightarrow> [] | Some name \<Rightarrow> [''run:'' @ name]) @ map (\<lambda>t. ''tag:'' @ t) (rc_tags cfg)"

definition with_config :: "('w, 'x) callable \<Rightarrow> run_config \<Rightarrow> ('w, 'x) callable" where
  "with_config inner cfg =
     \<lparr>c_call = (\<lambda>input ctx w. c_call inner input (ctx\<lparr>cc_trace := cc_trace ctx @ config_trace cfg\<rparr>) w),
      c_label = (case rc_run_name cfg of Some name \<Rightarrow> name | None \<Rightarrow> ''config('' @ c_label inner @ '')'')\<rparr>"

text \<open>
  The timer decides whether the inner call finishes in time: \<open>elapsed\<close> reads the clock of the world. A call that
  is cut off is dropped; its effects up to then are the argument \<open>abandon\<close>.
\<close>

definition with_timeout ::
  "('w \<Rightarrow> nat) \<Rightarrow> (nat \<Rightarrow> 'w \<Rightarrow> 'w \<Rightarrow> 'w) \<Rightarrow> (nat \<Rightarrow> string) \<Rightarrow> ('w, 'x) callable \<Rightarrow> nat \<Rightarrow> ('w, 'x) callable" where
  "with_timeout clock abandon show_duration inner duration =
     \<lparr>c_call = (\<lambda>input ctx w.
        case c_call inner input ctx w of
          (r, w1) \<Rightarrow>
            (if clock w1 - clock w \<le> duration then (r, w1)
             else (Inl (Internal (''timed out after '' @ show_duration duration)), abandon duration w w1))),
      c_label = ''timeout('' @ c_label inner @ '')''\<rparr>"

definition branch :: "(json \<Rightarrow> bool) \<Rightarrow> ('w, 'x) callable \<Rightarrow> ('w, 'x) callable \<Rightarrow> ('w, 'x) callable" where
  "branch predicate if_true if_false =
     \<lparr>c_call = (\<lambda>input ctx w.
        if predicate input then c_call if_true input ctx w else c_call if_false input ctx w),
      c_label = ''branch('' @ c_label if_true @ '' | '' @ c_label if_false @ '')''\<rparr>"

subsection \<open>Pipelines (pipeline.rs)\<close>

datatype stage_kind = Sequential | Assign

record ('w, 'x) pstage =
  ps_kind :: stage_kind
  ps_key :: "string option"
  ps_callable :: "('w, 'x) callable"

record ('w, 'x) pipeline =
  pl_stages :: "('w, 'x) pstage list"
  pl_label :: string

definition seq_stage :: "('w, 'x) callable \<Rightarrow> ('w, 'x) pstage" where
  "seq_stage c = \<lparr>ps_kind = Sequential, ps_key = None, ps_callable = c\<rparr>"

definition pipeline_from :: "('w, 'x) callable \<Rightarrow> ('w, 'x) pipeline" where
  "pipeline_from c = \<lparr>pl_stages = [seq_stage c], pl_label = c_label c\<rparr>"

definition pipeline_then :: "('w, 'x) pipeline \<Rightarrow> ('w, 'x) callable \<Rightarrow> ('w, 'x) pipeline" where
  "pipeline_then p c =
     \<lparr>pl_stages = pl_stages p @ [seq_stage c], pl_label = pl_label p @ '' | '' @ c_label c\<rparr>"

definition passthrough :: "('w, 'x) pipeline \<Rightarrow> ('w, 'x) pipeline" where
  "passthrough p =
     (let identity = fn_labeled ''passthrough'' (\<lambda>v ctx w. (Inr v, w))
      in if pl_stages p = [] then pipeline_from identity else pipeline_then p identity)"

definition pipeline_assign :: "('w, 'x) pipeline \<Rightarrow> string \<Rightarrow> ('w, 'x) callable \<Rightarrow> ('w, 'x) pipeline" where
  "pipeline_assign p key c =
     \<lparr>pl_stages = pl_stages p @ [\<lparr>ps_kind = Assign, ps_key = Some key, ps_callable = c\<rparr>],
      pl_label = pl_label p @ ''.assign('' @ key @ '')''\<rparr>"

text \<open>
  \<open>FanOutCallable\<close>: every branch is spawned on the input, the handles are awaited in the order of
  the map; a branch may also panic. All branches run even if an early one fails, and the first failure
  in map order is the result.
\<close>

fun fan_spawn ::
  "(string \<times> ('w, 'x) callable) list \<Rightarrow> json \<Rightarrow> 'x call_ctx \<Rightarrow> 'w \<Rightarrow> (string \<times> json result) list \<times> 'w" where
  "fan_spawn [] input ctx w = ([], w)"
| "fan_spawn ((k, c) # rest) input ctx w =
     (case c_call c input ctx w of
        (r, w1) \<Rightarrow> (case fan_spawn rest input ctx w1 of (hs, w2) \<Rightarrow> ((k, r) # hs, w2)))"

fun fan_collect :: "(string \<times> json result) list \<Rightarrow> (string \<times> json) list \<Rightarrow> json result" where
  "fan_collect [] out = Inr (Object out)"
| "fan_collect ((k, r) # hs) out =
     (case r of Inl e \<Rightarrow> Inl e | Inr v \<Rightarrow> fan_collect hs (bt_insert k v out))"

fun bt_collect :: "(string \<times> 'v) list \<Rightarrow> (string \<times> 'v) list \<Rightarrow> (string \<times> 'v) list" where
  "bt_collect [] m = m"
| "bt_collect ((k, v) # kvs) m = bt_collect kvs (bt_insert k v m)"

definition fan_out :: "(string \<times> ('w, 'x) callable) list \<Rightarrow> ('w, 'x) callable" where
  "fan_out branches =
     \<lparr>c_call = (\<lambda>input ctx w.
        case fan_spawn (bt_collect branches []) input ctx w of (hs, w1) \<Rightarrow> (fan_collect hs [], w1)),
      c_label = ''fan_out('' @ join_with '','' (map fst branches) @ '')''\<rparr>"

definition fan_out_with :: "('w, 'x) pipeline \<Rightarrow> (string \<times> ('w, 'x) callable) list \<Rightarrow> ('w, 'x) pipeline" where
  "fan_out_with p branches =
     \<lparr>pl_stages = pl_stages p @ [seq_stage (fan_out branches)],
      pl_label = pl_label p @ '' | fan_out('' @ join_with '','' (map fst branches) @ '')''\<rparr>"

definition assign_into :: "json \<Rightarrow> string \<Rightarrow> json \<Rightarrow> json" where
  "assign_into current key derived =
     (let obj = (case current of Object m \<Rightarrow> m | other \<Rightarrow> bt_insert ''input'' other [])
      in Object (bt_insert key derived obj))"

definition run_pstage :: "('w, 'x) pstage \<Rightarrow> json \<Rightarrow> 'x call_ctx \<Rightarrow> 'w \<Rightarrow> json result \<times> 'w" where
  "run_pstage st current ctx w =
     (case ps_kind st of
        Sequential \<Rightarrow> c_call (ps_callable st) current ctx w
      | Assign \<Rightarrow>
          (case ps_key st of
             None \<Rightarrow> (Inl (Internal ''assign without key''), w)
           | Some key \<Rightarrow>
               (case c_call (ps_callable st) current ctx w of
                  (Inl e, w1) \<Rightarrow> (Inl e, w1)
                | (Inr derived, w1) \<Rightarrow> (Inr (assign_into current key derived), w1))))"

fun run_pstages :: "('w, 'x) pstage list \<Rightarrow> json \<Rightarrow> 'x call_ctx \<Rightarrow> 'w \<Rightarrow> json result \<times> 'w" where
  "run_pstages [] current ctx w = (Inr current, w)"
| "run_pstages (st # sts) current ctx w =
     (case run_pstage st current ctx w of
        (Inl e, w1) \<Rightarrow> (Inl e, w1)
      | (Inr v, w1) \<Rightarrow> run_pstages sts v ctx w1)"

definition build :: "('w, 'x) pipeline \<Rightarrow> ('w, 'x) callable" where
  "build p = \<lparr>c_call = run_pstages (pl_stages p), c_label = pl_label p\<rparr>"

subsection \<open>Retry and fallback against a scripted callable\<close>

text \<open>
  A callable is an adversary that decides each outcome; \<open>scripted\<close> plays a list of outcomes, the
  world keeps the rest of the script and the delays slept.
\<close>

definition scripted :: "(json result list \<times> nat list, 'x) callable" where
  "scripted = fn_callable (\<lambda>input ctx (script, slept).
     case script of [] \<Rightarrow> (Inl (Internal ''end of script''), ([], slept)) | r # rs \<Rightarrow> (r, (rs, slept)))"

definition log_sleep :: "nat \<Rightarrow> json result list \<times> nat list \<Rightarrow> json result list \<times> nat list" where
  "log_sleep d = (\<lambda>(script, slept). (script, slept @ [d]))"

text \<open>The delays of the policy: the \<open>k\<close>-th entry is slept after the \<open>k\<close>-th failure.\<close>

fun delays :: "retry_policy \<Rightarrow> nat \<Rightarrow> nat \<Rightarrow> nat list" where
  "delays p d 0 = []"
| "delays p d (Suc n) = d # delays p (next_delay p d) n"

definition is_failure :: "json result \<Rightarrow> bool" where
  "is_failure r \<longleftrightarrow> \<not> is_ok r"

lemma retry_loop_script:
  assumes "length script \<ge> Suc n"
  shows "retry_loop log_sleep scripted p input ctx (Suc n) d last_err (script, slept)
    = (let fails = takeWhile is_failure (take (Suc n) script);
           k = length fails
       in if k = Suc n then (last fails, (drop (Suc n) script, slept @ delays p d n))
          else (script ! k, (drop (Suc k) script, slept @ delays p d k)))"
  using assms
proof (induction n arbitrary: script d last_err slept)
  case 0
  then obtain r rs where "script = r # rs" by (cases script) auto
  then show ?case
    by (cases r) (simp_all add: scripted_def fn_callable_def is_failure_def Let_def)
next
  case (Suc n)
  then obtain r rs where script: "script = r # rs" by (cases script) auto
  show ?case
  proof (cases r)
    case (Inr v)
    with script show ?thesis by (simp add: scripted_def fn_callable_def is_failure_def Let_def)
  next
    case (Inl e)
    have "length rs \<ge> Suc n" using Suc.prems script by simp
    note IH = Suc.IH [OF this, of "next_delay p d" "Some e" "slept @ [d]"]
    have "retry_loop log_sleep scripted p input ctx (Suc (Suc n)) d last_err (script, slept)
        = retry_loop log_sleep scripted p input ctx (Suc n) (next_delay p d) (Some e) (rs, slept @ [d])"
      using Inl script by (simp add: scripted_def fn_callable_def log_sleep_def)
    with IH script Inl show ?thesis
      by (auto simp: Let_def is_failure_def simp del: retry_loop.simps)
  qed
qed

lemma delays_bound: "k < length (delays p d n) \<Longrightarrow> 0 < k \<Longrightarrow> delays p d n ! k \<le> max_backoff p"
proof (induction p d n arbitrary: k rule: delays.induct)
  case (2 p d n)
  show ?case
  proof (cases "k = 1")
    case True
    with 2 show ?thesis by (cases n) (simp_all add: next_delay_def)
  next
    case False
    with 2 show ?thesis by (cases k) auto
  qed
qed simp

lemma length_delays [simp]: "length (delays p d n) = n"
  by (induction p d n rule: delays.induct) auto

text \<open>
  \<open>with_retry\<close> against any callable: with \<open>n > 0\<close> attempts it calls until the first success or \<open>n\<close>
  failures, whichever comes first, never more; the result is that success or the last failure; it sleeps once
  between consecutive attempts and never after the last; every sleep but the first is at most \<open>max_backoff\<close>.
\<close>

theorem retry_until_success:
  assumes "max_attempts p = Suc n" and "Suc n \<le> length script"
    and "k = length (takeWhile is_failure (take (Suc n) script))"
  shows "c_call (with_retry log_sleep scripted p) input ctx (script, [])
    = (if k = Suc n then (script ! n, (drop (Suc n) script, delays p (initial_backoff p) n))
       else (script ! k, (drop (Suc k) script, delays p (initial_backoff p) k))) \<and>
    k \<le> Suc n \<and> (\<forall>j. 0 < j \<and> j < k \<longrightarrow> delays p (initial_backoff p) k ! j \<le> max_backoff p)"
proof -
  let ?fails = "takeWhile is_failure (take (Suc n) script)"
  have "length ?fails \<le> Suc n" using length_takeWhile_le [of is_failure "take (Suc n) script"] assms(2) by simp
  moreover have "last ?fails = script ! n" if "length ?fails = Suc n"
  proof -
    from that assms(2) have "?fails = take (Suc n) script"
      by (metis length_take min_absorb2 takeWhile_eq_take take_all order_refl)
    show ?thesis unfolding \<open>?fails = take (Suc n) script\<close> using assms(2) by (cases script) (auto simp: last_conv_nth)
  qed
  ultimately show ?thesis
    using retry_loop_script [OF assms(2), of p input ctx "initial_backoff p" None "[]"] assms(1,3)
    by (auto simp: with_retry_def Let_def delays_bound simp del: retry_loop.simps)
qed

definition demo_retry :: retry_policy where
  "demo_retry = \<lparr>max_attempts = 3, initial_backoff = millis 50, scale = (\<lambda>ms. 2 * ms), max_backoff = millis 80\<rparr>"

theorem retry_until_success_witness:
  "c_call (with_retry log_sleep scripted demo_retry) Null \<lparr>cc_trace = [], cc_rest = ()\<rparr>
     ([Inl (Internal ''a''), Inl (Internal ''b''), Inr Null, Inr Null], [])
   = (Inr Null, ([Inr Null], delays demo_retry (initial_backoff demo_retry) 2)) \<and>
   delays demo_retry (initial_backoff demo_retry) 2 ! 1 \<le> max_backoff demo_retry"
  using retry_until_success [of demo_retry 2 "[Inl (Internal ''a''), Inl (Internal ''b''), Inr Null, Inr Null]" 2
      Null "\<lparr>cc_trace = [], cc_rest = ()\<rparr>"]
  by (simp add: demo_retry_def is_failure_def)

text \<open>
  The fallbacks: the first success among the primary and the alternates, tried in order. On exhaustion the
  error is the last alternate's; with no alternate the primary's own error is lost.
\<close>

lemma fallback_loop_script:
  "length alts \<le> length script \<Longrightarrow>
   fallback_loop (map (\<lambda>_. scripted) alts) input ctx last_err (script, slept)
   = (let k = length (takeWhile is_failure (take (length alts) script)) in
      if k < length alts then (script ! k, (drop (Suc k) script, slept))
      else if alts = [] then (Inl (case last_err of Some e \<Rightarrow> e | None \<Rightarrow> Internal ''fallbacks exhausted''), (script, slept))
      else (script ! (length alts - 1), (drop (length alts) script, slept)))"
proof (induction alts arbitrary: script last_err)
  case (Cons a alts)
  then obtain r rs where script: "script = r # rs" by (cases script) auto
  with Cons.prems have len: "length alts \<le> length rs" by simp
  show ?case
  proof (cases r)
    case (Inr v)
    with script show ?thesis by (simp add: scripted_def fn_callable_def is_failure_def)
  next
    case (Inl e)
    with script Cons.IH [OF len, of "Some e"] show ?thesis
      by (cases alts) (auto simp: scripted_def fn_callable_def is_failure_def Let_def)
  qed
qed simp

lemma fallbacks_lose_primary_error:
  "c_call primary input ctx w = (Inl e, w1) \<Longrightarrow>
   c_call (with_fallbacks primary []) input ctx w = (Inl (Internal ''fallbacks exhausted''), w1)"
  by (simp add: with_fallbacks_def)

subsection \<open>Laws of pipelines\<close>

lemma run_pstages_append:
  "run_pstages (sts @ sts') current ctx w =
     (case run_pstages sts current ctx w of
        (Inl e, w1) \<Rightarrow> (Inl e, w1)
      | (Inr v, w1) \<Rightarrow> run_pstages sts' v ctx w1)"
  by (induction sts arbitrary: current w) (auto split: prod.splits sum.splits)

text \<open>
  Pipelines compose: running \<open>p.then(build(q))\<close> is running \<open>p\<close> and feeding its value to \<open>q\<close>, with the first
  error ending the run; building a nested pipeline or appending its stages is the same; and
  \<open>passthrough\<close> changes nothing.
\<close>

theorem pipeline_composes:
  "c_call (build (pipeline_then p (build q))) input ctx w =
     (case c_call (build p) input ctx w of
        (Inl e, w1) \<Rightarrow> (Inl e, w1)
      | (Inr v, w1) \<Rightarrow> c_call (build q) v ctx w1) \<and>
   c_call (build (pipeline_then p (build q))) input ctx w
     = c_call (build \<lparr>pl_stages = pl_stages p @ pl_stages q, pl_label = l\<rparr>) input ctx w \<and>
   c_call (build (passthrough p)) input ctx w = c_call (build p) input ctx w"
  by (auto simp: build_def pipeline_then_def passthrough_def pipeline_from_def seq_stage_def run_pstage_def
      run_pstages_append fn_labeled_def Let_def split: prod.splits sum.splits)

subsection \<open>Fan-out\<close>

lemma bt_collect_props:
  "bt_wf m \<Longrightarrow> bt_wf (bt_collect kvs m) \<and> map_of (bt_collect kvs m) = map_of m ++ map_of (rev kvs)"
  by (induction kvs m rule: bt_collect.induct)
     (auto simp: btree_simps map_add_def fun_eq_iff split: option.splits)

lemma bt_insert_last: "\<forall>x\<in>set m. fst x < k \<Longrightarrow> bt_insert k v m = m @ [(k, v)]"
  by (induction k v m rule: bt_insert.induct) auto

text \<open>The callables of a pure fan-out: each is a function of the input alone.\<close>

definition pure_callable :: "(json \<Rightarrow> json result) \<Rightarrow> ('w, 'x) callable" where
  "pure_callable f = \<lparr>c_call = (\<lambda>input ctx w. (f input, w)), c_label = ''fn''\<rparr>"

lemma fan_spawn_pure:
  "fan_spawn (map (\<lambda>(k, f). (k, pure_callable f)) fs) input ctx w = (map (\<lambda>(k, f). (k, f input)) fs, w)"
  by (induction fs) (auto simp: pure_callable_def)

lemma bt_collect_map:
  "bt_collect (map (\<lambda>(k, v). (k, h v)) kvs) (map (\<lambda>(k, v). (k, h v)) m) = map (\<lambda>(k, v). (k, h v)) (bt_collect kvs m)"
proof -
  have ins: "bt_insert k (h v) (map (\<lambda>(k, v). (k, h v)) m) = map (\<lambda>(k, v). (k, h v)) (bt_insert k v m)" for k v m
    by (induction k v m rule: bt_insert.induct) auto
  show ?thesis by (induction kvs m rule: bt_collect.induct) (simp_all add: ins)
qed

text \<open>
  Fan-out of effect-free branches is deterministic: the object has exactly the branch names as keys, each with its
  branch's value on the input (the last branch of a repeated name); if a branch fails, the
  result is the error of the failing branch with the least name.
\<close>

theorem fan_out_collects:
  fixes ctx :: "'x call_ctx" and w :: 'w
  shows
  "fst (c_call (fan_out (map (\<lambda>(k, f). (k, pure_callable f)) fs)) input ctx w) =
     (case find (\<lambda>(k, f). \<not> is_ok (f input)) (bt_collect fs []) of
        Some (k, f) \<Rightarrow> f input
      | None \<Rightarrow> Inr (Object (map (\<lambda>(k, f). (k, case f input of Inr v \<Rightarrow> v | Inl e \<Rightarrow> Null)) (bt_collect fs [])))) \<and>
   map_of (bt_collect fs []) = map_of (rev fs) \<and> bt_wf (bt_collect fs [])"
proof -
  have collect: "fan_collect (map (\<lambda>(k, f). (k, f input)) gs) out =
     (case find (\<lambda>(k, f). \<not> is_ok (f input)) gs of
        Some (k, f) \<Rightarrow> f input
      | None \<Rightarrow> Inr (Object (out @ map (\<lambda>(k, f). (k, case f input of Inr v \<Rightarrow> v | Inl e \<Rightarrow> Null)) gs)))"
    if "bt_wf (out @ map (\<lambda>(k, f). (k, case f input of Inr v \<Rightarrow> v | Inl e \<Rightarrow> Null)) gs)" for gs out
    using that
  proof (induction gs arbitrary: out)
    case (Cons kf gs)
    obtain k f where kf: "kf = (k, f)" by (cases kf)
    show ?case
    proof (cases "f input")
      case (Inl e)
      then show ?thesis by (simp add: kf)
    next
      case (Inr v)
      have "bt_insert k v out = out @ [(k, v)]"
        using Cons.prems kf by (intro bt_insert_last) (auto simp: bt_wf_def sorted_wrt_append)
      with Cons.IH [of "out @ [(k, v)]"] Cons.prems Inr kf show ?thesis by (simp split: option.split)
    qed
  qed simp
  have b: "bt_wf (bt_collect fs []) \<and> map_of (bt_collect fs []) = map_of (rev fs)"
    using bt_collect_props [of "[]" fs] by simp
  have "bt_wf ([] @ map (\<lambda>(k, f). (k, case f input of Inr v \<Rightarrow> v | Inl e \<Rightarrow> Null)) (bt_collect fs []))"
    using b by (simp add: bt_wf_def comp_def split_def)
  note collect [OF this, unfolded append_Nil]
  moreover have "bt_collect (map (\<lambda>(k, f). (k, pure_callable f :: ('w, 'x) callable)) fs) []
      = map (\<lambda>(k, f). (k, pure_callable f)) (bt_collect fs [])"
    using bt_collect_map [of pure_callable fs "[]"] by simp
  then have "fan_spawn (bt_collect (map (\<lambda>(k, f). (k, pure_callable f)) fs) []) input ctx w
      = (map (\<lambda>(k, f). (k, f input)) (bt_collect fs []), w)"
    by (simp only: fan_spawn_pure)
  ultimately show ?thesis
    using b by (simp add: fan_out_def)
qed

end
