(* ===== verification/Context.thy ===== *)
theory Context
  imports Core "HOL-Library.Product_Lexorder"
begin

text \<open>
  Building a prompt (\<open>crates/context/src\<close>): the assembler that packs prioritised fragments into the
  token budget (lib.rs) and the boundary between instructions and untrusted content (trust.rs).
\<close>

subsection \<open>String functions of the standard library\<close>

text \<open>
  \<open>str::replace\<close> replaces the non-overlapping matches from the left; an empty pattern matches around every
  character. \<open>to_lowercase\<close> is modelled on ASCII text.
\<close>

fun replace_ne :: "string \<Rightarrow> string \<Rightarrow> string \<Rightarrow> string" where
  "replace_ne p rep [] = []"
| "replace_ne p rep (c # s) =
     (if take (length p) (c # s) = p then rep @ replace_ne p rep (drop (length p - 1) s)
      else c # replace_ne p rep s)"

definition str_replace :: "string \<Rightarrow> string \<Rightarrow> string \<Rightarrow> string" where
  "str_replace s p rep =
     (if p = [] then rep @ concat (map (\<lambda>c. c # rep) s) else replace_ne p rep s)"

fun str_contains :: "string \<Rightarrow> string \<Rightarrow> bool" where
  "str_contains [] p = (p = [])"
| "str_contains (c # s) p = (take (length p) (c # s) = p \<or> str_contains s p)"

definition ascii_lower :: "char \<Rightarrow> char" where
  "ascii_lower c = (let n = of_char c :: nat in if 65 \<le> n \<and> n \<le> 90 then char_of (n + 32) else c)"

definition to_lowercase :: "string \<Rightarrow> string" where
  "to_lowercase s = map ascii_lower s"

subsection \<open>The assembler (context/src/lib.rs)\<close>

record fragment =
  fr_source :: string
  fr_priority :: "8 word"
  fr_estimated_tokens :: u32
  fr_text :: string

record rendered_context =
  rx_fragments :: "fragment list"
  rx_total_tokens :: u32

definition rx_join :: "rendered_context \<Rightarrow> string \<Rightarrow> string" where
  "rx_join r sep = join_with sep (map fr_text (rx_fragments r))"

definition cost :: "fragment \<Rightarrow> nat" where
  "cost f = unat (fr_estimated_tokens f)"

text \<open>The greedy loop over the fragments by rank; \<open>acc\<close> is the cost of what was kept so far.\<close>

fun pack :: "nat \<Rightarrow> nat \<Rightarrow> (nat \<times> fragment) list \<Rightarrow> (nat \<times> fragment) list" where
  "pack remaining acc [] = []"
| "pack remaining acc (entry # entries) =
     (if acc + cost (snd entry) \<le> remaining
      then entry # pack remaining (acc + cost (snd entry)) entries
      else pack remaining acc entries)"

definition rank :: "nat \<times> fragment \<Rightarrow> int \<times> nat" where
  "rank e = (- int (unat (fr_priority (snd e))), fst e)"

definition finish_context :: "fragment list \<Rightarrow> token_budget \<Rightarrow> rendered_context result \<times> token_budget" where
  "finish_context out budget =
     (let total_tokens = sum_list (map fr_estimated_tokens out) in
      case tb_consume budget total_tokens of
        Inl e \<Rightarrow> (Inl e, budget)
      | Inr budget' \<Rightarrow> (Inr \<lparr>rx_fragments = out, rx_total_tokens = total_tokens\<rparr>, budget'))"

text \<open>
  The running total is \<open>u64\<close> and the number of fragments far below \<open>2 ^ 32\<close>, so the sum is exact.
\<close>

definition assemble :: "fragment list \<Rightarrow> token_budget \<Rightarrow> rendered_context result \<times> token_budget" where
  "assemble fragments budget =
     (let indexed = zip [0..<length fragments] fragments;
          total = sum_list (map (cost \<circ> snd) indexed)
      in if total \<le> unat (tb_remaining budget) then finish_context (map snd indexed) budget
         else (let kept = pack (unat (tb_remaining budget)) 0 (sort_key rank indexed)
               in finish_context (map snd (sort_key fst kept)) budget))"

subsection \<open>What the assembler keeps\<close>

lemma pack_le: "acc \<le> n \<Longrightarrow> acc + sum_list (map (cost \<circ> snd) (pack n acc es)) \<le> n"
  by (induction n acc es rule: pack.induct) (auto simp: add.assoc)

lemma set_pack: "set (pack n acc es) \<subseteq> set es"
  by (induction n acc es rule: pack.induct) auto

lemma distinct_pack: "distinct (map fst es) \<Longrightarrow> distinct (map fst (pack n acc es))"
  by (induction n acc es rule: pack.induct) (use set_pack in \<open>fastforce+\<close>)

text \<open>A dropped entry did not fit with what was kept among the entries before it.\<close>

lemma pack_dropped:
  assumes "distinct (xs @ e # ys)" and "e \<notin> set (pack n acc (xs @ e # ys))"
  shows "acc + sum_list (map (cost \<circ> snd) (filter (\<lambda>x. x \<in> set (pack n acc (xs @ e # ys))) xs)) + cost (snd e) > n"
  using assms
proof (induction xs arbitrary: acc)
  case Nil
  then show ?case by (auto split: if_splits)
next
  case (Cons x xs)
  show ?case
  proof (cases "acc + cost (snd x) \<le> n")
    case True
    have "filter (\<lambda>y. y = x \<or> y \<in> set (pack n (acc + cost (snd x)) (xs @ e # ys))) xs
        = filter (\<lambda>y. y \<in> set (pack n (acc + cost (snd x)) (xs @ e # ys))) xs"
      using Cons.prems(1) by (intro filter_cong) auto
    with True Cons.IH [of "acc + cost (snd x)"] Cons.prems show ?thesis by (simp add: add.assoc)
  next
    case False
    have "x \<notin> set (pack n acc (xs @ e # ys))"
      using Cons.prems(1) set_pack [of n acc "xs @ e # ys"] by auto
    with False Cons.IH [of acc] Cons.prems show ?thesis by simp
  qed
qed

lemma unat_sum_list:
  fixes ws :: "u32 list"
  assumes "sum_list (map unat ws) \<le> n" and "n < 2 ^ 32"
  shows "unat (sum_list ws) = sum_list (map unat ws)"
  using assms
proof (induction ws arbitrary: n)
  case (Cons w ws)
  then have "unat (sum_list ws) = sum_list (map unat ws)" by (intro Cons.IH [of n]) auto
  with Cons.prems show ?case by (simp add: unat_add_small)
qed simp

lemma finish_context_fits:
  assumes "sum_list (map cost out) \<le> unat (tb_remaining b)"
  shows "\<exists>t. finish_context out b = (Inr \<lparr>rx_fragments = out, rx_total_tokens = t\<rparr>, b\<lparr>tb_remaining := tb_remaining b - t\<rparr>) \<and>
           unat t = sum_list (map cost out) \<and> t \<le> tb_remaining b"
proof -
  let ?t = "sum_list (map fr_estimated_tokens out)"
  have "unat ?t = sum_list (map unat (map fr_estimated_tokens out))"
    by (rule unat_sum_list [where n = "unat (tb_remaining b)"])
       (use assms unsigned_less [of "tb_remaining b"] in \<open>simp_all add: cost_def [abs_def] comp_def\<close>)
  then have t: "unat ?t = sum_list (map cost out)" by (simp add: cost_def [abs_def] comp_def)
  with assms have "?t \<le> tb_remaining b" by (simp add: word_le_nat_alt)
  with t show ?thesis by (simp add: finish_context_def tb_consume_def Let_def not_less)
qed

definition outranks :: "fragment list \<Rightarrow> nat \<Rightarrow> nat \<Rightarrow> bool" where
  "outranks fs j i \<longleftrightarrow> fr_priority (fs ! j) > fr_priority (fs ! i) \<or>
     (fr_priority (fs ! j) = fr_priority (fs ! i) \<and> j < i)"

lemma nths_zip: "map snd (filter (\<lambda>(i, f). i \<in> I) (zip [0..<length fs] fs)) = nths fs I"
proof -
  have "filter (\<lambda>(i, f). i \<in> I) (zip [0..<length fs] fs)
      = map prod.swap (filter (\<lambda>p. snd p \<in> I) (zip fs [0..<length fs]))"
    by (simp add: zip_commute [of "[0..<length fs]" fs] filter_map comp_def split_def prod.swap_def)
  then show ?thesis by (simp add: nths_def comp_def)
qed

lemma in_indexed: "e \<in> set (zip [0..<length fs] fs) \<longleftrightarrow> fst e < length fs \<and> snd e = fs ! fst e"
  by (cases e) (force simp: set_zip)

lemma rank_less:
  "rank (j, fs ! j) < rank (i, fs ! i) \<longleftrightarrow> outranks fs j i"
  by (auto simp: rank_def outranks_def less_prod_def word_less_def word_uint_eq_iff)

lemma assemble_spec:
  "\<exists>I t. assemble fs b = (Inr \<lparr>rx_fragments = nths fs I, rx_total_tokens = t\<rparr>, b\<lparr>tb_remaining := tb_remaining b - t\<rparr>) \<and>
     I \<subseteq> {..<length fs} \<and> unat t = sum_list (map cost (nths fs I)) \<and> t \<le> tb_remaining b \<and>
     (sum_list (map cost fs) \<le> unat (tb_remaining b) \<longrightarrow> nths fs I = fs) \<and>
     (\<forall>i < length fs. i \<notin> I \<longrightarrow>
        (\<Sum>j | j \<in> I \<and> outranks fs j i. cost (fs ! j)) + cost (fs ! i) > unat (tb_remaining b))"
proof (cases "sum_list (map cost fs) \<le> unat (tb_remaining b)")
  case True
  have snd: "map snd (zip [0..<length fs] fs) = fs" by simp
  then have "map (cost \<circ> snd) (zip [0..<length fs] fs) = map cost fs" by (metis map_map)
  with True snd have "assemble fs b = finish_context fs b" by (simp add: assemble_def Let_def)
  moreover have "nths fs {..<length fs} = fs" by (simp add: nths_all)
  ultimately show ?thesis
    using finish_context_fits [OF True] True by (intro exI [of _ "{..<length fs}"]) auto
next
  case False
  let ?P = "zip [0..<length fs] fs" and ?R = "unat (tb_remaining b)"
  define L where "L = sort_key rank ?P"
  define kept where "kept = pack ?R 0 L"
  define I where "I = fst ` set kept"
  have P: "distinct (map fst ?P)" "sorted_wrt (<) (map fst ?P)" by simp_all
  have "map snd ?P = fs" by simp
  then have total: "map (cost \<circ> snd) ?P = map cost fs" by (metis map_map)
  have setL: "set L = set ?P" by (simp add: L_def)
  have distL: "distinct (map fst L)"
    unfolding L_def using P(1) by (simp only: distinct_map distinct_sort set_sort)
  have sub: "set kept \<subseteq> set ?P" using set_pack [of ?R 0 L] setL by (simp add: kept_def)
  have order: "sort_key fst kept = filter (\<lambda>(i, f). i \<in> I) ?P"
  proof (rule sorted_map_unique [where f = fst])
    have "distinct (map fst kept)" using distinct_pack [OF distL] by (simp add: kept_def)
    then show "sorted_wrt (<) (map fst (sort_key fst kept))"
      by (simp add: strict_sorted_iff distinct_map)
    show "sorted_wrt (<) (map fst (filter (\<lambda>(i, f). i \<in> I) ?P))"
      using P(2) unfolding sorted_wrt_map by (rule sorted_wrt_filter)
    show "set (sort_key fst kept) = set (filter (\<lambda>(i, f). i \<in> I) ?P)"
      using sub by (auto simp: I_def in_indexed image_iff) (metis fst_conv in_indexed prod.collapse snd_conv subset_iff)+
  qed
  have out: "map snd (sort_key fst kept) = nths fs I" by (simp only: order nths_zip)
  have "sum_list (map cost (map snd (sort_key fst kept))) = sum_list (map (cost \<circ> snd) kept)"
    using distinct_pack [OF distL, of ?R 0]
    by (simp add: kept_def [symmetric] distinct_map sum_list_distinct_conv_sum_set)
  with pack_le [of 0 ?R L] out have fits: "sum_list (map cost (nths fs I)) \<le> ?R" by (simp add: kept_def)
  have "assemble fs b = finish_context (nths fs I) b"
    using False total out by (simp add: assemble_def Let_def L_def [symmetric] kept_def [symmetric])
  moreover have "I \<subseteq> {..<length fs}" using sub by (auto simp: I_def in_indexed)
  moreover have "(\<Sum>j | j \<in> I \<and> outranks fs j i. cost (fs ! j)) + cost (fs ! i) > ?R" if "i < length fs" "i \<notin> I" for i
  proof -
    let ?e = "(i, fs ! i)"
    have "?e \<in> set L" using that by (simp add: setL in_indexed)
    then obtain xs ys where split: "L = xs @ ?e # ys" by (meson split_list)
    have "?e \<notin> set kept" using that(2) by (force simp: I_def)
    moreover have "distinct L" using distL by (simp add: distinct_map)
    ultimately have gt: "sum_list (map (cost \<circ> snd) (filter (\<lambda>x. x \<in> set kept) xs)) + cost (fs ! i) > ?R"
      using pack_dropped [of xs ?e ys ?R 0] by (simp add: kept_def split)
    have "sorted_wrt (<) (map rank L)"
      using \<open>distinct L\<close> by (auto simp: L_def strict_sorted_iff distinct_map inj_on_def rank_def in_indexed)
    then have before: "x \<in> set xs \<longleftrightarrow> x \<in> set L \<and> rank x < rank ?e" for x
      unfolding split by (auto simp: sorted_wrt_append dest: order.strict_trans)
    have "sum_list (map (cost \<circ> snd) (filter (\<lambda>x. x \<in> set kept) xs))
        = (\<Sum>x \<in> set (filter (\<lambda>x. x \<in> set kept) xs). (cost \<circ> snd) x)"
      using \<open>distinct L\<close> by (intro sum_list_distinct_conv_sum_set) (simp add: split)
    also have "\<dots> = (\<Sum>j | j \<in> I \<and> outranks fs j i. cost (fs ! j))"
    proof (rule sum.reindex_bij_witness [where j = fst and i = "\<lambda>j. (j, fs ! j)"])
      fix x assume "x \<in> set (filter (\<lambda>x. x \<in> set kept) xs)"
      then have x: "x \<in> set kept" "x \<in> set L" "rank x < rank ?e" using before by auto
      then have "x = (fst x, fs ! fst x)" using sub by (metis in_indexed prod.collapse subset_iff)
      then show "(fst x, fs ! fst x) = x" "fst x \<in> {j. j \<in> I \<and> outranks fs j i}" "cost (fs ! fst x) = (cost \<circ> snd) x"
        using x by (auto simp: I_def rank_less [symmetric]) (metis snd_conv)+
    next
      fix j assume "j \<in> {j. j \<in> I \<and> outranks fs j i}"
      then have j: "(j, fs ! j) \<in> set kept" "rank (j, fs ! j) < rank ?e"
        using sub by (auto simp: I_def rank_less in_indexed)
      then show "fst (j, fs ! j) = j" "(j, fs ! j) \<in> set (filter (\<lambda>x. x \<in> set kept) xs)"
        using sub setL before by auto
    qed
    finally show ?thesis using gt by simp
  qed
  ultimately show ?thesis
    using finish_context_fits [OF fits] False by (intro exI [of _ I]) auto
qed

text \<open>
  (C17) The assembler: it never fails and never exceeds the budget, which is charged exactly the cost of the
  result. The result is the given fragments at some index set \<open>I\<close>, in the given order; everything is
  kept when everything fits; and a fragment is dropped only when it did not fit beside the kept
  fragments of higher priority (or equal priority and earlier position).
\<close>

theorem assemble_packs:
  "\<exists>I t. assemble fs b = (Inr \<lparr>rx_fragments = nths fs I, rx_total_tokens = t\<rparr>, b\<lparr>tb_remaining := tb_remaining b - t\<rparr>) \<and>
     I \<subseteq> {..<length fs} \<and> unat t = sum_list (map cost (nths fs I)) \<and> t \<le> tb_remaining b \<and>
     (sum_list (map cost fs) \<le> unat (tb_remaining b) \<longrightarrow> nths fs I = fs) \<and>
     (\<forall>i < length fs. i \<notin> I \<longrightarrow>
        (\<Sum>j | j \<in> I \<and> outranks fs j i. cost (fs ! j)) + cost (fs ! i) > unat (tb_remaining b))"
  by (rule assemble_spec)

text \<open>
  Greedy packing is not eviction by priority: a large important fragment is dropped while a small
  unimportant one stays.
\<close>

definition demo_fragment :: "string \<Rightarrow> 8 word \<Rightarrow> u32 \<Rightarrow> fragment" where
  "demo_fragment s p n = \<lparr>fr_source = s, fr_priority = p, fr_estimated_tokens = n, fr_text = s\<rparr>"

lemma low_priority_survives:
  "fst (assemble [demo_fragment ''important'' 9 70, demo_fragment ''filler'' 1 30] (tb_new 60))
   = Inr \<lparr>rx_fragments = [demo_fragment ''filler'' 1 30], rx_total_tokens = 30\<rparr>"
  by (simp add: assemble_def demo_fragment_def tb_new_def cost_def finish_context_def tb_consume_def
      rank_def less_prod_def less_eq_prod_def Let_def upt_rec)

theorem assemble_packs_witness:
  "\<exists>I t. assemble [demo_fragment ''important'' 9 70, demo_fragment ''filler'' 1 30] (tb_new 60) =
       (Inr \<lparr>rx_fragments = nths [demo_fragment ''important'' 9 70, demo_fragment ''filler'' 1 30] I, rx_total_tokens = t\<rparr>,
        (tb_new 60)\<lparr>tb_remaining := 60 - t\<rparr>) \<and>
     0 \<notin> I \<and> t \<le> 60"
proof -
  obtain I t where *: "assemble [demo_fragment ''important'' 9 70, demo_fragment ''filler'' 1 30] (tb_new 60) =
       (Inr \<lparr>rx_fragments = nths [demo_fragment ''important'' 9 70, demo_fragment ''filler'' 1 30] I, rx_total_tokens = t\<rparr>,
        (tb_new 60)\<lparr>tb_remaining := tb_remaining (tb_new 60) - t\<rparr>)"
    and t: "unat t = sum_list (map cost (nths [demo_fragment ''important'' 9 70, demo_fragment ''filler'' 1 30] I))"
      "t \<le> tb_remaining (tb_new 60)"
    using assemble_packs [of "[demo_fragment ''important'' 9 70, demo_fragment ''filler'' 1 30]" "tb_new 60"] by blast
  have "0 \<notin> I"
    using t by (auto simp: nths_Cons cost_def demo_fragment_def tb_new_def word_le_nat_alt)
  with * t show ?thesis by (auto simp: tb_new_def)
qed

subsection \<open>The trust boundary (context/src/trust.rs)\<close>

datatype trust = Trusted | Untrusted

record trusted_content =
  tc_trust :: trust
  tc_source :: string
  tc_text :: string

definition trusted :: "string \<Rightarrow> string \<Rightarrow> trusted_content" where
  "trusted source t = \<lparr>tc_trust = Trusted, tc_source = source, tc_text = t\<rparr>"

definition untrusted :: "string \<Rightarrow> string \<Rightarrow> trusted_content" where
  "untrusted source t = \<lparr>tc_trust = Untrusted, tc_source = source, tc_text = t\<rparr>"

definition is_untrusted :: "trusted_content \<Rightarrow> bool" where
  "is_untrusted c \<longleftrightarrow> tc_trust c = Untrusted"

definition quote_char :: string where
  "quote_char = [CHR 0x22]"

text \<open>The keyword screen; the patterns contain nothing that \<open>Debug\<close> would escape.\<close>

definition default_patterns :: "string list" where
  "default_patterns = [''ignore previous instructions'', ''ignore all previous'', ''disregard the above'',
     ''you are now'', ''system prompt'', ''reveal your instructions'']"

definition keyword_screen :: "string list \<Rightarrow> string \<Rightarrow> string option" where
  "keyword_screen patterns t =
     (let lower = to_lowercase t in
      map_option (\<lambda>p. ''matched injection pattern: '' @ quote_char @ p @ quote_char)
        (find (\<lambda>p. str_contains lower p) patterns))"

record trust_policy =
  tp_open :: string
  tp_close :: string
  tp_screen :: "(string \<Rightarrow> string option) option"

definition trust_policy_default :: trust_policy where
  "trust_policy_default =
     \<lparr>tp_open = ''<untrusted_content source='' @ quote_char @ ''{src}'' @ quote_char @ ''>'',
      tp_close = ''</untrusted_content>'', tp_screen = None\<rparr>"

record assembled_prompt =
  ap_text :: string
  ap_flagged :: "string list"
  ap_untrusted_sources :: "string list"

definition nl :: string where
  "nl = [CHR 0x0A]"

text \<open>What one part appends to the text, and what it adds to the flags and sources.\<close>

definition part_text :: "trust_policy \<Rightarrow> trusted_content \<Rightarrow> string" where
  "part_text p c =
     (case tc_trust c of
        Trusted \<Rightarrow> tc_text c
      | Untrusted \<Rightarrow> str_replace (tp_open p) ''{src}'' (tc_source c) @ nl @ tc_text c @ nl @ tp_close p)"

definition part_flags :: "trust_policy \<Rightarrow> trusted_content \<Rightarrow> string list" where
  "part_flags p c =
     (case tc_trust c of
        Trusted \<Rightarrow> []
      | Untrusted \<Rightarrow>
          (case tp_screen p of
             None \<Rightarrow> []
           | Some screen \<Rightarrow>
               (case screen (tc_text c) of None \<Rightarrow> [] | Some reason \<Rightarrow> [tc_source c @ '': '' @ reason])))"

fun assemble_parts :: "trust_policy \<Rightarrow> nat \<Rightarrow> trusted_content list \<Rightarrow> assembled_prompt \<Rightarrow> assembled_prompt" where
  "assemble_parts p i [] acc = acc"
| "assemble_parts p i (c # cs) acc =
     assemble_parts p (i + 1) cs
       \<lparr>ap_text = ap_text acc @ (if i > 0 then nl else []) @ part_text p c,
        ap_flagged = ap_flagged acc @ part_flags p c,
        ap_untrusted_sources = ap_untrusted_sources acc @ (if is_untrusted c then [tc_source c] else [])\<rparr>"

definition assemble_prompt :: "trust_policy \<Rightarrow> trusted_content list \<Rightarrow> assembled_prompt" where
  "assemble_prompt p parts = assemble_parts p 0 parts \<lparr>ap_text = [], ap_flagged = [], ap_untrusted_sources = []\<rparr>"

lemma assemble_parts_eq:
  "assemble_parts p i cs acc =
     \<lparr>ap_text = ap_text acc @ (if i > 0 \<and> cs \<noteq> [] then nl else []) @ join_with nl (map (part_text p) cs),
      ap_flagged = ap_flagged acc @ concat (map (part_flags p) cs),
      ap_untrusted_sources = ap_untrusted_sources acc @ map tc_source (filter is_untrusted cs)\<rparr>"
proof (induction p i cs acc rule: assemble_parts.induct)
  case (2 p i c cs acc)
  then show ?case by (cases cs) simp_all
qed simp

text \<open>
  Taint tracking: the assembled text is the parts in order, trusted ones verbatim and untrusted ones
  between the delimiters; every untrusted source is reported, in order; the screen sees exactly
  the untrusted spans.
\<close>

theorem assemble_prompt_fences:
  "ap_text (assemble_prompt p parts) = join_with nl (map (part_text p) parts) \<and>
   ap_untrusted_sources (assemble_prompt p parts) = map tc_source (filter is_untrusted parts) \<and>
   ap_flagged (assemble_prompt p parts) = concat (map (part_flags p) (filter is_untrusted parts)) \<and>
   map (part_text p) (filter (\<lambda>c. \<not> is_untrusted c) parts) = map tc_text (filter (\<lambda>c. \<not> is_untrusted c) parts)"
proof -
  have "concat (map (part_flags p) parts) = concat (map (part_flags p) (filter is_untrusted parts))"
    by (induction parts) (auto simp: is_untrusted_def part_flags_def split: trust.splits)
  then show ?thesis
    by (auto simp: assemble_prompt_def assemble_parts_eq is_untrusted_def part_text_def split: trust.splits)
qed

text \<open>
  The fence does not hold against its own delimiter: nothing in an untrusted text is escaped, so an
  attacker who writes the closing and opening delimiter around a payload gets a prompt identical to one
  in which the payload is a trusted instruction.
\<close>

theorem fence_can_be_closed:
  "ap_text (assemble_prompt p
     [untrusted src (x @ nl @ tp_close p @ nl @ payload @ nl @ str_replace (tp_open p) ''{src}'' src @ nl @ y)])
   = ap_text (assemble_prompt p [untrusted src x, trusted system payload, untrusted src y])"
  by (simp add: assemble_prompt_def untrusted_def trusted_def part_text_def)

end
