(* ===== verification/Guards.thy ===== *)
theory Guards
  imports Callable Context Parser "HOL-Library.Sublist"
begin

text \<open>
  What stands between an agent and the world: inherited policies (\<open>crates/strategy/src/policy.rs\<close>), model
  pins (\<open>crates/agent/src/model_pin.rs\<close>), the middleware stack (\<open>crates/agent/src/middleware.rs\<close>) and the
  tool-set registry and rich tools (\<open>crates/tool/src\<close>).
\<close>

subsection \<open>Policies (strategy/src/policy.rs)\<close>

record policy =
  allowed_toolsets :: "string list"
  max_tokens_per_call :: "u32 option"
  max_money_micro_usd_per_call :: "u64 option"
  allowed_models :: "string list"

definition policy_default :: policy where
  "policy_default = \<lparr>allowed_toolsets = [], max_tokens_per_call = None,
     max_money_micro_usd_per_call = None, allowed_models = []\<rparr>"

definition narrow_list :: "string list \<Rightarrow> string list \<Rightarrow> string list" where
  "narrow_list parent child = (if child = [] then parent else filter (\<lambda>c. c \<in> set parent) child)"

fun narrow_cap :: "'a::linorder option \<Rightarrow> 'a option \<Rightarrow> 'a option" where
  "narrow_cap (Some p) (Some c) = Some (min p c)"
| "narrow_cap (Some v) None = Some v"
| "narrow_cap None c = c"

definition narrow :: "policy \<Rightarrow> policy \<Rightarrow> policy" where
  "narrow parent child =
     \<lparr>allowed_toolsets = narrow_list (allowed_toolsets parent) (allowed_toolsets child),
      max_tokens_per_call = narrow_cap (max_tokens_per_call parent) (max_tokens_per_call child),
      max_money_micro_usd_per_call =
        narrow_cap (max_money_micro_usd_per_call parent) (max_money_micro_usd_per_call child),
      allowed_models = narrow_list (allowed_models parent) (allowed_models child)\<rparr>"

text \<open>\<open>at_most p q\<close>: policy \<open>p\<close> grants no more than \<open>q\<close>.\<close>

fun cap_le :: "'a::linorder option \<Rightarrow> 'a option \<Rightarrow> bool" where
  "cap_le _ None = True"
| "cap_le None (Some _) = False"
| "cap_le (Some a) (Some b) = (a \<le> b)"

definition at_most :: "policy \<Rightarrow> policy \<Rightarrow> bool" where
  "at_most p q \<longleftrightarrow>
     set (allowed_toolsets p) \<subseteq> set (allowed_toolsets q) \<and>
     set (allowed_models p) \<subseteq> set (allowed_models q) \<and>
     cap_le (max_tokens_per_call p) (max_tokens_per_call q) \<and>
     cap_le (max_money_micro_usd_per_call p) (max_money_micro_usd_per_call q)"

lemma cap_le_refl [simp]: "cap_le a a"
  by (cases a) simp_all

lemma cap_le_trans: "cap_le a b \<Longrightarrow> cap_le b c \<Longrightarrow> cap_le a c"
  by (cases a; cases b; cases c) auto

lemma narrow_cap_le: "cap_le (narrow_cap p c) p" "cap_le (narrow_cap p c) c"
  by (induction p c rule: narrow_cap.induct) simp_all

lemma at_most_refl [simp]: "at_most p p"
  by (simp add: at_most_def)

lemma at_most_trans: "at_most p q \<Longrightarrow> at_most q r \<Longrightarrow> at_most p r"
  unfolding at_most_def by (meson cap_le_trans subset_trans)

lemma narrow_at_most: "at_most (narrow p c) p"
  by (auto simp: at_most_def narrow_def narrow_list_def narrow_cap_le)

lemma foldl_narrow_at_most: "at_most (foldl narrow p cs) p"
  by (induction cs arbitrary: p) (auto intro: at_most_trans narrow_at_most)

text \<open>
  (C20) Inheritance only narrows: along any path of the organisation, from the root down, the policy at a unit
  grants no tool set, model or per-call allowance beyond what any unit above it grants, and none beyond
  the caps the unit states for itself.
\<close>

theorem policy_narrows_downward:
  "at_most (foldl narrow root (ups @ unit # downs)) (foldl narrow root ups) \<and>
   cap_le (max_tokens_per_call (foldl narrow root (ups @ unit # downs))) (max_tokens_per_call unit) \<and>
   cap_le (max_money_micro_usd_per_call (foldl narrow root (ups @ unit # downs))) (max_money_micro_usd_per_call unit) \<and>
   set (allowed_toolsets (foldl narrow root (ups @ unit # downs)))
     \<subseteq> (if allowed_toolsets unit = [] then set (allowed_toolsets (foldl narrow root ups)) else set (allowed_toolsets unit))"
proof -
  let ?p = "foldl narrow root ups"
  have le: "at_most (foldl narrow root (ups @ unit # downs)) (narrow ?p unit)"
    using foldl_narrow_at_most [of "narrow ?p unit" downs] by simp
  moreover have "at_most (narrow ?p unit) ?p" by (rule narrow_at_most)
  moreover have "cap_le (max_tokens_per_call (narrow ?p unit)) (max_tokens_per_call unit)"
    "cap_le (max_money_micro_usd_per_call (narrow ?p unit)) (max_money_micro_usd_per_call unit)"
    "set (allowed_toolsets (narrow ?p unit))
       \<subseteq> (if allowed_toolsets unit = [] then set (allowed_toolsets ?p) else set (allowed_toolsets unit))"
    by (auto simp: narrow_def narrow_list_def narrow_cap_le)
  ultimately show ?thesis
    unfolding at_most_def by (meson cap_le_trans subset_trans)
qed

text \<open>
  The order matters: an empty list means ``inherit'', so narrowing two disjoint units against each other
  first yields a policy that inherits everything from the root.
\<close>

lemma narrowing_bottom_up_widens:
  defines "root \<equiv> policy_default\<lparr>allowed_toolsets := [''a'', ''b'']\<rparr>"
  fixes unit sub
  defines "unit \<equiv> policy_default\<lparr>allowed_toolsets := [''a'']\<rparr>"
    and "sub \<equiv> policy_default\<lparr>allowed_toolsets := [''b'']\<rparr>"
  shows "allowed_toolsets (narrow (narrow root unit) sub) = []"
    and "allowed_toolsets (narrow root (narrow unit sub)) = [''a'', ''b'']"
  by (simp_all add: assms narrow_def narrow_list_def policy_default_def)

subsection \<open>Model pins (agent/src/model\_pin.rs)\<close>

record model_pin =
  mp_provider :: provider
  mp_model_id :: string
  mp_model_version :: string
  mp_params_hash :: string

type_synonym resolved_model = model_pin

datatype drift_kind = VersionDrift | ParamsDrift

fun drift_str :: "drift_kind \<Rightarrow> string" where
  "drift_str VersionDrift = ''version_drift''"
| "drift_str ParamsDrift = ''params_drift''"

definition detect_drift :: "model_pin \<Rightarrow> resolved_model \<Rightarrow> drift_kind option" where
  "detect_drift pin actual =
     (if mp_provider pin \<noteq> mp_provider actual \<or> mp_model_id pin \<noteq> mp_model_id actual \<or>
         mp_model_version pin \<noteq> mp_model_version actual
      then Some VersionDrift
      else if mp_params_hash pin \<noteq> mp_params_hash actual then Some ParamsDrift
      else None)"

lemma detect_drift_None [simp]: "detect_drift pin actual = None \<longleftrightarrow> actual = pin"
  by (auto simp: detect_drift_def)

lemma detect_drift_refl [simp]: "detect_drift p p = None"
  by simp

datatype pin_violation =
    NoPinInStrictMode
  | Mismatch drift_kind model_pin resolved_model

text \<open>A drift event carries the pin, the resolved model and the kind; their \<open>Debug\<close> texts are not modelled.\<close>

record drift_event =
  de_expected :: model_pin
  de_actual :: resolved_model
  de_drift :: string

record ('w, 'b, 'r) pinned_client =
  pc_inner :: "'b \<Rightarrow> 'w \<Rightarrow> 'r result \<times> 'w"
  pc_resolver :: "'w \<Rightarrow> resolved_model"
  pc_pin :: "model_pin option"
  pc_strict :: bool
  pc_refuse_on_drift :: bool
  pc_telemetry :: "(drift_event \<Rightarrow> 'w \<Rightarrow> 'w) option"
  pc_run_id :: "string option"

definition pinned_client_new ::
  "('b \<Rightarrow> 'w \<Rightarrow> 'r result \<times> 'w) \<Rightarrow> ('w \<Rightarrow> resolved_model) \<Rightarrow> ('w, 'b, 'r) pinned_client" where
  "pinned_client_new inner resolver =
     \<lparr>pc_inner = inner, pc_resolver = resolver, pc_pin = None, pc_strict = False,
      pc_refuse_on_drift = False, pc_telemetry = None, pc_run_id = None\<rparr>"

definition with_telemetry ::
  "('w, 'b, 'r) pinned_client \<Rightarrow> (drift_event \<Rightarrow> 'w \<Rightarrow> 'w) \<Rightarrow> string \<Rightarrow> ('w, 'b, 'r) pinned_client" where
  "with_telemetry c t run = c\<lparr>pc_telemetry := Some t, pc_run_id := Some run\<rparr>"

definition revalidate :: "('w, 'b, 'r) pinned_client \<Rightarrow> 'w \<Rightarrow> drift_kind option" where
  "revalidate c w = Option.bind (pc_pin c) (\<lambda>p. detect_drift p (pc_resolver c w))"

definition emit_drift :: "('w, 'b, 'r) pinned_client \<Rightarrow> drift_event \<Rightarrow> 'w \<Rightarrow> 'w" where
  "emit_drift c e w =
     (case (pc_telemetry c, pc_run_id c) of
        (Some t, Some run) \<Rightarrow> t e w
      | _ \<Rightarrow> w)"

definition enforce_pin :: "('w, 'b, 'r) pinned_client \<Rightarrow> 'w \<Rightarrow> (pin_violation + unit) \<times> 'w" where
  "enforce_pin c w =
     (case pc_pin c of
        None \<Rightarrow> (if pc_strict c then (Inl NoPinInStrictMode, w) else (Inr (), w))
      | Some pin \<Rightarrow>
          (let actual = pc_resolver c w in
           case detect_drift pin actual of
             None \<Rightarrow> (Inr (), w)
           | Some kind \<Rightarrow>
               (let w1 = emit_drift c \<lparr>de_expected = pin, de_actual = actual, de_drift = drift_str kind\<rparr> w in
                if pc_refuse_on_drift c then (Inl (Mismatch kind pin actual), w1) else (Inr (), w1))))"

text \<open>\<open>violation_text\<close> stands for the Display text of a violation (its mismatch prints \<open>Debug\<close> values).\<close>

definition pinned_run ::
  "(pin_violation \<Rightarrow> string) \<Rightarrow> ('w, 'b, 'r) pinned_client \<Rightarrow> 'b \<Rightarrow> 'w \<Rightarrow> 'r result \<times> 'w" where
  "pinned_run violation_text c batch w =
     (case enforce_pin c w of
        (Inl e, w1) \<Rightarrow> (Inl (PolicyDenied (violation_text e)), w1)
      | (Inr _, w1) \<Rightarrow> pc_inner c batch w1)"

text \<open>
  (C19) A strict client that refuses drift reaches the model exactly when a pin is set and the provider resolves
  to it, provider, model, version and parameters alike; otherwise the call is a policy error and the model
  is not called. The only effect before the model is the drift event, emitted exactly on a drift.
\<close>

theorem pinned_client_guards:
  assumes "pc_strict c" and "pc_refuse_on_drift c"
  shows "pinned_run text c batch w =
     (if pc_pin c = Some (pc_resolver c w) then pc_inner c batch w
      else (Inl (PolicyDenied (text (case pc_pin c of
               None \<Rightarrow> NoPinInStrictMode
             | Some pin \<Rightarrow> Mismatch (the (revalidate c w)) pin (pc_resolver c w)))),
            case pc_pin c of
              None \<Rightarrow> w
            | Some pin \<Rightarrow> emit_drift c \<lparr>de_expected = pin, de_actual = pc_resolver c w,
                                        de_drift = drift_str (the (revalidate c w))\<rparr> w))"
  using assms
  by (auto simp: pinned_run_def enforce_pin_def revalidate_def Let_def split: option.splits
           simp del: detect_drift_None dest: iffD1 [OF detect_drift_None])

definition demo_pin :: "string \<Rightarrow> model_pin" where
  "demo_pin v = \<lparr>mp_provider = Anthropic, mp_model_id = ''claude'', mp_model_version = v, mp_params_hash = ''p''\<rparr>"

definition demo_client :: "(drift_event list, unit, string) pinned_client" where
  "demo_client = (with_telemetry (pinned_client_new (\<lambda>b w. (Inr ''ok'', w)) (\<lambda>w. demo_pin ''2''))
     (\<lambda>e w. w @ [e]) ''run-1'')\<lparr>pc_pin := Some (demo_pin ''1''), pc_strict := True, pc_refuse_on_drift := True\<rparr>"

theorem pinned_client_guards_witness:
  "pinned_run (\<lambda>e. ''mismatch'') demo_client () [] =
     (Inl (PolicyDenied ''mismatch''),
      [\<lparr>de_expected = demo_pin ''1'', de_actual = demo_pin ''2'', de_drift = ''version_drift''\<rparr>])"
  by (subst pinned_client_guards)
     (simp_all add: demo_client_def with_telemetry_def pinned_client_new_def demo_pin_def revalidate_def
        detect_drift_def emit_drift_def)

subsection \<open>The middleware stack (agent/src/middleware.rs)\<close>

text \<open>
  The batch and its messages come from \<open>atomr_infer_core\<close>; \<open>'s\<close> are its sampling parameters and \<open>'c\<close> the
  message contents other than text. A hook may change its subject in place and may fail.
\<close>

datatype role = System | User | Assistant | ToolRole

datatype 'c message_content = TextContent string | OtherContent 'c

record 'c infer_msg =
  im_role :: role
  im_content :: "'c message_content"

record ('s, 'c) exec_batch =
  eb_request_id :: string
  eb_model :: string
  eb_messages :: "'c infer_msg list"
  eb_sampling :: 's
  eb_stream :: bool
  eb_estimated_tokens :: u32

type_synonym ('a, 'w) hook = "'a \<Rightarrow> 'w \<Rightarrow> unit result \<times> 'a \<times> 'w"

record ('w, 's, 'c, 'u, 'f) middleware =
  mw_before_agent :: "string \<Rightarrow> string \<Rightarrow> 'w \<Rightarrow> unit result \<times> 'w"
  mw_before_model :: "(('s, 'c) exec_batch, 'w) hook"
  mw_after_model :: "(('u, 'f) turn_result, 'w) hook"
  mw_before_tool :: "string \<Rightarrow> (json, 'w) hook"
  mw_after_tool :: "string \<Rightarrow> (json result, 'w) hook"
  mw_after_agent :: "(('u, 'f) turn_result, 'w) hook"
  mw_dynamic_prompt :: "string \<Rightarrow> string \<Rightarrow> 'w \<Rightarrow> string option result \<times> 'w"

text \<open>The default methods of the trait do nothing.\<close>

definition middleware_default :: "('w, 's, 'c, 'u, 'f) middleware" where
  "middleware_default =
     \<lparr>mw_before_agent = (\<lambda>a u w. (Inr (), w)),
      mw_before_model = (\<lambda>b w. (Inr (), b, w)),
      mw_after_model = (\<lambda>r w. (Inr (), r, w)),
      mw_before_tool = (\<lambda>n a w. (Inr (), a, w)),
      mw_after_tool = (\<lambda>n r w. (Inr (), r, w)),
      mw_after_agent = (\<lambda>r w. (Inr (), r, w)),
      mw_dynamic_prompt = (\<lambda>a u w. (Inr None, w))\<rparr>"

text \<open>A stack is the list in registration order; \<open>push\<close> appends.\<close>

fun run_hooks :: "('a, 'w) hook list \<Rightarrow> ('a, 'w) hook" where
  "run_hooks [] x w = (Inr (), x, w)"
| "run_hooks (h # hs) x w =
     (case h x w of
        (Inl e, x1, w1) \<Rightarrow> (Inl e, x1, w1)
      | (Inr _, x1, w1) \<Rightarrow> run_hooks hs x1 w1)"

fun run_before_agent ::
  "('w, 's, 'c, 'u, 'f) middleware list \<Rightarrow> string \<Rightarrow> string \<Rightarrow> 'w \<Rightarrow> unit result \<times> 'w" where
  "run_before_agent [] agent user w = (Inr (), w)"
| "run_before_agent (m # ms) agent user w =
     (case mw_before_agent m agent user w of
        (Inl e, w1) \<Rightarrow> (Inl e, w1)
      | (Inr _, w1) \<Rightarrow> run_before_agent ms agent user w1)"

definition run_before_model :: "('w, 's, 'c, 'u, 'f) middleware list \<Rightarrow> (('s, 'c) exec_batch, 'w) hook" where
  "run_before_model ms = run_hooks (map mw_before_model ms)"

definition run_after_model :: "('w, 's, 'c, 'u, 'f) middleware list \<Rightarrow> (('u, 'f) turn_result, 'w) hook" where
  "run_after_model ms = run_hooks (map mw_after_model (rev ms))"

definition run_before_tool :: "('w, 's, 'c, 'u, 'f) middleware list \<Rightarrow> string \<Rightarrow> (json, 'w) hook" where
  "run_before_tool ms name = run_hooks (map (\<lambda>m. mw_before_tool m name) ms)"

definition run_after_tool :: "('w, 's, 'c, 'u, 'f) middleware list \<Rightarrow> string \<Rightarrow> (json result, 'w) hook" where
  "run_after_tool ms name = run_hooks (map (\<lambda>m. mw_after_tool m name) (rev ms))"

definition run_after_agent :: "('w, 's, 'c, 'u, 'f) middleware list \<Rightarrow> (('u, 'f) turn_result, 'w) hook" where
  "run_after_agent ms = run_hooks (map mw_after_agent (rev ms))"

fun dynamic_prompt_loop ::
  "('w, 's, 'c, 'u, 'f) middleware list \<Rightarrow> string \<Rightarrow> string \<Rightarrow> string option \<Rightarrow> 'w \<Rightarrow> string option result \<times> 'w" where
  "dynamic_prompt_loop [] agent user out w = (Inr out, w)"
| "dynamic_prompt_loop (m # ms) agent user out w =
     (case mw_dynamic_prompt m agent user w of
        (Inl e, w1) \<Rightarrow> (Inl e, w1)
      | (Inr p, w1) \<Rightarrow> dynamic_prompt_loop ms agent user (case p of None \<Rightarrow> out | Some s \<Rightarrow> Some s) w1)"

definition run_dynamic_prompt ::
  "('w, 's, 'c, 'u, 'f) middleware list \<Rightarrow> string \<Rightarrow> string \<Rightarrow> 'w \<Rightarrow> string option result \<times> 'w" where
  "run_dynamic_prompt ms agent user w = dynamic_prompt_loop ms agent user None w"

text \<open>The stock middlewares without floating-point state.\<close>

definition logging_middleware ::
  "(string \<Rightarrow> 'w \<Rightarrow> 'w) \<Rightarrow> ('u \<Rightarrow> nat) \<Rightarrow> ('w, 's, 'c, 'u, 'f) middleware" where
  "logging_middleware log output_tokens = middleware_default
     \<lparr>mw_before_agent := (\<lambda>a u w. (Inr (), log (''before_agent '' @ a @ '' '' @ [CHR 0x27] @ u @ [CHR 0x27]) w)),
      mw_before_model := (\<lambda>b w. (Inr (), b, log (''before_model_call model='' @ eb_model b) w)),
      mw_after_model := (\<lambda>r w. (Inr (), r, log (''after_model_call out_tokens='' @ show_nat (output_tokens (tr_usage r))) w)),
      mw_before_tool := (\<lambda>n a w. (Inr (), a, log (''before_tool_call '' @ n) w)),
      mw_after_tool := (\<lambda>n r w. (Inr (), r,
         log (''after_tool_call '' @ n @ '' ok='' @ (if is_ok r then ''true'' else ''false'')) w)),
      mw_after_agent := (\<lambda>r w. (Inr (), r, log ''after_agent'' w))\<rparr>"

definition redact :: "string list \<Rightarrow> string \<Rightarrow> string \<Rightarrow> string" where
  "redact patterns replacement t = foldl (\<lambda>t p. str_replace t p replacement) t patterns"

definition redact_msg :: "string list \<Rightarrow> string \<Rightarrow> 'c infer_msg \<Rightarrow> 'c infer_msg" where
  "redact_msg patterns replacement m =
     (case im_content m of
        TextContent t \<Rightarrow> m\<lparr>im_content := TextContent (redact patterns replacement t)\<rparr>
      | OtherContent _ \<Rightarrow> m)"

definition redaction_middleware :: "string list \<Rightarrow> string \<Rightarrow> ('w, 's, 'c, 'u, 'f) middleware" where
  "redaction_middleware patterns replacement = middleware_default
     \<lparr>mw_before_model := (\<lambda>b w. (Inr (), b\<lparr>eb_messages := map (redact_msg patterns replacement) (eb_messages b)\<rparr>, w))\<rparr>"

definition tool_error_recovery :: "('w, 's, 'c, 'u, 'f) middleware" where
  "tool_error_recovery = middleware_default
     \<lparr>mw_after_tool := (\<lambda>name r w.
        (Inr (),
         case r of
           Inl e \<Rightarrow> Inr (obj_of [(''tool_error'', Bool True), (''tool'', String name), (''message'', String (error_text e))])
         | Inr v \<Rightarrow> Inr v, w))\<rparr>"

subsection \<open>Hooks and redaction\<close>

lemma run_hooks_append:
  "run_hooks (hs @ ks) x w =
     (case run_hooks hs x w of
        (Inl e, x1, w1) \<Rightarrow> (Inl e, x1, w1)
      | (Inr _, x1, w1) \<Rightarrow> run_hooks ks x1 w1)"
  by (induction hs x w rule: run_hooks.induct) (auto split: sum.splits prod.splits)

text \<open>The onion: what is pushed last is innermost, on the way in and on the way out.\<close>

lemma before_model_push:
  "run_before_model (ms @ [m]) b w =
     (case run_before_model ms b w of
        (Inl e, b1, w1) \<Rightarrow> (Inl e, b1, w1)
      | (Inr _, b1, w1) \<Rightarrow> run_hooks [mw_before_model m] b1 w1)"
  by (simp add: run_before_model_def run_hooks_append)

lemma after_tool_push:
  "run_after_tool (ms @ [m]) name r w =
     (case mw_after_tool m name r w of
        (Inl e, r1, w1) \<Rightarrow> (Inl e, r1, w1)
      | (Inr _, r1, w1) \<Rightarrow> run_after_tool ms name r1 w1)"
  by (simp add: run_after_tool_def split: sum.splits prod.splits)

text \<open>
  Tool errors become content: in a stack whose outermost middleware is the recovery, a tool call whose
  hooks do not fail always ends in a value, whatever the tool returned and the hooks made of it; an error that
  reaches the recovery is the object with the tool's name and the error's text.
\<close>

theorem recovery_absorbs_tool_errors:
  assumes "run_after_tool ms name r w = (Inr (), r1, w1)"
  shows "run_after_tool (tool_error_recovery # ms) name r w =
     (Inr (), Inr (case r1 of
        Inr v \<Rightarrow> v
      | Inl e \<Rightarrow> obj_of [(''tool_error'', Bool True), (''tool'', String name), (''message'', String (error_text e))]), w1)"
  using assms
  by (simp add: run_after_tool_def run_hooks_append tool_error_recovery_def middleware_default_def split: sum.splits)

theorem recovery_absorbs_tool_errors_witness:
  "run_after_tool [tool_error_recovery, (logging_middleware (\<lambda>l w. w @ [l]) id :: (string list, unit, unit, nat, unit) middleware)]
      ''calc'' (Inl (Tool ''boom'')) [] =
     (Inr (), Inr (obj_of [(''tool_error'', Bool True), (''tool'', String ''calc''), (''message'', String (error_text (Tool ''boom'')))]),
      [''after_tool_call calc ok=false''])"
proof -
  have "run_after_tool [(logging_middleware (\<lambda>l w. w @ [l]) id :: (string list, unit, unit, nat, unit) middleware)]
      ''calc'' (Inl (Tool ''boom'')) [] = (Inr (), Inl (Tool ''boom''), [''after_tool_call calc ok=false''])"
    by (simp add: run_after_tool_def logging_middleware_def middleware_default_def)
  from recovery_absorbs_tool_errors [OF this] show ?thesis by simp
qed

text \<open>Occurrences of a pattern are contiguous sublists.\<close>

lemma str_contains_sublist: "str_contains s p \<longleftrightarrow> sublist p s"
proof (induction s)
  case (Cons c s)
  have "take (length p) (c # s) = p \<longleftrightarrow> prefix p (c # s)"
    by (metis append_eq_conv_conj prefix_def take_is_prefix)
  with Cons show ?case by (simp add: sublist_Cons_right)
qed auto

lemma sublist_disjoint_append:
  assumes "sublist q (rep @ s)" and "q \<noteq> []" and "set q \<inter> set rep = {}"
  shows "sublist q s"
proof -
  have "\<not> sublist q rep" using assms(2,3) set_mono_sublist [of q rep] by (cases q) auto
  moreover have "sublist q s" if "q = q1 @ q2" "suffix q1 rep" "prefix q2 s" for q1 q2
    using that assms(3) set_mono_suffix [OF that(2)] by (cases q1) auto
  ultimately show ?thesis using assms(1) unfolding sublist_append by blast
qed

lemma prefix_replace_ne:
  assumes "prefix q (replace_ne p rep s)" and "set q \<inter> set rep = {}" and "rep \<noteq> []"
  shows "prefix q s"
  using assms
proof (induction p rep s arbitrary: q rule: replace_ne.induct)
  case (2 p rep c s)
  show ?case
  proof (cases q)
    case (Cons d q')
    show ?thesis
    proof (cases "take (length p) (c # s) = p")
      case True
      with Cons 2 show ?thesis by (cases rep) auto
    next
      case False
      with Cons 2 show ?thesis by simp
    qed
  qed simp
qed simp

lemma sublist_replace_ne:
  assumes "sublist q (replace_ne p rep s)" and "q \<noteq> []" and "set q \<inter> set rep = {}" and "rep \<noteq> []"
  shows "sublist q s"
  using assms
proof (induction p rep s rule: replace_ne.induct)
  case (2 p rep c s)
  show ?case
  proof (cases "take (length p) (c # s) = p")
    case True
    then have "sublist q (rep @ replace_ne p rep (drop (length p - 1) s))" using "2.prems"(1) by simp
    then have "sublist q (replace_ne p rep (drop (length p - 1) s))"
      using "2.prems"(2,3) by (rule sublist_disjoint_append)
    then have "sublist q (drop (length p - 1) s)" using "2.IH"(1) [OF True] "2.prems" by blast
    moreover have "sublist (drop (length p - 1) s) (c # s)" by (simp add: sublist_Cons_right)
    ultimately show ?thesis by (metis sublist_order.order_trans)
  next
    case False
    then have "prefix q (c # replace_ne p rep s) \<or> sublist q (replace_ne p rep s)"
      using "2.prems"(1) by (simp add: sublist_Cons_right)
    then show ?thesis
    proof
      assume "prefix q (c # replace_ne p rep s)"
      then have "prefix q (replace_ne p rep (c # s))" using False by simp
      from prefix_replace_ne [OF this "2.prems"(3,4)] show ?thesis by blast
    next
      assume "sublist q (replace_ne p rep s)"
      then show ?thesis using "2.IH"(2) [OF False] "2.prems" by (simp add: sublist_Cons_right)
    qed
  qed
qed simp

lemma no_pattern_after_replace:
  assumes "p \<noteq> []" and "set p \<inter> set rep = {}" and "rep \<noteq> []"
  shows "\<not> sublist p (replace_ne p rep s)"
  using assms
proof (induction p rep s rule: replace_ne.induct)
  case (2 p rep c s)
  show ?case
  proof (cases "take (length p) (c # s) = p")
    case True
    then show ?thesis
      using sublist_disjoint_append [OF _ "2.prems"(1,2)] "2.IH"(1) [OF True "2.prems"] by auto
  next
    case False
    have "\<not> prefix p (c # replace_ne p rep s)"
    proof
      assume "prefix p (c # replace_ne p rep s)"
      then have "prefix p (replace_ne p rep (c # s))" using False by simp
      from prefix_replace_ne [OF this "2.prems"(2,3)] have "take (length p) (c # s) = p"
        by (metis append_eq_conv_conj prefix_def)
      with False show False by simp
    qed
    with False "2.IH"(2) [OF False] "2.prems" show ?thesis by (simp add: sublist_Cons_right)
  qed
qed simp

text \<open>
  Redaction is complete when the placeholder is not empty and shares no character with a pattern: then no
  pattern occurs any more in any text message of the batch that goes to the model, whichever the order of the
  patterns.
\<close>

theorem redaction_complete:
  assumes "\<forall>p\<in>set patterns. p \<noteq> [] \<and> set p \<inter> set replacement = {}" and "replacement \<noteq> []"
    and "p \<in> set patterns" and "m \<in> set (eb_messages batch)" and "im_content m = TextContent t"
  shows "run_before_model [redaction_middleware patterns replacement] batch w =
      (Inr (), batch\<lparr>eb_messages := map (redact_msg patterns replacement) (eb_messages batch)\<rparr>, w) \<and>
    (\<exists>t'. im_content (redact_msg patterns replacement m) = TextContent t' \<and> \<not> str_contains t' p)"
proof -
  have keep: "sublist q (redact ps replacement t) \<Longrightarrow> sublist q t"
    if "\<forall>p\<in>set ps. p \<noteq> []" "q \<noteq> []" "set q \<inter> set replacement = {}" for q ps t
    using that
  proof (induction ps arbitrary: t)
    case (Cons a ps)
    then have "sublist q (str_replace t a replacement)" by (simp add: redact_def)
    with Cons.prems assms(2) show ?case by (auto simp: str_replace_def intro: sublist_replace_ne)
  qed (simp add: redact_def)
  from assms(3) obtain ps1 ps2 where ps: "patterns = ps1 @ p # ps2" by (meson split_list)
  have p: "p \<noteq> []" "set p \<inter> set replacement = {}" using assms(1,3) by auto
  have "\<not> sublist p (redact ps2 replacement (str_replace (redact ps1 replacement t) p replacement))"
    using keep [of ps2 p] no_pattern_after_replace [OF p assms(2)] assms(1) p
    by (auto simp: ps str_replace_def)
  then have "\<not> str_contains (redact patterns replacement t) p"
    by (simp add: str_contains_sublist ps redact_def)
  then show ?thesis
    using assms(5)
    by (simp add: run_before_model_def redaction_middleware_def middleware_default_def redact_msg_def)
qed

definition demo_batch :: "string \<Rightarrow> (unit, unit) exec_batch" where
  "demo_batch t = \<lparr>eb_request_id = ''r'', eb_model = ''m'', eb_messages = [\<lparr>im_role = User, im_content = TextContent t\<rparr>],
     eb_sampling = (), eb_stream = False, eb_estimated_tokens = 1\<rparr>"

theorem redaction_complete_witness:
  "run_before_model [redaction_middleware [''secret'', ''key''] ''###''] (demo_batch ''my secret key'') () =
      (Inr (), (demo_batch ''my secret key'')\<lparr>eb_messages :=
         map (redact_msg [''secret'', ''key''] ''###'') (eb_messages (demo_batch ''my secret key''))\<rparr>, ()) \<and>
    (\<exists>t'. im_content (redact_msg [''secret'', ''key''] ''###''
        (\<lparr>im_role = User, im_content = TextContent ''my secret key''\<rparr> :: unit infer_msg)) = TextContent t' \<and> \<not> str_contains t' ''key'')"
  by (rule redaction_complete [where t = "''my secret key''"]) (simp_all add: demo_batch_def)

text \<open>
  In general it is not: cutting a pattern out can put a new occurrence together, and a later replacement can
  bring back an earlier pattern.
\<close>

lemma redaction_leaves_residue:
  "redact [''abc''] '''' ''aabcbc'' = ''abc''"
  "redact [''key'', ''x''] ''key'' ''x'' = ''key''"
  by (simp_all add: redact_def str_replace_def)

subsection \<open>Tool sets and rich tools (tool/src/registry.rs, toolset.rs, tool\_return.rs)\<close>

text \<open>The version type comes from the crate \<open>semver\<close>: any linear order. \<open>'t\<close> is the rest of a tool set.\<close>

record ('v, 't) tool_set =
  ts_id :: string
  ts_version :: 'v
  ts_rest :: 't

type_synonym ('v, 't) tool_set_registry = "((string \<times> 'v) \<times> ('v, 't) tool_set) list"

definition publish :: "('v, 't) tool_set_registry \<Rightarrow> ('v, 't) tool_set \<Rightarrow> ('v, 't) tool_set_registry" where
  "publish r ts = AList.update (ts_id ts, ts_version ts) ts r"

definition ts_get :: "('v, 't) tool_set_registry \<Rightarrow> string \<Rightarrow> 'v \<Rightarrow> ('v, 't) tool_set option" where
  "ts_get r i v = map_of r (i, v)"

text \<open>The sharded map iterates in any order; \<open>latest\<close> takes the entries in the order of the list.\<close>

definition ts_latest :: "('v::linorder, 't) tool_set_registry \<Rightarrow> string \<Rightarrow> ('v, 't) tool_set option" where
  "ts_latest r i = max_by_key ts_version (map snd (filter (\<lambda>e. fst (fst e) = i) r))"

definition published :: "('v, 't) tool_set list \<Rightarrow> ('v, 't) tool_set_registry" where
  "published ts = foldl publish [] ts"

lemma published_wf:
  "distinct (map fst (published ts)) \<and> (\<forall>e\<in>set (published ts). fst e = (ts_id (snd e), ts_version (snd e)) \<and> snd e \<in> set ts)"
proof (induction ts rule: rev_induct)
  case (snoc t ts)
  have "e \<in> set (AList.update k x r) \<Longrightarrow> e = (k, x) \<or> e \<in> set r" for e k r and x :: "('v, 't) tool_set"
    by (induction r) (auto split: if_splits)
  with snoc show ?case by (fastforce simp: published_def publish_def intro: distinct_update)
qed (simp add: published_def)

lemma published_get:
  "ts_get (published ts) i v = find (\<lambda>t. ts_id t = i \<and> ts_version t = v) (rev ts)"
  by (induction ts rule: rev_induct) (auto simp: published_def publish_def ts_get_def update_conv)

text \<open>
  The registry pins and resolves: \<open>get\<close> returns the set last published under a pinned id and version, and
  \<open>latest\<close> the one of the highest version ever published under the id, whatever the order of publication and
  of the entries in the map.
\<close>

lemma latest_is_highest:
  assumes "set r = set (published ts)" and "distinct (map fst r)" and "t \<in> set ts"
  shows "\<exists>l. ts_latest r (ts_id t) = Some l \<and> ts_id l = ts_id t \<and> ts_version t \<le> ts_version l \<and>
     ts_get r (ts_id l) (ts_version l) = Some l \<and>
     Some l = find (\<lambda>s. ts_id s = ts_id l \<and> ts_version s = ts_version l) (rev ts)"
proof -
  note set_r = assms(1)
  have dist: "distinct (map fst r)" "distinct (map fst (published ts))"
    using assms(2) published_wf [of ts] by simp_all
  have maps: "map_of r = map_of (published ts)"
    using dist set_r by (simp add: map_of_inject_set)
  have entry: "fst e = (ts_id (snd e), ts_version (snd e))" if "e \<in> set r" for e
    using that published_wf [of ts] set_r by blast
  let ?c = "map snd (filter (\<lambda>e. fst (fst e) = ts_id t) r)"
  obtain x where x: "ts_get r (ts_id t) (ts_version t) = Some x"
    using assms(3) published_get [of ts "ts_id t" "ts_version t"] maps
    by (cases "ts_get r (ts_id t) (ts_version t)") (auto simp: ts_get_def find_None_iff)
  then have "((ts_id t, ts_version t), x) \<in> set r" by (simp add: ts_get_def map_of_SomeD)
  then have xc: "x \<in> set ?c" "ts_version x = ts_version t" using entry by force+
  then obtain l where l: "ts_latest r (ts_id t) = Some l"
    unfolding ts_latest_def by (metis list.set_cases max_by_key_None not_Some_eq list.distinct(1))
  then have max: "l \<in> set ?c" "\<forall>y\<in>set ?c. ts_version y \<le> ts_version l"
    using max_by_key_Some [of ts_version ?c l] unfolding ts_latest_def by simp_all
  then obtain e where e: "e \<in> set r" "snd e = l" "fst (fst e) = ts_id t" by auto
  then have "((ts_id l, ts_version l), l) \<in> set r" "ts_id l = ts_id t"
    using entry by (metis fst_conv prod.collapse)+
  then have "ts_get r (ts_id l) (ts_version l) = Some l"
    using dist(1) by (simp add: ts_get_def)
  moreover have "ts_version t \<le> ts_version l" using max(2) xc by metis
  moreover have "ts_get r (ts_id l) (ts_version l) = find (\<lambda>s. ts_id s = ts_id l \<and> ts_version s = ts_version l) (rev ts)"
    using published_get [of ts "ts_id l" "ts_version l"] maps by (simp add: ts_get_def)
  ultimately show ?thesis
    using l \<open>ts_id l = ts_id t\<close> by (intro exI [of _ l]) simp
qed

datatype tool_control =
    Handoff string json
  | Done_Control json
  | Update_Control "(string \<times> json) list"

datatype tool_return =
    Content json
  | ContentAndArtifact json json
  | Command tool_control

text \<open>The derived serialisation: an object with the variant as its only key, a tuple as an array.\<close>

fun control_value :: "tool_control \<Rightarrow> json" where
  "control_value (Handoff target payload) =
     Object [(''Handoff'', obj_of [(''target'', String target), (''payload'', payload)])]"
| "control_value (Done_Control v) = Object [(''Done'', v)]"
| "control_value (Update_Control writes) =
     Object [(''Update'', Array (map (\<lambda>(k, v). Array [String k, v]) writes))]"

fun project_return :: "tool_return \<Rightarrow> json" where
  "project_return (Content v) = v"
| "project_return (ContentAndArtifact v _) = v"
| "project_return (Command c) = control_value c"

definition rich_invoke ::
  "('a \<Rightarrow> 'x \<Rightarrow> 'w \<Rightarrow> tool_return result \<times> 'w) \<Rightarrow> 'a \<Rightarrow> 'x \<Rightarrow> 'w \<Rightarrow> json result \<times> 'w" where
  "rich_invoke invoke_rich args c w =
     (case invoke_rich args c w of
        (Inl e, w1) \<Rightarrow> (Inl e, w1)
      | (Inr r, w1) \<Rightarrow> (Inr (project_return r), w1))"

text \<open>A control instruction survives the projection: its JSON determines it.\<close>

lemma control_value_inj: "control_value c = control_value d \<Longrightarrow> c = d"
proof (cases c; cases d)
  fix ws us assume "control_value c = control_value d" "c = Update_Control ws" "d = Update_Control us"
  then have "map (\<lambda>(k, v). Array [String k, v]) ws = map (\<lambda>(k, v). Array [String k, v]) us" by simp
  moreover have "inj (\<lambda>(k, v). Array [String k, v])" by (auto simp: inj_def)
  ultimately have "ws = us" by (metis inj_map_eq_map)
  then show ?thesis using \<open>c = _\<close> \<open>d = _\<close> by simp
qed (auto simp: obj_of_def)

end
