(* ===== verification/Security.thy ===== *)
theory Security
  imports Callable
begin

text \<open>
  Information walls: the caller context (\<open>crates/core/src/context.rs\<close>), clearances, the tool wall and the
  secret broker (\<open>crates/security/src\<close>), and the deterministic retrieval filters that enforce the
  same clearance on documents (\<open>crates/retriever/src/retrieval_filter.rs\<close>).
\<close>

subsection \<open>Clearance (security/src/clearance.rs)\<close>

datatype clearance_level = Public | Internal_Level | Confidential | Restricted | Mnpi

fun level_index :: "clearance_level \<Rightarrow> nat" where
  "level_index Public = 0"
| "level_index Internal_Level = 1"
| "level_index Confidential = 2"
| "level_index Restricted = 3"
| "level_index Mnpi = 4"

lemma level_index_inj [simp]: "level_index a = level_index b \<longleftrightarrow> a = b"
  by (cases a; cases b) simp_all

text \<open>The derived order: by position of the variant.\<close>

instantiation clearance_level :: linorder
begin

definition less_eq_clearance_level :: "clearance_level \<Rightarrow> clearance_level \<Rightarrow> bool" where
  "less_eq_clearance_level a b \<longleftrightarrow> level_index a \<le> level_index b"

definition less_clearance_level :: "clearance_level \<Rightarrow> clearance_level \<Rightarrow> bool" where
  "less_clearance_level a b \<longleftrightarrow> level_index a < level_index b"

instance
  by standard (auto simp: less_eq_clearance_level_def less_clearance_level_def)

end

record need_to_know =
  min_level :: clearance_level
  need_compartments :: "string set"

definition need_level :: "clearance_level \<Rightarrow> need_to_know" where
  "need_level l = \<lparr>min_level = l, need_compartments = {}\<rparr>"

definition need_with_compartment :: "need_to_know \<Rightarrow> string \<Rightarrow> need_to_know" where
  "need_with_compartment n c = n\<lparr>need_compartments := insert c (need_compartments n)\<rparr>"

record clearance =
  cl_subject :: string
  cl_level :: clearance_level
  cl_compartments :: "string set"

definition clearance_new :: "string \<Rightarrow> clearance_level \<Rightarrow> clearance" where
  "clearance_new subject l = \<lparr>cl_subject = subject, cl_level = l, cl_compartments = {}\<rparr>"

definition clearance_with_compartment :: "clearance \<Rightarrow> string \<Rightarrow> clearance" where
  "clearance_with_compartment cl c = cl\<lparr>cl_compartments := insert c (cl_compartments cl)\<rparr>"

definition permits :: "clearance \<Rightarrow> need_to_know \<Rightarrow> bool" where
  "permits cl need \<longleftrightarrow> cl_level cl \<ge> min_level need \<and> (\<forall>c\<in>need_compartments need. c \<in> cl_compartments cl)"

definition holds :: "clearance \<Rightarrow> string \<Rightarrow> bool" where
  "holds cl c \<longleftrightarrow> c \<in> cl_compartments cl"

lemma permits_mono:
  "permits a need \<Longrightarrow> cl_level a \<le> cl_level b \<Longrightarrow> cl_compartments a \<subseteq> cl_compartments b \<Longrightarrow> permits b need"
  unfolding permits_def by (meson order_trans subset_iff)

subsection \<open>The caller context (core/src/context.rs)\<close>

text \<open>
  The extension map has one slot per type; the slot of \<open>ClearanceContext\<close> is \<open>ext_clearance\<close>, the
  others are \<open>'y\<close>. The empty map has no clearance.
\<close>

record 'y extensions =
  ext_clearance :: "clearance option"
  ext_other :: "'y option"

definition extensions_default :: "'y extensions" where
  "extensions_default = \<lparr>ext_clearance = None, ext_other = None\<rparr>"

record 'y ctx_body =
  cb_agent_id :: "string option"
  cb_tokens :: token_budget
  cb_time :: time_budget
  cb_money :: money_budget
  cb_iterations :: iteration_budget
  cb_extensions :: "'y extensions"

type_synonym 'y ctx = "'y ctx_body call_ctx"

definition ctx_new ::
  "string option \<Rightarrow> token_budget \<Rightarrow> time_budget \<Rightarrow> money_budget \<Rightarrow> iteration_budget \<Rightarrow> string list \<Rightarrow> 'y ctx" where
  "ctx_new agent_id tokens time money iterations trace =
     \<lparr>cc_trace = trace,
      cc_rest = \<lparr>cb_agent_id = agent_id, cb_tokens = tokens, cb_time = time, cb_money = money,
                 cb_iterations = iterations, cb_extensions = extensions_default\<rparr>\<rparr>"

definition insert_clearance :: "'y ctx \<Rightarrow> clearance \<Rightarrow> 'y ctx" where
  "insert_clearance c cl =
     c\<lparr>cc_rest := (cc_rest c)\<lparr>cb_extensions := (cb_extensions (cc_rest c))\<lparr>ext_clearance := Some cl\<rparr>\<rparr>\<rparr>"

definition clearance_of :: "'y ctx \<Rightarrow> clearance option" where
  "clearance_of c = ext_clearance (cb_extensions (cc_rest c))"

record 'y invoke_ctx =
  ic_call :: "'y ctx"
  ic_tool_call_id :: string
  ic_raw_args :: json

subsection \<open>Errors and mandates (error.rs, mandate.rs)\<close>

datatype security_error =
    AccessDenied string
  | MandateViolation string
  | UnknownCapability string

fun security_error_text :: "security_error \<Rightarrow> string" where
  "security_error_text (AccessDenied m) = ''access denied: '' @ m"
| "security_error_text (MandateViolation m) = ''mandate violation: '' @ m"
| "security_error_text (UnknownCapability m) = ''unknown capability handle: '' @ m"

definition sec_err :: "security_error \<Rightarrow> agent_error" where
  "sec_err e = PolicyDenied (security_error_text e)"

type_synonym ('w, 'y) mandate = "json \<Rightarrow> 'y invoke_ctx \<Rightarrow> 'w \<Rightarrow> (security_error + unit) \<times> 'w"

definition allow_all :: "('w, 'y) mandate" where
  "allow_all args c w = (Inr (), w)"

definition deny_all :: "string \<Rightarrow> ('w, 'y) mandate" where
  "deny_all reason args c w = (Inl (MandateViolation reason), w)"

subsection \<open>Tools and the wall (tool/src/trait.rs, security/src/walled.rs)\<close>

record ('w, 'y) tool =
  tl_name :: string
  tl_invoke :: "json \<Rightarrow> 'y invoke_ctx \<Rightarrow> 'w \<Rightarrow> json result \<times> 'w"

text \<open>\<open>ToolCallable\<close>: any tool as a callable; the synthetic call id comes from a counter in the world.\<close>

definition tool_callable :: "('w \<Rightarrow> string \<times> 'w) \<Rightarrow> ('w, 'y) tool \<Rightarrow> ('w, 'y ctx_body) callable" where
  "tool_callable uuid_like t =
     \<lparr>c_call = (\<lambda>input ctx w.
        case uuid_like w of
          (u, w1) \<Rightarrow> tl_invoke t input \<lparr>ic_call = ctx, ic_tool_call_id = ''synth-'' @ u, ic_raw_args = input\<rparr> w1),
      c_label = tl_name t\<rparr>"

definition walled_tool ::
  "('w, 'y) tool \<Rightarrow> need_to_know \<Rightarrow> ('w, 'y) mandate option \<Rightarrow> ('w, 'y) tool" where
  "walled_tool inner need mandate =
     \<lparr>tl_name = tl_name inner,
      tl_invoke = (\<lambda>args c w.
        case clearance_of (ic_call c) of
          None \<Rightarrow>
            (Inl (sec_err (AccessDenied
               (''tool '' @ [CHR 0x27] @ tl_name inner @ [CHR 0x27] @ '' requires a clearance context, none attached''))), w)
        | Some cl \<Rightarrow>
            (if \<not> permits cl need
             then (Inl (sec_err (AccessDenied
                     (''subject '' @ [CHR 0x27] @ cl_subject cl @ [CHR 0x27] @ '' is not cleared for tool '' @
                      [CHR 0x27] @ tl_name inner @ [CHR 0x27]))), w)
             else (case mandate of
                     None \<Rightarrow> tl_invoke inner args c w
                   | Some check \<Rightarrow>
                       (case check args c w of
                          (Inl e, w1) \<Rightarrow> (Inl (sec_err e), w1)
                        | (Inr _, w1) \<Rightarrow> tl_invoke inner args c w1))))\<rparr>"

text \<open>
  What the walls promise, without reference to \<open>permits\<close>: the caller carries a clearance of at least the
  required level that holds every required compartment, and the mandates of the walls accept the call one after
  the other, each in the world the one before left.
\<close>

definition cleared :: "'y ctx \<Rightarrow> need_to_know \<Rightarrow> bool" where
  "cleared c need \<longleftrightarrow>
     (case clearance_of c of
        None \<Rightarrow> False
      | Some cl \<Rightarrow> level_index (min_level need) \<le> level_index (cl_level cl) \<and>
                   need_compartments need \<subseteq> cl_compartments cl)"

fun accept_all ::
  "('w, 'y) mandate option list \<Rightarrow> json \<Rightarrow> 'y invoke_ctx \<Rightarrow> 'w \<Rightarrow> 'w option" where
  "accept_all [] args c w = Some w"
| "accept_all (None # ms) args c w = accept_all ms args c w"
| "accept_all (Some check # ms) args c w =
     (case check args c w of (Inl e, w1) \<Rightarrow> None | (Inr u, w1) \<Rightarrow> accept_all ms args c w1)"

text \<open>A tool behind any number of walls, the outermost first.\<close>

fun walls :: "('w, 'y) tool \<Rightarrow> (need_to_know \<times> ('w, 'y) mandate option) list \<Rightarrow> ('w, 'y) tool" where
  "walls inner [] = inner"
| "walls inner ((need, mandate) # ws) = walled_tool (walls inner ws) need mandate"

lemma walls_name [simp]: "tl_name (walls inner ws) = tl_name inner"
  by (induction inner ws rule: walls.induct) (simp_all add: walled_tool_def)

lemma cleared_permits: "cleared c need \<longleftrightarrow> (\<exists>cl. clearance_of c = Some cl \<and> permits cl need)"
  by (auto simp: cleared_def permits_def less_eq_clearance_level_def split: option.splits)

lemma wall_opens:
  assumes "cleared (ic_call c) need"
  shows "tl_invoke (walled_tool inner need mandate) args c w =
    (case mandate of
       None \<Rightarrow> tl_invoke inner args c w
     | Some check \<Rightarrow> (case check args c w of (Inl e, w1) \<Rightarrow> (Inl (sec_err e), w1) | (Inr u, w1) \<Rightarrow> tl_invoke inner args c w1))"
  using assms by (auto simp: walled_tool_def cleared_permits split: option.splits prod.splits sum.splits)

lemma wall_refuses:
  "\<not> cleared (ic_call c) need \<Longrightarrow>
     \<exists>e. \<forall>body. tl_invoke (walled_tool (walls (inner\<lparr>tl_invoke := body\<rparr>) ws) need mandate) args c w =
       (Inl (PolicyDenied e), w)"
  by (cases "clearance_of (ic_call c)")
    (simp_all add: walled_tool_def cleared_permits sec_err_def del: security_error_text.simps)

lemma walls_run:
  assumes "\<forall>need\<in>fst ` set ws. cleared (ic_call c) need" and "accept_all (map snd ws) args c w = Some w'"
  shows "tl_invoke (walls inner ws) args c w = tl_invoke inner args c w'"
  using assms
proof (induction ws arbitrary: w)
  case (Cons wall ws)
  then show ?case
    by (cases wall; cases "snd wall") (auto simp: wall_opens split: prod.splits sum.splits)
qed simp

lemma walls_stop:
  assumes "\<not> ((\<forall>need\<in>fst ` set ws. cleared (ic_call c) need) \<and> accept_all (map snd ws) args c w \<noteq> None)"
  shows "\<exists>e w'. (set (map snd ws) \<subseteq> {None} \<longrightarrow> w' = w) \<and>
    (\<forall>body. tl_invoke (walls (inner\<lparr>tl_invoke := body\<rparr>) ws) args c w = (Inl (PolicyDenied e), w'))"
  using assms
proof (induction ws arbitrary: w)
  case (Cons wall ws)
  obtain need mandate where wall: "wall = (need, mandate)" by force
  show ?case
  proof (cases "cleared (ic_call c) need")
    case False
    from wall_refuses [OF False, of inner ws mandate args w] wall show ?thesis by auto
  next
    case True
    show ?thesis
    proof (cases mandate)
      case None
      with True wall Cons.prems Cons.IH [of w] show ?thesis by (simp add: wall_opens)
    next
      case (Some check)
      obtain r w1 where r: "check args c w = (r, w1)" by force
      with True wall Some Cons.prems Cons.IH [of w1] show ?thesis
        by (cases r) (auto simp: wall_opens sec_err_def)
    qed
  qed
qed simp

text \<open>
  (C7) Walls fail closed. Behind any stack of walls a tool runs exactly for the calls that every wall admits: the
  caller's clearance has at least the level each wall requires and holds each of its compartments, and the mandates,
  asked from the outermost wall inwards, all accept. Every other call, of a caller without a clearance in particular,
  ends in a policy error, and its result and effects are the same whatever the tool would have done, so the tool has
  not run; if no wall has a mandate, nothing has changed at all.
\<close>

theorem wall_fails_closed:
  "(\<forall>w'. (\<forall>need\<in>fst ` set ws. cleared (ic_call c) need) \<and> accept_all (map snd ws) args c w = Some w' \<longrightarrow>
      tl_invoke (walls inner ws) args c w = tl_invoke inner args c w') \<and>
   (\<not> ((\<forall>need\<in>fst ` set ws. cleared (ic_call c) need) \<and> accept_all (map snd ws) args c w \<noteq> None) \<longrightarrow>
      (\<exists>e w'. (set (map snd ws) \<subseteq> {None} \<longrightarrow> w' = w) \<and>
         (\<forall>body. tl_invoke (walls (inner\<lparr>tl_invoke := body\<rparr>) ws) args c w = (Inl (PolicyDenied e), w'))))"
  using walls_run [of ws c args w _ inner] walls_stop [of ws c args w inner] by blast

text \<open>Walls compose: the inner tool runs behind two walls exactly when the clearance permits both needs.\<close>

lemma walls_nest:
  "tl_invoke (walled_tool (walled_tool inner n1 None) n2 None) args c w = r \<Longrightarrow>
     (if \<exists>cl. clearance_of (ic_call c) = Some cl \<and> permits cl n1 \<and> permits cl n2
      then r = tl_invoke inner args c w
      else (\<exists>m. r = (Inl (PolicyDenied (''access denied: '' @ m)), w)))"
  by (auto simp: walled_tool_def sec_err_def split: option.splits if_splits)

subsection \<open>The secret broker (security/src/secret.rs)\<close>

record broker_entry =
  en_need :: need_to_know
  en_secret :: string

type_synonym broker = "(string \<times> broker_entry) list"

definition broker_register :: "broker \<Rightarrow> string \<Rightarrow> need_to_know \<Rightarrow> string \<Rightarrow> broker" where
  "broker_register b h need secret = AList.update h \<lparr>en_need = need, en_secret = secret\<rparr> b"

definition broker_resolve :: "broker \<Rightarrow> string \<Rightarrow> 'y ctx \<Rightarrow> security_error + string" where
  "broker_resolve b h c =
     (case map_of b h of
        None \<Rightarrow> Inl (UnknownCapability h)
      | Some entry \<Rightarrow>
          (case clearance_of c of
             None \<Rightarrow> Inl (AccessDenied (''no clearance context present for capability '' @ [CHR 0x27] @ h @ [CHR 0x27]))
           | Some cl \<Rightarrow>
               (if \<not> permits cl (en_need entry)
                then Inl (AccessDenied (''subject '' @ [CHR 0x27] @ cl_subject cl @ [CHR 0x27] @
                       '' lacks need-to-know for capability '' @ [CHR 0x27] @ h @ [CHR 0x27]))
                else Inr (en_secret entry))))"

text \<open>
  Non-interference of the broker: two brokers that differ only in secrets the caller is not cleared for
  cannot be told apart by that caller, by any handle.
\<close>

theorem broker_hides_secrets:
  assumes "\<forall>h. (case (map_of b h, map_of b' h) of
             (None, None) \<Rightarrow> True
           | (Some e, Some e') \<Rightarrow> en_need e = en_need e' \<and>
               ((\<exists>cl. clearance_of c = Some cl \<and> permits cl (en_need e)) \<longrightarrow> en_secret e = en_secret e')
           | _ \<Rightarrow> False)"
  shows "broker_resolve b h c = broker_resolve b' h c"
  using spec [OF assms, of h] by (auto simp: broker_resolve_def split: option.splits)

definition demo_ctx :: "unit ctx" where
  "demo_ctx = ctx_new None (tb_new 100) (time_new 1000) \<lparr>remaining_micro_usd = 0\<rparr> (it_new 1) []"

definition demo_tool :: "(string list, 'y) tool" where
  "demo_tool = \<lparr>tl_name = ''order'', tl_invoke = (\<lambda>args c w. (Inr args, w @ [ic_tool_call_id c]))\<rparr>"

text \<open>
  An order tool behind two walls: the outer one asks a mandate that logs the call and refuses null arguments, the
  inner one requires a compartment.
\<close>

definition demo_walls :: "(need_to_know \<times> (string list, unit) mandate option) list" where
  "demo_walls =
     [(need_level Confidential,
       Some (\<lambda>args c w. (if args = Null then Inl (MandateViolation ''empty'') else Inr (), w @ [''asked'']))),
      (need_with_compartment (need_level Restricted) ''deal-7'', None)]"

definition demo_call :: "clearance option \<Rightarrow> unit invoke_ctx" where
  "demo_call cl =
     \<lparr>ic_call = (case cl of None \<Rightarrow> demo_ctx | Some cl \<Rightarrow> insert_clearance demo_ctx cl),
      ic_tool_call_id = ''t1'', ic_raw_args = Null\<rparr>"

definition demo_insider :: clearance where
  "demo_insider = clearance_with_compartment (clearance_new ''eve'' Mnpi) ''deal-7''"

lemma demo_cleared:
  "cleared (ic_call (demo_call None)) need = False"
  "cleared (ic_call (demo_call (Some demo_insider))) (need_with_compartment (need_level Restricted) ''deal-7'') = True"
  "cleared (ic_call (demo_call (Some demo_insider))) (need_level Confidential) = True"
  "cleared (ic_call (demo_call (Some (clearance_new ''bob'' Mnpi)))) (need_with_compartment (need_level Restricted) ''deal-7'') = False"
  by (simp_all add: cleared_def demo_call_def demo_insider_def clearance_of_def insert_clearance_def demo_ctx_def
      ctx_new_def extensions_default_def clearance_with_compartment_def clearance_new_def need_with_compartment_def
      need_level_def)

theorem wall_fails_closed_witness:
  "tl_invoke (walls demo_tool demo_walls) (Bool True) (demo_call (Some demo_insider)) [] =
     (Inr (Bool True), [''asked'', ''t1'']) \<and>
   (\<exists>e w'. tl_invoke (walls demo_tool demo_walls) Null (demo_call (Some demo_insider)) [] = (Inl (PolicyDenied e), w')) \<and>
   (\<exists>e w'. tl_invoke (walls demo_tool demo_walls) (Bool True) (demo_call (Some (clearance_new ''bob'' Mnpi))) [] =
      (Inl (PolicyDenied e), w')) \<and>
   (\<exists>e. tl_invoke (walls demo_tool [(need_level Public, None)]) Null (demo_call None) [] = (Inl (PolicyDenied e), []))"
proof (intro conjI)
  have same: "demo_tool\<lparr>tl_invoke := tl_invoke demo_tool\<rparr> = (demo_tool :: (string list, unit) tool)" by simp
  have "accept_all (map snd demo_walls) (Bool True) (demo_call (Some demo_insider)) [] = Some [''asked'']"
    by (simp add: demo_walls_def)
  with wall_fails_closed [of demo_walls "demo_call (Some demo_insider)" "Bool True" "[]" demo_tool]
  show "tl_invoke (walls demo_tool demo_walls) (Bool True) (demo_call (Some demo_insider)) [] =
     (Inr (Bool True), [''asked'', ''t1''])"
    by (simp add: demo_walls_def demo_cleared del: walls.simps) (simp add: demo_tool_def demo_call_def)
  have "accept_all (map snd demo_walls) Null (demo_call (Some demo_insider)) [] = None"
    by (simp add: demo_walls_def)
  with wall_fails_closed [of demo_walls "demo_call (Some demo_insider)" Null "[]" demo_tool] same
  show "\<exists>e w'. tl_invoke (walls demo_tool demo_walls) Null (demo_call (Some demo_insider)) [] = (Inl (PolicyDenied e), w')"
    by metis
  have "\<not> (\<forall>need\<in>fst ` set demo_walls. cleared (ic_call (demo_call (Some (clearance_new ''bob'' Mnpi)))) need)"
    by (simp add: demo_walls_def demo_cleared)
  with wall_fails_closed [of demo_walls "demo_call (Some (clearance_new ''bob'' Mnpi))" "Bool True" "[]" demo_tool] same
  show "\<exists>e w'. tl_invoke (walls demo_tool demo_walls) (Bool True) (demo_call (Some (clearance_new ''bob'' Mnpi))) [] =
      (Inl (PolicyDenied e), w')" by metis
  have "\<not> (\<forall>need\<in>fst ` set [(need_level Public, None :: (string list, unit) mandate option)].
      cleared (ic_call (demo_call None)) need)" by (simp add: demo_cleared)
  with wall_fails_closed [of "[(need_level Public, None)]" "demo_call None" Null "[]" demo_tool]
  obtain e where "\<forall>body. tl_invoke (walls (demo_tool\<lparr>tl_invoke := body\<rparr>) [(need_level Public, None)]) Null (demo_call None) [] =
      (Inl (PolicyDenied e), [])" by auto
  then show "\<exists>e. tl_invoke (walls demo_tool [(need_level Public, None)]) Null (demo_call None) [] = (Inl (PolicyDenied e), [])"
    using same by metis
qed

definition demo_broker :: "string \<Rightarrow> broker" where
  "demo_broker s = broker_register [] ''venue-key'' (need_level Mnpi) s"

theorem broker_hides_secrets_witness:
  "broker_resolve (demo_broker ''s1'') ''venue-key'' (insert_clearance demo_ctx (clearance_new ''bob'' Restricted))
   = broker_resolve (demo_broker ''s2'') ''venue-key'' (insert_clearance demo_ctx (clearance_new ''bob'' Restricted))"
  by (rule broker_hides_secrets)
     (auto simp: demo_broker_def broker_register_def need_level_def insert_clearance_def clearance_of_def
        demo_ctx_def ctx_new_def extensions_default_def clearance_new_def permits_def less_eq_clearance_level_def)

subsection \<open>Retrieval filters (retriever/src/retrieval\_filter.rs)\<close>

text \<open>The score is the bit pattern of an \<open>f32\<close>; nothing here computes with it.\<close>

record document =
  doc_id :: string
  doc_text :: string
  doc_metadata :: json
  doc_score :: u32

datatype retriever_filter =
    AsOf int
  | Entitlement clearance
  | AndF "retriever_filter list"

record retrieval_ctx =
  rq_as_of :: "int option"
  rq_clearance :: "clearance option"

definition to_filter :: "retrieval_ctx \<Rightarrow> retriever_filter option" where
  "to_filter q =
     (let parts = (case rq_as_of q of None \<Rightarrow> [] | Some ms \<Rightarrow> [AsOf ms]) @
                  (case rq_clearance q of None \<Rightarrow> [] | Some c \<Rightarrow> [Entitlement c])
      in (case parts of
            [] \<Rightarrow> None
          | [p] \<Rightarrow> Some p
          | _ \<Rightarrow> Some (AndF parts)))"

definition doc_system_time :: "json \<Rightarrow> int option" where
  "doc_system_time meta =
     Option.bind (case jget meta ''system_time'' of Some v \<Rightarrow> Some v | None \<Rightarrow> jget meta ''ingested_at'') as_i64"

definition doc_compartment :: "json \<Rightarrow> string option" where
  "doc_compartment meta = get_str meta ''compartment''"

fun admits :: "retriever_filter \<Rightarrow> document \<Rightarrow> bool" where
  "admits (AsOf ceiling) d =
     (case doc_system_time (doc_metadata d) of Some t \<Rightarrow> t \<le> ceiling | None \<Rightarrow> True)"
| "admits (Entitlement c) d =
     (case doc_compartment (doc_metadata d) of Some k \<Rightarrow> holds c k | None \<Rightarrow> True)"
| "admits (AndF parts) d = list_all (\<lambda>p. admits p d) parts"

type_synonym ('w, 'y) retriever = "string \<Rightarrow> 'y ctx \<Rightarrow> 'w \<Rightarrow> document list result \<times> 'w"

definition filtered_retriever :: "('w, 'y) retriever \<Rightarrow> retriever_filter \<Rightarrow> ('w, 'y) retriever" where
  "filtered_retriever inner f query c w =
     (case inner query c w of
        (Inl e, w1) \<Rightarrow> (Inl e, w1)
      | (Inr docs, w1) \<Rightarrow> (Inr (filter (admits f) docs), w1))"

text \<open>
  (C18) The retrieval guarantee holds below any retriever: the documents returned under a query context are
  the inner retriever's, in its order, without those recorded after the as-of ceiling and
  those of a compartment the subject does not hold; wrapping again only removes more, and the order of
  wrapping is irrelevant.
\<close>

theorem retrieval_respects_context:
  assumes "to_filter q = Some f" and "inner query c w = (Inr docs, w1)"
  shows "filtered_retriever inner f query c w =
     (Inr (filter (\<lambda>d.
        (\<forall>ms t. rq_as_of q = Some ms \<and> doc_system_time (doc_metadata d) = Some t \<longrightarrow> t \<le> ms) \<and>
        (\<forall>cl k. rq_clearance q = Some cl \<and> doc_compartment (doc_metadata d) = Some k \<longrightarrow> holds cl k)) docs), w1) \<and>
   filtered_retriever (filtered_retriever inner f) g query c w = (Inr (filter (\<lambda>d. admits f d \<and> admits g d) docs), w1) \<and>
   filtered_retriever (filtered_retriever inner f) g query c w = filtered_retriever (filtered_retriever inner g) f query c w"
proof -
  have "(\<lambda>d. (\<forall>ms t. rq_as_of q = Some ms \<and> doc_system_time (doc_metadata d) = Some t \<longrightarrow> t \<le> ms) \<and>
        (\<forall>cl k. rq_clearance q = Some cl \<and> doc_compartment (doc_metadata d) = Some k \<longrightarrow> holds cl k)) = admits f"
    using assms(1) by (intro ext) (auto simp: to_filter_def Let_def split: option.splits)
  moreover have "filter (admits g) (filter (admits f) docs) = filter (\<lambda>d. admits f d \<and> admits g d) docs"
    unfolding filter_filter by (rule filter_cong) auto
  moreover have "filter (admits f) (filter (admits g) docs) = filter (\<lambda>d. admits f d \<and> admits g d) docs"
    unfolding filter_filter by (rule filter_cong) auto
  ultimately show ?thesis
    by (simp only: filtered_retriever_def assms(2) prod.case sum.case)
qed

text \<open>
  The filters fail open on metadata of an unexpected type: a compartment that is not a string counts as
  public, and a recorded time that is not an integer counts as unknown, so such documents reach every
  subject and every as-of date.
\<close>

theorem malformed_metadata_admitted:
  assumes "jget meta ''compartment'' = Some cv" and "as_str cv = None"
    and "jget meta ''system_time'' = Some t" and "as_i64 t = None"
  shows "admits (AndF [AsOf ms, Entitlement cl]) \<lparr>doc_id = i, doc_text = x, doc_metadata = meta, doc_score = z\<rparr>"
  using assms by (simp add: doc_system_time_def doc_compartment_def get_str_def)

definition demo_doc :: document where
  "demo_doc = \<lparr>doc_id = ''d'', doc_text = ''memo'',
     doc_metadata = Object [(''compartment'', Array [String ''deal:acme'']), (''system_time'', String ''2031-01-01'')], doc_score = 0\<rparr>"

theorem malformed_metadata_admitted_witness:
  "admits (AndF [AsOf 0, Entitlement (clearance_new ''bob'' Public)])
     \<lparr>doc_id = ''d'', doc_text = ''memo'', doc_metadata = doc_metadata demo_doc, doc_score = 0\<rparr>"
  by (rule malformed_metadata_admitted [where cv = "Array [String ''deal:acme'']" and t = "String ''2031-01-01''"])
    (simp_all add: demo_doc_def)

theorem retrieval_respects_context_witness:
  "filtered_retriever (\<lambda>query c w. (Inr [demo_doc], w)) (AsOf 7) ''memo'' demo_ctx () =
     (Inr (filter (\<lambda>d.
        (\<forall>ms t. rq_as_of \<lparr>rq_as_of = Some 7, rq_clearance = None\<rparr> = Some ms \<and>
           doc_system_time (doc_metadata d) = Some t \<longrightarrow> t \<le> ms) \<and>
        (\<forall>cl k. rq_clearance \<lparr>rq_as_of = Some 7, rq_clearance = None\<rparr> = Some cl \<and>
           doc_compartment (doc_metadata d) = Some k \<longrightarrow> holds cl k)) [demo_doc]), ()) \<and>
   filtered_retriever (filtered_retriever (\<lambda>query c w. (Inr [demo_doc], w)) (AsOf 7)) (AsOf 9) ''memo'' demo_ctx ()
     = (Inr (filter (\<lambda>d. admits (AsOf 7) d \<and> admits (AsOf 9) d) [demo_doc]), ()) \<and>
   filtered_retriever (filtered_retriever (\<lambda>query c w. (Inr [demo_doc], w)) (AsOf 7)) (AsOf 9) ''memo'' demo_ctx ()
     = filtered_retriever (filtered_retriever (\<lambda>query c w. (Inr [demo_doc], w)) (AsOf 9)) (AsOf 7) ''memo'' demo_ctx ()"
  by (rule retrieval_respects_context) (simp_all add: to_filter_def)

end
