(* ===== verification/Agent.thy ===== *)
theory Agent
  imports Guards Security
begin

text \<open>
  The agent turn: instruction rendering (\<open>crates/instruction/src/lib.rs\<close>), the per-turn pipeline
  (\<open>crates/agent/src/pipeline.rs\<close>) and the agent as a callable (\<open>crates/agent/src/trait.rs\<close>).
  Strategies that the code joins concurrently are run here one after the other, in the order in which the join
  polls them.
\<close>

subsection \<open>Data of a turn (core/src/context.rs, core/src/memory.rs, core/src/event.rs)\<close>

record agent_context =
  ac_agent_id :: string
  ac_user :: string

record memory_chunk =
  mc_source_id :: string
  mc_text :: string
  mc_score :: u32
  mc_estimated_tokens :: u32

datatype memory_kind = Episodic | Semantic | Working | Scratchpad

datatype memory_namespace = AgentNs string | TeamNs string | OrgNs string

record memory_item =
  mi_id :: string
  mi_kind :: memory_kind
  mi_namespace :: memory_namespace
  mi_payload :: json
  mi_timestamp_ms :: int
  mi_tags :: "string list"

text \<open>The events of a turn; the token counts of \<open>AgentTurn\<close> are kept as the usage they come from.\<close>

datatype ('u, 'f) event =
    ToolInvoked string u64 nat bool
  | ToolCallStreamed string string u64 u32
  | AgentTurn string 'u "'f option" nat

record ('w, 'y) tool_ref =
  rf_id :: string
  rf_name :: string
  rf_handle :: "('w, 'y ctx_body) callable"

text \<open>\<open>dyn_tool_to_callable\<close>: a tool as a callable with an empty call id (tool/src/strategies.rs).\<close>

definition dyn_tool_callable :: "('w, 'y) tool \<Rightarrow> ('w, 'y ctx_body) callable" where
  "dyn_tool_callable t =
     \<lparr>c_call = (\<lambda>input ctx w. tl_invoke t input \<lparr>ic_call = ctx, ic_tool_call_id = [], ic_raw_args = input\<rparr> w),
      c_label = tl_name t\<rparr>"

definition static_select :: "(string \<times> ('w, 'y) tool) list \<Rightarrow> ('w, 'y) tool_ref list" where
  "static_select tools =
     map (\<lambda>(i, t). \<lparr>rf_id = i, rf_name = tl_name t, rf_handle = dyn_tool_callable t\<rparr>) tools"

text \<open>A strategy: reads the context, may draw on its budget, acts on the world.\<close>

type_synonym ('w, 'r) strategy = "agent_context \<Rightarrow> token_budget \<Rightarrow> 'w \<Rightarrow> ('r result \<times> token_budget) \<times> 'w"

definition static_tools :: "(string \<times> ('w, 'y) tool) list \<Rightarrow> ('w, ('w, 'y) tool_ref list) strategy" where
  "static_tools tools ctx budget w = ((Inr (static_select tools), budget), w)"

text \<open>What three strategies on equal slices of a budget used of it, charged to the budget afterwards.\<close>

definition spent :: "token_budget \<Rightarrow> token_budget \<Rightarrow> u32" where
  "spent before after =
     (if tb_remaining after \<le> tb_remaining before then tb_remaining before - tb_remaining after else 0)"

definition charge :: "token_budget \<Rightarrow> u32 \<Rightarrow> token_budget" where
  "charge b n = (case tb_consume b (min n (tb_remaining b)) of Inr b' \<Rightarrow> b' | Inl _ \<Rightarrow> b)"

definition join3 ::
  "('w, 'a) strategy \<Rightarrow> ('w, 'b) strategy \<Rightarrow> ('w, 'd) strategy \<Rightarrow> agent_context \<Rightarrow> token_budget \<Rightarrow> 'w \<Rightarrow>
   (('a result \<times> 'b result \<times> 'd result) \<times> token_budget) \<times> 'w" where
  "join3 f g h ctx tokens w =
     (let subs = tb_split tokens 3; b0 = subs ! 0; b1 = subs ! 1; b2 = subs ! 2 in
      case f ctx b0 w of ((ra, c0), w1) \<Rightarrow>
      case g ctx b1 w1 of ((rb, c1), w2) \<Rightarrow>
      case h ctx b2 w2 of ((rc, c2), w3) \<Rightarrow>
        (((ra, rb, rc), charge tokens (spent b0 c0 + spent b1 c1 + spent b2 c2)), w3))"

subsection \<open>Instructions (instruction/src/lib.rs)\<close>

record rendered_instructions =
  ri_system_prompt :: string
  ri_estimated_tokens :: u32

record rendered_persona =
  rp_identity :: string
  rp_estimated_tokens :: u32

definition text_tokens :: "string \<Rightarrow> u32" where
  "text_tokens s = of_nat ((length s + 3) div 4)"

definition default_assembler ::
  "rendered_persona \<Rightarrow> string \<Rightarrow> string \<Rightarrow> token_budget \<Rightarrow> rendered_instructions result \<times> token_budget" where
  "default_assembler persona task behavior budget =
     (case assemble
        [\<lparr>fr_source = ''task'', fr_priority = 9, fr_estimated_tokens = text_tokens task, fr_text = task\<rparr>,
         \<lparr>fr_source = ''persona'', fr_priority = 6, fr_estimated_tokens = rp_estimated_tokens persona,
          fr_text = rp_identity persona\<rparr>,
         \<lparr>fr_source = ''behavior'', fr_priority = 4, fr_estimated_tokens = text_tokens behavior, fr_text = behavior\<rparr>]
        budget of
        (Inl e, b) \<Rightarrow> (Inl e, b)
      | (Inr r, b) \<Rightarrow>
          (Inr \<lparr>ri_system_prompt = rx_join r (nl @ nl), ri_estimated_tokens = rx_total_tokens r\<rparr>, b))"

definition composed_render ::
  "('w, rendered_persona) strategy \<Rightarrow> ('w, string) strategy \<Rightarrow> ('w, string) strategy \<Rightarrow>
   ('w, rendered_instructions) strategy" where
  "composed_render persona task behavior ctx budget w =
     (case join3 persona task behavior ctx budget w of
        ((rs, budget1), w1) \<Rightarrow>
          (case rs of
             (Inr p, Inr t, Inr b) \<Rightarrow>
               (default_assembler p t b budget1, w1)
           | (Inl e, _, _) \<Rightarrow> ((Inl e, budget), w1)
           | (Inr _, Inl e, _) \<Rightarrow> ((Inl e, budget), w1)
           | (Inr _, Inr _, Inl e) \<Rightarrow> ((Inl e, budget), w1)))"

definition static_text :: "'r \<Rightarrow> ('w, 'r) strategy" where
  "static_text t ctx budget w = ((Inr t, budget), w)"

subsection \<open>The turn (agent/src/pipeline.rs)\<close>

text \<open>
  What the turn takes from outside: the process-wide id counter, the clocks, the hasher, the JSON reader and
  printer, and the types of \<open>atomr_infer_core\<close>.
\<close>

record ('w, 'u, 's, 'f) agent_env =
  env_uuid :: "'w \<Rightarrow> string \<times> 'w"
  env_instant_ms :: "'w \<Rightarrow> nat"
  env_now_ms :: "'w \<Rightarrow> int"
  env_hash :: "json \<Rightarrow> u64"
  env_parse :: "string \<Rightarrow> string + json"
  env_print :: "json \<Rightarrow> string option"
  env_usage_default :: 'u
  env_usage_add :: "'u \<Rightarrow> 'u \<Rightarrow> 'u"
  env_sampling_default :: 's
  env_tool_calls :: 'f

record ('w, 'y, 'u, 's, 'c, 'f) agent =
  ag_id :: string
  ag_model :: string
  ag_instructions :: "('w, rendered_instructions) strategy"
  ag_tools :: "('w, ('w, 'y) tool_ref list) strategy"
  ag_retrieve :: "('w, memory_chunk list) strategy"
  ag_store :: "memory_item \<Rightarrow> 'w \<Rightarrow> unit result \<times> 'w"
  ag_skills :: "('w, string list) strategy"
  ag_inference :: "('s, 'c) exec_batch \<Rightarrow> 'w \<Rightarrow> ('u, 'f) turn_result result \<times> 'w"
  ag_max_tool_iterations :: u32

record agent_budgets =
  bd_tokens :: token_budget
  bd_time :: time_budget
  bd_money :: money_budget
  bd_iterations :: iteration_budget

record ('u, 'c, 'f) turn_state =
  st_messages :: "'c infer_msg list"
  st_text :: string
  st_usage :: 'u
  st_finish :: "'f option"
  st_calls :: "parsed_tool_call list"
  st_events :: "('u, 'f) event list"
  st_iterations :: iteration_budget

definition call_args :: "('w, 'u, 's, 'f) agent_env \<Rightarrow> parsed_tool_call \<Rightarrow> json" where
  "call_args env c = (case arguments_of (env_parse env) c of Inr v \<Rightarrow> v | Inl _ \<Rightarrow> Null)"

text \<open>The context a tool gets: the turn's budgets, a fresh trace, no extensions.\<close>

definition tool_ctx :: "string \<Rightarrow> agent_budgets \<Rightarrow> string \<Rightarrow> 'y ctx" where
  "tool_ctx agent_id bd name =
     \<lparr>cc_trace = [''tool:'' @ name],
      cc_rest = \<lparr>cb_agent_id = Some agent_id, cb_tokens = bd_tokens bd, cb_time = bd_time bd,
        cb_money = bd_money bd, cb_iterations = bd_iterations bd, cb_extensions = extensions_default\<rparr>\<rparr>"

text \<open>
  Dispatch: the calls are spawned in order; an unknown tool stops the spawning, but the tasks spawned
  before it run on. A spawned task yields its index, name, outcome, argument hash and elapsed time.
\<close>

type_synonym tool_task = "nat \<times> string \<times> json result \<times> u64 \<times> nat"

fun spawn_tools ::
  "('w, 'u, 's, 'f) agent_env \<Rightarrow> string \<Rightarrow> agent_budgets \<Rightarrow> ('w, 'y) tool_ref list \<Rightarrow> nat \<Rightarrow>
   parsed_tool_call list \<Rightarrow> 'w \<Rightarrow> tool_task list result \<times> 'w" where
  "spawn_tools env agent_id bd refs idx [] w = (Inr [], w)"
| "spawn_tools env agent_id bd refs idx (call # calls) w =
     (case find (\<lambda>t. rf_name t = ptc_name call) refs of
        None \<Rightarrow> (Inl (Tool (''unknown tool: '' @ ptc_name call)), w)
      | Some t \<Rightarrow>
          (let args = call_args env call in
           case c_call (rf_handle t) args (tool_ctx agent_id bd (ptc_name call)) w of
             (r, w1) \<Rightarrow>
               (case spawn_tools env agent_id bd refs (idx + 1) calls w1 of
                  (Inl e, w2) \<Rightarrow> (Inl e, w2)
                | (Inr ts, w2) \<Rightarrow>
                    (Inr ((idx, ptc_name call, r, env_hash env args, env_instant_ms env w1 - env_instant_ms env w) # ts), w2))))"

fun join_tools :: "tool_task list \<Rightarrow> (nat \<times> string \<times> json \<times> u64 \<times> nat) list result" where
  "join_tools [] = Inr []"
| "join_tools ((i, name, Inl e, h, ms) # ts) = Inl e"
| "join_tools ((i, name, Inr v, h, ms) # ts) = try_then (join_tools ts) (\<lambda>rs. Inr ((i, name, v, h, ms) # rs))"

definition text_msg :: "role \<Rightarrow> string \<Rightarrow> 'c infer_msg" where
  "text_msg r t = \<lparr>im_role = r, im_content = TextContent t\<rparr>"

definition tool_message :: "('w, 'u, 's, 'f) agent_env \<Rightarrow> json \<Rightarrow> 'c infer_msg" where
  "tool_message env v = text_msg ToolRole (case env_print env v of Some t \<Rightarrow> t | None \<Rightarrow> [])"

definition add_reply ::
  "('w, 'u, 's, 'f) agent_env \<Rightarrow> string \<Rightarrow> u32 \<Rightarrow> ('u, 'f) turn_result \<Rightarrow> ('u, 'c, 'f) turn_state \<Rightarrow> ('u, 'c, 'f) turn_state" where
  "add_reply env agent_id iter r s =
     s\<lparr>st_text := tr_text r,
       st_usage := env_usage_add env (st_usage s) (tr_usage r),
       st_finish := tr_finish_reason r,
       st_events := st_events s @
         map (\<lambda>c. ToolCallStreamed agent_id (ptc_name c) (env_hash env (call_args env c)) iter) (tr_tool_calls r),
       st_calls := st_calls s @ tr_tool_calls r\<rparr>"

definition add_results ::
  "('w, 'u, 's, 'f) agent_env \<Rightarrow> (nat \<times> string \<times> json \<times> u64 \<times> nat) list \<Rightarrow> ('u, 'c, 'f) turn_state \<Rightarrow> ('u, 'c, 'f) turn_state" where
  "add_results env results s =
     s\<lparr>st_events := st_events s @ map (\<lambda>(i, name, v, h, ms). ToolInvoked name h ms True) results,
       st_messages := st_messages s @ map (\<lambda>(i, name, v, h, ms). tool_message env v) results\<rparr>"

text \<open>One iteration of the tool-call loop; the flag says whether the loop goes on.\<close>

definition agent_round ::
  "('w, 'u, 's, 'f) agent_env \<Rightarrow> ('w, 'y, 'u, 's, 'c, 'f) agent \<Rightarrow> agent_budgets \<Rightarrow> ('w, 'y) tool_ref list \<Rightarrow>
   u32 \<Rightarrow> ('u, 'c, 'f) turn_state \<Rightarrow> 'w \<Rightarrow> (bool result \<times> ('u, 'c, 'f) turn_state) \<times> 'w" where
  "agent_round env a bd refs iter s w =
     (case consume_one (st_iterations s) of
        Inl e \<Rightarrow> ((Inl e, s), w)
      | Inr it \<Rightarrow>
          (case env_uuid env w of
             (u, w1) \<Rightarrow>
               (let s1 = s\<lparr>st_iterations := it\<rparr>;
                    batch = \<lparr>eb_request_id = ''turn-'' @ u, eb_model = ag_model a, eb_messages = st_messages s,
                             eb_sampling = env_sampling_default env, eb_stream = True,
                             eb_estimated_tokens = tb_remaining (bd_tokens bd)\<rparr> in
                case ag_inference a batch w1 of
                  (Inl e, w2) \<Rightarrow> ((Inl e, s1), w2)
                | (Inr r, w2) \<Rightarrow>
                    (let s2 = add_reply env (ag_id a) iter r s1 in
                     if tr_tool_calls r = [] \<or> tr_finish_reason r \<noteq> Some (env_tool_calls env)
                     then ((Inr False, s2), w2)
                     else
                       (let s3 = s2\<lparr>st_messages := st_messages s2 @ [text_msg Assistant (tr_text r)]\<rparr> in
                        case spawn_tools env (ag_id a) (bd\<lparr>bd_iterations := it\<rparr>) refs 0 (tr_tool_calls r) w2 of
                          (Inl e, w3) \<Rightarrow> ((Inl e, s3), w3)
                        | (Inr tasks, w3) \<Rightarrow>
                            (case join_tools tasks of
                               Inl e \<Rightarrow> ((Inl e, s3), w3)
                             | Inr rs \<Rightarrow> ((Inr True, add_results env (sort_key fst rs) s3), w3)))))))"

fun agent_loop ::
  "('w, 'u, 's, 'f) agent_env \<Rightarrow> ('w, 'y, 'u, 's, 'c, 'f) agent \<Rightarrow> agent_budgets \<Rightarrow> ('w, 'y) tool_ref list \<Rightarrow>
   nat \<Rightarrow> u32 \<Rightarrow> ('u, 'c, 'f) turn_state \<Rightarrow> 'w \<Rightarrow> (unit result \<times> ('u, 'c, 'f) turn_state) \<times> 'w" where
  "agent_loop env a bd refs 0 iter s w = ((Inr (), s), w)"
| "agent_loop env a bd refs (Suc n) iter s w =
     (case agent_round env a bd refs iter s w of
        ((Inl e, s1), w1) \<Rightarrow> ((Inl e, s1), w1)
      | ((Inr goes_on, s1), w1) \<Rightarrow>
          (if goes_on then agent_loop env a bd refs n (iter + 1) s1 w1 else ((Inr (), s1), w1)))"

text \<open>The prompt: the rendered instructions and the recalled memory, packed into what is left of the tokens.\<close>

definition prompt_fragments :: "rendered_instructions \<Rightarrow> memory_chunk list \<Rightarrow> fragment list" where
  "prompt_fragments ri mem =
     \<lparr>fr_source = ''system'', fr_priority = 9, fr_estimated_tokens = ri_estimated_tokens ri, fr_text = ri_system_prompt ri\<rparr> #
     map (\<lambda>c. \<lparr>fr_source = ''memory'', fr_priority = 5, fr_estimated_tokens = mc_estimated_tokens c, fr_text = mc_text c\<rparr>) mem"

text \<open>The steps before the loop: resolution, rendering, assembly.\<close>

definition prepare_turn ::
  "('w, 'y, 'u, 's, 'c, 'f) agent \<Rightarrow> string \<Rightarrow> token_budget \<Rightarrow> 'w \<Rightarrow>
   (rendered_context \<times> token_budget \<times> ('w, 'y) tool_ref list) result \<times> 'w" where
  "prepare_turn a user tokens w =
     (let ctx = \<lparr>ac_agent_id = ag_id a, ac_user = user\<rparr> in
      case join3 (ag_retrieve a) (ag_skills a) (ag_tools a) ctx tokens w of
        ((rs, tokens1), w1) \<Rightarrow>
          (case rs of
             (Inr mem, Inr sk, Inr refs) \<Rightarrow>
               (case ag_instructions a ctx (tb_split tokens1 2 ! 0) w1 of
                  ((Inl e, _), w2) \<Rightarrow> (Inl e, w2)
                | ((Inr ri, _), w2) \<Rightarrow>
                    (case assemble (prompt_fragments ri mem) (charge tokens1 (ri_estimated_tokens ri)) of
                       (Inl e, _) \<Rightarrow> (Inl e, w2)
                     | (Inr rx, tokens2) \<Rightarrow> (Inr (rx, tokens2, refs), w2)))
           | (Inl e, _, _) \<Rightarrow> (Inl e, w1)
           | (Inr _, Inl e, _) \<Rightarrow> (Inl e, w1)
           | (Inr _, Inr _, Inl e) \<Rightarrow> (Inl e, w1)))"

definition initial_state ::
  "('w, 'u, 's, 'f) agent_env \<Rightarrow> rendered_context \<Rightarrow> string \<Rightarrow> iteration_budget \<Rightarrow> ('u, 'c, 'f) turn_state" where
  "initial_state env rx user it =
     \<lparr>st_messages = [text_msg System (rx_join rx (nl @ nl)), text_msg User user],
      st_text = [], st_usage = env_usage_default env, st_finish = None, st_calls = [], st_events = [],
      st_iterations = it\<rparr>"

definition loop_bound :: "('w, 'y, 'u, 's, 'c, 'f) agent \<Rightarrow> nat" where
  "loop_bound a = unat (max (ag_max_tool_iterations a) 1)"

text \<open>The turn. The emitted events are returned beside the result, those of a failed turn too.\<close>

definition run_turn ::
  "('w, 'u, 's, 'f) agent_env \<Rightarrow> ('w, 'y, 'u, 's, 'c, 'f) agent \<Rightarrow> string \<Rightarrow> agent_budgets \<Rightarrow> 'w \<Rightarrow>
   (('u, 'f) turn_result result \<times> ('u, 'f) event list) \<times> 'w" where
  "run_turn env a user bd w =
     (case prepare_turn a user (bd_tokens bd) w of
        (Inl e, w1) \<Rightarrow> ((Inl e, []), w1)
      | (Inr (rx, tokens, refs), w1) \<Rightarrow>
          (case agent_loop env a (bd\<lparr>bd_tokens := tokens\<rparr>) refs (loop_bound a) 0
                  (initial_state env rx user (bd_iterations bd)) w1 of
             ((Inl e, s), w2) \<Rightarrow> ((Inl e, st_events s), w2)
           | ((Inr _, s), w2) \<Rightarrow>
               (case env_uuid env w2 of
                  (u, w3) \<Rightarrow>
                    (let item = \<lparr>mi_id = ''turn-'' @ u, mi_kind = Episodic, mi_namespace = AgentNs (ag_id a),
                                 mi_payload = obj_of [(''user'', String user), (''assistant'', String (st_text s))],
                                 mi_timestamp_ms = env_now_ms env w3, mi_tags = []\<rparr>;
                         w4 = snd (ag_store a item w3)
                     in ((Inr \<lparr>tr_text = st_text s, tr_usage = st_usage s, tr_finish_reason = st_finish s,
                               tr_tool_calls = st_calls s\<rparr>,
                          st_events s @ [AgentTurn (ag_id a) (st_usage s) (st_finish s)
                                           (env_instant_ms env w4 - env_instant_ms env w)]), w4)))))"

definition dispatch_turn ::
  "('w, 'u, 's, 'f) agent_env \<Rightarrow> ('w, 'y, 'u, 's, 'c, 'f) agent \<Rightarrow> string \<Rightarrow> 'y ctx \<Rightarrow> 'w \<Rightarrow>
   (('u, 'f) turn_result result \<times> ('u, 'f) event list) \<times> 'w" where
  "dispatch_turn env a user ctx w =
     run_turn env a user
       \<lparr>bd_tokens = cb_tokens (cc_rest ctx), bd_time = cb_time (cc_rest ctx), bd_money = cb_money (cc_rest ctx),
        bd_iterations = cb_iterations (cc_rest ctx)\<rparr> w"

subsection \<open>The agent as a callable (agent/src/trait.rs)\<close>

fun user_text :: "(json \<Rightarrow> string) \<Rightarrow> json \<Rightarrow> string" where
  "user_text print (String s) = s"
| "user_text print (Object m) = (case get_str (Object m) ''user'' of Some s \<Rightarrow> s | None \<Rightarrow> [])"
| "user_text print v = print v"

text \<open>\<open>counts\<close> reads the input and output tokens off the usage; the events go to the bus in the world.\<close>

definition agent_callable ::
  "('w, 'u, 's, 'f) agent_env \<Rightarrow> (json \<Rightarrow> string) \<Rightarrow> ('u \<Rightarrow> u32 \<times> u32) \<Rightarrow> (('u, 'f) event list \<Rightarrow> 'w \<Rightarrow> 'w) \<Rightarrow>
   ('w, 'y, 'u, 's, 'c, 'f) agent \<Rightarrow> ('w, 'y ctx_body) callable" where
  "agent_callable env print counts emit a =
     \<lparr>c_call = (\<lambda>input ctx w.
        case dispatch_turn env a (user_text print input) ctx w of
          ((Inl e, evs), w1) \<Rightarrow> (Inl e, emit evs w1)
        | ((Inr r, evs), w1) \<Rightarrow>
            (Inr (obj_of [(''text'', String (tr_text r)),
                          (''input_tokens'', Number (IntN (uint (fst (counts (tr_usage r)))))),
                          (''output_tokens'', Number (IntN (uint (snd (counts (tr_usage r))))))]),
             emit evs w1)),
      c_label = ag_id a\<rparr>"

subsection \<open>What a turn costs\<close>

text \<open>
  \<open>metered cnt env a\<close>: the counter \<open>cnt\<close> of the world counts the model calls of the agent. The model call adds
  one; ids, strategies, the memory store and the selected tools leave it alone.
\<close>

definition quiet_refs :: "('w \<Rightarrow> nat) \<Rightarrow> ('w, 'y) tool_ref list \<Rightarrow> bool" where
  "quiet_refs cnt refs \<longleftrightarrow> (\<forall>t\<in>set refs. \<forall>x c w. cnt (snd (c_call (rf_handle t) x c w)) = cnt w)"

definition metered :: "('w \<Rightarrow> nat) \<Rightarrow> ('w, 'u, 's, 'f) agent_env \<Rightarrow> ('w, 'y, 'u, 's, 'c, 'f) agent \<Rightarrow> bool" where
  "metered cnt env a \<longleftrightarrow>
     (\<forall>b w. cnt (snd (ag_inference a b w)) = Suc (cnt w)) \<and>
     (\<forall>w. cnt (snd (env_uuid env w)) = cnt w) \<and>
     (\<forall>i w. cnt (snd (ag_store a i w)) = cnt w) \<and>
     (\<forall>c b w. cnt (snd (ag_retrieve a c b w)) = cnt w) \<and>
     (\<forall>c b w. cnt (snd (ag_skills a c b w)) = cnt w) \<and>
     (\<forall>c b w. cnt (snd (ag_instructions a c b w)) = cnt w) \<and>
     (\<forall>c b w. cnt (snd (ag_tools a c b w)) = cnt w) \<and>
     (\<forall>c b w refs. fst (fst (ag_tools a c b w)) = Inr refs \<longrightarrow> quiet_refs cnt refs)"

lemma spawn_tools_quiet:
  "quiet_refs cnt refs \<Longrightarrow> cnt (snd (spawn_tools env i bd refs idx calls w)) = cnt w"
proof (induction env i bd refs idx calls w rule: spawn_tools.induct)
  case (2 env i bd refs idx call calls w)
  show ?case
  proof (cases "find (\<lambda>t. rf_name t = ptc_name call) refs")
    case (Some t)
    then have "t \<in> set refs" by (metis find_Some_iff nth_mem)
    then have "cnt (snd (c_call (rf_handle t) (call_args env call) (tool_ctx i bd (ptc_name call)) w)) = cnt w"
      using "2.prems" by (simp add: quiet_refs_def)
    moreover obtain r w1 where "c_call (rf_handle t) (call_args env call) (tool_ctx i bd (ptc_name call)) w = (r, w1)"
      by force
    ultimately show ?thesis
      using Some "2.IH" [OF Some] "2.prems" by (auto simp: Let_def split: prod.splits sum.splits)
  qed simp
qed simp

lemma agent_round_meter:
  assumes "metered cnt env a" and "quiet_refs cnt refs"
    and "agent_round env a bd refs iter s w = ((r, s1), w1)"
  shows "cnt w1 + unat (it_remaining (st_iterations s1)) = cnt w + unat (it_remaining (st_iterations s)) \<and>
     cnt w \<le> cnt w1 \<and> cnt w1 \<le> Suc (cnt w) \<and> (is_ok r \<longrightarrow> cnt w1 = Suc (cnt w))"
proof (cases "consume_one (st_iterations s)")
  case (Inl e)
  with assms(3) show ?thesis by (auto simp: agent_round_def)
next
  case (Inr it)
  let ?ok = "cnt w1 = Suc (cnt w) \<and> st_iterations s1 = it"
  have uuid: "cnt v' = cnt v" if "env_uuid env v = (u, v')" for u v v'
    using assms(1) that by (metis metered_def snd_conv)
  have inference: "cnt v' = Suc (cnt v)" if "ag_inference a b v = (q, v')" for b q v v'
    using assms(1) that by (metis metered_def snd_conv)
  have spawn: "cnt v' = cnt v" if "spawn_tools env i b refs k calls v = (q, v')" for i b k calls q v v'
    using spawn_tools_quiet [OF assms(2), of env i b k calls v] that by simp
  have ?ok
    using assms(3) Inr
    by (auto dest!: uuid inference spawn simp: agent_round_def add_reply_def add_results_def Let_def
        split: prod.splits sum.splits if_splits) 
  with consume_one_Inr [OF Inr] show ?thesis by simp
qed

lemma agent_loop_meter:
  assumes "metered cnt env a" and "quiet_refs cnt refs"
    and "agent_loop env a bd refs n iter s w = ((r, s1), w1)"
  shows "cnt w1 + unat (it_remaining (st_iterations s1)) = cnt w + unat (it_remaining (st_iterations s)) \<and>
     cnt w \<le> cnt w1 \<and> cnt w1 \<le> cnt w + n \<and> (is_ok r \<and> n > 0 \<longrightarrow> cnt w1 > cnt w)"
  using assms(3)
proof (induction n arbitrary: iter s w)
  case (Suc n)
  obtain q s' w' where round: "agent_round env a bd refs iter s w = ((q, s'), w')"
    by (metis prod.exhaust)
  note m = agent_round_meter [OF assms(1,2) round]
  show ?case
  proof (cases q)
    case (Inl e)
    with Suc.prems round m show ?thesis by auto
  next
    case (Inr goes_on)
    show ?thesis
    proof (cases goes_on)
      case True
      then have "agent_loop env a bd refs n (iter + 1) s' w' = ((r, s1), w1)"
        using Suc.prems round Inr by simp
      from Suc.IH [OF this] m Inr show ?thesis by auto
    next
      case False
      with Suc.prems round Inr m show ?thesis by auto
    qed
  qed
qed auto

lemma join3_meter:
  assumes "\<And>c b w. cnt (snd (f c b w)) = cnt w" and "\<And>c b w. cnt (snd (g c b w)) = cnt w"
    and "\<And>c b w. cnt (snd (h c b w)) = cnt w"
  shows "cnt (snd (join3 f g h ctx t w)) = cnt w"
  using assms by (auto simp: join3_def Let_def split: prod.splits) (metis snd_conv)

lemma prepare_turn_meter:
  assumes "metered cnt env a" and "prepare_turn a user t w = (r, w1)"
  shows "cnt w1 = cnt w \<and> (\<forall>rx t' refs. r = Inr (rx, t', refs) \<longrightarrow> quiet_refs cnt refs)"
proof -
  let ?c = "\<lparr>ac_agent_id = ag_id a, ac_user = user\<rparr>"
  obtain ra rb rc t1 w0 where j: "join3 (ag_retrieve a) (ag_skills a) (ag_tools a) ?c t w = (((ra, rb, rc), t1), w0)"
    by (metis prod.exhaust)
  then have quiet: "cnt w0 = cnt w"
    using join3_meter [of cnt "ag_retrieve a" "ag_skills a" "ag_tools a" ?c t w] assms(1) by (simp add: metered_def)
  have "\<exists>b v. fst (fst (ag_tools a ?c b v)) = rc"
    using j by (auto simp: join3_def Let_def split: prod.splits) (metis fst_conv)
  then have refs: "quiet_refs cnt refs" if "rc = Inr refs" for refs
    using assms(1) that unfolding metered_def by blast
  have instr: "cnt (snd (ag_instructions a c b w)) = cnt w" for c b w
    using assms(1) by (simp add: metered_def)
  show ?thesis
    using assms(2) j quiet refs instr
    by (auto simp: prepare_turn_def Let_def split: prod.splits sum.splits) (metis snd_conv)+
qed

lemma loop_bound_pos: "loop_bound a > 0"
  by (auto simp: loop_bound_def max_def unat_gt_0)

text \<open>
  (C5) A turn is bounded: it always ends, after at most as many model calls as the tool-iteration limit of the
  agent and as the iteration budget of the caller allow, and a turn that ends well has called the model.
\<close>

theorem turn_model_calls_bounded:
  assumes "metered cnt env a"
  shows "cnt (snd (run_turn env a user bd w)) \<le> cnt w + min (loop_bound a) (unat (it_remaining (bd_iterations bd))) \<and>
     (is_ok (fst (fst (run_turn env a user bd w))) \<longrightarrow> cnt w < cnt (snd (run_turn env a user bd w)))"
proof -
  obtain p w1 where p: "prepare_turn a user (bd_tokens bd) w = (p, w1)" by force
  note quiet = prepare_turn_meter [OF assms p]
  show ?thesis
  proof (cases p)
    case (Inl e)
    with p quiet show ?thesis by (simp add: run_turn_def)
  next
    case (Inr q)
    obtain rx tk refs where q: "q = (rx, tk, refs)" by (metis prod.exhaust)
    obtain r s w2 where l: "agent_loop env a (bd\<lparr>bd_tokens := tk\<rparr>) refs (loop_bound a) 0
        (initial_state env rx user (bd_iterations bd)) w1 = ((r, s), w2)" by (metis prod.exhaust)
    have "quiet_refs cnt refs" using quiet Inr q by blast
    note m = agent_loop_meter [OF assms this l]
    have later: "cnt (snd (ag_store a i (snd (env_uuid env w2)))) = cnt w2" for i
      using assms by (simp add: metered_def)
    then have "cnt (snd (run_turn env a user bd w)) = cnt w2"
      using p Inr q l by (auto simp: run_turn_def Let_def split: sum.splits prod.splits)
    moreover have "is_ok (fst (fst (run_turn env a user bd w))) \<longleftrightarrow> is_ok r"
      using p Inr q l by (auto simp: run_turn_def Let_def split: sum.splits prod.splits)
    ultimately show ?thesis
      using m quiet loop_bound_pos [of a] by (auto simp: initial_state_def)
  qed
qed

subsection \<open>The system prompt is charged twice\<close>

lemma charge_remaining: "unat (tb_remaining (charge b n)) = unat (tb_remaining b) - unat n"
proof -
  have "\<not> tb_remaining b < min n (tb_remaining b)" by (simp add: not_less)
  then show ?thesis
    by (cases "n \<le> tb_remaining b") (simp_all add: charge_def tb_consume_def min_def unat_sub_le word_le_nat_alt)
qed

lemma prompt_fragments_nth:
  "i < length (prompt_fragments ri mem) \<Longrightarrow> fr_source (prompt_fragments ri mem ! i) = ''system'' \<longleftrightarrow> i = 0"
  by (cases i) (simp_all add: prompt_fragments_def)

lemma first_in_nths: "0 \<in> I \<Longrightarrow> xs \<noteq> [] \<Longrightarrow> xs ! 0 \<in> set (nths xs I)"
  by (auto simp: set_nths)

lemma prompt_fragments_first: "cost (prompt_fragments ri mem ! 0) = unat (ri_estimated_tokens ri)"
  by (simp add: prompt_fragments_def cost_def)

lemma system_outranked: "\<not> (j < length (prompt_fragments ri mem) \<and> outranks (prompt_fragments ri mem) j 0)"
  by (cases j) (auto simp: prompt_fragments_def outranks_def)

lemma assemble_prompt_fragments:
  "\<exists>rx b'. assemble (prompt_fragments ri mem) b = (Inr rx, b') \<and>
     (''system'' \<in> fr_source ` set (rx_fragments rx) \<longleftrightarrow> unat (ri_estimated_tokens ri) \<le> unat (tb_remaining b))"
proof -
  let ?fs = "prompt_fragments ri mem"
  from assemble_spec [of ?fs b] obtain I t where
    run: "assemble ?fs b = (Inr \<lparr>rx_fragments = nths ?fs I, rx_total_tokens = t\<rparr>, b\<lparr>tb_remaining := tb_remaining b - t\<rparr>)"
    and I: "I \<subseteq> {..<length ?fs}" and t: "unat t = sum_list (map cost (nths ?fs I))" "t \<le> tb_remaining b"
    and dropped: "\<forall>i < length ?fs. i \<notin> I \<longrightarrow>
        (\<Sum>j | j \<in> I \<and> outranks ?fs j i. cost (?fs ! j)) + cost (?fs ! i) > unat (tb_remaining b)"
    by blast
  have "''system'' \<in> fr_source ` set (nths ?fs I) \<longleftrightarrow> 0 \<in> I"
  proof
    assume "''system'' \<in> fr_source ` set (nths ?fs I)"
    then obtain i where "i < length ?fs" "i \<in> I" "fr_source (?fs ! i) = ''system''" by (auto simp: set_nths)
    then show "0 \<in> I" using prompt_fragments_nth by metis
  next
    assume "0 \<in> I"
    then have "?fs ! 0 \<in> set (nths ?fs I)" by (rule first_in_nths) (simp add: prompt_fragments_def)
    moreover have "fr_source (?fs ! 0) = ''system''" by (simp add: prompt_fragments_def)
    ultimately show "''system'' \<in> fr_source ` set (nths ?fs I)" by (metis image_eqI)
  qed
  moreover have "0 \<in> I \<longleftrightarrow> unat (ri_estimated_tokens ri) \<le> unat (tb_remaining b)"
  proof
    assume "0 \<in> I"
    then have "?fs ! 0 \<in> set (nths ?fs I)" by (rule first_in_nths) (simp add: prompt_fragments_def)
    then have "cost (?fs ! 0) \<le> unat t" by (simp add: t(1) member_le_sum_list)
    with t(2) show "unat (ri_estimated_tokens ri) \<le> unat (tb_remaining b)"
      by (simp add: prompt_fragments_first word_le_nat_alt)
  next
    assume le: "unat (ri_estimated_tokens ri) \<le> unat (tb_remaining b)"
    have none: "{j. j \<in> I \<and> outranks ?fs j 0} = {}" using I system_outranked by blast
    show "0 \<in> I"
    proof (rule ccontr)
      assume "0 \<notin> I"
      moreover have "0 < length ?fs" by (simp add: prompt_fragments_def)
      ultimately have "(\<Sum>j | j \<in> I \<and> outranks ?fs j 0. cost (?fs ! j)) + cost (?fs ! 0) > unat (tb_remaining b)"
        using dropped by blast
      with le show False by (simp only: none sum.empty prompt_fragments_first)
    qed
  qed
  ultimately show ?thesis using run by auto
qed

text \<open>
  Rendering charges the system prompt to the token budget and assembling the context charges it again, so
  the instructions reach the model exactly when twice their estimate fits in the tokens that resolution left;
  otherwise the turn goes on without them.
\<close>

theorem system_prompt_needs_twice_its_size:
  assumes "join3 (ag_retrieve a) (ag_skills a) (ag_tools a) \<lparr>ac_agent_id = ag_id a, ac_user = user\<rparr> tokens w =
      (((Inr mem, Inr sk, Inr refs), left_over), w1)"
    and "ag_instructions a \<lparr>ac_agent_id = ag_id a, ac_user = user\<rparr> (tb_split left_over 2 ! 0) w1 = ((Inr ri, rest), w2)"
  shows "\<exists>rx tokens'. prepare_turn a user tokens w = (Inr (rx, tokens', refs), w2) \<and>
     (''system'' \<in> fr_source ` set (rx_fragments rx) \<longleftrightarrow>
        2 * unat (ri_estimated_tokens ri) \<le> unat (tb_remaining left_over))"
proof -
  obtain rx b' where rx: "assemble (prompt_fragments ri mem) (charge left_over (ri_estimated_tokens ri)) = (Inr rx, b')"
    "''system'' \<in> fr_source ` set (rx_fragments rx) \<longleftrightarrow>
      unat (ri_estimated_tokens ri) \<le> unat (tb_remaining (charge left_over (ri_estimated_tokens ri)))"
    using assemble_prompt_fragments by blast
  have "prepare_turn a user tokens w = (Inr (rx, b', refs), w2)"
    using assms rx(1) by (simp add: prepare_turn_def)
  moreover have "n \<le> m - n \<longleftrightarrow> 2 * n \<le> m" if "n > 0 \<or> m \<ge> n" for n m :: nat
    using that by auto
  ultimately show ?thesis
    using rx(2) by (cases "unat (ri_estimated_tokens ri) = 0") (auto simp: charge_remaining)
qed

subsection \<open>Walled tools are out of reach\<close>

text \<open>The context of a tool call has no clearance, so a wall refuses it before anything else happens.\<close>

lemma wall_in_turn:
  "c_call (dyn_tool_callable (walled_tool t need mandate)) args (tool_ctx i bd name) w =
     (Inl (sec_err (AccessDenied (''tool '' @ [CHR 0x27] @ tl_name t @ [CHR 0x27] @
        '' requires a clearance context, none attached''))), w)"
  by (simp add: dyn_tool_callable_def walled_tool_def tool_ctx_def clearance_of_def extensions_default_def)

lemma walled_tool_name [simp]: "tl_name (walled_tool t need mandate) = tl_name t"
  by (simp add: walled_tool_def)

definition same_in_turn :: "('w, 'y) tool_ref list \<Rightarrow> ('w, 'y) tool_ref list \<Rightarrow> bool" where
  "same_in_turn refs refs' \<longleftrightarrow>
     list_all2 (\<lambda>t t'. rf_name t = rf_name t' \<and>
       (\<forall>args i bd name w. c_call (rf_handle t) args (tool_ctx i bd name) w = c_call (rf_handle t') args (tool_ctx i bd name) w))
     refs refs'"

lemma same_in_turn_find:
  "same_in_turn refs refs' \<Longrightarrow>
   rel_option (\<lambda>t t'. \<forall>args i bd name w. c_call (rf_handle t) args (tool_ctx i bd name) w = c_call (rf_handle t') args (tool_ctx i bd name) w)
     (find (\<lambda>t. rf_name t = n) refs) (find (\<lambda>t. rf_name t = n) refs')"
  unfolding same_in_turn_def by (induction rule: list_all2_induct) auto

lemma spawn_tools_cong:
  "same_in_turn refs refs' \<Longrightarrow> spawn_tools env i bd refs idx calls w = spawn_tools env i bd refs' idx calls w"
proof (induction env i bd refs idx calls w rule: spawn_tools.induct)
  case (2 env i bd refs idx call calls w)
  note found = same_in_turn_find [OF "2.prems", of "ptc_name call"]
  show ?case
  proof (cases "find (\<lambda>t. rf_name t = ptc_name call) refs")
    case None
    with found show ?thesis by simp
  next
    case (Some t)
    with found obtain t' where t': "find (\<lambda>t. rf_name t = ptc_name call) refs' = Some t'"
      "\<forall>args i bd name w. c_call (rf_handle t) args (tool_ctx i bd name) w = c_call (rf_handle t') args (tool_ctx i bd name) w"
      by (auto simp: option_rel_Some1)
    show ?thesis
      using Some t' "2.IH" [OF Some refl _ "2.prems"] by (simp add: Let_def split: prod.split)
  qed
qed simp

lemma agent_loop_cong:
  assumes "same_in_turn refs refs'" and "ag_id a' = ag_id a" and "ag_model a' = ag_model a"
    and "ag_inference a' = ag_inference a"
  shows "agent_loop env a bd refs n iter s w = agent_loop env a' bd refs' n iter s w"
proof -
  have "agent_round env a bd refs iter s w = agent_round env a' bd refs' iter s w" for iter s w
    by (simp add: agent_round_def assms(2-4) spawn_tools_cong [OF assms(1)] Let_def cong: sum.case_cong prod.case_cong if_cong)
  then show ?thesis by (induction n arbitrary: iter s w) (simp_all split: prod.splits sum.splits)
qed

lemma run_turn_tools_cong:
  assumes "same_in_turn refs refs'"
  shows "run_turn env (a\<lparr>ag_tools := \<lambda>c b w. ((Inr refs, b), w)\<rparr>) user bd w =
         run_turn env (a\<lparr>ag_tools := \<lambda>c b w. ((Inr refs', b), w)\<rparr>) user bd w"
proof -
  let ?t = "\<lambda>refs c b w. ((Inr refs, b), w)"
  let ?a = "\<lambda>refs. a\<lparr>ag_tools := ?t refs\<rparr>"
  let ?c = "\<lparr>ac_agent_id = ag_id a, ac_user = user\<rparr>"
  obtain ra rb rc t1 w1 where j: "join3 (ag_retrieve a) (ag_skills a) (?t refs) ?c (bd_tokens bd) w = (((ra, rb, rc), t1), w1)"
    by (metis prod.exhaust)
  then have rc: "rc = Inr refs"
    and j': "join3 (ag_retrieve a) (ag_skills a) (?t refs') ?c (bd_tokens bd) w = (((ra, rb, Inr refs'), t1), w1)"
    by (auto simp: join3_def Let_def split: prod.splits)
  have loop: "agent_loop env (?a refs) bd' refs n iter s v = agent_loop env (?a refs') bd' refs' n iter s v"
    for bd' n iter s v
    by (rule agent_loop_cong [OF assms]) simp_all
  have bound: "loop_bound (?a refs) = loop_bound (?a refs')" by (simp add: loop_bound_def)
  show ?thesis
  proof (cases "prepare_turn (?a refs) user (bd_tokens bd) w")
    case (Pair p v)
    show ?thesis
    proof (cases p)
      case (Inl e)
      then have "prepare_turn (?a refs') user (bd_tokens bd) w = (Inl e, v)"
        using Pair j j' rc by (auto simp: prepare_turn_def Let_def split: sum.splits prod.splits)
      with Pair Inl show ?thesis by (simp add: run_turn_def)
    next
      case (Inr q)
      then obtain rx tk where q: "q = (rx, tk, refs)"
        and "prepare_turn (?a refs') user (bd_tokens bd) w = (Inr (rx, tk, refs'), v)"
        using Pair j j' rc by (auto simp: prepare_turn_def Let_def split: sum.splits prod.splits)
      with Pair Inr show ?thesis
        unfolding run_turn_def by (simp add: loop bound Let_def cong: sum.case_cong prod.case_cong)
    qed
  qed
qed

text \<open>
  An agent turn drops the caller's clearance, so a tool behind an information wall cannot be reached from a
  turn at all: whatever clearance the caller attaches, the turn has the same result, events and effects as without
  it and as with any other body in the place of the walled tools.
\<close>

theorem walled_tools_unreachable:
  "dispatch_turn env
     (a\<lparr>ag_tools := static_tools (open_tools @ map (\<lambda>(i, t, need, m). (i, walled_tool t need m)) walled)\<rparr>)
     user (insert_clearance ctx cl) w =
   dispatch_turn env
     (a\<lparr>ag_tools := static_tools (open_tools @ map (\<lambda>(i, t, need, m). (i, walled_tool (t\<lparr>tl_invoke := other\<rparr>) need m)) walled)\<rparr>)
     user ctx w"
proof -
  let ?refs = "static_select (open_tools @ map (\<lambda>(i, t, need, m). (i, walled_tool t need m)) walled)"
  let ?refs' = "static_select (open_tools @ map (\<lambda>(i, t, need, m). (i, walled_tool (t\<lparr>tl_invoke := other\<rparr>) need m)) walled)"
  have "same_in_turn ?refs ?refs'"
    unfolding same_in_turn_def static_select_def map_append
    by (rule list_all2_appendI) (auto simp: list_all2_map1 list_all2_map2 list_all2_same wall_in_turn)
  then show ?thesis
    unfolding dispatch_turn_def static_tools_def [abs_def]
    using run_turn_tools_cong [of ?refs ?refs'] by (simp add: insert_clearance_def)
qed

subsection \<open>The tool-call loop on a scripted model\<close>

text \<open>
  The world of a scripted model: the replies still to come, and the message lists of the batches it got. The
  tools are total functions of their arguments.
\<close>

type_synonym ('u, 'c, 'f) script_world = "('u, 'f) turn_result list \<times> 'c infer_msg list list"

definition scripted_model ::
  "(('u, 'c, 'f) script_world, 'u, 's, 'f) agent_env \<Rightarrow> (('u, 'c, 'f) script_world, 'y, 'u, 's, 'c, 'f) agent \<Rightarrow> bool" where
  "scripted_model env a \<longleftrightarrow>
     (\<forall>w. snd (env_uuid env w) = w) \<and> (\<forall>i w. snd (ag_store a i w) = w) \<and>
     (\<forall>b r rs sent. ag_inference a b (r # rs, sent) = (Inr r, (rs, sent @ [eb_messages b])))"

definition pure_refs :: "('w, 'y) tool_ref list \<Rightarrow> (string \<Rightarrow> (json \<Rightarrow> json) option) \<Rightarrow> bool" where
  "pure_refs refs tf \<longleftrightarrow>
     (\<forall>n. case tf n of
            None \<Rightarrow> True
          | Some f \<Rightarrow> \<exists>t. find (\<lambda>t. rf_name t = n) refs = Some t \<and> (\<forall>x c w. c_call (rf_handle t) x c w = (Inr (f x), w)))"

definition asks :: "('w, 'u, 's, 'f) agent_env \<Rightarrow> (string \<Rightarrow> (json \<Rightarrow> json) option) \<Rightarrow> ('u, 'f) turn_result \<Rightarrow> bool" where
  "asks env tf r \<longleftrightarrow> tr_tool_calls r \<noteq> [] \<and> tr_finish_reason r = Some (env_tool_calls env) \<and>
     list_all (\<lambda>c. tf (ptc_name c) \<noteq> None) (tr_tool_calls r)"

definition final :: "('w, 'u, 's, 'f) agent_env \<Rightarrow> ('u, 'f) turn_result \<Rightarrow> bool" where
  "final env r \<longleftrightarrow> tr_tool_calls r = [] \<or> tr_finish_reason r \<noteq> Some (env_tool_calls env)"

definition answer :: "('w, 'u, 's, 'f) agent_env \<Rightarrow> (string \<Rightarrow> (json \<Rightarrow> json) option) \<Rightarrow> parsed_tool_call \<Rightarrow> json" where
  "answer env tf c = the (tf (ptc_name c)) (call_args env c)"

text \<open>What a round adds to the history: the assistant's text and the answers of the tools, in order.\<close>

definition exchange ::
  "('w, 'u, 's, 'f) agent_env \<Rightarrow> (string \<Rightarrow> (json \<Rightarrow> json) option) \<Rightarrow> ('u, 'f) turn_result \<Rightarrow> 'c infer_msg list" where
  "exchange env tf r =
     text_msg Assistant (tr_text r) # map (\<lambda>c. tool_message env (answer env tf c)) (tr_tool_calls r)"

fun sent_batches ::
  "('w, 'u, 's, 'f) agent_env \<Rightarrow> (string \<Rightarrow> (json \<Rightarrow> json) option) \<Rightarrow> 'c infer_msg list \<Rightarrow> ('u, 'f) turn_result list \<Rightarrow>
   'c infer_msg list list" where
  "sent_batches env tf msgs [] = []"
| "sent_batches env tf msgs (r # rs) = msgs # sent_batches env tf (msgs @ exchange env tf r) rs"

lemma sent_batches_snoc:
  "sent_batches env tf m (qs @ [q]) = sent_batches env tf m qs @ [m @ concat (map (exchange env tf) qs)]"
  by (induction qs arbitrary: m) (simp_all add: append_assoc [symmetric] del: append_assoc)

lemma pure_refsD:
  "pure_refs refs tf \<Longrightarrow> tf n = Some f \<Longrightarrow>
   \<exists>t. find (\<lambda>t. rf_name t = n) refs = Some t \<and> (\<forall>x c w. c_call (rf_handle t) x c w = (Inr (f x), w))"
  unfolding pure_refs_def by (drule spec [of _ n]) simp

lemma spawn_tools_pure:
  assumes "pure_refs refs tf" and "list_all (\<lambda>c. tf (ptc_name c) \<noteq> None) calls"
  shows "spawn_tools env i bd refs k calls w =
     (Inr (map (\<lambda>(j, c). (j, ptc_name c, Inr (answer env tf c), env_hash env (call_args env c), 0)) (enumerate k calls)), w)"
  using assms(2)
proof (induction calls arbitrary: k)
  case (Cons c calls)
  then obtain f where f: "tf (ptc_name c) = Some f" by auto
  from pure_refsD [OF assms(1) this] obtain t where "find (\<lambda>t. rf_name t = ptc_name c) refs = Some t"
    "\<forall>x c w. c_call (rf_handle t) x c w = (Inr (f x), w)" by blast
  with Cons f show ?case by (simp add: answer_def Let_def)
qed simp

lemma join_tools_pure:
  "join_tools (map (\<lambda>(j, c). (j, n c, Inr (g c), h c, 0)) xs) = Inr (map (\<lambda>(j, c). (j, n c, g c, h c, 0)) xs)"
  by (induction xs) auto

lemma map_enumerate_snd: "map (\<lambda>(j, c). g c) (enumerate k xs) = map g xs"
  by (induction xs arbitrary: k) simp_all

lemma sorted_enumerate_key: "sort_key fst (map (\<lambda>(j, c). (j, f c)) (enumerate k xs)) = map (\<lambda>(j, c). (j, f c)) (enumerate k xs)"
proof (rule sort_key_id)
  have "map fst (map (\<lambda>(j, c). (j, f c)) (enumerate k xs)) = map fst (enumerate k xs)"
    by (simp add: split_def comp_def)
  then show "sorted (map fst (map (\<lambda>(j, c). (j, f c)) (enumerate k xs)))" by simp
qed

lemma agent_round_asks:
  assumes "scripted_model env a" and "pure_refs refs tf" and "asks env tf r" and "consume_one (st_iterations s) = Inr it"
  shows "\<exists>s'. agent_round env a bd refs iter s (r # rs, sent) = ((Inr True, s'), (rs, sent @ [st_messages s])) \<and>
     st_messages s' = st_messages s @ exchange env tf r \<and> st_iterations s' = it \<and> st_text s' = tr_text r \<and>
     st_usage s' = env_usage_add env (st_usage s) (tr_usage r) \<and> st_finish s' = tr_finish_reason r \<and>
     st_calls s' = st_calls s @ tr_tool_calls r"
proof -
  obtain u where u: "env_uuid env (r # rs, sent) = (u, (r # rs, sent))"
    using assms(1) unfolding scripted_model_def by (metis prod.collapse)
  have inference: "ag_inference a b (r # rs, sent) = (Inr r, (rs, sent @ [eb_messages b]))" for b
    using assms(1) by (simp add: scripted_model_def)
  have calls: "list_all (\<lambda>c. tf (ptc_name c) \<noteq> None) (tr_tool_calls r)" "tr_tool_calls r \<noteq> []"
    "tr_finish_reason r = Some (env_tool_calls env)" using assms(3) by (simp_all add: asks_def)
  let ?rs = "map (\<lambda>(j, c). (j, ptc_name c, answer env tf c, env_hash env (call_args env c), 0)) (enumerate 0 (tr_tool_calls r))"
  have sorted: "sort_key fst ?rs = ?rs"
    by (rule sorted_enumerate_key [where f = "\<lambda>c. (ptc_name c, answer env tf c, env_hash env (call_args env c), 0)"])
  have msgs: "map (\<lambda>(i, name, v, h, ms). tool_message env v) ?rs = map (\<lambda>c. tool_message env (answer env tf c)) (tr_tool_calls r)"
    using map_enumerate_snd [of "\<lambda>c. tool_message env (answer env tf c)" 0 "tr_tool_calls r"]
    by (simp add: comp_def split_def)
  show ?thesis
    unfolding agent_round_def assms(4) sum.case u prod.case inference Let_def
      spawn_tools_pure [OF assms(2) calls(1)] join_tools_pure sorted add_results_def msgs
    using calls(2,3) by (simp add: add_reply_def exchange_def)
qed

lemma agent_loop_asks:
  assumes "scripted_model env a" and "pure_refs refs tf" and "list_all (asks env tf) rs"
    and "length rs \<le> unat (it_remaining (st_iterations s))"
  shows "\<exists>s'. agent_loop env a bd refs (length rs + n) iter s (rs @ rest, sent) =
       agent_loop env a bd refs n (iter + of_nat (length rs)) s' (rest, sent @ sent_batches env tf (st_messages s) rs) \<and>
     st_messages s' = st_messages s @ concat (map (exchange env tf) rs) \<and>
     unat (it_remaining (st_iterations s')) + length rs = unat (it_remaining (st_iterations s)) \<and>
     st_usage s' = foldl (env_usage_add env) (st_usage s) (map tr_usage rs) \<and>
     st_calls s' = st_calls s @ concat (map tr_tool_calls rs) \<and>
     st_text s' = (if rs = [] then st_text s else tr_text (List.last rs)) \<and>
     st_finish s' = (if rs = [] then st_finish s else tr_finish_reason (List.last rs))"
  using assms(3,4)
proof (induction rs arbitrary: iter s sent)
  case Nil
  then show ?case by (intro exI [of _ s]) simp
next
  case (Cons r rs)
  from Cons.prems(2) obtain it where it: "consume_one (st_iterations s) = Inr it"
    by (cases "it_remaining (st_iterations s) = 0") (simp_all add: consume_one_def)
  note less = consume_one_Inr [OF it]
  from Cons.prems(1) have "asks env tf r" by simp
  from agent_round_asks [OF assms(1,2) this it, of bd iter "rs @ rest" sent] obtain s1 where
    round: "agent_round env a bd refs iter s (r # rs @ rest, sent) = ((Inr True, s1), (rs @ rest, sent @ [st_messages s]))"
    and s1: "st_messages s1 = st_messages s @ exchange env tf r" "st_iterations s1 = it" "st_text s1 = tr_text r"
      "st_usage s1 = env_usage_add env (st_usage s) (tr_usage r)" "st_finish s1 = tr_finish_reason r"
      "st_calls s1 = st_calls s @ tr_tool_calls r"
    by blast
  have "length rs \<le> unat (it_remaining (st_iterations s1))" using Cons.prems(2) less s1(2) by simp
  from Cons.IH [OF _ this, of "iter + 1" "sent @ [st_messages s]"] Cons.prems(1) obtain s' where
    s': "agent_loop env a bd refs (length rs + n) (iter + 1) s1 (rs @ rest, sent @ [st_messages s]) =
       agent_loop env a bd refs n (iter + 1 + of_nat (length rs)) s'
         (rest, (sent @ [st_messages s]) @ sent_batches env tf (st_messages s1) rs)"
     "st_messages s' = st_messages s1 @ concat (map (exchange env tf) rs)"
     "unat (it_remaining (st_iterations s')) + length rs = unat (it_remaining (st_iterations s1))"
     "st_usage s' = foldl (env_usage_add env) (st_usage s1) (map tr_usage rs)"
     "st_calls s' = st_calls s1 @ concat (map tr_tool_calls rs)"
     "st_text s' = (if rs = [] then st_text s1 else tr_text (List.last rs))"
     "st_finish s' = (if rs = [] then st_finish s1 else tr_finish_reason (List.last rs))"
    by auto
  have "agent_loop env a bd refs (length (r # rs) + n) iter s ((r # rs) @ rest, sent) =
      agent_loop env a bd refs n (iter + of_nat (length (r # rs))) s'
        (rest, sent @ sent_batches env tf (st_messages s) (r # rs))"
    using round s'(1) s1(1) by (simp add: add.assoc)
  moreover have "unat (it_remaining (st_iterations s')) + length (r # rs) = unat (it_remaining (st_iterations s))"
    using s'(3) s1(2) less by simp
  ultimately show ?case using s'(2,4-7) s1 by (intro exI [of _ s']) simp
qed

lemma agent_round_final:
  assumes "scripted_model env a" and "final env r" and "it_remaining (st_iterations s) \<noteq> 0"
  shows "\<exists>s'. agent_round env a bd refs iter s (r # rs, sent) = ((Inr False, s'), (rs, sent @ [st_messages s])) \<and>
     st_text s' = tr_text r \<and> st_usage s' = env_usage_add env (st_usage s) (tr_usage r) \<and>
     st_finish s' = tr_finish_reason r \<and> st_calls s' = st_calls s @ tr_tool_calls r"
proof -
  obtain u where u: "env_uuid env (r # rs, sent) = (u, (r # rs, sent))"
    using assms(1) unfolding scripted_model_def by (metis prod.collapse)
  have inference: "ag_inference a b (r # rs, sent) = (Inr r, (rs, sent @ [eb_messages b]))" for b
    using assms(1) by (simp add: scripted_model_def)
  show ?thesis
    using assms(2,3) by (auto simp: agent_round_def consume_one_def u inference Let_def final_def add_reply_def)
qed

lemma run_turn_after_loop:
  assumes "scripted_model env a" and "prepare_turn a user (bd_tokens bd) w = (Inr (rx, tk, refs), w1)"
    and "agent_loop env a (bd\<lparr>bd_tokens := tk\<rparr>) refs (loop_bound a) 0 (initial_state env rx user (bd_iterations bd)) w1
       = ((Inr (), s), w2)"
  shows "\<exists>evs. run_turn env a user bd w =
     ((Inr \<lparr>tr_text = st_text s, tr_usage = st_usage s, tr_finish_reason = st_finish s, tr_tool_calls = st_calls s\<rparr>, evs), w2)"
proof -
  have "snd (env_uuid env w2) = w2" "\<And>i. snd (ag_store a i w2) = w2"
    using assms(1) unfolding scripted_model_def by blast+
  then show ?thesis
    using assms(2,3) by (auto simp: run_turn_def Let_def split: prod.splits)
qed

text \<open>
  (C6) The tool-call loop: while the model asks for known tools, each of its requests is answered by every tool
  once and the answers are appended to the history behind the request, in the order of the calls, and sent back;
  the first reply that does not ask ends the turn with its text and finish reason, the summed usage and all
  calls. The replies behind it are never requested.
\<close>

theorem turn_feeds_results_back:
  fixes a :: "(('u, 'c, 'f) script_world, 'y, 'u, 's, 'c, 'f) agent"
  assumes "scripted_model env a" and "pure_refs refs tf"
    and "prepare_turn a user (bd_tokens bd) w = (Inr (rx, tk, refs), (rs @ r # rest, []))"
    and "list_all (asks env tf) rs" and "final env r"
    and "length rs < loop_bound a" and "length rs < unat (it_remaining (bd_iterations bd))"
  shows "\<exists>evs. run_turn env a user bd w =
     ((Inr \<lparr>tr_text = tr_text r,
            tr_usage = foldl (env_usage_add env) (env_usage_default env) (map tr_usage (rs @ [r])),
            tr_finish_reason = tr_finish_reason r,
            tr_tool_calls = concat (map tr_tool_calls (rs @ [r]))\<rparr>, evs),
      (rest, sent_batches env tf [text_msg System (rx_join rx (nl @ nl)), text_msg User user] (rs @ [r])))"
proof -
  let ?s = "initial_state env rx user (bd_iterations bd) :: ('u, 'c, 'f) turn_state" and ?bd = "bd\<lparr>bd_tokens := tk\<rparr>"
  obtain k where k: "loop_bound a = length rs + Suc k" using assms(6) by (metis add_Suc_right less_iff_Suc_add)
  have it: "length rs \<le> unat (it_remaining (st_iterations ?s))" using assms(7) by (simp add: initial_state_def)
  obtain s1 where s1: "agent_loop env a ?bd refs (length rs + Suc k) 0 ?s (rs @ r # rest, []) =
       agent_loop env a ?bd refs (Suc k) (0 + of_nat (length rs)) s1 (r # rest, [] @ sent_batches env tf (st_messages ?s) rs)"
     "st_messages s1 = st_messages ?s @ concat (map (exchange env tf) rs)"
     "unat (it_remaining (st_iterations s1)) + length rs = unat (it_remaining (st_iterations ?s))"
     "st_usage s1 = foldl (env_usage_add env) (st_usage ?s) (map tr_usage rs)"
     "st_calls s1 = st_calls ?s @ concat (map tr_tool_calls rs)"
    using agent_loop_asks [OF assms(1,2,4) it, of ?bd "Suc k" 0 "r # rest" "[]"]
    by (elim exE conjE) (rule that; assumption)
  have "it_remaining (st_iterations s1) \<noteq> 0"
    using s1(3) assms(7) by (auto simp: initial_state_def)
  from agent_round_final [OF assms(1,5) this, of ?bd refs "0 + of_nat (length rs)" rest "sent_batches env tf (st_messages ?s) rs"]
  obtain s2 where s2: "agent_round env a ?bd refs (0 + of_nat (length rs)) s1 (r # rest, sent_batches env tf (st_messages ?s) rs)
      = ((Inr False, s2), (rest, sent_batches env tf (st_messages ?s) rs @ [st_messages s1]))"
    "st_text s2 = tr_text r" "st_usage s2 = env_usage_add env (st_usage s1) (tr_usage r)"
    "st_finish s2 = tr_finish_reason r" "st_calls s2 = st_calls s1 @ tr_tool_calls r" by blast
  note sent = sent_batches_snoc [symmetric]
  have "agent_loop env a ?bd refs (loop_bound a) 0 ?s (rs @ r # rest, []) =
      ((Inr (), s2), (rest, sent_batches env tf (st_messages ?s) (rs @ [r])))"
    using s1(1,2) s2(1) by (simp add: k sent del: append_assoc)
  from run_turn_after_loop [OF assms(1,3) this] show ?thesis
    using s1(4,5) s2(2-5) by (simp add: initial_state_def)
qed

text \<open>
  A model that asks for tools in every round up to the limit: the turn is a success, with the text of the last
  request; the tools of the last round have run, but their answers are sent to nobody.
\<close>

lemma exhausted_turn_is_ok:
  fixes a :: "(('u, 'c, 'f) script_world, 'y, 'u, 's, 'c, 'f) agent"
  assumes "scripted_model env a" and "pure_refs refs tf"
    and "prepare_turn a user (bd_tokens bd) w = (Inr (rx, tk, refs), (rs @ rest, []))"
    and "list_all (asks env tf) rs" and "length rs = loop_bound a" and "length rs \<le> unat (it_remaining (bd_iterations bd))"
  shows "\<exists>evs q. run_turn env a user bd w = ((Inr q, evs),
      (rest, sent_batches env tf [text_msg System (rx_join rx (nl @ nl)), text_msg User user] rs)) \<and>
     tr_text q = tr_text (List.last rs) \<and> tr_finish_reason q = Some (env_tool_calls env)"
proof -
  let ?s = "initial_state env rx user (bd_iterations bd) :: ('u, 'c, 'f) turn_state" and ?bd = "bd\<lparr>bd_tokens := tk\<rparr>"
  have it: "length rs \<le> unat (it_remaining (st_iterations ?s))" using assms(6) by (simp add: initial_state_def)
  have "rs \<noteq> []" using assms(5) loop_bound_pos [of a] by auto
  then have ask: "tr_finish_reason (List.last rs) = Some (env_tool_calls env)"
    using assms(4) by (simp add: list_all_iff asks_def)
  obtain s1 where s1: "agent_loop env a ?bd refs (length rs) 0 ?s (rs @ rest, []) =
       ((Inr (), s1), (rest, sent_batches env tf (st_messages ?s) rs))"
     "st_text s1 = tr_text (List.last rs)" "st_finish s1 = tr_finish_reason (List.last rs)"
    using agent_loop_asks [OF assms(1,2,4) it, of ?bd 0 0 rest "[]"] \<open>rs \<noteq> []\<close> by auto
  from run_turn_after_loop [OF assms(1,3), of s1] s1(1) show ?thesis
    using s1(2,3) ask assms(5) by (auto simp: initial_state_def)
qed

subsection \<open>Concrete turns\<close>

definition demo_env :: "((nat, unit, bool) script_world, nat, unit, bool) agent_env" where
  "demo_env = \<lparr>env_uuid = (\<lambda>w. (''0'', w)), env_instant_ms = (\<lambda>w. 0), env_now_ms = (\<lambda>w. 0), env_hash = (\<lambda>v. 0),
     env_parse = (\<lambda>s. Inr (String s)), env_print = as_str, env_usage_default = 0, env_usage_add = (+),
     env_sampling_default = (), env_tool_calls = True\<rparr>"

definition demo_agent :: "((nat, unit, bool) script_world, unit, nat, unit, unit, bool) agent" where
  "demo_agent = \<lparr>ag_id = ''a-1'', ag_model = ''mock'',
     ag_instructions = static_text \<lparr>ri_system_prompt = ''calc'', ri_estimated_tokens = 3\<rparr>,
     ag_tools = static_text [\<lparr>rf_id = ''sum'', rf_name = ''sum'', rf_handle = fn_callable (\<lambda>x c w. (Inr (Array [x]), w))\<rparr>],
     ag_retrieve = static_text [], ag_store = (\<lambda>i w. (Inr (), w)), ag_skills = static_text [],
     ag_inference = (\<lambda>b w. case w of
         ([], sent) \<Rightarrow> (Inl (Inference ''script over''), ([], sent @ [eb_messages b]))
       | (r # rs, sent) \<Rightarrow> (Inr r, (rs, sent @ [eb_messages b]))),
     ag_max_tool_iterations = 3\<rparr>"

definition demo_budgets :: "u32 \<Rightarrow> agent_budgets" where
  "demo_budgets n = \<lparr>bd_tokens = tb_new n, bd_time = time_new 1000, bd_money = \<lparr>remaining_micro_usd = 0\<rparr>,
     bd_iterations = it_new 2\<rparr>"

definition demo_ask :: "(nat, bool) turn_result" where
  "demo_ask = \<lparr>tr_text = ''let me see'', tr_usage = 4, tr_finish_reason = Some True,
     tr_tool_calls = [\<lparr>ptc_id = ''c1'', ptc_name = ''sum'', ptc_arguments_raw = ''2 3''\<rparr>]\<rparr>"

definition demo_final :: "(nat, bool) turn_result" where
  "demo_final = \<lparr>tr_text = ''5'', tr_usage = 6, tr_finish_reason = Some False, tr_tool_calls = []\<rparr>"

lemma demo_scripted: "scripted_model demo_env demo_agent"
  by (simp add: scripted_model_def demo_env_def demo_agent_def)

lemma demo_metered: "metered (\<lambda>w. length (snd w)) demo_env demo_agent"
  by (simp add: metered_def demo_env_def demo_agent_def static_text_def quiet_refs_def fn_callable_def split: list.split)

lemma split_static:
  "join3 (static_text x) (static_text y) (static_text z) c b w = (((Inr x, Inr y, Inr z), charge b 0), w)"
  by (simp add: join3_def static_text_def spent_def Let_def)

lemma charge_zero [simp]: "charge b 0 = b"
  by (simp add: charge_def tb_consume_def)

theorem turn_model_calls_bounded_witness:
  "length (snd (snd (run_turn demo_env demo_agent ''hi'' (demo_budgets 100) ([], [])))) \<le> 2"
proof -
  have "loop_bound demo_agent = 3" by (simp add: loop_bound_def demo_agent_def)
  then show ?thesis
    using turn_model_calls_bounded [OF demo_metered, of "''hi''" "demo_budgets 100" "([], [])"]
    by (simp add: demo_budgets_def it_new_def)
qed

theorem system_prompt_needs_twice_its_size_witness:
  "\<exists>rx tokens'. prepare_turn demo_agent ''hi'' (tb_new 5) ([], []) =
      (Inr (rx, tokens', [\<lparr>rf_id = ''sum'', rf_name = ''sum'', rf_handle = fn_callable (\<lambda>x c w. (Inr (Array [x]), w))\<rparr>]), ([], [])) \<and>
    ''system'' \<notin> fr_source ` set (rx_fragments rx)"
proof -
  have "join3 (ag_retrieve demo_agent) (ag_skills demo_agent) (ag_tools demo_agent)
      \<lparr>ac_agent_id = ag_id demo_agent, ac_user = ''hi''\<rparr> (tb_new 5) ([], []) =
    (((Inr [], Inr [], Inr [\<lparr>rf_id = ''sum'', rf_name = ''sum'', rf_handle = fn_callable (\<lambda>x c w. (Inr (Array [x]), w))\<rparr>]), tb_new 5), ([], []))"
    by (simp add: demo_agent_def split_static)
  from system_prompt_needs_twice_its_size [OF this, of "\<lparr>ri_system_prompt = ''calc'', ri_estimated_tokens = 3\<rparr>"
      "tb_split (tb_new 5) 2 ! 0" "([], [])"]
  show ?thesis by (simp add: demo_agent_def static_text_def tb_new_def)
qed

definition demo_prompt :: rendered_context where
  "demo_prompt = \<lparr>rx_fragments = [\<lparr>fr_source = ''system'', fr_priority = 9, fr_estimated_tokens = 3, fr_text = ''calc''\<rparr>],
     rx_total_tokens = 3\<rparr>"

lemma demo_prepare:
  "prepare_turn demo_agent ''2+3?'' (bd_tokens (demo_budgets 100)) w =
     (Inr (demo_prompt, (tb_new 94), [\<lparr>rf_id = ''sum'', rf_name = ''sum'', rf_handle = fn_callable (\<lambda>x c w. (Inr (Array [x]), w))\<rparr>]), w)"
  by (simp add: prepare_turn_def demo_agent_def demo_budgets_def split_static)
     (simp add: static_text_def demo_prompt_def charge_def tb_consume_def tb_new_def min_def assemble_def prompt_fragments_def
        cost_def finish_context_def Let_def)

theorem turn_feeds_results_back_witness:
  "\<exists>evs. run_turn demo_env demo_agent ''2+3?'' (demo_budgets 100) ([demo_ask, demo_final], []) =
     ((Inr \<lparr>tr_text = ''5'', tr_usage = 10, tr_finish_reason = Some False,
            tr_tool_calls = [\<lparr>ptc_id = ''c1'', ptc_name = ''sum'', ptc_arguments_raw = ''2 3''\<rparr>]\<rparr>, evs),
      ([], [[text_msg System ''calc'', text_msg User ''2+3?''],
            [text_msg System ''calc'', text_msg User ''2+3?'', text_msg Assistant ''let me see'', text_msg ToolRole '''']]))"
proof -
  let ?refs = "[\<lparr>rf_id = ''sum'', rf_name = ''sum'', rf_handle = fn_callable (\<lambda>x c w. (Inr (Array [x]), w))\<rparr>]
     :: ((nat, unit, bool) script_world, unit) tool_ref list"
  let ?tf = "\<lambda>n. if n = ''sum'' then Some (\<lambda>x. Array [x]) else None"
  have "pure_refs ?refs ?tf" by (simp add: pure_refs_def fn_callable_def)
  moreover have "list_all (asks demo_env ?tf) [demo_ask]" "final demo_env demo_final"
    by (simp_all add: asks_def final_def demo_ask_def demo_final_def demo_env_def)
  moreover have "length [demo_ask] < loop_bound demo_agent" "length [demo_ask] < unat (it_remaining (bd_iterations (demo_budgets 100)))"
    by (simp_all add: loop_bound_def demo_agent_def demo_budgets_def it_new_def)
  ultimately obtain evs where "run_turn demo_env demo_agent ''2+3?'' (demo_budgets 100) ([demo_ask] @ demo_final # [], []) =
     ((Inr \<lparr>tr_text = tr_text demo_final,
            tr_usage = foldl (env_usage_add demo_env) (env_usage_default demo_env) (map tr_usage ([demo_ask] @ [demo_final])),
            tr_finish_reason = tr_finish_reason demo_final,
            tr_tool_calls = concat (map tr_tool_calls ([demo_ask] @ [demo_final]))\<rparr>, evs),
      ([], sent_batches demo_env ?tf [text_msg System (rx_join demo_prompt (nl @ nl)), text_msg User ''2+3?''] ([demo_ask] @ [demo_final])))"
    using turn_feeds_results_back [OF demo_scripted _ demo_prepare] by blast
  then show ?thesis
    by (simp add: demo_ask_def demo_final_def demo_env_def demo_prompt_def rx_join_def exchange_def
        tool_message_def answer_def call_args_def arguments_of_def is_ws_def)
qed

end
