(* ===== verification/Org.thy ===== *)
theory Org
  imports Agent "HOL-Library.Multiset"
begin

text \<open>
  The workforce organisation (\<open>crates/org/src\<close>): routing strategies, org units, the swarm loop, memory
  namespaced by the organisation, and the projection of a compiled organisation onto routing units with its
  information walls. The in-memory memory store is \<open>crates/memory/src/store.rs\<close>.
\<close>

subsection \<open>Routing (routing.rs)\<close>

type_synonym ('w, 'x) children = "(string \<times> ('w, 'x) callable) list"

text \<open>The cursor is a \<open>usize\<close> that wraps.\<close>

definition round_robin_pick :: "('w, 'x) children \<Rightarrow> u64 \<Rightarrow> ('w, 'x) callable result \<times> u64" where
  "round_robin_pick children cursor =
     (if children = [] then (Inl (Internal ''round-robin: no children''), cursor)
      else (Inr (snd (children ! (unat cursor mod length children))), cursor + 1))"

text \<open>The index of the first minimum, as \<open>min_by_key\<close> returns it; the increment wraps in release builds.\<close>

fun first_min :: "u32 list \<Rightarrow> nat" where
  "first_min [] = 0"
| "first_min [c] = 0"
| "first_min (c # d # cs) = (let i = first_min (d # cs) in if c \<le> (d # cs) ! i then 0 else i + 1)"

definition resize :: "nat \<Rightarrow> u32 list \<Rightarrow> u32 list" where
  "resize n g = (if length g = n then g else take n g @ replicate (n - length g) 0)"

definition load_aware_pick :: "('w, 'x) children \<Rightarrow> u32 list \<Rightarrow> ('w, 'x) callable result \<times> u32 list" where
  "load_aware_pick children inflight =
     (if children = [] then (Inl (Internal ''load-aware: no children''), inflight)
      else (let g = resize (length children) inflight; i = first_min g
            in (Inr (snd (children ! i)), g[i := g ! i + 1])))"

definition capability_pick :: "('w, 'x) children \<Rightarrow> string \<Rightarrow> ('w, 'x) callable result" where
  "capability_pick children request_label =
     (if children = [] then Inl (Internal ''capability-match: no children'')
      else (let needle = to_lowercase request_label in
            Inr (case find (\<lambda>(l, h). str_contains (to_lowercase l) needle) children of
                   Some (l, h) \<Rightarrow> h
                 | None \<Rightarrow> snd (children ! 0))))"

text \<open>A sequence of picks by a stateful router over fixed children.\<close>

fun picks :: "('s \<Rightarrow> 'r \<times> 's) \<Rightarrow> nat \<Rightarrow> 's \<Rightarrow> 'r list \<times> 's" where
  "picks pick 0 s = ([], s)"
| "picks pick (Suc n) s =
     (case pick s of (r, s1) \<Rightarrow> (case picks pick n s1 of (rs, s2) \<Rightarrow> (r # rs, s2)))"

text \<open>After \<open>m\<close> picks over \<open>n\<close> children, child \<open>i\<close> was picked \<open>turns n m i\<close> times.\<close>

definition turns :: "nat \<Rightarrow> nat \<Rightarrow> nat \<Rightarrow> nat" where
  "turns n m i = m div n + (if i < m mod n then 1 else 0)"

definition loads :: "nat \<Rightarrow> nat \<Rightarrow> u32 list" where
  "loads n m = map (\<lambda>i. of_nat (turns n m i)) [0..<n]"

lemma first_min_props:
  "g \<noteq> [] \<Longrightarrow> first_min g < length g \<and> (\<forall>i<length g. g ! first_min g \<le> g ! i) \<and> (\<forall>i<first_min g. g ! first_min g < g ! i)"
proof (induction g rule: first_min.induct)
  case (3 c d cs)
  let ?i = "first_min (d # cs)"
  from 3 have IH: "?i < length (d # cs)" "\<forall>i<length (d # cs). (d # cs) ! ?i \<le> (d # cs) ! i"
    "\<forall>i<?i. (d # cs) ! ?i < (d # cs) ! i" by auto
  show ?case
  proof (cases "c \<le> (d # cs) ! ?i")
    case True
    then have "c \<le> (c # d # cs) ! i" if "i < length (c # d # cs)" for i
      using that IH(2) by (cases i) (auto intro: order_trans)
    with True show ?thesis by (simp add: Let_def)
  next
    case False
    then have "\<forall>i<length (c # d # cs). (d # cs) ! ?i \<le> (c # d # cs) ! i"
      using IH(2) by (auto simp: nth_Cons not_le less_imp_le split: nat.split)
    moreover have "(d # cs) ! ?i < (c # d # cs) ! i" if "i < ?i + 1" for i
      using IH(3) False that by (cases i) (auto simp: not_le)
    ultimately show ?thesis using False IH(1) by (simp add: Let_def)
  qed
qed simp_all

lemma first_minI:
  assumes "k < length g" and "\<forall>i<length g. g ! k \<le> g ! i" and "\<forall>i<k. g ! k < g ! i"
  shows "first_min g = k"
proof -
  have "g \<noteq> []" using assms(1) by auto
  from first_min_props [OF this] assms show ?thesis
    by (metis linorder_neqE_nat not_le)
qed

lemma turns_step:
  assumes "n > 0" and that: "i < n"
  shows "turns n (Suc m) i = turns n m i + (if i = m mod n then 1 else 0)"
proof (cases "Suc (m mod n) = n")
  case True
  then have "Suc m div n = Suc (m div n)" "Suc m mod n = 0" by (auto simp: div_Suc mod_Suc)
  with True that show ?thesis by (auto simp: turns_def)
next
  case False
  then have "Suc m div n = m div n" "Suc m mod n = Suc (m mod n)" by (auto simp: div_Suc mod_Suc)
  with that show ?thesis by (auto simp: turns_def)
qed

lemma first_min_loads:
  assumes "n > 0" and "m < 2 ^ 32"
  shows "first_min (loads n m) = m mod n"
proof (rule first_minI)
  have small: "turns n m i < 2 ^ 32" if "i < n" for i
  proof (cases "n = 1")
    case True
    with that assms(2) show ?thesis by (simp add: turns_def)
  next
    case False
    with assms(1) have "n \<ge> 2" by simp
    then have "m div n \<le> m div 2" by (simp add: div_le_mono2)
    with assms(2) show ?thesis by (auto simp: turns_def)
  qed
  have nth: "unat (loads n m ! i) = turns n m i" if "i < n" for i
    using that small [OF that] by (simp add: loads_def unat_of_nat take_bit_nat_eq_self)
  have k: "m mod n < n" "turns n m (m mod n) = m div n" using assms(1) by (simp_all add: turns_def)
  show "m mod n < length (loads n m)" using k by (simp add: loads_def)
  show "\<forall>i<length (loads n m). loads n m ! (m mod n) \<le> loads n m ! i"
    using nth k by (simp add: word_le_nat_alt loads_def [THEN arg_cong, of length]) (simp add: turns_def)
  show "\<forall>i<m mod n. loads n m ! (m mod n) < loads n m ! i"
    using nth k by (simp add: word_less_nat_alt less_trans) (simp add: turns_def)
qed

lemma load_aware_step:
  assumes "children \<noteq> []" and "m < 2 ^ 32"
  shows "load_aware_pick children (loads (length children) m) =
     (Inr (snd (children ! (m mod length children))), loads (length children) (Suc m))"
proof -
  let ?n = "length children"
  have n: "?n > 0" using assms(1) by simp
  have "(loads ?n m)[m mod ?n := loads ?n m ! (m mod ?n) + 1] = loads ?n (Suc m)"
    using n by (intro nth_equalityI) (auto simp: loads_def nth_list_update turns_step)
  moreover have "length (loads ?n m) = ?n" by (simp add: loads_def)
  ultimately show ?thesis
    using assms(1) first_min_loads [OF n assms(2)] by (simp add: load_aware_pick_def resize_def Let_def)
qed

text \<open>
  The load-aware router, whose counters never go down, is the round-robin router: over fixed children both
  pick the same child every time, the children in turn from the first, for as long as no counter can wrap.
\<close>

theorem load_aware_is_round_robin:
  assumes "children \<noteq> []" and "m < 2 ^ 32"
  shows "fst (picks (load_aware_pick children) m (replicate (length children) 0)) =
         fst (picks (round_robin_pick children) m 0) \<and>
         fst (picks (round_robin_pick children) m 0) =
         map (\<lambda>k. Inr (snd (children ! (k mod length children)))) [0..<m]"
proof -
  let ?n = "length children"
  have la: "fst (picks (load_aware_pick children) k (loads ?n j)) = map (\<lambda>k. Inr (snd (children ! (k mod ?n)))) [j..<j + k]"
    if "j + k \<le> 2 ^ 32" for j k
    using that
  proof (induction k arbitrary: j)
    case (Suc k)
    have "fst (picks (load_aware_pick children) k (loads ?n (Suc j))) = map (\<lambda>k. Inr (snd (children ! (k mod ?n)))) [Suc j..<Suc j + k]"
      by (rule Suc.IH) (use Suc.prems in simp)
    moreover have "[j..<j + Suc k] = j # [Suc j..<Suc j + k]" by (simp add: upt_rec)
    ultimately show ?case
      using load_aware_step [OF assms(1), of j] Suc.prems by (auto split: prod.split)
  qed simp
  have rr: "fst (picks (round_robin_pick children) k (of_nat j)) = map (\<lambda>k. Inr (snd (children ! (k mod ?n)))) [j..<j + k]"
    if "j + k \<le> 2 ^ 32" for j k
    using that
  proof (induction k arbitrary: j)
    case (Suc k)
    have "fst (picks (round_robin_pick children) k (of_nat (Suc j))) = map (\<lambda>k. Inr (snd (children ! (k mod ?n)))) [Suc j..<Suc j + k]"
      by (rule Suc.IH) (use Suc.prems in simp)
    moreover have "round_robin_pick children (of_nat j) = (Inr (snd (children ! (j mod ?n))), of_nat (Suc j))"
      using assms(1) Suc.prems by (simp add: round_robin_pick_def unat_of_nat take_bit_nat_def)
    moreover have "[j..<j + Suc k] = j # [Suc j..<Suc j + k]" by (simp add: upt_rec)
    ultimately show ?case by (auto simp del: of_nat_Suc upt_Suc split: prod.split)
  qed simp
  have "loads ?n 0 = replicate ?n 0" by (rule nth_equalityI) (simp_all add: loads_def turns_def)
  with la [of 0 m] rr [of 0 m] assms(2) show ?thesis by simp
qed

theorem load_aware_is_round_robin_witness:
  "fst (picks (load_aware_pick [(''a'', fn_labeled ''a'' (\<lambda>x (c :: unit call_ctx) (w :: unit). (Inr x, w))),
        (''b'', fn_labeled ''b'' (\<lambda>x c w. (Inr Null, w)))]) 3 [0, 0]) =
   [Inr (fn_labeled ''a'' (\<lambda>x c w. (Inr x, w))), Inr (fn_labeled ''b'' (\<lambda>x c w. (Inr Null, w))),
    Inr (fn_labeled ''a'' (\<lambda>x c w. (Inr x, w)))]"
proof -
  let ?cs = "[(''a'', fn_labeled ''a'' (\<lambda>x c w. (Inr x, w))), (''b'', fn_labeled ''b'' (\<lambda>x c w. (Inr Null, w)))] :: (unit, unit) children"
  have "?cs \<noteq> []" "(3 :: nat) < 2 ^ 32" by simp_all
  from load_aware_is_round_robin [OF this] have "fst (picks (load_aware_pick ?cs) 3 (replicate (length ?cs) 0)) =
      map (\<lambda>k. Inr (snd (?cs ! (k mod length ?cs)))) [0..<3]" by metis
  moreover have "[0..<3] = [0, 1, 2 :: nat]" by (simp add: upt_rec)
  moreover have "replicate (length ?cs) (0 :: u32) = [0, 0]" by simp
  moreover have "(2 :: nat) mod Suc (Suc 0) = 0" by (simp add: numeral_2_eq_2)
  ultimately show ?thesis by simp
qed

subsection \<open>Org units (team.rs)\<close>

text \<open>The routing strategy of a unit is any function of the children, the label and the world.\<close>

record ('w, 'x) org_unit =
  ou_label :: string
  ou_children :: "('w, 'x) children"
  ou_routing :: "('w, 'x) children \<Rightarrow> string \<Rightarrow> 'w \<Rightarrow> ('w, 'x) callable result \<times> 'w"
  ou_policy :: policy
  ou_granted_toolsets :: "string list"

definition resolve_policy :: "('w, 'x) org_unit \<Rightarrow> policy option \<Rightarrow> policy" where
  "resolve_policy u parent = (case parent of Some p \<Rightarrow> narrow p (ou_policy u) | None \<Rightarrow> ou_policy u)"

definition route_and_call ::
  "('w, 'x) org_unit \<Rightarrow> json \<Rightarrow> 'x call_ctx \<Rightarrow> string \<Rightarrow> 'w \<Rightarrow> json result \<times> 'w" where
  "route_and_call u input ctx request_label w =
     (case ou_routing u (ou_children u) request_label w of
        (Inl e, w1) \<Rightarrow> (Inl e, w1)
      | (Inr child, w1) \<Rightarrow> c_call child input ctx w1)"

text \<open>Teams, departments and organisations as callables share their body.\<close>

definition unit_callable :: "string \<Rightarrow> ('w, 'x) org_unit \<Rightarrow> ('w, 'x) callable" where
  "unit_callable i u =
     \<lparr>c_call = (\<lambda>input ctx w.
        route_and_call u input ctx (case get_str input ''route'' of Some l \<Rightarrow> l | None \<Rightarrow> []) w),
      c_label = i\<rparr>"

text \<open>
  A tree of units over capability routing reaches exactly one leaf: the call of a unit is the call of the child
  the router picks, with the same input and context.
\<close>

definition capability_unit :: "('w, 'x) children \<Rightarrow> ('w, 'x) org_unit" where
  "capability_unit cs = \<lparr>ou_label = [], ou_children = cs, ou_routing = (\<lambda>cs l w. (capability_pick cs l, w)),
     ou_policy = policy_default, ou_granted_toolsets = []\<rparr>"

lemma capability_unit_calls_child:
  assumes "cs \<noteq> []"
  shows "\<exists>l h. (l, h) \<in> set cs \<and> c_call (unit_callable i (capability_unit cs)) input ctx w = c_call h input ctx w"
proof -
  have "\<exists>l h. (l, h) \<in> set cs \<and> capability_pick cs r = Inr h" for r
  proof (cases "find (\<lambda>(l, h). str_contains (to_lowercase l) (to_lowercase r)) cs")
    case None
    with assms show ?thesis
      by (intro exI [of _ "fst (cs ! 0)"] exI [of _ "snd (cs ! 0)"]) (simp add: capability_pick_def Let_def)
  next
    case (Some e)
    moreover obtain l h where "e = (l, h)" by force
    moreover from Some have "e \<in> set cs" by (metis find_Some_iff nth_mem)
    ultimately show ?thesis using assms by (auto simp: capability_pick_def)
  qed
  from this [of "case get_str input ''route'' of Some l \<Rightarrow> l | None \<Rightarrow> []"] obtain l h where "(l, h) \<in> set cs"
    "capability_pick cs (case get_str input ''route'' of Some l \<Rightarrow> l | None \<Rightarrow> []) = Inr h" by blast
  then show ?thesis
    by (intro exI [of _ l] exI [of _ h]) (simp add: unit_callable_def route_and_call_def capability_unit_def)
qed

subsection \<open>The swarm loop (patterns.rs)\<close>

text \<open>
  The active agent lives in the world: \<open>active\<close> reads it. \<open>default_ctx\<close> is the fixed context of the pattern.
\<close>

fun swarm_loop ::
  "(string \<Rightarrow> ('w, 'x) callable option) \<Rightarrow> ('w \<Rightarrow> string) \<Rightarrow> 'x call_ctx \<Rightarrow> nat \<Rightarrow> json \<Rightarrow> 'w \<Rightarrow> json result \<times> 'w" where
  "swarm_loop agents active default_ctx 0 current w = (Inr current, w)"
| "swarm_loop agents active default_ctx (Suc n) current w =
     (case agents (active w) of
        None \<Rightarrow> (Inl (Workflow (''unknown agent: '' @ active w)), w)
      | Some h \<Rightarrow>
          (case c_call h current default_ctx w of
             (Inl e, w1) \<Rightarrow> (Inl e, w1)
           | (Inr v, w1) \<Rightarrow>
               (if get_bool v ''done'' = Some True then (Inr v, w1)
                else swarm_loop agents active default_ctx n v w1)))"

text \<open>More turns continue where fewer stopped, unless an agent was done or failed; at the limit the loop just ends.\<close>

lemma swarm_loop_split:
  "swarm_loop agents active c (m + n) v w =
     (case swarm_loop agents active c m v w of
        (Inl e, w1) \<Rightarrow> (Inl e, w1)
      | (Inr u, w1) \<Rightarrow>
          (if m > 0 \<and> get_bool u ''done'' = Some True then (Inr u, w1) else swarm_loop agents active c n u w1))"
proof (induction m arbitrary: v w)
  case (Suc m)
  show ?case
  proof (cases m)
    case 0
    then show ?thesis by (auto split: option.splits sum.splits prod.splits)
  next
    case (Suc k)
    then show ?thesis using Suc.IH by (auto split: option.splits sum.splits prod.splits)
  qed
qed simp

subsection \<open>Memory (memory/src/store.rs, org/src/memory.rs)\<close>

text \<open>The in-memory store is the vector of its items; \<open>sort_by_key\<close> is stable, newest first.\<close>

definition newest :: "memory_item list \<Rightarrow> memory_item list" where
  "newest = sort_key (\<lambda>i. - mi_timestamp_ms i)"

definition mem_put :: "memory_item list \<Rightarrow> memory_item \<Rightarrow> memory_item list" where
  "mem_put s item = s @ [item]"

definition mem_list :: "memory_item list \<Rightarrow> memory_namespace \<Rightarrow> nat \<Rightarrow> memory_item list" where
  "mem_list s ns limit = take limit (newest (filter (\<lambda>i. mi_namespace i = ns) s))"

record namespaced_memory =
  nm_org :: string
  nm_team :: "string option"
  nm_agent :: string
  nm_allow_team_write :: bool

text \<open>The backing store is any store: its two operations are arguments.\<close>

definition nm_put ::
  "('s \<Rightarrow> memory_item \<Rightarrow> 's) \<Rightarrow> namespaced_memory \<Rightarrow> 's \<Rightarrow> memory_item \<Rightarrow> unit result \<times> 's" where
  "nm_put put nm s item =
     (case mi_namespace item of
        AgentNs i \<Rightarrow>
          (if i = nm_agent nm then (Inr (), put s item)
           else (Inl (PolicyDenied (''agent '' @ nm_agent nm @ '' cannot write to '' @ i)), s))
      | TeamNs i \<Rightarrow>
          (if \<not> nm_allow_team_write nm \<or> nm_team nm \<noteq> Some i
           then (Inl (PolicyDenied (''write to team namespace '' @ i @ '' denied'')), s)
           else (Inr (), put s item))
      | OrgNs _ \<Rightarrow> (Inl (PolicyDenied ''agents cannot write to org-level memory''), s))"

definition nm_list ::
  "('s \<Rightarrow> memory_namespace \<Rightarrow> nat \<Rightarrow> memory_item list) \<Rightarrow> namespaced_memory \<Rightarrow> 's \<Rightarrow> memory_namespace \<Rightarrow> nat \<Rightarrow>
   memory_item list" where
  "nm_list lst nm s ns limit =
     (let out = lst s ns limit in
      case ns of
        AgentNs _ \<Rightarrow>
          take limit (newest (out @
            (case nm_team nm of Some t \<Rightarrow> lst s (TeamNs t) limit | None \<Rightarrow> []) @ lst s (OrgNs (nm_org nm)) limit))
      | _ \<Rightarrow> out)"

text \<open>What a client of a memory store relies on, over the items the store holds.\<close>

locale memory_store =
  fixes put :: "'s \<Rightarrow> memory_item \<Rightarrow> 's" and lst :: "'s \<Rightarrow> memory_namespace \<Rightarrow> nat \<Rightarrow> memory_item list"
    and items :: "'s \<Rightarrow> memory_item list"
  assumes items_put: "items (put s i) = items s @ [i]"
    and lst_items: "lst s ns n = take n (newest (filter (\<lambda>i. mi_namespace i = ns) (items s)))"

definition may_write :: "namespaced_memory \<Rightarrow> memory_namespace \<Rightarrow> bool" where
  "may_write nm ns \<longleftrightarrow> ns = AgentNs (nm_agent nm) \<or>
     (nm_allow_team_write nm \<and> (\<exists>t. nm_team nm = Some t \<and> ns = TeamNs t))"

definition visible :: "namespaced_memory \<Rightarrow> memory_namespace \<Rightarrow> memory_namespace list" where
  "visible nm ns =
     (case ns of AgentNs _ \<Rightarrow> ns # (case nm_team nm of Some t \<Rightarrow> [TeamNs t] | None \<Rightarrow> []) @ [OrgNs (nm_org nm)] | _ \<Rightarrow> [ns])"

text \<open>Stable sorting splits at any key.\<close>

lemma sort_key_pivot:
  "sort_key f xs = sort_key f (filter (\<lambda>x. f x < k) xs) @ filter (\<lambda>x. f x = k) xs @ sort_key f (filter (\<lambda>x. f x > k) xs)"
  for f :: "'a \<Rightarrow> 'b::linorder"
proof (rule properties_for_sort_key)
  show "mset (sort_key f (filter (\<lambda>x. f x < k) xs) @ filter (\<lambda>x. f x = k) xs @ sort_key f (filter (\<lambda>x. f x > k) xs)) = mset xs"
    by (rule multiset_eqI) (auto simp: count_mset mset_filter count_filter_mset not_less_iff_gr_or_eq)
  show "filter (\<lambda>x. f y = f x) (sort_key f (filter (\<lambda>x. f x < k) xs) @ filter (\<lambda>x. f x = k) xs @ sort_key f (filter (\<lambda>x. f x > k) xs))
      = filter (\<lambda>x. f y = f x) xs" for y
  proof -
    have "(\<lambda>x. f x < k \<and> f x = f y) = (\<lambda>x. f y < k \<and> f x = f y)"
      "(\<lambda>x. f x = k \<and> f x = f y) = (\<lambda>x. f y = k \<and> f x = f y)"
      "(\<lambda>x. k < f x \<and> f x = f y) = (\<lambda>x. k < f y \<and> f x = f y)" by auto
    then show ?thesis
      by (cases "f y" k rule: linorder_cases)
        (auto simp: sort_key_stable eq_commute [of "f y"] conj_commute filter_empty_conv)
  qed
  show "sorted (map f (sort_key f (filter (\<lambda>x. f x < k) xs) @ filter (\<lambda>x. f x = k) xs @ sort_key f (filter (\<lambda>x. f x > k) xs)))"
    by (auto simp: sorted_append intro: sorted_map_same)
qed

lemma sort_key_stable_sym: "filter (\<lambda>x. f k = f x) (sort_key f xs) = filter (\<lambda>x. f k = f x) xs"
  using sort_key_stable [of f "f k" xs] by (simp add: eq_commute)

lemma sort_key_sort_append: "sort_key f (xs @ sort_key f ys @ zs) = sort_key f (xs @ ys @ zs)"
  by (rule properties_for_sort_key [symmetric]) (simp_all add: sort_key_stable_sym)

text \<open>Cutting a sorted part to its first \<open>n\<close> before a merge does not change the first \<open>n\<close> of the merge.\<close>

lemma take_sort_key_drop1:
  fixes f :: "'a \<Rightarrow> 'b::linorder"
  assumes "sorted (map f (xs @ [b]))" and "n \<le> length xs"
  shows "take n (sort_key f (ps @ (xs @ [b]) @ rs)) = take n (sort_key f (ps @ xs @ rs))"
proof -
  let ?k = "f b"
  let ?lt = "\<lambda>zs. sort_key f (filter (\<lambda>x. f x < ?k) zs)" and ?gt = "\<lambda>zs. sort_key f (filter (\<lambda>x. f x > ?k) zs)"
    and ?eq = "\<lambda>zs. filter (\<lambda>x. f x = ?k) zs"
  have le: "\<forall>x\<in>set xs. f x \<le> ?k" using assms(1) by (simp add: sorted_append)
  then have "length xs = length (filter (\<lambda>x. f x < ?k) xs) + length (?eq xs)"
    using sum_length_filter_compl [of "\<lambda>x. f x < ?k" xs]
    by (metis (mono_tags, lifting) filter_cong order.strict_iff_order)
  then have long: "n \<le> length (?lt (ps @ xs @ rs) @ ?eq (ps @ xs))"
    using assms(2) by simp
  have "sort_key f (ps @ (xs @ [b]) @ rs) = (?lt (ps @ xs @ rs) @ ?eq (ps @ xs)) @ b # ?eq rs @ ?gt (ps @ xs @ rs)"
    by (subst sort_key_pivot [of f _ ?k]) simp
  moreover have "sort_key f (ps @ xs @ rs) = (?lt (ps @ xs @ rs) @ ?eq (ps @ xs)) @ ?eq rs @ ?gt (ps @ xs @ rs)"
    by (subst sort_key_pivot [of f _ ?k]) simp
  ultimately show ?thesis using long by (simp only: take_append) simp
qed

lemma take_sort_key_take:
  fixes f :: "'a \<Rightarrow> 'b::linorder"
  assumes "sorted (map f xs)"
  shows "take n (sort_key f (ps @ take n xs @ rs)) = take n (sort_key f (ps @ xs @ rs))"
  using assms
proof (induction xs rule: rev_induct)
  case (snoc b xs)
  show ?case
  proof (cases "n \<le> length xs")
    case True
    then have "take n (sort_key f (ps @ (xs @ [b]) @ rs)) = take n (sort_key f (ps @ xs @ rs))"
      by (rule take_sort_key_drop1 [OF snoc.prems])
    moreover have "take n (xs @ [b]) = take n xs" using True by simp
    moreover have "sorted (map f xs)" using snoc.prems by (simp add: sorted_append)
    ultimately show ?thesis using snoc.IH by simp
  qed simp
qed simp

lemma newest_take: "take n (newest (ps @ take n (newest xs) @ rs)) = take n (newest (ps @ xs @ rs))"
  unfolding newest_def by (simp add: take_sort_key_take sort_key_sort_append)

lemma newest_idem [simp]: "newest (newest xs) = newest xs"
  unfolding newest_def by (rule sort_key_id) simp

context memory_store
begin

lemma put_items:
  "items (snd (nm_put put nm s i)) = items s @ filter (\<lambda>i. may_write nm (mi_namespace i)) [i] \<and>
   (is_ok (fst (nm_put put nm s i)) \<longleftrightarrow> may_write nm (mi_namespace i))"
  by (auto simp: nm_put_def may_write_def items_put split: memory_namespace.splits)

lemma put_all_items:
  "items (foldl (\<lambda>s i. snd (nm_put put nm s i)) s is) = items s @ filter (\<lambda>i. may_write nm (mi_namespace i)) is"
  by (induction "is" arbitrary: s) (simp_all add: put_items)

lemma list_newest_visible:
  "nm_list lst nm s ns n =
     take n (newest (concat (map (\<lambda>v. filter (\<lambda>i. mi_namespace i = v) (items s)) (visible nm ns))))"
proof (cases ns)
  case (AgentNs a)
  let ?f = "\<lambda>v. filter (\<lambda>i. mi_namespace i = v) (items s)"
  show ?thesis
  proof (cases "nm_team nm")
    case None
    have "take n (newest (take n (newest (?f ns)) @ take n (newest (?f (OrgNs (nm_org nm)))))) =
      take n (newest (?f ns @ ?f (OrgNs (nm_org nm))))"
      using newest_take [of n "[]" "?f ns" "take n (newest (?f (OrgNs (nm_org nm))))"]
        newest_take [of n "?f ns" "?f (OrgNs (nm_org nm))" "[]"] by simp
    with None AgentNs show ?thesis by (simp add: nm_list_def visible_def lst_items Let_def)
  next
    case (Some t)
    have "take n (newest (take n (newest (?f ns)) @ take n (newest (?f (TeamNs t))) @ take n (newest (?f (OrgNs (nm_org nm)))))) =
      take n (newest (?f ns @ ?f (TeamNs t) @ ?f (OrgNs (nm_org nm))))"
      using newest_take [of n "[]" "?f ns" "take n (newest (?f (TeamNs t))) @ take n (newest (?f (OrgNs (nm_org nm))))"]
        newest_take [of n "?f ns" "?f (TeamNs t)" "take n (newest (?f (OrgNs (nm_org nm))))"]
        newest_take [of n "?f ns @ ?f (TeamNs t)" "?f (OrgNs (nm_org nm))" "[]"] by simp
    with Some AgentNs show ?thesis by (simp add: nm_list_def visible_def lst_items Let_def)
  qed
qed (simp_all add: nm_list_def visible_def lst_items Let_def)

end

interpretation mem: memory_store mem_put mem_list "\<lambda>s. s"
  by unfold_locales (simp_all add: mem_put_def mem_list_def)

text \<open>
  The memory wall: of any sequence of writes through an agent's view, exactly those to its own namespace and,
  when allowed, to its own team's reach the store, in order; a read in an agent's namespace returns the newest
  items among that namespace, the view's team and its organisation, whatever part each of them has in the limit.
\<close>

theorem namespaced_memory_wall:
  "foldl (\<lambda>s i. snd (nm_put mem_put nm s i)) s is = s @ filter (\<lambda>i. may_write nm (mi_namespace i)) is \<and>
   nm_list mem_list nm s ns n =
     take n (newest (concat (map (\<lambda>v. filter (\<lambda>i. mi_namespace i = v) s) (visible nm ns))))"
  using mem.put_all_items mem.list_newest_visible by blast

subsection \<open>Projection of a compiled organisation (projection.rs)\<close>

record compiled_unit =
  cu_id :: string
  cu_label :: string
  cu_parent :: "string option"
  cu_compartments :: "string list"

record compiled_role =
  cr_id :: string
  cr_label :: string
  cr_unit_id :: string
  cr_route_label :: string

record compiled_org =
  co_units :: "compiled_unit list"
  co_roles :: "compiled_role list"
  co_edges :: "(string \<times> string) list"

record compartment_mapping =
  cm_compartment :: string
  cm_namespace :: string
  cm_policy :: policy

record wall_sync =
  ws_mapped :: "string list"
  ws_unmapped :: "string list"

record projected_unit =
  pu_id :: string
  pu_label :: string
  pu_parent :: "string option"
  pu_role_routes :: "string list"
  pu_compartments :: "compartment_mapping list"

record projected_org =
  po_units :: "projected_unit list"
  po_routing_edges :: "(string \<times> string) list"
  po_wall_sync :: wall_sync

datatype projection_error =
    UnmappedCompartment string
  | UnknownRoleUnit string string
  | UnknownEdgeUnit string string

definition namespace_for :: "string \<Rightarrow> string \<Rightarrow> string option" where
  "namespace_for unit_id compartment =
     (let name = trim compartment in
      if name = [] then None else Some (''compartment/'' @ unit_id @ ''/'' @ name))"

definition policy_for :: "string \<Rightarrow> policy" where
  "policy_for compartment =
     (let scope = policy_default\<lparr>allowed_toolsets := [compartment]\<rparr> in narrow scope scope)"

text \<open>The route labels grouped by unit, in the order of the roles.\<close>

definition routes_of :: "compiled_role list \<Rightarrow> string \<Rightarrow> string list" where
  "routes_of roles unit_id = map cr_route_label (filter (\<lambda>r. cr_unit_id r = unit_id) roles)"

fun project_walls ::
  "string \<Rightarrow> string list \<Rightarrow> wall_sync \<Rightarrow> projection_error + compartment_mapping list \<times> wall_sync" where
  "project_walls unit_id [] sync = Inr ([], sync)"
| "project_walls unit_id (c # cs) sync =
     (case namespace_for unit_id c of
        None \<Rightarrow> Inl (UnmappedCompartment c)
      | Some ns \<Rightarrow>
          try_then (project_walls unit_id cs (sync\<lparr>ws_mapped := ws_mapped sync @ [c]\<rparr>))
            (\<lambda>(ms, sync'). Inr (\<lparr>cm_compartment = c, cm_namespace = ns, cm_policy = policy_for c\<rparr> # ms, sync')))"

fun project_units ::
  "compiled_role list \<Rightarrow> compiled_unit list \<Rightarrow> wall_sync \<Rightarrow> projection_error + projected_unit list \<times> wall_sync" where
  "project_units roles [] sync = Inr ([], sync)"
| "project_units roles (u # us) sync =
     try_then (project_walls (cu_id u) (cu_compartments u) sync) (\<lambda>(ms, sync1).
     try_then (project_units roles us sync1) (\<lambda>(pus, sync2).
       Inr (\<lparr>pu_id = cu_id u, pu_label = cu_label u, pu_parent = cu_parent u,
             pu_role_routes = routes_of roles (cu_id u), pu_compartments = ms\<rparr> # pus, sync2)))"

definition project :: "compiled_org \<Rightarrow> projection_error + projected_org" where
  "project m =
     (let ids = cu_id ` set (co_units m) in
      case find (\<lambda>r. cr_unit_id r \<notin> ids) (co_roles m) of
        Some r \<Rightarrow> Inl (UnknownRoleUnit (cr_id r) (cr_unit_id r))
      | None \<Rightarrow>
          (case find (\<lambda>(a, b). a \<notin> ids \<or> b \<notin> ids) (co_edges m) of
             Some (a, b) \<Rightarrow> Inl (UnknownEdgeUnit a b)
           | None \<Rightarrow>
               try_then (project_units (co_roles m) (co_units m) \<lparr>ws_mapped = [], ws_unmapped = []\<rparr>)
                 (\<lambda>(us, sync). Inr \<lparr>po_units = us, po_routing_edges = co_edges m, po_wall_sync = sync\<rparr>)))"

text \<open>The drift gate; \<open>dbg\<close> is the \<open>Debug\<close> text of a string.\<close>

datatype org_drift_kind = MissingCompartment | MissingRole | MissingEdge

type_synonym org_drift = "org_drift_kind \<times> string"

definition projected_walls :: "projected_org \<Rightarrow> (string \<times> string) list" where
  "projected_walls p = concat (map (\<lambda>u. map (\<lambda>m. (pu_id u, cm_compartment m)) (pu_compartments u)) (po_units p))"

definition projected_routes :: "projected_org \<Rightarrow> (string \<times> string) list" where
  "projected_routes p = concat (map (\<lambda>u. map (\<lambda>r. (pu_id u, r)) (pu_role_routes u)) (po_units p))"

definition verify :: "(string \<Rightarrow> string) \<Rightarrow> compiled_org \<Rightarrow> projected_org \<Rightarrow> org_drift list" where
  "verify dbg m p =
     concat (map (\<lambda>u.
       map (\<lambda>c. (MissingCompartment, ''compartment '' @ dbg c @ '' on unit '' @ dbg (cu_id u) @ '' has no routing wall''))
         (filter (\<lambda>c. (cu_id u, c) \<notin> set (projected_walls p)) (cu_compartments u))) (co_units m)) @
     map (\<lambda>r. (MissingRole, ''role '' @ dbg (cr_id r) @ '' (route '' @ dbg (cr_route_label r) @ '') on unit '' @
                 dbg (cr_unit_id r) @ '' is missing from routing org''))
       (filter (\<lambda>r. (cr_unit_id r, cr_route_label r) \<notin> set (projected_routes p)) (co_roles m)) @
     map (\<lambda>(a, b). (MissingEdge, ''reporting edge '' @ dbg a @ '' -> '' @ dbg b @ '' missing from routing edges''))
       (filter (\<lambda>e. e \<notin> set (po_routing_edges p)) (co_edges m))"

definition source_ok :: "compiled_org \<Rightarrow> bool" where
  "source_ok m \<longleftrightarrow>
     (\<forall>r\<in>set (co_roles m). cr_unit_id r \<in> cu_id ` set (co_units m)) \<and>
     (\<forall>(a, b)\<in>set (co_edges m). a \<in> cu_id ` set (co_units m) \<and> b \<in> cu_id ` set (co_units m)) \<and>
     (\<forall>u\<in>set (co_units m). \<forall>c\<in>set (cu_compartments u). trim c \<noteq> [])"

lemma project_walls_cases:
  "case project_walls i cs sync of
     Inl e \<Rightarrow> (\<exists>c\<in>set cs. trim c = [])
   | Inr (ms, sync') \<Rightarrow> (\<forall>c\<in>set cs. trim c \<noteq> []) \<and> map cm_compartment ms = cs \<and>
       sync' = sync\<lparr>ws_mapped := ws_mapped sync @ cs\<rparr>"
proof (induction i cs sync rule: project_walls.induct)
  case (2 i c cs sync)
  show ?case
  proof (cases "trim c = []")
    case True
    then show ?thesis by (simp add: namespace_for_def)
  next
    case False
    then have "namespace_for i c = Some (''compartment/'' @ i @ ''/'' @ trim c)" by (simp add: namespace_for_def Let_def)
    from this "2.IH" [OF this] False show ?thesis
      by (cases "project_walls i cs (sync\<lparr>ws_mapped := ws_mapped sync @ [c]\<rparr>)") (simp_all split: prod.splits)
  qed
qed simp

lemma project_units_cases:
  "case project_units roles us sync of
     Inl e \<Rightarrow> (\<exists>u\<in>set us. \<exists>c\<in>set (cu_compartments u). trim c = [])
   | Inr (pus, sync') \<Rightarrow> (\<forall>u\<in>set us. \<forall>c\<in>set (cu_compartments u). trim c \<noteq> []) \<and>
       map (\<lambda>p. (pu_id p, pu_label p, pu_parent p, pu_role_routes p, map cm_compartment (pu_compartments p))) pus =
       map (\<lambda>u. (cu_id u, cu_label u, cu_parent u, routes_of roles (cu_id u), cu_compartments u)) us \<and>
       sync' = sync\<lparr>ws_mapped := ws_mapped sync @ concat (map cu_compartments us)\<rparr>"
proof (induction roles us sync rule: project_units.induct)
  case (2 roles u us sync)
  show ?case
  proof (cases "project_walls (cu_id u) (cu_compartments u) sync")
    case (Inl e)
    with project_walls_cases [where i = "cu_id u" and cs = "cu_compartments u" and sync = sync] show ?thesis by simp
  next
    case (Inr q)
    obtain ms sync1 where q: "q = (ms, sync1)" by force
    note walls = project_walls_cases [where i = "cu_id u" and cs = "cu_compartments u" and sync = sync]
    show ?thesis
      using walls "2.IH" [of sync1] Inr q
      by (cases "project_units roles us sync1") (auto split: prod.splits)
  qed
qed simp

lemma project_cases:
  "case project m of
     Inl e \<Rightarrow> \<not> source_ok m
   | Inr p \<Rightarrow> source_ok m \<and> po_routing_edges p = co_edges m \<and>
       po_wall_sync p = \<lparr>ws_mapped = concat (map cu_compartments (co_units m)), ws_unmapped = []\<rparr> \<and>
       map (\<lambda>p. (pu_id p, pu_label p, pu_parent p, pu_role_routes p, map cm_compartment (pu_compartments p))) (po_units p) =
       map (\<lambda>u. (cu_id u, cu_label u, cu_parent u, routes_of (co_roles m) (cu_id u), cu_compartments u)) (co_units m)"
proof -
  let ?ids = "cu_id ` set (co_units m)"
  show ?thesis
  proof (cases "find (\<lambda>r. cr_unit_id r \<notin> ?ids) (co_roles m)")
    case (Some r)
    then have "r \<in> set (co_roles m)" "cr_unit_id r \<notin> ?ids"
      by (auto simp: find_Some_iff)
    then have "\<not> source_ok m" by (auto simp: source_ok_def)
    with Some show ?thesis by (simp add: project_def)
  next
    case None
    then have roles: "\<forall>r\<in>set (co_roles m). cr_unit_id r \<in> ?ids" by (simp add: find_None_iff)
    show ?thesis
    proof (cases "find (\<lambda>(a, b). a \<notin> ?ids \<or> b \<notin> ?ids) (co_edges m)")
      case (Some e)
      then have "e \<in> set (co_edges m)" "fst e \<notin> ?ids \<or> snd e \<notin> ?ids"
        by (auto simp: find_Some_iff split_def)
      then have "\<not> source_ok m" by (auto simp: source_ok_def split_def)
      with None Some show ?thesis by (cases e) (simp add: project_def)
    next
      case edges: None
      then have "\<forall>(a, b)\<in>set (co_edges m). a \<in> ?ids \<and> b \<in> ?ids" by (auto simp: find_None_iff)
      with roles have ok: "source_ok m \<longleftrightarrow> (\<forall>u\<in>set (co_units m). \<forall>c\<in>set (cu_compartments u). trim c \<noteq> [])"
        by (simp add: source_ok_def)
      have p: "project m = try_then (project_units (co_roles m) (co_units m) \<lparr>ws_mapped = [], ws_unmapped = []\<rparr>)
          (\<lambda>(us, sync). Inr \<lparr>po_units = us, po_routing_edges = co_edges m, po_wall_sync = sync\<rparr>)"
        using None edges by (simp add: project_def)
      show ?thesis
        using project_units_cases [where roles = "co_roles m" and us = "co_units m" and sync = "\<lparr>ws_mapped = [], ws_unmapped = []\<rparr>"]
        unfolding p ok
        by (cases "project_units (co_roles m) (co_units m) \<lparr>ws_mapped = [], ws_unmapped = []\<rparr>") (auto split: prod.splits)
    qed
  qed
qed

text \<open>
  (C21) The projection fails closed and does not drift: it succeeds exactly on sources whose roles and edges name
  known units and whose compartments are not blank; then every compartment of the source is a wall of its unit,
  the drift gate finds nothing, and the audit report lists all compartments as mapped.
\<close>

theorem projection_fails_closed:
  "case project m of
     Inl e \<Rightarrow> \<not> source_ok m
   | Inr p \<Rightarrow> source_ok m \<and> verify dbg m p = [] \<and>
       map (\<lambda>u. map cm_compartment (pu_compartments u)) (po_units p) = map cu_compartments (co_units m) \<and>
       po_wall_sync p = \<lparr>ws_mapped = concat (map cu_compartments (co_units m)), ws_unmapped = []\<rparr>"
proof (cases "project m")
  case (Inl e)
  with project_cases [of m] show ?thesis by simp
next
  case (Inr p)
  let ?view = "\<lambda>p. (pu_id p, pu_label p, pu_parent p, pu_role_routes p, map cm_compartment (pu_compartments p))"
  let ?src = "\<lambda>u. (cu_id u, cu_label u, cu_parent u, routes_of (co_roles m) (cu_id u), cu_compartments u)"
  from project_cases [of m] Inr have ok: "source_ok m" "po_routing_edges p = co_edges m"
    "po_wall_sync p = \<lparr>ws_mapped = concat (map cu_compartments (co_units m)), ws_unmapped = []\<rparr>"
    and units: "map ?view (po_units p) = map ?src (co_units m)" by auto
  have lift: "map (\<lambda>u. g (?view u)) (po_units p) = map (\<lambda>u. g (?src u)) (co_units m)" for g
    using arg_cong [OF units, of "map g"] by (simp add: comp_def)
  have comps: "map (\<lambda>u. map cm_compartment (pu_compartments u)) (po_units p) = map cu_compartments (co_units m)"
    using lift [of "\<lambda>(_, _, _, _, c). c"] by simp
  have walls: "projected_walls p = concat (map (\<lambda>u. map (Pair (cu_id u)) (cu_compartments u)) (co_units m))"
    using arg_cong [OF lift [of "\<lambda>(i, _, _, _, c). map (Pair i) c"], of concat]
    by (simp add: projected_walls_def comp_def)
  have routes: "projected_routes p = concat (map (\<lambda>u. map (Pair (cu_id u)) (routes_of (co_roles m) (cu_id u))) (co_units m))"
    using arg_cong [OF lift [of "\<lambda>(i, _, _, r, _). map (Pair i) r"], of concat]
    by (simp add: projected_routes_def)
  have "\<forall>u\<in>set (co_units m). \<forall>c\<in>set (cu_compartments u). (cu_id u, c) \<in> set (projected_walls p)"
    by (auto simp: walls)
  moreover have "\<forall>r\<in>set (co_roles m). (cr_unit_id r, cr_route_label r) \<in> set (projected_routes p)"
    using ok(1) by (fastforce simp: routes routes_of_def source_ok_def)
  ultimately have "verify dbg m p = []"
    using ok(2) by (auto simp: verify_def filter_empty_conv)
  with Inr ok comps show ?thesis by simp
qed

text \<open>The walls of different units can share a memory namespace: the name is not escaped, and it is trimmed.\<close>

lemma namespaces_collide:
  "namespace_for ''a'' ''b/c'' = namespace_for ''a/b'' ''c''"
  "namespace_for ''a'' ''deal'' = namespace_for ''a'' '' deal''"
  by (simp_all add: namespace_for_def trim_def is_ws_def Let_def)

end
