(* ===== verification/Recall.thy ===== *)
theory Recall
  imports Org
begin

text \<open>
  What an agent remembers across turns (\<open>crates/memory/src\<close>): the long-term store (\<open>long_term.rs\<close>), the
  tools that let a model write to it (\<open>memory_tools.rs\<close>), and the two memory strategies that turn stored items
  into prompt chunks under a budget (\<open>recency.rs\<close>, \<open>summarizing.rs\<close>). Embeddings and scores are \<open>f32\<close> bit
  patterns; the cosine and the order of scores are arguments.
\<close>

subsection \<open>The long-term store (long\_term.rs)\<close>

type_synonym embedding = "u32 list"

record store_item =
  si_namespace :: "string list"
  si_key :: string
  si_value :: json
  si_embedding :: "embedding option"
  si_score :: u32
  si_created_at_ms :: int
  si_updated_at_ms :: int

definition is_prefix_of :: "string list \<Rightarrow> string list \<Rightarrow> bool" where
  "is_prefix_of a b = (if length a > length b then False else list_all (\<lambda>(x, y). x = y) (zip a b))"

definition addressed :: "string list \<Rightarrow> string \<Rightarrow> store_item \<Rightarrow> bool" where
  "addressed ns key i \<longleftrightarrow> si_namespace i = ns \<and> si_key i = key"

definition ls_put ::
  "store_item list \<Rightarrow> int \<Rightarrow> string list \<Rightarrow> string \<Rightarrow> json \<Rightarrow> embedding option \<Rightarrow> store_item list" where
  "ls_put s now ns key v emb =
     (if find (addressed ns key) s \<noteq> None
      then modify_first (addressed ns key)
             (\<lambda>slot. slot\<lparr>si_value := v, si_embedding := (if emb \<noteq> None then emb else si_embedding slot),
                si_updated_at_ms := now\<rparr>) s
      else s @ [\<lparr>si_namespace = ns, si_key = key, si_value = v, si_embedding = emb, si_score = 0,
                 si_created_at_ms = now, si_updated_at_ms = now\<rparr>])"

definition ls_get :: "store_item list \<Rightarrow> string list \<Rightarrow> string \<Rightarrow> store_item option" where
  "ls_get s ns key = find (addressed ns key) s"

definition ls_delete :: "store_item list \<Rightarrow> string list \<Rightarrow> string \<Rightarrow> store_item list" where
  "ls_delete s ns key = filter (\<lambda>i. \<not> addressed ns key i) s"

definition ls_search ::
  "(embedding \<Rightarrow> embedding \<Rightarrow> u32) \<Rightarrow> (u32 \<Rightarrow> int) \<Rightarrow> store_item list \<Rightarrow> string list \<Rightarrow> embedding option \<Rightarrow> nat \<Rightarrow>
   store_item list" where
  "ls_search cosine score_ord s ns query top_k =
     (let hits = filter (\<lambda>i. is_prefix_of ns (si_namespace i)) s in
      take top_k
        (case query of
           Some q \<Rightarrow>
             sort_key (\<lambda>i. - score_ord (si_score i))
               (map (\<lambda>h. h\<lparr>si_score := (case si_embedding h of Some e \<Rightarrow> cosine q e | None \<Rightarrow> 0)\<rparr>) hits)
         | None \<Rightarrow> sort_key (\<lambda>i. - si_updated_at_ms i) hits))"

fun ls_namespaces :: "store_item list \<Rightarrow> string list \<Rightarrow> string list list \<Rightarrow> string list list" where
  "ls_namespaces [] p out = out"
| "ls_namespaces (i # s) p out =
     ls_namespaces s p
       (if is_prefix_of p (si_namespace i) \<and> si_namespace i \<notin> set out then out @ [si_namespace i] else out)"

definition ls_list_namespaces :: "store_item list \<Rightarrow> string list \<Rightarrow> string list list" where
  "ls_list_namespaces s p = ls_namespaces s p []"

lemma list_all_zip_prefix: "list_all (\<lambda>(x, y). x = y) (zip a b) \<and> length a \<le> length b \<longleftrightarrow> prefix a b"
  by (induction a b rule: list_induct2') auto

lemma is_prefix_of_prefix: "is_prefix_of a b \<longleftrightarrow> prefix a b"
  by (simp add: is_prefix_of_def list_all_zip_prefix [symmetric] not_less)

text \<open>No address twice.\<close>

definition ls_inv :: "store_item list \<Rightarrow> bool" where
  "ls_inv s \<longleftrightarrow> distinct (map (\<lambda>i. (si_namespace i, si_key i)) s)"

lemma find_addressed: "find (addressed ns key) s = None \<longleftrightarrow> (ns, key) \<notin> (\<lambda>i. (si_namespace i, si_key i)) ` set s"
  by (auto simp: addressed_def find_None_iff image_iff)

lemma ls_put_inv: "ls_inv s \<Longrightarrow> ls_inv (ls_put s now ns key v emb)"
  unfolding ls_inv_def ls_put_def
  by (cases "find (addressed ns key) s") (simp_all add: map_modify_first find_addressed)

lemma ls_delete_inv: "ls_inv s \<Longrightarrow> ls_inv (ls_delete s ns key)"
  by (simp add: ls_inv_def ls_delete_def distinct_map_filter)

lemma ls_get_put_same:
  "ls_get (ls_put s now ns key v emb) ns key =
     Some (case ls_get s ns key of
             None \<Rightarrow> \<lparr>si_namespace = ns, si_key = key, si_value = v, si_embedding = emb, si_score = 0,
                      si_created_at_ms = now, si_updated_at_ms = now\<rparr>
           | Some i \<Rightarrow> i\<lparr>si_value := v, si_embedding := (if emb \<noteq> None then emb else si_embedding i),
                         si_updated_at_ms := now\<rparr>)"
proof (cases "find (addressed ns key) s")
  case None
  then show ?thesis by (simp add: ls_get_def ls_put_def find_append addressed_def)
next
  case (Some i)
  then show ?thesis by (simp add: ls_get_def ls_put_def find_modify_first addressed_def)
qed

lemma ls_get_put_other:
  assumes "(ns', key') \<noteq> (ns, key)"
  shows "ls_get (ls_put s now ns key v emb) ns' key' = ls_get s ns' key'"
proof -
  let ?f = "\<lambda>slot. slot\<lparr>si_value := v, si_embedding := (if emb \<noteq> None then emb else si_embedding slot), si_updated_at_ms := now\<rparr>"
  have *: "find (addressed ns' key') (modify_first (addressed ns key) ?f s) = find (addressed ns' key') s"
    using assms by (intro find_modify_other) (auto simp: addressed_def)
  show ?thesis
  proof (cases "find (addressed ns key) s")
    case None
    then show ?thesis using assms by (auto simp: ls_get_def ls_put_def find_append addressed_def split: option.split)
  next
    case (Some i)
    then show ?thesis by (simp add: ls_get_def ls_put_def * del: not_None_eq)
  qed
qed

lemma ls_get_delete:
  "ls_get (ls_delete s ns key) ns' key' = (if ns' = ns \<and> key' = key then None else ls_get s ns' key')"
  by (auto simp: ls_get_def ls_delete_def find_filter_disjoint addressed_def find_None_iff intro!: find_cong_pred)

lemma set_ls_namespaces:
  "set (ls_namespaces s p out) = set out \<union> {n \<in> si_namespace ` set s. prefix p n} \<and>
   (distinct out \<longrightarrow> distinct (ls_namespaces s p out))"
  by (induction s p out rule: ls_namespaces.induct) (auto simp: is_prefix_of_prefix)

text \<open>
  A write without an embedding keeps the old one: after a tool has replaced a value, semantic search still
  ranks the item by the embedding of the text it replaced.
\<close>

lemma put_keeps_stale_embedding:
  "ls_get s ns key = Some i \<Longrightarrow> si_embedding i = Some e \<Longrightarrow>
   \<exists>j. ls_get (ls_put s now ns key v None) ns key = Some j \<and> si_value j = v \<and> si_embedding j = Some e"
  by (simp add: ls_get_put_same)

subsection \<open>Memory tools (memory\_tools.rs)\<close>

text \<open>The world of the tools is the store and the clock.\<close>

type_synonym memory_world = "store_item list \<times> int"

definition ns_from_value :: "json \<Rightarrow> string list result" where
  "ns_from_value v =
     (case as_array v of
        None \<Rightarrow> Inl (Tool ''namespace must be an array of strings'')
      | Some arr \<Rightarrow> Inr (map (\<lambda>x. case as_str x of Some s \<Rightarrow> s | None \<Rightarrow> []) arr))"

definition arg_or_null :: "json \<Rightarrow> string \<Rightarrow> json" where
  "arg_or_null args k = (case jget args k of Some v \<Rightarrow> v | None \<Rightarrow> Null)"

definition write_memory :: "(memory_world, 'y) tool" where
  "write_memory =
     \<lparr>tl_name = ''write_memory'',
      tl_invoke = (\<lambda>args c (s, now).
        case ns_from_value (arg_or_null args ''namespace'') of
          Inl e \<Rightarrow> (Inl e, (s, now))
        | Inr ns \<Rightarrow>
            (case get_str args ''key'' of
               None \<Rightarrow> (Inl (Tool (''missing '' @ [CHR 0x27] @ ''key'' @ [CHR 0x27])), (s, now))
             | Some key \<Rightarrow>
                 (Inr (obj_of [(''ok'', Bool True), (''key'', String key)]),
                  (ls_put s now ns key (arg_or_null args ''value'') None, now))))\<rparr>"

definition update_memory :: "(memory_world, 'y) tool" where
  "update_memory =
     \<lparr>tl_name = ''update_memory'',
      tl_invoke = (\<lambda>args c (s, now).
        case ns_from_value (arg_or_null args ''namespace'') of
          Inl e \<Rightarrow> (Inl e, (s, now))
        | Inr ns \<Rightarrow>
            (case get_str args ''key'' of
               None \<Rightarrow> (Inl (Tool (''missing '' @ [CHR 0x27] @ ''key'' @ [CHR 0x27])), (s, now))
             | Some key \<Rightarrow>
                 (let prev = map_option si_value (ls_get s ns key) in
                  (Inr (obj_of [(''ok'', Bool True), (''previous'', case prev of Some v \<Rightarrow> v | None \<Rightarrow> Null)]),
                   (ls_put s now ns key (arg_or_null args ''value'') None, now)))))\<rparr>"

definition recall_memory :: "(memory_world, 'y) tool" where
  "recall_memory =
     \<lparr>tl_name = ''recall_memory'',
      tl_invoke = (\<lambda>args c (s, now).
        case ns_from_value (arg_or_null args ''namespace'') of
          Inl e \<Rightarrow> (Inl e, (s, now))
        | Inr ns \<Rightarrow>
            (let top_k = (case get_u64 args ''top_k'' of Some k \<Rightarrow> k | None \<Rightarrow> 5);
                 hits = ls_search (\<lambda>_ _. 0) (\<lambda>_. 0) s ns None top_k in
             (Inr (obj_of [(''items'', Array (map (\<lambda>i. obj_of [(''key'', String (si_key i)), (''value'', si_value i)]) hits))]),
              (s, now))))\<rparr>"

text \<open>The arguments the schemas of the three tools ask for.\<close>

definition memory_args :: "string list \<Rightarrow> string \<Rightarrow> json \<Rightarrow> json" where
  "memory_args ns key v = obj_of [(''namespace'', Array (map String ns)), (''key'', String key), (''value'', v)]"

lemma memory_args_simps [simp]:
  "ns_from_value (arg_or_null (memory_args ns key v) ''namespace'') = Inr ns"
  "get_str (memory_args ns key v) ''key'' = Some key"
  "arg_or_null (memory_args ns key v) ''value'' = v"
  "get_u64 (memory_args ns key v) ''top_k'' = None"
  by (simp_all add: memory_args_def jget_obj_of arg_or_null_def ns_from_value_def get_str_def get_u64_def comp_def)

text \<open>An item of least key in a stable ranking: only others of the same key stand in front of it.\<close>

lemma sort_key_least:
  fixes f :: "'a \<Rightarrow> int"
  assumes "x \<in> set xs" and "\<forall>y\<in>set xs. f x \<le> f y"
  shows "\<exists>front rest. sort_key f xs = front @ x # rest \<and> x \<notin> set front \<and> (\<forall>y\<in>set front. f y = f x)"
proof -
  from assms(1) obtain front rest where s: "sort_key f xs = front @ x # rest" "x \<notin> set front"
    by (metis set_sort split_list_first)
  have "sorted (map f (front @ x # rest))" using sorted_sort_key [of f xs] s(1) by simp
  then have "\<forall>y\<in>set front. f y \<le> f x" by (auto simp: sorted_append)
  moreover have "set front \<subseteq> set xs" using s(1) by (metis set_append set_sort Un_upper1)
  ultimately have "\<forall>y\<in>set front. f y = f x" using assms(2) by (meson order_antisym subsetD)
  with s show ?thesis by blast
qed

text \<open>The other items below a prefix that were written in the same millisecond, and an item as the tool prints it.\<close>

definition rivals :: "int \<Rightarrow> string list \<Rightarrow> string list \<Rightarrow> string \<Rightarrow> store_item list \<Rightarrow> store_item set" where
  "rivals now p ns key s =
     {j \<in> set s. si_updated_at_ms j = now \<and> prefix p (si_namespace j) \<and> (si_namespace j, si_key j) \<noteq> (ns, key)}"

lemma finite_rivals [simp]: "finite (rivals now p ns key s)"
  by (simp add: rivals_def)

definition item_json :: "store_item \<Rightarrow> json" where
  "item_json i = obj_of [(''key'', String (si_key i)), (''value'', si_value i)]"

text \<open>
  (C24) What a model writes to its long-term memory is what it recalls there. Take a store whose items are not newer
  than the clock, and a prefix of the namespace below which at most four other items were written in the same
  millisecond. After a write by the tool a recall under the prefix lists the written item, at most those others in
  front of it, so it comes first when everything stored before is strictly older; an update returns the written
  value, and no other address has changed.
\<close>

theorem written_memory_recalled:
  fixes c :: "'y invoke_ctx"
  assumes "ls_inv s" and "\<forall>i\<in>set s. si_updated_at_ms i \<le> now" and "prefix p ns" and "card (rivals now p ns key s) \<le> 4"
  shows "\<exists>s' front rest. tl_invoke write_memory (memory_args ns key v) c (s, now)
       = (Inr (obj_of [(''ok'', Bool True), (''key'', String key)]), (s', now)) \<and> ls_inv s' \<and>
     tl_invoke recall_memory (obj_of [(''namespace'', Array (map String p))]) c (s', now)
       = (Inr (obj_of [(''items'', Array (map item_json front @ obj_of [(''key'', String key), (''value'', v)] # rest))]), (s', now)) \<and>
     distinct front \<and> set front \<subseteq> rivals now p ns key s \<and> length front + length rest \<le> 4 \<and>
     fst (tl_invoke update_memory (memory_args ns key u) c (s', later))
       = Inr (obj_of [(''ok'', Bool True), (''previous'', v)]) \<and>
     (\<forall>ns' key'. (ns', key') \<noteq> (ns, key) \<longrightarrow> ls_get s' ns' key' = ls_get s ns' key')"
proof -
  let ?s = "ls_put s now ns key v None" and ?hits = "filter (\<lambda>i. is_prefix_of p (si_namespace i)) (ls_put s now ns key v None)"
  let ?rank = "sort_key (\<lambda>i. - si_updated_at_ms i) ?hits"
  obtain i where i: "ls_get ?s ns key = Some i" "si_value i = v" "si_updated_at_ms i = now"
    by (simp add: ls_get_put_same split: option.split)
  then have addr: "i \<in> set ?s" "si_namespace i = ns" "si_key i = key"
    using find_SomeD [OF i(1) [unfolded ls_get_def]] by (simp_all add: addressed_def)
  have inv: "distinct (map (\<lambda>i. (si_namespace i, si_key i)) ?s)"
    using ls_put_inv [OF assms(1)] by (simp add: ls_inv_def)
  have other: "j \<in> set s \<and> (si_namespace j, si_key j) \<noteq> (ns, key)" if "j \<in> set ?s" "j \<noteq> i" for j
  proof -
    let ?a = "(si_namespace j, si_key j)"
    have a: "?a \<noteq> (ns, key)" using that addr inv by (auto simp: distinct_map inj_on_def)
    moreover have "ls_get ?s (si_namespace j) (si_key j) = Some j"
      using find_Some_iff_unique [OF inv, of ?a j] that(1) by (simp add: ls_get_def addressed_def [abs_def])
    ultimately have "ls_get s (si_namespace j) (si_key j) = Some j" using ls_get_put_other by metis
    then have "j \<in> set s" using find_SomeD [of "addressed (si_namespace j) (si_key j)" s j] by (simp add: ls_get_def)
    with a show ?thesis by blast
  qed
  have "i \<in> set ?hits" using addr assms(3) by (simp add: is_prefix_of_prefix)
  moreover have "\<forall>j\<in>set ?hits. - si_updated_at_ms i \<le> - si_updated_at_ms j" using other i(3) assms(2) by force
  ultimately obtain front rest where rank: "?rank = front @ i # rest" "i \<notin> set front"
    "\<forall>y\<in>set front. si_updated_at_ms y = now"
    using sort_key_least [of i ?hits "\<lambda>i. - si_updated_at_ms i"] i(3) by auto
  have "set front \<subseteq> set ?hits" using rank(1) by (metis set_append set_sort Un_upper1)
  then have front: "set front \<subseteq> rivals now p ns key s"
    using other rank(2,3) by (auto simp: rivals_def is_prefix_of_prefix)
  have "distinct ?s" using inv by (simp add: distinct_map)
  then have dist: "distinct front" using rank(1) by (metis distinct_append distinct_filter distinct_sort)
  have "length front \<le> card (rivals now p ns key s)"
    using front dist by (metis card_mono distinct_card finite_rivals)
  with assms(4) have short: "length front \<le> 4" by linarith
  then obtain m where m: "4 = length front + m" using le_Suc_ex by blast
  have top: "take 5 ?rank = front @ i # take m rest" using m by (simp add: rank(1) take_append numeral_eq_Suc)
  have args: "ns_from_value (arg_or_null (obj_of [(''namespace'', Array (map String p))]) ''namespace'') = Inr p"
    "get_u64 (obj_of [(''namespace'', Array (map String p))]) ''top_k'' = None"
    by (simp_all add: arg_or_null_def jget_obj_of ns_from_value_def get_u64_def comp_def)
  show ?thesis
    by (rule exI [of _ ?s], rule exI [of _ front], rule exI [of _ "map item_json (take m rest)"])
       (use m in \<open>simp add: write_memory_def recall_memory_def update_memory_def ls_put_inv assms(1) args ls_search_def top i addr
          ls_get_put_other item_json_def [abs_def] dist front\<close>)
qed

text \<open>Two items of the same millisecond are in the store, one below the prefix: it may stand in front.\<close>

definition demo_store :: "store_item list" where
  "demo_store = ls_put (ls_put (ls_put [] 1 [''user''] ''x'' Null None) 2 [''user''] ''y'' Null None) 2 [''org''] ''z'' Null None"

theorem written_memory_recalled_witness:
  "\<exists>s' front rest. tl_invoke write_memory (memory_args [''user'', ''alice''] ''city'' (String ''NYC''))
         \<lparr>ic_call = demo_ctx, ic_tool_call_id = ''t1'', ic_raw_args = Null\<rparr> (demo_store, 2)
       = (Inr (obj_of [(''ok'', Bool True), (''key'', String ''city'')]), (s', 2)) \<and>
     tl_invoke recall_memory (obj_of [(''namespace'', Array [String ''user''])])
         \<lparr>ic_call = demo_ctx, ic_tool_call_id = ''t1'', ic_raw_args = Null\<rparr> (s', 2)
       = (Inr (obj_of [(''items'', Array (map item_json front @ obj_of [(''key'', String ''city''), (''value'', String ''NYC'')] # rest))]), (s', 2)) \<and>
     set front \<subseteq> {demo_store ! 1}"
proof -
  let ?c = "\<lparr>ic_call = demo_ctx, ic_tool_call_id = ''t1'', ic_raw_args = Null\<rparr>"
  have store: "ls_inv demo_store" "\<forall>i\<in>set demo_store. si_updated_at_ms i \<le> 2" "prefix [''user''] [''user'', ''alice'']"
    by (simp_all add: demo_store_def ls_put_def ls_inv_def addressed_def)
  have r: "rivals 2 [''user''] [''user'', ''alice''] ''city'' demo_store = {demo_store ! 1}"
    by (auto simp: rivals_def demo_store_def ls_put_def addressed_def)
  then have "card (rivals 2 [''user''] [''user'', ''alice''] ''city'' demo_store) \<le> 4" by simp
  from written_memory_recalled [OF store this, of "String ''NYC''" ?c Null 3] r show ?thesis
    by (simp only: list.map) blast
qed

subsection \<open>Recency (recency.rs)\<close>

text \<open>The score \<open>1.0\<close> as a bit pattern.\<close>

definition f32_one :: u32 where
  "f32_one = 0x3F800000"

fun recency_loop ::
  "(json \<Rightarrow> string option) \<Rightarrow> u32 \<Rightarrow> memory_item list \<Rightarrow> token_budget \<Rightarrow> memory_chunk list result \<times> token_budget" where
  "recency_loop print n [] b = (Inr [], b)"
| "recency_loop print n (item # items) b =
     (if tb_remaining b < n then (Inr [], b)
      else (case tb_consume b n of
              Inl e \<Rightarrow> (Inl e, b)
            | Inr b1 \<Rightarrow>
                (case recency_loop print n items b1 of
                   (Inl e, b2) \<Rightarrow> (Inl e, b2)
                 | (Inr cs, b2) \<Rightarrow>
                     (Inr (\<lparr>mc_source_id = mi_id item,
                            mc_text = (case print (mi_payload item) of Some t \<Rightarrow> t | None \<Rightarrow> []),
                            mc_score = f32_one, mc_estimated_tokens = n\<rparr> # cs), b2))))"

definition recency_retrieve ::
  "(memory_namespace \<Rightarrow> nat \<Rightarrow> 'w \<Rightarrow> memory_item list result \<times> 'w) \<Rightarrow> (json \<Rightarrow> string option) \<Rightarrow> nat \<Rightarrow> u32 \<Rightarrow>
   ('w, memory_chunk list) strategy" where
  "recency_retrieve list_items print limit n ctx b w =
     (case list_items (AgentNs (ac_agent_id ctx)) limit w of
        (Inl e, w1) \<Rightarrow> ((Inl e, b), w1)
      | (Inr items, w1) \<Rightarrow> (recency_loop print n items b, w1))"

text \<open>The number of items of cost \<open>n\<close> that fit; items that cost nothing all do.\<close>

definition fitting :: "u32 \<Rightarrow> token_budget \<Rightarrow> nat \<Rightarrow> nat" where
  "fitting n b k = (if n = 0 then k else min k (unat (tb_remaining b) div unat n))"

lemma recency_loop_spec:
  "\<exists>cs. recency_loop print n items b
     = (Inr cs, b\<lparr>tb_remaining := tb_remaining b - of_nat (length cs) * n\<rparr>) \<and>
     map mc_source_id cs = map mi_id (take (length cs) items) \<and>
     length cs = fitting n b (length items) \<and> length cs * unat n \<le> unat (tb_remaining b)"
proof (induction print n items b rule: recency_loop.induct)
  case (2 print n item items b)
  show ?case
  proof (cases "tb_remaining b < n")
    case True
    then have "n \<noteq> 0" "unat (tb_remaining b) < unat n" by (auto simp: word_less_nat_alt)
    with True show ?thesis by (simp add: fitting_def)
  next
    case False
    let ?b = "b\<lparr>tb_remaining := tb_remaining b - n\<rparr>"
    have c: "tb_consume b n = Inr ?b" using False by (simp add: tb_consume_def not_less)
    have le: "unat n \<le> unat (tb_remaining b)" using False by (simp add: word_le_nat_alt not_less)
    have u: "unat (tb_remaining b - n) = unat (tb_remaining b) - unat n"
      using False by (simp add: unat_sub not_less)
    obtain cs where cs: "recency_loop print n items ?b
        = (Inr cs, ?b\<lparr>tb_remaining := tb_remaining ?b - of_nat (length cs) * n\<rparr>)"
      "map mc_source_id cs = map mi_id (take (length cs) items)"
      "length cs = fitting n ?b (length items)" "length cs * unat n \<le> unat (tb_remaining ?b)"
      using 2 [OF False c] by blast
    have "fitting n b (Suc (length items)) = Suc (fitting n ?b (length items))"
    proof (cases "n = 0")
      case True
      then show ?thesis by (simp add: fitting_def)
    next
      case nz: False
      then have "0 < unat n" by (simp add: unat_gt_0)
      then have "unat (tb_remaining b) div unat n = Suc ((unat (tb_remaining b) - unat n) div unat n)"
        using le by (simp add: le_div_geq)
      with nz show ?thesis by (simp add: fitting_def u)
    qed
    moreover have "Suc (length cs) * unat n \<le> unat (tb_remaining b)" using cs(4) le by (simp add: u)
    ultimately show ?thesis
      using False c cs by (simp add: algebra_simps)
  qed
qed (simp add: fitting_def)

text \<open>
  The recency strategy fills its budget exactly: it returns the newest items of the agent's namespace, in the
  store's order, as many as fit at the flat price, charges that price for each and never fails for lack of
  budget.
\<close>

theorem recency_fills_budget:
  fixes w :: "memory_item list"
  defines "list_items \<equiv> \<lambda>ns limit s. (Inr (mem_list s ns limit), s)"
  shows "\<exists>cs. recency_retrieve list_items print limit n ctx b w
      = ((Inr cs, b\<lparr>tb_remaining := tb_remaining b - of_nat (length cs) * n\<rparr>), w) \<and>
    map mc_source_id cs
      = map mi_id (take (length cs) (newest (filter (\<lambda>i. mi_namespace i = AgentNs (ac_agent_id ctx)) w))) \<and>
    length cs = fitting n b (min limit (length (filter (\<lambda>i. mi_namespace i = AgentNs (ac_agent_id ctx)) w))) \<and>
    length cs * unat n \<le> unat (tb_remaining b)"
proof -
  let ?items = "mem_list w (AgentNs (ac_agent_id ctx)) limit"
  obtain cs where cs: "recency_loop print n ?items b = (Inr cs, b\<lparr>tb_remaining := tb_remaining b - of_nat (length cs) * n\<rparr>)"
    "map mc_source_id cs = map mi_id (take (length cs) ?items)"
    "length cs = fitting n b (length ?items)" "length cs * unat n \<le> unat (tb_remaining b)"
    using recency_loop_spec by blast
  have len: "length ?items = min limit (length (filter (\<lambda>i. mi_namespace i = AgentNs (ac_agent_id ctx)) w))"
    by (simp add: mem_list_def newest_def)
  moreover have "length cs \<le> length ?items" using cs(3) by (simp add: fitting_def split: if_splits)
  then have "length cs \<le> limit" using len by simp
  then have "take (length cs) ?items = take (length cs) (newest (filter (\<lambda>i. mi_namespace i = AgentNs (ac_agent_id ctx)) w))"
    by (simp add: mem_list_def min_absorb1)
  ultimately show ?thesis using cs by (auto simp: recency_retrieve_def list_items_def)
qed

subsection \<open>Summaries (summarizing.rs)\<close>

text \<open>The sum of the estimates wraps in a build without overflow checks.\<close>

definition summarize_chunks :: "u32 \<Rightarrow> memory_chunk list \<Rightarrow> memory_chunk list" where
  "summarize_chunks max_tokens chunks =
     (if chunks = [] then chunks
      else let total_tokens = sum_list (map mc_estimated_tokens chunks) in
           if total_tokens \<le> max_tokens then chunks
           else let joined = join_with [lf] (map mc_text chunks);
                    max_chars = unat max_tokens * 4;
                    truncated = (if length joined > max_chars then take max_chars joined else joined)
                in [\<lparr>mc_source_id = ''summary'', mc_text = truncated, mc_score = f32_one,
                     mc_estimated_tokens = max_tokens\<rparr>])"

definition summarizing_retrieve ::
  "('w, memory_chunk list) strategy \<Rightarrow> u32 \<Rightarrow> ('w, memory_chunk list) strategy" where
  "summarizing_retrieve inner max_tokens ctx b w =
     (case inner ctx b w of
        ((Inl e, b1), w1) \<Rightarrow> ((Inl e, b1), w1)
      | ((Inr chunks, b1), w1) \<Rightarrow> ((Inr (summarize_chunks max_tokens chunks), b1), w1))"

text \<open>
  A summary never claims more than its limit: the chunks are the inner strategy's, untouched, when their
  estimates sum to at most the limit, and else one chunk of that estimate with at most four characters a
  token, the beginning of the joined texts. The inner strategy's charge to the budget stays.
\<close>

theorem summary_within_limit:
  assumes "inner ctx b w = ((Inr chunks, b1), w1)"
    and "sum_list (map (unat \<circ> mc_estimated_tokens) chunks) < 2 ^ 32"
  shows "\<exists>cs. summarizing_retrieve inner m ctx b w = ((Inr cs, b1), w1) \<and>
     sum_list (map (unat \<circ> mc_estimated_tokens) cs) \<le> unat m \<and>
     (cs = chunks \<and> sum_list (map (unat \<circ> mc_estimated_tokens) chunks) \<le> unat m \<or>
      sum_list (map (unat \<circ> mc_estimated_tokens) chunks) > unat m \<and>
      (\<exists>c. cs = [c] \<and> length (mc_text c) \<le> 4 * unat m \<and> prefix (mc_text c) (join_with [lf] (map mc_text chunks))))"
proof -
  have unat_sum: "unat (sum_list xs) = sum_list (map unat xs) mod 2 ^ 32" for xs :: "u32 list"
    by (induction xs) (simp_all add: unat_word_ariths mod_simps)
  then have "unat (sum_list (map mc_estimated_tokens chunks)) = sum_list (map (unat \<circ> mc_estimated_tokens) chunks)"
    using assms(2) by simp
  then have le: "sum_list (map mc_estimated_tokens chunks) \<le> m \<longleftrightarrow>
      sum_list (map (unat \<circ> mc_estimated_tokens) chunks) \<le> unat m"
    by (simp add: word_le_nat_alt)
  show ?thesis
    using assms(1) le
    by (auto simp: summarizing_retrieve_def summarize_chunks_def Let_def take_is_prefix not_le)
qed

definition demo_chunk :: "string \<Rightarrow> u32 \<Rightarrow> memory_chunk" where
  "demo_chunk t n = \<lparr>mc_source_id = ''m'', mc_text = t, mc_score = f32_one, mc_estimated_tokens = n\<rparr>"

lemma summary_example:
  "summarizing_retrieve (static_text [demo_chunk ''abcdef'' 3, demo_chunk ''xyz'' 2]) 1 ctx b ()
     = ((Inr [demo_chunk ''abcd'' 1\<lparr>mc_source_id := ''summary''\<rparr>], b), ())"
  by (simp add: summarizing_retrieve_def static_text_def summarize_chunks_def demo_chunk_def Let_def word_le_nat_alt)

theorem summary_within_limit_witness:
  "\<exists>cs. summarizing_retrieve (static_text [demo_chunk ''abcdef'' 3, demo_chunk ''xyz'' 2]) 1
        \<lparr>ac_agent_id = ''a'', ac_user = ''hi''\<rparr> (tb_new 10) () = ((Inr cs, tb_new 10), ()) \<and>
     sum_list (map (unat \<circ> mc_estimated_tokens) cs) \<le> 1"
  using summary_within_limit [of "static_text [demo_chunk ''abcdef'' 3, demo_chunk ''xyz'' 2]"
      "\<lparr>ac_agent_id = ''a'', ac_user = ''hi''\<rparr>" "tb_new 10" "()"
      "[demo_chunk ''abcdef'' 3, demo_chunk ''xyz'' 2]" "tb_new 10" "()" 1]
  by (auto simp: static_text_def demo_chunk_def)

end
