(* ===== verification/Ingest.thy ===== *)
theory Ingest
  imports Strings Recall
begin

text \<open>
  Getting documents into memory (\<open>crates/ingest/src\<close>): the splitters, the metadata stamp that the retrieval
  filters rely on, the pipeline that chains splitters, the embedding cache and the ingestion loop. The recursive
  splitter works on the UTF-8 bytes of the text, since its last resort cuts between bytes; the text of the other
  splitters is ASCII, where characters and bytes coincide. The semantic splitter compares \<open>f32\<close> similarities and is
  not modelled.
\<close>

subsection \<open>UTF-8 text as bytes (the standard library)\<close>

text \<open>
  A text is the list of its bytes. \<open>chars().count()\<close> counts the bytes that start a character, and \<open>utf8_chars\<close> is
  the list of the characters.
\<close>

definition continuation :: "char \<Rightarrow> bool" where
  "continuation c \<longleftrightarrow> 0x80 \<le> (of_char c :: nat) \<and> (of_char c :: nat) \<le> 0xBF"

definition chars_count :: "string \<Rightarrow> nat" where
  "chars_count s = length (filter (\<lambda>c. \<not> continuation c) s)"

function utf8_chars :: "string \<Rightarrow> string list" where
  "utf8_chars [] = []"
| "utf8_chars (c # s) = (c # takeWhile continuation s) # utf8_chars (dropWhile continuation s)"
  by pat_completeness auto
termination by (relation "measure length") (auto simp: le_imp_less_Suc length_dropWhile_le)

text \<open>
  \<open>String::from_utf8_lossy\<close>: the ranges that may follow a first byte; what does not continue a character as they
  demand is replaced by U+FFFD, one for each maximal part of a character.
\<close>

definition follow :: "nat \<Rightarrow> (nat \<times> nat) list option" where
  "follow b =
     (if b < 0x80 then Some []
      else if b < 0xC2 then None
      else if b \<le> 0xDF then Some [(0x80, 0xBF)]
      else if b = 0xE0 then Some [(0xA0, 0xBF), (0x80, 0xBF)]
      else if b = 0xED then Some [(0x80, 0x9F), (0x80, 0xBF)]
      else if b \<le> 0xEF then Some [(0x80, 0xBF), (0x80, 0xBF)]
      else if b = 0xF0 then Some [(0x90, 0xBF), (0x80, 0xBF), (0x80, 0xBF)]
      else if b \<le> 0xF3 then Some [(0x80, 0xBF), (0x80, 0xBF), (0x80, 0xBF)]
      else if b = 0xF4 then Some [(0x80, 0x8F), (0x80, 0xBF), (0x80, 0xBF)]
      else None)"

fun matching :: "(nat \<times> nat) list \<Rightarrow> string \<Rightarrow> nat" where
  "matching ((lo, hi) # rs) (c # s) =
     (if lo \<le> of_char c \<and> of_char c \<le> hi then Suc (matching rs s) else 0)"
| "matching rs s = 0"

definition replacement :: string where
  "replacement = [CHR 0xEF, CHR 0xBF, CHR 0xBD]"

function from_utf8_lossy :: "string \<Rightarrow> string" where
  "from_utf8_lossy [] = []"
| "from_utf8_lossy (c # s) =
     (case follow (of_char c) of
        None \<Rightarrow> replacement @ from_utf8_lossy s
      | Some rs \<Rightarrow>
          (let n = matching rs s
           in (if n = length rs then c # take n s else replacement) @ from_utf8_lossy (drop n s)))"
  by pat_completeness auto
termination by (relation "measure length") auto

definition ascii :: "char \<Rightarrow> bool" where
  "ascii c \<longleftrightarrow> (of_char c :: nat) < 0x80"

lemma ascii_lossy: "\<forall>c\<in>set s. ascii c \<Longrightarrow> from_utf8_lossy s = s"
  by (induction s) (auto simp: ascii_def follow_def)

lemma ascii_chars_count: "\<forall>c\<in>set s. ascii c \<Longrightarrow> chars_count s = length s"
  by (induction s) (auto simp: ascii_def chars_count_def continuation_def)

lemma chars_count_simps [simp]:
  "chars_count [] = 0" "chars_count (s @ t) = chars_count s + chars_count t"
  by (simp_all add: chars_count_def)

lemma chars_count_concat: "chars_count (concat xs) = sum_list (map chars_count xs)"
  by (induction xs) simp_all

lemma no_start [simp]: "filter (\<lambda>c. \<not> continuation c) (takeWhile continuation s) = []"
  by (auto simp: filter_empty_conv dest: set_takeWhileD)

lemma chars_count_char: "c \<in> set (utf8_chars s) \<Longrightarrow> chars_count c \<le> 1"
  by (induction s rule: utf8_chars.induct) (auto simp: chars_count_def)

lemma matching_continuation:
  "(\<forall>(lo, hi)\<in>set rs. 0x80 \<le> lo \<and> hi \<le> 0xBF) \<Longrightarrow> chars_count (take (matching rs s) s) = 0"
  by (induction rs s rule: matching.induct) (auto simp: chars_count_def continuation_def)

lemma follow_continuation: "follow b = Some rs \<Longrightarrow> \<forall>(lo, hi)\<in>set rs. 0x80 \<le> lo \<and> hi \<le> 0xBF"
  by (auto simp: follow_def split: if_splits)

lemma chars_count_replacement: "chars_count replacement = 1"
  by (simp add: replacement_def chars_count_def continuation_def)

text \<open>Decoding bytes yields at most one character for each byte.\<close>

lemma chars_count_lossy: "chars_count (from_utf8_lossy s) \<le> length s"
proof (induction s rule: from_utf8_lossy.induct)
  case (2 c s)
  show ?case
  proof (cases "follow (of_char c)")
    case None
    with 2(1) show ?thesis by (simp add: chars_count_replacement)
  next
    case (Some rs)
    have "chars_count (c # take (matching rs s) s) \<le> 1"
      using matching_continuation [OF follow_continuation [OF Some], of s] by (simp add: chars_count_def)
    moreover have "chars_count (from_utf8_lossy (drop (matching rs s) s)) \<le> length s"
      using 2(2) [OF Some refl] by simp
    ultimately show ?thesis
      using Some chars_count_simps(2) [of "c # take (length rs) s" "from_utf8_lossy (drop (length rs) s)"]
      by (auto simp: Let_def chars_count_replacement simp del: chars_count_simps(2))
        (simp_all add: chars_count_replacement)
  qed
qed simp

subsection \<open>The recursive splitter (splitters.rs)\<close>

record recursive_splitter =
  rs_chunk_size :: nat
  rs_overlap :: nat
  rs_separators :: "string list"

definition recursive_splitter_new :: "nat \<Rightarrow> nat \<Rightarrow> recursive_splitter" where
  "recursive_splitter_new sz overlap =
     \<lparr>rs_chunk_size = sz, rs_overlap = overlap, rs_separators = [[lf, lf], [lf], ''. '', '' '']\<rparr>"

text \<open>The greedy merge of neighbouring parts, with the chunk under construction.\<close>

fun merge_parts :: "nat \<Rightarrow> string \<Rightarrow> string \<Rightarrow> string list \<Rightarrow> string list" where
  "merge_parts sz sep current [] = (if current = [] then [] else [current])"
| "merge_parts sz sep current (p # ps) =
     (if current = [] then merge_parts sz sep p ps
      else if chars_count current + chars_count sep + chars_count p \<le> sz then merge_parts sz sep (current @ sep @ p) ps
      else current # merge_parts sz sep p ps)"

definition tail_chars :: "nat \<Rightarrow> string \<Rightarrow> string" where
  "tail_chars n s = concat (rev (take n (rev (utf8_chars s))))"

definition stitch :: "nat \<Rightarrow> string list \<Rightarrow> string list" where
  "stitch overlap out =
     (case out of [] \<Rightarrow> [] | c # cs \<Rightarrow> c # map2 (\<lambda>prev c. tail_chars overlap prev @ c) out cs)"

text \<open>\<open>split\<close> on the bytes of a text: the empty pattern matches between characters, any other one at its bytes.\<close>

definition split_text :: "string \<Rightarrow> string \<Rightarrow> string list" where
  "split_text sep s = (if sep = [] then [] # utf8_chars s @ [[]] else split_on sep s)"

text \<open>
  The separators still to be tried replace the index into the vector; when none is left, the bytes are sliced and
  every slice is decoded by itself.
\<close>

fun split_recursive :: "nat \<Rightarrow> nat \<Rightarrow> string list \<Rightarrow> string \<Rightarrow> string list" where
  "split_recursive sz overlap [] body =
     (if chars_count body \<le> sz then [body] else map from_utf8_lossy (slices sz body))"
| "split_recursive sz overlap (sep # seps) body =
     (if chars_count body \<le> sz then [body]
      else let parts = split_text sep body in
           if length parts = 1 then split_recursive sz overlap seps body
           else let out = concat (map (\<lambda>c. if chars_count c > sz then split_recursive sz overlap seps c else [c])
                                      (merge_parts sz sep [] parts)) in
                if overlap > 0 then stitch overlap out else out)"

definition numbered :: "document \<Rightarrow> string \<Rightarrow> string list \<Rightarrow> document list" where
  "numbered d tag texts =
     map (\<lambda>(i, t). \<lparr>doc_id = doc_id d @ tag @ show_nat i, doc_text = t, doc_metadata = doc_metadata d, doc_score = 0\<rparr>)
       (enumerate 0 texts)"

definition recursive_split :: "recursive_splitter \<Rightarrow> document \<Rightarrow> document list" where
  "recursive_split s d =
     numbered d ''#chunk'' (split_recursive (rs_chunk_size s) (rs_overlap s) (rs_separators s) (doc_text d))"

lemma chars_count_tail: "chars_count (tail_chars n s) \<le> n"
proof -
  have "sum_list (map chars_count cs) \<le> length cs" if "\<forall>c\<in>set cs. chars_count c \<le> 1" for cs
    using that by (induction cs) auto
  then have "sum_list (map chars_count (rev (take n (rev (utf8_chars s))))) \<le> n"
    using chars_count_char by (metis (no_types, lifting) in_set_takeD length_rev length_take min.bounded_iff set_rev)
  then show ?thesis by (simp add: tail_chars_def chars_count_concat)
qed

lemma in_set_map2:
  "y \<in> set (map2 f xs ys) \<Longrightarrow> \<exists>a\<in>set xs. \<exists>b\<in>set ys. y = f a b"
  by (auto dest: set_zip_leftD set_zip_rightD)

lemma stitch_bound:
  assumes "\<forall>c\<in>set out. chars_count c \<le> n" and "c \<in> set (stitch k out)"
  shows "chars_count c \<le> n + k"
proof (cases out)
  case (Cons x xs)
  then consider "c = x" | a b where "b \<in> set xs" "c = tail_chars k a @ b"
    using assms(2) by (auto simp: stitch_def dest: set_zip_rightD)
  then show ?thesis
  proof cases
    case 2
    then show ?thesis using assms(1) Cons chars_count_tail [of k a] by fastforce
  qed (use assms(1) Cons in auto)
qed (use assms(2) in \<open>simp add: stitch_def\<close>)

lemma slice_bound: "c \<in> from_utf8_lossy ` set (slices sz body) \<Longrightarrow> chars_count c \<le> max 1 sz"
  using length_slice [of _ sz body] chars_count_lossy le_trans by blast

lemma split_recursive_bound:
  "c \<in> set (split_recursive sz overlap seps body) \<Longrightarrow> chars_count c \<le> max 1 sz + length seps * overlap"
proof (induction sz overlap seps body arbitrary: c rule: split_recursive.induct)
  case (1 sz overlap body)
  then show ?case by (auto split: if_splits dest!: slice_bound [simplified])
next
  case (2 sz overlap sep seps body)
  let ?n = "max 1 sz + length seps * overlap"
  let ?out = "concat (map (\<lambda>c. if chars_count c > sz then split_recursive sz overlap seps c else [c])
                        (merge_parts sz sep [] (split_text sep body)))"
  consider "chars_count body \<le> sz" | "chars_count body > sz" "length (split_text sep body) = 1"
    | "chars_count body > sz" "length (split_text sep body) \<noteq> 1" by linarith
  then show ?case
  proof cases
    case 1
    then show ?thesis using 2(3) by simp
  next
    case 2
    then show ?thesis using "2.IH"(1) [of "split_text sep body" c] "2.prems" by simp
  next
    case 3
    have "chars_count c \<le> ?n" if "c \<in> set ?out" for c
      using that "2.IH"(2) [of "split_text sep body"] 3 by (fastforce split: if_splits)
    then have out: "\<forall>c\<in>set ?out. chars_count c \<le> ?n" by blast
    then have "\<forall>c\<in>set (stitch overlap ?out). chars_count c \<le> ?n + overlap" using stitch_bound by blast
    with out 3 "2.prems" show ?thesis by (fastforce simp: Let_def split: if_splits)
  qed
qed

text \<open>What is kept of a text: everything but the characters of separators.\<close>

definition content :: "string list \<Rightarrow> string \<Rightarrow> string" where
  "content seps s = filter (\<lambda>c. \<forall>sep\<in>set seps. c \<notin> set sep) s"

lemma content_append [simp]: "content seps (s @ t) = content seps s @ content seps t"
  and content_Nil [simp]: "content seps [] = []"
  and content_concat: "content seps (concat xs) = concat (map (content seps) xs)"
  by (simp_all add: content_def [abs_def] filter_concat)

lemma content_sep: "sep \<in> set seps \<Longrightarrow> content seps sep = []"
  by (auto simp: content_def filter_empty_conv)

lemma content_join: "content seps sep = [] \<Longrightarrow> content seps (join_with sep ps) = concat (map (content seps) ps)"
  by (induction sep ps rule: join_with.induct) auto

lemma content_merge:
  "content seps sep = [] \<Longrightarrow> concat (map (content seps) (merge_parts sz sep current ps))
     = content seps current @ concat (map (content seps) ps)"
  by (induction sz sep current ps rule: merge_parts.induct) auto

lemma concat_map_refined:
  "(\<And>c. c \<in> set xs \<Longrightarrow> concat (map g (f c)) = g c) \<Longrightarrow> concat (map g (concat (map f xs))) = concat (map g xs)"
  by (induction xs) auto

lemma concat_utf8_chars [simp]: "concat (utf8_chars s) = s"
  by (induction s rule: utf8_chars.induct) auto

lemma join_split_text: "join_with sep (split_text sep s) = s"
  by (simp add: split_text_def join_split_on join_empty_sep)

lemma set_join_with: "p \<in> set ps \<Longrightarrow> set p \<subseteq> set (join_with sep ps)"
  by (induction sep ps rule: join_with.induct) auto

lemma set_merge_parts:
  "c \<in> set (merge_parts sz sep current ps) \<Longrightarrow> set c \<subseteq> set sep \<union> set current \<union> (\<Union>p\<in>set ps. set p)"
  by (induction sz sep current ps rule: merge_parts.induct) (auto split: if_splits)

lemma merged_ascii:
  assumes "\<forall>c\<in>set body \<union> set sep. ascii c" and "c \<in> set (merge_parts sz sep [] (split_text sep body))"
  shows "\<forall>x\<in>set c. ascii x"
  using set_merge_parts [OF assms(2)] set_join_with [of _ "split_text sep body" sep] assms(1)
  by (auto simp: join_split_text)

lemma split_recursive_content:
  "set seps \<subseteq> set all \<Longrightarrow> \<forall>sep\<in>set seps. \<forall>x\<in>set sep. ascii x \<Longrightarrow> \<forall>x\<in>set body. ascii x \<Longrightarrow>
     concat (map (content all) (split_recursive sz 0 seps body)) = content all body"
proof (induction sz "0 :: nat" seps body rule: split_recursive.induct)
  case (1 sz body)
  have "map from_utf8_lossy (slices sz body) = slices sz body"
  proof (rule map_idI)
    fix x assume "x \<in> set (slices sz body)"
    then have "set x \<subseteq> set (concat (slices sz body))" by (auto simp del: concat_slices)
    then show "from_utf8_lossy x = x" using 1(3) by (intro ascii_lossy) auto
  qed
  then show ?case by (simp add: content_concat [symmetric])
next
  case (2 sz sep seps body)
  let ?f = "\<lambda>c. if chars_count c > sz then split_recursive sz 0 seps c else [c]"
  have sub: "set seps \<subseteq> set all" and sep: "content all sep = []" and asc: "\<forall>sep\<in>set seps. \<forall>x\<in>set sep. ascii x"
    using "2.prems" by (auto intro: content_sep)
  consider "chars_count body \<le> sz" | "chars_count body > sz" "length (split_text sep body) = 1"
    | "chars_count body > sz" "length (split_text sep body) \<noteq> 1" by linarith
  then show ?case
  proof cases
    case 2
    then show ?thesis using "2.hyps"(1) [of "split_text sep body"] sub asc "2.prems"(3) by simp
  next
    case 3
    have "concat (map (content all) (?f c)) = content all c" if "c \<in> set (merge_parts sz sep [] (split_text sep body))" for c
    proof -
      have "\<forall>x\<in>set c. ascii x" using merged_ascii [OF _ that] "2.prems"(2,3) by auto
      then show ?thesis using "2.hyps"(2) [of "split_text sep body" c] that sub asc 3 by simp
    qed
    then have "concat (map (content all) (concat (map ?f (merge_parts sz sep [] (split_text sep body)))))
        = concat (map (content all) (merge_parts sz sep [] (split_text sep body)))"
      by (rule concat_map_refined)
    also have "\<dots> = content all (join_with sep (split_text sep body))"
      by (simp add: content_merge content_join sep)
    also have "\<dots> = content all body" by (simp add: join_split_text)
    finally show ?thesis using 3 by simp
  qed simp
qed

text \<open>The overlap only puts text in front of the chunks.\<close>

lemma stitch_suffix: "list_all2 suffix xs ys \<Longrightarrow> list_all2 suffix xs (stitch k ys)"
proof (induction xs ys rule: list_all2_induct)
  case (Cons x xs y ys)
  have "list_all2 suffix xs (map2 (\<lambda>prev c. tail_chars k prev @ c) zs ys)" if "length zs > length ys" for zs
    using \<open>list_all2 suffix xs ys\<close> that
    by (auto simp: list_all2_conv_all_nth suffix_def intro: exI [of _ "_ @ _"])
  from this [of "y # ys"] Cons(1) show ?case by (simp add: stitch_def)
qed (simp add: stitch_def)

lemma list_all2_concat_map:
  "(\<And>c. c \<in> set cs \<Longrightarrow> list_all2 R (f c) (g c)) \<Longrightarrow> list_all2 R (concat (map f cs)) (concat (map g cs))"
  by (induction cs) (auto intro: list_all2_appendI)

lemma split_recursive_overlap:
  "list_all2 suffix (split_recursive sz 0 seps body) (split_recursive sz overlap seps body)"
proof (induction sz overlap seps body rule: split_recursive.induct)
  case (1 sz overlap body)
  show ?case by (simp add: list_all2_refl)
next
  case (2 sz overlap sep seps body)
  let ?f = "\<lambda>overlap c. if chars_count c > sz then split_recursive sz overlap seps c else [c]"
  consider "chars_count body \<le> sz" | "chars_count body > sz" "length (split_text sep body) = 1"
    | "chars_count body > sz" "length (split_text sep body) \<noteq> 1" by linarith
  then show ?case
  proof cases
    case 2
    then show ?thesis using "2.IH"(1) [of "split_text sep body"] by simp
  next
    case 3
    have "list_all2 suffix (concat (map (?f 0) (merge_parts sz sep [] (split_text sep body))))
        (concat (map (?f overlap) (merge_parts sz sep [] (split_text sep body))))"
      using "2.IH"(2) [of "split_text sep body"] 3 by (intro list_all2_concat_map) auto
    then show ?thesis using 3 stitch_suffix by (auto simp: Let_def)
  qed simp
qed

text \<open>
  (C22) Recursive splitting of ASCII text loses nothing but separator characters: without overlap the content of the
  chunks, in order, is the content of the text. Of any text it keeps the chunks small, at most the chunk size in
  characters (one, when that is zero), and the overlap of \<open>k\<close> characters only puts text in front of those same
  chunks; since every level of the recursion adds it again, a chunk can exceed the size by \<open>k\<close> for each separator.
  Of other than ASCII text the last resort, which cuts between bytes, can destroy characters
  (\<open>hard_slices_break_characters\<close>).
\<close>

theorem recursive_split_complete:
  "((\<forall>c\<in>set (doc_text d) \<union> \<Union> (set ` set (rs_separators s)). ascii c) \<longrightarrow>
      concat (map (content (rs_separators s)) (map doc_text (recursive_split (s\<lparr>rs_overlap := 0\<rparr>) d)))
        = content (rs_separators s) (doc_text d)) \<and>
   list_all2 suffix (map doc_text (recursive_split (s\<lparr>rs_overlap := 0\<rparr>) d)) (map doc_text (recursive_split s d)) \<and>
   (\<forall>c. c \<in> doc_text ` set (recursive_split s d) \<longrightarrow>
      chars_count c \<le> max 1 (rs_chunk_size s) + length (rs_separators s) * rs_overlap s)"
proof -
  have texts: "map doc_text (numbered d tag ts) = ts" for tag ts
    by (simp add: numbered_def comp_def case_prod_unfold)
  then have "doc_text ` set (recursive_split s d)
      = set (split_recursive (rs_chunk_size s) (rs_overlap s) (rs_separators s) (doc_text d))"
    unfolding recursive_split_def by (metis set_map)
  moreover have "concat (map (content (rs_separators s)) (split_recursive (rs_chunk_size s) 0 (rs_separators s) (doc_text d)))
      = content (rs_separators s) (doc_text d)"
    if "\<forall>c\<in>set (doc_text d) \<union> \<Union> (set ` set (rs_separators s)). ascii c"
    using that by (intro split_recursive_content) auto
  ultimately show ?thesis
    by (auto simp: recursive_split_def texts split_recursive_overlap
        split_recursive_bound [unfolded One_nat_def] simp del: map_map)
qed

text \<open>
  Two levels of separators and an overlap of four: a chunk of twelve characters where five were asked for,
  with the same four characters in front twice.
\<close>

lemma overlap_is_applied_twice:
  "split_recursive 5 4 [''. '', '' ''] ''ab. cdef ghij'' = [''ab'', ''abcdef'', ''cdefcdefghij'']"
  by code_simp

text \<open>
  Two characters of two bytes each, to be cut into chunks of one character: each byte is decoded by itself, and
  four replacement characters are left of the text.
\<close>

lemma hard_slices_break_characters:
  "split_recursive 1 0 [] [CHR 0xC3, CHR 0xA4, CHR 0xC3, CHR 0xB6] =
     [replacement, replacement, replacement, replacement]"
  by code_simp

theorem recursive_split_complete_witness:
  "concat (map (content [''. '', '' '']) (map doc_text
       (recursive_split \<lparr>rs_chunk_size = 5, rs_overlap = 0, rs_separators = [''. '', '' '']\<rparr> (demo_doc\<lparr>doc_text := ''ab. cdefghi jk''\<rparr>))))
     = ''abcdefghijk''"
proof -
  have "\<forall>c\<in>set ''ab. cdefghi jk'' \<union> \<Union> (set ` set [''. '', '' '']). ascii c" by (simp add: ascii_def)
  then show ?thesis
    using recursive_split_complete [of "demo_doc\<lparr>doc_text := ''ab. cdefghi jk''\<rparr>"
        "\<lparr>rs_chunk_size = 5, rs_overlap = 4, rs_separators = [''. '', '' '']\<rparr>"]
    by (simp add: content_def)
qed

subsection \<open>The token splitter (splitters.rs)\<close>

record token_splitter =
  ts_max_tokens :: nat
  ts_overlap_tokens :: nat

definition token_step :: "token_splitter \<Rightarrow> nat" where
  "token_step s = max (ts_max_tokens s - ts_overlap_tokens s) 1"

text \<open>The windows from a position on.\<close>

function token_windows :: "token_splitter \<Rightarrow> string list \<Rightarrow> nat \<Rightarrow> string list list" where
  "token_windows s toks start =
     (if start < length toks
      then let e = min (start + ts_max_tokens s) (length toks) in
           drop start (take e toks) # (if e = length toks then [] else token_windows s toks (start + token_step s))
      else [])"
  by pat_completeness auto
termination by (relation "measure (\<lambda>(s, toks, start). length toks - start)") (auto simp: token_step_def)

declare token_windows.simps [simp del]

definition token_split :: "token_splitter \<Rightarrow> document \<Rightarrow> document list" where
  "token_split s d =
     numbered d ''#tk'' (map (join_with '' '') (token_windows s (split_whitespace (doc_text d)) 0))"

text \<open>The overlap that two neighbouring windows really have.\<close>

definition real_overlap :: "token_splitter \<Rightarrow> nat" where
  "real_overlap s = min (ts_overlap_tokens s) (ts_max_tokens s - 1)"

lemma token_windows_spec:
  assumes "0 < ts_max_tokens s" and "start < length toks"
  shows "\<exists>w ws. token_windows s toks start = w # ws \<and>
    w @ concat (map (drop (real_overlap s)) ws) = drop start toks \<and>
    w = take (ts_max_tokens s) (drop start toks) \<and> (\<forall>v\<in>set ws. length v \<le> ts_max_tokens s)"
  using assms(2)
proof (induction "length toks - start" arbitrary: start rule: less_induct)
  case less
  let ?m = "ts_max_tokens s" and ?k = "real_overlap s"
  show ?case
  proof (cases "start + ?m < length toks")
    case False
    then show ?thesis using less.prems by (subst token_windows.simps) (simp add: Let_def min_def)
  next
    case True
    have step: "token_step s + ?k = ?m" "0 < token_step s" using assms(1)
      by (auto simp: token_step_def real_overlap_def)
    have "length toks - (start + token_step s) < length toks - start" "start + token_step s < length toks"
      using step True less.prems by linarith+
    from less.hyps [OF this] obtain w ws where w: "token_windows s toks (start + token_step s) = w # ws"
      "w @ concat (map (drop ?k) ws) = drop (start + token_step s) toks"
      "w = take ?m (drop (start + token_step s) toks)" "\<forall>v\<in>set ws. length v \<le> ?m" by blast
    have "?k \<le> length w" using step True by (simp add: w(3))
    then have "drop ?k w @ concat (map (drop ?k) ws) = drop ?k (drop (start + token_step s) toks)"
      unfolding w(2) [symmetric] by simp
    also have "\<dots> = drop (start + ?m) toks" using step by (simp add: add.commute add.left_commute)
    finally have rest: "drop ?k w @ concat (map (drop ?k) ws) = drop (start + ?m) toks" .
    have "token_windows s toks start = take ?m (drop start toks) # w # ws"
      using True less.prems by (subst token_windows.simps) (simp add: Let_def min_def w(1) drop_take)
    moreover have "take ?m (drop start toks) @ drop (start + ?m) toks = drop start toks"
      by (metis append_take_drop_id add.commute drop_drop)
    ultimately show ?thesis using rest w(3,4) by simp
  qed
qed

text \<open>
  The token splitter covers the text: with a positive limit the first window followed by each later one
  without its overlap is the token sequence, and no window has more tokens than the limit. The overlap is the
  one asked for, cut to one less than the limit.
\<close>

theorem token_windows_cover:
  assumes "0 < ts_max_tokens s" and "split_whitespace (doc_text d) \<noteq> []"
  shows "\<exists>w ws. map doc_text (token_split s d) = map (join_with '' '') (w # ws) \<and>
    w @ concat (map (drop (real_overlap s)) ws) = split_whitespace (doc_text d) \<and>
    (\<forall>v. v \<in> set (w # ws) \<longrightarrow> length v \<le> ts_max_tokens s)"
proof -
  have "map doc_text (numbered d tag ts) = ts" for tag ts
    by (simp add: numbered_def comp_def case_prod_unfold)
  then show ?thesis
    using token_windows_spec [OF assms(1), of 0 "split_whitespace (doc_text d)"] assms(2)
    by (auto simp: token_split_def simp del: map_map) (metis list.simps(9) length_take min.cobounded2 set_ConsD)
qed

theorem token_windows_cover_witness:
  "\<exists>w ws. map doc_text (token_split \<lparr>ts_max_tokens = 3, ts_overlap_tokens = 1\<rparr> (demo_doc\<lparr>doc_text := ''a b c d e''\<rparr>))
       = map (join_with '' '') (w # ws) \<and>
     w @ concat (map (drop 1) ws) = [''a'', ''b'', ''c'', ''d'', ''e'']"
proof -
  let ?s = "\<lparr>ts_max_tokens = 3, ts_overlap_tokens = 1\<rparr>" and ?d = "demo_doc\<lparr>doc_text := ''a b c d e''\<rparr>"
  have toks: "split_whitespace (doc_text ?d) = [''a'', ''b'', ''c'', ''d'', ''e'']"
    by (simp add: split_whitespace_def is_ws_def)
  have "0 < ts_max_tokens ?s" "split_whitespace (doc_text ?d) \<noteq> []" unfolding toks by simp_all
  from token_windows_cover [OF this] obtain w ws where
    "map doc_text (token_split ?s ?d) = map (join_with '' '') (w # ws)"
    "w @ concat (map (drop (real_overlap ?s)) ws) = split_whitespace (doc_text ?d)" by blast
  then show ?thesis unfolding toks by (intro exI [of _ w] exI [of _ ws]) (simp add: real_overlap_def)
qed

text \<open>With a limit of zero every token gives an empty document.\<close>

lemma token_windows_zero:
  "ts_max_tokens s = 0 \<Longrightarrow> start \<le> length toks \<Longrightarrow>
   token_windows s toks start = replicate (length toks - start) []"
proof (induction "length toks - start" arbitrary: start)
  case (Suc n)
  then have "start < length toks" "n = length toks - Suc start" by simp_all
  with Suc show ?case by (subst token_windows.simps) (simp add: token_step_def Suc_diff_Suc flip: replicate_Suc)
qed (subst token_windows.simps, simp)

subsection \<open>Splitting by headers and by code (splitters.rs)\<close>

text \<open>
  The level is counted in a \<open>u8\<close>. A header line opens a section; every other line goes to the section that is
  open.
\<close>

definition header_level :: "string \<Rightarrow> nat" where
  "header_level trimmed = length (takeWhile (\<lambda>c. c = CHR 0x23) trimmed) mod 256"

definition is_header :: "nat \<Rightarrow> string \<Rightarrow> bool" where
  "is_header max_level line =
     (let trimmed = trim_start line; level = header_level trimmed in
      level > 0 \<and> level \<le> max_level \<and> level < length trimmed \<and> trimmed ! level = CHR 0x20)"

definition header_title :: "string \<Rightarrow> string" where
  "header_title line = trim (dropWhile (\<lambda>c. c = CHR 0x23) (trim_start line))"

fun markdown_sections :: "nat \<Rightarrow> string list \<Rightarrow> string \<Rightarrow> string \<Rightarrow> (string \<times> string) list" where
  "markdown_sections max_level [] header body =
     (if body \<noteq> [] \<or> header \<noteq> [] then [(header, body)] else [])"
| "markdown_sections max_level (line # ls) header body =
     (if is_header max_level line
      then (if body \<noteq> [] \<or> header \<noteq> [] then [(header, body)] else []) @
           markdown_sections max_level ls (header_title line) []
      else markdown_sections max_level ls header (body @ line @ [lf]))"

definition section_text :: "string \<times> string \<Rightarrow> string" where
  "section_text s = (if fst s = [] then snd s else ''# '' @ fst s @ [lf] @ snd s)"

definition markdown_split :: "nat \<Rightarrow> document \<Rightarrow> document list" where
  "markdown_split max_level d =
     numbered d ''#section'' (map section_text (markdown_sections max_level (lines_of (doc_text d)) [] []))"

lemma markdown_bodies:
  "concat (map snd (markdown_sections m ls header body)) = body @ unlines (filter (\<lambda>l. \<not> is_header m l) ls)"
  by (induction m ls header body rule: markdown_sections.induct) auto

lemma markdown_headers:
  "filter (\<lambda>h. h \<noteq> []) (map fst (markdown_sections m ls header body))
     = filter (\<lambda>h. h \<noteq> []) (header # map header_title (filter (is_header m) ls))"
  by (induction m ls header body rule: markdown_sections.induct) auto

datatype code_lang = RustLang | Python | Js

fun starters :: "code_lang \<Rightarrow> string list" where
  "starters RustLang = [''fn '', ''pub fn '', ''struct '', ''pub struct '', ''impl '', ''trait '']"
| "starters Python = [''def '', ''class '']"
| "starters Js = [''function '', ''class '']"

definition starts_item :: "code_lang \<Rightarrow> string \<Rightarrow> bool" where
  "starts_item lang line = list_ex (\<lambda>s. starts_with s (trim_start line)) (starters lang)"

fun code_chunks :: "code_lang \<Rightarrow> string list \<Rightarrow> string \<Rightarrow> string list" where
  "code_chunks lang [] buf = (if buf = [] then [] else [buf])"
| "code_chunks lang (line # ls) buf =
     (if starts_item lang line \<and> buf \<noteq> [] then buf # code_chunks lang ls (line @ [lf])
      else code_chunks lang ls (buf @ line @ [lf]))"

definition code_split :: "code_lang \<Rightarrow> document \<Rightarrow> document list" where
  "code_split lang d = numbered d ''#code'' (code_chunks lang (lines_of (doc_text d)) [])"

lemma code_chunks_concat: "concat (code_chunks lang ls buf) = buf @ unlines ls"
  by (induction lang ls buf rule: code_chunks.induct) auto

lemma texts_numbered [simp]: "map doc_text (numbered d tag ts) = ts"
  by (simp add: numbered_def comp_def case_prod_unfold)

text \<open>
  The line splitters keep the text. The code splitter's chunks put together are the text with its last line
  ended; the sections of the markdown splitter carry exactly the lines that are no headers, in order, under
  exactly the titles that are not blank.
\<close>

theorem line_splitters_complete:
  assumes "cr \<notin> set (doc_text d)"
  shows "concat (map doc_text (code_split lang d)) = end_line (doc_text d) \<and>
    (\<exists>sections. map doc_text (markdown_split m d) = map section_text sections \<and>
       concat (map snd sections) = unlines (filter (\<lambda>l. \<not> is_header m l) (lines_of (doc_text d))) \<and>
       filter (\<lambda>h. h \<noteq> []) (map fst sections)
         = filter (\<lambda>h. h \<noteq> []) (map header_title (filter (is_header m) (lines_of (doc_text d)))))"
  using unlines_lines_of [OF assms]
    markdown_bodies [of m "lines_of (doc_text d)" "[]" "[]"] markdown_headers [of m "lines_of (doc_text d)" "[]" "[]"]
  by (auto simp: code_split_def markdown_split_def code_chunks_concat simp del: map_map)

theorem line_splitters_complete_witness:
  "concat (map doc_text (code_split RustLang (demo_doc\<lparr>doc_text := ''fn a() {}'' @ [lf] @ ''fn b() {}''\<rparr>)))
     = ''fn a() {}'' @ [lf] @ ''fn b() {}'' @ [lf]"
  using line_splitters_complete [of "demo_doc\<lparr>doc_text := ''fn a() {}'' @ [lf] @ ''fn b() {}''\<rparr>" RustLang]
  by (simp add: cr_def lf_def end_line_def)

text \<open>An indented method splits a class as a top-level one does.\<close>

lemma nested_items_split:
  "code_chunks Python [''class A:'', ''    def f(self):'', ''        pass''] []
     = [''class A:'' @ [lf], ''    def f(self):'' @ [lf] @ ''        pass'' @ [lf]]"
  by (simp add: starts_item_def starts_with_def trim_start_def is_ws_def)

subsection \<open>What every splitter promises\<close>

text \<open>
  The parts of a document carry its metadata, and identifiers of their own. Chains of splitters keep the first
  law, and with it the stamps of the retrieval filters.
\<close>

lemma admits_metadata: "doc_metadata c = doc_metadata d \<Longrightarrow> admits f c = admits f d"
  by (induction f) (auto simp: list_all_iff)

locale splitter =
  fixes split :: "document \<Rightarrow> document list"
  assumes split_metadata: "c \<in> set (split d) \<Longrightarrow> doc_metadata c = doc_metadata d"
    and split_ids: "distinct (map doc_id (split d))"
begin

lemma split_admits: "c \<in> set (split d) \<Longrightarrow> admits f c = admits f d"
  using split_metadata admits_metadata by blast

lemma split_filter: "filter (admits f) (split d) = (if admits f d then split d else [])"
  using split_admits by (auto simp: filter_empty_conv)

end

definition run_splitters :: "(document \<Rightarrow> document list) list \<Rightarrow> document list \<Rightarrow> document list" where
  "run_splitters ss docs = fold (\<lambda>s current. concat (map s current)) ss docs"

lemma distinct_numbered: "distinct (map doc_id (numbered d tag ts))"
proof -
  have "map doc_id (numbered d tag ts) = map (\<lambda>i. doc_id d @ tag @ show_nat i) (map fst (enumerate 0 ts))"
    by (simp add: numbered_def case_prod_unfold del: map_fst_enumerate)
  then have "map doc_id (numbered d tag ts) = map (\<lambda>i. doc_id d @ tag @ show_nat i) [0..<length ts]"
    by (simp only: map_fst_enumerate add_0)
  then show ?thesis by (auto simp: distinct_map inj_on_def dest: show_nat_inj)
qed

lemma numbered_metadata: "c \<in> set (numbered d tag ts) \<Longrightarrow> doc_metadata c = doc_metadata d"
  by (auto simp: numbered_def)

interpretation recursive: splitter "recursive_split s" for s
  by unfold_locales (simp_all add: recursive_split_def numbered_metadata distinct_numbered)

interpretation token: splitter "token_split s" for s
  by unfold_locales (simp_all add: token_split_def numbered_metadata distinct_numbered)

interpretation markdown: splitter "markdown_split m" for m
  by unfold_locales (simp_all add: markdown_split_def numbered_metadata distinct_numbered)

interpretation code: splitter "code_split lang" for lang
  by unfold_locales (simp_all add: code_split_def numbered_metadata distinct_numbered)

lemma run_splitters_filter:
  "\<forall>s\<in>set ss. splitter s \<Longrightarrow> filter (admits f) (run_splitters ss docs) = run_splitters ss (filter (admits f) docs)"
proof (induction ss arbitrary: docs)
  case (Cons s ss)
  have "filter (admits f) (concat (map s docs)) = concat (map s (filter (admits f) docs))"
    using Cons.prems by (induction docs) (auto simp: splitter.split_filter)
  with Cons show ?case by (simp add: run_splitters_def)
qed (simp add: run_splitters_def)

subsection \<open>Stamps and pipelines (ingest.rs)\<close>

record metadata_injector =
  in_system_time :: "int option"
  in_compartment :: "string option"

text \<open>An existing \<open>system_time\<close> is kept; a compartment replaces an existing one.\<close>

definition inject :: "metadata_injector \<Rightarrow> int \<Rightarrow> document \<Rightarrow> document" where
  "inject mi now d =
     (let ts = (case in_system_time mi of Some t \<Rightarrow> t | None \<Rightarrow> now);
          m = (case doc_metadata d of Object m \<Rightarrow> m | _ \<Rightarrow> []);
          m1 = (if map_of m ''system_time'' = None then bt_insert ''system_time'' (Number (IntN ts)) m else m);
          m2 = (case in_compartment mi of Some c \<Rightarrow> bt_insert ''compartment'' (String c) m1 | None \<Rightarrow> m1)
      in d\<lparr>doc_metadata := Object m2\<rparr>)"

definition inject_all :: "metadata_injector \<Rightarrow> (nat \<Rightarrow> int) \<Rightarrow> document list \<Rightarrow> document list" where
  "inject_all mi now docs = map (\<lambda>(i, d). inject mi (now i) d) (enumerate 0 docs)"

definition as_stamped :: "metadata_injector \<Rightarrow> int \<Rightarrow> clearance \<Rightarrow> document \<Rightarrow> bool" where
  "as_stamped mi ceiling cl d \<longleftrightarrow>
     (case jget (doc_metadata d) ''system_time'' of
        None \<Rightarrow> (case in_system_time mi of Some t \<Rightarrow> t \<le> ceiling | None \<Rightarrow> True)
      | Some v \<Rightarrow> (case as_i64 v of Some t \<Rightarrow> t \<le> ceiling | None \<Rightarrow> True)) \<and>
     (case in_compartment mi of
        Some k \<Rightarrow> holds cl k
      | None \<Rightarrow> (case doc_compartment (doc_metadata d) of Some k \<Rightarrow> holds cl k | None \<Rightarrow> True))"

lemma inject_system_time:
  assumes "in_system_time mi = Some t" and "- (2 ^ 63) \<le> t" and "t < 2 ^ 63"
  shows "doc_system_time (doc_metadata (inject mi now d)) =
     (case jget (doc_metadata d) ''system_time'' of None \<Rightarrow> Some t | Some v \<Rightarrow> as_i64 v)"
  using assms
  by (cases "doc_metadata d") (auto simp: inject_def Let_def doc_system_time_def btree_simps split: option.splits)

lemma inject_compartment:
  "doc_compartment (doc_metadata (inject mi now d)) =
     (case in_compartment mi of Some k \<Rightarrow> Some k | None \<Rightarrow> doc_compartment (doc_metadata d))"
  by (cases "doc_metadata d")
     (auto simp: inject_def Let_def doc_compartment_def get_str_def btree_simps split: option.splits)

text \<open>
  (C23) The retrieval guarantee starts at ingestion: documents stamped with a time and a compartment and pushed
  through any chain of the splitters yield parts that a retrieval under an as-of ceiling and a clearance returns
  exactly when the stamp allows it, so filtering the parts is the same as splitting the documents the stamp
  admits. A system time the document brought along wins over the stamp.
\<close>

theorem stamped_parts_filtered:
  assumes "in_system_time mi = Some t" and "- (2 ^ 63) \<le> t" and "t < 2 ^ 63"
    and "set ss \<subseteq> range recursive_split \<union> range token_split \<union> range markdown_split \<union> range code_split"
  shows "filter (admits (AndF [AsOf ceiling, Entitlement cl])) (run_splitters ss (inject_all mi now docs))
     = run_splitters ss (filter (admits (AndF [AsOf ceiling, Entitlement cl])) (inject_all mi now docs)) \<and>
   (\<forall>i d. admits (AndF [AsOf ceiling, Entitlement cl]) (inject mi i d) = as_stamped mi ceiling cl d)"
proof
  have "\<forall>s\<in>set ss. splitter s"
    using assms(4) recursive.splitter_axioms token.splitter_axioms markdown.splitter_axioms code.splitter_axioms
    by auto
  then show "filter (admits (AndF [AsOf ceiling, Entitlement cl])) (run_splitters ss (inject_all mi now docs))
     = run_splitters ss (filter (admits (AndF [AsOf ceiling, Entitlement cl])) (inject_all mi now docs))"
    by (rule run_splitters_filter)
  show "\<forall>i d. admits (AndF [AsOf ceiling, Entitlement cl]) (inject mi i d) = as_stamped mi ceiling cl d"
    using assms(1) by (auto simp: inject_system_time [OF assms(1-3)] inject_compartment as_stamped_def split: option.splits)
qed

theorem stamped_parts_filtered_witness:
  "filter (admits (AndF [AsOf 6, Entitlement (clearance_new ''bob'' Public)]))
     (run_splitters [markdown_split 3, recursive_split (recursive_splitter_new 200 0)]
        (inject_all \<lparr>in_system_time = Some 7, in_compartment = None\<rparr> (\<lambda>_. 0) [demo_doc\<lparr>doc_metadata := Null\<rparr>])) = []"
proof -
  let ?mi = "\<lparr>in_system_time = Some 7, in_compartment = None\<rparr>"
  have mi: "in_system_time ?mi = Some 7" by simp
  have "set [markdown_split 3, recursive_split (recursive_splitter_new 200 0)]
      \<subseteq> range recursive_split \<union> range token_split \<union> range markdown_split \<union> range code_split" by simp
  from stamped_parts_filtered [OF mi _ _ this, of 6 "clearance_new ''bob'' Public" "\<lambda>_. 0" "[demo_doc\<lparr>doc_metadata := Null\<rparr>]"]
  show ?thesis by (simp add: inject_all_def as_stamped_def run_splitters_def del: admits.simps)
qed

text \<open>The ingestion loop; the clock is read at each write.\<close>

fun ingest ::
  "(string \<Rightarrow> 'w \<Rightarrow> embedding result \<times> 'w) \<Rightarrow> ('w \<Rightarrow> int) \<Rightarrow> string list \<Rightarrow> document list \<Rightarrow> nat \<Rightarrow>
   store_item list \<Rightarrow> 'w \<Rightarrow> (nat result \<times> store_item list) \<times> 'w" where
  "ingest emb now ns [] n s w = ((Inr n, s), w)"
| "ingest emb now ns (d # ds) n s w =
     (case emb (doc_text d) w of
        (Inl e, w1) \<Rightarrow> ((Inl e, s), w1)
      | (Inr v, w1) \<Rightarrow>
          ingest emb now ns ds (n + 1)
            (ls_put s (now w1) ns (doc_id d)
               (obj_of [(''text'', String (doc_text d)), (''metadata'', doc_metadata d)]) (Some v)) w1)"

definition pure_embedder :: "(string \<Rightarrow> embedding) \<Rightarrow> string \<Rightarrow> 'w \<Rightarrow> embedding result \<times> 'w" where
  "pure_embedder E t w = (Inr (E t), w)"

lemma ingest_ok:
  assumes "ls_inv s" and "distinct (map doc_id docs)"
  shows "\<exists>s'. ingest (pure_embedder E) now ns docs n s w = ((Inr (n + length docs), s'), w) \<and> ls_inv s' \<and>
     (\<forall>d\<in>set docs. \<exists>i. ls_get s' ns (doc_id d) = Some i \<and> si_embedding i = Some (E (doc_text d)) \<and>
        si_value i = obj_of [(''text'', String (doc_text d)), (''metadata'', doc_metadata d)]) \<and>
     (\<forall>ns' key. (ns', key) \<notin> {ns} \<times> doc_id ` set docs \<longrightarrow> ls_get s' ns' key = ls_get s ns' key)"
  using assms
proof (induction docs arbitrary: n s)
  case (Cons d ds)
  let ?s = "ls_put s (now w) ns (doc_id d)
      (obj_of [(''text'', String (doc_text d)), (''metadata'', doc_metadata d)]) (Some (E (doc_text d)))"
  from Cons.prems have "ls_inv ?s" "distinct (map doc_id ds)" "doc_id d \<notin> doc_id ` set ds" by (simp_all add: ls_put_inv)
  with Cons.IH [of ?s "n + 1"] obtain s' where s': "ingest (pure_embedder E) now ns ds (n + 1) ?s w = ((Inr (n + 1 + length ds), s'), w)"
    "ls_inv s'"
    "\<forall>d\<in>set ds. \<exists>i. ls_get s' ns (doc_id d) = Some i \<and> si_embedding i = Some (E (doc_text d)) \<and>
        si_value i = obj_of [(''text'', String (doc_text d)), (''metadata'', doc_metadata d)]"
    "\<forall>ns' key. (ns', key) \<notin> {ns} \<times> doc_id ` set ds \<longrightarrow> ls_get s' ns' key = ls_get ?s ns' key" by blast
  have step: "ingest (pure_embedder E) now ns (d # ds) n s w = ingest (pure_embedder E) now ns ds (n + 1) ?s w"
    by (simp add: pure_embedder_def)
  have "ls_get s' ns (doc_id d) = ls_get ?s ns (doc_id d)" using s'(4) \<open>doc_id d \<notin> _\<close> by simp
  then have "\<exists>i. ls_get s' ns (doc_id d) = Some i \<and> si_embedding i = Some (E (doc_text d)) \<and>
        si_value i = obj_of [(''text'', String (doc_text d)), (''metadata'', doc_metadata d)]"
    by (auto simp: ls_get_put_same split: option.split)
  moreover have "ls_get s' ns' key = ls_get s ns' key" if "(ns', key) \<notin> {ns} \<times> doc_id ` set (d # ds)" for ns' key
    using that s'(4) ls_get_put_other [of ns' key ns "doc_id d"] by simp
  ultimately show ?case using s'(1-3) step by simp
qed simp

subsection \<open>The embedding cache (cache.rs)\<close>

text \<open>The hasher is an argument; its 64 bits are printed in hexadecimal.\<close>

definition hex16 :: "u64 \<Rightarrow> string" where
  "hex16 h = map (\<lambda>i. hex_digit (unat h div 16 ^ (15 - i) mod 16)) [0..<16]"

definition cache_key :: "(string \<times> string \<Rightarrow> u64) \<Rightarrow> string \<Rightarrow> string \<Rightarrow> string" where
  "cache_key hasher model_id t = model_id @ '':'' @ hex16 (hasher (model_id, t))"

definition cached_embed ::
  "(string \<times> string \<Rightarrow> u64) \<Rightarrow> string \<Rightarrow> (string \<Rightarrow> 'w \<Rightarrow> embedding result \<times> 'w) \<Rightarrow> string \<Rightarrow>
   (string \<rightharpoonup> embedding) \<times> 'w \<Rightarrow> embedding result \<times> (string \<rightharpoonup> embedding) \<times> 'w" where
  "cached_embed hasher model_id inner t cw =
     (let k = cache_key hasher model_id t in
      case fst cw k of
        Some v \<Rightarrow> (Inr v, cw)
      | None \<Rightarrow>
          (case inner t (snd cw) of
             (Inl e, w1) \<Rightarrow> (Inl e, (fst cw, w1))
           | (Inr v, w1) \<Rightarrow> (Inr v, ((fst cw)(k \<mapsto> v), w1))))"

fun embed_all :: "('t \<Rightarrow> 's \<Rightarrow> 'v result \<times> 's) \<Rightarrow> 't list \<Rightarrow> 's \<Rightarrow> 'v result list \<times> 's" where
  "embed_all f [] s = ([], s)"
| "embed_all f (t # ts) s = (case f t s of (r, s1) \<Rightarrow> case embed_all f ts s1 of (rs, s2) \<Rightarrow> (r # rs, s2))"

text \<open>An embedder that counts its calls by logging the texts.\<close>

definition logging_embedder :: "(string \<Rightarrow> embedding) \<Rightarrow> string \<Rightarrow> string list \<Rightarrow> embedding result \<times> string list" where
  "logging_embedder E t calls = (Inr (E t), calls @ [t])"

lemma cached_embed_run:
  assumes "inj_on (cache_key hasher m) T" and "set ts \<subseteq> T"
    and "\<forall>t\<in>T. c (cache_key hasher m t) = (if t \<in> set calls then Some (E t) else None)"
    and "set calls \<subseteq> T" and "distinct calls"
  shows "\<exists>c' calls'. embed_all (cached_embed hasher m (logging_embedder E)) ts (c, calls)
      = (map (\<lambda>t. Inr (E t)) ts, (c', calls')) \<and> distinct calls' \<and> set calls' = set calls \<union> set ts"
  using assms(2-5)
proof (induction ts arbitrary: c calls)
  case (Cons t ts)
  show ?case
  proof (cases "t \<in> set calls")
    case True
    then have "cached_embed hasher m (logging_embedder E) t (c, calls) = (Inr (E t), (c, calls))"
      using Cons.prems by (simp add: cached_embed_def)
    then show ?thesis using Cons.IH [of c calls] Cons.prems True by (auto simp: insert_absorb)
  next
    case False
    let ?c = "c(cache_key hasher m t \<mapsto> E t)"
    have "cached_embed hasher m (logging_embedder E) t (c, calls) = (Inr (E t), (?c, calls @ [t]))"
      using Cons.prems False by (simp add: cached_embed_def logging_embedder_def)
    moreover have "\<forall>u\<in>T. ?c (cache_key hasher m u) = (if u \<in> set (calls @ [t]) then Some (E u) else None)"
      using Cons.prems False assms(1) by (auto simp: inj_on_def)
    moreover have "set ts \<subseteq> T" "set (calls @ [t]) \<subseteq> T" "distinct (calls @ [t])" using Cons.prems False by auto
    ultimately obtain c' calls' where "embed_all (cached_embed hasher m (logging_embedder E)) ts (?c, calls @ [t])
        = (map (\<lambda>t. Inr (E t)) ts, (c', calls'))" "distinct calls'" "set calls' = set (calls @ [t]) \<union> set ts"
      using Cons.IH by blast
    with \<open>cached_embed hasher m _ t _ = _\<close> show ?thesis
      by (intro exI [of _ c'] exI [of _ calls']) simp
  qed
qed simp

text \<open>
  The cache is transparent and saves every repeated call, as long as no two of the texts have the same 64-bit
  hash: the results are the embedder's, which is called once for each different text. Two texts that
  collide share one embedding.
\<close>

theorem cached_embedder_transparent:
  assumes "inj_on (cache_key hasher m) (set ts)"
  shows "\<exists>c calls. embed_all (cached_embed hasher m (logging_embedder E)) ts (Map.empty, [])
      = (map (\<lambda>t. Inr (E t)) ts, (c, calls)) \<and> length calls = card (set ts)"
  using cached_embed_run [OF assms order_refl, of Map.empty "[]" E] by (auto simp: distinct_card [symmetric])

theorem cached_embedder_transparent_witness:
  "\<exists>c calls. embed_all (cached_embed (\<lambda>(m, t). of_nat (length t)) ''mock'' (logging_embedder (\<lambda>t. [of_nat (length t)])))
       [''hello'', ''hello'', ''hi''] (Map.empty, []) = ([Inr [5], Inr [5], Inr [2]], (c, calls)) \<and> length calls = 2"
proof -
  have "hex16 5 ! 15 \<noteq> hex16 2 ! 15" by (simp add: hex16_def hex_digit_def)
  then have "hex16 5 \<noteq> hex16 2" by metis
  then have "inj_on (cache_key (\<lambda>(m, t). of_nat (length t)) ''mock'') (set [''hello'', ''hello'', ''hi''])"
    by (simp add: cache_key_def eq_commute)
  from cached_embedder_transparent [OF this, of "\<lambda>t. [of_nat (length t)]"]
  show ?thesis by (simp add: numeral_2_eq_2 del: embed_all.simps)
qed

lemma colliding_texts_share_embedding:
  "hasher (m, t) = hasher (m, u) \<Longrightarrow>
   fst (embed_all (cached_embed hasher m (logging_embedder E)) [t, u] (Map.empty, [])) = [Inr (E t), Inr (E t)]"
  by (simp add: cached_embed_def logging_embedder_def cache_key_def Let_def)

end
