(* ===== verification/Output_Parsers.thy ===== *)
theory Output_Parsers
  imports Strings Core Context
begin

text \<open>
  Reading a model's answer (\<open>crates/parser/src\<close>): the basic parsers, the two wrappers that ask a model to repair
  an answer that does not parse, and the streaming parser for partial JSON. The JSON reader is an
  argument; a failed read gives its error text.
\<close>

text \<open>\<open>Parser<T>\<close>: parsing may call a model, so it takes and returns a world.\<close>

record ('w, 't) parser =
  pr_parse :: "string \<Rightarrow> 'w \<Rightarrow> 't result \<times> 'w"
  pr_instructions :: string

subsection \<open>JSON and schemas (basic.rs)\<close>

definition fence :: string where
  "fence = replicate 3 (CHR 0x60)"

definition strip_code_fence :: "string \<Rightarrow> string" where
  "strip_code_fence s0 =
     (let s = trim s0 in
      if starts_with fence s
      then let ls = lines_of s;
               ls1 = (if ls \<noteq> [] \<and> starts_with fence (hd ls) then tl ls else ls);
               ls2 = (if ls1 \<noteq> [] \<and> trim (last ls1) = fence then butlast ls1 else ls1)
           in join_with [lf] ls2
      else s)"

definition json_parse :: "(string \<Rightarrow> string + json) \<Rightarrow> string \<Rightarrow> json result" where
  "json_parse from_str raw =
     (case from_str (strip_code_fence raw) of
        Inl e \<Rightarrow> Inl (Tool (''json parse: '' @ e))
      | Inr v \<Rightarrow> Inr v)"

definition json_parser :: "(string \<Rightarrow> string + json) \<Rightarrow> ('w, json) parser" where
  "json_parser from_str =
     \<lparr>pr_parse = (\<lambda>raw w. (json_parse from_str raw, w)), pr_instructions = ''Respond with a single valid JSON value.''\<rparr>"

fun is_object :: "json \<Rightarrow> bool" where "is_object (Object m) = True" | "is_object _ = False"
fun is_array :: "json \<Rightarrow> bool" where "is_array (Array xs) = True" | "is_array _ = False"
fun is_string :: "json \<Rightarrow> bool" where "is_string (String s) = True" | "is_string _ = False"

fun check_required :: "json list \<Rightarrow> json \<Rightarrow> unit result" where
  "check_required [] v = Inr ()"
| "check_required (r # rs) v =
     (let key = (case as_str r of Some s \<Rightarrow> s | None \<Rightarrow> []) in
      if jget v key = None then Inl (Tool (''missing required field '' @ [CHR 0x27] @ key @ [CHR 0x27]))
      else check_required rs v)"

definition validate_schema :: "json \<Rightarrow> json \<Rightarrow> unit result" where
  "validate_schema schema v =
     (let want_type = (case get_str schema ''type'' of Some t \<Rightarrow> t | None \<Rightarrow> []) in
      if want_type = ''object''
      then if \<not> is_object v then Inl (Tool ''expected object'')
           else (case Option.bind (jget schema ''required'') as_array of
                   Some req \<Rightarrow> check_required req v
                 | None \<Rightarrow> Inr ())
      else if want_type = ''array'' \<and> \<not> is_array v then Inl (Tool ''expected array'')
      else if want_type = ''string'' \<and> \<not> is_string v then Inl (Tool ''expected string'')
      else if want_type = ''integer'' \<and> as_i64 v = None then Inl (Tool ''expected integer'')
      else Inr ())"

definition schema_parse :: "(string \<Rightarrow> string + json) \<Rightarrow> json \<Rightarrow> string \<Rightarrow> json result" where
  "schema_parse from_str schema raw =
     try_then (json_parse from_str raw) (\<lambda>v. try_then (validate_schema schema v) (\<lambda>_. Inr v))"

lemma check_required_ok: "check_required rs v = Inr () \<longleftrightarrow>
    (\<forall>r\<in>set rs. jget v (case as_str r of Some s \<Rightarrow> s | None \<Rightarrow> []) \<noteq> None)"
  by (induction rs v rule: check_required.induct) (auto simp: Let_def)

text \<open>What a value accepted under a schema satisfies.\<close>

definition schema_holds :: "json \<Rightarrow> json \<Rightarrow> bool" where
  "schema_holds schema v \<longleftrightarrow>
     (get_str schema ''type'' = Some ''object'' \<longrightarrow> is_object v \<and>
        (\<forall>req r. Option.bind (jget schema ''required'') as_array = Some req \<and> r \<in> set req \<longrightarrow>
           jget v (case as_str r of Some s \<Rightarrow> s | None \<Rightarrow> []) \<noteq> None)) \<and>
     (get_str schema ''type'' = Some ''array'' \<longrightarrow> is_array v) \<and>
     (get_str schema ''type'' = Some ''string'' \<longrightarrow> is_string v) \<and>
     (get_str schema ''type'' = Some ''integer'' \<longrightarrow> as_i64 v \<noteq> None)"

lemma validate_schema_ok: "validate_schema schema v = Inr () \<longleftrightarrow> schema_holds schema v"
  by (auto simp: validate_schema_def schema_holds_def Let_def check_required_ok split: option.splits)

subsection \<open>Enumerations and lists (basic.rs)\<close>

text \<open>\<open>Debug\<close> of strings and vectors of strings, on ASCII.\<close>

definition escape_debug :: "char \<Rightarrow> string" where
  "escape_debug c =
     (if c = CHR 0x09 then [CHR 0x5C, CHR 0x74] else if c = cr then [CHR 0x5C, CHR 0x72]
      else if c = lf then [CHR 0x5C, CHR 0x6E] else if c = CHR 0x22 then [CHR 0x5C, CHR 0x22]
      else if c = CHR 0x5C then [CHR 0x5C, CHR 0x5C] else if c = CHR 0x00 then [CHR 0x5C, CHR 0x30]
      else let n = of_char c :: nat in
           if n < 16 then [CHR 0x5C] @ ''u{'' @ [hex_digit n] @ ''}''
           else if n < 32 \<or> n = 127 then [CHR 0x5C] @ ''u{'' @ [hex_digit (n div 16), hex_digit (n mod 16)] @ ''}''
           else [c])"

definition debug_str :: "string \<Rightarrow> string" where
  "debug_str s = [CHR 0x22] @ concat (map escape_debug s) @ [CHR 0x22]"

definition debug_strs :: "string list \<Rightarrow> string" where
  "debug_strs ss = ''['' @ join_with '', '' (map debug_str ss) @ '']''"

definition enum_parse :: "string list \<Rightarrow> string \<Rightarrow> string result" where
  "enum_parse variants raw0 =
     (let raw = trim raw0 in
      case find (\<lambda>v. to_lowercase v = to_lowercase raw) variants of
        Some v \<Rightarrow> Inr v
      | None \<Rightarrow> Inl (Tool (debug_str raw @ '' not one of '' @ debug_strs variants)))"

definition comma_list_parse :: "string \<Rightarrow> string list result" where
  "comma_list_parse raw = Inr (filter (\<lambda>s. s \<noteq> []) (map trim (split_on '','' raw)))"

lemma split_ne_no_sep: "c \<notin> set s \<Longrightarrow> split_ne [c] cur s = [cur @ s]"
  by (induction s arbitrary: cur) auto

lemma split_ne_at_sep: "c \<notin> set s \<Longrightarrow> split_ne [c] cur (s @ c # t) = (cur @ s) # split_ne [c] [] t"
  by (induction s arbitrary: cur) auto

lemma split_on_join:
  "xs \<noteq> [] \<Longrightarrow> \<forall>x\<in>set xs. c \<notin> set x \<Longrightarrow> split_on [c] (join_with [c] xs) = xs"
proof (induction xs)
  case (Cons x xs)
  then show ?case
    by (cases xs) (auto simp: split_on_def split_ne_no_sep split_ne_at_sep)
qed simp

lemma join_with_shift: "join_with (c # sep) (x # xs) = join_with [c] (x # map (\<lambda>y. sep @ y) xs)"
proof (induction xs arbitrary: x)
  case (Cons y ys)
  have "join_with [c] ((sep @ y) # map (\<lambda>y. sep @ y) ys) = sep @ join_with [c] (y # map (\<lambda>y. sep @ y) ys)"
    by (cases ys) simp_all
  with Cons [of y] show ?case by simp
qed simp

lemma trim_space: "tight x \<Longrightarrow> trim (CHR 0x20 # x) = x"
proof -
  assume "tight x"
  moreover have "trim (CHR 0x20 # x) = trim x" by (simp add: trim_def is_ws_def)
  ultimately show ?thesis by (simp add: trim_tight)
qed

text \<open>
  A list of items survives printing with \<open>", "\<close> and parsing when no item is blank, has white space at its ends or
  contains a comma; an enumeration accepts every variant in any case, with white space around it.
\<close>

theorem comma_list_roundtrip:
  assumes "xs \<noteq> []" and "\<And>x. x \<in> set xs \<Longrightarrow> x \<noteq> [] \<and> tight x \<and> CHR 0x2C \<notin> set x"
  shows "comma_list_parse (join_with '', '' xs) = Inr xs"
proof -
  obtain x ys where xs: "xs = x # ys" using assms(1) by (cases xs) auto
  have "split_on '','' (join_with '', '' xs) = x # map (\<lambda>y. '' '' @ y) ys"
    using split_on_join [of "x # map (\<lambda>y. '' '' @ y) ys" "CHR 0x2C"] assms(2) join_with_shift [of "CHR 0x2C" "'' ''" x ys]
    by (auto simp: xs)
  moreover have "map trim (x # map (\<lambda>y. '' '' @ y) ys) = xs"
    using assms(2) by (auto simp: xs trim_tight trim_space intro!: map_idI)
  moreover have "filter (\<lambda>s. s \<noteq> []) xs = xs" using assms(2) by (auto intro: filter_True)
  ultimately show ?thesis by (simp add: comma_list_parse_def)
qed

theorem comma_list_roundtrip_witness: "comma_list_parse ''red, light blue, green'' = Inr [''red'', ''light blue'', ''green'']"
proof -
  have "comma_list_parse (join_with '', '' [''red'', ''light blue'', ''green'']) = Inr [''red'', ''light blue'', ''green'']"
    by (rule comma_list_roundtrip) (auto simp: tight_def is_ws_def)
  then show ?thesis by simp
qed

lemma enum_parse_any_case:
  assumes "v \<in> set variants" and "to_lowercase (trim raw) = to_lowercase v"
    and "inj_on to_lowercase (set variants)"
  shows "enum_parse variants raw = Inr v"
proof -
  obtain u where u: "find (\<lambda>v. to_lowercase v = to_lowercase (trim raw)) variants = Some u"
    using assms(1,2) by (cases "find (\<lambda>v. to_lowercase v = to_lowercase (trim raw)) variants") (auto simp: find_None_iff)
  with assms have "u = v" by (auto dest!: find_SomeD simp: inj_on_def)
  with u show ?thesis by (simp add: enum_parse_def)
qed

subsection \<open>Tags (basic.rs)\<close>

text \<open>
  The scan of the XML parser over the rest of the input. The tag lies between \<open><\<close> and \<open>>\<close>; \<open>after\<close> begins with that
  \<open>>\<close>, so a closing tag found in it lies behind it.
\<close>

definition close_tag :: "string \<Rightarrow> string" where
  "close_tag tag = ''</'' @ tag @ ''>''"

lemma xml_progress:
  assumes "dropWhile q s = x # rest"
  shows "length (dropWhile p rest) - k < length s"
  using length_dropWhile_le [of q s] length_dropWhile_le [of p rest] assms by simp

function xml_loop :: "string \<Rightarrow> (string \<times> json) list \<Rightarrow> (string \<times> json) list" where
  "xml_loop s out =
     (case dropWhile (\<lambda>c. c \<noteq> CHR 0x3C) s of
        [] \<Rightarrow> out
      | _ # rest \<Rightarrow>
          (let tag = takeWhile (\<lambda>c. c \<noteq> CHR 0x3E) rest; after = dropWhile (\<lambda>c. c \<noteq> CHR 0x3E) rest in
           if after = [] then out
           else if starts_with ''/'' tag then xml_loop (tl after) out
           else (case find_sub (close_tag tag) after of
                   Some close_pos \<Rightarrow>
                     xml_loop (drop (close_pos + length (close_tag tag)) after)
                       (bt_insert tag (String (trim (take (close_pos - 1) (tl after)))) out)
                 | None \<Rightarrow> xml_loop (tl after) out)))"
  by pat_completeness auto
termination
  by (relation "measure (\<lambda>(s, out). length s)") (simp_all add: xml_progress)

declare xml_loop.simps [simp del]

definition xml_parse :: "string \<Rightarrow> json result" where
  "xml_parse raw =
     (let out = xml_loop raw [] in
      if out = [] then Inl (Tool ''xml parse: no tags found'') else Inr (Object out))"

text \<open>A field whose text cannot be mistaken for markup.\<close>

definition xml_field :: "string \<times> string \<Rightarrow> bool" where
  "xml_field f \<longleftrightarrow> CHR 0x3E \<notin> set (fst f) \<and> \<not> starts_with ''/'' (fst f) \<and> CHR 0x3C \<notin> set (snd f) \<and> tight (snd f)"

definition xml_text :: "(string \<times> string) list \<Rightarrow> string" where
  "xml_text fs = concat (map (\<lambda>(t, b). ''<'' @ t @ ''>'' @ b @ close_tag t) fs)"

lemma find_close_tag:
  "CHR 0x3C \<notin> set b \<Longrightarrow> find_sub (close_tag t) (b @ close_tag t @ r) = Some (length b)"
proof (induction b)
  case Nil
  show ?case by (simp add: close_tag_def)
next
  case (Cons c b)
  then show ?case by (auto simp: close_tag_def)
qed

lemma xml_loop_field:
  assumes "xml_field (t, b)"
  shows "xml_loop (''<'' @ t @ ''>'' @ b @ close_tag t @ r) out = xml_loop r (bt_insert t (String b) out)"
proof -
  have nt: "CHR 0x3E \<notin> set t" "\<not> starts_with ''/'' t" "CHR 0x3C \<notin> set b" "trim b = b"
    using assms by (simp_all add: xml_field_def trim_tight)
  have tw: "takeWhile (\<lambda>c. c \<noteq> CHR 0x3E) (t @ CHR 0x3E # b @ close_tag t @ r) = t"
    using nt(1) by (subst takeWhile_append2) auto
  have dw: "dropWhile (\<lambda>c. c \<noteq> CHR 0x3E) (t @ CHR 0x3E # b @ close_tag t @ r) = CHR 0x3E # b @ close_tag t @ r"
    using nt(1) by (subst dropWhile_append2) auto
  have "find_sub (close_tag t) (CHR 0x3E # b @ close_tag t @ r) = Some (Suc (length b))"
    using find_close_tag [of b t r] nt(3) by (simp add: close_tag_def)
  then show ?thesis
    using nt by (subst xml_loop.simps) (simp add: tw dw Let_def)
qed

text \<open>
  Fields written as tags are read back: any sequence of fields whose tags contain no \<open>>\<close> and do not begin with a
  slash, and whose texts contain no \<open><\<close> and have no white space at their ends, is parsed to the object of those
  fields, the last one winning where a tag occurs twice.
\<close>

lemma xml_loop_fields:
  "\<forall>f\<in>set fs. xml_field f \<Longrightarrow>
   xml_loop (xml_text fs) out = obj_insert_all (map (\<lambda>(t, b). (t, String b)) fs) out"
proof (induction fs arbitrary: out)
  case Nil
  show ?case by (subst xml_loop.simps) (simp add: xml_text_def)
next
  case (Cons f fs)
  obtain t b where f: "f = (t, b)" by (cases f)
  have "xml_text (f # fs) = ''<'' @ t @ ''>'' @ b @ close_tag t @ xml_text fs" by (simp add: xml_text_def f)
  with Cons xml_loop_field [of t b "xml_text fs" out] show ?case by (simp add: f)
qed

text \<open>
  (C25) Printing fields as elements, one after the other, and parsing them back gives the object of the fields,
  whatever their number and order.
\<close>

theorem xml_roundtrip:
  assumes "fs \<noteq> []" and "\<And>f. f \<in> set fs \<Longrightarrow> xml_field f"
  shows "xml_parse (xml_text fs) = Inr (obj_of (map (\<lambda>(t, b). (t, String b)) fs))"
proof -
  have "obj_insert_all (map (\<lambda>(t, b). (t, String b)) fs) [] \<noteq> []"
    using assms(1) map_of_obj_insert_all [of "map (\<lambda>(t, b). (t, String b)) fs" "[]"]
    by (cases fs rule: rev_cases) (auto simp: fun_eq_iff split: if_splits)
  then show ?thesis
    using assms(2) by (simp add: xml_parse_def xml_loop_fields obj_of_def)
qed

theorem xml_roundtrip_witness:
  "xml_parse ''<name>Alice</name><city>NYC</city>'' = Inr (Object [(''city'', String ''NYC''), (''name'', String ''Alice'')])"
proof -
  have "xml_parse (xml_text [(''name'', ''Alice''), (''city'', ''NYC'')])
      = Inr (obj_of (map (\<lambda>(t, b). (t, String b)) [(''name'', ''Alice''), (''city'', ''NYC'')]))"
    by (rule xml_roundtrip) (auto simp: xml_field_def starts_with_def tight_def is_ws_def)
  then show ?thesis by (simp add: xml_text_def close_tag_def obj_of_def)
qed

subsection \<open>Key-value lines (basic.rs)\<close>

fun yaml_lines :: "string list \<Rightarrow> (string \<times> json) list \<Rightarrow> (string \<times> json) list" where
  "yaml_lines [] out = out"
| "yaml_lines (line # ls) out =
     (let l = trim line in
      if l = [] \<or> starts_with ''#'' l then yaml_lines ls out
      else (case split_once '':'' l of
              None \<Rightarrow> yaml_lines ls out
            | Some (k0, v0) \<Rightarrow>
                (let k = trim k0; v = trim v0 in
                 if k = [] then yaml_lines ls out else yaml_lines ls (bt_insert k (String v) out))))"

definition yaml_parse :: "string \<Rightarrow> json result" where
  "yaml_parse raw =
     (let out = yaml_lines (lines_of raw) [] in
      if out = [] then Inl (Tool ''yaml parse: no key/value pairs'') else Inr (Object out))"

definition yaml_field :: "string \<times> string \<Rightarrow> bool" where
  "yaml_field f \<longleftrightarrow> fst f \<noteq> [] \<and> tight (fst f) \<and> \<not> starts_with ''#'' (fst f) \<and> CHR 0x3A \<notin> set (fst f) \<and> lf \<notin> set (fst f) \<and>
     snd f \<noteq> [] \<and> tight (snd f) \<and> lf \<notin> set (snd f)"

definition yaml_line :: "string \<times> string \<Rightarrow> string" where
  "yaml_line f = fst f @ '': '' @ snd f"

lemma split_once_char: "c \<notin> set k \<Longrightarrow> split_once [c] (k @ c # r) = Some (k, r)"
proof -
  assume "c \<notin> set k"
  then have "find_sub [c] (k @ c # r) = Some (length k)" by (induction k) auto
  then show ?thesis by (simp add: split_once_def)
qed

lemma yaml_lines_field:
  assumes "yaml_field f"
  shows "yaml_lines (yaml_line f # ls) out = yaml_lines ls (bt_insert (fst f) (String (snd f)) out)"
proof -
  obtain k v where f: "f = (k, v)" by (cases f)
  have kv: "k \<noteq> []" "tight k" "\<not> starts_with ''#'' k" "CHR 0x3A \<notin> set k" "v \<noteq> []" "tight v"
    using assms by (simp_all add: yaml_field_def f)
  then have "tight (k @ '': '' @ v)" by (simp add: tight_def)
  then have l: "trim (k @ CHR 0x3A # CHR 0x20 # v) = k @ CHR 0x3A # CHR 0x20 # v" by (simp add: trim_tight)
  have "\<not> starts_with ''#'' (k @ CHR 0x3A # CHR 0x20 # v)" using kv(1,3) by (cases k) (simp_all add: starts_with_def)
  then show ?thesis
    using kv by (simp add: yaml_line_def f l split_once_char trim_tight trim_space Let_def del: trim_eq_Nil)
qed

lemma yaml_lines_fields:
  "\<forall>f\<in>set fs. yaml_field f \<Longrightarrow>
   yaml_lines (map yaml_line fs) out = obj_insert_all (map (\<lambda>(k, v). (k, String v)) fs) out"
proof (induction fs arbitrary: out)
  case (Cons f fs)
  then show ?case by (cases f) (simp add: yaml_lines_field del: yaml_lines.simps(2))
qed simp

lemma obj_insert_all_not_Nil: "kvs \<noteq> [] \<Longrightarrow> obj_insert_all kvs m \<noteq> []"
  using map_of_obj_insert_all [of kvs m]
  by (cases kvs rule: rev_cases) (auto simp: fun_eq_iff split: if_splits)

theorem yaml_roundtrip:
  assumes "fs \<noteq> []" and "\<And>f. f \<in> set fs \<Longrightarrow> yaml_field f"
  shows "yaml_parse (unlines (map yaml_line fs)) = Inr (obj_of (map (\<lambda>(k, v). (k, String v)) fs))"
proof -
  have "last (yaml_line f) \<noteq> cr" if "yaml_field f" for f
    using that lf_cr by (auto simp: yaml_field_def yaml_line_def tight_def)
  moreover have "lf \<notin> set (yaml_line f)" if "yaml_field f" for f
    using that by (auto simp: yaml_field_def yaml_line_def lf_def)
  ultimately have "lines_of (unlines (map yaml_line fs)) = map yaml_line fs"
    using assms(2) by (intro lines_of_unlines) auto
  then show ?thesis
    using assms by (simp add: yaml_parse_def yaml_lines_fields obj_insert_all_not_Nil obj_of_def)
qed

theorem yaml_roundtrip_witness:
  "yaml_parse (unlines [''name: Alice'', ''role: admin'']) = Inr (Object [(''name'', String ''Alice''), (''role'', String ''admin'')])"
proof -
  have "yaml_parse (unlines (map yaml_line [(''name'', ''Alice''), (''role'', ''admin'')]))
      = Inr (obj_of (map (\<lambda>(k, v). (k, String v)) [(''name'', ''Alice''), (''role'', ''admin'')]))"
    by (rule yaml_roundtrip) (auto simp: yaml_field_def starts_with_def tight_def is_ws_def lf_def)
  then show ?thesis by (simp add: yaml_line_def obj_of_def)
qed

subsection \<open>Repair (auto\_repair.rs)\<close>

text \<open>
  Both wrappers run the same loop and differ in the hint they send and in the error of a loop that never ran.
\<close>

type_synonym 'w repair_model = "string \<Rightarrow> string \<Rightarrow> 'w \<Rightarrow> string result \<times> 'w"

fun repair_loop ::
  "('w, 't) parser \<Rightarrow> 'w repair_model \<Rightarrow> (string \<Rightarrow> agent_error \<Rightarrow> string) \<Rightarrow> string \<Rightarrow> nat \<Rightarrow> string \<Rightarrow>
   agent_error option \<Rightarrow> 'w \<Rightarrow> 't result \<times> 'w" where
  "repair_loop inner model hint exhausted 0 current last_err w =
     (Inl (case last_err of Some e \<Rightarrow> e | None \<Rightarrow> Internal exhausted), w)"
| "repair_loop inner model hint exhausted (Suc n) current last_err w =
     (case pr_parse inner current w of
        (Inr v, w1) \<Rightarrow> (Inr v, w1)
      | (Inl e, w1) \<Rightarrow>
          (case model current (hint current e) w1 of
             (Inl e', w2) \<Rightarrow> (Inl e', w2)
           | (Inr c, w2) \<Rightarrow> repair_loop inner model hint exhausted n c (Some e) w2))"

definition fixing_hint :: "string \<Rightarrow> string \<Rightarrow> string" where
  "fixing_hint instructions current =
     ''Output below failed format instructions. Re-emit corrected output.'' @ [lf, lf] @ ''Format:'' @ [lf] @ instructions @
     [lf, lf] @ ''Failed output:'' @ [lf] @ current"

definition output_fixing_parser :: "('w, 't) parser \<Rightarrow> 'w repair_model \<Rightarrow> u32 \<Rightarrow> ('w, 't) parser" where
  "output_fixing_parser inner model max_attempts =
     \<lparr>pr_parse = (\<lambda>raw. repair_loop inner model (\<lambda>current e. fixing_hint (pr_instructions inner) current)
                   ''repair exhausted'' (unat (max max_attempts 1)) raw None),
      pr_instructions = pr_instructions inner\<rparr>"

definition retry_hint :: "string \<Rightarrow> agent_error \<Rightarrow> string" where
  "retry_hint original_prompt e =
     ''Original prompt:'' @ [lf] @ original_prompt @ [lf, lf] @ ''Error on previous output:'' @ [lf] @ error_text e @
     [lf, lf] @ ''Reply again, conforming to the prompt.''"

definition retry_with_error_parser :: "('w, 't) parser \<Rightarrow> 'w repair_model \<Rightarrow> u32 \<Rightarrow> string \<Rightarrow> ('w, 't) parser" where
  "retry_with_error_parser inner model max_attempts original_prompt =
     \<lparr>pr_parse = (\<lambda>raw. repair_loop inner model (\<lambda>current e. retry_hint original_prompt e)
                   ''retry exhausted'' (unat (max max_attempts 1)) raw None),
      pr_instructions = pr_instructions inner\<rparr>"

text \<open>A pure parser and a model that replies from a script.\<close>

definition pure_parser :: "(string \<Rightarrow> 't result) \<Rightarrow> string \<Rightarrow> ('w, 't) parser" where
  "pure_parser P instr = \<lparr>pr_parse = (\<lambda>raw w. (P raw, w)), pr_instructions = instr\<rparr>"

definition scripted_repair :: "string list repair_model" where
  "scripted_repair original hint w =
     (case w of [] \<Rightarrow> (Inl (Inference ''no scripted reply''), []) | r # rs \<Rightarrow> (Inr r, rs))"

lemma repair_loop_script:
  assumes "n \<le> length replies"
  shows "repair_loop (pure_parser P instr) scripted_repair hint ex n raw le replies =
    (let k = length (takeWhile (\<lambda>t. \<not> is_ok (P t)) (take n (raw # replies))) in
     if k < n then (P ((raw # replies) ! k), drop k replies)
     else (if n = 0 then Inl (case le of Some e \<Rightarrow> e | None \<Rightarrow> Internal ex) else P ((raw # replies) ! (n - 1)), drop n replies))"
  using assms
proof (induction n arbitrary: raw le replies)
  case (Suc n)
  then obtain r rs where rs: "replies = r # rs" "n \<le> length rs" by (cases replies) auto
  show ?case
  proof (cases "P raw")
    case (Inl e)
    have "repair_loop (pure_parser P instr) scripted_repair hint ex (Suc n) raw le replies =
        repair_loop (pure_parser P instr) scripted_repair hint ex n r (Some e) rs"
      by (simp add: rs pure_parser_def scripted_repair_def Inl)
    then show ?thesis using Suc.IH [OF rs(2), of r "Some e"] Inl
      by (cases n) (simp_all add: rs Let_def)
  qed (simp add: pure_parser_def Let_def)
qed simp

text \<open>
  The repair wrappers parse at most \<open>max_attempts.max(1)\<close> outputs, the first answer and then the replies of the model,
  return the first that parses, and else the error of the last one parsed. They do not stop early: after
  the last failing attempt the model is asked once more and its reply is never parsed.
\<close>

theorem repair_first_success:
  assumes "n = unat (max m 1)" and "n \<le> length replies"
    and "k = length (takeWhile (\<lambda>t. \<not> is_ok (P t)) (take n (raw # replies)))"
  shows "pr_parse (output_fixing_parser (pure_parser P instr) scripted_repair m) raw replies
      = (P ((raw # replies) ! min k (n - 1)), drop k replies) \<and>
    pr_parse (retry_with_error_parser (pure_parser P instr) scripted_repair m prompt) raw replies
      = (P ((raw # replies) ! min k (n - 1)), drop k replies)"
proof -
  have n: "0 < n" using assms(1) by (auto simp: max_def unat_gt_0)
  have kn: "k \<le> n" using assms(2,3) length_takeWhile_le [of "\<lambda>t. \<not> is_ok (P t)" "take n (raw # replies)"] by simp
  have "repair_loop (pure_parser P instr) scripted_repair hint ex n raw None replies
      = (P ((raw # replies) ! min k (n - 1)), drop k replies)" for hint ex
    unfolding repair_loop_script [OF assms(2)] using n kn
    by (cases "k < n") (auto simp: assms(3) [symmetric] Let_def min_def)
  then show ?thesis
    unfolding output_fixing_parser_def retry_with_error_parser_def using assms(1) by simp
qed

definition demo_reader :: "string \<Rightarrow> json result" where
  "demo_reader t = (if t = ''true'' then Inr (Bool True) else Inl (Tool t))"

theorem repair_first_success_witness:
  "pr_parse (output_fixing_parser (pure_parser demo_reader ''JSON'') scripted_repair 2) ''yes'' [''ja'', ''true''] = (Inl (Tool ''ja''), []) \<and>
   pr_parse (retry_with_error_parser (pure_parser demo_reader ''JSON'') scripted_repair 2 ''Reply.'') ''yes'' [''ja'', ''true'']
     = (Inl (Tool ''ja''), [])"
  using repair_first_success [of 2 2 "[''ja'', ''true'']" 2 demo_reader "''yes''" "''JSON''" "''Reply.''"]
  by (simp add: demo_reader_def max_def word_le_nat_alt)

subsection \<open>Partial JSON (streaming.rs)\<close>

record scan =
  sc_obj :: int
  sc_arr :: int
  sc_in_string :: bool
  sc_last_close :: "nat option"
  sc_prev :: char

definition scan_new :: scan where
  "scan_new = \<lparr>sc_obj = 0, sc_arr = 0, sc_in_string = False, sc_last_close = None, sc_prev = CHR 0x00\<rparr>"

definition scan_char :: "nat \<Rightarrow> char \<Rightarrow> scan \<Rightarrow> scan" where
  "scan_char i c s =
     (if sc_in_string s
      then s\<lparr>sc_in_string := \<not> (c = CHR 0x22 \<and> sc_prev s \<noteq> CHR 0x5C), sc_prev := c\<rparr>
      else if c = CHR 0x22 then s\<lparr>sc_in_string := True, sc_prev := c\<rparr>
      else if c = CHR 0x7B then s\<lparr>sc_obj := sc_obj s + 1, sc_prev := c\<rparr>
      else if c = CHR 0x7D
      then s\<lparr>sc_obj := sc_obj s - 1, sc_prev := c,
             sc_last_close := (if sc_obj s - 1 = 0 \<and> sc_arr s = 0 then Some (i + 1) else sc_last_close s)\<rparr>
      else if c = CHR 0x5B then s\<lparr>sc_arr := sc_arr s + 1, sc_prev := c\<rparr>
      else if c = CHR 0x5D
      then s\<lparr>sc_arr := sc_arr s - 1, sc_prev := c,
             sc_last_close := (if sc_obj s = 0 \<and> sc_arr s - 1 = 0 then Some (i + 1) else sc_last_close s)\<rparr>
      else s\<lparr>sc_prev := c\<rparr>)"

fun scan_all :: "nat \<Rightarrow> string \<Rightarrow> scan \<Rightarrow> scan" where
  "scan_all i [] s = s"
| "scan_all i (c # cs) s = scan_all (i + 1) cs (scan_char i c s)"

definition repaired :: "string \<Rightarrow> scan \<Rightarrow> string" where
  "repaired t s = t @ replicate (nat (sc_obj s)) (CHR 0x7D) @ replicate (nat (sc_arr s)) (CHR 0x5D)"

definition try_parse_partial :: "(string \<Rightarrow> string + json) \<Rightarrow> string \<Rightarrow> json option" where
  "try_parse_partial from_str buf =
     (let trimmed = trim buf in
      if trimmed = [] then None
      else case from_str trimmed of
             Inr v \<Rightarrow> Some v
           | Inl _ \<Rightarrow>
               (let s = scan_all 0 trimmed scan_new;
                    prefix_value = (case sc_last_close s of
                                      None \<Rightarrow> None
                                    | Some e \<Rightarrow> (case from_str (take e trimmed) of Inr v \<Rightarrow> Some v | Inl _ \<Rightarrow> None))
                in case prefix_value of
                     Some v \<Rightarrow> Some v
                   | None \<Rightarrow> (case from_str (repaired trimmed s) of Inr v \<Rightarrow> Some v | Inl _ \<Rightarrow> None)))"

text \<open>The state of the streaming parser is its buffer.\<close>

definition stream_feed :: "(string \<Rightarrow> string + json) \<Rightarrow> string \<Rightarrow> string \<Rightarrow> json option result \<times> string" where
  "stream_feed from_str buffer chunk = (Inr (try_parse_partial from_str (buffer @ chunk)), buffer @ chunk)"

definition stream_finish :: "(string \<Rightarrow> string + json) \<Rightarrow> string \<Rightarrow> json result" where
  "stream_finish from_str buffer =
     (case try_parse_partial from_str buffer of
        Some v \<Rightarrow> Inr v
      | None \<Rightarrow> Inl (Tool ''streaming json: no parseable content''))"

fun feed_chunks :: "(string \<Rightarrow> string + json) \<Rightarrow> string list \<Rightarrow> string \<Rightarrow> json option result list \<times> string" where
  "feed_chunks from_str [] buffer = ([], buffer)"
| "feed_chunks from_str (c # cs) buffer =
     (case stream_feed from_str buffer c of
        (r, b) \<Rightarrow> (case feed_chunks from_str cs b of (rs, b') \<Rightarrow> (r # rs, b')))"

lemma feed_chunks_spec:
  "feed_chunks from_str cs buffer =
     (map (\<lambda>i. Inr (try_parse_partial from_str (buffer @ concat (take (Suc i) cs)))) [0..<length cs], buffer @ concat cs)"
  by (induction cs arbitrary: buffer)
     (simp_all add: stream_feed_def upt_conv_Cons map_Suc_upt [symmetric] del: upt_Suc)

text \<open>The scan finds the text balanced at the position of its last close, outside strings.\<close>

definition depths_at :: "string \<Rightarrow> nat \<Rightarrow> int \<times> int" where
  "depths_at t n = (let s = scan_all 0 (take n t) scan_new in (sc_obj s, sc_arr s))"

lemma scan_all_append: "scan_all i (xs @ ys) s = scan_all (i + length xs) ys (scan_all i xs s)"
  by (induction xs arbitrary: i s) auto

lemma last_close_balanced:
  "sc_last_close (scan_all 0 t scan_new) = Some n \<Longrightarrow> 0 < n \<and> n \<le> length t \<and> depths_at t n = (0, 0)"
proof (induction t rule: rev_induct)
  case Nil
  then show ?case by (simp add: scan_new_def)
next
  case (snoc c t)
  let ?s = "scan_all 0 t scan_new"
  have eq: "scan_all 0 (t @ [c]) scan_new = scan_char (length t) c ?s" by (simp add: scan_all_append)
  show ?case
  proof (cases "sc_last_close (scan_char (length t) c ?s) = sc_last_close ?s")
    case True
    with snoc eq have "0 < n \<and> n \<le> length t \<and> depths_at t n = (0, 0)" by simp
    then show ?thesis by (simp add: depths_at_def)
  next
    case False
    then have "n = Suc (length t)" "sc_obj (scan_char (length t) c ?s) = 0" "sc_arr (scan_char (length t) c ?s) = 0"
      using snoc.prems unfolding eq by (auto simp: scan_char_def split: if_splits)
    then show ?thesis by (simp add: depths_at_def scan_all_append)
  qed
qed

text \<open>
  Streaming is independent of the chunking: after each chunk the answer is the partial parse of everything received,
  and finishing returns the same as the last answer. A complete value is read exactly; otherwise an answer
  is the JSON value of a balanced prefix of the trimmed text or of that text with closers appended.
\<close>

theorem streaming_prefixes:
  "feed_chunks from_str cs [] =
     (map (\<lambda>i. Inr (try_parse_partial from_str (concat (take (Suc i) cs)))) [0..<length cs], concat cs) \<and>
   (case from_str (trim (concat cs)) of
      Inr v \<Rightarrow> trim (concat cs) = [] \<or> stream_finish from_str (concat cs) = Inr v
    | Inl _ \<Rightarrow>
        (case stream_finish from_str (concat cs) of
           Inl e \<Rightarrow> e = Tool ''streaming json: no parseable content''
         | Inr v \<Rightarrow>
             (\<exists>n. depths_at (trim (concat cs)) n = (0, 0) \<and> from_str (take n (trim (concat cs))) = Inr v) \<or>
             (\<exists>a b. from_str (trim (concat cs) @ replicate a (CHR 0x7D) @ replicate b (CHR 0x5D)) = Inr v)))"
  using last_close_balanced [of "trim (concat cs)"]
  by (auto simp: feed_chunks_spec stream_finish_def try_parse_partial_def repaired_def Let_def simp del: trim_eq_Nil
      split: sum.splits option.splits)

text \<open>
  Objects are closed before arrays whatever their nesting, so an array open inside an object is never
  repaired to JSON.
\<close>

lemma open_array_not_closed:
  "repaired ([CHR 0x7B, CHR 0x22] @ ''items'' @ [CHR 0x22] @ '':[1, 2'')
     (scan_all 0 ([CHR 0x7B, CHR 0x22] @ ''items'' @ [CHR 0x22] @ '':[1, 2'') scan_new)
   = [CHR 0x7B, CHR 0x22] @ ''items'' @ [CHR 0x22] @ '':[1, 2}]''"
  by (simp add: repaired_def scan_char_def scan_new_def)

text \<open>A string that ends in an escaped backslash is taken to go on.\<close>

lemma escaped_backslash_misread:
  "sc_in_string (scan_all 0 [CHR 0x22, CHR 0x5C, CHR 0x5C, CHR 0x22] scan_new)"
  by (simp add: scan_char_def scan_new_def)

end
