(* ===== verification/Harness.thy ===== *)
theory Harness
  imports Core
begin

text \<open>
  The iteration loop of a harness (\<open>crates/harness/src\<close>) and the spend ledger that can stop it
  (\<open>crates/agent/src/cost.rs\<close>). A loop strategy acts on the harness state and on a world \<open>'w\<close>
  (which holds the ledger, the model, ...); the loop is a partial function, so that a run which
  never stops is \<open>None\<close>, and returning is something to prove.
\<close>

subsection \<open>Spend ledger (agent/src/cost.rs)\<close>

record decision_key =
  dk_desk :: string
  dk_strategy :: string
  dk_decision_id :: string

definition canonical :: "decision_key \<Rightarrow> string" where
  "canonical k = dk_desk k @ ''/'' @ dk_strategy k @ ''/'' @ dk_decision_id k"

record model_pricing =
  input_micro_usd_per_1k :: u64
  output_micro_usd_per_1k :: u64

text \<open>The pricing table; \<open>price_of\<close> is its private \<open>get\<close>, zero for an unknown model.\<close>

type_synonym pricing = "(string \<times> model_pricing) list"

definition with_model :: "pricing \<Rightarrow> string \<Rightarrow> model_pricing \<Rightarrow> pricing" where
  "with_model t m p = AList.update m p t"

definition price_of :: "pricing \<Rightarrow> string \<Rightarrow> model_pricing" where
  "price_of t m = (case map_of t m of
     Some p \<Rightarrow> p | None \<Rightarrow> \<lparr>input_micro_usd_per_1k = 0, output_micro_usd_per_1k = 0\<rparr>)"

record cost_estimate =
  ce_micro_usd :: u64
  ce_tokens :: u32

record spend =
  sp_micro_usd :: u64
  sp_tokens :: u32
  sp_key :: "decision_key option"

definition estimate :: "pricing \<Rightarrow> string \<Rightarrow> u32 \<Rightarrow> u32 \<Rightarrow> cost_estimate" where
  "estimate t m est_input est_output =
     (let p = price_of t m in
      \<lparr>ce_micro_usd = (ucast est_input * input_micro_usd_per_1k p) div 1000
                     + (ucast est_output * output_micro_usd_per_1k p) div 1000,
       ce_tokens = est_input + est_output\<rparr>)"

text \<open>\<open>TokenUsage\<close> comes from \<open>atomr_infer_core\<close>; its two counters are the arguments.\<close>

definition meter_record :: "pricing \<Rightarrow> string \<Rightarrow> u32 \<Rightarrow> u32 \<Rightarrow> decision_key option \<Rightarrow> spend" where
  "meter_record t m input_tokens output_tokens key =
     (let p = price_of t m in
      \<lparr>sp_micro_usd = (ucast input_tokens * input_micro_usd_per_1k p) div 1000
                     + (ucast output_tokens * output_micro_usd_per_1k p) div 1000,
       sp_tokens = input_tokens + output_tokens, sp_key = key\<rparr>)"

datatype budget_scope = Desk string | StrategyScope string | Global

datatype cap = Money u64 | Tokens u32

record budget =
  bg_cap :: cap
  bg_scope :: budget_scope

record budget_exceeded =
  be_scope :: budget_scope
  be_spent :: u64

text \<open>The maps of \<open>LedgerInner\<close>; the counters wrap as in a build without overflow checks.\<close>

type_synonym rollup = "(string \<times> u64 \<times> u32) list"

record spend_ledger =
  sl_by_key :: rollup
  sl_by_desk :: rollup
  sl_by_strategy :: rollup
  sl_total_micro :: u64
  sl_total_tokens :: u32

definition ledger_new :: spend_ledger where
  "ledger_new = \<lparr>sl_by_key = [], sl_by_desk = [], sl_by_strategy = [], sl_total_micro = 0, sl_total_tokens = 0\<rparr>"

definition rollup_get :: "rollup \<Rightarrow> string \<Rightarrow> u64 \<times> u32" where
  "rollup_get m k = (case map_of m k of Some e \<Rightarrow> e | None \<Rightarrow> (0, 0))"

text \<open>\<open>let e = map.entry(k).or_default(); e.0 += micro; e.1 += tokens;\<close>\<close>

definition rollup_add :: "rollup \<Rightarrow> string \<Rightarrow> spend \<Rightarrow> rollup" where
  "rollup_add m k s =
     (case rollup_get m k of (micro, tokens) \<Rightarrow>
        AList.update k (micro + sp_micro_usd s, tokens + sp_tokens s) m)"

definition ledger_record :: "spend_ledger \<Rightarrow> spend \<Rightarrow> spend_ledger" where
  "ledger_record g s =
     (let g = g\<lparr>sl_total_micro := sl_total_micro g + sp_micro_usd s,
                sl_total_tokens := sl_total_tokens g + sp_tokens s\<rparr>
      in (case sp_key s of
            None \<Rightarrow> g
          | Some k \<Rightarrow>
              g\<lparr>sl_by_key := rollup_add (sl_by_key g) (canonical k) s,
                sl_by_desk := rollup_add (sl_by_desk g) (dk_desk k) s,
                sl_by_strategy := rollup_add (sl_by_strategy g) (dk_strategy k) s\<rparr>))"

definition spend_by :: "spend_ledger \<Rightarrow> decision_key \<Rightarrow> u64" where
  "spend_by g k = fst (rollup_get (sl_by_key g) (canonical k))"

fun scope_spend :: "spend_ledger \<Rightarrow> budget_scope \<Rightarrow> u64 \<times> u32" where
  "scope_spend g Global = (sl_total_micro g, sl_total_tokens g)"
| "scope_spend g (Desk d) = rollup_get (sl_by_desk g) d"
| "scope_spend g (StrategyScope s) = rollup_get (sl_by_strategy g) s"

definition ledger_check :: "spend_ledger \<Rightarrow> budget \<Rightarrow> budget_exceeded + unit" where
  "ledger_check g b =
     (case scope_spend g (bg_scope b) of (micro, tokens) \<Rightarrow>
        (let over = (case bg_cap b of
                       Money c \<Rightarrow> if micro > c then Some micro else None
                     | Tokens c \<Rightarrow> if tokens > c then Some (ucast tokens) else None)
         in (case over of
               Some spent \<Rightarrow> Inl \<lparr>be_scope = bg_scope b, be_spent = spent\<rparr>
             | None \<Rightarrow> Inr ())))"

text \<open>Which spends count towards a scope, and their sums.\<close>

fun in_scope :: "budget_scope \<Rightarrow> spend \<Rightarrow> bool" where
  "in_scope Global s = True"
| "in_scope (Desk d) s = (case sp_key s of None \<Rightarrow> False | Some k \<Rightarrow> dk_desk k = d)"
| "in_scope (StrategyScope st) s = (case sp_key s of None \<Rightarrow> False | Some k \<Rightarrow> dk_strategy k = st)"

definition spent :: "(spend \<Rightarrow> bool) \<Rightarrow> spend list \<Rightarrow> u64 \<times> u32" where
  "spent q ss = (sum_list (map sp_micro_usd (filter q ss)), sum_list (map sp_tokens (filter q ss)))"

lemma rollup_get_add:
  "rollup_get (rollup_add m k s) j
   = (if j = k then (fst (rollup_get m k) + sp_micro_usd s, snd (rollup_get m k) + sp_tokens s)
      else rollup_get m j)"
  by (simp add: rollup_get_def rollup_add_def update_conv' split_def)

lemma spent_snoc:
  "spent q (ss @ [s]) = (if q s then (fst (spent q ss) + sp_micro_usd s, snd (spent q ss) + sp_tokens s)
                         else spent q ss)"
  by (simp add: spent_def)

lemma scope_spend_record:
  "scope_spend (ledger_record g s) scope
   = (if in_scope scope s then (fst (scope_spend g scope) + sp_micro_usd s, snd (scope_spend g scope) + sp_tokens s)
      else scope_spend g scope)"
  by (cases scope; cases "sp_key s") (auto simp: ledger_record_def Let_def rollup_get_add)

lemma spend_by_record:
  "spend_by (ledger_record g s) k
   = (if \<exists>j. sp_key s = Some j \<and> canonical j = canonical k then spend_by g k + sp_micro_usd s else spend_by g k)"
  by (cases "sp_key s") (auto simp: ledger_record_def Let_def rollup_get_add spend_by_def)

text \<open>
  The ledger is exact at every scope: after recording any spends, the figure checked against
  a desk, strategy or global budget is the sum of exactly the spends in that scope (wrapping at the
  counters' width), and \<open>spend_by\<close> is the sum over the spends whose key has the same canonical form.
\<close>

theorem ledger_rolls_up:
  "scope_spend (foldl ledger_record ledger_new ss) scope = spent (in_scope scope) ss \<and>
   spend_by (foldl ledger_record ledger_new ss) k
     = fst (spent (\<lambda>s. \<exists>j. sp_key s = Some j \<and> canonical j = canonical k) ss)"
proof (induction ss rule: rev_induct)
  case Nil
  show ?case by (cases scope) (simp_all add: ledger_new_def spent_def rollup_get_def spend_by_def)
next
  case (snoc s ss)
  then show ?case by (auto simp: spent_snoc scope_spend_record spend_by_record)
qed

text \<open>
  The canonical form does not determine the key: a slash in a desk or strategy name moves the boundary.
\<close>

lemma canonical_collides:
  "canonical \<lparr>dk_desk = ''a/b'', dk_strategy = ''c'', dk_decision_id = d\<rparr>
   = canonical \<lparr>dk_desk = ''a'', dk_strategy = ''b/c'', dk_decision_id = d\<rparr>"
  by (simp add: canonical_def)

subsection \<open>Harness state and loop (harness/src)\<close>

record step_event =
  se_iteration :: nat
  se_outcome :: string
  se_timestamp_ms :: int

record harness_state =
  h_iteration :: nat
  h_history :: "step_event list"
  h_working_memory :: json
  h_remaining_tokens :: u32

definition harness_state_new :: "token_budget \<Rightarrow> harness_state" where
  "harness_state_new b = \<lparr>h_iteration = 0, h_history = [], h_working_memory = Null,
     h_remaining_tokens = tb_remaining b\<rparr>"

datatype step_outcome = ContinueWith json string | DoneWith json string

datatype stop_verdict = TContinue | TDone string

record harness_event =
  he_harness_id :: string
  he_iteration :: nat
  he_outcome :: string
  he_budget_remaining_tokens :: u32

record harness_spec =
  hs_id :: string
  hs_initial_budget :: token_budget

definition iteration_cap :: "nat \<Rightarrow> 'w \<Rightarrow> harness_state \<Rightarrow> stop_verdict" where
  "iteration_cap c w st = (if h_iteration st \<ge> c then TDone ''iteration_cap'' else TContinue)"

definition budget_termination ::
  "('w \<Rightarrow> spend_ledger) \<Rightarrow> budget \<Rightarrow> 'w \<Rightarrow> harness_state \<Rightarrow> stop_verdict" where
  "budget_termination ledger b w st =
     (case ledger_check (ledger w) b of Inr _ \<Rightarrow> TContinue | Inl _ \<Rightarrow> TDone ''budget_exceeded'')"

definition push_history :: "harness_state \<Rightarrow> string \<Rightarrow> int \<Rightarrow> harness_state" where
  "push_history st label now =
     st\<lparr>h_history := h_history st @
        [\<lparr>se_iteration = h_iteration st, se_outcome = label, se_timestamp_ms = now\<rparr>]\<rparr>"

definition harness_emit :: "string \<Rightarrow> harness_state \<Rightarrow> string \<Rightarrow> harness_event" where
  "harness_emit hid st outcome =
     \<lparr>he_harness_id = hid, he_iteration = h_iteration st, he_outcome = outcome,
      he_budget_remaining_tokens = h_remaining_tokens st\<rparr>"

text \<open>
  \<open>run_impl\<close>. The strategy may change the state it is given; the bus is the list of emitted events; the clock
  reads the world.
\<close>

partial_function (option) harness_loop ::
  "string \<Rightarrow> ('w \<Rightarrow> harness_state \<Rightarrow> step_outcome result \<times> harness_state \<times> 'w) \<Rightarrow>
   ('w \<Rightarrow> harness_state \<Rightarrow> stop_verdict) \<Rightarrow> ('w \<Rightarrow> int) \<Rightarrow> harness_state \<Rightarrow> 'w \<Rightarrow> harness_event list \<Rightarrow>
   (json result \<times> harness_state \<times> 'w \<times> harness_event list) option" where
  "harness_loop hid step should_terminate now st w bus =
     (case should_terminate w st of
        TDone reason \<Rightarrow>
          Some (Inr (h_working_memory st), st, w, bus @ [harness_emit hid st (''terminated:'' @ reason)])
      | TContinue \<Rightarrow>
          (case step w (st\<lparr>h_iteration := (h_iteration st + 1) mod 2 ^ 64\<rparr>) of
             (outcome, st1, w1) \<Rightarrow>
               (case outcome of
                  Inl e \<Rightarrow> Some (Inl e, st1, w1, bus)
                | Inr out \<Rightarrow>
                    (case out of
                       ContinueWith m label \<Rightarrow>
                         (let st2 = push_history (st1\<lparr>h_working_memory := m\<rparr>) label (now w1)
                          in harness_loop hid step should_terminate now st2 w1
                               (bus @ [harness_emit hid st2 label]))
                     | DoneWith output label \<Rightarrow>
                         (let st2 = push_history st1 label (now w1)
                          in Some (Inr output, st2, w1, bus @ [harness_emit hid st2 (''done:'' @ label)]))))))"

definition harness_run ::
  "harness_spec \<Rightarrow> ('w \<Rightarrow> harness_state \<Rightarrow> step_outcome result \<times> harness_state \<times> 'w) \<Rightarrow>
   ('w \<Rightarrow> harness_state \<Rightarrow> stop_verdict) \<Rightarrow> ('w \<Rightarrow> int) \<Rightarrow> 'w \<Rightarrow>
   (json result \<times> harness_state \<times> 'w \<times> harness_event list) option" where
  "harness_run spec step should_terminate now w =
     harness_loop (hs_id spec) step should_terminate now (harness_state_new (hs_initial_budget spec)) w []"

subsection \<open>Termination and bounds\<close>

text \<open>A strategy that leaves the counter of the harness alone.\<close>

definition keeps_iteration ::
  "('w \<Rightarrow> harness_state \<Rightarrow> step_outcome result \<times> harness_state \<times> 'w) \<Rightarrow> bool" where
  "keeps_iteration step \<longleftrightarrow> (\<forall>w st. h_iteration (fst (snd (step w st))) = h_iteration st)"

lemma harness_loop_capped:
  assumes "keeps_iteration step" and "c < 2 ^ 64" and "h_iteration st \<le> c"
  shows "\<exists>r st' w' bus'. harness_loop hid step (iteration_cap c) now st w bus = Some (r, st', w', bus') \<and>
           h_iteration st' \<le> c \<and> length bus' \<le> length bus + (c - h_iteration st) + 1"
  using assms(3)
proof (induction "c - h_iteration st" arbitrary: st w bus rule: less_induct)
  case less
  show ?case
  proof (cases "h_iteration st = c")
    case True
    then show ?thesis by (subst harness_loop.simps) (simp add: iteration_cap_def)
  next
    case False
    with less.prems have lt: "h_iteration st < c" by simp
    obtain out st1 w1 where s: "step w (st\<lparr>h_iteration := h_iteration st + 1\<rparr>) = (out, st1, w1)"
      by (cases rule: prod_cases3)
    have st1: "h_iteration st1 = h_iteration st + 1"
      using assms(1) s by (simp add: keeps_iteration_def) (metis fst_conv snd_conv harness_state.select_convs(1)
          harness_state.simps(1) harness_state.ext_inject harness_state.surjective harness_state.update_convs(1))
    have unf: "harness_loop hid step (iteration_cap c) now st w bus =
        (case out of
           Inl e \<Rightarrow> Some (Inl e, st1, w1, bus)
         | Inr (ContinueWith m label) \<Rightarrow>
             (let st2 = push_history (st1\<lparr>h_working_memory := m\<rparr>) label (now w1)
              in harness_loop hid step (iteration_cap c) now st2 w1 (bus @ [harness_emit hid st2 label]))
         | Inr (DoneWith output label) \<Rightarrow>
             (let st2 = push_history st1 label (now w1)
              in Some (Inr output, st2, w1, bus @ [harness_emit hid st2 (''done:'' @ label)])))"
      using lt assms(2) s by (subst harness_loop.simps) (simp add: iteration_cap_def split: sum.splits)
    show ?thesis
    proof (cases out)
      case (Inl e)
      with unf st1 lt show ?thesis by simp
    next
      case (Inr x)
      show ?thesis
      proof (cases x)
        case (ContinueWith m label)
        let ?st2 = "push_history (st1\<lparr>h_working_memory := m\<rparr>) label (now w1)"
        have "h_iteration ?st2 = h_iteration st + 1" by (simp add: push_history_def st1)
        moreover have "c - h_iteration ?st2 < c - h_iteration st" "h_iteration ?st2 \<le> c"
          using lt calculation by simp_all
        from less.hyps [OF this, of w1 "bus @ [harness_emit hid ?st2 label]"] obtain r st' w' bus' where
          "harness_loop hid step (iteration_cap c) now ?st2 w1 (bus @ [harness_emit hid ?st2 label]) = Some (r, st', w', bus')"
          "h_iteration st' \<le> c" "length bus' \<le> length (bus @ [harness_emit hid ?st2 label]) + (c - h_iteration ?st2) + 1"
          by blast
        ultimately show ?thesis using lt unf Inr ContinueWith by (simp add: Let_def)
      next
        case (DoneWith v label)
        with unf Inr st1 lt show ?thesis by (simp add: Let_def push_history_def)
      qed
    qed
  qed
qed

text \<open>
  (C15) A harness with an iteration cap always returns, whatever its strategy does short of resetting the
  counter: within the cap, with at most one event per iteration and one for the end.
\<close>

theorem capped_harness_returns:
  assumes "keeps_iteration step" and "c < 2 ^ 64"
  shows "\<exists>r st w' bus. harness_run spec step (iteration_cap c) now w = Some (r, st, w', bus) \<and>
           h_iteration st \<le> c \<and> length bus \<le> c + 1"
  using harness_loop_capped [OF assms, of "harness_state_new (hs_initial_budget spec)" "hs_id spec" now w "[]"]
  by (simp add: harness_run_def harness_state_new_def)

text \<open>
  Every step taken within the budget \<open>c\<close> spends something, and at most \<open>m\<close>, without wrapping the total.
\<close>

definition spends_at_most ::
  "nat \<Rightarrow> u64 \<Rightarrow> ('w \<Rightarrow> spend_ledger) \<Rightarrow> ('w \<Rightarrow> harness_state \<Rightarrow> step_outcome result \<times> harness_state \<times> 'w) \<Rightarrow> bool" where
  "spends_at_most m c ledger step \<longleftrightarrow>
     (\<forall>w st. sl_total_micro (ledger w) \<le> c \<longrightarrow>
        unat (sl_total_micro (ledger w)) < unat (sl_total_micro (ledger (snd (snd (step w st))))) \<and>
        unat (sl_total_micro (ledger (snd (snd (step w st))))) \<le> unat (sl_total_micro (ledger w)) + m)"

abbreviation total_of :: "('w \<Rightarrow> spend_ledger) \<Rightarrow> 'w \<Rightarrow> nat" where
  "total_of ledger w \<equiv> unat (sl_total_micro (ledger w))"

lemma budget_termination_money:
  "budget_termination ledger \<lparr>bg_cap = Money c, bg_scope = Global\<rparr> w st
   = (if total_of ledger w > unat c then TDone ''budget_exceeded'' else TContinue)"
  by (simp add: budget_termination_def ledger_check_def word_less_nat_alt)

lemma harness_loop_budget:
  assumes "spends_at_most m c ledger step" and "total_of ledger w \<le> unat c + m"
  shows "\<exists>r st' w' bus'. harness_loop hid step (budget_termination ledger \<lparr>bg_cap = Money c, bg_scope = Global\<rparr>) now st w bus
           = Some (r, st', w', bus') \<and> total_of ledger w' \<le> unat c + m"
  using assms(2)
proof (induction "Suc (unat c) - total_of ledger w" arbitrary: st w bus rule: less_induct)
  case less
  show ?case
  proof (cases "total_of ledger w > unat c")
    case True
    with less.prems show ?thesis by (subst harness_loop.simps) (simp add: budget_termination_money)
  next
    case False
    obtain out st1 w1 where s: "step w (st\<lparr>h_iteration := (h_iteration st + 1) mod 2 ^ 64\<rparr>) = (out, st1, w1)"
      by (cases rule: prod_cases3)
    have "sl_total_micro (ledger w) \<le> c" using False by (simp add: word_le_nat_alt)
    then have "\<forall>st. total_of ledger w < total_of ledger (snd (snd (step w st))) \<and>
        total_of ledger (snd (snd (step w st))) \<le> total_of ledger w + m"
      using assms(1) unfolding spends_at_most_def by blast
    from this [rule_format, of "st\<lparr>h_iteration := (h_iteration st + 1) mod 2 ^ 64\<rparr>"]
    have w1: "total_of ledger w < total_of ledger w1" "total_of ledger w1 \<le> total_of ledger w + m"
      unfolding s by simp_all
    have IH: "\<exists>r st' w' bus'. harness_loop hid step
        (budget_termination ledger \<lparr>bg_cap = Money c, bg_scope = Global\<rparr>) now st2 w1 bus2 = Some (r, st', w', bus') \<and>
        total_of ledger w' \<le> unat c + m" for st2 bus2
      using False w1 by (intro less.hyps) simp_all
    from False w1 s IH show ?thesis
      by (subst harness_loop.simps)
         (auto simp: budget_termination_money Let_def split: sum.splits step_outcome.splits)
  qed
qed

text \<open>
  A money budget stops a run: when every step spends something and at most \<open>m\<close> micro-dollars, a harness
  that terminates on a global budget of \<open>c\<close> returns, and has overspent by at most one step.
\<close>

theorem budget_stops_harness:
  assumes "spends_at_most m c ledger step" and "total_of ledger w \<le> unat c"
  shows "\<exists>r st w' bus. harness_run spec step (budget_termination ledger \<lparr>bg_cap = Money c, bg_scope = Global\<rparr>) now w
           = Some (r, st, w', bus) \<and> total_of ledger w' \<le> unat c + m"
  unfolding harness_run_def using assms by (intro harness_loop_budget) simp_all

definition demo_spend :: spend where
  "demo_spend = \<lparr>sp_micro_usd = 30, sp_tokens = 7, sp_key = None\<rparr>"

definition demo_step :: "spend_ledger \<Rightarrow> harness_state \<Rightarrow> step_outcome result \<times> harness_state \<times> spend_ledger" where
  "demo_step g st = (Inr (ContinueWith Null ''tick''), st, ledger_record g demo_spend)"

definition demo_harness :: harness_spec where
  "demo_harness = \<lparr>hs_id = ''h'', hs_initial_budget = tb_new 1000\<rparr>"

theorem capped_harness_returns_witness:
  "\<exists>r st w' bus. harness_run demo_harness demo_step (iteration_cap 5) (\<lambda>_. 0) ledger_new = Some (r, st, w', bus) \<and>
     h_iteration st \<le> 5 \<and> length bus \<le> 5 + 1"
  by (rule capped_harness_returns) (simp_all add: keeps_iteration_def demo_step_def)

theorem budget_stops_harness_witness:
  "\<exists>r st w' bus. harness_run demo_harness demo_step
       (budget_termination (\<lambda>g. g) \<lparr>bg_cap = Money 100, bg_scope = Global\<rparr>) (\<lambda>_. 0) ledger_new = Some (r, st, w', bus) \<and>
     total_of (\<lambda>g. g) w' \<le> unat (100 :: u64) + 30"
proof (rule budget_stops_harness)
  have "unat (t + 30) = unat t + 30" if "t \<le> 100" for t :: u64
  proof -
    have "unat t \<le> 100" using that by (simp add: word_le_nat_alt)
    then show ?thesis by (simp add: unat_word_ariths)
  qed
  then show "spends_at_most 30 100 (\<lambda>g. g) demo_step"
    by (simp add: spends_at_most_def demo_step_def ledger_record_def demo_spend_def Let_def)
qed (simp add: ledger_new_def)

end
