(* ===== verification/Debate.thy ===== *)
theory Debate
  imports State Callable Harness
begin

text \<open>
  The debate protocol (\<open>crates/org/src/debate.rs\<close>): a proponent and a critic take turns until the critic raises
  no dissent or the rounds are used up, every turn is recorded in a channel of a run state, and a judge may close.
\<close>

subsection \<open>Turns and the critique channel\<close>

datatype stance = Proponent | Critic | Judge

record debate_turn =
  dt_round :: u32
  dt_author :: string
  dt_stance :: stance
  dt_claim :: string

record dissent =
  di_round :: u32
  di_critic :: string
  di_objection :: string

text \<open>The \<open>Debug\<close> name and the serialised name of a stance.\<close>

fun stance_debug :: "stance \<Rightarrow> string" where
  "stance_debug Proponent = ''Proponent''"
| "stance_debug Critic = ''Critic''"
| "stance_debug Judge = ''Judge''"

fun stance_name :: "stance \<Rightarrow> string" where
  "stance_name Proponent = ''proponent''"
| "stance_name Critic = ''critic''"
| "stance_name Judge = ''judge''"

definition stance_of_name :: "string \<Rightarrow> stance option" where
  "stance_of_name s = find (\<lambda>x. stance_name x = s) [Proponent, Critic, Judge]"

text \<open>The derived decoders: a unit variant by its name, or as an object with a null payload.\<close>

fun stance_of_json :: "json \<Rightarrow> stance option" where
  "stance_of_json (String s) = stance_of_name s"
| "stance_of_json (Object [(k, Null)]) = stance_of_name k"
| "stance_of_json _ = None"

fun u32_of_json :: "json \<Rightarrow> u32 option" where
  "u32_of_json (Number (IntN i)) = (if 0 \<le> i \<and> i < 2 ^ 32 then Some (of_int i) else None)"
| "u32_of_json _ = None"

definition turn_of_fields :: "json option \<Rightarrow> json option \<Rightarrow> json option \<Rightarrow> json option \<Rightarrow> debate_turn option" where
  "turn_of_fields r a s c =
     Option.bind (Option.bind r u32_of_json) (\<lambda>r.
     Option.bind (Option.bind a as_str) (\<lambda>a.
     Option.bind (Option.bind s stance_of_json) (\<lambda>s.
     Option.bind (Option.bind c as_str) (\<lambda>c.
       Some \<lparr>dt_round = r, dt_author = a, dt_stance = s, dt_claim = c\<rparr>))))"

fun turn_of_json :: "json \<Rightarrow> debate_turn option" where
  "turn_of_json (Object m) =
     turn_of_fields (map_of m ''round'') (map_of m ''author'') (map_of m ''stance'') (map_of m ''claim'')"
| "turn_of_json (Array [r, a, s, c]) = turn_of_fields (Some r) (Some a) (Some s) (Some c)"
| "turn_of_json _ = None"

definition turn_id :: "debate_turn \<Rightarrow> string" where
  "turn_id t = show_nat (unat (dt_round t)) @ '':'' @ stance_debug (dt_stance t)"

definition turn_json :: "debate_turn \<Rightarrow> json" where
  "turn_json t =
     obj_of [(''id'', String (turn_id t)),
             (''round'', Number (IntN (uint (dt_round t)))),
             (''author'', String (dt_author t)),
             (''stance'', String (stance_name (dt_stance t))),
             (''claim'', String (dt_claim t))]"

definition critique_schema :: state_schema where
  "critique_schema = schema_add schema_builder ''critique'' append_messages"

definition critique_new :: run_state where
  "critique_new = run_state_new critique_schema"

definition critique_append :: "run_state \<Rightarrow> debate_turn \<Rightarrow> run_state result" where
  "critique_append s t = rs_write s ''critique'' (Array [turn_json t])"

definition critique_transcript :: "run_state \<Rightarrow> debate_turn list" where
  "critique_transcript s =
     (case rs_read s ''critique'' of Array items \<Rightarrow> List.map_filter turn_of_json items | _ \<Rightarrow> [])"

subsection \<open>The protocol\<close>

record debate_state =
  db_round :: u32
  db_max_rounds :: u32
  db_unresolved :: "dissent list"
  db_transcript :: "debate_turn list"
  db_converged :: bool

record ('w, 'x) debate_roles =
  ro_proponent :: "('w, 'x) callable"
  ro_critic :: "('w, 'x) callable"
  ro_judge :: "('w, 'x) callable option"

definition dissent_termination :: "debate_state \<Rightarrow> stop_verdict" where
  "dissent_termination d =
     (if db_converged d \<and> db_unresolved d = [] then TDone ''consensus''
      else if db_round d \<ge> db_max_rounds d then TDone ''max_rounds''
      else TContinue)"

definition str_or_empty :: "json \<Rightarrow> string \<Rightarrow> string" where
  "str_or_empty v k = (case get_str v k of Some s \<Rightarrow> s | None \<Rightarrow> [])"

text \<open>Recording a turn: into the channel, then into the transcript.\<close>

definition record_debate_turn :: "run_state \<times> debate_state \<Rightarrow> debate_turn \<Rightarrow> (run_state \<times> debate_state) result" where
  "record_debate_turn sd t =
     (case critique_append (fst sd) t of
        Inl e \<Rightarrow> Inl e
      | Inr s \<Rightarrow> Inr (s, (snd sd)\<lparr>db_transcript := db_transcript (snd sd) @ [t]\<rparr>))"

definition debate_round ::
  "('w, 'x) debate_roles \<Rightarrow> 'x call_ctx \<Rightarrow> u32 \<Rightarrow> run_state \<times> debate_state \<Rightarrow> json \<Rightarrow> 'w \<Rightarrow>
   ((run_state \<times> debate_state) \<times> json) result \<times> 'w" where
  "debate_round roles ctx round sd current w =
     (let sd0 = (fst sd, (snd sd)\<lparr>db_round := round\<rparr>) in
      case c_call (ro_proponent roles) current ctx w of
        (Inl e, w1) \<Rightarrow> (Inl e, w1)
      | (Inr prop_out, w1) \<Rightarrow>
          (let claim = str_or_empty prop_out ''claim'';
               prop_turn = \<lparr>dt_round = round, dt_author = c_label (ro_proponent roles), dt_stance = Proponent, dt_claim = claim\<rparr> in
           case record_debate_turn sd0 prop_turn of
             Inl e \<Rightarrow> (Inl e, w1)
           | Inr sd1 \<Rightarrow>
               (case c_call (ro_critic roles) (obj_of [(''claim'', String claim)]) ctx w1 of
                  (Inl e, w2) \<Rightarrow> (Inl e, w2)
                | (Inr critic_out, w2) \<Rightarrow>
                    (let dissents = (get_bool critic_out ''dissent'' = Some True);
                         objection = str_or_empty critic_out ''objection'';
                         critic_turn = \<lparr>dt_round = round, dt_author = c_label (ro_critic roles), dt_stance = Critic,
                                        dt_claim = objection\<rparr> in
                     case record_debate_turn sd1 critic_turn of
                       Inl e \<Rightarrow> (Inl e, w2)
                     | Inr (s2, d2) \<Rightarrow>
                         (Inr ((s2, if dissents
                                    then d2\<lparr>db_unresolved := [\<lparr>di_round = round, di_critic = c_label (ro_critic roles),
                                                                di_objection = objection\<rparr>]\<rparr>
                                    else d2\<lparr>db_unresolved := [], db_converged := True\<rparr>), critic_out), w2)))))"

text \<open>The rounds \<open>round ..= max_rounds\<close>; \<open>n\<close> is their number.\<close>

fun debate_loop ::
  "('w, 'x) debate_roles \<Rightarrow> 'x call_ctx \<Rightarrow> nat \<Rightarrow> u32 \<Rightarrow> run_state \<times> debate_state \<Rightarrow> json \<Rightarrow> 'w \<Rightarrow>
   ((run_state \<times> debate_state) \<times> json) result \<times> 'w" where
  "debate_loop roles ctx 0 round sd current w = (Inr (sd, current), w)"
| "debate_loop roles ctx (Suc n) round sd current w =
     (case debate_round roles ctx round sd current w of
        (Inl e, w1) \<Rightarrow> (Inl e, w1)
      | (Inr (sd1, current1), w1) \<Rightarrow>
          (if dissent_termination (snd sd1) \<noteq> TContinue then (Inr (sd1, current1), w1)
           else debate_loop roles ctx n (round + 1) sd1 current1 w1))"

record debate_outcome =
  do_converged :: bool
  do_unresolved :: "dissent list"
  do_transcript :: "debate_turn list"

definition close_debate ::
  "('w, 'x) debate_roles \<Rightarrow> 'x call_ctx \<Rightarrow> run_state \<times> debate_state \<Rightarrow> json \<Rightarrow> 'w \<Rightarrow> (run_state \<times> debate_state) result \<times> 'w" where
  "close_debate roles ctx sd current w =
     (case ro_judge roles of
        None \<Rightarrow> (Inr sd, w)
      | Some judge \<Rightarrow>
          (case c_call judge current ctx w of
             (Inl e, w1) \<Rightarrow> (Inl e, w1)
           | (Inr verdict_out, w1) \<Rightarrow>
               (record_debate_turn sd \<lparr>dt_round = db_round (snd sd), dt_author = c_label judge, dt_stance = Judge,
                                dt_claim = str_or_empty verdict_out ''claim''\<rparr>, w1)))"

definition debate_run ::
  "('w, 'x) debate_roles \<Rightarrow> u32 \<Rightarrow> json \<Rightarrow> 'x call_ctx \<Rightarrow> 'w \<Rightarrow> (debate_outcome \<times> run_state) result \<times> 'w" where
  "debate_run roles max_rounds initial ctx w =
     (case debate_loop roles ctx (unat max_rounds) 1
             (critique_new, \<lparr>db_round = 0, db_max_rounds = max_rounds, db_unresolved = [], db_transcript = [],
                             db_converged = False\<rparr>) initial w of
        (Inl e, w1) \<Rightarrow> (Inl e, w1)
      | (Inr (sd, current), w1) \<Rightarrow>
          (case close_debate roles ctx sd current w1 of
             (Inl e, w2) \<Rightarrow> (Inl e, w2)
           | (Inr (s, d), w2) \<Rightarrow>
               (Inr (\<lparr>do_converged = db_converged d, do_unresolved = db_unresolved d, do_transcript = db_transcript d\<rparr>, s), w2)))"

subsection \<open>The channel is the transcript\<close>

lemma stance_of_stance_name [simp]: "stance_of_name (stance_name s) = Some s"
  by (cases s) (simp_all add: stance_of_name_def)

lemma turn_json_roundtrip: "turn_of_json (turn_json t) = Some t"
proof -
  have get: "map_of (obj_fields (turn_json t)) k = map_of (rev [(''id'', String (turn_id t)),
             (''round'', Number (IntN (uint (dt_round t)))), (''author'', String (dt_author t)),
             (''stance'', String (stance_name (dt_stance t))), (''claim'', String (dt_claim t))]) k" for k
    by (simp add: turn_json_def obj_fields_def obj_of_def btree_simps)
  have "turn_json t = Object (obj_fields (turn_json t))" by (simp add: turn_json_def obj_fields_def obj_of_def)
  then have "turn_of_json (turn_json t) = turn_of_fields (map_of (obj_fields (turn_json t)) ''round'')
      (map_of (obj_fields (turn_json t)) ''author'') (map_of (obj_fields (turn_json t)) ''stance'')
      (map_of (obj_fields (turn_json t)) ''claim'')"
    by (metis turn_of_json.simps(1))
  also have "\<dots> = Some t"
    unfolding get by (simp add: turn_of_fields_def uint_lt2p [where 'a = 32, simplified])
  finally show ?thesis .
qed

lemma msg_id_turn: "msg_id (turn_json t) = Some (turn_id t)"
  by (simp add: msg_id_def get_str_def turn_json_def jget_obj_of)

lemma show_nat_no_colon: "CHR '':'' \<notin> set (show_nat n)"
proof (induction n rule: show_nat.induct)
  case (1 n)
  have "digit_char d \<noteq> CHR '':''" if "d < 10" for d
  proof
    assume "digit_char d = CHR '':''"
    then have "(of_char (digit_char d) :: nat) = of_char CHR '':''" by simp
    with of_char_digit [OF that] that show False by simp
  qed
  then have "CHR '':'' \<noteq> digit_char d" if "d < 10" for d using that by metis
  with 1 show ?case by (subst show_nat.simps) auto
qed

lemma turn_id_inj: "turn_id t = turn_id u \<Longrightarrow> dt_round t = dt_round u \<and> dt_stance t = dt_stance u"
proof -
  assume eq: "turn_id t = turn_id u"
  have cut: "takeWhile (\<lambda>c. c \<noteq> CHR '':'') (show_nat n @ '':'' @ s) = show_nat n" for n s
    using show_nat_no_colon [of n] by (auto simp: takeWhile_append2 takeWhile_append)
  from eq have "show_nat (unat (dt_round t)) = show_nat (unat (dt_round u))"
    unfolding turn_id_def by (metis cut)
  then have "dt_round t = dt_round u" by (metis show_nat_inj word_unat_eq_iff)
  moreover from this eq have "stance_debug (dt_stance t) = stance_debug (dt_stance u)" by (simp add: turn_id_def)
  then have "dt_stance t = dt_stance u" by (cases "dt_stance t"; cases "dt_stance u") simp_all
  ultimately show ?thesis by simp
qed

definition recorded :: "run_state \<Rightarrow> debate_turn list \<Rightarrow> bool" where
  "recorded s ts \<longleftrightarrow> rs_schema s = critique_schema \<and>
     rs_read s ''critique'' = (if ts = [] then Null else Array (map turn_json ts))"

lemma recorded_new: "recorded critique_new []"
  by (simp add: recorded_def critique_new_def run_state_new_def rs_read_def schema_defaults_def critique_schema_def
      schema_add_def schema_builder_def)

lemma recorded_transcript: "recorded s ts \<Longrightarrow> critique_transcript s = ts"
proof -
  have "List.map_filter turn_of_json (map turn_json ts) = ts"
    by (induction ts) (simp_all add: map_filter_simps turn_json_roundtrip)
  then show "recorded s ts \<Longrightarrow> critique_transcript s = ts"
    by (simp add: recorded_def critique_transcript_def)
qed

lemma critique_append_fresh:
  assumes "recorded s ts" and "(dt_round t, dt_stance t) \<notin> set (map (\<lambda>t. (dt_round t, dt_stance t)) ts)"
  shows "\<exists>s'. critique_append s t = Inr s' \<and> recorded s' (ts @ [t])"
proof -
  have "\<forall>x\<in>set (map turn_json ts). msg_id x \<noteq> Some (turn_id t)"
  proof
    fix x assume "x \<in> set (map turn_json ts)"
    then obtain u where u: "u \<in> set ts" "x = turn_json u" by auto
    then have "(dt_round t, dt_stance t) \<noteq> (dt_round u, dt_stance u)" using assms(2) by auto
    then show "msg_id x \<noteq> Some (turn_id t)" using u turn_id_inj [of u t] by (auto simp: msg_id_turn)
  qed
  then have "foldl append_msg (map turn_json ts) [turn_json t] = map turn_json (ts @ [t])"
    by (simp add: append_msg_def msg_id_turn upsert_by_push)
  moreover have "list_of (rs_read s ''critique'') = map turn_json ts"
    using assms(1) by (simp add: recorded_def)
  ultimately have m: "append_messages (rs_read s ''critique'') (Array [turn_json t]) = Array (map turn_json (ts @ [t]))"
    by (simp add: append_messages_def)
  have "rs_schema s ''critique'' = Some \<lparr>ch_key = ''critique'', ch_reducer = append_messages, ch_default = Null\<rparr>"
    using assms(1) by (simp add: recorded_def critique_schema_def schema_add_def)
  with m assms(1) show ?thesis
    by (simp add: critique_append_def rs_write_def recorded_def rs_read_def [of "s\<lparr>rs_values := _\<rparr>"])
qed

subsection \<open>What a debate returns\<close>

text \<open>The turns of \<open>j\<close> full rounds, as pairs of round and stance.\<close>

definition sched :: "nat \<Rightarrow> (nat \<times> stance) list" where
  "sched j = concat (map (\<lambda>k. [(k, Proponent), (k, Critic)]) [1..<Suc j])"

definition keyed :: "debate_turn list \<Rightarrow> (nat \<times> stance) list" where
  "keyed ts = map (\<lambda>t. (unat (dt_round t), dt_stance t)) ts"

lemma sched_0 [simp]: "sched 0 = []"
  by (simp add: sched_def)

lemma sched_Suc: "sched (Suc j) = sched j @ [(Suc j, Proponent), (Suc j, Critic)]"
  by (simp add: sched_def)

lemma sched_bound: "(k, x) \<in> set (sched j) \<Longrightarrow> k \<le> j \<and> x \<noteq> Judge"
  by (auto simp: sched_def)

lemma length_sched [simp]: "length (sched j) = 2 * j"
  by (induction j) (simp_all add: sched_Suc)

lemma keyed_append [simp]: "keyed (xs @ ys) = keyed xs @ keyed ys"
  by (simp add: keyed_def)

lemma keyed_Cons [simp]: "keyed (t # ts) = (unat (dt_round t), dt_stance t) # keyed ts" "keyed [] = []"
  by (simp_all add: keyed_def)

lemma not_keyed:
  "(unat (dt_round t), dt_stance t) \<notin> set (keyed ts) \<Longrightarrow>
   (dt_round t, dt_stance t) \<notin> set (map (\<lambda>t. (dt_round t, dt_stance t)) ts)"
  by (auto simp: keyed_def)

lemma record_debate_turn_ok:
  assumes "recorded s (db_transcript d)" and "(unat (dt_round t), dt_stance t) \<notin> set (keyed (db_transcript d))"
  shows "\<exists>s'. record_debate_turn (s, d) t = Inr (s', d\<lparr>db_transcript := db_transcript d @ [t]\<rparr>) \<and>
     recorded s' (db_transcript d @ [t])"
  using critique_append_fresh [OF assms(1) not_keyed [OF assms(2)]] by (auto simp: record_debate_turn_def)

definition after_rounds :: "nat \<Rightarrow> run_state \<times> debate_state \<Rightarrow> bool" where
  "after_rounds j sd \<longleftrightarrow> recorded (fst sd) (db_transcript (snd sd)) \<and> keyed (db_transcript (snd sd)) = sched j"

lemma debate_round_step:
  assumes "after_rounds j (s, d)" and "unat r = Suc j" and "\<not> db_converged d"
    and "debate_round roles ctx r (s, d) current w = (Inr (sd', current'), w')"
  shows "after_rounds (Suc j) sd' \<and> db_round (snd sd') = r \<and> db_max_rounds (snd sd') = db_max_rounds d \<and>
     (db_converged (snd sd') \<longleftrightarrow> db_unresolved (snd sd') = [])"
proof -
  let ?d = "d\<lparr>db_round := r\<rparr>"
  define pt where "pt c = \<lparr>dt_round = r, dt_author = c_label (ro_proponent roles), dt_stance = Proponent, dt_claim = c\<rparr>" for c
  define ct where "ct c = \<lparr>dt_round = r, dt_author = c_label (ro_critic roles), dt_stance = Critic, dt_claim = c\<rparr>" for c
  from assms(1) have rec: "recorded s (db_transcript d)" and key: "keyed (db_transcript d) = sched j"
    by (simp_all add: after_rounds_def)
  have fields: "dt_round (pt c) = r" "dt_stance (pt c) = Proponent" "dt_round (ct c) = r" "dt_stance (ct c) = Critic" for c
    by (simp_all add: pt_def ct_def)
  have fresh: "(unat r, Proponent) \<notin> set (keyed (db_transcript d))"
    "(unat r, Critic) \<notin> set (keyed (db_transcript d @ [pt c]))" for c
    using sched_bound [of "Suc j" _ j] by (auto simp: key assms(2) fields)
  have "\<exists>s1. record_debate_turn (s, ?d) (pt c) = Inr (s1, ?d\<lparr>db_transcript := db_transcript d @ [pt c]\<rparr>) \<and>
      recorded s1 (db_transcript d @ [pt c])" for c
    using record_debate_turn_ok [of s ?d "pt c"] rec fresh(1) by (simp add: fields)
  then obtain s1 where s1: "record_debate_turn (s, ?d) (pt c) = Inr (s1 c, ?d\<lparr>db_transcript := db_transcript d @ [pt c]\<rparr>)"
    "recorded (s1 c) (db_transcript d @ [pt c])" for c
    by metis
  have "\<exists>s2. record_debate_turn (s1 c, ?d\<lparr>db_transcript := db_transcript d @ [pt c]\<rparr>) (ct e) =
      Inr (s2, ?d\<lparr>db_transcript := db_transcript d @ [pt c, ct e]\<rparr>) \<and> recorded s2 (db_transcript d @ [pt c, ct e])" for c e
    using record_debate_turn_ok [of "s1 c" "?d\<lparr>db_transcript := db_transcript d @ [pt c]\<rparr>" "ct e"] s1(2) fresh(2)
    by (simp add: fields)
  then obtain s2 where s2: "record_debate_turn (s1 c, ?d\<lparr>db_transcript := db_transcript d @ [pt c]\<rparr>) (ct e) =
      Inr (s2 c e, ?d\<lparr>db_transcript := db_transcript d @ [pt c, ct e]\<rparr>)"
    "recorded (s2 c e) (db_transcript d @ [pt c, ct e])" for c e
    by metis
  have keyed: "keyed (db_transcript d @ [pt c, ct e]) = sched (Suc j)" for c e
    using key assms(2) by (simp add: sched_Suc fields)
  show ?thesis
    using assms(3,4) keyed s2(2)
    by (auto simp: debate_round_def Let_def s1(1) s2(1) pt_def [symmetric] ct_def [symmetric] after_rounds_def
        split: sum.splits prod.splits if_splits)
qed

lemma debate_loop_result:
  assumes "after_rounds j (s, d)" and "\<not> db_converged d" and "db_max_rounds d = mx" and "j + n = unat mx"
    and "debate_loop roles ctx n (of_nat (Suc j)) (s, d) current w = (Inr (sd', current'), w')"
  shows "\<exists>k. j \<le> k \<and> k \<le> unat mx \<and> after_rounds k sd' \<and> (n > 0 \<longrightarrow> j < k \<and> unat (db_round (snd sd')) = k \<and>
      (db_converged (snd sd') \<longleftrightarrow> db_unresolved (snd sd') = [])) \<and> (\<not> db_converged (snd sd') \<longrightarrow> k = unat mx) \<and>
      (n = 0 \<longrightarrow> sd' = (s, d))"
  using assms
proof (induction n arbitrary: j s d current w)
  case 0
  then show ?case by (intro exI [of _ j]) auto
next
  case (Suc n)
  have "Suc j \<le> unat mx" using Suc.prems(4) by simp
  moreover have "unat mx < 2 ^ 32" using unsigned_less [of mx] by simp
  ultimately have r: "unat (of_nat (Suc j) :: u32) = Suc j"
    by (simp add: unat_of_nat take_bit_nat_eq_self del: of_nat_Suc)
  obtain q w1 where round: "debate_round roles ctx (of_nat (Suc j)) (s, d) current w = (q, w1)" by force
  show ?case
  proof (cases q)
    case (Inl e)
    with Suc.prems(5) round show ?thesis by simp
  next
    case (Inr p)
    obtain s1 d1 c1 where p: "p = ((s1, d1), c1)" by (metis prod.exhaust)
    note step = debate_round_step [OF Suc.prems(1) r Suc.prems(2) round [unfolded Inr p]]
    show ?thesis
    proof (cases "dissent_termination d1 = TContinue")
      case True
      then have open_d: "\<not> db_converged d1" and less: "\<not> db_round d1 \<ge> db_max_rounds d1"
        using step by (auto simp: dissent_termination_def split: if_splits)
      have "n > 0"
        using less step Suc.prems(3,4) r by (cases n) (auto simp: word_le_nat_alt simp del: of_nat_Suc)
      have "debate_loop roles ctx n (of_nat (Suc (Suc j))) (s1, d1) c1 w1 = (Inr (sd', current'), w')"
        using Suc.prems(5) round Inr p True by (simp add: add.commute)
      from Suc.IH [OF _ open_d _ _ this] step Suc.prems(3,4) \<open>n > 0\<close> show ?thesis by auto
    next
      case False
      then have res: "sd' = (s1, d1)" using Suc.prems(5) round Inr p by simp
      have "db_converged d1 \<or> Suc j = unat mx"
        using False step Suc.prems(3,4) r by (auto simp: dissent_termination_def word_le_nat_alt simp del: of_nat_Suc split: if_splits)
      with res step r \<open>Suc j \<le> unat mx\<close> show ?thesis by (intro exI [of _ "Suc j"]) auto
    qed
  qed
qed

text \<open>
  A debate that returns has run \<open>j\<close> rounds, at most the cap and at least one, stopping early exactly on
  consensus; it has converged exactly when no dissent is left. Its transcript alternates proponent and critic
  round by round, with the judge's verdict last, and reading the recorded channel back gives the same transcript.
\<close>

theorem debate_outcome_recorded:
  assumes "debate_run roles cap initial ctx w = (Inr (out, s), w')" and "cap > 0"
  shows "\<exists>j. 1 \<le> j \<and> j \<le> unat cap \<and> (\<not> do_converged out \<longrightarrow> j = unat cap) \<and>
     (do_converged out \<longleftrightarrow> do_unresolved out = []) \<and>
     map (\<lambda>t. (unat (dt_round t), dt_stance t)) (do_transcript out) =
       concat (map (\<lambda>k. [(k, Proponent), (k, Critic)]) [1..<Suc j]) @ (if ro_judge roles = None then [] else [(j, Judge)]) \<and>
     critique_transcript s = do_transcript out"
proof -
  let ?d = "\<lparr>db_round = 0, db_max_rounds = cap, db_unresolved = [], db_transcript = [], db_converged = False\<rparr>"
  obtain q w1 where loop: "debate_loop roles ctx (unat cap) 1 (critique_new, ?d) initial w = (q, w1)" by force
  with assms(1) obtain sd current where q: "q = Inr (sd, current)"
    by (cases q) (auto simp: debate_run_def)
  obtain c w2 where close: "close_debate roles ctx sd current w1 = (c, w2)" by force
  with assms(1) loop q obtain d' where c: "c = Inr (s, d')" and
    out: "do_converged out = db_converged d'" "do_unresolved out = db_unresolved d'" "do_transcript out = db_transcript d'"
    by (cases c) (auto simp: debate_run_def)
  have "after_rounds 0 (critique_new, ?d)" by (simp add: after_rounds_def recorded_new keyed_def)
  moreover have "unat cap > 0" using assms(2) by (simp add: word_less_nat_alt)
  ultimately obtain j where j: "1 \<le> j" "j \<le> unat cap" "after_rounds j sd" "unat (db_round (snd sd)) = j"
    "db_converged (snd sd) \<longleftrightarrow> db_unresolved (snd sd) = []" "\<not> db_converged (snd sd) \<longrightarrow> j = unat cap"
    using debate_loop_result [of 0 critique_new ?d cap "unat cap" roles ctx initial w sd current w1] loop q by auto
  from j(3) have rec: "recorded (fst sd) (db_transcript (snd sd))" and key: "keyed (db_transcript (snd sd)) = sched j"
    by (simp_all add: after_rounds_def)
  have "keyed (db_transcript d') = sched j @ (if ro_judge roles = None then [] else [(j, Judge)]) \<and>
      recorded s (db_transcript d') \<and> db_converged d' = db_converged (snd sd) \<and> db_unresolved d' = db_unresolved (snd sd)"
  proof (cases "ro_judge roles")
    case None
    with close c rec key show ?thesis by (auto simp: close_debate_def)
  next
    case (Some judge)
    then obtain v where v: "record_debate_turn sd \<lparr>dt_round = db_round (snd sd), dt_author = c_label judge, dt_stance = Judge,
        dt_claim = v\<rparr> = Inr (s, d')"
      using close c by (auto simp: close_debate_def split: sum.splits prod.splits)
    have "(j, Judge) \<notin> set (keyed (db_transcript (snd sd)))" using sched_bound [of j Judge j] by (auto simp: key)
    then obtain s' where "record_debate_turn (fst sd, snd sd) \<lparr>dt_round = db_round (snd sd), dt_author = c_label judge,
        dt_stance = Judge, dt_claim = v\<rparr> = Inr (s', snd sd\<lparr>db_transcript := db_transcript (snd sd) @
          [\<lparr>dt_round = db_round (snd sd), dt_author = c_label judge, dt_stance = Judge, dt_claim = v\<rparr>]\<rparr>)"
      "recorded s' (db_transcript (snd sd) @
          [\<lparr>dt_round = db_round (snd sd), dt_author = c_label judge, dt_stance = Judge, dt_claim = v\<rparr>])"
      using record_debate_turn_ok [OF rec, of "\<lparr>dt_round = db_round (snd sd), dt_author = c_label judge, dt_stance = Judge,
        dt_claim = v\<rparr>"] j(4) by auto
    with v Some key j(4) show ?thesis by auto
  qed
  with j out show ?thesis
    unfolding keyed_def [symmetric] sched_def [symmetric]
    by (intro exI [of _ j] conjI) (simp_all add: recorded_transcript)
qed

definition demo_roles :: "(unit, unit) debate_roles" where
  "demo_roles = \<lparr>ro_proponent = fn_labeled ''bull'' (\<lambda>x c w. (Inr (Object [(''claim'', String ''up'')]), w)),
     ro_critic = fn_labeled ''bear'' (\<lambda>x c w. (Inr (Object [(''dissent'', Bool False)]), w)), ro_judge = None\<rparr>"

theorem debate_outcome_recorded_witness:
  "\<exists>out s. debate_run demo_roles 1 Null \<lparr>cc_trace = [], cc_rest = ()\<rparr> () = (Inr (out, s), ()) \<and>
     do_unresolved out = [] \<and> critique_transcript s = do_transcript out \<and>
     map (\<lambda>t. (unat (dt_round t), dt_stance t)) (do_transcript out) = [(1, Proponent), (1, Critic)]"
proof -
  obtain out s where run: "debate_run demo_roles 1 Null \<lparr>cc_trace = [], cc_rest = ()\<rparr> () = (Inr (out, s), ())"
    and conv: "do_converged out"
    by (simp add: debate_run_def debate_round_def demo_roles_def fn_labeled_def close_debate_def record_debate_turn_def
        critique_append_def rs_write_def critique_new_def run_state_new_def critique_schema_def schema_add_def
        dissent_termination_def get_bool_def Let_def)
  have "(0 :: u32) < 1" by simp
  from debate_outcome_recorded [OF run this] conv run show ?thesis
    by (auto simp: demo_roles_def)
qed

end
