(* ===== verification/Sandbox.thy ===== *)
theory Sandbox
  imports Core "HOL-Library.Product_Lexorder"
begin

text \<open>
  Sandboxes for code a model wrote (\<open>crates/sandbox-core\<close>, \<open>crates/sandbox-harness\<close>): the profiles and their resource
  floor, placement on nodes, the pool of warm snapshots, the backend interface as a locale and the in-memory
  backend that implements it. The harness over a backend is in \<open>Sandbox_Harness\<close>.
\<close>

subsection \<open>Profiles and budgets (profile.rs, budget.rs)\<close>

datatype language = Python | Bash | Js | Rust

datatype sandbox_profile = PythonOnly | NpmOnly | RustOnly | PythonAndNpm | FullStack

fun supports :: "sandbox_profile \<Rightarrow> language \<Rightarrow> bool" where
  "supports p Bash = True"
| "supports PythonOnly lang = (lang = Python)"
| "supports NpmOnly lang = (lang = Js)"
| "supports RustOnly lang = (lang = Rust)"
| "supports PythonAndNpm lang = (lang = Python \<or> lang = Js)"
| "supports FullStack lang = True"

definition is_rust :: "sandbox_profile \<Rightarrow> bool" where
  "is_rust p \<longleftrightarrow> p = RustOnly \<or> p = FullStack"

fun for_language :: "language \<Rightarrow> sandbox_profile" where
  "for_language Python = PythonOnly"
| "for_language Js = NpmOnly"
| "for_language Rust = RustOnly"
| "for_language Bash = FullStack"

fun profile_debug :: "sandbox_profile \<Rightarrow> string" where
  "profile_debug PythonOnly = ''PythonOnly''"
| "profile_debug NpmOnly = ''NpmOnly''"
| "profile_debug RustOnly = ''RustOnly''"
| "profile_debug PythonAndNpm = ''PythonAndNpm''"
| "profile_debug FullStack = ''FullStack''"

fun language_debug :: "language \<Rightarrow> string" where
  "language_debug Python = ''Python''"
| "language_debug Bash = ''Bash''"
| "language_debug Js = ''Js''"
| "language_debug Rust = ''Rust''"

datatype sandbox_error =
    Unsupported string
  | Backend string
  | Timeout
  | NotFound string
  | BudgetViolation string
  | Guest string
  | Io string

fun sandbox_error_text :: "sandbox_error \<Rightarrow> string" where
  "sandbox_error_text (Unsupported m) = ''not supported by this backend: '' @ m"
| "sandbox_error_text (Backend m) = ''backend error: '' @ m"
| "sandbox_error_text Timeout = ''operation timed out''"
| "sandbox_error_text (NotFound i) = ''sandbox not found: '' @ i"
| "sandbox_error_text (BudgetViolation m) = ''budget violation: '' @ m"
| "sandbox_error_text (Guest m) = ''guest agent error: '' @ m"
| "sandbox_error_text (Io m) = ''io error: '' @ m"

type_synonym 'a sb_result = "sandbox_error + 'a"

definition ensure_supports :: "sandbox_profile \<Rightarrow> language \<Rightarrow> unit sb_result" where
  "ensure_supports p lang =
     (if supports p lang then Inr ()
      else Inl (BudgetViolation (''profile '' @ profile_debug p @ '' cannot run language '' @ language_debug lang)))"

record resource_budget =
  rb_vcpus :: "8 word"
  rb_mem_mib :: u32
  rb_disk_mib :: u32
  rb_wall_clock_secs :: u64

definition enforce_rust_floor :: "resource_budget \<Rightarrow> resource_budget" where
  "enforce_rust_floor b = b\<lparr>rb_vcpus := max (rb_vcpus b) 2, rb_mem_mib := max (rb_mem_mib b) 2048\<rparr>"

definition for_profile :: "sandbox_profile \<Rightarrow> resource_budget" where
  "for_profile p =
     (let base = \<lparr>rb_vcpus = 1, rb_mem_mib = 512, rb_disk_mib = 2048, rb_wall_clock_secs = 60\<rparr>
      in if is_rust p then enforce_rust_floor base else base)"

subsection \<open>Requests (request.rs)\<close>

datatype backend_sel = Auto | MockSel | DockerSel "string option" | Firecracker | Remote string

record create_sandbox =
  cs_profile :: sandbox_profile
  cs_budget :: "resource_budget option"
  cs_backend :: backend_sel
  cs_env :: "(string \<times> string) list"
  cs_from_snapshot :: "string option"
  cs_metadata :: "(string \<times> json) list"

definition create_sandbox_new :: "sandbox_profile \<Rightarrow> create_sandbox" where
  "create_sandbox_new p =
     \<lparr>cs_profile = p, cs_budget = None, cs_backend = Auto, cs_env = [], cs_from_snapshot = None, cs_metadata = []\<rparr>"

definition effective_budget :: "create_sandbox \<Rightarrow> resource_budget" where
  "effective_budget r =
     (let base = (case cs_budget r of Some b \<Rightarrow> b | None \<Rightarrow> for_profile (cs_profile r))
      in if is_rust (cs_profile r) then enforce_rust_floor base else base)"

record sandbox_info =
  sb_id :: string
  sb_profile :: sandbox_profile
  sb_budget :: resource_budget
  sb_backend :: string
  sb_boot_ms :: u64
  sb_forked_from :: "string option"

record exec_request =
  er_language :: language
  er_code :: string
  er_dependencies :: "string list"
  er_stdin :: "string option"
  er_env :: "(string \<times> string) list"
  er_timeout_secs :: "u64 option"

record exec_result =
  ex_exec_id :: string
  ex_code :: "int option"
  ex_success :: bool
  ex_stdout :: string
  ex_stderr :: string
  ex_timed_out :: bool

definition to_tool_json :: "exec_result \<Rightarrow> json" where
  "to_tool_json r = obj_of
     [(''exec_id'', String (ex_exec_id r)),
      (''exit_code'', case ex_code r of Some c \<Rightarrow> Number (IntN c) | None \<Rightarrow> Null),
      (''success'', Bool (ex_success r)), (''stdout'', String (ex_stdout r)),
      (''stderr'', String (ex_stderr r)), (''timed_out'', Bool (ex_timed_out r))]"

lemma effective_budget_idem: "effective_budget (r\<lparr>cs_budget := Some (effective_budget r)\<rparr>) = effective_budget r"
  by (simp add: effective_budget_def enforce_rust_floor_def Let_def)

lemma rust_floor:
  "is_rust (cs_profile r) \<Longrightarrow> 2 \<le> rb_vcpus (effective_budget r) \<and> 2048 \<le> rb_mem_mib (effective_budget r)"
  by (simp add: effective_budget_def enforce_rust_floor_def Let_def)

lemma budget_kept:
  "cs_budget r = Some b \<Longrightarrow> rb_vcpus b \<le> rb_vcpus (effective_budget r) \<and> rb_mem_mib b \<le> rb_mem_mib (effective_budget r) \<and>
   (rb_vcpus b < rb_vcpus (effective_budget r) \<longrightarrow> is_rust (cs_profile r) \<and> rb_vcpus b < 2) \<and>
   (rb_mem_mib b < rb_mem_mib (effective_budget r) \<longrightarrow> is_rust (cs_profile r) \<and> rb_mem_mib b < 2048)"
  by (auto simp: effective_budget_def enforce_rust_floor_def Let_def max_def not_le)

lemma for_language_supports: "supports (for_language lang) lang"
  by (cases lang) simp_all

subsection \<open>Placement (scheduler.rs)\<close>

record node_status =
  nd_id :: string
  nd_free_vcpus :: u32
  nd_free_mem_mib :: u32
  nd_warm_snapshots :: "string list"

definition fits :: "resource_budget \<Rightarrow> node_status \<Rightarrow> bool" where
  "fits need n \<longleftrightarrow> ucast (rb_vcpus need) \<le> nd_free_vcpus n \<and> rb_mem_mib need \<le> nd_free_mem_mib n"

definition place_key :: "string option \<Rightarrow> node_status \<Rightarrow> nat \<times> nat \<times> nat" where
  "place_key prefer n =
     ((case prefer of Some s \<Rightarrow> if s \<in> set (nd_warm_snapshots n) then 0 else 1 | None \<Rightarrow> 1),
      unat (nd_free_mem_mib n), unat (nd_free_vcpus n))"

text \<open>\<open>min_by_key\<close>: the first minimal element.\<close>

fun min_by_key :: "('a \<Rightarrow> 'k::linorder) \<Rightarrow> 'a list \<Rightarrow> 'a option" where
  "min_by_key f [] = None"
| "min_by_key f (x # xs) =
     (case min_by_key f xs of None \<Rightarrow> Some x | Some y \<Rightarrow> if f x \<le> f y then Some x else Some y)"

definition best_fit_place :: "resource_budget \<Rightarrow> string option \<Rightarrow> node_status list \<Rightarrow> string option" where
  "best_fit_place need prefer nodes = map_option nd_id (min_by_key (place_key prefer) (filter (fits need) nodes))"

lemma min_by_key_None [simp]: "min_by_key f xs = None \<longleftrightarrow> xs = []"
  by (cases xs) (auto split: option.splits)

lemma min_by_key_Some:
  "min_by_key f xs = Some x \<Longrightarrow> \<exists>as bs. xs = as @ x # bs \<and> (\<forall>y\<in>set as. f x < f y) \<and> (\<forall>y\<in>set bs. f x \<le> f y)"
proof (induction xs arbitrary: x)
  case (Cons z zs)
  show ?case
  proof (cases "min_by_key f zs")
    case None
    with Cons.prems show ?thesis by (intro exI [of _ "[]"]) auto
  next
    case (Some y)
    then obtain as bs where y: "zs = as @ y # bs" "\<forall>v\<in>set as. f y < f v" "\<forall>v\<in>set bs. f y \<le> f v"
      using Cons.IH by blast
    show ?thesis
    proof (cases "f z \<le> f y")
      case True
      with Some Cons.prems have "x = z" by simp
      with True y show ?thesis by (intro exI [of _ "[]"] exI [of _ zs]) (auto intro: order_trans less_imp_le)
    next
      case False
      with Some Cons.prems have "x = y" by simp
      with False y show ?thesis by (intro exI [of _ "z # as"] exI [of _ bs]) auto
    qed
  qed
qed simp

lemma filter_split:
  "filter P xs = as @ x # bs \<Longrightarrow> \<exists>us vs. xs = us @ x # vs \<and> filter P us = as \<and> filter P vs = bs \<and> P x"
proof (induction xs arbitrary: as)
  case (Cons y ys)
  show ?case
  proof (cases "P y \<and> as = []")
    case True
    with Cons.prems have "y = x" "filter P ys = bs" by auto
    with True show ?thesis by (intro exI [of _ "[]"] exI [of _ ys]) simp
  next
    case False
    with Cons.prems have "filter P ys = (if P y then tl as else as) @ x # bs" "P y \<longrightarrow> as \<noteq> [] \<and> hd as = y"
      by (auto simp: Cons_eq_append_conv)
    then obtain us vs where "ys = us @ x # vs" "filter P us = (if P y then tl as else as)" "filter P vs = bs" "P x"
      using Cons.IH by blast
    with \<open>P y \<longrightarrow> as \<noteq> [] \<and> hd as = y\<close> show ?thesis by (intro exI [of _ "y # us"] exI [of _ vs]) auto
  qed
qed simp

text \<open>
  Placement fails exactly when no node fits; else it picks the first of the fitting nodes that are best, where
  holding the preferred snapshot counts before everything, then the least free memory, then the least free
  CPUs. (The comment makes the snapshot the tie-breaker of equal capacity.)
\<close>

theorem best_fit_minimal:
  "(case best_fit_place need prefer nodes of
      None \<Rightarrow> \<not> list_ex (fits need) nodes
    | Some i \<Rightarrow> \<exists>as n bs. nodes = as @ n # bs \<and> nd_id n = i \<and> fits need n \<and>
        list_all (\<lambda>m. place_key prefer n < place_key prefer m) (filter (fits need) as) \<and>
        list_all (\<lambda>m. place_key prefer n \<le> place_key prefer m) (filter (fits need) bs))"
proof (cases "min_by_key (place_key prefer) (filter (fits need) nodes)")
  case None
  then show ?thesis by (simp add: best_fit_place_def list_ex_iff filter_empty_conv)
next
  case (Some n)
  obtain as bs where f: "filter (fits need) nodes = as @ n # bs"
    "\<forall>m\<in>set as. place_key prefer n < place_key prefer m" "\<forall>m\<in>set bs. place_key prefer n \<le> place_key prefer m"
    using min_by_key_Some [OF Some] by (elim exE conjE) (rule that)
  obtain us vs where uv: "nodes = us @ n # vs" "filter (fits need) us = as" "filter (fits need) vs = bs" "fits need n"
    using filter_split [OF f(1)] by (elim exE conjE) (rule that)
  have "list_all (\<lambda>m. place_key prefer n < place_key prefer m) (filter (fits need) us)"
    "list_all (\<lambda>m. place_key prefer n \<le> place_key prefer m) (filter (fits need) vs)"
    using f(2,3) uv(2,3) by (simp_all add: list_all_iff)
  with uv(1,4) have "\<exists>as n' bs. nodes = as @ n' # bs \<and> nd_id n' = nd_id n \<and> fits need n' \<and>
      list_all (\<lambda>m. place_key prefer n' < place_key prefer m) (filter (fits need) as) \<and>
      list_all (\<lambda>m. place_key prefer n' \<le> place_key prefer m) (filter (fits need) bs)"
    by (intro exI [of _ us] exI [of _ n] exI [of _ vs] conjI refl)
  with Some show ?thesis by (simp only: best_fit_place_def option.map option.case)
qed

definition mock_place :: "string option \<Rightarrow> node_status list \<Rightarrow> string option" where
  "mock_place pick nodes =
     (case pick of Some i \<Rightarrow> Some i | None \<Rightarrow> (case nodes of [] \<Rightarrow> None | n # _ \<Rightarrow> Some (nd_id n)))"

subsection \<open>The pool of warm snapshots (pool.rs)\<close>

record snapshot_pool =
  sp_queues :: "sandbox_profile \<rightharpoonup> string list"
  sp_capacity :: nat

definition pool_new :: "nat \<Rightarrow> snapshot_pool" where
  "pool_new cap = \<lparr>sp_queues = Map.empty, sp_capacity = cap\<rparr>"

definition pool_queue :: "snapshot_pool \<Rightarrow> sandbox_profile \<Rightarrow> string list" where
  "pool_queue p prof = (case sp_queues p prof of Some q \<Rightarrow> q | None \<Rightarrow> [])"

definition pool_offer :: "sandbox_profile \<Rightarrow> string \<Rightarrow> snapshot_pool \<Rightarrow> bool \<times> snapshot_pool" where
  "pool_offer prof snap p =
     (let q = pool_queue p prof in
      if sp_capacity p \<le> length q then (False, p\<lparr>sp_queues := (sp_queues p)(prof \<mapsto> q)\<rparr>)
      else (True, p\<lparr>sp_queues := (sp_queues p)(prof \<mapsto> q @ [snap])\<rparr>))"

definition pool_take :: "sandbox_profile \<Rightarrow> snapshot_pool \<Rightarrow> string option \<times> snapshot_pool" where
  "pool_take prof p =
     (case sp_queues p prof of
        None \<Rightarrow> (None, p)
      | Some [] \<Rightarrow> (None, p)
      | Some (s # q) \<Rightarrow> (Some s, p\<lparr>sp_queues := (sp_queues p)(prof \<mapsto> q)\<rparr>))"

definition pool_len :: "snapshot_pool \<Rightarrow> sandbox_profile \<Rightarrow> nat" where
  "pool_len p prof = (case sp_queues p prof of None \<Rightarrow> 0 | Some q \<Rightarrow> length q)"

datatype pool_op = Offer sandbox_profile string | Take sandbox_profile

fun pool_step :: "pool_op \<Rightarrow> snapshot_pool \<Rightarrow> snapshot_pool" where
  "pool_step (Offer prof snap) p = snd (pool_offer prof snap p)"
| "pool_step (Take prof) p = snd (pool_take prof p)"

text \<open>
  The specification is one bounded queue per profile: an offer to a full queue is refused and the snapshot
  dropped, a take removes the oldest snapshot, and profiles do not influence each other.
\<close>

fun pool_spec :: "nat \<Rightarrow> pool_op \<Rightarrow> (sandbox_profile \<Rightarrow> string list) \<Rightarrow> sandbox_profile \<Rightarrow> string list" where
  "pool_spec cap (Offer prof snap) q = q(prof := (if cap \<le> length (q prof) then q prof else q prof @ [snap]))"
| "pool_spec cap (Take prof) q = q(prof := tl (q prof))"

lemma pool_step_queue:
  "pool_queue (pool_step a p) = pool_spec (sp_capacity p) a (pool_queue p) \<and> sp_capacity (pool_step a p) = sp_capacity p"
  by (cases a) (auto simp: pool_queue_def pool_offer_def pool_take_def Let_def fun_eq_iff split: option.splits list.splits)

lemma pool_answers:
  "fst (pool_offer prof snap p) \<longleftrightarrow> length (pool_queue p prof) < sp_capacity p"
  "fst (pool_take prof p) = (case pool_queue p prof of [] \<Rightarrow> None | s # _ \<Rightarrow> Some s)"
  "pool_len p prof = length (pool_queue p prof)"
  by (auto simp: pool_queue_def pool_offer_def pool_take_def pool_len_def Let_def not_le split: option.splits list.splits)

lemma pool_spec_bounded: "(\<And>prof. length (q prof) \<le> cap) \<Longrightarrow> length (pool_spec cap a q prof) \<le> cap"
  by (cases a) (auto simp: Suc_le_eq intro: le_trans [OF diff_le_self])

lemma pool_new_fields [simp]: "pool_queue (pool_new cap) = (\<lambda>_. [])" "sp_capacity (pool_new cap) = cap"
  by (auto simp: pool_queue_def pool_new_def)

theorem pool_refines_bounded_queues:
  "pool_queue (fold pool_step ops (pool_new cap)) = fold (pool_spec cap) ops (\<lambda>_. []) \<and>
   pool_len (fold pool_step ops (pool_new cap)) prof \<le> cap"
proof -
  have "pool_queue (fold pool_step ops p) = fold (pool_spec (sp_capacity p)) ops (pool_queue p)" for p
    by (induction ops arbitrary: p) (simp_all add: pool_step_queue)
  moreover have "length (fold (pool_spec cap) ops q prof) \<le> cap" if "\<And>prof. length (q prof) \<le> cap" for q
    using that by (induction ops arbitrary: q) (simp_all add: pool_spec_bounded)
  ultimately show ?thesis
    by (simp add: pool_answers(3))
qed

subsection \<open>Backends (backend.rs)\<close>

text \<open>
  A backend and the operations of its handles, over a world \<open>'w\<close> that also answers for clocks and fresh ids.
\<close>

record ('h, 'w) sandbox_backend =
  bk_name :: string
  bk_create :: "create_sandbox \<Rightarrow> 'w \<Rightarrow> 'h sb_result \<times> 'w"
  h_info :: "'h \<Rightarrow> sandbox_info"
  h_exec :: "'h \<Rightarrow> exec_request \<Rightarrow> 'w \<Rightarrow> exec_result sb_result \<times> 'w"
  h_snapshot :: "'h \<Rightarrow> 'w \<Rightarrow> string sb_result \<times> 'w"
  h_fork :: "'h \<Rightarrow> 'w \<Rightarrow> 'h sb_result \<times> 'w"
  h_destroy :: "'h \<Rightarrow> 'w \<Rightarrow> unit sb_result \<times> 'w"

text \<open>
  The contract of the trait: a sandbox is provisioned with the effective budget of its request, and a fork has
  the profile and the budget of its parent.
\<close>

locale provisioning_backend =
  fixes bk :: "('h, 'w) sandbox_backend"
  assumes create_budget:
    "bk_create bk req w = (Inr h, w') \<Longrightarrow>
     sb_profile (h_info bk h) = cs_profile req \<and> sb_budget (h_info bk h) = effective_budget req"
    and fork_budget:
    "h_fork bk h w = (Inr c, w') \<Longrightarrow>
     sb_profile (h_info bk c) = sb_profile (h_info bk h) \<and> sb_budget (h_info bk c) = sb_budget (h_info bk h)"

subsection \<open>The in-memory backend (mock.rs)\<close>

text \<open>
  The file system of a sandbox is shared by reference, so the world maps addresses to file systems. Fresh
  identifiers come from a counter and a naming function.
\<close>

record mock_world =
  mw_drawn :: nat
  mw_files :: "(string \<rightharpoonup> 8 word list) list"

record mock_handle =
  mk_info :: sandbox_info
  mk_fs :: nat

definition fresh_id :: "(nat \<Rightarrow> string) \<Rightarrow> mock_world \<Rightarrow> string \<times> mock_world" where
  "fresh_id uuid w = (uuid (mw_drawn w), w\<lparr>mw_drawn := Suc (mw_drawn w)\<rparr>)"

definition new_fs :: "(string \<rightharpoonup> 8 word list) \<Rightarrow> mock_world \<Rightarrow> nat \<times> mock_world" where
  "new_fs fs w = (length (mw_files w), w\<lparr>mw_files := mw_files w @ [fs]\<rparr>)"

definition mock_create :: "(nat \<Rightarrow> string) \<Rightarrow> create_sandbox \<Rightarrow> mock_world \<Rightarrow> mock_handle sb_result \<times> mock_world" where
  "mock_create uuid req w =
     (let (i, w1) = fresh_id uuid w;
          info = \<lparr>sb_id = i, sb_profile = cs_profile req, sb_budget = effective_budget req, sb_backend = ''mock'',
                  sb_boot_ms = 0, sb_forked_from = cs_from_snapshot req\<rparr>;
          (fs, w2) = new_fs Map.empty w1
      in (Inr \<lparr>mk_info = info, mk_fs = fs\<rparr>, w2))"

definition mock_exec :: "(nat \<Rightarrow> string) \<Rightarrow> mock_handle \<Rightarrow> exec_request \<Rightarrow> mock_world \<Rightarrow> exec_result sb_result \<times> mock_world" where
  "mock_exec uuid h req w =
     (case ensure_supports (sb_profile (mk_info h)) (er_language req) of
        Inl e \<Rightarrow> (Inl e, w)
      | Inr _ \<Rightarrow>
          (let (i, w1) = fresh_id uuid w in
           (Inr \<lparr>ex_exec_id = i, ex_code = Some 0, ex_success = True,
                 ex_stdout = ''[mock:'' @ language_debug (er_language req) @ ''] ran '' @ show_nat (length (er_code req)) @
                   '' bytes of code with '' @ show_nat (length (er_dependencies req)) @ '' dependency/-ies'',
                 ex_stderr = [], ex_timed_out = False\<rparr>, w1)))"

definition mock_write_file :: "mock_handle \<Rightarrow> string \<Rightarrow> 8 word list \<Rightarrow> mock_world \<Rightarrow> unit sb_result \<times> mock_world" where
  "mock_write_file h path bytes w =
     (Inr (), w\<lparr>mw_files := (mw_files w)[mk_fs h := (mw_files w ! mk_fs h)(path \<mapsto> bytes)]\<rparr>)"

definition mock_read_file :: "mock_handle \<Rightarrow> string \<Rightarrow> mock_world \<Rightarrow> 8 word list sb_result" where
  "mock_read_file h path w = ok_or (Guest (''no such file: '' @ path)) ((mw_files w ! mk_fs h) path)"

definition mock_snapshot :: "(nat \<Rightarrow> string) \<Rightarrow> mock_handle \<Rightarrow> mock_world \<Rightarrow> string sb_result \<times> mock_world" where
  "mock_snapshot uuid h w = (let (i, w1) = fresh_id uuid w in (Inr i, w1))"

definition mock_fork :: "(nat \<Rightarrow> string) \<Rightarrow> mock_handle \<Rightarrow> mock_world \<Rightarrow> mock_handle sb_result \<times> mock_world" where
  "mock_fork uuid h w =
     (let (i, w1) = fresh_id uuid w;
          (s, w2) = fresh_id uuid w1;
          (fs, w3) = new_fs (mw_files w2 ! mk_fs h) w2
      in (Inr \<lparr>mk_info = (mk_info h)\<lparr>sb_id := i, sb_forked_from := Some s\<rparr>, mk_fs = fs\<rparr>, w3))"

definition mock_backend :: "(nat \<Rightarrow> string) \<Rightarrow> (mock_handle, mock_world) sandbox_backend" where
  "mock_backend uuid =
     \<lparr>bk_name = ''mock'', bk_create = mock_create uuid, h_info = mk_info, h_exec = mock_exec uuid,
      h_snapshot = mock_snapshot uuid, h_fork = mock_fork uuid, h_destroy = (\<lambda>h w. (Inr (), w))\<rparr>"

interpretation mock: provisioning_backend "mock_backend uuid" for uuid
  by unfold_locales
     (auto simp: mock_backend_def mock_create_def mock_fork_def fresh_id_def new_fs_def Let_def)

text \<open>
  A fork starts with the files of its parent and is separate from it afterwards: a write through one of the
  handles is read back through that handle and does not change what the other one reads.
\<close>

theorem mock_fork_isolated:
  assumes "mk_fs h < length (mw_files w)" and "mock_fork uuid h w = (Inr c, w1)"
  shows "mock_read_file c p w1 = mock_read_file h p w"
    and "mock_read_file h p (snd (mock_write_file c q bs w1)) = mock_read_file h p w"
    and "mock_read_file c p (snd (mock_write_file h q bs w1)) = mock_read_file h p w"
    and "mock_read_file c q (snd (mock_write_file c q bs w1)) = Inr bs"
  using assms
  by (auto simp: mock_fork_def fresh_id_def new_fs_def mock_read_file_def mock_write_file_def Let_def nth_append)

end
