(* ===== verification/Sandbox_Harness.thy ===== *)
theory Sandbox_Harness
  imports Sandbox Security
begin

text \<open>
  The harness over a sandbox backend (\<open>crates/sandbox-harness/src/harness.rs\<close>) and the tool that exposes it
  (\<open>crates/sandbox-tool\<close>): one-shot runs, the registry of persistent sandboxes, the event stream and the quota.
  The operations are sequential first; the quota is then modelled at the grain of its atomic counter with any
  number of concurrent callers.
\<close>

subsection \<open>State (harness.rs, event.rs)\<close>

datatype sandbox_event =
    SbCreated string sandbox_profile u64
  | SbExecStarted string language
  | SbExecEnded string string "int option" u64
  | SbExecError string string
  | SbForked string string string
  | SbDestroyed string

text \<open>The registry is a map by id; the events are those broadcast so far. \<open>sh_live\<close> is the admission counter.\<close>

record 'h sandbox_harness =
  sh_sandboxes :: "(string \<times> 'h) list"
  sh_live :: u64
  sh_events :: "sandbox_event list"

definition sh_new :: "'h sandbox_harness" where
  "sh_new = \<lparr>sh_sandboxes = [], sh_live = 0, sh_events = []\<rparr>"

definition sh_broadcast :: "sandbox_event list \<Rightarrow> 'h sandbox_harness \<Rightarrow> 'h sandbox_harness" where
  "sh_broadcast evs s = s\<lparr>sh_events := sh_events s @ evs\<rparr>"

definition sh_insert :: "string \<Rightarrow> 'h \<Rightarrow> 'h sandbox_harness \<Rightarrow> 'h sandbox_harness" where
  "sh_insert i h s = s\<lparr>sh_sandboxes := upsert_by (\<lambda>e. fst e = i) (i, h) (sh_sandboxes s)\<rparr>"

definition sh_get :: "'h sandbox_harness \<Rightarrow> string \<Rightarrow> 'h option" where
  "sh_get s i = map_option snd (find (\<lambda>e. fst e = i) (sh_sandboxes s))"

definition sh_live_count :: "'h sandbox_harness \<Rightarrow> nat" where
  "sh_live_count s = length (sh_sandboxes s)"

definition sh_list :: "('h, 'w) sandbox_backend \<Rightarrow> 'h sandbox_harness \<Rightarrow> sandbox_info list" where
  "sh_list bk s = map (\<lambda>e. h_info bk (snd e)) (sh_sandboxes s)"

definition sh_remove :: "string \<Rightarrow> 'h sandbox_harness \<Rightarrow> 'h sandbox_harness" where
  "sh_remove i s = s\<lparr>sh_sandboxes := filter (\<lambda>e. fst e \<noteq> i) (sh_sandboxes s)\<rparr>"

definition reserve_slot :: "u64 \<Rightarrow> 'h sandbox_harness \<Rightarrow> unit sb_result \<times> 'h sandbox_harness" where
  "reserve_slot cap s =
     (let s1 = s\<lparr>sh_live := sh_live s + 1\<rparr> in
      if cap \<le> sh_live s
      then (Inl (BudgetViolation (''max concurrent sandboxes ('' @ show_nat (unat cap) @ '') reached'')),
            s1\<lparr>sh_live := sh_live s1 - 1\<rparr>)
      else (Inr (), s1))"

definition release_slot :: "'h sandbox_harness \<Rightarrow> 'h sandbox_harness" where
  "release_slot s = s\<lparr>sh_live := sh_live s - 1\<rparr>"

fun backend_matches :: "string \<Rightarrow> backend_sel \<Rightarrow> bool" where
  "backend_matches name Auto = True"
| "backend_matches name MockSel = (name = ''mock'')"
| "backend_matches name (DockerSel img) = (name = ''docker'')"
| "backend_matches name Firecracker = (name = ''firecracker'')"
| "backend_matches name (Remote endpoint) = (name = ''remote'')"

definition ensure_backend_available :: "('h, 'w) sandbox_backend \<Rightarrow> backend_sel \<Rightarrow> unit sb_result" where
  "ensure_backend_available bk sel =
     (if backend_matches (bk_name bk) sel then Inr ()
      else Inl (Unsupported ''requested sandbox backend is not available on this harness''))"

definition normalize :: "create_sandbox \<Rightarrow> create_sandbox" where
  "normalize req = req\<lparr>cs_budget := Some (effective_budget req)\<rparr>"

subsection \<open>One-shot runs (harness.rs)\<close>

text \<open>The event of an execution; \<open>clock\<close> reads the elapsed milliseconds off the worlds before and after it.\<close>

definition exec_outcome :: "('w \<Rightarrow> 'w \<Rightarrow> u64) \<Rightarrow> string \<Rightarrow> exec_result sb_result \<Rightarrow> 'w \<Rightarrow> 'w \<Rightarrow> sandbox_event" where
  "exec_outcome clock i r w0 w1 =
     (case r of Inr res \<Rightarrow> SbExecEnded i (ex_exec_id res) (ex_code res) (clock w0 w1)
      | Inl e \<Rightarrow> SbExecError i (sandbox_error_text e))"

type_synonym ('a, 'h, 'w) sh_result = "'a sb_result \<times> 'h sandbox_harness \<times> 'w"

definition sh_run_once ::
  "('h, 'w) sandbox_backend \<Rightarrow> ('w \<Rightarrow> 'w \<Rightarrow> u64) \<Rightarrow> create_sandbox \<Rightarrow> exec_request \<Rightarrow> 'h sandbox_harness \<Rightarrow> 'w \<Rightarrow>
   (exec_result, 'h, 'w) sh_result" where
  "sh_run_once bk clock create exec s w =
     (case ensure_backend_available bk (cs_backend create) of
        Inl e \<Rightarrow> (Inl e, s, w)
      | Inr _ \<Rightarrow>
          (case ensure_supports (cs_profile create) (er_language exec) of
             Inl e \<Rightarrow> (Inl e, s, w)
           | Inr _ \<Rightarrow>
               (case bk_create bk (normalize create) w of
                  (Inl e, w1) \<Rightarrow> (Inl e, s, w1)
                | (Inr h, w1) \<Rightarrow>
                    (let info = h_info bk h;
                         s1 = sh_broadcast [SbCreated (sb_id info) (sb_profile info) (sb_boot_ms info)] s;
                         s2 = sh_broadcast [SbExecStarted (sb_id info) (er_language exec)] s1;
                         (r, w2) = h_exec bk h exec w1;
                         s3 = sh_broadcast [exec_outcome clock (sb_id info) r w1 w2] s2;
                         (_, w3) = h_destroy bk h w2
                     in (r, sh_broadcast [SbDestroyed (sb_id info)] s3, w3)))))"

definition sh_run_exec ::
  "('h, 'w) sandbox_backend \<Rightarrow> ('w \<Rightarrow> 'w \<Rightarrow> u64) \<Rightarrow> exec_request \<Rightarrow> sandbox_profile option \<Rightarrow> backend_sel \<Rightarrow>
   'h sandbox_harness \<Rightarrow> 'w \<Rightarrow> (exec_result, 'h, 'w) sh_result" where
  "sh_run_exec bk clock exec profile sel s w =
     (let p = (case profile of Some p \<Rightarrow> p | None \<Rightarrow> for_language (er_language exec))
      in sh_run_once bk clock ((create_sandbox_new p)\<lparr>cs_backend := sel\<rparr>) exec s w)"

subsection \<open>The registry (harness.rs)\<close>

definition sh_create ::
  "('h, 'w) sandbox_backend \<Rightarrow> u64 \<Rightarrow> create_sandbox \<Rightarrow> 'h sandbox_harness \<Rightarrow> 'w \<Rightarrow> (sandbox_info, 'h, 'w) sh_result" where
  "sh_create bk cap req s w =
     (case ensure_backend_available bk (cs_backend req) of
        Inl e \<Rightarrow> (Inl e, s, w)
      | Inr _ \<Rightarrow>
          (case reserve_slot cap s of
             (Inl e, s1) \<Rightarrow> (Inl e, s1, w)
           | (Inr _, s1) \<Rightarrow>
               (case bk_create bk (normalize req) w of
                  (Inl e, w1) \<Rightarrow> (Inl e, release_slot s1, w1)
                | (Inr h, w1) \<Rightarrow>
                    (let info = h_info bk h
                     in (Inr info, sh_broadcast [SbCreated (sb_id info) (sb_profile info) (sb_boot_ms info)]
                           (sh_insert (sb_id info) h s1), w1)))))"

definition sh_exec ::
  "('h, 'w) sandbox_backend \<Rightarrow> ('w \<Rightarrow> 'w \<Rightarrow> u64) \<Rightarrow> string \<Rightarrow> exec_request \<Rightarrow> 'h sandbox_harness \<Rightarrow> 'w \<Rightarrow>
   (exec_result, 'h, 'w) sh_result" where
  "sh_exec bk clock i req s w =
     (case sh_get s i of
        None \<Rightarrow> (Inl (NotFound i), s, w)
      | Some h \<Rightarrow>
          (let s1 = sh_broadcast [SbExecStarted i (er_language req)] s;
               (r, w1) = h_exec bk h req w
           in (r, sh_broadcast [exec_outcome clock i r w w1] s1, w1)))"

definition sh_snapshot ::
  "('h, 'w) sandbox_backend \<Rightarrow> string \<Rightarrow> 'h sandbox_harness \<Rightarrow> 'w \<Rightarrow> (string, 'h, 'w) sh_result" where
  "sh_snapshot bk i s w =
     (case sh_get s i of
        None \<Rightarrow> (Inl (NotFound i), s, w)
      | Some h \<Rightarrow> (case h_snapshot bk h w of (r, w1) \<Rightarrow> (r, s, w1)))"

definition sh_fork ::
  "('h, 'w) sandbox_backend \<Rightarrow> u64 \<Rightarrow> string \<Rightarrow> 'h sandbox_harness \<Rightarrow> 'w \<Rightarrow> (sandbox_info, 'h, 'w) sh_result" where
  "sh_fork bk cap i s w =
     (case sh_get s i of
        None \<Rightarrow> (Inl (NotFound i), s, w)
      | Some parent \<Rightarrow>
          (case reserve_slot cap s of
             (Inl e, s1) \<Rightarrow> (Inl e, s1, w)
           | (Inr _, s1) \<Rightarrow>
               (case h_fork bk parent w of
                  (Inl e, w1) \<Rightarrow> (Inl e, release_slot s1, w1)
                | (Inr c, w1) \<Rightarrow>
                    (let info = h_info bk c;
                         snap = (case sb_forked_from info of Some x \<Rightarrow> x | None \<Rightarrow> [])
                     in (Inr info, sh_broadcast [SbForked i (sb_id info) snap] (sh_insert (sb_id info) c s1), w1)))))"

definition sh_destroy ::
  "('h, 'w) sandbox_backend \<Rightarrow> string \<Rightarrow> 'h sandbox_harness \<Rightarrow> 'w \<Rightarrow> (unit, 'h, 'w) sh_result" where
  "sh_destroy bk i s w =
     (case sh_get s i of
        None \<Rightarrow> (Inl (NotFound i), s, w)
      | Some h \<Rightarrow>
          (let s1 = release_slot (sh_remove i s) in
           (case h_destroy bk h w of
              (Inl e, w1) \<Rightarrow> (Inl e, s1, w1)
            | (Inr _, w1) \<Rightarrow> (Inr (), sh_broadcast [SbDestroyed i] s1, w1))))"

subsection \<open>The callable and the tool (harness.rs, sandbox-tool)\<close>

text \<open>The typed arguments are read from JSON by serde, which is the argument \<open>read\<close>.\<close>

record call_input =
  ci_profile :: "sandbox_profile option"
  ci_backend :: backend_sel
  ci_exec :: exec_request

definition sh_call ::
  "('h, 'w) sandbox_backend \<Rightarrow> ('w \<Rightarrow> 'w \<Rightarrow> u64) \<Rightarrow> (json \<Rightarrow> call_input result) \<Rightarrow> json \<Rightarrow> 'h sandbox_harness \<Rightarrow> 'w \<Rightarrow>
   json result \<times> 'h sandbox_harness \<times> 'w" where
  "sh_call bk clock read input s w =
     (case read input of
        Inl e \<Rightarrow> (Inl e, s, w)
      | Inr ci \<Rightarrow>
          (case sh_run_exec bk clock (ci_exec ci) (ci_profile ci) (ci_backend ci) s w of
             (Inl e, s1, w1) \<Rightarrow> (Inl (Tool (''sandbox: '' @ sandbox_error_text e)), s1, w1)
           | (Inr res, s1, w1) \<Rightarrow> (Inr (to_tool_json res), s1, w1)))"

record sandbox_tool_args =
  sa_language :: language
  sa_code :: string
  sa_dependencies :: "string list"
  sa_profile :: "sandbox_profile option"
  sa_stdin :: "string option"
  sa_timeout_secs :: "u64 option"

text \<open>
  \<open>hash\<close> is the default hasher over the printed arguments and \<open>emit\<close> the event bus, which gets the tool id, that
  hash, the elapsed time and whether the run succeeded. The tool runs over the pair of harness and world.
\<close>

definition sandbox_tool ::
  "('h, 'w) sandbox_backend \<Rightarrow> ('w \<Rightarrow> 'w \<Rightarrow> u64) \<Rightarrow> (json \<Rightarrow> string + sandbox_tool_args) \<Rightarrow> (json \<Rightarrow> u64) \<Rightarrow>
   (string \<Rightarrow> u64 \<Rightarrow> u64 \<Rightarrow> bool \<Rightarrow> 'w \<Rightarrow> 'w) \<Rightarrow> ('h sandbox_harness \<times> 'w, 'y) tool" where
  "sandbox_tool bk clock read hash emit =
     \<lparr>tl_name = ''execute_in_sandbox'',
      tl_invoke = (\<lambda>args _ (s, w).
        case read args of
          Inl e \<Rightarrow> (Inl (Tool (''execute_in_sandbox: invalid args: '' @ e)), (s, w))
        | Inr a \<Rightarrow>
            (let exec = \<lparr>er_language = sa_language a, er_code = sa_code a, er_dependencies = sa_dependencies a,
                         er_stdin = sa_stdin a, er_env = [], er_timeout_secs = sa_timeout_secs a\<rparr>;
                 (r, s1, w1) = sh_run_exec bk clock exec (sa_profile a) Auto s w;
                 w2 = emit ''sandbox.execute_in_sandbox'' (hash args) (clock w w1) (is_ok r) w1
             in (case r of
                   Inl e \<Rightarrow> (Inl (Tool (''execute_in_sandbox: '' @ sandbox_error_text e)), (s1, w2))
                 | Inr res \<Rightarrow> (Inr (to_tool_json res), (s1, w2)))))\<rparr>"

subsection \<open>What reaches the backend\<close>

text \<open>
  The backend with a record of what it was asked and of what it still runs. \<open>tk_requests\<close> are the creation
  requests it got, \<open>tk_alive\<close> the sandboxes provisioned and not torn down, \<open>tk_failed\<close> those whose
  teardown returned an error.
\<close>

record track =
  tk_requests :: "create_sandbox list"
  tk_alive :: "string list"
  tk_failed :: "string list"

definition track_new :: track where
  "track_new = \<lparr>tk_requests = [], tk_alive = [], tk_failed = []\<rparr>"

definition track_alive :: "('h, 'w) sandbox_backend \<Rightarrow> 'h sb_result \<Rightarrow> track \<Rightarrow> track" where
  "track_alive bk r t = (case r of Inr h \<Rightarrow> t\<lparr>tk_alive := sb_id (h_info bk h) # tk_alive t\<rparr> | Inl _ \<Rightarrow> t)"

definition track_torn :: "string \<Rightarrow> unit sb_result \<Rightarrow> track \<Rightarrow> track" where
  "track_torn i r t =
     (case r of Inr _ \<Rightarrow> t\<lparr>tk_alive := removeAll i (tk_alive t)\<rparr> | Inl _ \<Rightarrow> t\<lparr>tk_failed := i # tk_failed t\<rparr>)"

definition tracked :: "('h, 'w) sandbox_backend \<Rightarrow> ('h, 'w \<times> track) sandbox_backend" where
  "tracked bk =
     \<lparr>bk_name = bk_name bk,
      bk_create = (\<lambda>req (w, t). case bk_create bk req w of
         (r, w1) \<Rightarrow> (r, w1, track_alive bk r (t\<lparr>tk_requests := tk_requests t @ [req]\<rparr>))),
      h_info = h_info bk,
      h_exec = (\<lambda>h req (w, t). case h_exec bk h req w of (r, w1) \<Rightarrow> (r, w1, t)),
      h_snapshot = (\<lambda>h (w, t). case h_snapshot bk h w of (r, w1) \<Rightarrow> (r, w1, t)),
      h_fork = (\<lambda>h (w, t). case h_fork bk h w of (r, w1) \<Rightarrow> (r, w1, track_alive bk r t)),
      h_destroy = (\<lambda>h (w, t). case h_destroy bk h w of (r, w1) \<Rightarrow> (r, w1, track_torn (sb_id (h_info bk h)) r t))\<rparr>"

datatype sh_op =
    ShRunOnce create_sandbox exec_request
  | ShCreate create_sandbox
  | ShExec string exec_request
  | ShSnapshot string
  | ShFork string
  | ShDestroy string

fun sh_step ::
  "('h, 'w) sandbox_backend \<Rightarrow> ('w \<Rightarrow> 'w \<Rightarrow> u64) \<Rightarrow> u64 \<Rightarrow> sh_op \<Rightarrow> 'h sandbox_harness \<times> 'w \<Rightarrow> 'h sandbox_harness \<times> 'w" where
  "sh_step bk clock cap (ShRunOnce c e) (s, w) = snd (sh_run_once bk clock c e s w)"
| "sh_step bk clock cap (ShCreate c) (s, w) = snd (sh_create bk cap c s w)"
| "sh_step bk clock cap (ShExec i e) (s, w) = snd (sh_exec bk clock i e s w)"
| "sh_step bk clock cap (ShSnapshot i) (s, w) = snd (sh_snapshot bk i s w)"
| "sh_step bk clock cap (ShFork i) (s, w) = snd (sh_fork bk cap i s w)"
| "sh_step bk clock cap (ShDestroy i) (s, w) = snd (sh_destroy bk i s w)"

text \<open>
  Backends that give every sandbox an identifier of its own: \<open>used\<close> are the identifiers given so far. This is what
  \<open>SandboxId::new\<close> (a random UUID) is relied on for.
\<close>

locale fresh_backend = provisioning_backend bk for bk :: "('h, 'w) sandbox_backend" +
  fixes used :: "'w \<Rightarrow> string set"
  assumes create_fresh: "bk_create bk req w = (Inr h, w') \<Longrightarrow> sb_id (h_info bk h) \<notin> used w \<and> insert (sb_id (h_info bk h)) (used w) \<subseteq> used w'"
    and create_used: "bk_create bk req w = (r, w') \<Longrightarrow> used w \<subseteq> used w'"
    and fork_fresh: "h_fork bk h w = (Inr c, w') \<Longrightarrow> sb_id (h_info bk c) \<notin> used w \<and> insert (sb_id (h_info bk c)) (used w) \<subseteq> used w'"
    and fork_used: "h_fork bk h w = (r, w') \<Longrightarrow> used w \<subseteq> used w'"
    and exec_used: "h_exec bk h ereq w = (x, w') \<Longrightarrow> used w \<subseteq> used w'"
    and snapshot_used: "h_snapshot bk h w = (y, w') \<Longrightarrow> used w \<subseteq> used w'"
    and destroy_used: "h_destroy bk h w = (z, w') \<Longrightarrow> used w \<subseteq> used w'"

definition floored :: "sandbox_profile \<Rightarrow> resource_budget \<Rightarrow> bool" where
  "floored p b \<longleftrightarrow> (if is_rust p then 2 \<le> rb_vcpus b \<and> 2048 \<le> rb_mem_mib b else True)"

definition request_floored :: "create_sandbox \<Rightarrow> bool" where
  "request_floored req = (case cs_budget req of None \<Rightarrow> False | Some b \<Rightarrow> floored (cs_profile req) b)"

lemma request_floored_normalize [simp]: "request_floored (normalize req)"
  by (simp add: request_floored_def normalize_def floored_def effective_budget_def enforce_rust_floor_def Let_def)

lemma normalize_fields [simp]:
  "cs_profile (normalize req) = cs_profile req" "effective_budget (normalize req) = effective_budget req"
  by (simp_all add: normalize_def effective_budget_def enforce_rust_floor_def Let_def)

lemma floored_effective [simp]: "floored (cs_profile req) (effective_budget req)"
  by (simp add: floored_def rust_floor)

definition entry_ok :: "('h, 'w) sandbox_backend \<Rightarrow> string \<times> 'h \<Rightarrow> bool" where
  "entry_ok bk e \<longleftrightarrow> sb_id (h_info bk (snd e)) = fst e \<and>
     floored (sb_profile (h_info bk (snd e))) (sb_budget (h_info bk (snd e)))"

text \<open>
  The invariant of a harness over a tracked backend: the registry has distinct keys that are the ids of their
  sandboxes, the counter is its size and at most the cap, and what the backend still runs are the registered
  sandboxes and those whose teardown failed.
\<close>

definition sh_inv :: "('h, 'w) sandbox_backend \<Rightarrow> ('w \<Rightarrow> string set) \<Rightarrow> u64 \<Rightarrow> 'h sandbox_harness \<times> 'w \<times> track \<Rightarrow> bool" where
  "sh_inv bk used cap st \<longleftrightarrow> (case st of (s, w, t) \<Rightarrow>
     distinct (map fst (sh_sandboxes s)) \<and>
     list_all (entry_ok bk) (sh_sandboxes s) \<and>
     length (sh_sandboxes s) = unat (sh_live s) \<and> sh_live s \<le> cap \<and>
     set (tk_alive t) = fst ` set (sh_sandboxes s) \<union> set (tk_failed t) \<and>
     fst ` set (sh_sandboxes s) \<inter> set (tk_failed t) = {} \<and>
     set (tk_alive t) \<subseteq> used w \<and> list_all request_floored (tk_requests t))"

lemma live_inc: "(l :: u64) < cap \<Longrightarrow> unat (l + 1) = Suc (unat l) \<and> l + 1 \<le> cap"
proof -
  assume l: "l < cap"
  have "unat cap < 2 ^ 64" using unsigned_less [of cap] by simp
  with l have "unat (l + 1) = Suc (unat l)" by (simp add: unat_word_ariths word_less_nat_alt)
  with l show ?thesis by (simp add: word_less_nat_alt word_le_nat_alt)
qed

lemma live_dec: "0 < unat (l :: u64) \<Longrightarrow> unat (l - 1) = unat l - 1"
  by (rule unat_sub_le [THEN trans]) (auto simp: word_le_nat_alt)

named_theorems inv_simps

lemma inv_broadcast [inv_simps]: "sh_inv bk used cap (sh_broadcast evs s, w, t) = sh_inv bk used cap (s, w, t)"
  by (simp add: sh_inv_def sh_broadcast_def)

lemma inv_used: "sh_inv bk used cap (s, w, t) \<Longrightarrow> used w \<subseteq> used w1 \<Longrightarrow> sh_inv bk used cap (s, w1, t)"
  by (auto simp: sh_inv_def)

lemma inv_request [inv_simps]:
  "sh_inv bk used cap (s, w, t\<lparr>tk_requests := tk_requests t @ [normalize req]\<rparr>) = sh_inv bk used cap (s, w, t)"
  by (auto simp: sh_inv_def)

text \<open>Reserving is refused at the cap; a slot reserved and released leaves the state as it was.\<close>

lemma reserve_slot_cases:
  obtains (full) e where "reserve_slot cap s = (Inl (BudgetViolation e), s)" "cap \<le> sh_live s"
  | (ok) "reserve_slot cap s = (Inr (), s\<lparr>sh_live := sh_live s + 1\<rparr>)" "sh_live s < cap"
  by (cases "cap \<le> sh_live s") (auto simp: reserve_slot_def Let_def not_le)

lemma release_reserved [simp]: "release_slot (s\<lparr>sh_live := sh_live s + 1\<rparr>) = s"
  by (simp add: release_slot_def)

lemma sh_get_registered:
  assumes "sh_inv bk used cap (s, w, t)" and "sh_get s i = Some h"
  shows "(i, h) \<in> set (sh_sandboxes s)" and "sb_id (h_info bk h) = i"
    and "floored (sb_profile (h_info bk h)) (sb_budget (h_info bk h))"
proof -
  from assms(2) obtain e where "find (\<lambda>e. fst e = i) (sh_sandboxes s) = Some e" "snd e = h"
    by (auto simp: sh_get_def)
  then show mem: "(i, h) \<in> set (sh_sandboxes s)" by (auto dest!: find_SomeD)
  with assms(1) show "sb_id (h_info bk h) = i" "floored (sb_profile (h_info bk h)) (sb_budget (h_info bk h))"
    by (auto simp: sh_inv_def list_all_iff entry_ok_def)
qed

lemma inv_register:
  assumes "sh_inv bk used cap (s, w, t)" and "sh_live s < cap" and "sb_id (h_info bk h) \<notin> used w"
    and "insert (sb_id (h_info bk h)) (used w) \<subseteq> used w1"
    and "floored (sb_profile (h_info bk h)) (sb_budget (h_info bk h))"
  shows "sh_inv bk used cap
    (sh_insert (sb_id (h_info bk h)) h (s\<lparr>sh_live := sh_live s + 1\<rparr>), w1, t\<lparr>tk_alive := sb_id (h_info bk h) # tk_alive t\<rparr>)"
proof -
  let ?i = "sb_id (h_info bk h)"
  have new: "?i \<notin> fst ` set (sh_sandboxes s)" "?i \<notin> set (tk_failed t)"
    using assms(1,3) by (auto simp: sh_inv_def)
  then have "upsert_by (\<lambda>e. fst e = ?i) (?i, h) (sh_sandboxes s) = sh_sandboxes s @ [(?i, h)]"
    by (intro upsert_by_push) force
  then show ?thesis
    using assms new live_inc [OF assms(2)]
    by (simp add: sh_inv_def sh_insert_def entry_ok_def image_Un Un_commute insert_commute) blast
qed

lemma length_filter_key: "distinct (map fst xs) \<Longrightarrow> (i, h) \<in> set xs \<Longrightarrow> Suc (length (filter (\<lambda>e. fst e \<noteq> i) xs)) = length xs"
proof (induction xs)
  case (Cons x xs)
  show ?case
  proof (cases "fst x = i")
    case True
    with Cons.prems(1) have "i \<notin> fst ` set xs" by auto
    then have "filter (\<lambda>e. fst e \<noteq> i) xs = xs" by (intro filter_True) auto
    with True show ?thesis by simp
  qed (use Cons in auto)
qed simp

lemma torn_sets:
  assumes "A = K \<union> F" and "K \<inter> F = {}" and "i \<in> K"
  shows "A - {i} = K - {i} \<union> F" and "A = K - {i} \<union> insert i F" and "(K - {i}) \<inter> F = {}" and "(K - {i}) \<inter> insert i F = {}"
  using assms by blast+

lemma inv_remove:
  assumes "sh_inv bk used cap (s, w, t)" and "sh_get s i = Some h" and "used w \<subseteq> used w1"
  shows "sh_inv bk used cap (release_slot (sh_remove i s), w1, track_torn i r t)"
proof -
  have mem: "(i, h) \<in> set (sh_sandboxes s)" by (rule sh_get_registered [OF assms(1,2)])
  have len: "Suc (length (filter (\<lambda>e. fst e \<noteq> i) (sh_sandboxes s))) = unat (sh_live s)"
    using length_filter_key [OF _ mem] assms(1) by (simp add: sh_inv_def)
  then have live: "unat (sh_live s - 1) = length (filter (\<lambda>e. fst e \<noteq> i) (sh_sandboxes s))" by (subst live_dec) auto
  then have "sh_live s - 1 \<le> cap" using len assms(1) by (simp add: sh_inv_def word_le_nat_alt)
  moreover have "fst ` set (filter (\<lambda>e. fst e \<noteq> i) (sh_sandboxes s)) = fst ` set (sh_sandboxes s) - {i}" by force
  moreover have "list_all (entry_ok bk) (filter (\<lambda>e. fst e \<noteq> i) (sh_sandboxes s))"
    using assms(1) by (simp add: sh_inv_def list_all_iff)
  moreover have "set (tk_alive t) = fst ` set (sh_sandboxes s) \<union> set (tk_failed t)"
    "fst ` set (sh_sandboxes s) \<inter> set (tk_failed t) = {}" "set (tk_alive t) \<subseteq> used w1"
    using assms(1,3) by (auto simp: sh_inv_def)
  note sets = torn_sets [OF this(1,2), of i] this
  have "i \<in> fst ` set (sh_sandboxes s)" using mem by force
  note sets = sets(1-4) [OF this] sets(5-7)
  ultimately show ?thesis
    using assms(1) live
    by (cases r) (auto simp: sh_inv_def release_slot_def sh_remove_def track_torn_def distinct_map_filter sets(1,3,4)
      simp del: set_filter)
qed

lemma inv_transient:
  assumes "sh_inv bk used cap (s, w, t)" and "i \<notin> used w" and "insert i (used w) \<subseteq> used w1"
  shows "sh_inv bk used cap (s, w1, track_torn i d (t\<lparr>tk_alive := i # tk_alive t\<rparr>))"
proof -
  have new: "i \<notin> set (tk_alive t)" using assms(1,2) by (auto simp: sh_inv_def)
  then have key: "i \<notin> fst ` set (sh_sandboxes s)" using assms(1) by (simp add: sh_inv_def)
  show ?thesis
  proof (cases d)
    case (Inl e)
    with assms key show ?thesis by (simp add: sh_inv_def track_torn_def) blast
  next
    case (Inr u)
    with new have "track_torn i d (t\<lparr>tk_alive := i # tk_alive t\<rparr>) = t" by (simp add: track_torn_def)
    with assms show ?thesis by (auto intro: inv_used)
  qed
qed

context fresh_backend
begin

lemma tracked_create:
  assumes "sh_inv bk used cap (s, w, t)" and "bk_create (tracked bk) (normalize req) (w, t) = (r, w1, t1)"
  shows "(case r of Inl e \<Rightarrow> sh_inv bk used cap (s, w1, t1)
     | Inr h \<Rightarrow> h_info (tracked bk) h = h_info bk h \<and> sb_id (h_info bk h) \<notin> used w \<and>
         insert (sb_id (h_info bk h)) (used w) \<subseteq> used w1 \<and> floored (sb_profile (h_info bk h)) (sb_budget (h_info bk h)) \<and>
         (\<exists>t0. sh_inv bk used cap (s, w, t0) \<and> t1 = t0\<lparr>tk_alive := sb_id (h_info bk h) # tk_alive t0\<rparr>))"
proof -
  obtain r' w' where c: "bk_create bk (normalize req) w = (r', w')" by (cases "bk_create bk (normalize req) w")
  with assms(2) have eqs: "r' = r" "w' = w1" "t1 = track_alive bk r (t\<lparr>tk_requests := tk_requests t @ [normalize req]\<rparr>)"
    by (auto simp: tracked_def)
  show ?thesis
  proof (cases r)
    case (Inl e)
    with assms(1) eqs create_used [OF c] show ?thesis
      by (auto simp: track_alive_def inv_request intro: inv_used)
  next
    case (Inr h)
    with c eqs have c': "bk_create bk (normalize req) w = (Inr h, w1)" by simp
    have "sh_inv bk used cap (s, w, t\<lparr>tk_requests := tk_requests t @ [normalize req]\<rparr>)"
      using assms(1) by (simp add: inv_request)
    moreover have "floored (sb_profile (h_info bk h)) (sb_budget (h_info bk h))"
      using create_budget [OF c'] by simp
    ultimately show ?thesis
      using create_fresh [OF c'] Inr eqs(3) by (auto simp: track_alive_def tracked_def)
  qed
qed

lemma tracked_fork:
  assumes "h_fork (tracked bk) h (w, t) = (r, w1, t1)"
  shows "(case r of Inl e \<Rightarrow> used w \<subseteq> used w1 \<and> t1 = t
     | Inr c \<Rightarrow> sb_id (h_info bk c) \<notin> used w \<and> insert (sb_id (h_info bk c)) (used w) \<subseteq> used w1 \<and>
         sb_profile (h_info bk c) = sb_profile (h_info bk h) \<and> sb_budget (h_info bk c) = sb_budget (h_info bk h) \<and>
         t1 = t\<lparr>tk_alive := sb_id (h_info bk c) # tk_alive t\<rparr>)"
  using assms
  by (cases "h_fork bk h w") (auto simp: tracked_def track_alive_def dest: fork_used fork_fresh fork_budget split: sum.splits)

lemma tracked_quiet:
  "h_exec (tracked bk) h req (w, t) = (r, w1, t1) \<Longrightarrow> used w \<subseteq> used w1 \<and> t1 = t"
  "h_snapshot (tracked bk) h (w, t) = (q, w1, t1) \<Longrightarrow> used w \<subseteq> used w1 \<and> t1 = t"
  "h_destroy (tracked bk) h (w, t) = (d, w1, t1) \<Longrightarrow> used w \<subseteq> used w1 \<and> t1 = track_torn (sb_id (h_info bk h)) d t"
  by (auto simp: tracked_def split: prod.splits dest: exec_used snapshot_used destroy_used)

lemma run_once_inv:
  assumes "sh_inv bk used cap (s, w, t)"
  shows "sh_inv bk used cap (snd (sh_run_once (tracked bk) clock create exec s (w, t)))"
proof (cases "bk_create (tracked bk) (normalize create) (w, t)")
  case (fields r w1 t1)
  note c = tracked_create [OF assms fields]
  show ?thesis
  proof (cases r)
    case (Inl e)
    with assms c fields show ?thesis
      by (auto simp: sh_run_once_def split: sum.splits)
  next
    case (Inr h)
    obtain x w2 t2 where x: "h_exec (tracked bk) h exec (w1, t1) = (x, w2, t2)" by (cases "h_exec (tracked bk) h exec (w1, t1)")
    obtain d w3 t3 where d: "h_destroy (tracked bk) h (w2, t2) = (d, w3, t3)" by (cases "h_destroy (tracked bk) h (w2, t2)")
    from c Inr obtain t0 where t0: "sh_inv bk used cap (s, w, t0)" "t1 = t0\<lparr>tk_alive := sb_id (h_info bk h) # tk_alive t0\<rparr>"
      "sb_id (h_info bk h) \<notin> used w" "insert (sb_id (h_info bk h)) (used w) \<subseteq> used w1" "h_info (tracked bk) h = h_info bk h"
      by auto
    have "used w1 \<subseteq> used w2" "used w2 \<subseteq> used w3" "t3 = track_torn (sb_id (h_info bk h)) d t1"
      using tracked_quiet(1) [OF x] tracked_quiet(3) [OF d] by auto
    then have "sh_inv bk used cap (s, w3, t3)"
      using inv_transient [OF t0(1,3), of w3 d] t0(2,4) by auto
    then show ?thesis
      using assms fields Inr x d by (auto simp: sh_run_once_def Let_def inv_broadcast split: sum.splits)
  qed
qed

lemma create_inv:
  assumes "sh_inv bk used cap (s, w, t)"
  shows "sh_inv bk used cap (snd (sh_create (tracked bk) cap req s (w, t)))"
proof (cases rule: reserve_slot_cases [of cap s, case_names full ok])
  case (full e)
  with assms show ?thesis by (auto simp: sh_create_def split: sum.splits)
next
  case ok
  obtain r w1 t1 where c: "bk_create (tracked bk) (normalize req) (w, t) = (r, w1, t1)"
    by (cases "bk_create (tracked bk) (normalize req) (w, t)")
  show ?thesis
  proof (cases r)
    case (Inl e)
    with tracked_create [OF assms c] assms ok c show ?thesis by (auto simp: sh_create_def split: sum.splits)
  next
    case (Inr h)
    with tracked_create [OF assms c] obtain t0 where t0: "sh_inv bk used cap (s, w, t0)"
      "t1 = t0\<lparr>tk_alive := sb_id (h_info bk h) # tk_alive t0\<rparr>" "sb_id (h_info bk h) \<notin> used w"
      "insert (sb_id (h_info bk h)) (used w) \<subseteq> used w1" "h_info (tracked bk) h = h_info bk h"
      "floored (sb_profile (h_info bk h)) (sb_budget (h_info bk h))"
      by auto
    from inv_register [OF t0(1) ok(2) t0(3,4,6)] t0(2,5) assms ok(1) c Inr show ?thesis
      by (auto simp: sh_create_def Let_def inv_broadcast split: sum.splits)
  qed
qed

lemma fork_inv:
  assumes "sh_inv bk used cap (s, w, t)"
  shows "sh_inv bk used cap (snd (sh_fork (tracked bk) cap i s (w, t)))"
proof (cases "sh_get s i")
  case (Some h)
  show ?thesis
  proof (cases rule: reserve_slot_cases [of cap s, case_names full ok])
    case (full e)
    with assms Some show ?thesis by (simp add: sh_fork_def)
  next
    case ok
    obtain r w1 t1 where c: "h_fork (tracked bk) h (w, t) = (r, w1, t1)" by (cases "h_fork (tracked bk) h (w, t)")
    show ?thesis
    proof (cases r)
      case (Inl e)
      with tracked_fork [OF c] assms Some ok c show ?thesis by (auto simp: sh_fork_def intro: inv_used)
    next
      case (Inr ch)
      with tracked_fork [OF c] inv_register [OF assms ok(2), of ch] sh_get_registered(3) [OF assms Some] Some ok c
      show ?thesis by (auto simp: sh_fork_def Let_def inv_broadcast tracked_def)
    qed
  qed
qed (use assms in \<open>simp add: sh_fork_def\<close>)

lemma destroy_inv:
  assumes "sh_inv bk used cap (s, w, t)"
  shows "sh_inv bk used cap (snd (sh_destroy (tracked bk) i s (w, t)))"
proof (cases "sh_get s i")
  case (Some h)
  obtain d w1 t1 where d: "h_destroy (tracked bk) h (w, t) = (d, w1, t1)" by (cases "h_destroy (tracked bk) h (w, t)")
  then have "sh_inv bk used cap (release_slot (sh_remove i s), w1, t1)"
    using inv_remove [OF assms Some, of w1 d] tracked_quiet(3) [OF d] sh_get_registered(2) [OF assms Some] by simp
  with Some d show ?thesis by (cases d) (simp_all add: sh_destroy_def Let_def inv_broadcast)
qed (use assms in \<open>simp add: sh_destroy_def\<close>)

lemma step_inv:
  assumes "sh_inv bk used cap (s, w, t)"
  shows "sh_inv bk used cap (sh_step (tracked bk) clock cap a (s, w, t))"
proof (cases a)
  case (ShExec i e)
  then show ?thesis
    using assms by (cases "sh_get s i")
      (auto simp: sh_exec_def Let_def inv_broadcast split: prod.splits dest!: tracked_quiet(1) intro: inv_used)
next
  case (ShSnapshot i)
  then show ?thesis
    using assms by (cases "sh_get s i")
      (auto simp: sh_snapshot_def split: prod.splits dest!: tracked_quiet(2) intro: inv_used)
qed (simp_all add: assms run_once_inv create_inv fork_inv destroy_inv)

lemma run_inv: "sh_inv bk used cap st \<Longrightarrow> sh_inv bk used cap (fold (sh_step (tracked bk) clock cap) ops st)"
proof (induction ops arbitrary: st)
  case (Cons a ops)
  obtain s w t where "st = (s, w, t)" by (cases st)
  with Cons show ?case by (simp add: step_inv del: sh_step.simps)
qed simp

end

lemma inv_new: "sh_inv bk used cap (sh_new, w, track_new)"
  by (simp add: sh_inv_def sh_new_def track_new_def)

text \<open>
  (C27) Over any backend that numbers its sandboxes and any operations: the registered sandboxes never exceed the
  cap, every sandbox requested or registered has the floor of a Rust profile, and no sandbox is lost: what the
  backend still runs is registered, or its teardown returned an error.
\<close>

theorem no_sandbox_lost:
  assumes "fresh_backend bk used"
    and "fold (sh_step (tracked bk) clock cap) ops (sh_new, w, track_new) = (s, w', t)"
  shows "length (sh_sandboxes s) \<le> unat cap \<and>
    set (tk_alive t) = fst ` set (sh_sandboxes s) \<union> set (tk_failed t) \<and> fst ` set (sh_sandboxes s) \<inter> set (tk_failed t) = {} \<and>
    list_all request_floored (tk_requests t) \<and>
    list_all (\<lambda>i. floored (sb_profile i) (sb_budget i)) (sh_list bk s)"
proof -
  have "sh_inv bk used cap (s, w', t)"
    using fresh_backend.run_inv [OF assms(1) inv_new, of cap clock ops w] assms(2) by simp
  then show ?thesis
    by (simp add: sh_inv_def sh_list_def entry_ok_def list_all_iff word_le_nat_alt)
qed

definition demo_uuid :: "nat \<Rightarrow> string" where
  "demo_uuid n = ''sbx-'' @ show_nat n"

text \<open>The in-memory backend numbers its sandboxes when the identifiers drawn are distinct.\<close>

lemma mock_numbers:
  assumes "inj uuid"
  shows "fresh_backend (mock_backend uuid) (\<lambda>w. uuid ` {..<mw_drawn w})"
  by unfold_locales
     (auto simp: mock_backend_def mock_create_def mock_fork_def mock_exec_def mock_snapshot_def fresh_id_def new_fs_def
        Let_def dest!: injD [OF assms] split: sum.splits)

interpretation mock: fresh_backend "mock_backend demo_uuid" "\<lambda>w. demo_uuid ` {..<mw_drawn w}"
  by (rule mock_numbers) (auto simp: inj_def demo_uuid_def dest: show_nat_inj)

definition demo_ops :: "sh_op list" where
  "demo_ops = [ShCreate (create_sandbox_new RustOnly), ShFork ''sbx-0'', ShCreate (create_sandbox_new PythonOnly), ShDestroy ''sbx-0'']"

theorem no_sandbox_lost_witness:
  "\<exists>s w t. fold (sh_step (tracked (mock_backend demo_uuid)) (\<lambda>_ _. 0) 2) demo_ops (sh_new, \<lparr>mw_drawn = 0, mw_files = []\<rparr>, track_new) = (s, w, t) \<and>
     map fst (sh_sandboxes s) = [''sbx-1''] \<and> set (tk_alive t) = fst ` set (sh_sandboxes s) \<union> set (tk_failed t)"
proof -
  obtain s w t where run: "fold (sh_step (tracked (mock_backend demo_uuid)) (\<lambda>_ _. 0) 2) demo_ops (sh_new, \<lparr>mw_drawn = 0, mw_files = []\<rparr>, track_new) = (s, w, t)"
    by (cases "fold (sh_step (tracked (mock_backend demo_uuid)) (\<lambda>_ _. 0) 2) demo_ops (sh_new, \<lparr>mw_drawn = 0, mw_files = []\<rparr>, track_new)")
  have "map fst (sh_sandboxes (fst (fold (sh_step (tracked (mock_backend demo_uuid)) (\<lambda>_ _. 0) 2) demo_ops
      (sh_new, \<lparr>mw_drawn = 0, mw_files = []\<rparr>, track_new)))) = [''sbx-1'']"
    by code_simp
  then have "map fst (sh_sandboxes s) = [''sbx-1'']" by (simp add: run)
  moreover have "set (tk_alive t) = fst ` set (sh_sandboxes s) \<union> set (tk_failed t)"
    using no_sandbox_lost [OF mock.fresh_backend_axioms run] by (elim conjE)
  ultimately show ?thesis using run by (intro exI conjI)
qed

text \<open>A teardown that fails takes the sandbox out of the registry all the same: it cannot be torn down again.\<close>

lemma failed_teardown_unreachable:
  assumes "sh_get s i = Some h" and "h_destroy bk h w = (Inl e, w1)"
  shows "sh_destroy bk i s w = (Inl e, release_slot (sh_remove i s), w1) \<and>
    sh_destroy bk i (release_slot (sh_remove i s)) w1 = (Inl (NotFound i), release_slot (sh_remove i s), w1)"
proof -
  have "sh_get (release_slot (sh_remove i s)) i = None"
    by (auto simp: sh_get_def sh_remove_def release_slot_def find_filter_disjoint find_None_iff)
  with assms show ?thesis by (simp add: sh_destroy_def)
qed

text \<open>
  A one-shot run leaves registry and counter alone. It fails before anything started, or its events are
  creation, start, outcome and destruction of one sandbox, whether the code ran or not.
\<close>

lemma run_once_lifecycle:
  assumes "sh_run_once bk clock create exec s w = (r, s', w')"
  shows "sh_sandboxes s' = sh_sandboxes s \<and> sh_live s' = sh_live s \<and>
    ((\<not> is_ok r \<and> sh_events s' = sh_events s) \<or>
     (\<exists>i p b out. sh_events s' = sh_events s @ [SbCreated i p b, SbExecStarted i (er_language exec), out, SbDestroyed i] \<and>
        supports (cs_profile create) (er_language exec) \<and>
        (case r of Inr res \<Rightarrow> (\<exists>ms. out = SbExecEnded i (ex_exec_id res) (ex_code res) ms) | Inl e \<Rightarrow> out = SbExecError i (sandbox_error_text e))))"
  using assms
  by (auto simp: sh_run_once_def sh_broadcast_def Let_def ensure_backend_available_def ensure_supports_def exec_outcome_def
      split: if_splits sum.splits prod.splits)

subsection \<open>The quota under concurrency (harness.rs)\<close>

text \<open>
  Callers interleave at the atomic operations on the counter and the registry: \<open>fetch_add\<close> and its comparison with
  the old value, \<open>fetch_sub\<close>, the insertion into and the removal from the map. A caller is idle, has been refused and
  still holds the unit it added, waits for the backend with its slot, has been told that provisioning failed,
  or has removed a sandbox and not yet given back the slot.
\<close>

datatype phase = Idle | Refused | Provisioning | Failing | Releasing

record quota =
  q_live :: u64
  q_registry :: "string list"
  q_callers :: "phase list"

definition q_new :: "nat \<Rightarrow> quota" where
  "q_new n = \<lparr>q_live = 0, q_registry = [], q_callers = replicate n Idle\<rparr>"

inductive q_step :: "u64 \<Rightarrow> quota \<Rightarrow> quota \<Rightarrow> bool" for cap where
  q_reserve: "\<lbrakk> k < length (q_callers q); q_callers q ! k = Idle; q_live q < cap \<rbrakk> \<Longrightarrow>
     q_step cap q (q\<lparr>q_live := q_live q + 1, q_callers := (q_callers q)[k := Provisioning]\<rparr>)"
| q_refuse: "\<lbrakk> k < length (q_callers q); q_callers q ! k = Idle; cap \<le> q_live q \<rbrakk> \<Longrightarrow>
     q_step cap q (q\<lparr>q_live := q_live q + 1, q_callers := (q_callers q)[k := Refused]\<rparr>)"
| q_undo: "\<lbrakk> k < length (q_callers q); q_callers q ! k = Refused \<rbrakk> \<Longrightarrow>
     q_step cap q (q\<lparr>q_live := q_live q - 1, q_callers := (q_callers q)[k := Idle]\<rparr>)"
| q_register: "\<lbrakk> k < length (q_callers q); q_callers q ! k = Provisioning \<rbrakk> \<Longrightarrow>
     q_step cap q (q\<lparr>q_registry := List.insert i (q_registry q), q_callers := (q_callers q)[k := Idle]\<rparr>)"
| q_fail: "\<lbrakk> k < length (q_callers q); q_callers q ! k = Provisioning \<rbrakk> \<Longrightarrow>
     q_step cap q (q\<lparr>q_callers := (q_callers q)[k := Failing]\<rparr>)"
| q_remove: "\<lbrakk> k < length (q_callers q); q_callers q ! k = Idle; i \<in> set (q_registry q) \<rbrakk> \<Longrightarrow>
     q_step cap q (q\<lparr>q_registry := removeAll i (q_registry q), q_callers := (q_callers q)[k := Releasing]\<rparr>)"
| q_release: "\<lbrakk> k < length (q_callers q); q_callers q ! k \<in> {Failing, Releasing} \<rbrakk> \<Longrightarrow>
     q_step cap q (q\<lparr>q_live := q_live q - 1, q_callers := (q_callers q)[k := Idle]\<rparr>)"

definition callers_in :: "(phase \<Rightarrow> bool) \<Rightarrow> quota \<Rightarrow> nat" where
  "callers_in P q = length (filter P (q_callers q))"

definition q_inv :: "u64 \<Rightarrow> quota \<Rightarrow> bool" where
  "q_inv cap q \<longleftrightarrow> distinct (q_registry q) \<and>
     length (q_registry q) + callers_in (\<lambda>p. p \<noteq> Idle) q \<le> unat (q_live q) \<and>
     length (q_registry q) + callers_in (\<lambda>p. p \<in> {Provisioning, Failing, Releasing}) q \<le> unat cap \<and>
     unat (q_live q) \<le> unat cap + callers_in (\<lambda>p. p = Refused) q"

lemma callers_update:
  "k < length xs \<Longrightarrow> length (filter P (xs[k := y])) + of_bool (P (xs ! k)) = length (filter P xs) + of_bool (P y)"
proof (induction xs arbitrary: k)
  case (Cons x xs)
  show ?case
  proof (cases k)
    case (Suc j)
    with Cons.IH [of j] Cons.prems show ?thesis by simp
  qed simp
qed simp

lemma callers_le: "callers_in P q \<le> length (q_callers q)"
  by (simp add: callers_in_def)

lemma unat_succ: "unat (l :: u64) + 1 < 2 ^ 64 \<Longrightarrow> unat (l + 1) = unat l + 1"
  by (simp add: unat_word_ariths)

lemma length_removeAll_distinct: "distinct xs \<Longrightarrow> i \<in> set xs \<Longrightarrow> Suc (length (removeAll i xs)) = length xs"
proof -
  assume "distinct xs" "i \<in> set xs"
  then have "removeAll i xs = remove1 i xs" "0 < length xs" by (auto simp: distinct_remove1_removeAll)
  with \<open>i \<in> set xs\<close> show ?thesis by (simp add: length_remove1)
qed

lemma callers_mono: "(\<And>p. P p \<Longrightarrow> Q p) \<Longrightarrow> callers_in P q \<le> callers_in Q q"
proof -
  assume "\<And>p. P p \<Longrightarrow> Q p"
  then have "length (filter P ps) \<le> length (filter Q ps)" for ps by (induction ps) auto
  then show ?thesis by (simp add: callers_in_def)
qed

lemma caller_moves:
  assumes "q_callers q' = (q_callers q)[k := y]" and "k < length (q_callers q)" and "q_callers q ! k = x"
  shows "callers_in (\<lambda>p. p \<noteq> Idle) q' + of_bool (x \<noteq> Idle) = callers_in (\<lambda>p. p \<noteq> Idle) q + of_bool (y \<noteq> Idle) \<and>
    callers_in (\<lambda>p. p \<in> {Provisioning, Failing, Releasing}) q' + of_bool (x \<in> {Provisioning, Failing, Releasing})
      = callers_in (\<lambda>p. p \<in> {Provisioning, Failing, Releasing}) q + of_bool (y \<in> {Provisioning, Failing, Releasing}) \<and>
    callers_in (\<lambda>p. p = Refused) q' + of_bool (x = Refused) = callers_in (\<lambda>p. p = Refused) q + of_bool (y = Refused)"
proof -
  have "callers_in P q' + of_bool (P x) = callers_in P q + of_bool (P y)" for P
    using callers_update [OF assms(2), of P y] assms(1,3) by (simp only: callers_in_def)
  then show ?thesis by (intro conjI)
qed

lemma active_le: "callers_in (\<lambda>p. p \<in> {Provisioning, Failing, Releasing}) q + callers_in (\<lambda>p. p = Refused) q = callers_in (\<lambda>p. p \<noteq> Idle) q"
proof -
  have "length (filter (\<lambda>p. p \<in> {Provisioning, Failing, Releasing}) ps) + length (filter (\<lambda>p. p = Refused) ps)
      = length (filter (\<lambda>p. p \<noteq> Idle) ps)" for ps
    by (induction ps) (auto intro: phase.exhaust)
  then show ?thesis by (simp add: callers_in_def)
qed

lemma q_step_inv:
  assumes "q_step cap q q'" and "q_inv cap q" and "unat cap + length (q_callers q) < 2 ^ 64"
  shows "q_inv cap q' \<and> length (q_callers q') = length (q_callers q)"
  using assms(1)
proof cases
  case (q_reserve k)
  have "unat (q_live q + 1) = unat (q_live q) + 1" "unat (q_live q) < unat cap"
    using live_inc [OF q_reserve(4)] q_reserve(4) by (simp_all add: word_less_nat_alt)
  then show ?thesis
    using q_reserve(1) assms(2) active_le [of q] caller_moves [of q' q k Provisioning Idle] q_reserve(2,3)
    by (simp add: q_inv_def)
next
  case (q_refuse k)
  have "callers_in (\<lambda>p. p = Refused) q' \<le> length (q_callers q)" using callers_le [of "\<lambda>p. p = Refused" q'] q_refuse(1) by simp
  then have "unat (q_live q + 1) = unat (q_live q) + 1"
    using assms(2,3) q_refuse(1) caller_moves [of q' q k Refused Idle] q_refuse(2,3)
    by (intro unat_succ) (simp add: q_inv_def)
  then show ?thesis
    using q_refuse(1) assms(2) caller_moves [of q' q k Refused Idle] q_refuse(2,3) by (simp add: q_inv_def)
next
  case (q_undo k)
  have c: "callers_in (\<lambda>p. p \<noteq> Idle) q' + 1 = callers_in (\<lambda>p. p \<noteq> Idle) q"
    using caller_moves [of q' q k Idle Refused] q_undo by simp
  then have "unat (q_live q - 1) = unat (q_live q) - 1" using assms(2) by (intro live_dec) (simp add: q_inv_def)
  then show ?thesis
    using q_undo(1) assms(2) caller_moves [of q' q k Idle Refused] q_undo(2,3) c by (auto simp: q_inv_def)
next
  case (q_register k i)
  have "length (q_registry q') \<le> length (q_registry q) + 1" using q_register(1) by (simp add: List.insert_def)
  then show ?thesis
    using q_register(1) assms(2) caller_moves [of q' q k Idle Provisioning] q_register(2,3) by (simp add: q_inv_def)
next
  case (q_fail k)
  then show ?thesis
    using assms(2) caller_moves [of q' q k Failing Provisioning] by (simp add: q_inv_def)
next
  case (q_remove k i)
  have "Suc (length (q_registry q')) = length (q_registry q)"
    using q_remove(1,4) assms(2) length_removeAll_distinct [of "q_registry q" i] by (simp add: q_inv_def)
  then show ?thesis
    using q_remove(1) assms(2) caller_moves [of q' q k Releasing Idle] q_remove(2,3)
    by (simp add: q_inv_def distinct_removeAll)
next
  case (q_release k)
  define x where "x = q_callers q ! k"
  have x: "x \<noteq> Idle" "x \<in> {Provisioning, Failing, Releasing}" "x \<noteq> Refused" using q_release(3) by (auto simp: x_def)
  have c: "callers_in (\<lambda>p. p \<noteq> Idle) q' + 1 = callers_in (\<lambda>p. p \<noteq> Idle) q"
    using caller_moves [of q' q k Idle x] q_release x x_def by simp
  then have "unat (q_live q - 1) = unat (q_live q) - 1" using assms(2) by (intro live_dec) (simp add: q_inv_def)
  then show ?thesis
    using q_release(1) assms(2) caller_moves [of q' q k Idle x] q_release(2) x x_def c by (auto simp: q_inv_def)
qed

text \<open>
  (C26) However the calls of any number of callers interleave, the registered sandboxes, those being provisioned and
  those on their way out never exceed the cap together. (The counter itself may: every refused caller adds one before
  it takes it back.)
\<close>

theorem quota_never_exceeded:
  assumes "(q_step cap)\<^sup>*\<^sup>* (q_new n) q" and "unat cap + n < 2 ^ 64"
  shows "length (q_registry q) + callers_in (\<lambda>p. p \<in> {Provisioning, Failing, Releasing}) q \<le> unat cap \<and>
    unat (q_live q) \<le> unat cap + n"
proof -
  have "q_inv cap q \<and> length (q_callers q) = n"
    using assms(1)
  proof (induction rule: rtranclp_induct)
    case base
    then show ?case by (simp add: q_inv_def q_new_def callers_in_def)
  next
    case (step q q')
    then show ?case using q_step_inv [of cap q q'] assms(2) by simp
  qed
  then show ?thesis
    using callers_le [of "\<lambda>p. p = Refused" q] by (auto simp: q_inv_def)
qed

text \<open>
  A caller that is about to be refused makes the counter exceed what is in use, so another caller can be refused
  although no sandbox is registered or being provisioned.
\<close>

lemma refused_while_free:
  "(q_step 1)\<^sup>*\<^sup>* (q_new 2) \<lparr>q_live = 1, q_registry = [], q_callers = [Idle, Refused]\<rparr> \<and>
   q_step 1 \<lparr>q_live = 1, q_registry = [], q_callers = [Idle, Refused]\<rparr> \<lparr>q_live = 2, q_registry = [], q_callers = [Refused, Refused]\<rparr>"
proof
  have "q_step 1 (q_new 2) \<lparr>q_live = 1, q_registry = [], q_callers = [Provisioning, Idle]\<rparr>"
    using q_reserve [of 0 "q_new 2" 1] by (simp add: q_new_def numeral_2_eq_2)
  moreover have "q_step 1 \<lparr>q_live = 1, q_registry = [], q_callers = [Provisioning, Idle]\<rparr>
      \<lparr>q_live = 2, q_registry = [], q_callers = [Provisioning, Refused]\<rparr>"
    using q_refuse [of 1 "\<lparr>q_live = 1, q_registry = [], q_callers = [Provisioning, Idle]\<rparr>" 1] by simp
  moreover have "q_step 1 \<lparr>q_live = 2, q_registry = [], q_callers = [Provisioning, Refused]\<rparr>
      \<lparr>q_live = 2, q_registry = [], q_callers = [Failing, Refused]\<rparr>"
    using q_fail [of 0 "\<lparr>q_live = 2, q_registry = [], q_callers = [Provisioning, Refused]\<rparr>" 1] by simp
  moreover have "q_step 1 \<lparr>q_live = 2, q_registry = [], q_callers = [Failing, Refused]\<rparr>
      \<lparr>q_live = 1, q_registry = [], q_callers = [Idle, Refused]\<rparr>"
    using q_release [of 0 "\<lparr>q_live = 2, q_registry = [], q_callers = [Failing, Refused]\<rparr>" 1] by simp
  ultimately show "(q_step 1)\<^sup>*\<^sup>* (q_new 2) \<lparr>q_live = 1, q_registry = [], q_callers = [Idle, Refused]\<rparr>"
    by (meson rtranclp.rtrancl_into_rtrancl rtranclp.rtrancl_refl)
  show "q_step 1 \<lparr>q_live = 1, q_registry = [], q_callers = [Idle, Refused]\<rparr> \<lparr>q_live = 2, q_registry = [], q_callers = [Refused, Refused]\<rparr>"
    using q_refuse [of 0 "\<lparr>q_live = 1, q_registry = [], q_callers = [Idle, Refused]\<rparr>" 1] by simp
qed

text \<open>Four callers and a cap of two: one sandbox is registered, one is being provisioned, two callers are being refused.\<close>

definition demo_quota :: quota where
  "demo_quota = \<lparr>q_live = 4, q_registry = [''sb-1''], q_callers = [Idle, Provisioning, Refused, Refused]\<rparr>"

lemma demo_quota_reached: "(q_step 2)\<^sup>*\<^sup>* (q_new 4) demo_quota"
proof -
  have "q_step 2 (q_new 4) \<lparr>q_live = 1, q_registry = [], q_callers = [Provisioning, Idle, Idle, Idle]\<rparr>"
    using q_reserve [of 0 "q_new 4" 2] by (simp add: q_new_def numeral_eq_Suc)
  moreover have "q_step 2 \<lparr>q_live = 1, q_registry = [], q_callers = [Provisioning, Idle, Idle, Idle]\<rparr>
      \<lparr>q_live = 1, q_registry = [''sb-1''], q_callers = [Idle, Idle, Idle, Idle]\<rparr>"
    using q_register [of 0 "\<lparr>q_live = 1, q_registry = [], q_callers = [Provisioning, Idle, Idle, Idle]\<rparr>" 2 "''sb-1''"] by simp
  moreover have "q_step 2 \<lparr>q_live = 1, q_registry = [''sb-1''], q_callers = [Idle, Idle, Idle, Idle]\<rparr>
      \<lparr>q_live = 2, q_registry = [''sb-1''], q_callers = [Idle, Provisioning, Idle, Idle]\<rparr>"
    using q_reserve [of 1 "\<lparr>q_live = 1, q_registry = [''sb-1''], q_callers = [Idle, Idle, Idle, Idle]\<rparr>" 2] by simp
  moreover have "q_step 2 \<lparr>q_live = 2, q_registry = [''sb-1''], q_callers = [Idle, Provisioning, Idle, Idle]\<rparr>
      \<lparr>q_live = 3, q_registry = [''sb-1''], q_callers = [Idle, Provisioning, Refused, Idle]\<rparr>"
    using q_refuse [of 2 "\<lparr>q_live = 2, q_registry = [''sb-1''], q_callers = [Idle, Provisioning, Idle, Idle]\<rparr>" 2]
    by simp
  moreover have "q_step 2 \<lparr>q_live = 3, q_registry = [''sb-1''], q_callers = [Idle, Provisioning, Refused, Idle]\<rparr> demo_quota"
    using q_refuse [of 3 "\<lparr>q_live = 3, q_registry = [''sb-1''], q_callers = [Idle, Provisioning, Refused, Idle]\<rparr>" 2]
    by (simp add: numeral_3_eq_3 demo_quota_def)
  ultimately show ?thesis by (meson rtranclp.rtrancl_into_rtrancl rtranclp.rtrancl_refl)
qed

theorem quota_never_exceeded_witness:
  "(q_step 2)\<^sup>*\<^sup>* (q_new 4) demo_quota \<and>
   length (q_registry demo_quota) + callers_in (\<lambda>p. p \<in> {Provisioning, Failing, Releasing}) demo_quota \<le> 2 \<and>
   length (q_registry demo_quota) = 1 \<and> callers_in (\<lambda>p. p = Provisioning) demo_quota = 1 \<and>
   unat (q_live demo_quota) \<le> 6"
  using quota_never_exceeded [OF demo_quota_reached] demo_quota_reached
  by (simp add: demo_quota_def callers_in_def)

end
