(* ===== verification/Triggers.thy ===== *)
theory Triggers
  imports Core "HOL-Library.Multiset"
begin

text \<open>
  The triggers of a deployed host (\<open>crates/host/src/triggers.rs\<close>): the registry of event triggers, the
  calendar-aware cron trigger, the sliding-window rate limit and the control surface that pauses and
  throttles. Times are milliseconds since the epoch; the subtractions on \<open>i64\<close> are \<open>i64_sub\<close>.
\<close>

subsection \<open>Event triggers\<close>

datatype trigger_source = Webhook string | Stream string | PubSub string

definition source_matches :: "trigger_source \<Rightarrow> trigger_source \<Rightarrow> bool" where
  "source_matches a b \<longleftrightarrow> a = b"

record event_trigger =
  et_id :: string
  et_source :: trigger_source
  et_filter :: "json option"
  et_call :: json
  et_input_template :: json

record trigger_fired =
  tf_trigger_id :: string
  tf_call :: json
  tf_input :: json
  tf_payload :: json

fun payload_matches :: "json option \<Rightarrow> json \<Rightarrow> bool" where
  "payload_matches None payload = True"
| "payload_matches (Some (Object want)) payload =
     (case as_object payload of None \<Rightarrow> False | Some have \<Rightarrow> list_all (\<lambda>(k, v). map_of have k = Some v) want)"
| "payload_matches (Some other) payload = (other = payload)"

fun merge_input :: "json \<Rightarrow> json \<Rightarrow> json" where
  "merge_input (Object t) (Object p) = Object (obj_insert_all p t)"
| "merge_input Null p = p"
| "merge_input t _ = t"

text \<open>
  The registry is a hash map: an association list in some order. What the observer is told is a list of pairs
  of a trigger id and an action.
\<close>

type_synonym trigger_events = "(string \<times> string) list"

type_synonym event_registry = "(string \<times> event_trigger) list"

definition er_register :: "event_trigger \<Rightarrow> event_registry \<Rightarrow> event_registry" where
  "er_register t g = AList.update (et_id t) t g"

definition er_remove :: "string \<Rightarrow> event_registry \<Rightarrow> bool \<times> event_registry" where
  "er_remove i g = (map_of g i \<noteq> None, AList.delete i g)"

definition er_list :: "event_registry \<Rightarrow> event_trigger list" where
  "er_list g = sort_key et_id (map snd g)"

definition fired_record :: "json \<Rightarrow> event_trigger \<Rightarrow> trigger_fired" where
  "fired_record payload t =
     \<lparr>tf_trigger_id = et_id t, tf_call = et_call t, tf_input = merge_input (et_input_template t) payload, tf_payload = payload\<rparr>"

definition er_fire ::
  "trigger_source \<Rightarrow> json \<Rightarrow> event_registry \<Rightarrow> trigger_events \<Rightarrow> trigger_fired list \<times> trigger_events" where
  "er_fire src payload g evs =
     (let ts = filter (\<lambda>t. source_matches (et_source t) src \<and> payload_matches (et_filter t) payload) (map snd g)
      in (sort_key tf_trigger_id (map (fired_record payload) ts), evs @ map (\<lambda>t. (et_id t, ''fire'')) ts))"

definition er_wf :: "event_registry \<Rightarrow> bool" where
  "er_wf g \<longleftrightarrow> distinct (map fst g) \<and> map (et_id \<circ> snd) g = map fst g"

lemma er_wf_Nil [simp]: "er_wf []"
  by (simp add: er_wf_def)

lemma map_snd_update: "map (et_id \<circ> snd) g = map fst g \<Longrightarrow> map (et_id \<circ> snd) (AList.update (et_id t) t g) = map fst (AList.update (et_id t) t g)"
  by (induction g) auto

lemma er_wf_register: "er_wf g \<Longrightarrow> er_wf (er_register t g)"
  by (simp add: er_wf_def er_register_def distinct_update map_snd_update)

lemma er_wf_remove: "er_wf g \<Longrightarrow> er_wf (snd (er_remove i g))"
proof -
  assume "er_wf g"
  moreover have "set (AList.delete i g) \<subseteq> set g" by (auto simp: AList.delete_eq)
  ultimately show ?thesis by (auto simp: er_wf_def er_remove_def distinct_delete)
qed

lemma er_register_get: "map_of (er_register t g) = (map_of g)(et_id t \<mapsto> t)"
  by (simp add: er_register_def update_conv')

lemma fired_record_id [simp]: "tf_trigger_id (fired_record p t) = et_id t"
  by (simp add: fired_record_def)

lemma distinct_map_sort_key: "distinct (map f (sort_key k xs)) = distinct (map f xs)"
  by (rule mset_eq_imp_distinct_iff) simp

text \<open>
  An event fires exactly the registered triggers on its source whose filter accepts the payload, each once, in the
  order of their ids whatever the order of the hash map; the observer is told of each of them.
\<close>

theorem er_fire_exact:
  assumes "er_wf g"
  shows "set (fst (er_fire src payload g evs)) =
      {fired_record payload t | i t. map_of g i = Some t \<and> et_source t = src \<and> payload_matches (et_filter t) payload} \<and>
    sorted_wrt (<) (map tf_trigger_id (fst (er_fire src payload g evs))) \<and>
    mset (snd (er_fire src payload g evs)) = mset evs + mset (map (\<lambda>r. (tf_trigger_id r, ''fire'')) (fst (er_fire src payload g evs)))"
proof -
  let ?ts = "filter (\<lambda>t. source_matches (et_source t) src \<and> payload_matches (et_filter t) payload) (map snd g)"
  have dist: "distinct (map fst g)" and ids: "map et_id (map snd g) = map fst g" using assms by (simp_all add: er_wf_def)
  have "distinct (map et_id (map snd g))" unfolding ids by (rule dist)
  then have "distinct (map et_id ?ts)" by (intro distinct_map_filter)
  moreover have "map tf_trigger_id (map (fired_record payload) ?ts) = map et_id ?ts" by simp
  ultimately have "distinct (map tf_trigger_id (sort_key tf_trigger_id (map (fired_record payload) ?ts)))"
    by (simp only: distinct_map_sort_key)
  then have "sorted_wrt (<) (map tf_trigger_id (sort_key tf_trigger_id (map (fired_record payload) ?ts)))"
    by (simp add: strict_sorted_iff)
  moreover have "set ?ts = {t. \<exists>i. map_of g i = Some t \<and> et_source t = src \<and> payload_matches (et_filter t) payload}"
    using dist by (force simp: source_matches_def)
  ultimately show ?thesis
    by (auto simp: er_fire_def Let_def image_iff multiset.map_comp comp_def simp del: filter_map)
qed

subsection \<open>The trading calendar and cron triggers\<close>

text \<open>A date is its number of days since 1970-01-01, a Thursday; weekdays count from Monday.\<close>

type_synonym date = int

definition weekday :: "date \<Rightarrow> nat" where
  "weekday d = nat ((d + 3) mod 7)"

record trading_calendar =
  holidays :: "date list"
  business_days :: "bool list"

definition default_calendar :: trading_calendar where
  "default_calendar = \<lparr>holidays = [], business_days = [True, True, True, True, True, False, False]\<rparr>"

definition with_holidays :: "date list \<Rightarrow> trading_calendar" where
  "with_holidays hs = default_calendar\<lparr>holidays := hs\<rparr>"

definition is_trading_day :: "trading_calendar \<Rightarrow> date \<Rightarrow> bool" where
  "is_trading_day c d \<longleftrightarrow> business_days c ! weekday d \<and> d \<notin> set (holidays c)"

text \<open>
  The schedule is parsed and evaluated by the crate \<open>cron\<close>: \<open>ct_next offset t\<close> is its first occurrence after \<open>t\<close>, read in a
  zone \<open>offset\<close> seconds east of UTC. The instants \<open>chrono\<close> can represent are the argument \<open>ok\<close>.
\<close>

record cron_trigger =
  ct_id :: string
  ct_next :: "int \<Rightarrow> int \<Rightarrow> int option"
  ct_calendar :: "trading_calendar option"
  ct_tz_offset_minutes :: int
  ct_enabled :: bool

definition i32_mul :: "int \<Rightarrow> int \<Rightarrow> int" where
  "i32_mul a b = (a * b + 2 ^ 31) mod 2 ^ 32 - 2 ^ 31"

definition east_opt :: "int \<Rightarrow> int option" where
  "east_opt secs = (if - 86400 < secs \<and> secs < 86400 then Some secs else None)"

definition next_after_ms :: "(int \<Rightarrow> bool) \<Rightarrow> (int \<Rightarrow> int \<Rightarrow> int option) \<Rightarrow> int \<Rightarrow> int \<Rightarrow> int option" where
  "next_after_ms ok nxt from_ms off = (if ok from_ms then nxt off from_ms else None)"

definition local_date :: "int \<Rightarrow> int \<Rightarrow> date" where
  "local_date off t = (t + off * 1000) div 86400000"

definition day_end_ms :: "int \<Rightarrow> date \<Rightarrow> int" where
  "day_end_ms off d = d * 86400000 + 86399000 - off * 1000"

fun cron_search :: "(int \<Rightarrow> bool) \<Rightarrow> nat \<Rightarrow> (int \<Rightarrow> int \<Rightarrow> int option) \<Rightarrow> trading_calendar option \<Rightarrow> int \<Rightarrow> int \<Rightarrow> int option" where
  "cron_search ok 0 nxt cal off cursor = None"
| "cron_search ok (Suc n) nxt cal off cursor =
     (case next_after_ms ok nxt cursor off of
        None \<Rightarrow> None
      | Some t \<Rightarrow>
          (case cal of
             None \<Rightarrow> Some t
           | Some c \<Rightarrow>
               if \<not> ok t then None
               else if is_trading_day c (local_date off t) then Some t
               else (let day_end = day_end_ms off (local_date off t)
                     in cron_search ok n nxt cal off (if day_end \<le> t then t + 1 else day_end))))"

definition next_fire_after :: "(int \<Rightarrow> bool) \<Rightarrow> cron_trigger \<Rightarrow> int \<Rightarrow> int option" where
  "next_fire_after ok ct from_ms =
     (if \<not> ct_enabled ct then None
      else (case east_opt (i32_mul (ct_tz_offset_minutes ct) 60) of
              None \<Rightarrow> None
            | Some off \<Rightarrow> cron_search ok 4096 (ct_next ct) (ct_calendar ct) off from_ms))"

text \<open>
  What the schedule is relied on for: it has occurrences at whole seconds, and yields the first one after an
  instant.
\<close>

definition schedule_ok :: "(int \<Rightarrow> int \<Rightarrow> int option) \<Rightarrow> (int \<Rightarrow> int \<Rightarrow> bool) \<Rightarrow> bool" where
  "schedule_ok nxt occ \<longleftrightarrow>
     (\<forall>off t. occ off t \<longrightarrow> 1000 dvd t) \<and>
     (\<forall>off t. case nxt off t of
        None \<Rightarrow> \<forall>u>t. \<not> occ off u
      | Some u \<Rightarrow> t < u \<and> occ off u \<and> (\<forall>v. t < v \<and> v < u \<longrightarrow> \<not> occ off v))"

definition trades :: "trading_calendar option \<Rightarrow> int \<Rightarrow> int \<Rightarrow> bool" where
  "trades cal off t = (case cal of None \<Rightarrow> True | Some c \<Rightarrow> is_trading_day c (local_date off t))"

lemma schedule_next:
  assumes "schedule_ok nxt occ" and "nxt off cursor = Some t"
  shows "cursor < t" and "occ off t" and "1000 dvd t" and "cursor < v \<Longrightarrow> v < t \<Longrightarrow> \<not> occ off v"
proof -
  have "case nxt off cursor of None \<Rightarrow> \<forall>u>cursor. \<not> occ off u
      | Some u \<Rightarrow> cursor < u \<and> occ off u \<and> (\<forall>v. cursor < v \<and> v < u \<longrightarrow> \<not> occ off v)"
    using assms(1) unfolding schedule_ok_def by blast
  then show "cursor < t" "occ off t" "cursor < v \<Longrightarrow> v < t \<Longrightarrow> \<not> occ off v" using assms(2) by auto
  then show "1000 dvd t" using assms(1) unfolding schedule_ok_def by blast
qed

lemma schedule_whole: "schedule_ok nxt occ \<Longrightarrow> occ off t \<Longrightarrow> 1000 dvd t"
  unfolding schedule_ok_def by blast

lemma schedule_more: "schedule_ok nxt occ \<Longrightarrow> occ off t \<Longrightarrow> cursor < t \<Longrightarrow> nxt off cursor \<noteq> None"
proof
  assume s: "schedule_ok nxt occ" "occ off t" "cursor < t" "nxt off cursor = None"
  have "case nxt off cursor of None \<Rightarrow> \<forall>u>cursor. \<not> occ off u
      | Some u \<Rightarrow> cursor < u \<and> occ off u \<and> (\<forall>v. cursor < v \<and> v < u \<longrightarrow> \<not> occ off v)"
    using s(1) unfolding schedule_ok_def by blast
  with s(2-4) show False by auto
qed

text \<open>No occurrence lies between the cursor a skipped day leaves and the end of that day.\<close>

lemma skipped_day:
  assumes "1000 dvd t" and "1000 dvd u" and "t < u"
    and "u \<le> (if day_end_ms off (local_date off t) \<le> t then t + 1 else day_end_ms off (local_date off t))"
  shows "local_date off u = local_date off t"
proof -
  define d where "d = local_date off t"
  have t: "d * 86400000 \<le> t + off * 1000" "t + off * 1000 < d * 86400000 + 86400000"
    by (simp_all add: d_def local_date_def)
  from assms(4) have "u \<le> day_end_ms off d \<or> u \<le> t + 1" by (auto simp: d_def split: if_splits)
  moreover obtain a b where ab: "t = 1000 * a" "u = 1000 * b" using assms(1,2) by (auto elim!: dvdE)
  then have "a < b" using assms(3) by simp
  ultimately have "u \<le> day_end_ms off d" using ab by auto
  then have "u + off * 1000 < d * 86400000 + 86400000" "d * 86400000 \<le> u + off * 1000"
    using t assms(3) by (simp_all add: day_end_ms_def)
  then have "(u + off * 1000) div 86400000 = d"
    by (intro int_div_pos_eq [where r = "u + off * 1000 - d * 86400000"]) simp_all
  then show ?thesis by (simp add: local_date_def d_def)
qed

definition next_cursor :: "int \<Rightarrow> int \<Rightarrow> int" where
  "next_cursor off t = (if day_end_ms off (local_date off t) \<le> t then t + 1 else day_end_ms off (local_date off t))"

lemma next_cursor_gt: "t < next_cursor off t"
  by (simp add: next_cursor_def)

lemma cron_search_Suc:
  "cron_search ok (Suc n) nxt cal off cursor =
     (case next_after_ms ok nxt cursor off of
        None \<Rightarrow> None
      | Some t \<Rightarrow> if cal \<noteq> None \<and> \<not> ok t then None
          else if trades cal off t then Some t
          else cron_search ok n nxt cal off (next_cursor off t))"
  by (auto simp: trades_def next_cursor_def Let_def split: option.splits)

declare cron_search.simps(2) [simp del]

text \<open>Between a cursor and the one a skipped day leaves there is no occurrence on a trading day.\<close>

lemma skipped_not_trading:
  assumes "schedule_ok nxt occ" and "nxt off cursor = Some t" and "\<not> trades cal off t"
    and "cursor < u" and "u \<le> next_cursor off t" and "occ off u"
  shows "\<not> trades cal off u"
proof -
  note n = schedule_next [OF assms(1,2)]
  consider "u < t" | "u = t" | "t < u" by linarith
  then show ?thesis
  proof cases
    case 1
    with n(4) [OF assms(4)] assms(6) show ?thesis by simp
  next
    case 3
    have "local_date off u = local_date off t"
      using skipped_day [OF n(3) schedule_whole [OF assms(1,6)] 3] assms(5) by (simp add: next_cursor_def)
    with assms(3) show ?thesis by (auto simp: trades_def split: option.splits)
  qed (use assms(3) in simp)
qed

lemma cron_search_sound:
  assumes "schedule_ok nxt occ" and "cron_search ok n nxt cal off cursor = Some t"
  shows "cursor < t \<and> occ off t \<and> trades cal off t \<and> (\<forall>u. cursor < u \<and> u < t \<and> occ off u \<longrightarrow> \<not> trades cal off u)"
  using assms(2)
proof (induction n arbitrary: cursor)
  case (Suc n)
  then obtain x where x: "nxt off cursor = Some x"
    by (auto simp: cron_search_Suc next_after_ms_def split: if_splits option.splits)
  note n = schedule_next [OF assms(1) x]
  show ?case
  proof (cases "trades cal off x")
    case True
    with Suc.prems x have "t = x" by (auto simp: cron_search_Suc next_after_ms_def split: if_splits)
    with True n show ?thesis by auto
  next
    case False
    with Suc.prems x have "cron_search ok n nxt cal off (next_cursor off x) = Some t"
      by (auto simp: cron_search_Suc next_after_ms_def split: if_splits)
    note ih = Suc.IH [OF this]
    have "\<not> trades cal off u" if "cursor < u" "u < t" "occ off u" for u
    proof (cases "u \<le> next_cursor off x")
      case True
      show ?thesis by (rule skipped_not_trading [OF assms(1) x False that(1) True that(3)])
    qed (use ih that in auto)
    with ih n(1) next_cursor_gt [of x off] show ?thesis by auto
  qed
qed simp

text \<open>A trading occurrence fewer than \<open>n\<close> days after the first candidate is found with \<open>n\<close> rounds.\<close>

lemma local_date_mono: "s \<le> t \<Longrightarrow> local_date off s \<le> local_date off t"
  by (simp add: local_date_def zdiv_mono1)

lemma next_day:
  assumes "1000 dvd x" and "1000 dvd u" and "next_cursor off x < u"
  shows "local_date off x < local_date off u"
proof -
  define d where "d = local_date off x"
  have x: "d * 86400000 \<le> x + off * 1000" by (simp add: d_def local_date_def)
  have "day_end_ms off d < u" using assms(3) by (auto simp: next_cursor_def d_def split: if_splits)
  moreover have "1000 dvd day_end_ms off d" unfolding day_end_ms_def by (intro dvd_diff dvd_add) auto
  with assms(2) obtain a b where "day_end_ms off d = 1000 * a" "u = 1000 * b" by (auto elim!: dvdE)
  ultimately have "day_end_ms off d + 1000 \<le> u" by auto
  then have "(d + 1) * 86400000 \<le> u + off * 1000" by (simp add: day_end_ms_def)
  then have "d + 1 \<le> local_date off u"
    using zdiv_mono1 [of "(d + 1) * 86400000" "u + off * 1000" 86400000] by (simp add: local_date_def)
  then show ?thesis by (simp add: d_def)
qed

lemma cron_search_complete:
  assumes "schedule_ok nxt occ" and "occ off t" and "trades cal off t" and "cursor < t"
    and "\<And>u. cursor < u \<Longrightarrow> u < t \<Longrightarrow> occ off u \<Longrightarrow> \<not> trades cal off u"
    and "\<And>u. cursor \<le> u \<Longrightarrow> u \<le> t \<Longrightarrow> ok u"
    and "\<And>x. nxt off cursor = Some x \<Longrightarrow> local_date off t < local_date off x + int n"
  shows "cron_search ok n nxt cal off cursor = Some t"
  using assms(4-7)
proof (induction n arbitrary: cursor)
  case 0
  obtain x where x: "nxt off cursor = Some x" using schedule_more [OF assms(1,2) 0(1)] by auto
  have "x \<le> t" using schedule_next(4) [OF assms(1) x, of t] 0(1) assms(2) by (meson not_le)
  then show ?case using 0(4) [OF x] local_date_mono [of x t off] by simp
next
  case (Suc n)
  obtain x where x: "nxt off cursor = Some x" using schedule_more [OF assms(1,2) Suc.prems(1)] by auto
  note nx = schedule_next [OF assms(1) x]
  have le: "x \<le> t" using nx(4) [of t] Suc.prems(1) assms(2) by (meson not_le)
  have ok: "ok cursor" "ok x" using Suc.prems(1,3) nx(1) le by auto
  show ?case
  proof (cases "trades cal off x")
    case True
    then have "x = t" using Suc.prems(2) [of x] nx(1,2) le by (cases "x < t") auto
    with True x ok show ?thesis by (simp add: cron_search_Suc next_after_ms_def)
  next
    case False
    have lt: "next_cursor off x < t"
      using skipped_not_trading [OF assms(1) x False Suc.prems(1) _ assms(2)] assms(3) by (meson not_le)
    have "cron_search ok n nxt cal off (next_cursor off x) = Some t"
    proof (rule Suc.IH [OF lt])
      fix y assume y: "nxt off (next_cursor off x) = Some y"
      note ny = schedule_next [OF assms(1) y]
      show "local_date off t < local_date off y + int n"
        using Suc.prems(4) [OF x] next_day [OF nx(3) ny(3) ny(1)] by simp
    qed (use Suc.prems(2,3) nx(1) next_cursor_gt [of x off] in auto)
    with False x ok show ?thesis by (simp add: cron_search_Suc next_after_ms_def)
  qed
qed

text \<open>
  A cron trigger fires at the first occurrence of its schedule that falls on a trading day, and on none before
  it.
\<close>

theorem cron_first_trading_occurrence:
  assumes "schedule_ok (ct_next ct) occ" and "next_fire_after ok ct from_ms = Some t"
  shows "\<exists>off. east_opt (i32_mul (ct_tz_offset_minutes ct) 60) = Some off \<and> ct_enabled ct \<and> from_ms < t \<and> occ off t \<and>
    trades (ct_calendar ct) off t \<and> (\<forall>u. from_ms < u \<and> u < t \<and> occ off u \<longrightarrow> \<not> trades (ct_calendar ct) off u)"
  using assms cron_search_sound [OF assms(1)] by (auto simp: next_fire_after_def split: if_splits option.splits)

text \<open>
  (C30) It finds that occurrence whenever it lies fewer than 4096 days ahead, however many occurrences on closed days
  come before it.
\<close>

theorem cron_reaches_next_session:
  assumes "schedule_ok (ct_next ct) occ" and "ct_enabled ct" and "east_opt (i32_mul (ct_tz_offset_minutes ct) 60) = Some off"
    and "occ off t" and "trades (ct_calendar ct) off t" and "from_ms < t"
    and "\<And>u. from_ms < u \<Longrightarrow> u < t \<Longrightarrow> occ off u \<Longrightarrow> \<not> trades (ct_calendar ct) off u"
    and "\<And>u. from_ms \<le> u \<Longrightarrow> u \<le> t \<Longrightarrow> ok u"
    and "local_date off t < local_date off from_ms + 4096"
  shows "next_fire_after ok ct from_ms = Some t"
proof -
  have "cron_search ok 4096 (ct_next ct) (ct_calendar ct) off from_ms = Some t"
  proof (rule cron_search_complete [OF assms(1,4,5,6,7,8)])
    fix x assume "ct_next ct off from_ms = Some x"
    then show "local_date off t < local_date off x + int 4096"
      using schedule_next(1) [OF assms(1)] local_date_mono [of from_ms x off] assms(9) by fastforce
  qed
  with assms(2,3) show ?thesis by (simp add: next_fire_after_def)
qed

text \<open>A schedule that occurs every day at 21:00 UTC, from a Friday evening over a weekend and a holiday.\<close>

definition daily :: "int \<Rightarrow> int \<Rightarrow> int option" where
  "daily off t = Some (((t - 75600000) div 86400000 + 1) * 86400000 + 75600000)"

lemma daily_ok: "schedule_ok daily (\<lambda>off t. (t - 75600000) mod 86400000 = 0)"
proof -
  have "t < ((t - 75600000) div 86400000 + 1) * 86400000 + 75600000" for t :: int by simp
  moreover have "(((t - 75600000) div 86400000 + 1) * 86400000 + 75600000 - 75600000) mod 86400000 = 0" for t :: int by simp
  moreover have "\<not> v < ((t - 75600000) div 86400000 + 1) * 86400000 + 75600000" if tv: "t < v" and v: "(v - 75600000) mod 86400000 = 0" for t v :: int
  proof -
    define q where "q = (t - 75600000) div 86400000"
    obtain k where k: "v = k * 86400000 + 75600000" using v by (auto simp: mod_eq_0_iff_dvd dvd_def algebra_simps)
    have "q * 86400000 \<le> t - 75600000" by (simp add: q_def)
    with tv k have "q < k" by linarith
    then show ?thesis using k by (simp add: q_def [symmetric])
  qed
  moreover have "1000 dvd t" if m: "(t - 75600000) mod 86400000 = 0" for t :: int
  proof -
    obtain k where "t = 1000 * (86400 * k + 75600)" using m by (auto simp: mod_eq_0_iff_dvd dvd_def algebra_simps)
    then show ?thesis by simp
  qed
  ultimately show ?thesis by (auto simp: schedule_ok_def daily_def)
qed

definition demo_cron :: cron_trigger where
  "demo_cron = \<lparr>ct_id = ''eod'', ct_next = daily, ct_calendar = Some (with_holidays [20458]), ct_tz_offset_minutes = 0, ct_enabled = True\<rparr>"

lemma daily_between:
  fixes u :: int
  assumes "(u - 75600000) mod 86400000 = 0" and "a * 86400000 + 75600000 < u" and "u < b * 86400000 + 75600000"
  obtains k where "u = k * 86400000 + 75600000" "a < k" "k < b"
proof -
  obtain k where k: "u = k * 86400000 + 75600000" using assms(1) by (auto simp: mod_eq_0_iff_dvd dvd_def algebra_simps)
  with assms(2,3) have "a < k" "k < b" by simp_all
  with k show ?thesis by (rule that)
qed

lemma demo_dates [simp]:
  "local_date 0 (k * 86400000 + 75600000) = k"
  by (simp add: local_date_def)

theorem cron_reaches_next_session_witness:
  "next_fire_after (\<lambda>_. True) demo_cron (20455 * 86400000 + 75600000) = Some (20459 * 86400000 + 75600000)"
proof (rule cron_reaches_next_session [where off = 0 and occ = "\<lambda>off t. (t - 75600000) mod 86400000 = 0"])
  show "schedule_ok (ct_next demo_cron) (\<lambda>off t. (t - 75600000) mod 86400000 = 0)"
    using daily_ok by (simp add: demo_cron_def)
  show "trades (ct_calendar demo_cron) 0 (20459 * 86400000 + 75600000)"
    using demo_dates [of 20459]
    by (simp add: trades_def demo_cron_def with_holidays_def default_calendar_def is_trading_day_def weekday_def)
  show "local_date 0 (20459 * 86400000 + 75600000) < local_date 0 (20455 * 86400000 + 75600000) + 4096"
    using demo_dates [of 20459] demo_dates [of 20455] by simp
next
  fix u :: int
  assume u: "20455 * 86400000 + 75600000 < u" "u < 20459 * 86400000 + 75600000" "(u - 75600000) mod 86400000 = 0"
  obtain k where k: "u = k * 86400000 + 75600000" "20455 < k" "k < 20459"
    by (rule daily_between [OF u(3,1,2)])
  then consider "k = 20456" | "k = 20457" | "k = 20458" by linarith
  then show "\<not> trades (ct_calendar demo_cron) 0 u"
    using demo_dates [of k] k(1)
    by cases (simp_all add: trades_def demo_cron_def with_holidays_def default_calendar_def is_trading_day_def weekday_def)
qed (simp_all add: demo_cron_def east_opt_def i32_mul_def)

subsection \<open>Rate limits\<close>

datatype on_exceed = Drop | Queue | Backpressure

text \<open>The window \<open>per\<close> is a duration in milliseconds; \<open>as_millis() as i64\<close> is \<open>u64_as_i64\<close>.\<close>

record rate_limit =
  rl_max_fires :: u32
  rl_per :: nat
  rl_on_exceed :: on_exceed
  rl_window :: "int list"
  rl_queued :: "int list"

datatype rate_decision = Allow | Dropped | Queued | Backpressured

definition rl_new :: "u32 \<Rightarrow> nat \<Rightarrow> on_exceed \<Rightarrow> rate_limit" where
  "rl_new m per oe = \<lparr>rl_max_fires = m, rl_per = per, rl_on_exceed = oe, rl_window = [], rl_queued = []\<rparr>"

definition evict_before :: "int \<Rightarrow> rate_limit \<Rightarrow> rate_limit" where
  "evict_before now rl =
     rl\<lparr>rl_window := dropWhile (\<lambda>front. front \<le> i64_sub now (u64_as_i64 (rl_per rl))) (rl_window rl)\<rparr>"

definition check_and_record :: "int \<Rightarrow> rate_limit \<Rightarrow> rate_decision \<times> rate_limit" where
  "check_and_record now rl =
     (let rl1 = evict_before now rl in
      if length (rl_window rl1) < unat (rl_max_fires rl1) then (Allow, rl1\<lparr>rl_window := rl_window rl1 @ [now]\<rparr>)
      else (case rl_on_exceed rl1 of
              Drop \<Rightarrow> (Dropped, rl1)
            | Queue \<Rightarrow> (Queued, rl1\<lparr>rl_queued := rl_queued rl1 @ [now]\<rparr>)
            | Backpressure \<Rightarrow> (Backpressured, rl1)))"

definition queued_len :: "rate_limit \<Rightarrow> nat" where
  "queued_len rl = length (rl_queued rl)"

fun rl_run :: "int list \<Rightarrow> rate_limit \<Rightarrow> rate_decision list \<times> rate_limit" where
  "rl_run [] rl = ([], rl)"
| "rl_run (t # ts) rl = (case check_and_record t rl of (d, rl1) \<Rightarrow> (case rl_run ts rl1 of (ds, rl2) \<Rightarrow> (d # ds, rl2)))"

text \<open>
  The reference: a fire is allowed when fewer than the maximum of earlier fires were allowed in the window that ends
  with it. It keeps every fire and never evicts.
\<close>

fun rl_spec :: "nat \<Rightarrow> int \<Rightarrow> rate_decision \<Rightarrow> int list \<Rightarrow> int list \<Rightarrow> rate_decision list" where
  "rl_spec m per refusal allowed [] = []"
| "rl_spec m per refusal allowed (t # ts) =
     (if length (filter (\<lambda>a. t - per < a) allowed) < m then Allow # rl_spec m per refusal (allowed @ [t]) ts
      else refusal # rl_spec m per refusal allowed ts)"

fun refusal :: "on_exceed \<Rightarrow> rate_decision" where
  "refusal Drop = Dropped"
| "refusal Queue = Queued"
| "refusal Backpressure = Backpressured"

definition allowed_times :: "int list \<Rightarrow> rate_decision list \<Rightarrow> int list" where
  "allowed_times ts ds = map fst (filter (\<lambda>p. snd p = Allow) (zip ts ds))"

lemma dropWhile_sorted: "sorted xs \<Longrightarrow> dropWhile (\<lambda>x. x \<le> h) xs = filter (\<lambda>x. h < x) xs" for h :: int
  by (induction xs) (auto intro!: filter_True [symmetric])

lemma horizon_exact:
  assumes "ms_range now" and "int per < 2 ^ 62"
  shows "i64_sub now (u64_as_i64 per) = now - int per"
proof -
  have "per < 2 ^ 63" using assms(2) by simp
  then have "u64_as_i64 per = int per" by (rule u64_as_i64_small)
  moreover have "ms_range (int per)" using assms(2) by (simp add: ms_range_def)
  ultimately show ?thesis using i64_sub_exact [OF assms(1), of "int per"] by simp
qed

lemma rl_run_refines:
  assumes "sorted ts" and "list_all (\<lambda>t. ms_range t \<and> h \<le> t - int (rl_per rl) \<and> list_all (\<lambda>a. a \<le> t) (rl_window rl)) ts"
    and "int (rl_per rl) < 2 ^ 62" and "sorted (rl_window rl)"
    and "\<And>h'. h \<le> h' \<Longrightarrow> filter (\<lambda>a. h' < a) (rl_window rl) = filter (\<lambda>a. h' < a) allowed"
  shows "fst (rl_run ts rl) = rl_spec (unat (rl_max_fires rl)) (int (rl_per rl)) (refusal (rl_on_exceed rl)) allowed ts"
  using assms
proof (induction ts arbitrary: rl allowed h)
  case (Cons t ts)
  let ?h = "t - int (rl_per rl)"
  let ?e = "evict_before t rl"
  have win: "rl_window ?e = filter (\<lambda>a. ?h < a) (rl_window rl)"
    using Cons.prems(2,3) dropWhile_sorted [OF Cons.prems(4)] horizon_exact [of t "rl_per rl"] by (simp add: evict_before_def)
  also have "\<dots> = filter (\<lambda>a. ?h < a) allowed" using Cons.prems(2) by (intro Cons.prems(5)) simp
  finally have len: "length (rl_window ?e) = length (filter (\<lambda>a. ?h < a) allowed)" by simp
  have e: "rl_per ?e = rl_per rl" "rl_max_fires ?e = rl_max_fires rl" "rl_on_exceed ?e = rl_on_exceed rl"
    by (simp_all add: evict_before_def)
  have kept: "filter (\<lambda>a. h' < a) (rl_window ?e) = filter (\<lambda>a. h' < a) allowed" if "?h \<le> h'" for h'
  proof -
    have "filter (\<lambda>a. h' < a) (rl_window ?e) = filter (\<lambda>a. h' < a) (rl_window rl)"
      unfolding win filter_filter using that by (intro filter_cong) auto
    then show ?thesis using Cons.prems(2,5) that by simp
  qed
  have le: "list_all (\<lambda>a. a \<le> t) (rl_window ?e)" using Cons.prems(2) by (auto simp: win list_all_iff)
  have ih: "fst (rl_run ts rl1) = rl_spec (unat (rl_max_fires rl)) (int (rl_per rl)) (refusal (rl_on_exceed rl)) allowed1 ts"
    if "rl_per rl1 = rl_per rl" "rl_max_fires rl1 = rl_max_fires rl" "rl_on_exceed rl1 = rl_on_exceed rl"
      "sorted (rl_window rl1)" "list_all (\<lambda>a. a \<le> t) (rl_window rl1)"
      "\<And>h'. ?h \<le> h' \<Longrightarrow> filter (\<lambda>a. h' < a) (rl_window rl1) = filter (\<lambda>a. h' < a) allowed1" for rl1 allowed1
    using Cons.IH [of ?h rl1 allowed1] Cons.prems(1-3) that by (force simp: list_all_iff)
  show ?case
  proof (cases "length (rl_window ?e) < unat (rl_max_fires rl)")
    case True
    let ?rl1 = "?e\<lparr>rl_window := rl_window ?e @ [t]\<rparr>"
    have "check_and_record t rl = (Allow, ?rl1)" using True e by (simp add: check_and_record_def Let_def)
    moreover have "sorted (rl_window ?rl1)" using le Cons.prems(4) by (simp add: sorted_append list_all_iff win sorted_wrt_filter)
    moreover have "fst (rl_run ts ?rl1) = rl_spec (unat (rl_max_fires rl)) (int (rl_per rl)) (refusal (rl_on_exceed rl)) (allowed @ [t]) ts"
      using e le kept calculation(2) by (intro ih) simp_all
    ultimately show ?thesis using True len by (simp add: split_beta)
  next
    case False
    have "\<exists>rl1. check_and_record t rl = (refusal (rl_on_exceed rl), rl1) \<and> rl_window rl1 = rl_window ?e \<and>
        rl_per rl1 = rl_per rl \<and> rl_max_fires rl1 = rl_max_fires rl \<and> rl_on_exceed rl1 = rl_on_exceed rl"
      using False e by (cases "rl_on_exceed rl") (auto simp: check_and_record_def Let_def)
    then obtain rl1 where r: "check_and_record t rl = (refusal (rl_on_exceed rl), rl1)" "rl_window rl1 = rl_window ?e"
      "rl_per rl1 = rl_per rl" "rl_max_fires rl1 = rl_max_fires rl" "rl_on_exceed rl1 = rl_on_exceed rl" by blast
    have "fst (rl_run ts rl1) = rl_spec (unat (rl_max_fires rl)) (int (rl_per rl)) (refusal (rl_on_exceed rl)) allowed ts"
      using r(2-5) le kept Cons.prems(4) by (intro ih) (simp_all add: win sorted_wrt_filter)
    with r(1) False len show ?thesis by (simp add: split_beta)
  qed
qed simp

text \<open>No window of the reference ever holds more than the maximum.\<close>

lemma rl_spec_window:
  assumes "sorted (allowed @ ts)" and "\<And>u. length (filter (\<lambda>a. u - per < a \<and> a \<le> u) allowed) \<le> m" and "r \<noteq> Allow"
  shows "length (filter (\<lambda>a. u - per < a \<and> a \<le> u) (allowed @ allowed_times ts (rl_spec m per r allowed ts))) \<le> m"
  using assms(1,2)
proof (induction ts arbitrary: allowed)
  case (Cons t ts)
  show ?case
  proof (cases "length (filter (\<lambda>a. t - per < a) allowed) < m")
    case True
    have "length (filter (\<lambda>a. v - per < a \<and> a \<le> v) (allowed @ [t])) \<le> m" for v
    proof (cases "v - per < t \<and> t \<le> v")
      case in_window: True
      have "length (filter (\<lambda>a. v - per < a \<and> a \<le> v) allowed) \<le> length (filter (\<lambda>a. t - per < a) allowed)"
        using in_window by (induction allowed) auto
      with True in_window show ?thesis by simp
    qed (use Cons.prems(2) [of v] in auto)
    with Cons.IH [of "allowed @ [t]"] Cons.prems(1) True show ?thesis by (simp add: allowed_times_def)
  next
    case False
    with Cons.IH [of allowed] Cons.prems assms(3) show ?thesis by (simp add: allowed_times_def sorted_append)
  qed
qed (simp add: allowed_times_def)

text \<open>
  (C29) For fire times that do not decrease, the limiter decides like the reference that keeps every fire, and no window of
  the given length ever holds more allowed fires than the maximum.
\<close>

theorem sliding_window:
  assumes "sorted ts" and "list_all ms_range ts" and "int per < 2 ^ 62"
  shows "fst (rl_run ts (rl_new m per oe)) = rl_spec (unat m) (int per) (refusal oe) [] ts \<and>
    length (filter (\<lambda>a. u - int per < a \<and> a \<le> u) (allowed_times ts (fst (rl_run ts (rl_new m per oe))))) \<le> unat m"
proof -
  have "fst (rl_run ts (rl_new m per oe)) = rl_spec (unat m) (int per) (refusal oe) [] ts"
  proof (cases ts)
    case (Cons t us)
    have "t \<le> v" if "v \<in> set ts" for v using assms(1) that Cons by auto
    then show ?thesis
      using rl_run_refines [of ts "t - int per" "rl_new m per oe" "[]"] assms by (simp add: rl_new_def list_all_iff)
  qed simp
  moreover have "refusal oe \<noteq> Allow" by (cases oe) simp_all
  ultimately show ?thesis using rl_spec_window [of "[]" ts "int per" "unat m" "refusal oe" u] assms(1) by simp
qed

theorem sliding_window_witness:
  "fst (rl_run [0, 10, 20, 105] (rl_new 2 100 Drop)) = [Allow, Allow, Dropped, Allow]"
  using sliding_window [of "[0, 10, 20, 105]" 100 2 Drop 0] by (simp add: ms_range_def)

subsection \<open>The control surface\<close>

record trigger_entry =
  te_kind :: string
  te_enabled :: bool
  te_cooldown :: nat
  te_fires :: u64
  te_last_fire_ms :: "int option"
  te_rate_limit :: "rate_limit option"

record trigger_status =
  ts_id :: string
  ts_kind :: string
  ts_enabled :: bool
  ts_cooldown_ms :: u64
  ts_fires :: u64
  ts_last_fire_ms :: "int option"

definition te_new :: "string \<Rightarrow> trigger_entry" where
  "te_new kind = \<lparr>te_kind = kind, te_enabled = True, te_cooldown = 0, te_fires = 0, te_last_fire_ms = None, te_rate_limit = None\<rparr>"

definition te_status :: "string \<Rightarrow> trigger_entry \<Rightarrow> trigger_status" where
  "te_status i e =
     \<lparr>ts_id = i, ts_kind = te_kind e, ts_enabled = te_enabled e, ts_cooldown_ms = of_nat (te_cooldown e), ts_fires = te_fires e,
      ts_last_fire_ms = te_last_fire_ms e\<rparr>"

datatype fire_outcome = Fired | Paused | CoolingDown | RateLimited rate_decision

record trigger_control =
  tc_entries :: "(string \<times> trigger_entry) list"
  tc_events :: trigger_events

definition tc_new :: trigger_control where
  "tc_new = \<lparr>tc_entries = [], tc_events = []\<rparr>"

definition tc_insert :: "string \<Rightarrow> trigger_entry \<Rightarrow> trigger_control \<Rightarrow> trigger_control" where
  "tc_insert i e c = c\<lparr>tc_entries := AList.update i e (tc_entries c)\<rparr>"

definition tc_observe :: "string \<Rightarrow> string \<Rightarrow> trigger_control \<Rightarrow> trigger_control" where
  "tc_observe i action c = c\<lparr>tc_events := tc_events c @ [(i, action)]\<rparr>"

definition tc_register_event :: "string \<Rightarrow> trigger_control \<Rightarrow> trigger_control" where
  "tc_register_event i c = tc_insert i (te_new ''event'') c"

definition tc_register_cron :: "cron_trigger \<Rightarrow> trigger_control \<Rightarrow> trigger_control" where
  "tc_register_cron t c = tc_insert (ct_id t) ((te_new ''cron'')\<lparr>te_enabled := ct_enabled t\<rparr>) c"

definition tc_remove :: "string \<Rightarrow> trigger_control \<Rightarrow> bool \<times> trigger_control" where
  "tc_remove i c = (map_of (tc_entries c) i \<noteq> None, c\<lparr>tc_entries := AList.delete i (tc_entries c)\<rparr>)"

definition tc_set_rate_limit :: "string \<Rightarrow> rate_limit \<Rightarrow> trigger_control \<Rightarrow> bool \<times> trigger_control" where
  "tc_set_rate_limit i rl c =
     (case map_of (tc_entries c) i of
        Some e \<Rightarrow> (True, tc_insert i (e\<lparr>te_rate_limit := Some rl\<rparr>) c)
      | None \<Rightarrow> (False, c))"

definition tc_list_triggers :: "trigger_control \<Rightarrow> trigger_status list" where
  "tc_list_triggers c = sort_key ts_id (map (\<lambda>(i, e). te_status i e) (tc_entries c))"

definition tc_status :: "trigger_control \<Rightarrow> string \<Rightarrow> trigger_status option" where
  "tc_status c i = map_option (te_status i) (map_of (tc_entries c) i)"

definition tc_pause :: "string \<Rightarrow> trigger_control \<Rightarrow> bool \<times> trigger_control" where
  "tc_pause i c =
     (case map_of (tc_entries c) i of
        Some e \<Rightarrow> (True, tc_observe i ''pause'' (tc_insert i (e\<lparr>te_enabled := False\<rparr>) c))
      | None \<Rightarrow> (False, c))"

definition tc_resume :: "string \<Rightarrow> trigger_control \<Rightarrow> bool \<times> trigger_control" where
  "tc_resume i c =
     (case map_of (tc_entries c) i of
        Some e \<Rightarrow> (True, tc_observe i ''resume'' (tc_insert i (e\<lparr>te_enabled := True\<rparr>) c))
      | None \<Rightarrow> (False, c))"

definition tc_set_cooldown :: "string \<Rightarrow> nat \<Rightarrow> trigger_control \<Rightarrow> bool \<times> trigger_control" where
  "tc_set_cooldown i cd c =
     (case map_of (tc_entries c) i of
        Some e \<Rightarrow> (True, tc_observe i ''cooldown'' (tc_insert i (e\<lparr>te_cooldown := cd\<rparr>) c))
      | None \<Rightarrow> (False, c))"

definition apply_rate_then_record :: "trigger_entry \<Rightarrow> int \<Rightarrow> fire_outcome \<times> trigger_entry" where
  "apply_rate_then_record e now =
     (let fire = (\<lambda>e. (Fired, e\<lparr>te_fires := te_fires e + 1, te_last_fire_ms := Some now\<rparr>)) in
      case te_rate_limit e of
        None \<Rightarrow> fire e
      | Some rl \<Rightarrow>
          (case check_and_record now rl of
             (Allow, rl1) \<Rightarrow> fire (e\<lparr>te_rate_limit := Some rl1\<rparr>)
           | (other, rl1) \<Rightarrow> (RateLimited other, e\<lparr>te_rate_limit := Some rl1\<rparr>)))"

definition fire_entry :: "trigger_entry \<Rightarrow> int \<Rightarrow> fire_outcome \<times> trigger_entry" where
  "fire_entry e now =
     (if \<not> te_enabled e then (Paused, e)
      else (case te_last_fire_ms e of
              Some t \<Rightarrow> if i64_sub now t < u64_as_i64 (te_cooldown e) then (CoolingDown, e) else apply_rate_then_record e now
            | None \<Rightarrow> apply_rate_then_record e now))"

definition tc_try_fire :: "string \<Rightarrow> int \<Rightarrow> trigger_control \<Rightarrow> fire_outcome \<times> trigger_control" where
  "tc_try_fire i now c =
     (case map_of (tc_entries c) i of
        None \<Rightarrow> (Paused, c)
      | Some e \<Rightarrow>
          (case fire_entry e now of
             (Fired, e1) \<Rightarrow> (Fired, tc_observe i ''fire'' (tc_insert i e1 c))
           | (RateLimited d, e1) \<Rightarrow> (RateLimited d, tc_observe i ''rate_limited'' (tc_insert i e1 c))
           | (other, e1) \<Rightarrow> (other, tc_insert i e1 c)))"

datatype tc_op =
    RegisterEvent string
  | RegisterCron cron_trigger
  | RemoveTrigger string
  | SetRateLimit string rate_limit
  | PauseTrigger string
  | ResumeTrigger string
  | SetCooldown string nat
  | TryFire string int

fun tc_step :: "tc_op \<Rightarrow> trigger_control \<Rightarrow> fire_outcome option \<times> trigger_control" where
  "tc_step (RegisterEvent i) c = (None, tc_register_event i c)"
| "tc_step (RegisterCron t) c = (None, tc_register_cron t c)"
| "tc_step (RemoveTrigger i) c = (None, snd (tc_remove i c))"
| "tc_step (SetRateLimit i rl) c = (None, snd (tc_set_rate_limit i rl c))"
| "tc_step (PauseTrigger i) c = (None, snd (tc_pause i c))"
| "tc_step (ResumeTrigger i) c = (None, snd (tc_resume i c))"
| "tc_step (SetCooldown i cd) c = (None, snd (tc_set_cooldown i cd c))"
| "tc_step (TryFire i now) c = (case tc_try_fire i now c of (r, c1) \<Rightarrow> (Some r, c1))"

fun tc_run :: "tc_op list \<Rightarrow> trigger_control \<Rightarrow> (tc_op \<times> fire_outcome option) list \<times> trigger_control" where
  "tc_run [] c = ([], c)"
| "tc_run (a # as) c = (case tc_step a c of (r, c1) \<Rightarrow> (case tc_run as c1 of (rs, c2) \<Rightarrow> ((a, r) # rs, c2)))"

text \<open>The times at which a trigger fired, and what a sequence of such times says about its spacing.\<close>

fun fired_at :: "string \<Rightarrow> (tc_op \<times> fire_outcome option) list \<Rightarrow> int list" where
  "fired_at i [] = []"
| "fired_at i ((TryFire j now, Some Fired) # rs) = (if j = i then now # fired_at i rs else fired_at i rs)"
| "fired_at i (x # rs) = fired_at i rs"

fun spaced :: "int \<Rightarrow> int option \<Rightarrow> int list \<Rightarrow> bool" where
  "spaced gap prev [] = True"
| "spaced gap prev (t # ts) = ((case prev of None \<Rightarrow> True | Some p \<Rightarrow> gap \<le> i64_sub t p) \<and> spaced gap (Some t) ts)"

text \<open>Operations that leave the registration and the cooldown of a trigger alone; pausing and throttling it are allowed.\<close>

fun leaves :: "string \<Rightarrow> tc_op \<Rightarrow> bool" where
  "leaves i (RegisterEvent j) \<longleftrightarrow> j \<noteq> i"
| "leaves i (RegisterCron t) \<longleftrightarrow> ct_id t \<noteq> i"
| "leaves i (RemoveTrigger j) \<longleftrightarrow> j \<noteq> i"
| "leaves i (SetCooldown j cd) \<longleftrightarrow> j \<noteq> i"
| "leaves i _ \<longleftrightarrow> True"

lemma entries_insert [simp]: "map_of (tc_entries (tc_insert i e c)) = (map_of (tc_entries c))(i \<mapsto> e)"
  by (simp add: tc_insert_def update_conv')

lemma entries_observe [simp]: "tc_entries (tc_observe i a c) = tc_entries c"
  by (simp add: tc_observe_def)

lemma entries_remove [simp]: "map_of (tc_entries (snd (tc_remove j c))) = (map_of (tc_entries c))(j := None)"
  by (simp add: tc_remove_def delete_conv')

lemma fire_entry_fields:
  assumes "fire_entry e now = (r, e1)"
  shows "te_cooldown e1 = te_cooldown e \<and> te_enabled e1 = te_enabled e \<and>
    (if r = Fired
     then te_enabled e \<and> te_fires e1 = te_fires e + 1 \<and> te_last_fire_ms e1 = Some now \<and>
       (case te_last_fire_ms e of None \<Rightarrow> True | Some t \<Rightarrow> u64_as_i64 (te_cooldown e) \<le> i64_sub now t)
     else te_fires e1 = te_fires e \<and> te_last_fire_ms e1 = te_last_fire_ms e)"
  using assms
  by (auto simp: fire_entry_def apply_rate_then_record_def Let_def split: if_splits option.splits prod.splits rate_decision.splits)

lemma tc_step_entry:
  assumes "map_of (tc_entries c) i = Some e" and "leaves i a" and "tc_step a c = (r, c1)"
  shows "\<exists>e1. map_of (tc_entries c1) i = Some e1 \<and> te_cooldown e1 = te_cooldown e \<and>
    (case fired_at i [(a, r)] of
       [] \<Rightarrow> te_fires e1 = te_fires e \<and> te_last_fire_ms e1 = te_last_fire_ms e
     | t # _ \<Rightarrow> te_enabled e \<and> te_fires e1 = te_fires e + 1 \<and> te_last_fire_ms e1 = Some t \<and>
         (case te_last_fire_ms e of None \<Rightarrow> True | Some p \<Rightarrow> u64_as_i64 (te_cooldown e) \<le> i64_sub t p)) \<and>
    (te_enabled e1 \<longrightarrow> te_enabled e \<or> a = ResumeTrigger i)"
proof (cases a)
  case (TryFire j now)
  show ?thesis
  proof (cases "j = i")
    case True
    obtain o1 e1 where f: "fire_entry e now = (o1, e1)" by (cases "fire_entry e now")
    with assms TryFire True have "r = Some o1" "map_of (tc_entries c1) i = Some e1"
      by (auto simp: tc_try_fire_def split: fire_outcome.splits prod.splits)
    with fire_entry_fields [OF f] TryFire True show ?thesis by (cases o1) auto
  next
    case False
    with assms TryFire show ?thesis
      by (cases r rule: option.exhaust; cases "the r") (auto simp: tc_try_fire_def split: option.splits fire_outcome.splits prod.splits)
  qed
qed (use assms in \<open>auto simp: tc_register_event_def tc_register_cron_def tc_set_rate_limit_def tc_pause_def tc_resume_def
      tc_set_cooldown_def split: option.splits\<close>)

lemma fired_at_Cons: "fired_at i (x # rs) = fired_at i [x] @ fired_at i rs"
  by (cases "(i, x # rs)" rule: fired_at.cases) auto

lemma tc_run_entry:
  assumes "map_of (tc_entries c) i = Some e" and "list_all (leaves i) ops" and "tc_run ops c = (rs, c')"
  shows "\<exists>e'. map_of (tc_entries c') i = Some e' \<and> te_cooldown e' = te_cooldown e \<and>
    te_fires e' = te_fires e + of_nat (length (fired_at i rs)) \<and>
    te_last_fire_ms e' = (if fired_at i rs = [] then te_last_fire_ms e else Some (List.last (fired_at i rs))) \<and>
    spaced (u64_as_i64 (te_cooldown e)) (te_last_fire_ms e) (fired_at i rs)"
  using assms
proof (induction ops arbitrary: c e rs)
  case (Cons a ops)
  obtain r c1 where st: "tc_step a c = (r, c1)" by (cases "tc_step a c")
  obtain rs1 where run: "tc_run ops c1 = (rs1, c')" "rs = (a, r) # rs1" using Cons.prems(3) st by (auto split: prod.splits)
  obtain e1 where e1: "map_of (tc_entries c1) i = Some e1" "te_cooldown e1 = te_cooldown e"
    "case fired_at i [(a, r)] of
       [] \<Rightarrow> te_fires e1 = te_fires e \<and> te_last_fire_ms e1 = te_last_fire_ms e
     | t # _ \<Rightarrow> te_enabled e \<and> te_fires e1 = te_fires e + 1 \<and> te_last_fire_ms e1 = Some t \<and>
         (case te_last_fire_ms e of None \<Rightarrow> True | Some p \<Rightarrow> u64_as_i64 (te_cooldown e) \<le> i64_sub t p)"
    using tc_step_entry [OF Cons.prems(1) _ st] Cons.prems(2) by auto
  have ops: "list_all (leaves i) ops" using Cons.prems(2) by simp
  note ih = Cons.IH [OF e1(1) ops run(1)]
  have len: "length (fired_at i [(a, r)]) \<le> 1" by (cases "(i, [(a, r)])" rule: fired_at.cases) auto
  then show ?case
    using ih e1(2,3) run(2) fired_at_Cons [of i "(a, r)" rs1] by (cases "fired_at i [(a, r)]") auto
qed simp

text \<open>
  (C28) Over any operations that do not register the trigger again, remove it or change its cooldown, a trigger fires at
  times at least its cooldown apart, counted from the last fire before them; its counter grows by exactly the number of
  fires and its last fire is the last of them. Pausing, resuming and rate-limiting it and anything done to other
  triggers is allowed in between; registering it again starts it afresh (\<open>reregistering_unpauses\<close>).
\<close>

theorem control_throttles:
  assumes "map_of (tc_entries c) i = Some e" and "list_all (leaves i) ops" and "tc_run ops c = (rs, c')"
  shows "spaced (u64_as_i64 (te_cooldown e)) (te_last_fire_ms e) (fired_at i rs) \<and>
    (\<exists>st. tc_status c' i = Some st \<and> ts_fires st = te_fires e + of_nat (length (fired_at i rs)) \<and>
       ts_last_fire_ms st = (if fired_at i rs = [] then te_last_fire_ms e else Some (List.last (fired_at i rs))))"
  using tc_run_entry [OF assms] by (auto simp: tc_status_def te_status_def)

lemma demo_control_run:
  "\<exists>rs c'. tc_run [TryFire ''eod'' 0, TryFire ''eod'' 50, PauseTrigger ''eod'', TryFire ''eod'' 200, ResumeTrigger ''eod'', TryFire ''eod'' 300]
     (tc_insert ''eod'' ((te_new ''cron'')\<lparr>te_cooldown := 100\<rparr>) tc_new) = (rs, c') \<and> fired_at ''eod'' rs = [0, 300]"
  by (simp add: tc_new_def tc_insert_def te_new_def tc_try_fire_def fire_entry_def apply_rate_then_record_def tc_observe_def
      tc_pause_def tc_resume_def i64_sub_def u64_as_i64_def Let_def)

theorem control_throttles_witness:
  "\<exists>rs. fired_at ''eod'' rs = [0, 300] \<and> spaced 100 None (fired_at ''eod'' rs)"
proof -
  let ?c = "tc_insert ''eod'' ((te_new ''cron'')\<lparr>te_cooldown := 100\<rparr>) tc_new"
  obtain rs c' where r: "tc_run [TryFire ''eod'' 0, TryFire ''eod'' 50, PauseTrigger ''eod'', TryFire ''eod'' 200, ResumeTrigger ''eod'',
      TryFire ''eod'' 300] ?c = (rs, c')" "fired_at ''eod'' rs = [0, 300]"
    using demo_control_run by blast
  have "map_of (tc_entries ?c) ''eod'' = Some ((te_new ''cron'')\<lparr>te_cooldown := 100\<rparr>)" by simp
  from control_throttles [OF this _ r(1)] r(2) show ?thesis
    by (intro exI [of _ rs]) (simp add: te_new_def u64_as_i64_def)
qed

text \<open>A paused trigger does not fire until it is resumed or registered again.\<close>

theorem paused_never_fires:
  assumes "map_of (tc_entries c) i = Some e" and "\<not> te_enabled e" and "list_all (leaves i) ops" and "ResumeTrigger i \<notin> set ops"
    and "tc_run ops c = (rs, c')"
  shows "fired_at i rs = []"
  using assms
proof (induction ops arbitrary: c e rs)
  case (Cons a ops)
  obtain r c1 where st: "tc_step a c = (r, c1)" by (cases "tc_step a c")
  obtain rs1 where run: "tc_run ops c1 = (rs1, c')" "rs = (a, r) # rs1" using Cons.prems(5) st by (auto split: prod.splits)
  have a: "leaves i a" "a \<noteq> ResumeTrigger i" using Cons.prems(3,4) by auto
  obtain e1 where e1: "map_of (tc_entries c1) i = Some e1" "\<not> te_enabled e1" "fired_at i [(a, r)] = []"
    using tc_step_entry [OF Cons.prems(1) a(1) st] Cons.prems(2) a(2) by (cases "fired_at i [(a, r)]") auto
  have ops: "list_all (leaves i) ops" "ResumeTrigger i \<notin> set ops" using Cons.prems(3,4) by simp_all
  have "fired_at i rs1 = []" by (rule Cons.IH [OF e1(1,2) ops run(1)])
  with e1(3) run(2) fired_at_Cons [of i "(a, r)" rs1] show ?case by simp
qed simp

text \<open>Registering a trigger under an id in use starts it afresh: a pause, a cooldown and a rate limit are lost.\<close>

lemma reregistering_unpauses:
  "tc_status (tc_register_event i (snd (tc_pause i c))) i = Some (te_status i (te_new ''event''))"
  by (simp add: tc_status_def tc_register_event_def)

text \<open>A queued fire stays queued: no operation ever takes one off the queue.\<close>

lemma queue_never_shrinks: "queued_len rl \<le> queued_len (snd (check_and_record now rl))"
  by (simp add: check_and_record_def evict_before_def queued_len_def Let_def split: on_exceed.split)

end
