(* ===== verification/Host_Scheduler.thy ===== *)
theory Host_Scheduler
  imports Core
begin

text \<open>
  The interval scheduler of a deployed host (\<open>crates/host/src/scheduler.rs\<close>): the expressions \<open>every:N\<close> with a unit, the
  table of entries and of due times, and the firing of what is due. The clock is an argument; reading and writing
  the files of a deployment is not modelled.
\<close>

subsection \<open>Expressions\<close>

datatype host_error = SchedulerError string

text \<open>
  Reading a \<open>u64\<close>: a sign \<open>+\<close> is accepted, then at least one digit, and no overflow. A result \<open>None\<close> of
  \<open>parse_expression\<close> is a panic: \<open>split_at\<close> is called at the length minus one, which underflows on an empty rest
  and must not lie inside a character. Multiplications wrap as in a release build.
\<close>

definition is_digit :: "char \<Rightarrow> bool" where
  "is_digit c \<longleftrightarrow> CHR ''0'' \<le> c \<and> c \<le> CHR ''9''"

definition parse_u64 :: "string \<Rightarrow> u64 option" where
  "parse_u64 s =
     (let ds = (case s of c # cs \<Rightarrow> if c = CHR ''+'' then cs else s | [] \<Rightarrow> []) in
      if ds \<noteq> [] \<and> list_all is_digit ds \<and> read_digits ds < 2 ^ 64 then Some (of_nat (read_digits ds)) else None)"

fun unit_secs :: "char \<Rightarrow> u64 option" where
  "unit_secs c =
     (if c = CHR ''s'' then Some 1 else if c = CHR ''m'' then Some 60 else if c = CHR ''h'' then Some (60 * 60)
      else if c = CHR ''d'' then Some (60 * 60 * 24) else None)"

definition quoted :: "string \<Rightarrow> string" where
  "quoted s = [CHR 0x60] @ s @ [CHR 0x60]"

definition parse_expression :: "string \<Rightarrow> (host_error + u64) option" where
  "parse_expression expr =
     (if take 6 expr \<noteq> ''every:''
      then Some (Inl (SchedulerError (''unsupported expression '' @ quoted expr @ '' (expected '' @ quoted ''every:Ns'' @ ''/'' @
             quoted ''m'' @ ''/'' @ quoted ''h'' @ ''/'' @ quoted ''d'' @ '')'')))
      else
        (let rest = drop 6 expr in
         if rest = [] \<or> (128 :: nat) \<le> of_char (List.last rest) then None
         else
           (let num = butlast rest; un = List.last rest in
            case parse_u64 num of
              None \<Rightarrow> Some (Inl (SchedulerError (''invalid number in '' @ quoted expr)))
            | Some n \<Rightarrow>
                (case unit_secs un of
                   None \<Rightarrow> Some (Inl (SchedulerError (''unsupported unit '' @ quoted [un] @ '' in '' @ quoted expr @ '' (use s/m/h/d)'')))
                 | Some f \<Rightarrow>
                     (let secs = n * f in
                      if secs = 0 then Some (Inl (SchedulerError (''interval must be > 0 in '' @ quoted expr)))
                      else Some (Inr secs))))))"

lemma digit_char_is_digit: "d < 10 \<Longrightarrow> is_digit (digit_char d)"
  by (auto simp: is_digit_def digit_char_def less_eq_char_def)

lemma show_nat_digits: "list_all is_digit (show_nat n) \<and> show_nat n \<noteq> []"
proof (induction n rule: show_nat.induct)
  case (1 n)
  then show ?case by (subst (1 2) show_nat.simps) (auto simp: digit_char_is_digit)
qed

lemma parse_u64_show: "n < 2 ^ 64 \<Longrightarrow> parse_u64 (show_nat n) = Some (of_nat n)"
proof -
  assume n: "n < 2 ^ 64"
  obtain c cs where s: "show_nat n = c # cs" using show_nat_digits [of n] by (cases "show_nat n") auto
  then have "is_digit c" using show_nat_digits [of n] by simp
  then have "c \<noteq> CHR ''+''" by (auto simp: is_digit_def less_eq_char_def)
  with n s show ?thesis using show_nat_digits [of n] read_show_nat [of n] by (simp add: parse_u64_def Let_def)
qed

text \<open>
  An interval whose number of seconds is positive and fits 64 bits is read back as that number, in each unit.
\<close>

theorem interval_roundtrip:
  assumes "unit_secs u = Some f" and "0 < n * unat f" and "n * unat f < 2 ^ 64"
  shows "parse_expression (''every:'' @ show_nat n @ [u]) = Some (Inr (of_nat (n * unat f)))"
proof -
  have f: "1 \<le> unat f" and u: "(of_char u :: nat) < 128" using assms(1) by (auto split: if_splits)
  then have "n \<le> n * unat f" by simp
  then have n: "n < 2 ^ 64" using assms(3) by linarith
  have "(of_nat (n * unat f) :: u64) \<noteq> 0"
  proof
    assume "(of_nat (n * unat f) :: u64) = 0"
    then have "unat (of_nat (n * unat f) :: u64) = 0" by simp
    moreover have "unat (of_nat (n * unat f) :: u64) = n * unat f"
      using assms(3) by (simp add: unsigned_of_nat take_bit_nat_eq_self del: of_nat_mult)
    ultimately show False using assms(2) by simp
  qed
  moreover have "(of_nat n :: u64) * f = of_nat (n * unat f)" by simp
  ultimately show ?thesis
    using assms(1) u parse_u64_show [OF n] by (simp add: parse_expression_def Let_def del: of_nat_mult)
qed

text \<open>An interval of more seconds than fit wraps around: about 584 billion years, in minutes, become 44 seconds.\<close>

lemma interval_wraps: "parse_expression ''every:307445734561825861m'' = Some (Inr 44)"
  by (simp add: parse_expression_def parse_u64_def is_digit_def less_eq_char_def Let_def)

lemma empty_interval_panics: "parse_expression ''every:'' = None"
  by (simp add: parse_expression_def)

subsection \<open>The table\<close>

record cron_entry =
  ce_id :: string
  ce_expression :: string
  ce_call :: json
  ce_input :: json
  ce_enabled :: bool

record cron_fire_result =
  cf_cron_id :: string
  cf_fired_at_ms :: u64
  cf_call :: json
  cf_input :: json

record scheduler =
  sc_entries :: "(string \<times> cron_entry) list"
  sc_next_due_ms :: "(string \<times> u64) list"

definition sc_new :: scheduler where
  "sc_new = \<lparr>sc_entries = [], sc_next_due_ms = []\<rparr>"

definition sc_register :: "u64 \<Rightarrow> cron_entry \<Rightarrow> scheduler \<Rightarrow> ((host_error + u64) \<times> scheduler) option" where
  "sc_register now entry s =
     (case parse_expression (ce_expression entry) of
        None \<Rightarrow> None
      | Some (Inl e) \<Rightarrow> Some (Inl e, s)
      | Some (Inr secs) \<Rightarrow>
          (let nxt = now + secs * 1000 in
           Some (Inr nxt, s\<lparr>sc_entries := AList.update (ce_id entry) entry (sc_entries s),
                            sc_next_due_ms := AList.update (ce_id entry) nxt (sc_next_due_ms s)\<rparr>)))"

definition sc_list :: "scheduler \<Rightarrow> cron_entry list" where
  "sc_list s = map snd (sc_entries s)"

definition sc_remove :: "string \<Rightarrow> scheduler \<Rightarrow> bool \<times> scheduler" where
  "sc_remove i s =
     (map_of (sc_entries s) i \<noteq> None,
      s\<lparr>sc_entries := AList.delete i (sc_entries s), sc_next_due_ms := AList.delete i (sc_next_due_ms s)\<rparr>)"

text \<open>The expression of a registered entry has been parsed before, so the default of 60 seconds is never taken.\<close>

definition entry_secs :: "cron_entry \<Rightarrow> u64" where
  "entry_secs e = (case parse_expression (ce_expression e) of Some (Inr secs) \<Rightarrow> secs | _ \<Rightarrow> 60)"

fun fire_ids :: "u64 \<Rightarrow> string list \<Rightarrow> scheduler \<Rightarrow> cron_fire_result list \<times> scheduler" where
  "fire_ids now [] s = ([], s)"
| "fire_ids now (i # ids) s =
     (case map_of (sc_entries s) i of
        None \<Rightarrow> fire_ids now ids s
      | Some e \<Rightarrow>
          if \<not> ce_enabled e then fire_ids now ids s
          else (let s1 = s\<lparr>sc_next_due_ms := AList.update i (now + entry_secs e * 1000) (sc_next_due_ms s)\<rparr>;
                    r = \<lparr>cf_cron_id = i, cf_fired_at_ms = now, cf_call = ce_call e, cf_input = ce_input e\<rparr>
                in (case fire_ids now ids s1 of (rs, s2) \<Rightarrow> (r # rs, s2))))"

definition fire_due :: "u64 \<Rightarrow> scheduler \<Rightarrow> cron_fire_result list \<times> scheduler" where
  "fire_due now s = fire_ids now (map fst (filter (\<lambda>(i, due). due \<le> now) (sc_next_due_ms s))) s"

definition sc_wf :: "scheduler \<Rightarrow> bool" where
  "sc_wf s \<longleftrightarrow> distinct (map fst (sc_entries s)) \<and> distinct (map fst (sc_next_due_ms s)) \<and>
     (\<forall>i. map_of (sc_entries s) i = None \<longleftrightarrow> map_of (sc_next_due_ms s) i = None) \<and>
     (\<forall>i e. map_of (sc_entries s) i = Some e \<longrightarrow> ce_id e = i \<and> (\<exists>secs. parse_expression (ce_expression e) = Some (Inr secs)))"

lemma sc_wf_new: "sc_wf sc_new"
  by (simp add: sc_wf_def sc_new_def)

lemma sc_wf_register: "sc_wf s \<Longrightarrow> sc_register now e s = Some (r, s') \<Longrightarrow> sc_wf s'"
  by (auto simp: sc_wf_def sc_register_def Let_def distinct_update update_conv'
      simp del: map_of_eq_Some_iff map_of_eq_None_iff not_None_eq split: option.splits sum.splits if_splits)

lemma sc_wf_remove: "sc_wf s \<Longrightarrow> sc_wf (snd (sc_remove i s))"
  by (auto simp: sc_wf_def sc_remove_def distinct_delete delete_conv'
      simp del: map_of_eq_Some_iff map_of_eq_None_iff not_None_eq split: if_splits)

lemma fire_ids_spec:
  assumes "distinct ids"
  shows "sc_entries (snd (fire_ids now ids s)) = sc_entries s \<and>
    map cf_cron_id (fst (fire_ids now ids s)) = filter (\<lambda>i. case map_of (sc_entries s) i of None \<Rightarrow> False | Some e \<Rightarrow> ce_enabled e) ids \<and>
    list_all (\<lambda>r. cf_fired_at_ms r = now \<and> (case map_of (sc_entries s) (cf_cron_id r) of None \<Rightarrow> False
      | Some e \<Rightarrow> cf_call r = ce_call e \<and> cf_input r = ce_input e)) (fst (fire_ids now ids s)) \<and>
    map_of (sc_next_due_ms (snd (fire_ids now ids s))) =
      (\<lambda>i. case map_of (sc_entries s) i of
         None \<Rightarrow> map_of (sc_next_due_ms s) i
       | Some e \<Rightarrow> if i \<in> set ids \<and> ce_enabled e then Some (now + entry_secs e * 1000) else map_of (sc_next_due_ms s) i)"
  using assms
proof (induction ids arbitrary: s)
  case Nil
  then show ?case by (auto simp: fun_eq_iff split: option.splits)
next
  case (Cons i ids)
  show ?case
  proof (cases "map_of (sc_entries s) i")
    case None
    with Cons.IH [of s] Cons.prems show ?thesis by (auto simp: fun_eq_iff split: option.splits)
  next
    case (Some e)
    show ?thesis
    proof (cases "ce_enabled e")
      case False
      with Some Cons.IH [of s] Cons.prems show ?thesis by (auto simp: fun_eq_iff split: option.splits)
    next
      case True
      let ?s1 = "s\<lparr>sc_next_due_ms := AList.update i (now + entry_secs e * 1000) (sc_next_due_ms s)\<rparr>"
      obtain rs s2 where run: "fire_ids now ids ?s1 = (rs, s2)" by (cases "fire_ids now ids ?s1")
      with Cons.IH [of ?s1] Cons.prems Some True show ?thesis
        by (auto simp: fun_eq_iff update_conv' Let_def split: option.splits)
    qed
  qed
qed

text \<open>
  A tick fires exactly the enabled entries that are due, each once, with the call and the input they were registered
  with, and moves exactly their due times to one interval after the tick.
\<close>

lemma tick_fires_due:
  assumes "sc_wf s"
  shows "set (map cf_cron_id (fst (fire_due now s))) =
      {i. \<exists>e d. map_of (sc_entries s) i = Some e \<and> ce_enabled e \<and> map_of (sc_next_due_ms s) i = Some d \<and> d \<le> now} \<and>
    distinct (map cf_cron_id (fst (fire_due now s))) \<and>
    sc_entries (snd (fire_due now s)) = sc_entries s \<and>
    list_all (\<lambda>r. \<exists>e. map_of (sc_entries s) (cf_cron_id r) = Some e \<and> cf_call r = ce_call e \<and> cf_input r = ce_input e \<and> cf_fired_at_ms r = now)
      (fst (fire_due now s)) \<and>
    map_of (sc_next_due_ms (snd (fire_due now s))) =
      (\<lambda>i. if i \<in> set (map cf_cron_id (fst (fire_due now s))) then map_option (\<lambda>e. now + entry_secs e * 1000) (map_of (sc_entries s) i)
        else map_of (sc_next_due_ms s) i)"
proof -
  let ?ids = "map fst (filter (\<lambda>(i, due). due \<le> now) (sc_next_due_ms s))"
  have dist: "distinct (map fst (sc_next_due_ms s))" using assms by (simp add: sc_wf_def)
  then have "distinct ?ids" by (rule distinct_map_filter)
  note spec = fire_ids_spec [OF this, of now s]
  have due: "i \<in> set ?ids \<longleftrightarrow> (\<exists>d. map_of (sc_next_due_ms s) i = Some d \<and> d \<le> now)" for i
    using dist by (force simp: image_iff)
  have fired: "set (map cf_cron_id (fst (fire_due now s))) =
      {i. \<exists>e d. map_of (sc_entries s) i = Some e \<and> ce_enabled e \<and> map_of (sc_next_due_ms s) i = Some d \<and> d \<le> now}"
    unfolding fire_due_def conjunct1 [OF conjunct2 [OF spec]] using due by (auto split: option.splits)
  moreover have "distinct (map cf_cron_id (fst (fire_due now s)))"
    unfolding fire_due_def conjunct1 [OF conjunct2 [OF spec]] using \<open>distinct ?ids\<close> by simp
  moreover have "list_all (\<lambda>r. \<exists>e. map_of (sc_entries s) (cf_cron_id r) = Some e \<and> cf_call r = ce_call e \<and> cf_input r = ce_input e \<and> cf_fired_at_ms r = now)
      (fst (fire_due now s))"
    using spec unfolding fire_due_def by (auto simp: list_all_iff split: option.splits)
  moreover have "map_of (sc_next_due_ms (snd (fire_due now s))) =
      (\<lambda>i. if i \<in> set (map cf_cron_id (fst (fire_due now s))) then map_option (\<lambda>e. now + entry_secs e * 1000) (map_of (sc_entries s) i)
        else map_of (sc_next_due_ms s) i)"
    unfolding fired using spec due unfolding fire_due_def by (auto simp: fun_eq_iff split: option.splits)
  moreover have "sc_entries (snd (fire_due now s)) = sc_entries s" using spec by (simp add: fire_due_def)
  ultimately show ?thesis by blast
qed

lemma fire_ids_distinct:
  "distinct (map fst (sc_next_due_ms s)) \<Longrightarrow> distinct (map fst (sc_next_due_ms (snd (fire_ids now ids s))))"
proof (induction ids arbitrary: s)
  case (Cons i ids)
  let ?s1 = "\<lambda>e. s\<lparr>sc_next_due_ms := AList.update i (now + entry_secs e * 1000) (sc_next_due_ms s)\<rparr>"
  have "distinct (map fst (sc_next_due_ms (?s1 e)))" for e using Cons.prems by (simp add: distinct_update)
  then have "distinct (map fst (sc_next_due_ms (snd (fire_ids now ids (?s1 e)))))" for e by (rule Cons.IH)
  then show ?case using Cons.IH [OF Cons.prems] by (simp add: Let_def split_beta split: option.split)
qed simp

lemma sc_wf_tick:
  assumes "sc_wf s"
  shows "sc_wf (snd (fire_due now s))"
proof -
  have "distinct (map fst (sc_next_due_ms (snd (fire_due now s))))"
    using assms by (simp add: fire_due_def sc_wf_def fire_ids_distinct)
  moreover note t = tick_fires_due [OF assms, of now]
  ultimately show ?thesis
    using assms unfolding sc_wf_def by (auto simp del: map_of_eq_Some_iff map_of_eq_None_iff split: if_splits)
qed

fun run_ticks :: "u64 list \<Rightarrow> scheduler \<Rightarrow> cron_fire_result list \<times> scheduler" where
  "run_ticks [] s = ([], s)"
| "run_ticks (t # ts) s = (case fire_due t s of (rs, s1) \<Rightarrow> (case run_ticks ts s1 of (rs', s2) \<Rightarrow> (rs @ rs', s2)))"

definition fire_times :: "string \<Rightarrow> cron_fire_result list \<Rightarrow> nat list" where
  "fire_times i rs = map (\<lambda>r. unat (cf_fired_at_ms r)) (filter (\<lambda>r. cf_cron_id r = i) rs)"

fun interval_spec :: "nat \<Rightarrow> nat \<Rightarrow> nat list \<Rightarrow> nat list" where
  "interval_spec gap due [] = []"
| "interval_spec gap due (t # ts) = (if due \<le> t then t # interval_spec gap (t + gap) ts else interval_spec gap due ts)"

lemma fire_times_append: "fire_times i (xs @ ys) = fire_times i xs @ fire_times i ys"
  by (simp add: fire_times_def)

lemma tick_fire_times:
  assumes "sc_wf s" and "map_of (sc_entries s) i = Some e" and "ce_enabled e" and "map_of (sc_next_due_ms s) i = Some d"
  shows "fire_times i (fst (fire_due now s)) = (if d \<le> now then [unat now] else [])"
proof -
  note t = tick_fires_due [OF assms(1), of now]
  let ?rs = "fst (fire_due now s)"
  have "i \<in> set (map cf_cron_id ?rs) \<longleftrightarrow> d \<le> now" using t assms(2-4) by auto
  moreover have "length (filter (\<lambda>r. cf_cron_id r = i) ?rs) = (if i \<in> set (map cf_cron_id ?rs) then 1 else 0)"
  proof -
    have "distinct (map cf_cron_id rs) \<Longrightarrow> length (filter (\<lambda>r. cf_cron_id r = i) rs) = (if i \<in> set (map cf_cron_id rs) then 1 else 0)" for rs
      by (induction rs) (auto simp: filter_empty_conv)
    with t show ?thesis by blast
  qed
  moreover have "list_all (\<lambda>r. cf_fired_at_ms r = now) ?rs" using t by (auto simp: list_all_iff)
  ultimately show ?thesis
    by (cases "filter (\<lambda>r. cf_cron_id r = i) ?rs") (auto simp: fire_times_def list_all_iff filter_eq_Cons_iff split: if_splits)
qed

text \<open>
  An enabled entry fires at the first tick at or after its due time, and then at the first tick at least one
  interval after its previous fire, however the ticks come.
\<close>

theorem intervals_respected:
  assumes "sc_wf s" and "map_of (sc_entries s) i = Some e" and "ce_enabled e" and "map_of (sc_next_due_ms s) i = Some d"
    and "list_all (\<lambda>t. unat t + unat (entry_secs e) * 1000 < 2 ^ 64) ticks"
  shows "fire_times i (fst (run_ticks ticks s)) = interval_spec (unat (entry_secs e) * 1000) (unat d) (map unat ticks)"
  using assms
proof (induction ticks arbitrary: s d)
  case Nil
  then show ?case by (simp add: fire_times_def)
next
  case (Cons t ts)
  let ?s1 = "snd (fire_due t s)"
  let ?gap = "unat (entry_secs e) * 1000"
  note spec = tick_fires_due [OF Cons.prems(1), of t]
  have s1: "sc_wf ?s1" "map_of (sc_entries ?s1) i = Some e" using Cons.prems(1,2) spec sc_wf_tick by auto
  have no_wrap: "unat (t + entry_secs e * 1000) = unat t + ?gap"
    using Cons.prems(5) by (simp add: unat_word_ariths)
  have "i \<in> set (map cf_cron_id (fst (fire_due t s))) \<longleftrightarrow> d \<le> t" using spec Cons.prems(2-4) by auto
  then have d1: "map_of (sc_next_due_ms ?s1) i = Some (if d \<le> t then t + entry_secs e * 1000 else d)"
    using spec Cons.prems(2,4) by auto
  have "fire_times i (fst (run_ticks ts ?s1)) =
      interval_spec ?gap (unat (if d \<le> t then t + entry_secs e * 1000 else d)) (map unat ts)"
    using Cons.IH [OF s1 Cons.prems(3) d1] Cons.prems(5) by simp
  then show ?case
    using tick_fire_times [OF Cons.prems(1-4), of t] no_wrap
    by (simp add: split_beta fire_times_append word_le_nat_alt)
qed

definition demo_entry :: cron_entry where
  "demo_entry = \<lparr>ce_id = ''beat'', ce_expression = ''every:5s'', ce_call = Null, ce_input = Null, ce_enabled = True\<rparr>"

definition demo_scheduler :: scheduler where
  "demo_scheduler = \<lparr>sc_entries = [(''beat'', demo_entry)], sc_next_due_ms = [(''beat'', 5000)]\<rparr>"

lemma demo_parse: "parse_expression ''every:5s'' = Some (Inr 5)"
  by (simp add: parse_expression_def parse_u64_def is_digit_def less_eq_char_def Let_def)

lemma demo_registered: "sc_register 0 demo_entry sc_new = Some (Inr 5000, demo_scheduler)"
  by (simp add: sc_register_def demo_entry_def demo_parse sc_new_def demo_scheduler_def)

theorem intervals_respected_witness:
  "fire_times ''beat'' (fst (run_ticks [3000, 5000, 6000, 12000] demo_scheduler)) = [5000, 12000]"
proof -
  have secs: "entry_secs demo_entry = 5" by (simp add: entry_secs_def demo_entry_def demo_parse)
  have e: "map_of (sc_entries demo_scheduler) ''beat'' = Some demo_entry" "ce_enabled demo_entry"
    "map_of (sc_next_due_ms demo_scheduler) ''beat'' = Some 5000"
    by (simp_all add: demo_scheduler_def demo_entry_def)
  have "list_all (\<lambda>t. unat t + unat (entry_secs demo_entry) * 1000 < 2 ^ 64) [3000, 5000, 6000, 12000 :: u64]" by (simp add: secs)
  from intervals_respected [OF sc_wf_register [OF sc_wf_new demo_registered] e this] show ?thesis by (simp add: secs)
qed

end
