(* ===== verification/Channels.thy ===== *)
theory Channels
  imports Callable Strings
begin

text \<open>
  Messaging channels (\<open>crates/channel-core\<close>): message contents and the capabilities they need, threads between
  a peer and a target with their bounded history, the interface of the store as a locale, and the
  in-memory store that implements it.
\<close>

subsection \<open>Errors, identifiers, capabilities (error.rs, ids.rs, spec.rs)\<close>

datatype channel_error =
    UnknownChannel string
  | UnknownThread string
  | DuplicateChannel string
  | Provider string
  | WebhookVerify string
  | WebhookParse string
  | CapabilityDenied string
  | UnsupportedOp string
  | Config string
  | StoreErr string
  | Transport string
  | SerdeErr string
  | AgentErr agent_error
  | InternalErr string

fun channel_error_text :: "channel_error \<Rightarrow> string" where
  "channel_error_text (UnknownChannel m) = ''unknown channel: '' @ m"
| "channel_error_text (UnknownThread m) = ''unknown thread: '' @ m"
| "channel_error_text (DuplicateChannel m) = ''duplicate channel: '' @ m"
| "channel_error_text (Provider m) = ''provider error: '' @ m"
| "channel_error_text (WebhookVerify m) = ''webhook verification failed: '' @ m"
| "channel_error_text (WebhookParse m) = ''webhook parse failed: '' @ m"
| "channel_error_text (CapabilityDenied m) = ''capability disabled on this channel: '' @ m"
| "channel_error_text (UnsupportedOp m) = ''unsupported operation for this provider: '' @ m"
| "channel_error_text (Config m) = ''config error: '' @ m"
| "channel_error_text (StoreErr m) = ''store error: '' @ m"
| "channel_error_text (Transport m) = ''transport error: '' @ m"
| "channel_error_text (SerdeErr m) = ''serialization error: '' @ m"
| "channel_error_text (AgentErr e) = error_text e"
| "channel_error_text (InternalErr m) = ''internal: '' @ m"

fun agent_error_of :: "channel_error \<Rightarrow> agent_error" where
  "agent_error_of (AgentErr e) = e"
| "agent_error_of other = Internal (channel_error_text other)"

type_synonym 'a ch_result = "channel_error + 'a"

definition for_peer :: "string \<Rightarrow> string \<Rightarrow> string" where
  "for_peer channel peer = channel @ ''#'' @ peer"

datatype provider_kind = WhatsApp | Signal | Discord | MemoryKind | Custom string

record capabilities =
  cap_text :: bool
  cap_attachments :: bool
  cap_voice :: bool
  cap_reactions :: bool
  cap_typing :: bool
  cap_threads_native :: bool

definition text_only :: capabilities where
  "text_only = \<lparr>cap_text = True, cap_attachments = False, cap_voice = False, cap_reactions = False, cap_typing = False,
     cap_threads_native = False\<rparr>"

definition full_capabilities :: capabilities where
  "full_capabilities = \<lparr>cap_text = True, cap_attachments = True, cap_voice = True, cap_reactions = True, cap_typing = True,
     cap_threads_native = True\<rparr>"

record channel_spec =
  sp_id :: string
  sp_kind :: provider_kind
  sp_config :: json
  sp_capabilities :: capabilities
  sp_description :: "string option"

subsection \<open>Contents (content.rs)\<close>

datatype channel_content =
    Text string
  | Attachment string string "string option"
  | Mixed "channel_content list"

fun as_text :: "channel_content \<Rightarrow> string" where
  "as_text (Text t) = t"
| "as_text (Attachment media_ref mime caption) = (case caption of None \<Rightarrow> [] | Some c \<Rightarrow> c)"
| "as_text (Mixed parts) = join_with [lf] (filter (\<lambda>s. s \<noteq> []) (map as_text parts))"

text \<open>The length test counts bytes, the cut counts characters; with one byte per character they agree.\<close>

definition summary :: "channel_content \<Rightarrow> string" where
  "summary c =
     (let t = as_text c in
      if t = [] then
        (case c of Attachment media_ref mime caption \<Rightarrow> ''<attachment: '' @ mime @ ''>'' | Mixed ps \<Rightarrow> ''<mixed>'' | Text s \<Rightarrow> [])
      else if length t \<le> 80 then t
      else take 77 t @ ''...'')"

fun check_capabilities :: "channel_content \<Rightarrow> capabilities \<Rightarrow> unit ch_result"
  and check_parts :: "channel_content list \<Rightarrow> capabilities \<Rightarrow> unit ch_result" where
  "check_capabilities (Text t) caps = (if cap_text caps then Inr () else Inl (CapabilityDenied ''text''))"
| "check_capabilities (Attachment r m c) caps =
     (if cap_attachments caps then Inr () else Inl (CapabilityDenied ''attachments''))"
| "check_capabilities (Mixed parts) caps = check_parts parts caps"
| "check_parts [] caps = Inr ()"
| "check_parts (p # ps) caps = try_then (check_capabilities p caps) (\<lambda>_. check_parts ps caps)"

text \<open>What a content needs, read off its leaves.\<close>

fun leaves_of :: "channel_content \<Rightarrow> channel_content list" where
  "leaves_of (Text t) = [Text t]"
| "leaves_of (Attachment r m c) = [Attachment r m c]"
| "leaves_of (Mixed parts) = concat (map leaves_of parts)"

fun leaf_allowed :: "capabilities \<Rightarrow> channel_content \<Rightarrow> bool" where
  "leaf_allowed caps (Text t) = cap_text caps"
| "leaf_allowed caps _ = cap_attachments caps"

lemma check_capabilities_ok:
  "check_capabilities c caps = Inr () \<longleftrightarrow> list_all (leaf_allowed caps) (leaves_of c)"
  "check_parts ps caps = Inr () \<longleftrightarrow> list_all (leaf_allowed caps) (concat (map leaves_of ps))"
  by (induction c caps and ps caps rule: check_capabilities_check_parts.induct) (auto simp: try_then_eq_Inr)

lemma summary_short: "length (summary c) \<le> 80 \<or> as_text c = []"
  by (auto simp: summary_def Let_def)

datatype direction = Inbound | Outbound

record inbound_message =
  ib_channel :: string
  ib_thread :: string
  ib_peer :: string
  ib_provider_msg_id :: string
  ib_content :: channel_content

record outbound_message =
  ob_channel :: string
  ob_thread :: string
  ob_peer :: string
  ob_content :: channel_content
  ob_reply_to :: "string option"
  ob_idempotency_key :: string

record message_record =
  mr_thread :: string
  mr_id :: string
  mr_direction :: direction
  mr_content :: channel_content
  mr_provider_msg_id :: "string option"
  mr_idempotency_key :: "string option"

subsection \<open>Threads (thread.rs, target.rs)\<close>

record chat_message =
  cm_role :: message_role
  cm_content :: string

record thread_policy =
  tp_history_cap :: nat
  tp_auto_open :: bool

definition default_policy :: thread_policy where
  "default_policy = \<lparr>tp_history_cap = 200, tp_auto_open = False\<rparr>"

record 'w input_adapter =
  ad_apply :: "inbound_message \<Rightarrow> 'w \<Rightarrow> unit ch_result \<times> 'w"
  ad_one_shot :: bool
  ad_reply_from_result :: "json \<Rightarrow> channel_content option"

text \<open>The reply an adapter takes from a result unless it says otherwise.\<close>

definition default_reply :: "json \<Rightarrow> channel_content option" where
  "default_reply v =
     (let other = (case as_str v of Some s \<Rightarrow> if s \<noteq> [] then Some (Text s) else None | None \<Rightarrow> None) in
      case get_str v ''text'' of
        Some s \<Rightarrow> if s \<noteq> [] then Some (Text s) else other
      | None \<Rightarrow> other)"

datatype ('w, 'x) thread_target =
    CallableTarget "('w, 'x) callable"
  | HarnessTarget "('w, 'x) callable" "'w input_adapter"

fun target_kind :: "('w, 'x) thread_target \<Rightarrow> string" where
  "target_kind (CallableTarget c) = ''callable''"
| "target_kind (HarnessTarget c a) = ''harness''"

record ('w, 'x) thread =
  th_id :: string
  th_channel :: string
  th_peer :: string
  th_target :: "('w, 'x) thread_target"
  th_history :: "chat_message list"
  th_policy :: thread_policy

definition thread_new :: "string \<Rightarrow> string \<Rightarrow> ('w, 'x) thread_target \<Rightarrow> ('w, 'x) thread" where
  "thread_new channel peer target =
     \<lparr>th_id = for_peer channel peer, th_channel = channel, th_peer = peer, th_target = target, th_history = [],
      th_policy = default_policy\<rparr>"

definition thread_push :: "message_role \<Rightarrow> string \<Rightarrow> ('w, 'x) thread \<Rightarrow> ('w, 'x) thread" where
  "thread_push role text t =
     (let h = th_history t @ [\<lparr>cm_role = role, cm_content = text\<rparr>]; cap = tp_history_cap (th_policy t) in
      t\<lparr>th_history := (if 0 < cap \<and> cap < length h then drop (length h - cap) h else h)\<rparr>)"

definition push_user :: "channel_content \<Rightarrow> ('w, 'x) thread \<Rightarrow> ('w, 'x) thread" where
  "push_user c t = thread_push RoleUser (as_text c) t"

definition push_assistant :: "channel_content \<Rightarrow> ('w, 'x) thread \<Rightarrow> ('w, 'x) thread" where
  "push_assistant c t = thread_push RoleAssistant (as_text c) t"

lemma thread_push_fields [simp]:
  "th_id (thread_push r s t) = th_id t" "th_channel (thread_push r s t) = th_channel t" "th_peer (thread_push r s t) = th_peer t"
  "th_target (thread_push r s t) = th_target t" "th_policy (thread_push r s t) = th_policy t"
  by (simp_all add: thread_push_def Let_def)

text \<open>The history is the last messages pushed, up to the cap; a cap of zero keeps everything.\<close>

fun keep_last :: "nat \<Rightarrow> 'a list \<Rightarrow> 'a list" where
  "keep_last cap xs = (if cap = 0 then xs else drop (length xs - cap) xs)"

lemma thread_push_history:
  "th_history (thread_push r s t) = keep_last (tp_history_cap (th_policy t)) (th_history t @ [\<lparr>cm_role = r, cm_content = s\<rparr>])"
  by (simp add: thread_push_def Let_def)

lemma keep_last_snoc: "keep_last n (keep_last n xs @ [x]) = keep_last n (xs @ [x])"
  by (cases "length xs < n") (auto simp: Suc_diff_le)

lemma fold_push_policy: "th_policy (fold (\<lambda>(r, s). thread_push r s) ms t) = th_policy t"
  by (induction ms arbitrary: t) (auto split: prod.splits)

theorem history_keeps_last:
  assumes "th_history t = []"
  shows "th_history (fold (\<lambda>(r, s). thread_push r s) ms t) =
    keep_last (tp_history_cap (th_policy t)) (map (\<lambda>(r, s). \<lparr>cm_role = r, cm_content = s\<rparr>) ms)"
proof (induction ms rule: rev_induct)
  case (snoc m ms)
  then show ?case
    by (cases m) (simp add: thread_push_history fold_push_policy keep_last_snoc del: keep_last.simps)
qed (simp add: assms)

text \<open>
  A thread called directly forwards an envelope with the text, the identifiers and the length of the history.
  \<open>print\<close> is the JSON printer.
\<close>

fun extract_user_text :: "(json \<Rightarrow> string) \<Rightarrow> json \<Rightarrow> string" where
  "extract_user_text print (String s) = s"
| "extract_user_text print (Object m) = (case get_str (Object m) ''user'' of Some s \<Rightarrow> s | None \<Rightarrow> [])"
| "extract_user_text print other = print other"

definition thread_call :: "(json \<Rightarrow> string) \<Rightarrow> ('w, 'x) thread \<Rightarrow> json \<Rightarrow> 'x call_ctx \<Rightarrow> 'w \<Rightarrow> json result \<times> 'w" where
  "thread_call print t input ctx w =
     (let envelope = obj_of
        [(''user'', String (extract_user_text print input)),
         (''thread'', obj_of [(''id'', String (th_id t)), (''history_len'', Number (IntN (int (length (th_history t)))))]),
         (''channel'', obj_of [(''id'', String (th_channel t)), (''peer'', String (th_peer t))])]
      in case th_target t of
           CallableTarget c \<Rightarrow> c_call c envelope ctx w
         | HarnessTarget c a \<Rightarrow> c_call c envelope ctx w)"

text \<open>Identifiers join channel and peer with a hash sign, so they tell apart only channels without one.\<close>

lemma for_peer_inj:
  assumes "CHR ''#'' \<notin> set c" and "CHR ''#'' \<notin> set c'" and "for_peer c p = for_peer c' p'"
  shows "c = c' \<and> p = p'"
proof -
  have "takeWhile (\<lambda>x. x \<noteq> CHR ''#'') (for_peer a q) = a" if "CHR ''#'' \<notin> set a" for a q
    using that by (simp add: for_peer_def takeWhile_append)
  with assms have "c = c'" by metis
  with assms(3) show ?thesis by (simp add: for_peer_def)
qed

lemma thread_ids_collide: "for_peer ''desk#1'' ''ann'' = for_peer ''desk'' ''1#ann''"
  by (simp add: for_peer_def)

subsection \<open>The store (store.rs)\<close>

record thread_summary =
  tsm_id :: string
  tsm_channel :: string
  tsm_peer :: string
  tsm_target_kind :: string
  tsm_history_len :: nat

definition summary_of :: "('w, 'x) thread \<Rightarrow> thread_summary" where
  "summary_of t =
     \<lparr>tsm_id = th_id t, tsm_channel = th_channel t, tsm_peer = th_peer t, tsm_target_kind = target_kind (th_target t),
      tsm_history_len = length (th_history t)\<rparr>"

record ('s, 'w, 'x) channel_store =
  cs_upsert_channel :: "channel_spec \<Rightarrow> 's \<Rightarrow> unit ch_result \<times> 's"
  cs_get_channel :: "string \<Rightarrow> 's \<Rightarrow> channel_spec option ch_result"
  cs_list_channels :: "'s \<Rightarrow> channel_spec list ch_result"
  cs_delete_channel :: "string \<Rightarrow> 's \<Rightarrow> unit ch_result \<times> 's"
  cs_upsert_thread :: "('w, 'x) thread \<Rightarrow> 's \<Rightarrow> unit ch_result \<times> 's"
  cs_get_thread :: "string \<Rightarrow> 's \<Rightarrow> ('w, 'x) thread option ch_result"
  cs_list_threads :: "string \<Rightarrow> 's \<Rightarrow> thread_summary list ch_result"
  cs_delete_thread :: "string \<Rightarrow> 's \<Rightarrow> unit ch_result \<times> 's"
  cs_append_message :: "message_record \<Rightarrow> 's \<Rightarrow> unit ch_result \<times> 's"
  cs_list_messages :: "string \<Rightarrow> nat \<Rightarrow> 's \<Rightarrow> message_record list ch_result"
  cs_lookup_outbound :: "string \<Rightarrow> string \<Rightarrow> 's \<Rightarrow> string option ch_result"
  cs_has_inbound :: "string \<Rightarrow> string \<Rightarrow> 's \<Rightarrow> bool ch_result"

text \<open>
  What the harness relies on: the store knows the channel of every thread, the inbound messages it has seen by channel
  and provider id, and the provider id of every outbound record by thread and idempotency key. Appending
  an inbound record marks it as seen for the channel of its thread, nothing but deleting a channel forgets that, and a
  record with a key is found under the key until its thread is deleted. An operation that fails changes none of it.
\<close>

definition record_ok :: "message_record \<Rightarrow> bool" where
  "record_ok r \<longleftrightarrow> mr_idempotency_key r = None \<or> mr_provider_msg_id r \<noteq> None"

locale message_log =
  fixes st :: "('s, 'w, 'x) channel_store"
    and good :: "'s \<Rightarrow> bool"
    and owner :: "'s \<Rightarrow> string \<Rightarrow> string option"
    and seen :: "'s \<Rightarrow> (string \<times> string) set"
    and sent :: "'s \<Rightarrow> string \<Rightarrow> string \<Rightarrow> string option"
  assumes has_inbound: "good s \<Longrightarrow> cs_has_inbound st c p s = Inr b \<Longrightarrow> b \<longleftrightarrow> (c, p) \<in> seen s"
    and lookup: "good s \<Longrightarrow> cs_lookup_outbound st i k s = Inr q \<Longrightarrow> q = sent s i k"
    and upsert_channel: "good s \<Longrightarrow> cs_upsert_channel st spec s = (r, s') \<Longrightarrow>
      good s' \<and> owner s' = owner s \<and> seen s' = seen s \<and> sent s' = sent s"
    and upsert_thread: "good s \<Longrightarrow> cs_upsert_thread st t s = (r, s') \<Longrightarrow>
      good s' \<and> owner s' = (if is_ok r then (owner s)(th_id t := Some (th_channel t)) else owner s) \<and> seen s' = seen s \<and> sent s' = sent s"
    and delete_thread: "good s \<Longrightarrow> cs_delete_thread st i s = (r, s') \<Longrightarrow>
      good s' \<and> owner s' = (if is_ok r then (owner s)(i := None) else owner s) \<and> seen s' = seen s \<and>
      sent s' = (if is_ok r then (sent s)(i := (\<lambda>_. None)) else sent s)"
    and append_message: "good s \<Longrightarrow> record_ok rec \<Longrightarrow> cs_append_message st rec s = (r, s') \<Longrightarrow>
      good s' \<and> owner s' = owner s \<and>
      seen s' = seen s \<union> (case (mr_provider_msg_id rec, mr_direction rec, owner s (mr_thread rec)) of
          (Some p, Inbound, Some c) \<Rightarrow> if is_ok r then {(c, p)} else {} | _ \<Rightarrow> {}) \<and>
      sent s' = (case mr_idempotency_key rec of
          None \<Rightarrow> sent s
        | Some k \<Rightarrow> if is_ok r \<and> sent s (mr_thread rec) k = None
            then (sent s)(mr_thread rec := (sent s (mr_thread rec))(k := mr_provider_msg_id rec)) else sent s)"

subsection \<open>The in-memory store (store.rs)\<close>

record ('w, 'x) im_channels =
  im_channel_specs :: "(string \<times> channel_spec) list"
  im_threads :: "(string \<times> ('w, 'x) thread) list"
  im_messages :: "string \<rightharpoonup> message_record list"
  im_inbound_seen :: "(string \<times> string) set"

definition im_channels_new :: "('w, 'x) im_channels" where
  "im_channels_new = \<lparr>im_channel_specs = [], im_threads = [], im_messages = Map.empty, im_inbound_seen = {}\<rparr>"

definition im_upsert_channel :: "channel_spec \<Rightarrow> ('w, 'x) im_channels \<Rightarrow> unit ch_result \<times> ('w, 'x) im_channels" where
  "im_upsert_channel spec s = (Inr (), s\<lparr>im_channel_specs := AList.update (sp_id spec) spec (im_channel_specs s)\<rparr>)"

definition im_get_channel :: "string \<Rightarrow> ('w, 'x) im_channels \<Rightarrow> channel_spec option ch_result" where
  "im_get_channel i s = Inr (map_of (im_channel_specs s) i)"

definition im_list_channels :: "('w, 'x) im_channels \<Rightarrow> channel_spec list ch_result" where
  "im_list_channels s = Inr (sort_key sp_id (map snd (im_channel_specs s)))"

definition im_delete_channel :: "string \<Rightarrow> ('w, 'x) im_channels \<Rightarrow> unit ch_result \<times> ('w, 'x) im_channels" where
  "im_delete_channel i s =
     (let drop_threads = map fst (filter (\<lambda>(tid, t). th_channel t = i) (im_threads s)) in
      (Inr (), s\<lparr>im_channel_specs := AList.delete i (im_channel_specs s),
               im_threads := filter (\<lambda>(tid, t). tid \<notin> set drop_threads) (im_threads s),
               im_messages := (\<lambda>tid. if tid \<in> set drop_threads then None else im_messages s tid),
               im_inbound_seen := {x \<in> im_inbound_seen s. fst x \<noteq> i}\<rparr>))"

definition im_upsert_thread :: "('w, 'x) thread \<Rightarrow> ('w, 'x) im_channels \<Rightarrow> unit ch_result \<times> ('w, 'x) im_channels" where
  "im_upsert_thread t s = (Inr (), s\<lparr>im_threads := AList.update (th_id t) t (im_threads s)\<rparr>)"

definition im_get_thread :: "string \<Rightarrow> ('w, 'x) im_channels \<Rightarrow> ('w, 'x) thread option ch_result" where
  "im_get_thread i s = Inr (map_of (im_threads s) i)"

definition im_list_threads :: "string \<Rightarrow> ('w, 'x) im_channels \<Rightarrow> thread_summary list ch_result" where
  "im_list_threads c s = Inr (sort_key tsm_id (map summary_of (filter (\<lambda>t. th_channel t = c) (map snd (im_threads s)))))"

definition im_delete_thread :: "string \<Rightarrow> ('w, 'x) im_channels \<Rightarrow> unit ch_result \<times> ('w, 'x) im_channels" where
  "im_delete_thread i s = (Inr (), s\<lparr>im_threads := AList.delete i (im_threads s), im_messages := (im_messages s)(i := None)\<rparr>)"

definition im_log :: "('w, 'x) im_channels \<Rightarrow> string \<Rightarrow> message_record list" where
  "im_log s i = (case im_messages s i of Some v \<Rightarrow> v | None \<Rightarrow> [])"

definition im_append_message :: "message_record \<Rightarrow> ('w, 'x) im_channels \<Rightarrow> unit ch_result \<times> ('w, 'x) im_channels" where
  "im_append_message rec s =
     (let marked = (case mr_provider_msg_id rec of
          Some pid \<Rightarrow>
            if mr_direction rec = Inbound
            then (case map_of (im_threads s) (mr_thread rec) of
                    Some t \<Rightarrow> insert (th_channel t, pid) (im_inbound_seen s)
                  | None \<Rightarrow> im_inbound_seen s)
            else im_inbound_seen s
        | None \<Rightarrow> im_inbound_seen s)
      in (Inr (), s\<lparr>im_inbound_seen := marked, im_messages := (im_messages s)(mr_thread rec \<mapsto> im_log s (mr_thread rec) @ [rec])\<rparr>))"

definition im_list_messages :: "string \<Rightarrow> nat \<Rightarrow> ('w, 'x) im_channels \<Rightarrow> message_record list ch_result" where
  "im_list_messages i limit s =
     (let v = im_log s i; n = (if limit = 0 \<or> length v < limit then length v else limit)
      in Inr (drop (length v - n) v))"

definition im_lookup_outbound :: "string \<Rightarrow> string \<Rightarrow> ('w, 'x) im_channels \<Rightarrow> string option ch_result" where
  "im_lookup_outbound i key s =
     Inr (Option.bind (find (\<lambda>r. mr_idempotency_key r = Some key) (im_log s i)) mr_provider_msg_id)"

definition im_has_inbound :: "string \<Rightarrow> string \<Rightarrow> ('w, 'x) im_channels \<Rightarrow> bool ch_result" where
  "im_has_inbound c pid s = Inr ((c, pid) \<in> im_inbound_seen s)"

definition im_channel_store :: "(('w, 'x) im_channels, 'w, 'x) channel_store" where
  "im_channel_store =
     \<lparr>cs_upsert_channel = im_upsert_channel, cs_get_channel = im_get_channel, cs_list_channels = im_list_channels,
      cs_delete_channel = im_delete_channel, cs_upsert_thread = im_upsert_thread, cs_get_thread = im_get_thread,
      cs_list_threads = im_list_threads, cs_delete_thread = im_delete_thread, cs_append_message = im_append_message,
      cs_list_messages = im_list_messages, cs_lookup_outbound = im_lookup_outbound, cs_has_inbound = im_has_inbound\<rparr>"

definition im_good :: "('w, 'x) im_channels \<Rightarrow> bool" where
  "im_good s \<longleftrightarrow> (\<forall>i. list_all record_ok (im_log s i))"

definition im_owner :: "('w, 'x) im_channels \<Rightarrow> string \<Rightarrow> string option" where
  "im_owner s i = map_option th_channel (map_of (im_threads s) i)"

definition im_sent :: "('w, 'x) im_channels \<Rightarrow> string \<Rightarrow> string \<Rightarrow> string option" where
  "im_sent s i key = Option.bind (find (\<lambda>r. mr_idempotency_key r = Some key) (im_log s i)) mr_provider_msg_id"

lemma im_sent_None:
  assumes "im_good s"
  shows "im_sent s i k = None \<longleftrightarrow> find (\<lambda>r. mr_idempotency_key r = Some k) (im_log s i) = None"
proof (cases "find (\<lambda>r. mr_idempotency_key r = Some k) (im_log s i)")
  case (Some r)
  then have "r \<in> set (im_log s i)" "mr_idempotency_key r = Some k" by (auto dest!: find_SomeD)
  moreover have "list_all record_ok (im_log s i)" using assms by (simp add: im_good_def)
  ultimately have "record_ok r" by (simp add: list_all_iff)
  with \<open>mr_idempotency_key r = Some k\<close> have "mr_provider_msg_id r \<noteq> None" by (simp add: record_ok_def)
  with Some show ?thesis by (simp add: im_sent_def)
qed (simp add: im_sent_def)

lemma im_log_append: "im_log (snd (im_append_message rec s)) = (im_log s)(mr_thread rec := im_log s (mr_thread rec) @ [rec])"
  by (auto simp: im_append_message_def im_log_def Let_def fun_eq_iff)

lemma im_log_update [simp]:
  "im_log (s\<lparr>im_channel_specs := x\<rparr>) = im_log s" "im_log (s\<lparr>im_threads := y\<rparr>) = im_log s"
  by (simp_all add: im_log_def fun_eq_iff)

interpretation im_log: message_log im_channel_store im_good im_owner im_inbound_seen im_sent
proof (unfold_locales, goal_cases)
  case (6 s rec r s')
  then have s': "s' = snd (im_append_message rec s)" and r: "r = Inr ()"
    by (auto simp: im_channel_store_def im_append_message_def Let_def)
  have log: "im_log s' = (im_log s)(mr_thread rec := im_log s (mr_thread rec) @ [rec])"
    unfolding s' by (rule im_log_append)
  have good: "im_good s'" using 6(1,2) by (simp add: im_good_def log)
  have own: "im_owner s' = im_owner s" by (simp add: s' im_append_message_def im_owner_def Let_def fun_eq_iff)
  have seen: "im_inbound_seen s' = im_inbound_seen s \<union> (case (mr_provider_msg_id rec, mr_direction rec, im_owner s (mr_thread rec)) of
      (Some p, Inbound, Some c) \<Rightarrow> if is_ok r then {(c, p)} else {} | _ \<Rightarrow> {})"
    by (auto simp: s' r im_append_message_def im_owner_def Let_def split: option.splits direction.splits)
  have sent: "im_sent s' = (case mr_idempotency_key rec of
      None \<Rightarrow> im_sent s
    | Some k \<Rightarrow> if is_ok r \<and> im_sent s (mr_thread rec) k = None
        then (im_sent s)(mr_thread rec := (im_sent s (mr_thread rec))(k := mr_provider_msg_id rec)) else im_sent s)"
    using 6(1) im_sent_None [OF 6(1)]
    by (auto simp: r im_sent_def log find_append fun_eq_iff split: option.splits)
  show ?case using good own seen sent by blast
qed (auto simp: im_channel_store_def im_has_inbound_def im_lookup_outbound_def im_upsert_channel_def im_upsert_thread_def
    im_delete_thread_def im_good_def im_owner_def im_sent_def im_log_def update_conv' delete_conv' fun_eq_iff)

text \<open>A store whose writes do not fail.\<close>

locale reliable_log = message_log +
  assumes upsert_thread_ok: "good s \<Longrightarrow> cs_upsert_thread st t s = (r, s') \<Longrightarrow> is_ok r"
    and append_message_ok: "good s \<Longrightarrow> cs_append_message st rec s = (r, s') \<Longrightarrow> is_ok r"

interpretation im_log: reliable_log im_channel_store im_good im_owner im_inbound_seen im_sent
  by unfold_locales (auto simp: im_channel_store_def im_upsert_thread_def im_append_message_def Let_def)

end
