(* ===== verification/Channel_Harness.thy ===== *)
theory Channel_Harness
  imports Channels
begin

text \<open>
  The orchestrator of messaging channels (\<open>crates/channel-harness\<close>): providers, threads, the inbound loop that
  answers each message once, and the outbound workers with their idempotency keys and retries. The store is any
  store of the interface in \<open>Channels\<close>; providers, targets, fresh identifiers and the timer act on a world.
  The bounded queues between the tasks are lists here, so waiting for a free place is not modelled.
\<close>

subsection \<open>State\<close>

datatype channel_event =
    ProviderConnected provider_kind string
  | ProviderDisconnected provider_kind string string
  | ThreadOpened string string string
  | ThreadClosed string string
  | MessageReceived string string string string
  | MessageDuplicate string string
  | TurnStarted string string
  | TurnCompleted string string string
  | MessageSent string string string
  | ErrorEvent "string option" "string option" string

text \<open>A provider: the reply of \<open>send\<close> is the provider's id of the message. Headers and body of a webhook are \<open>'b\<close>.\<close>

record ('w, 'b) channel_provider =
  pv_kind :: provider_kind
  pv_start :: "'w \<Rightarrow> unit ch_result \<times> 'w"
  pv_send :: "outbound_message \<Rightarrow> 'w \<Rightarrow> string ch_result \<times> 'w"
  pv_verify_webhook :: "'b \<Rightarrow> unit ch_result"
  pv_parse_webhook :: "'b \<Rightarrow> inbound_message list ch_result"

text \<open>A job of a worker; \<open>job_ack\<close> says whether its caller waits for the outcome.\<close>

record outbound_job =
  job_outbound :: outbound_message
  job_ack :: bool

record ('w, 'b) attached_provider =
  at_provider :: "('w, 'b) channel_provider"
  at_queue :: "outbound_job list"

record ('s, 'w, 'x, 'b) channel_harness =
  hs_providers :: "(string \<times> ('w, 'b) attached_provider) list"
  hs_threads :: "(string \<times> ('w, 'x) thread) list"
  hs_store :: 's
  hs_events :: "channel_event list"
  hs_inbox :: "inbound_message list"

text \<open>
  What is fixed when the harness is built, and what it takes from libraries: fresh ids, the timer, the serde
  conversions of a content, the registry and the default call context.
\<close>

record ('s, 'w, 'x, 'b) harness_env =
  he_store :: "('s, 'w, 'x) channel_store"
  he_default_policy :: thread_policy
  he_auto_open_target :: "('w, 'x) thread_target option"
  he_new_id :: "'w \<Rightarrow> string \<times> 'w"
  he_sleep :: "nat \<Rightarrow> 'w \<Rightarrow> 'w"
  he_content_to :: "channel_content \<Rightarrow> json"
  he_content_from :: "json \<Rightarrow> channel_content option"
  he_publish :: "channel_spec \<Rightarrow> 'w \<Rightarrow> 'w"
  he_ctx :: "'x call_ctx"

type_synonym ('a, 's, 'w, 'x, 'b) hs_result = "'a ch_result \<times> ('s, 'w, 'x, 'b) channel_harness \<times> 'w"

definition hs_new :: "'s \<Rightarrow> ('s, 'w, 'x, 'b) channel_harness" where
  "hs_new store = \<lparr>hs_providers = [], hs_threads = [], hs_store = store, hs_events = [], hs_inbox = []\<rparr>"

definition hs_emit :: "channel_event \<Rightarrow> ('s, 'w, 'x, 'b) channel_harness \<Rightarrow> ('s, 'w, 'x, 'b) channel_harness" where
  "hs_emit ev h = h\<lparr>hs_events := hs_events h @ [ev]\<rparr>"

definition set_thread :: "string \<Rightarrow> ('w, 'x) thread \<Rightarrow> ('s, 'w, 'x, 'b) channel_harness \<Rightarrow> ('s, 'w, 'x, 'b) channel_harness" where
  "set_thread i t h = h\<lparr>hs_threads := AList.update i t (hs_threads h)\<rparr>"

definition record_for ::
  "('s, 'w, 'x, 'b) harness_env \<Rightarrow> string \<Rightarrow> direction \<Rightarrow> channel_content \<Rightarrow> string option \<Rightarrow> string option \<Rightarrow> 'w \<Rightarrow>
   message_record \<times> 'w" where
  "record_for E thread_id dir content pid key w =
     (case he_new_id E w of (i, w1) \<Rightarrow>
        (\<lparr>mr_thread = thread_id, mr_id = i, mr_direction = dir, mr_content = content, mr_provider_msg_id = pid,
          mr_idempotency_key = key\<rparr>, w1))"

subsection \<open>The outbound worker (outbound.rs)\<close>

text \<open>
  At most three attempts; the pause of 100 milliseconds doubles after each failed one. (The code doubles it in 32-bit
  floats, which is exact for these values.)
\<close>

fun send_attempts ::
  "('w, 'b) channel_provider \<Rightarrow> (nat \<Rightarrow> 'w \<Rightarrow> 'w) \<Rightarrow> outbound_message \<Rightarrow> nat \<Rightarrow> nat \<Rightarrow> 'w \<Rightarrow> string ch_result \<times> 'w" where
  "send_attempts pv sleep msg 0 delay w = (Inl (Transport ''retry exhausted with no error''), w)"
| "send_attempts pv sleep msg (Suc n) delay w =
     (case pv_send pv msg w of
        (Inr pid, w1) \<Rightarrow> (Inr pid, w1)
      | (Inl e, w1) \<Rightarrow>
          if n = 0 then (Inl e, w1)
          else send_attempts pv sleep msg n (min (delay * 2) 4000) (sleep delay w1))"

definition process_one ::
  "('s, 'w, 'x, 'b) harness_env \<Rightarrow> ('w, 'b) channel_provider \<Rightarrow> string \<Rightarrow> outbound_message \<Rightarrow>
   ('s, 'w, 'x, 'b) channel_harness \<Rightarrow> 'w \<Rightarrow> (string, 's, 'w, 'x, 'b) hs_result" where
  "process_one E pv channel_id msg h w =
     (case cs_lookup_outbound (he_store E) (ob_thread msg) (ob_idempotency_key msg) (hs_store h) of
        Inl e \<Rightarrow> (Inl e, h, w)
      | Inr (Some prev) \<Rightarrow> (Inr prev, h, w)
      | Inr None \<Rightarrow>
          (case cs_get_channel (he_store E) channel_id (hs_store h) of
             Inl e \<Rightarrow> (Inl e, h, w)
           | Inr spec \<Rightarrow>
               (case (case spec of None \<Rightarrow> Inr () | Some sp \<Rightarrow> check_capabilities (ob_content msg) (sp_capabilities sp)) of
                  Inl e \<Rightarrow> (Inl e, h, w)
                | Inr _ \<Rightarrow>
                    (case send_attempts pv (he_sleep E) msg 3 100 w of
                       (Inl e, w1) \<Rightarrow> (Inl e, h, w1)
                     | (Inr pid, w1) \<Rightarrow>
                         (case record_for E (ob_thread msg) Outbound (ob_content msg) (Some pid) (Some (ob_idempotency_key msg)) w1 of
                            (rec, w2) \<Rightarrow>
                              (case cs_append_message (he_store E) rec (hs_store h) of
                                 (Inl e, st1) \<Rightarrow> (Inl e, h\<lparr>hs_store := st1\<rparr>, w2)
                               | (Inr _, st1) \<Rightarrow>
                                   (Inr pid, hs_emit (MessageSent (ob_thread msg) (mr_id rec) pid) (h\<lparr>hs_store := st1\<rparr>), w2)))))))"

text \<open>A failed job whose caller does not wait is reported as an event.\<close>

definition run_job ::
  "('s, 'w, 'x, 'b) harness_env \<Rightarrow> ('w, 'b) channel_provider \<Rightarrow> string \<Rightarrow> outbound_job \<Rightarrow>
   ('s, 'w, 'x, 'b) channel_harness \<Rightarrow> 'w \<Rightarrow> (string, 's, 'w, 'x, 'b) hs_result" where
  "run_job E pv channel_id job h w =
     (case process_one E pv channel_id (job_outbound job) h w of
        (Inl e, h1, w1) \<Rightarrow>
          (Inl e, if job_ack job then h1 else hs_emit (ErrorEvent None None (channel_error_text e)) h1, w1)
      | (Inr pid, h1, w1) \<Rightarrow> (Inr pid, h1, w1))"

fun drain_jobs ::
  "('s, 'w, 'x, 'b) harness_env \<Rightarrow> ('w, 'b) channel_provider \<Rightarrow> string \<Rightarrow> outbound_job list \<Rightarrow>
   ('s, 'w, 'x, 'b) channel_harness \<Rightarrow> 'w \<Rightarrow> ('s, 'w, 'x, 'b) channel_harness \<times> 'w" where
  "drain_jobs E pv channel_id [] h w = (h, w)"
| "drain_jobs E pv channel_id (j # js) h w =
     (case run_job E pv channel_id j h w of (r, h1, w1) \<Rightarrow> drain_jobs E pv channel_id js h1 w1)"

text \<open>The worker of a channel takes the next job of its queue.\<close>

definition worker_step ::
  "('s, 'w, 'x, 'b) harness_env \<Rightarrow> string \<Rightarrow> ('s, 'w, 'x, 'b) channel_harness \<Rightarrow> 'w \<Rightarrow> ('s, 'w, 'x, 'b) channel_harness \<times> 'w" where
  "worker_step E channel_id h w =
     (case map_of (hs_providers h) channel_id of
        None \<Rightarrow> (h, w)
      | Some at \<Rightarrow>
          (case at_queue at of
             [] \<Rightarrow> (h, w)
           | j # js \<Rightarrow>
               snd (run_job E (at_provider at) channel_id j
                 (h\<lparr>hs_providers := AList.update channel_id (at\<lparr>at_queue := js\<rparr>) (hs_providers h)\<rparr>) w)))"

definition enqueue :: "string \<Rightarrow> outbound_job \<Rightarrow> ('s, 'w, 'x, 'b) channel_harness \<Rightarrow> ('s, 'w, 'x, 'b) channel_harness" where
  "enqueue channel_id j h =
     (case map_of (hs_providers h) channel_id of
        None \<Rightarrow> h
      | Some at \<Rightarrow> h\<lparr>hs_providers := AList.update channel_id (at\<lparr>at_queue := at_queue at @ [j]\<rparr>) (hs_providers h)\<rparr>)"

subsection \<open>Providers and threads (harness.rs)\<close>

definition attach_provider ::
  "('s, 'w, 'x, 'b) harness_env \<Rightarrow> channel_spec \<Rightarrow> ('w, 'b) channel_provider \<Rightarrow> ('s, 'w, 'x, 'b) channel_harness \<Rightarrow> 'w \<Rightarrow>
   (unit, 's, 'w, 'x, 'b) hs_result" where
  "attach_provider E spec pv h w =
     (if map_of (hs_providers h) (sp_id spec) \<noteq> None then (Inl (DuplicateChannel (sp_id spec)), h, w)
      else (case cs_upsert_channel (he_store E) spec (hs_store h) of
              (Inl e, st1) \<Rightarrow> (Inl e, h\<lparr>hs_store := st1\<rparr>, w)
            | (Inr _, st1) \<Rightarrow>
                (case pv_start pv w of
                   (Inl e, w1) \<Rightarrow> (Inl e, h\<lparr>hs_store := st1\<rparr>, w1)
                 | (Inr _, w1) \<Rightarrow>
                     (Inr (), hs_emit (ProviderConnected (pv_kind pv) (sp_id spec))
                        (h\<lparr>hs_store := st1,
                          hs_providers := AList.update (sp_id spec) \<lparr>at_provider = pv, at_queue = []\<rparr> (hs_providers h)\<rparr>),
                      he_publish E spec w1))))"

definition detach_provider ::
  "('s, 'w, 'x, 'b) harness_env \<Rightarrow> string \<Rightarrow> ('s, 'w, 'x, 'b) channel_harness \<Rightarrow> 'w \<Rightarrow> (unit, 's, 'w, 'x, 'b) hs_result" where
  "detach_provider E i h w =
     (case map_of (hs_providers h) i of
        None \<Rightarrow> (Inl (UnknownChannel i), h, w)
      | Some at \<Rightarrow>
          (case drain_jobs E (at_provider at) i (at_queue at) (h\<lparr>hs_providers := AList.delete i (hs_providers h)\<rparr>) w of
             (h1, w1) \<Rightarrow> (Inr (), hs_emit (ProviderDisconnected (pv_kind (at_provider at)) i ''detached'') h1, w1)))"

definition open_thread ::
  "('s, 'w, 'x, 'b) harness_env \<Rightarrow> string \<Rightarrow> string \<Rightarrow> ('w, 'x) thread_target \<Rightarrow> ('s, 'w, 'x, 'b) channel_harness \<Rightarrow> 'w \<Rightarrow>
   (string, 's, 'w, 'x, 'b) hs_result" where
  "open_thread E channel peer target h w =
     (if map_of (hs_providers h) channel = None then (Inl (UnknownChannel channel), h, w)
      else
        (let i = for_peer channel peer;
             t = (thread_new channel peer target)\<lparr>th_policy := he_default_policy E\<rparr>;
             h1 = (case map_of (hs_threads h) i of
                     Some old \<Rightarrow> set_thread i (old\<lparr>th_target := target\<rparr>) h
                   | None \<Rightarrow> set_thread i t h)
         in (case cs_upsert_thread (he_store E) t (hs_store h1) of
               (Inl e, st1) \<Rightarrow> (Inl e, h1\<lparr>hs_store := st1\<rparr>, w)
             | (Inr _, st1) \<Rightarrow> (Inr i, hs_emit (ThreadOpened i channel peer) (h1\<lparr>hs_store := st1\<rparr>), w))))"

definition close_thread ::
  "('s, 'w, 'x, 'b) harness_env \<Rightarrow> string \<Rightarrow> ('s, 'w, 'x, 'b) channel_harness \<Rightarrow> 'w \<Rightarrow> (unit, 's, 'w, 'x, 'b) hs_result" where
  "close_thread E i h w =
     (let h1 = h\<lparr>hs_threads := AList.delete i (hs_threads h)\<rparr> in
      case cs_delete_thread (he_store E) i (hs_store h1) of
        (Inl e, st1) \<Rightarrow> (Inl e, h1\<lparr>hs_store := st1\<rparr>, w)
      | (Inr _, st1) \<Rightarrow> (Inr (), hs_emit (ThreadClosed i ''closed'') (h1\<lparr>hs_store := st1\<rparr>), w))"

text \<open>The caller of \<open>send\<close> then waits for the worker; the key of the queued job is returned here.\<close>

definition admin_send ::
  "('s, 'w, 'x, 'b) harness_env \<Rightarrow> string \<Rightarrow> channel_content \<Rightarrow> ('s, 'w, 'x, 'b) channel_harness \<Rightarrow> 'w \<Rightarrow>
   (string, 's, 'w, 'x, 'b) hs_result" where
  "admin_send E i content h w =
     (case map_of (hs_threads h) i of
        None \<Rightarrow> (Inl (UnknownThread i), h, w)
      | Some t \<Rightarrow>
          (case cs_get_channel (he_store E) (th_channel t) (hs_store h) of
             Inl e \<Rightarrow> (Inl e, h, w)
           | Inr None \<Rightarrow> (Inl (UnknownChannel (th_channel t)), h, w)
           | Inr (Some spec) \<Rightarrow>
               (case check_capabilities content (sp_capabilities spec) of
                  Inl e \<Rightarrow> (Inl e, h, w)
                | Inr _ \<Rightarrow>
                    (case he_new_id E w of (u, w1) \<Rightarrow>
                       (let key = ''admin-'' @ u;
                            out = \<lparr>ob_channel = th_channel t, ob_thread = i, ob_peer = th_peer t, ob_content = content,
                                   ob_reply_to = None, ob_idempotency_key = key\<rparr>
                        in if map_of (hs_providers h) (th_channel t) = None then (Inl (UnknownChannel (th_channel t)), h, w1)
                           else (Inr key, enqueue (th_channel t) \<lparr>job_outbound = out, job_ack = True\<rparr> h, w1))))))"

subsection \<open>The inbound loop (inbound.rs)\<close>

definition build_envelope :: "('s, 'w, 'x, 'b) harness_env \<Rightarrow> inbound_message \<Rightarrow> ('w, 'x) thread \<Rightarrow> json" where
  "build_envelope E msg t = obj_of
     [(''user'', String (as_text (ib_content msg))),
      (''content'', he_content_to E (ib_content msg)),
      (''thread'', obj_of [(''id'', String (th_id t)), (''history_len'', Number (IntN (int (length (th_history t)))))]),
      (''channel'', obj_of [(''id'', String (th_channel t)), (''peer'', String (ib_peer msg))]),
      (''provider_msg_id'', String (ib_provider_msg_id msg))]"

fun non_empty :: "channel_content \<Rightarrow> channel_content option" where
  "non_empty (Attachment r m c) = Some (Attachment r m c)"
| "non_empty c = (if as_text c = [] then None else Some c)"

definition extract_reply :: "('s, 'w, 'x, 'b) harness_env \<Rightarrow> json \<Rightarrow> channel_content option" where
  "extract_reply E v =
     (case Option.bind (jget v ''content'') (he_content_from E) of
        Some c \<Rightarrow> non_empty c
      | None \<Rightarrow>
          (case get_str v ''text'' of
             Some s \<Rightarrow> non_empty (Text s)
           | None \<Rightarrow>
               (case get_str v ''output'' of
                  Some s \<Rightarrow> non_empty (Text s)
                | None \<Rightarrow> (case as_str v of Some s \<Rightarrow> non_empty (Text s) | None \<Rightarrow> None))))"

text \<open>What the target answers, and the text of the error event it causes when it fails.\<close>

definition dispatch ::
  "('s, 'w, 'x, 'b) harness_env \<Rightarrow> inbound_message \<Rightarrow> ('w, 'x) thread \<Rightarrow> 'w \<Rightarrow> (string + channel_content option) \<times> 'w" where
  "dispatch E msg t w =
     (case th_target t of
        CallableTarget c \<Rightarrow>
          (case c_call c (build_envelope E msg t) (he_ctx E) w of
             (Inr v, w1) \<Rightarrow> (Inr (extract_reply E v), w1)
           | (Inl e, w1) \<Rightarrow> (Inl (error_text e), w1))
      | HarnessTarget c a \<Rightarrow>
          (case ad_apply a msg w of
             (Inl e, w1) \<Rightarrow> (Inl (''adapter.apply: '' @ channel_error_text e), w1)
           | (Inr _, w1) \<Rightarrow>
               if ad_one_shot a
               then (case c_call c Null (he_ctx E) w1 of
                       (Inr v, w2) \<Rightarrow> (Inr (ad_reply_from_result a v), w2)
                     | (Inl e, w2) \<Rightarrow> (Inl (error_text e), w2))
               else (Inr None, w1)))"

definition auto_open ::
  "('s, 'w, 'x, 'b) harness_env \<Rightarrow> inbound_message \<Rightarrow> ('s, 'w, 'x, 'b) channel_harness \<Rightarrow>
   ('w, 'x) thread ch_result \<times> ('s, 'w, 'x, 'b) channel_harness" where
  "auto_open E msg h =
     (let i = for_peer (ib_channel msg) (ib_peer msg) in
      case he_auto_open_target E of
        None \<Rightarrow> (Inl (UnknownThread i), h)
      | Some target \<Rightarrow>
          (let t = (thread_new (ib_channel msg) (ib_peer msg) target)\<lparr>th_policy := he_default_policy E\<rparr>;
               h1 = set_thread i t h
           in case cs_upsert_thread (he_store E) t (hs_store h1) of
                (Inl e, st1) \<Rightarrow> (Inl e, h1\<lparr>hs_store := st1\<rparr>)
              | (Inr _, st1) \<Rightarrow>
                  (Inr t, hs_emit (ThreadOpened i (ib_channel msg) (ib_peer msg)) (h1\<lparr>hs_store := st1\<rparr>))))"

definition deliver_reply ::
  "('s, 'w, 'x, 'b) harness_env \<Rightarrow> inbound_message \<Rightarrow> string \<Rightarrow> ('w, 'x) thread \<Rightarrow> string \<Rightarrow> channel_content option \<Rightarrow>
   ('s, 'w, 'x, 'b) channel_harness \<Rightarrow> 'w \<Rightarrow> (unit, 's, 'w, 'x, 'b) hs_result" where
  "deliver_reply E msg i t mid reply h w =
     (case reply of
        None \<Rightarrow> (Inr (), h, w)
      | Some content \<Rightarrow>
          (let h1 = set_thread i (push_assistant content t) h in
           case map_of (hs_providers h1) (ib_channel msg) of
             None \<Rightarrow> (Inl (UnknownChannel (ib_channel msg)), h1, w)
           | Some at \<Rightarrow>
               (case he_new_id E w of (u, w1) \<Rightarrow>
                  (Inr (),
                   enqueue (ib_channel msg)
                     \<lparr>job_outbound =
                        \<lparr>ob_channel = ib_channel msg, ob_thread = i, ob_peer = ib_peer msg, ob_content = content,
                         ob_reply_to = Some (ib_provider_msg_id msg), ob_idempotency_key = ''turn-'' @ mid @ ''-'' @ u\<rparr>,
                      job_ack = False\<rparr> h1, w1))))"

definition finish_turn ::
  "('s, 'w, 'x, 'b) harness_env \<Rightarrow> inbound_message \<Rightarrow> string \<Rightarrow> ('w, 'x) thread \<Rightarrow> string \<Rightarrow> string + channel_content option \<Rightarrow>
   ('s, 'w, 'x, 'b) channel_harness \<Rightarrow> 'w \<Rightarrow> (unit, 's, 'w, 'x, 'b) hs_result" where
  "finish_turn E msg i t mid answer h w =
     (let reply = (case answer of Inl m \<Rightarrow> None | Inr r \<Rightarrow> r);
          h1 = (case answer of Inl m \<Rightarrow> hs_emit (ErrorEvent (Some i) (Some mid) m) h | Inr r \<Rightarrow> h);
          h2 = hs_emit (TurnCompleted i mid (case reply of Some c \<Rightarrow> summary c | None \<Rightarrow> [])) h1
      in deliver_reply E msg i t mid reply h2 w)"

definition accept_inbound ::
  "('s, 'w, 'x, 'b) harness_env \<Rightarrow> inbound_message \<Rightarrow> string \<Rightarrow> ('w, 'x) thread \<Rightarrow>
   ('s, 'w, 'x, 'b) channel_harness \<Rightarrow> 'w \<Rightarrow> (unit, 's, 'w, 'x, 'b) hs_result" where
  "accept_inbound E msg i t h w =
     (let t1 = push_user (ib_content msg) t; h1 = set_thread i t1 h in
      case record_for E i Inbound (ib_content msg) (Some (ib_provider_msg_id msg)) None w of
        (rec, w1) \<Rightarrow>
          (case cs_append_message (he_store E) rec (hs_store h1) of
             (Inl e, st1) \<Rightarrow> (Inl e, h1\<lparr>hs_store := st1\<rparr>, w1)
           | (Inr _, st1) \<Rightarrow>
               (let h2 = hs_emit (TurnStarted i (mr_id rec))
                      (hs_emit (MessageReceived i (mr_id rec) (ib_peer msg) (summary (ib_content msg)))
                        (h1\<lparr>hs_store := st1\<rparr>))
                in case dispatch E msg t1 w1 of (answer, w2) \<Rightarrow> finish_turn E msg i t1 (mr_id rec) answer h2 w2)))"

definition handle_inbound ::
  "('s, 'w, 'x, 'b) harness_env \<Rightarrow> inbound_message \<Rightarrow> ('s, 'w, 'x, 'b) channel_harness \<Rightarrow> 'w \<Rightarrow> (unit, 's, 'w, 'x, 'b) hs_result" where
  "handle_inbound E msg h w =
     (case cs_has_inbound (he_store E) (ib_channel msg) (ib_provider_msg_id msg) (hs_store h) of
        Inl e \<Rightarrow> (Inl e, h, w)
      | Inr True \<Rightarrow> (Inr (), hs_emit (MessageDuplicate (ib_thread msg) (ib_provider_msg_id msg)) h, w)
      | Inr False \<Rightarrow>
          (let i = for_peer (ib_channel msg) (ib_peer msg) in
           case (case map_of (hs_threads h) i of Some t \<Rightarrow> (Inr t, h) | None \<Rightarrow> auto_open E msg h) of
             (Inl e, h1) \<Rightarrow> (Inl e, h1, w)
           | (Inr t, h1) \<Rightarrow> accept_inbound E msg i t h1 w))"

text \<open>One round of the loop: an error is an event, never a stop.\<close>

definition inbound_step ::
  "('s, 'w, 'x, 'b) harness_env \<Rightarrow> ('s, 'w, 'x, 'b) channel_harness \<Rightarrow> 'w \<Rightarrow> ('s, 'w, 'x, 'b) channel_harness \<times> 'w" where
  "inbound_step E h w =
     (case hs_inbox h of
        [] \<Rightarrow> (h, w)
      | msg # rest \<Rightarrow>
          (case handle_inbound E msg (h\<lparr>hs_inbox := rest\<rparr>) w of
             (Inl e, h1, w1) \<Rightarrow> (hs_emit (ErrorEvent None None (channel_error_text e)) h1, w1)
           | (Inr _, h1, w1) \<Rightarrow> (h1, w1)))"

definition hs_ingest :: "inbound_message \<Rightarrow> ('s, 'w, 'x, 'b) channel_harness \<Rightarrow> ('s, 'w, 'x, 'b) channel_harness" where
  "hs_ingest msg h = h\<lparr>hs_inbox := hs_inbox h @ [msg]\<rparr>"

definition ingest_webhook ::
  "string \<Rightarrow> 'b \<Rightarrow> ('s, 'w, 'x, 'b) channel_harness \<Rightarrow> nat ch_result \<times> ('s, 'w, 'x, 'b) channel_harness" where
  "ingest_webhook channel payload h =
     (case map_of (hs_providers h) channel of
        None \<Rightarrow> (Inl (UnknownChannel channel), h)
      | Some at \<Rightarrow>
          (case pv_verify_webhook (at_provider at) payload of
             Inl e \<Rightarrow> (Inl e, h)
           | Inr _ \<Rightarrow>
               (case pv_parse_webhook (at_provider at) payload of
                  Inl e \<Rightarrow> (Inl e, h)
                | Inr ms \<Rightarrow> (Inr (length ms), fold hs_ingest ms h))))"

definition list_attached :: "('s, 'w, 'x, 'b) channel_harness \<Rightarrow> string list" where
  "list_attached h = map fst (hs_providers h)"

definition find_thread :: "string \<Rightarrow> ('s, 'w, 'x, 'b) channel_harness \<Rightarrow> ('w, 'x) thread option" where
  "find_thread i h = map_of (hs_threads h) i"

fun detach_all ::
  "('s, 'w, 'x, 'b) harness_env \<Rightarrow> string list \<Rightarrow> ('s, 'w, 'x, 'b) channel_harness \<Rightarrow> 'w \<Rightarrow> (unit, 's, 'w, 'x, 'b) hs_result" where
  "detach_all E [] h w = (Inr (), h, w)"
| "detach_all E (i # is) h w =
     (case detach_provider E i h w of
        (Inl e, h1, w1) \<Rightarrow> (Inl e, h1, w1)
      | (Inr _, h1, w1) \<Rightarrow> detach_all E is h1 w1)"

text \<open>Shutting down stops the inbound loop, so what is still in the inbox is lost.\<close>

definition hs_shutdown ::
  "('s, 'w, 'x, 'b) harness_env \<Rightarrow> ('s, 'w, 'x, 'b) channel_harness \<Rightarrow> 'w \<Rightarrow> (unit, 's, 'w, 'x, 'b) hs_result" where
  "hs_shutdown E h w =
     (case detach_all E (list_attached h) h w of
        (Inl e, h1, w1) \<Rightarrow> (Inl e, h1, w1)
      | (Inr _, h1, w1) \<Rightarrow> (Inr (), h1\<lparr>hs_inbox := []\<rparr>, w1))"

subsection \<open>Operations\<close>

text \<open>The operations on a running harness; a webhook is a sequence of \<open>OpIngest\<close>.\<close>

datatype ('w, 'x, 'b) hs_op =
    OpAttach channel_spec "('w, 'b) channel_provider"
  | OpDetach string
  | OpOpen string string "('w, 'x) thread_target"
  | OpClose string
  | OpSend string channel_content
  | OpIngest inbound_message
  | OpInbound
  | OpWork string

fun hs_step ::
  "('s, 'w, 'x, 'b) harness_env \<Rightarrow> ('w, 'x, 'b) hs_op \<Rightarrow> ('s, 'w, 'x, 'b) channel_harness \<times> 'w \<Rightarrow>
   ('s, 'w, 'x, 'b) channel_harness \<times> 'w" where
  "hs_step E (OpAttach spec pv) (h, w) = snd (attach_provider E spec pv h w)"
| "hs_step E (OpDetach c) (h, w) = snd (detach_provider E c h w)"
| "hs_step E (OpOpen c p target) (h, w) = snd (open_thread E c p target h w)"
| "hs_step E (OpClose i) (h, w) = snd (close_thread E i h w)"
| "hs_step E (OpSend i content) (h, w) = snd (admin_send E i content h w)"
| "hs_step E (OpIngest msg) (h, w) = (hs_ingest msg h, w)"
| "hs_step E OpInbound (h, w) = inbound_step E h w"
| "hs_step E (OpWork c) (h, w) = worker_step E c h w"

definition hs_run ::
  "('s, 'w, 'x, 'b) harness_env \<Rightarrow> ('w, 'x, 'b) hs_op list \<Rightarrow> ('s, 'w, 'x, 'b) channel_harness \<times> 'w \<Rightarrow>
   ('s, 'w, 'x, 'b) channel_harness \<times> 'w" where
  "hs_run E ops hw = fold (hs_step E) ops hw"

text \<open>Channel ids without the sign that joins them to peers, and the threads an operation closes.\<close>

definition plain :: "string \<Rightarrow> bool" where
  "plain c \<longleftrightarrow> CHR ''#'' \<notin> set c"

fun plain_op :: "('w, 'x, 'b) hs_op \<Rightarrow> bool" where
  "plain_op (OpOpen c p target) = plain c"
| "plain_op (OpIngest msg) = plain (ib_channel msg)"
| "plain_op _ = True"

fun closes :: "('w, 'x, 'b) hs_op \<Rightarrow> string set" where
  "closes (OpClose i) = {i}"
| "closes _ = {}"

lemma mem_closes: "i \<in> closes op \<Longrightarrow> (op = OpClose i \<Longrightarrow> P) \<Longrightarrow> P"
  by (cases op) auto

lemma snd_eq_pair: "snd x = (a, b) \<Longrightarrow> \<exists>r. x = (r, a, b)"
  by (cases x) auto

lemma webhook_ingests:
  "ingest_webhook c payload h = (Inr n, h') \<Longrightarrow> \<exists>ms. n = length ms \<and> hs_run E (map OpIngest ms) (h, w) = (h', w)"
proof -
  have "hs_run E (map OpIngest ms) (h, w) = (fold hs_ingest ms h, w)" for ms h
    by (induction ms arbitrary: h) (simp_all add: hs_run_def)
  then show "ingest_webhook c payload h = (Inr n, h') \<Longrightarrow> ?thesis"
    by (force simp: ingest_webhook_def split: option.splits sum.splits)
qed

subsection \<open>Answered once, sent once\<close>

text \<open>
  Every thread the harness holds has the id of its channel and peer and is in the store under that channel. No
  operation forgets a message that was taken in, and only closing a thread forgets what was sent.
\<close>

locale channel_log = reliable_log st good owner seen sent
  for st :: "('s, 'w, 'x) channel_store" and good owner seen sent +
  fixes E :: "('s, 'w, 'x, 'b) harness_env"
  assumes store: "he_store E = st"

begin

definition held :: "('s, 'w, 'x, 'b) channel_harness \<Rightarrow> bool" where
  "held h \<longleftrightarrow> good (hs_store h) \<and> list_all (\<lambda>m. plain (ib_channel m)) (hs_inbox h) \<and>
     (\<forall>i t. map_of (hs_threads h) i = Some t \<longrightarrow>
        (\<exists>p. i = for_peer (th_channel t) p) \<and> plain (th_channel t) \<and> owner (hs_store h) i = Some (th_channel t))"

definition keeps :: "string set \<Rightarrow> ('s, 'w, 'x, 'b) channel_harness \<Rightarrow> ('s, 'w, 'x, 'b) channel_harness \<Rightarrow> bool" where
  "keeps C h h' \<longleftrightarrow> (held h \<longrightarrow> held h' \<and> seen (hs_store h) \<subseteq> seen (hs_store h') \<and>
     (\<forall>i k q. i \<notin> C \<longrightarrow> sent (hs_store h) i k = Some q \<longrightarrow> sent (hs_store h') i k = Some q))"

lemma keeps_refl: "keeps C h h"
  by (simp add: keeps_def)

lemma keeps_trans: "keeps C h h1 \<Longrightarrow> keeps C h1 h2 \<Longrightarrow> keeps C h h2"
  unfolding keeps_def by blast

lemma keeps_mono: "keeps C h h' \<Longrightarrow> C \<subseteq> D \<Longrightarrow> keeps D h h'"
  unfolding keeps_def by blast

lemma keepsD:
  assumes "keeps C h h'" and "held h"
  shows "held h'" and "x \<in> seen (hs_store h) \<Longrightarrow> x \<in> seen (hs_store h')"
    and "i \<notin> C \<Longrightarrow> sent (hs_store h) i k = Some q \<Longrightarrow> sent (hs_store h') i k = Some q"
  using assms unfolding keeps_def by blast+

lemma keeps_frame [simp]:
  "keeps C h (hs_emit e h') \<longleftrightarrow> keeps C h h'"
  "keeps C h (h'\<lparr>hs_providers := ps\<rparr>) \<longleftrightarrow> keeps C h h'"
  "keeps C h (enqueue c j h') \<longleftrightarrow> keeps C h h'"
  by (auto simp: keeps_def held_def hs_emit_def enqueue_def split: option.splits)

lemma keeps_append:
  assumes "cs_append_message st rec (hs_store h) = (r, s')" and "record_ok rec"
  shows "keeps C h (h\<lparr>hs_store := s'\<rparr>)"
  using append_message [OF _ assms(2,1)] by (auto simp: keeps_def held_def split: option.splits)

lemma keeps_upsert_channel:
  assumes "cs_upsert_channel st spec (hs_store h) = (r, s')"
  shows "keeps C h (h\<lparr>hs_store := s'\<rparr>)"
  using upsert_channel [OF _ assms] by (auto simp: keeps_def held_def)

lemma process_one_keeps: "process_one E pv c msg h w = (r, h', w') \<Longrightarrow> keeps C h h'"
  by (auto simp: process_one_def store record_for_def record_ok_def keeps_refl split: sum.splits option.splits prod.splits
      intro!: keeps_append)

lemma run_job_keeps: "run_job E pv c j h w = (r, h', w') \<Longrightarrow> keeps C h h'"
  by (auto simp: run_job_def split: sum.splits prod.splits dest!: process_one_keeps [where C = C])

lemma drain_jobs_keeps: "drain_jobs E pv c js h w = (h', w') \<Longrightarrow> keeps C h h'"
proof (induction js arbitrary: h w)
  case (Cons j js)
  then show ?case by (auto split: prod.splits dest!: run_job_keeps [where C = C] intro: keeps_trans)
qed (simp add: keeps_refl)

lemma attach_keeps: "attach_provider E spec pv h w = (r, h', w') \<Longrightarrow> keeps C h h'"
proof -
  have "keeps C h (h\<lparr>hs_store := s', hs_providers := ps\<rparr>)" if "cs_upsert_channel st spec (hs_store h) = (r, s')" for r s' ps
    using keeps_upsert_channel [OF that, of C] by (simp add: keeps_def held_def)
  then show "attach_provider E spec pv h w = (r, h', w') \<Longrightarrow> ?thesis"
    by (auto simp: attach_provider_def store keeps_refl keeps_upsert_channel split: if_splits prod.splits sum.splits)
qed

lemma detach_keeps: "detach_provider E i h w = (r, h', w') \<Longrightarrow> keeps C h h'"
  by (auto simp: detach_provider_def keeps_refl split: option.splits prod.splits dest!: drain_jobs_keeps [where C = C]
      intro: keeps_trans [rotated])

text \<open>Putting a thread into the harness and into the store.\<close>

lemma keeps_upsert_thread:
  assumes "cs_upsert_thread st t (hs_store h) = (r, s')" and "th_id t = for_peer (th_channel t) (th_peer t)"
    and "plain (th_channel t)" and "th_channel t' = th_channel t"
  shows "keeps C h ((set_thread (th_id t) t' h)\<lparr>hs_store := s'\<rparr>)"
proof -
  have "held ((set_thread (th_id t) t' h)\<lparr>hs_store := s'\<rparr>)" if h: "held h"
  proof -
    have good: "good (hs_store h)" using h by (simp add: held_def)
    have s': "good s' \<and> owner s' = (owner (hs_store h))(th_id t := Some (th_channel t))"
      using upsert_thread [OF good assms(1)] upsert_thread_ok [OF good assms(1)] by simp
    show ?thesis using h s' assms(2-4) by (auto simp: held_def set_thread_def update_conv' split: if_splits)
  qed
  moreover have "seen s' = seen (hs_store h) \<and> sent s' = sent (hs_store h)" if "held h"
    using that upsert_thread [OF _ assms(1)] by (simp add: held_def)
  ultimately show ?thesis by (simp add: keeps_def)
qed

lemma keeps_set_thread:
  assumes "map_of (hs_threads h) i = Some t" and "th_channel t' = th_channel t"
  shows "keeps C h (set_thread i t' h)"
  using assms by (auto simp: keeps_def held_def set_thread_def update_conv' split: if_splits)

lemma held_channel: "held h \<Longrightarrow> map_of (hs_threads h) (for_peer c p) = Some t \<Longrightarrow> plain c \<Longrightarrow> th_channel t = c"
  unfolding held_def plain_def by (metis for_peer_inj)

lemma open_keeps:
  assumes "open_thread E c p target h w = (r, h', w')" and "plain c"
  shows "keeps C h h'"
proof (cases "map_of (hs_providers h) c = None")
  case False
  define t where "t = (thread_new c p target)\<lparr>th_policy := he_default_policy E\<rparr>"
  define t' where "t' = (case map_of (hs_threads h) (for_peer c p) of Some old \<Rightarrow> old\<lparr>th_target := target\<rparr> | None \<Rightarrow> t)"
  have t: "th_id t = for_peer c p" "th_channel t = c" "th_peer t = p" by (simp_all add: t_def thread_new_def)
  obtain r1 s' where s': "cs_upsert_thread st t (hs_store h) = (r1, s')" by (cases "cs_upsert_thread st t (hs_store h)")
  have "keeps C h ((set_thread (th_id t) t' h)\<lparr>hs_store := s'\<rparr>)" if h: "held h"
  proof (rule keeps_upsert_thread [OF s'])
    show "th_channel t' = th_channel t"
      using held_channel [OF h _ assms(2)] by (auto simp: t'_def t split: option.splits)
  qed (simp_all add: t assms(2))
  then have "keeps C h ((set_thread (th_id t) t' h)\<lparr>hs_store := s'\<rparr>)" by (auto simp: keeps_def)
  moreover have "h' = (set_thread (th_id t) t' h)\<lparr>hs_store := s'\<rparr> \<or>
      h' = hs_emit (ThreadOpened (for_peer c p) c p) ((set_thread (th_id t) t' h)\<lparr>hs_store := s'\<rparr>)"
    using assms(1) False s' t(1)
    by (auto simp: open_thread_def Let_def store t'_def set_thread_def simp flip: t_def split: option.splits sum.splits)
  ultimately show ?thesis by auto
qed (use assms(1) in \<open>simp add: open_thread_def keeps_refl\<close>)

lemma close_keeps:
  assumes "close_thread E i h w = (r, h', w')"
  shows "keeps {i} h h'"
proof -
  obtain r1 s' where s': "cs_delete_thread st i (hs_store h) = (r1, s')" by (cases "cs_delete_thread st i (hs_store h)")
  have "keeps {i} h (h\<lparr>hs_threads := AList.delete i (hs_threads h), hs_store := s'\<rparr>)"
    using delete_thread [OF _ s'] by (auto simp: keeps_def held_def delete_conv' split: if_splits)
  then show ?thesis
    using assms s' by (auto simp: close_thread_def Let_def store split: sum.splits)
qed

lemma send_keeps: "admin_send E i content h w = (r, h', w') \<Longrightarrow> keeps C h h'"
  by (auto simp: admin_send_def Let_def keeps_refl split: option.splits sum.splits prod.splits if_splits)

text \<open>Taking in a message.\<close>

lemma auto_open_keeps:
  assumes "auto_open E msg h = (r, h')" and "plain (ib_channel msg)"
  shows "keeps C h h'"
proof (cases "he_auto_open_target E")
  case (Some target)
  define t where "t = (thread_new (ib_channel msg) (ib_peer msg) target)\<lparr>th_policy := he_default_policy E\<rparr>"
  have t: "th_id t = for_peer (ib_channel msg) (ib_peer msg)" "th_channel t = ib_channel msg" "th_peer t = ib_peer msg"
    by (simp_all add: t_def thread_new_def)
  obtain r1 s' where s': "cs_upsert_thread st t (hs_store h) = (r1, s')" by (cases "cs_upsert_thread st t (hs_store h)")
  have "keeps C h ((set_thread (th_id t) t h)\<lparr>hs_store := s'\<rparr>)"
    by (rule keeps_upsert_thread [OF s']) (simp_all add: t assms(2))
  then show ?thesis
    using assms(1) Some s' by (auto simp: auto_open_def Let_def store t(1) set_thread_def simp flip: t_def split: sum.splits)
qed (use assms(1) in \<open>auto simp: auto_open_def keeps_refl\<close>)

lemma auto_open_ok:
  "auto_open E msg h = (Inr t, h') \<Longrightarrow>
   map_of (hs_threads h') (for_peer (ib_channel msg) (ib_peer msg)) = Some t \<and> th_channel t = ib_channel msg"
  by (auto simp: auto_open_def Let_def set_thread_def hs_emit_def update_conv' thread_new_def split: option.splits sum.splits prod.splits)

lemma auto_open_error: "auto_open E msg h = (Inl e, h') \<Longrightarrow> held h \<Longrightarrow> he_auto_open_target E = None"
  using upsert_thread_ok
  by (fastforce simp: auto_open_def Let_def store held_def set_thread_def split: option.splits sum.splits prod.splits)

lemma hs_emit_frame [simp]:
  "hs_threads (hs_emit e h) = hs_threads h" "hs_store (hs_emit e h) = hs_store h" "hs_inbox (hs_emit e h) = hs_inbox h"
  "hs_providers (hs_emit e h) = hs_providers h" "held (hs_emit e h) = held h" "keeps C (hs_emit e h) h' = keeps C h h'"
  by (simp_all add: hs_emit_def held_def keeps_def)

lemma deliver_reply_keeps:
  assumes "deliver_reply E msg i t mid reply h w = (r, h', w')" and "map_of (hs_threads h) i = Some t0"
    and "th_channel t = th_channel t0"
  shows "keeps C h h'"
  using assms keeps_set_thread [OF assms(2)]
  by (auto simp: deliver_reply_def Let_def push_assistant_def keeps_refl split: option.splits prod.splits)

lemma finish_turn_keeps:
  assumes "finish_turn E msg i t mid answer h w = (r, h', w')" and "map_of (hs_threads h) i = Some t"
  shows "keeps C h h'"
proof (cases answer)
  case (Inl m)
  then have "keeps C (hs_emit (TurnCompleted i mid []) (hs_emit (ErrorEvent (Some i) (Some mid) m) h)) h'"
    using assms by (intro deliver_reply_keeps [where ?t0.0 = t]) (simp_all add: finish_turn_def Let_def)
  then show ?thesis by simp
next
  case (Inr reply)
  then have "keeps C (hs_emit (TurnCompleted i mid (case reply of Some c \<Rightarrow> summary c | None \<Rightarrow> [])) h) h'"
    using assms by (intro deliver_reply_keeps [where ?t0.0 = t]) (simp_all add: finish_turn_def Let_def)
  then show ?thesis by simp
qed

lemma accept_keeps:
  assumes "accept_inbound E msg i t h w = (r, h', w')" and "map_of (hs_threads h) i = Some t"
  shows "keeps C h h'" and "held h \<Longrightarrow> th_channel t = ib_channel msg \<Longrightarrow>
    (ib_channel msg, ib_provider_msg_id msg) \<in> seen (hs_store h')"
proof -
  obtain rec w1 where rec: "record_for E i Inbound (ib_content msg) (Some (ib_provider_msg_id msg)) None w = (rec, w1)"
    by (cases "record_for E i Inbound (ib_content msg) (Some (ib_provider_msg_id msg)) None w")
  then have fields: "mr_thread rec = i" "mr_direction rec = Inbound" "mr_provider_msg_id rec = Some (ib_provider_msg_id msg)"
      "mr_idempotency_key rec = None" "record_ok rec"
    by (auto simp: record_for_def record_ok_def split: prod.splits)
  obtain r1 s' where s': "cs_append_message st rec (hs_store h) = (r1, s')" by (cases "cs_append_message st rec (hs_store h)")
  let ?t = "push_user (ib_content msg) t"
  let ?h = "set_thread i ?t h"
  have set: "keeps C h ?h" for C by (rule keeps_set_thread [OF assms(2)]) (simp add: push_user_def)
  have store_h: "hs_store ?h = hs_store h" by (simp add: set_thread_def)
  have app: "keeps C h (?h\<lparr>hs_store := s'\<rparr>)" for C
    using s' fields(5) by (intro keeps_trans [OF set keeps_append [where r = r1]]) (simp_all add: store_h)
  have both: "keeps C h h' \<and> (held h \<longrightarrow> th_channel t = ib_channel msg \<longrightarrow>
      (ib_channel msg, ib_provider_msg_id msg) \<in> seen (hs_store h'))" for C
  proof (cases r1)
    case (Inl e)
    then have "h' = ?h\<lparr>hs_store := s'\<rparr>"
      using assms(1) unfolding accept_inbound_def Let_def rec store prod.case store_h s' Inl sum.case by simp
    moreover have "\<not> held h"
      using append_message_ok [OF _ s'] Inl by (auto simp: held_def)
    ultimately show ?thesis using app by simp
  next
    case (Inr u)
    obtain answer w2 where d: "dispatch E msg ?t w1 = (answer, w2)" by (cases "dispatch E msg ?t w1")
    define h2 where "h2 = hs_emit (TurnStarted i (mr_id rec))
      (hs_emit (MessageReceived i (mr_id rec) (ib_peer msg) (summary (ib_content msg))) (?h\<lparr>hs_store := s'\<rparr>))"
    have "finish_turn E msg i ?t (mr_id rec) answer h2 w2 = (r, h', w')"
      using assms(1) unfolding accept_inbound_def Let_def rec store prod.case store_h s' Inr sum.case d h2_def .
    moreover have "map_of (hs_threads h2) i = Some ?t" by (simp add: h2_def set_thread_def update_conv')
    ultimately have turn: "keeps C h2 h'" for C by (rule finish_turn_keeps)
    have h2: "keeps C h h2" for C using app by (simp add: h2_def)
    have "(ib_channel msg, ib_provider_msg_id msg) \<in> seen (hs_store h')" if h: "held h" "th_channel t = ib_channel msg"
    proof -
      have "good (hs_store h)" "owner (hs_store h) i = Some (ib_channel msg)"
        using h assms(2) by (auto simp: held_def)
      then have "(ib_channel msg, ib_provider_msg_id msg) \<in> seen (hs_store h2)"
        using append_message [OF _ fields(5) s'] fields Inr by (simp add: h2_def)
      moreover have "held h2" using h(1) h2 [of "{}"] by (simp add: keeps_def)
      then have "seen (hs_store h2) \<subseteq> seen (hs_store h')" using turn [of "{}"] by (simp add: keeps_def)
      ultimately show ?thesis by (rule rev_subsetD)
    qed
    with keeps_trans [OF h2 turn] show ?thesis by blast
  qed
  then show "keeps C h h'" by blast
  from both show "held h \<Longrightarrow> th_channel t = ib_channel msg \<Longrightarrow>
    (ib_channel msg, ib_provider_msg_id msg) \<in> seen (hs_store h')" by blast
qed

lemma handle_keeps:
  assumes "handle_inbound E msg h w = (r, h', w')" and "plain (ib_channel msg)"
  shows "keeps C h h'"
proof -
  let ?i = "for_peer (ib_channel msg) (ib_peer msg)"
  have "keeps C h h'" if new: "cs_has_inbound st (ib_channel msg) (ib_provider_msg_id msg) (hs_store h) = Inr False"
  proof (cases "map_of (hs_threads h) ?i")
    case (Some t)
    then have "accept_inbound E msg ?i t h w = (r, h', w')"
      using assms(1) new by (simp add: handle_inbound_def store)
    then show ?thesis using Some by (rule accept_keeps)
  next
    case None
    obtain r1 h1 where a: "auto_open E msg h = (r1, h1)" by (cases "auto_open E msg h")
    have "keeps C h h1" using a assms(2) by (rule auto_open_keeps)
    moreover have "keeps C h1 h'"
    proof (cases r1)
      case (Inr t)
      then have "accept_inbound E msg ?i t h1 w = (r, h', w')"
        using assms(1) new a None by (simp add: handle_inbound_def store)
      then show ?thesis using auto_open_ok a Inr by (blast intro: accept_keeps)
    qed (use assms(1) new a None in \<open>auto simp: handle_inbound_def store keeps_refl\<close>)
    ultimately show ?thesis by (rule keeps_trans)
  qed
  then show ?thesis
    using assms(1) by (auto simp: handle_inbound_def store keeps_refl split: sum.splits bool.splits)
qed

lemma handled_seen:
  assumes "handle_inbound E msg h w = (r, h', w')" and "plain (ib_channel msg)" and "held h"
    and "map_of (hs_threads h) (for_peer (ib_channel msg) (ib_peer msg)) \<noteq> None \<or> he_auto_open_target E \<noteq> None"
    and "cs_has_inbound st (ib_channel msg) (ib_provider_msg_id msg) (hs_store h) = Inr b"
  shows "(ib_channel msg, ib_provider_msg_id msg) \<in> seen (hs_store h')"
proof (cases b)
  case True
  then show ?thesis using assms has_inbound by (auto simp: handle_inbound_def store held_def)
next
  case False
  let ?i = "for_peer (ib_channel msg) (ib_peer msg)"
  show ?thesis
  proof (cases "map_of (hs_threads h) ?i")
    case (Some t)
    then have "accept_inbound E msg ?i t h w = (r, h', w')"
      using assms(1,5) False by (simp add: handle_inbound_def store)
    then show ?thesis using accept_keeps(2) Some held_channel assms(2,3) by blast
  next
    case None
    obtain r1 h1 where a: "auto_open E msg h = (r1, h1)" by (cases "auto_open E msg h")
    then obtain t where t: "r1 = Inr t"
      using auto_open_error [of msg h _ h1] assms(3,4) None by (cases r1) auto
    then have "accept_inbound E msg ?i t h1 w = (r, h', w')"
      using assms(1,5) False a None by (simp add: handle_inbound_def store)
    moreover have "held h1" using auto_open_keeps [OF a assms(2)] assms(3) by (simp add: keeps_def)
    ultimately show ?thesis using accept_keeps(2) auto_open_ok a t by blast
  qed
qed

lemma inbound_step_keeps: "inbound_step E h w = (h', w') \<Longrightarrow> keeps C h h'"
proof (cases "hs_inbox h")
  case (Cons msg rest)
  assume step: "inbound_step E h w = (h', w')"
  obtain r h1 w1 where m: "handle_inbound E msg (h\<lparr>hs_inbox := rest\<rparr>) w = (r, h1, w1)" by (metis prod_cases3)
  have "keeps C h h1" if "held h"
  proof -
    have "plain (ib_channel msg)" "keeps C h (h\<lparr>hs_inbox := rest\<rparr>)" using that Cons by (auto simp: keeps_def held_def)
    then show ?thesis using handle_keeps [OF m] keeps_trans by blast
  qed
  then have "keeps C h h1" by (auto simp: keeps_def)
  then show ?thesis using step m Cons by (cases r) (auto simp: inbound_step_def)
qed (auto simp: inbound_step_def keeps_refl)

lemma worker_step_keeps: "worker_step E c h w = (h', w') \<Longrightarrow> keeps C h h'"
proof -
  have "keeps C h h'" if "snd (run_job E pv c j (h\<lparr>hs_providers := ps\<rparr>) w) = (h', w')" for pv j ps
  proof -
    have "keeps C (h\<lparr>hs_providers := ps\<rparr>) h'"
      using that by (cases "run_job E pv c j (h\<lparr>hs_providers := ps\<rparr>) w") (auto intro: run_job_keeps)
    moreover have "keeps C h (h\<lparr>hs_providers := ps\<rparr>)" by (simp add: keeps_refl)
    ultimately show ?thesis using keeps_trans by blast
  qed
  then show "worker_step E c h w = (h', w') \<Longrightarrow> ?thesis"
    by (auto simp: worker_step_def keeps_refl split: option.splits list.splits)
qed

lemma step_keeps:
  assumes "hs_step E op (h, w) = (h', w')" and "plain_op op"
  shows "keeps (closes op) h h'"
proof -
  show ?thesis
  proof (cases op)
    case (OpAttach spec pv)
    then show ?thesis using assms snd_eq_pair attach_keeps by fastforce
  next
    case (OpDetach c)
    then show ?thesis using assms snd_eq_pair detach_keeps by fastforce
  next
    case (OpOpen c p target)
    then show ?thesis using assms snd_eq_pair open_keeps by fastforce
  next
    case (OpClose i)
    then show ?thesis using assms snd_eq_pair close_keeps by fastforce
  next
    case (OpSend i content)
    then show ?thesis using assms snd_eq_pair send_keeps by fastforce
  next
    case (OpIngest msg)
    then show ?thesis using assms by (auto simp: hs_ingest_def keeps_def held_def)
  next
    case OpInbound
    then show ?thesis using assms inbound_step_keeps by simp
  next
    case (OpWork c)
    then show ?thesis using assms worker_step_keeps by simp
  qed
qed

lemma run_keeps:
  "hs_run E ops (h, w) = (h', w') \<Longrightarrow> list_all plain_op ops \<Longrightarrow> keeps (\<Union>op \<in> set ops. closes op) h h'"
proof (induction ops arbitrary: h w)
  case (Cons op ops)
  obtain h1 w1 where s: "hs_step E op (h, w) = (h1, w1)" by (cases "hs_step E op (h, w)")
  then have "keeps (closes op) h h1" using Cons.prems(2) by (intro step_keeps) simp_all
  then have a: "keeps (\<Union>op \<in> set (op # ops). closes op) h h1" by (rule keeps_mono) auto
  have "keeps (\<Union>op \<in> set ops. closes op) h1 h'"
    using Cons.prems s by (intro Cons.IH [of h1 w1]) (simp_all add: hs_run_def)
  then have "keeps (\<Union>op \<in> set (op # ops). closes op) h1 h'" by (rule keeps_mono) auto
  with a show ?case by (rule keeps_trans)
qed (simp add: hs_run_def keeps_refl)

text \<open>A second message with the same channel and provider id is reported as a duplicate and does nothing else.\<close>

lemma answered_once:
  assumes "held h1" and "plain (ib_channel m)"
    and "map_of (hs_threads h1) (for_peer (ib_channel m) (ib_peer m)) \<noteq> None \<or> he_auto_open_target E \<noteq> None"
    and "cs_has_inbound st (ib_channel m) (ib_provider_msg_id m) (hs_store h1) = Inr b1"
    and "handle_inbound E m h1 w1 = (r, h2, w2)" and "hs_run E ops (h2, w2) = (h3, w3)" and "list_all plain_op ops"
    and "ib_channel m' = ib_channel m" and "ib_provider_msg_id m' = ib_provider_msg_id m"
    and "cs_has_inbound st (ib_channel m') (ib_provider_msg_id m') (hs_store h3) = Inr b3"
  shows "handle_inbound E m' h3 w3 = (Inr (), hs_emit (MessageDuplicate (ib_thread m') (ib_provider_msg_id m')) h3, w3)"
proof -
  note run = run_keeps [OF assms(6,7)]
  have "(ib_channel m, ib_provider_msg_id m) \<in> seen (hs_store h2)" by (rule handled_seen [OF assms(5,2,1,3,4)])
  moreover have h2: "held h2" using handle_keeps [OF assms(5,2)] assms(1) by (rule keepsD)
  ultimately have "(ib_channel m', ib_provider_msg_id m') \<in> seen (hs_store h3)"
    unfolding assms(8,9) by (intro keepsD(2) [OF run])
  moreover have "held h3" using run h2 by (rule keepsD)
  ultimately have b3 using has_inbound [OF _ assms(10)] by (simp add: held_def)
  then show ?thesis using assms(10) by (simp add: handle_inbound_def store)
qed

text \<open>A message that was sent is not sent again under its key: its provider id is returned.\<close>

lemma process_one_sent:
  assumes "process_one E pv c msg h w = (Inr pid, h', w')" and "held h"
  shows "sent (hs_store h') (ob_thread msg) (ob_idempotency_key msg) = Some pid"
proof -
  have good: "good (hs_store h)" using assms(2) by (simp add: held_def)
  have app: "sent s' (ob_thread msg) (ob_idempotency_key msg) = Some pid"
    if "cs_append_message st rec (hs_store h) = (Inr u, s')"
      and "record_for E (ob_thread msg) Outbound (ob_content msg) (Some pid) (Some (ob_idempotency_key msg)) w1 = (rec, w2)"
      and "sent (hs_store h) (ob_thread msg) (ob_idempotency_key msg) = None" for rec u s' w1 w2
  proof -
    have "record_ok rec" using that(2) by (auto simp: record_for_def record_ok_def split: prod.splits)
    from append_message [OF good this that(1)] that(2,3) show ?thesis
      by (auto simp: record_for_def split: prod.splits)
  qed
  show ?thesis
    using assms(1) lookup [OF good] app
    by (auto simp: process_one_def store hs_emit_def split: sum.splits option.splits prod.splits)
qed

lemma sent_once:
  assumes "held h1" and "process_one E pv c msg h1 w1 = (Inr pid, h2, w2)"
    and "hs_run E ops (h2, w2) = (h3, w3)" and "list_all plain_op ops" and "OpClose (ob_thread msg) \<notin> set ops"
    and "ob_thread msg' = ob_thread msg" and "ob_idempotency_key msg' = ob_idempotency_key msg"
    and "cs_lookup_outbound st (ob_thread msg') (ob_idempotency_key msg') (hs_store h3) = Inr q"
  shows "process_one E pv' c' msg' h3 w3 = (Inr pid, h3, w3)"
proof -
  have h2: "held h2" using process_one_keeps [OF assms(2)] assms(1) by (rule keepsD)
  note run = keepsD [OF run_keeps [OF assms(3,4)] h2]
  have "ob_thread msg \<notin> (\<Union>op \<in> set ops. closes op)"
    using assms(5) by (auto elim!: mem_closes)
  then have "sent (hs_store h3) (ob_thread msg) (ob_idempotency_key msg) = Some pid"
    using process_one_sent [OF assms(2,1)] by (rule run(3))
  with run(1) have "q = Some pid" using lookup [OF _ assms(8)] assms(6,7) by (simp add: held_def)
  then show ?thesis using assms(8) by (simp add: process_one_def store)
qed

end

text \<open>The harness over the in-memory store, as the builder makes it when no other store is given.\<close>

definition in_memory_env ::
  "(('w, 'x) im_channels, 'w, 'x, 'b) harness_env \<Rightarrow> (('w, 'x) im_channels, 'w, 'x, 'b) harness_env" where
  "in_memory_env E = E\<lparr>he_store := im_channel_store\<rparr>"

interpretation im_channels: channel_log im_channel_store im_good im_owner im_inbound_seen im_sent "in_memory_env E" for E
  by unfold_locales (simp add: in_memory_env_def)

lemma im_queries:
  "\<exists>b. cs_has_inbound im_channel_store c p s = Inr b" "\<exists>q. cs_lookup_outbound im_channel_store i k s = Inr q"
  by (simp_all add: im_channel_store_def im_has_inbound_def im_lookup_outbound_def)

lemma new_held: "im_channels.held (hs_new im_channels_new)"
  by (simp add: im_channels.held_def hs_new_def im_good_def im_log_def im_channels_new_def)

text \<open>
  (C31) An inbound message is answered once: after a message has reached an open (or automatically opened) thread,
  whatever is attached, opened, closed, sent or received next, another delivery with the same channel and provider id
  reaches no target and no provider and changes nothing but to report the duplicate. Channel ids must not contain the
  sign that joins them to peers.
\<close>

theorem inbound_answered_once:
  assumes "list_all plain_op ops1" and "list_all plain_op ops2" and "plain (ib_channel m)"
    and "hs_run (in_memory_env E) ops1 (hs_new im_channels_new, w) = (h1, w1)"
    and "map_of (hs_threads h1) (for_peer (ib_channel m) (ib_peer m)) \<noteq> None \<or> he_auto_open_target E \<noteq> None"
    and "handle_inbound (in_memory_env E) m h1 w1 = (r, h2, w2)"
    and "hs_run (in_memory_env E) ops2 (h2, w2) = (h3, w3)"
    and "ib_channel m' = ib_channel m" and "ib_provider_msg_id m' = ib_provider_msg_id m"
  shows "handle_inbound (in_memory_env E) m' h3 w3 =
    (Inr (), hs_emit (MessageDuplicate (ib_thread m') (ib_provider_msg_id m')) h3, w3)"
proof -
  have "im_channels.held h1" using im_channels.run_keeps [OF assms(4,1)] new_held by (rule im_channels.keepsD)
  moreover have "map_of (hs_threads h1) (for_peer (ib_channel m) (ib_peer m)) \<noteq> None \<or> he_auto_open_target (in_memory_env E) \<noteq> None"
    using assms(5) by (simp add: in_memory_env_def)
  ultimately show ?thesis
    using im_channels.answered_once [OF _ assms(3) _ _ assms(6,7,2,8,9)] im_queries by blast
qed

text \<open>
  (C32) A message the provider accepted is sent once: until its thread is closed, any further job with the same thread and
  idempotency key returns the first provider id, without touching the provider or the store.
\<close>

theorem outbound_sent_once:
  assumes "list_all plain_op ops1" and "list_all plain_op ops2" and "OpClose (ob_thread msg) \<notin> set ops2"
    and "hs_run (in_memory_env E) ops1 (hs_new im_channels_new, w) = (h1, w1)"
    and "process_one (in_memory_env E) pv c msg h1 w1 = (Inr pid, h2, w2)"
    and "hs_run (in_memory_env E) ops2 (h2, w2) = (h3, w3)"
    and "ob_thread msg' = ob_thread msg" and "ob_idempotency_key msg' = ob_idempotency_key msg"
  shows "process_one (in_memory_env E) pv' c' msg' h3 w3 = (Inr pid, h3, w3)"
proof -
  have "im_channels.held h1" using im_channels.run_keeps [OF assms(4,1)] new_held by (rule im_channels.keepsD)
  then show ?thesis
    using im_channels.sent_once [OF _ assms(5,6,2,3,7,8)] im_queries by blast
qed

subsection \<open>A small harness\<close>

text \<open>The world counts fresh ids and collects what the provider was given; the target repeats the user's text.\<close>

type_synonym desk_world = "nat \<times> string list"

definition desk_provider :: "(desk_world, unit) channel_provider" where
  "desk_provider = \<lparr>pv_kind = MemoryKind, pv_start = (\<lambda>w. (Inr (), w)),
     pv_send = (\<lambda>msg (n, sent). (Inr (''p'' @ replicate (length sent) CHR ''x''), n, sent @ [as_text (ob_content msg)])),
     pv_verify_webhook = (\<lambda>_. Inr ()), pv_parse_webhook = (\<lambda>_. Inr [])\<rparr>"

definition echo_target :: "(desk_world, unit) thread_target" where
  "echo_target = CallableTarget \<lparr>c_call = (\<lambda>v ctx w. (case get_str v ''user'' of
     Some s \<Rightarrow> Inr (obj_of [(''text'', String s)]) | None \<Rightarrow> Inr Null, w)), c_label = ''echo''\<rparr>"

definition desk_env :: "((desk_world, unit) im_channels, desk_world, unit, unit) harness_env" where
  "desk_env = \<lparr>he_store = im_channel_store, he_default_policy = default_policy, he_auto_open_target = None,
     he_new_id = (\<lambda>(n, sent). (replicate n CHR ''i'', Suc n, sent)), he_sleep = (\<lambda>d w. w), he_content_to = (\<lambda>c. Null),
     he_content_from = (\<lambda>v. None), he_publish = (\<lambda>sp w. w), he_ctx = \<lparr>cc_trace = [], cc_rest = ()\<rparr>\<rparr>"

definition desk_spec :: channel_spec where
  "desk_spec = \<lparr>sp_id = ''desk'', sp_kind = MemoryKind, sp_config = Null, sp_capabilities = text_only, sp_description = None\<rparr>"

definition desk_ops :: "(desk_world, unit, unit) hs_op list" where
  "desk_ops = [OpAttach desk_spec desk_provider, OpOpen ''desk'' ''ann'' echo_target]"

definition hello :: inbound_message where
  "hello = \<lparr>ib_channel = ''desk'', ib_thread = ''desk#ann'', ib_peer = ''ann'', ib_provider_msg_id = ''m1'', ib_content = Text ''hi''\<rparr>"

definition desk1 where "desk1 = hs_run (in_memory_env desk_env) desk_ops (hs_new im_channels_new, (0, []))"

definition desk2 where "desk2 = snd (handle_inbound (in_memory_env desk_env) hello (fst desk1) (snd desk1))"

definition desk3 where "desk3 = hs_run (in_memory_env desk_env) [OpWork ''desk'', OpIngest hello, OpInbound] desk2"

lemma desk_sends: "snd (snd desk3) = [''hi'']"
  by code_simp

lemma desk_thread: "\<not> Option.is_none (map_of (hs_threads (fst desk1)) ''desk#ann'')"
  by code_simp

theorem inbound_answered_once_witness:
  "handle_inbound (in_memory_env desk_env) hello (fst desk3) (snd desk3) =
    (Inr (), hs_emit (MessageDuplicate ''desk#ann'' ''m1'') (fst desk3), snd desk3) \<and> snd (snd desk3) = [''hi'']"
proof -
  have "map_of (hs_threads (fst desk1)) (for_peer (ib_channel hello) (ib_peer hello)) \<noteq> None"
    using desk_thread by (simp add: hello_def for_peer_def Option.is_none_def)
  moreover obtain r where "handle_inbound (in_memory_env desk_env) hello (fst desk1) (snd desk1) = (r, fst desk2, snd desk2)"
    using snd_eq_pair [of "handle_inbound (in_memory_env desk_env) hello (fst desk1) (snd desk1)" "fst desk2" "snd desk2"]
    by (auto simp: desk2_def)
  ultimately have "handle_inbound (in_memory_env desk_env) hello (fst desk3) (snd desk3) =
    (Inr (), hs_emit (MessageDuplicate (ib_thread hello) (ib_provider_msg_id hello)) (fst desk3), snd desk3)"
    by (intro inbound_answered_once [where m = hello and m' = hello and ?ops1.0 = desk_ops and w = "(0, [])" and ?h1.0 = "fst desk1" and ?w1.0 = "snd desk1"
        and ?ops2.0 = "[OpWork ''desk'', OpIngest hello, OpInbound]" and ?h2.0 = "fst desk2" and ?w2.0 = "snd desk2"])
      (simp_all add: desk1_def desk3_def desk_ops_def plain_def hello_def)
  then show ?thesis using desk_sends by (simp add: hello_def)
qed

definition offer :: outbound_message where
  "offer = \<lparr>ob_channel = ''desk'', ob_thread = ''desk#ann'', ob_peer = ''ann'', ob_content = Text ''hello'', ob_reply_to = None,
     ob_idempotency_key = ''k1''\<rparr>"

definition desk4 where "desk4 = process_one (in_memory_env desk_env) desk_provider ''desk'' offer (fst desk1) (snd desk1)"

definition desk5 where "desk5 = hs_run (in_memory_env desk_env) [OpWork ''desk'', OpIngest hello, OpInbound] (snd desk4)"

lemma desk_offers: "fst desk4 = Inr ''p'' \<and> snd (snd desk5) = [''hello'']"
  by (rule conjI; code_simp)

theorem outbound_sent_once_witness:
  "process_one (in_memory_env desk_env) desk_provider ''desk'' offer (fst desk5) (snd desk5) = (Inr ''p'', fst desk5, snd desk5)"
proof -
  have "process_one (in_memory_env desk_env) desk_provider ''desk'' offer (fst desk1) (snd desk1) =
      (Inr ''p'', fst (snd desk4), snd (snd desk4))"
    using desk_offers by (simp add: desk4_def prod_eq_iff)
  then show ?thesis
    by (intro outbound_sent_once [where msg = offer and msg' = offer and ?ops1.0 = desk_ops and w = "(0, [])" and ?h1.0 = "fst desk1" and ?w1.0 = "snd desk1"
        and ?ops2.0 = "[OpWork ''desk'', OpIngest hello, OpInbound]" and ?h2.0 = "fst (snd desk4)" and ?w2.0 = "snd (snd desk4)"])
      (simp_all add: desk1_def desk5_def desk_ops_def plain_def hello_def)
qed

subsection \<open>Attempts\<close>

text \<open>
  The attempts against a script: the world holds the results the provider will give and collects the pauses. The
  answer is the first acceptance, or the error of the last attempt; the pauses double from the first, up to four seconds.
\<close>

definition scripted_provider :: "(string ch_result list \<times> nat list, unit) channel_provider" where
  "scripted_provider = \<lparr>pv_kind = MemoryKind, pv_start = (\<lambda>w. (Inr (), w)),
     pv_send = (\<lambda>msg (rs, log). (hd rs, tl rs, log)), pv_verify_webhook = (\<lambda>_. Inr ()), pv_parse_webhook = (\<lambda>_. Inr [])\<rparr>"

definition log_pause :: "nat \<Rightarrow> string ch_result list \<times> nat list \<Rightarrow> string ch_result list \<times> nat list" where
  "log_pause d w = (fst w, snd w @ [d])"

fun attempts_used :: "nat \<Rightarrow> 'a ch_result list \<Rightarrow> nat" where
  "attempts_used (Suc 0) (r # rs) = 1"
| "attempts_used (Suc n) (r # rs) = (if is_ok r then 1 else Suc (attempts_used n rs))"
| "attempts_used _ _ = 0"

fun pauses :: "nat \<Rightarrow> nat \<Rightarrow> nat list" where
  "pauses 0 d = []"
| "pauses (Suc n) d = d # pauses n (min (d * 2) 4000)"

lemma attempts_bounds: "n \<le> length rs \<Longrightarrow> 0 < n \<Longrightarrow> 1 \<le> attempts_used n rs \<and> attempts_used n rs \<le> n"
proof (induction n rs rule: attempts_used.induct)
  case (2 n r rs)
  then show ?case by (cases "is_ok r") auto
qed auto

lemma send_attempts_script:
  assumes "n \<le> length rs" and "0 < n"
  shows "send_attempts scripted_provider log_pause msg n d (rs, log) =
    (rs ! (attempts_used n rs - 1), drop (attempts_used n rs) rs, log @ pauses (attempts_used n rs - 1) d)"
  using assms
proof (induction n rs arbitrary: d log rule: attempts_used.induct)
  case (1 r rs)
  then show ?case by (cases r) (simp_all add: scripted_provider_def)
next
  case (2 n r rs)
  show ?case
  proof (cases r)
    case (Inl e)
    have len: "Suc n \<le> length rs" using "2.prems" by simp
    have used: "0 < attempts_used (Suc n) rs" using attempts_bounds [OF len] by simp
    have "send_attempts scripted_provider log_pause msg (Suc (Suc n)) d (r # rs, log) =
        send_attempts scripted_provider log_pause msg (Suc n) (min (d * 2) 4000) (rs, log @ [d])"
      by (subst send_attempts.simps(2)) (simp add: Inl scripted_provider_def log_pause_def del: send_attempts.simps)
    also have "\<dots> = (rs ! (attempts_used (Suc n) rs - 1), drop (attempts_used (Suc n) rs) rs,
        (log @ [d]) @ pauses (attempts_used (Suc n) rs - 1) (min (d * 2) 4000))"
      using "2.IH" Inl len by simp
    finally show ?thesis using used Inl by (cases "attempts_used (Suc n) rs") (simp_all add: nth_Cons')
  qed (simp add: scripted_provider_def)
qed auto

lemma three_attempts:
  "3 \<le> length rs \<Longrightarrow> length rs - length (fst (snd (send_attempts scripted_provider log_pause msg 3 100 (rs, log)))) \<le> 3"
  using attempts_bounds [of 3 rs] by (simp add: send_attempts_script)

subsection \<open>The in-process provider (memory.rs)\<close>

text \<open>
  Its inbox can be taken once, so it starts once; it accepts every message under a numbered id and keeps what it was given
  for the subscribers of its log. A provider without webhooks refuses them.
\<close>

record 'm memory_provider =
  mp_started :: bool
  mp_log :: "outbound_message list"
  mp_media :: "(string \<times> 'm) list"
  mp_counter :: "64 word"

definition mp_new :: "'m memory_provider" where
  "mp_new = \<lparr>mp_started = False, mp_log = [], mp_media = [], mp_counter = 0\<rparr>"

definition mp_start :: "'m memory_provider \<Rightarrow> unit ch_result \<times> 'm memory_provider" where
  "mp_start m = (if mp_started m then (Inl (Provider ''InMemoryProvider already started''), m) else (Inr (), m\<lparr>mp_started := True\<rparr>))"

definition mp_send :: "outbound_message \<Rightarrow> 'm memory_provider \<Rightarrow> string ch_result \<times> 'm memory_provider" where
  "mp_send msg m =
     (Inr (''mem-'' @ show_nat (unat (mp_counter m))), m\<lparr>mp_log := mp_log m @ [msg], mp_counter := mp_counter m + 1\<rparr>)"

definition mp_insert_media :: "string \<Rightarrow> 'm \<Rightarrow> 'm memory_provider \<Rightarrow> 'm memory_provider" where
  "mp_insert_media r bytes m = m\<lparr>mp_media := AList.update r bytes (mp_media m)\<rparr>"

definition mp_fetch_media :: "string \<Rightarrow> 'm memory_provider \<Rightarrow> 'm ch_result" where
  "mp_fetch_media r m = (case map_of (mp_media m) r of Some b \<Rightarrow> Inr b | None \<Rightarrow> Inl (Provider (''unknown media_ref: '' @ r)))"

definition memory_channel_provider :: "('m memory_provider, 'b) channel_provider" where
  "memory_channel_provider =
     \<lparr>pv_kind = MemoryKind, pv_start = mp_start, pv_send = mp_send,
      pv_verify_webhook = (\<lambda>_. Inl (UnsupportedOp ''verify_webhook'')), pv_parse_webhook = (\<lambda>_. Inl (UnsupportedOp ''parse_webhook''))\<rparr>"

fun mp_sends :: "outbound_message list \<Rightarrow> 'm memory_provider \<Rightarrow> string list" where
  "mp_sends [] m = []"
| "mp_sends (x # xs) m = (case mp_send x m of (r, m') \<Rightarrow> (case r of Inr pid \<Rightarrow> [pid] | Inl e \<Rightarrow> []) @ mp_sends xs m')"

lemma mp_sends_ids:
  "mp_sends xs m = map (\<lambda>i. ''mem-'' @ show_nat (unat (mp_counter m + of_nat i))) [0..<length xs]"
proof (induction xs arbitrary: m)
  case (Cons x xs)
  have "[0..<length (x # xs)] = 0 # map Suc [0..<length xs]" by (simp add: upt_conv_Cons map_Suc_upt del: upt_Suc)
  then show ?case by (simp add: mp_send_def Cons add.assoc)
qed simp

lemma mp_ids_distinct:
  assumes "length xs \<le> 2 ^ 64"
  shows "distinct (mp_sends xs m)"
proof -
  have "inj_on (\<lambda>i. ''mem-'' @ show_nat (unat (mp_counter m + of_nat i))) {0..<length xs}"
  proof (rule inj_onI)
    fix i j
    assume ij: "i \<in> {0..<length xs}" "j \<in> {0..<length xs}"
      "''mem-'' @ show_nat (unat (mp_counter m + of_nat i)) = ''mem-'' @ show_nat (unat (mp_counter m + of_nat j))"
    then have "unat (mp_counter m + of_nat i) = unat (mp_counter m + of_nat j)" by (auto dest!: show_nat_inj)
    then have "mp_counter m + of_nat i = mp_counter m + of_nat j" by (rule unsigned_word_eqI)
    then have "(of_nat i :: 64 word) = of_nat j" by simp
    then have "unat (of_nat i :: 64 word) = unat (of_nat j :: 64 word)" by simp
    then have "i mod 2 ^ 64 = j mod 2 ^ 64" by (simp add: unat_of_nat)
    then show "i = j" using ij(1,2) assms by simp
  qed
  then show ?thesis by (simp add: mp_sends_ids distinct_map)
qed

lemma mp_starts_once: "mp_start m = (Inr (), m') \<Longrightarrow> fst (mp_start m') = Inl (Provider ''InMemoryProvider already started'')"
  by (auto simp: mp_start_def split: if_splits)

subsection \<open>What the harness does not do\<close>

text \<open>A provider that fails to start leaves its channel in the store; a reply made of attachments only is dropped.\<close>

lemma failed_start_keeps_channel:
  assumes "map_of (hs_providers h) (sp_id spec) = None" and "pv_start pv w = (Inl e, w1)"
    and "cs_upsert_channel (he_store E) spec (hs_store h) = (Inr (), st1)"
  shows "attach_provider E spec pv h w = (Inl e, h\<lparr>hs_store := st1\<rparr>, w1)"
  using assms by (simp add: attach_provider_def)

lemma attachments_only_dropped:
  "non_empty (Mixed [Attachment m mime None]) = None" "non_empty (Attachment m mime None) = Some (Attachment m mime None)"
  by simp_all

text \<open>Opening a thread again overwrites its stored row with an empty history while the held thread keeps its messages.\<close>

lemma reopen_empties_row:
  assumes "map_of (hs_providers h) c \<noteq> None" and "map_of (hs_threads h) (for_peer c p) = Some old"
    and "open_thread E c p target h w = (r, h', w')"
  shows "\<exists>t. th_history t = [] \<and> hs_store h' = snd (cs_upsert_thread (he_store E) t (hs_store h)) \<and>
    map_of (hs_threads h') (for_peer c p) = Some (old\<lparr>th_target := target\<rparr>)"
  using assms
  by (intro exI [of _ "(thread_new c p target)\<lparr>th_policy := he_default_policy E\<rparr>"])
    (auto simp: open_thread_def Let_def thread_new_def set_thread_def hs_emit_def update_conv' split: sum.splits prod.splits)

end
