(* ===== verification/Prompts.thy ===== *)
theory Prompts
  imports Callable Strings "HOL-Library.Multiset"
begin

text \<open>
  Prompt templates (\<open>crates/instruction/src/prompt_template.rs\<close>): interpolation of variables, chat templates
  and few-shot examples. Variables are in a hash map, which is read in no particular order: \<open>iter\<close> lists its entries.
\<close>

subsection \<open>Replacing text\<close>

text \<open>\<open>str::replace\<close>.\<close>

definition replace_all :: "string \<Rightarrow> string \<Rightarrow> string \<Rightarrow> string" where
  "replace_all p v s = join_with v (split_on p s)"

lemma join_split_ne_cur: "join_with v (split_ne p (cur @ cur') s) = cur @ join_with v (split_ne p cur' s)"
  by (induction p cur' s rule: split_ne.induct) (simp_all add: join_with_Cons)

lemma replace_all_simps:
  "p \<noteq> [] \<Longrightarrow> replace_all p v [] = []"
  "p \<noteq> [] \<Longrightarrow> take (length p) s = p \<Longrightarrow> replace_all p v s = v @ replace_all p v (drop (length p) s)"
  "p \<noteq> [] \<Longrightarrow> take (length p) (c # s) \<noteq> p \<Longrightarrow> replace_all p v (c # s) = c # replace_all p v s"
  using join_split_ne_cur [of v p "[c]" "[]" s]
  by (auto simp: replace_all_def split_on_def join_with_Cons neq_Nil_conv Cons_eq_append_conv take_Cons' split: if_splits)
    (cases s; simp add: join_with_Cons)+

lemma replace_all_skip: "p = c # p' \<Longrightarrow> c \<notin> set l \<Longrightarrow> replace_all p v (l @ s) = l @ replace_all p v s"
  by (induction l) (auto simp: replace_all_simps(3))

subsection \<open>String templates\<close>

definition brace :: "string \<Rightarrow> string" where
  "brace k = CHR ''{'' # k @ ''}''"

fun value_text :: "(json \<Rightarrow> string) \<Rightarrow> json \<Rightarrow> string" where
  "value_text print (String s) = s"
| "value_text print other = print other"

definition render_template :: "(json \<Rightarrow> string) \<Rightarrow> (string \<times> json) list \<Rightarrow> string \<Rightarrow> string" where
  "render_template print vars t = fold (\<lambda>(k, v) out. replace_all (brace k) (value_text print v) out) vars t"

text \<open>Templates as their author means them: plain text and named variables.\<close>

datatype segment = Lit string | Var string

fun flat :: "segment \<Rightarrow> string" where
  "flat (Lit s) = s"
| "flat (Var k) = brace k"

definition no_brace :: "string \<Rightarrow> bool" where
  "no_brace s \<longleftrightarrow> CHR ''{'' \<notin> set s \<and> CHR ''}'' \<notin> set s"

fun seg_ok :: "segment \<Rightarrow> bool" where
  "seg_ok (Lit s) = no_brace s"
| "seg_ok (Var k) = no_brace k"

fun seg_subst :: "string \<Rightarrow> string \<Rightarrow> segment \<Rightarrow> segment" where
  "seg_subst k v (Var k') = (if k' = k then Lit v else Var k')"
| "seg_subst k v (Lit s) = Lit s"

lemma brace_take:
  assumes "no_brace k" and "no_brace k'"
  shows "take (length (brace k)) (brace k' @ s) = brace k \<longleftrightarrow> k = k'"
proof
  assume t: "take (length (brace k)) (brace k' @ s) = brace k"
  let ?t = "takeWhile (\<lambda>c. c \<noteq> CHR ''}'')"
  have "brace k' @ s = brace k @ drop (length (brace k)) (brace k' @ s)"
    using append_take_drop_id [of "length (brace k)" "brace k' @ s"] unfolding t by (rule sym)
  then have "?t (k' @ ''}'' @ s) = ?t (k @ ''}'' @ drop (length (brace k)) (brace k' @ s))" by (simp add: brace_def)
  moreover have "?t (a @ ''}'' @ r) = a" if "no_brace a" for a r
    using that by (simp add: no_brace_def takeWhile_append)
  ultimately show "k = k'" using assms by simp
qed simp

lemma replace_segments:
  assumes "no_brace k" and "list_all seg_ok segs"
  shows "replace_all (brace k) v (concat (map flat segs)) = concat (map flat (map (seg_subst k v) segs))"
  using assms(2)
proof (induction segs)
  case Nil
  then show ?case by (simp add: replace_all_simps brace_def)
next
  case (Cons g segs)
  show ?case
  proof (cases g)
    case (Lit s)
    then show ?thesis using Cons by (simp add: replace_all_skip [where c = "CHR ''{''"] brace_def no_brace_def)
  next
    case (Var k')
    have k': "no_brace k'" using Cons.prems Var by simp
    show ?thesis
    proof (cases "k' = k")
      case True
      have "replace_all (brace k) v (brace k @ concat (map flat segs)) = v @ replace_all (brace k) v (concat (map flat segs))"
        by (subst replace_all_simps(2)) (simp_all add: brace_def)
      then show ?thesis using Cons Var True by simp
    next
      case False
      let ?r = "concat (map flat segs)"
      have split: "brace k' @ ?r = CHR ''{'' # (k' @ ''}'') @ ?r" by (simp add: brace_def)
      have ne: "take (length (brace k)) (CHR ''{'' # (k' @ ''}'') @ ?r) \<noteq> brace k"
        using brace_take [OF assms(1) k'] False unfolding split [symmetric] by blast
      have "replace_all (brace k) v (brace k' @ ?r) = CHR ''{'' # replace_all (brace k) v ((k' @ ''}'') @ ?r)"
        unfolding split by (rule replace_all_simps(3) [OF _ ne]) (simp add: brace_def)
      also have "\<dots> = brace k' @ replace_all (brace k) v ?r"
        using k' by (subst replace_all_skip [where c = "CHR ''{''"]) (auto simp: brace_def no_brace_def)
      finally show ?thesis using Cons Var False by simp
    qed
  qed
qed

lemma seg_subst_ok: "no_brace v \<Longrightarrow> list_all seg_ok segs \<Longrightarrow> list_all seg_ok (map (seg_subst k v) segs)"
  by (auto simp: list_all_iff elim!: seg_subst.elims) (metis seg_ok.simps seg_subst.simps segment.exhaust)

text \<open>
  What the template means by its documentation: every variable is replaced by its value at once, a missing one by the
  empty string. \<open>leave\<close> is what one pass per variable makes of it.
\<close>

fun fill :: "(json \<Rightarrow> string) \<Rightarrow> (string \<rightharpoonup> json) \<Rightarrow> segment \<Rightarrow> string" where
  "fill print m (Lit s) = s"
| "fill print m (Var k) = (case m k of Some v \<Rightarrow> value_text print v | None \<Rightarrow> [])"

fun leave :: "(json \<Rightarrow> string) \<Rightarrow> (string \<rightharpoonup> json) \<Rightarrow> segment \<Rightarrow> string" where
  "leave print m (Lit s) = s"
| "leave print m (Var k) = (case m k of Some v \<Rightarrow> value_text print v | None \<Rightarrow> brace k)"

definition vars_given :: "(string \<times> json) list \<Rightarrow> segment list \<Rightarrow> bool" where
  "vars_given vars segs \<longleftrightarrow> list_all (\<lambda>g. case g of Lit s \<Rightarrow> True | Var k \<Rightarrow> k \<in> fst ` set vars) segs"

lemma leave_given: "vars_given vars segs \<Longrightarrow> map (leave print (map_of vars)) segs = map (fill print (map_of vars)) segs"
  by (induction segs) (auto simp: vars_given_def map_of_eq_None_iff split: segment.splits option.splits)

definition vars_ok :: "(json \<Rightarrow> string) \<Rightarrow> (string \<times> json) list \<Rightarrow> bool" where
  "vars_ok print vars \<longleftrightarrow> distinct (map fst vars) \<and> list_all (\<lambda>(k, v). no_brace k \<and> no_brace (value_text print v)) vars"

lemma render_segments:
  assumes "vars_ok print vars" and "list_all seg_ok segs"
  shows "render_template print vars (concat (map flat segs)) = concat (map (leave print (map_of vars)) segs)"
  using assms
proof (induction vars arbitrary: segs)
  case Nil
  have "flat = leave print Map.empty" by (rule ext) (metis leave.simps flat.simps option.simps(4) segment.exhaust)
  then show ?case by (simp add: render_template_def)
next
  case (Cons kv vars)
  obtain k v where kv: "kv = (k, v)" by force
  let ?v = "value_text print v"
  have ok: "no_brace k" "no_brace ?v" "k \<notin> fst ` set vars" "vars_ok print vars"
    using Cons.prems(1) by (auto simp: vars_ok_def kv)
  have "render_template print ((k, v) # vars) (concat (map flat segs)) =
      render_template print vars (concat (map flat (map (seg_subst k ?v) segs)))"
    using replace_segments [OF ok(1) Cons.prems(2)] by (simp add: render_template_def)
  also have "\<dots> = concat (map (leave print (map_of vars)) (map (seg_subst k ?v) segs))"
    by (rule Cons.IH [OF ok(4) seg_subst_ok [OF ok(2) Cons.prems(2)]])
  also have "map (leave print (map_of vars)) (map (seg_subst k ?v) segs) = map (leave print (map_of ((k, v) # vars))) segs"
  proof -
    have "leave print (map_of vars) (seg_subst k ?v g) = leave print (map_of ((k, v) # vars)) g" for g
      using ok(3) by (cases g) (auto simp: map_of_eq_None_iff [symmetric])
    then show ?thesis by simp
  qed
  finally show ?case unfolding kv .
qed

text \<open>
  (C36) On a template of plain text and variables, each of which has a value, and with values that contain no braces,
  one pass per variable, in whatever order the hash map gives, is the replacement of every variable by its value at
  once. (A variable without a value is left as it is, see \<open>missing_var_stays\<close>.)
\<close>

theorem template_renders_once:
  assumes "vars_ok print vars" and "list_all seg_ok segs" and "vars_given vars segs" and "mset vars' = mset vars"
  shows "render_template print vars' (concat (map flat segs)) = concat (map (fill print (map_of vars)) segs)"
proof -
  have set: "set vars' = set vars" using assms(4) by (rule mset_eq_setD)
  moreover have "distinct (map fst vars')"
  proof -
    have "mset (map fst vars') = mset (map fst vars)" using assms(4) by simp
    then show ?thesis using assms(1) mset_eq_imp_distinct_iff unfolding vars_ok_def by blast
  qed
  ultimately have ok: "vars_ok print vars'" using assms(1) by (simp add: vars_ok_def list_all_iff)
  have "map_of vars' = map_of vars"
    using set ok assms(1) by (intro map_of_inject_set [THEN iffD2]) (simp_all add: vars_ok_def)
  with render_segments [OF ok assms(2)] leave_given [OF assms(3), of print] show ?thesis by simp
qed

theorem template_renders_once_witness:
  "render_template (\<lambda>v. ''null'') [(''task'', Null), (''role'', String ''clerk'')]
     (concat (map flat [Lit ''You are a '', Var ''role'', Lit '': '', Var ''task'', Lit ''!''])) =
   ''You are a clerk: null!''"
  by (subst template_renders_once [where vars = "[(''role'', String ''clerk''), (''task'', Null)]"])
    (simp_all add: vars_ok_def no_brace_def brace_def vars_given_def)

text \<open>A variable without a value stays in the text, and a value that looks like a variable may be replaced in turn.\<close>

lemma missing_var_stays: "render_template print [] t = t"
  by (simp add: render_template_def)

lemma value_injection:
  "render_template print [(''a'', String ''{b}''), (''b'', String ''secret'')] ''{a}'' = ''secret''"
  "render_template print [(''b'', String ''secret''), (''a'', String ''{b}'')] ''{a}'' = ''{b}''"
  by (simp_all add: render_template_def brace_def replace_all_def split_on_def)

subsection \<open>Chat templates\<close>

datatype message_template =
    SystemT string
  | UserT string
  | AssistantT string
  | PlaceholderT string

record rendered_message =
  rm_role :: message_role
  rm_content :: string

record chat_template =
  ct_messages :: "message_template list"
  ct_partial :: "(string \<times> json) list"

definition ct_builder :: chat_template where
  "ct_builder = \<lparr>ct_messages = [], ct_partial = []\<rparr>"

definition ct_add :: "message_template \<Rightarrow> chat_template \<Rightarrow> chat_template" where
  "ct_add m t = t\<lparr>ct_messages := ct_messages t @ [m]\<rparr>"

definition set_partial :: "string \<Rightarrow> json \<Rightarrow> chat_template \<Rightarrow> chat_template" where
  "set_partial k v t = t\<lparr>ct_partial := AList.update k v (ct_partial t)\<rparr>"

definition role_from_str :: "string \<Rightarrow> message_role" where
  "role_from_str s = (if s = ''system'' then RoleSystem else if s = ''assistant'' then RoleAssistant
     else if s = ''tool'' then RoleTool else RoleUser)"

definition placed_message :: "json \<Rightarrow> rendered_message" where
  "placed_message entry =
     \<lparr>rm_role = role_from_str (case get_str entry ''role'' of Some r \<Rightarrow> r | None \<Rightarrow> ''user''),
      rm_content = (case get_str entry ''content'' of Some c \<Rightarrow> c | None \<Rightarrow> [])\<rparr>"

fun render_message ::
  "(json \<Rightarrow> string) \<Rightarrow> ((string \<times> json) list \<Rightarrow> (string \<times> json) list) \<Rightarrow> (string \<times> json) list \<Rightarrow> message_template \<Rightarrow>
   rendered_message list" where
  "render_message print iter m (SystemT t) = [\<lparr>rm_role = RoleSystem, rm_content = render_template print (iter m) t\<rparr>]"
| "render_message print iter m (UserT t) = [\<lparr>rm_role = RoleUser, rm_content = render_template print (iter m) t\<rparr>]"
| "render_message print iter m (AssistantT t) = [\<lparr>rm_role = RoleAssistant, rm_content = render_template print (iter m) t\<rparr>]"
| "render_message print iter m (PlaceholderT k) =
     (case Option.bind (map_of m k) as_array of Some arr \<Rightarrow> map placed_message arr | None \<Rightarrow> [])"

definition merged_vars :: "(string \<times> json) list \<Rightarrow> (string \<times> json) list \<Rightarrow> (string \<times> json) list" where
  "merged_vars partial vars = fold (\<lambda>(k, v) m. AList.update k v m) vars partial"

definition render_chat ::
  "(json \<Rightarrow> string) \<Rightarrow> ((string \<times> json) list \<Rightarrow> (string \<times> json) list) \<Rightarrow> chat_template \<Rightarrow> (string \<times> json) list \<Rightarrow>
   rendered_message list result" where
  "render_chat print iter t vars =
     Inr (concat (map (render_message print iter (merged_vars (ct_partial t) vars)) (ct_messages t)))"

text \<open>A given variable overrides a partial one.\<close>

lemma merged_vars_lookup:
  assumes "distinct (map fst vars)"
  shows "map_of (merged_vars partial vars) = map_of partial ++ map_of vars"
  using assms
proof (induction vars arbitrary: partial)
  case (Cons kv vars)
  obtain k v where "kv = (k, v)" by force
  with Cons show ?case
    by (auto simp: merged_vars_def update_conv' map_add_def fun_eq_iff map_of_eq_None_iff split: option.splits
        dest: map_of_SomeD intro: rev_image_eqI)
qed (simp add: merged_vars_def)

lemma merged_vars_distinct: "distinct (map fst partial) \<Longrightarrow> distinct (map fst (merged_vars partial vars))"
  by (induction vars arbitrary: partial) (auto simp: merged_vars_def distinct_update)

subsection \<open>Examples\<close>

record example =
  ex_vars :: "(string \<times> json) list"
  ex_estimated_tokens :: u32
  ex_query_text :: string

text \<open>The sum of the estimates is a 32-bit number.\<close>

fun length_select :: "u32 \<Rightarrow> u32 \<Rightarrow> example list \<Rightarrow> example list" where
  "length_select max_tokens acc [] = []"
| "length_select max_tokens acc (e # es) =
     (if acc + ex_estimated_tokens e > max_tokens then []
      else e # length_select max_tokens (acc + ex_estimated_tokens e) es)"

definition total_tokens :: "example list \<Rightarrow> nat" where
  "total_tokens es = sum_list (map (unat \<circ> ex_estimated_tokens) es)"

text \<open>The longest run of examples from the front that fits, as long as the sums fit in 32 bits.\<close>

lemma length_select_from:
  assumes "unat acc + total_tokens es < 2 ^ 32"
  shows "\<exists>n \<le> length es. length_select m acc es = take n es \<and> (n = 0 \<or> unat acc + total_tokens (take n es) \<le> unat m) \<and>
    (n < length es \<longrightarrow> unat m < unat acc + total_tokens (take (Suc n) es))"
  using assms
proof (induction es arbitrary: acc)
  case (Cons e es)
  have sum: "unat (acc + ex_estimated_tokens e) = unat acc + unat (ex_estimated_tokens e)"
    using Cons.prems by (subst unat_plus_simple [THEN iffD1]) (simp_all add: total_tokens_def no_olen_add_nat)
  show ?case
  proof (cases "acc + ex_estimated_tokens e > m")
    case True
    then show ?thesis
      by (intro exI [of _ 0]) (simp add: sum [symmetric] total_tokens_def word_less_nat_alt)
  next
    case False
    have "unat (acc + ex_estimated_tokens e) + total_tokens es < 2 ^ 32"
      using Cons.prems by (simp add: sum total_tokens_def)
    from Cons.IH [OF this] obtain n where n: "n \<le> length es"
      "length_select m (acc + ex_estimated_tokens e) es = take n es"
      "n = 0 \<or> unat (acc + ex_estimated_tokens e) + total_tokens (take n es) \<le> unat m"
      "n < length es \<longrightarrow> unat m < unat (acc + ex_estimated_tokens e) + total_tokens (take (Suc n) es)" by blast
    have "unat acc + unat (ex_estimated_tokens e) \<le> unat m"
      using False by (simp add: sum [symmetric] word_le_nat_alt not_less)
    with n False show ?thesis
      by (intro exI [of _ "Suc n"]) (auto simp: sum total_tokens_def)
  qed
qed simp

lemma length_select_wraps:
  "length_select 100 0 [\<lparr>ex_vars = [], ex_estimated_tokens = 50, ex_query_text = []\<rparr>,
     \<lparr>ex_vars = [], ex_estimated_tokens = 4294967295, ex_query_text = []\<rparr>] =
   [\<lparr>ex_vars = [], ex_estimated_tokens = 50, ex_query_text = []\<rparr>,
    \<lparr>ex_vars = [], ex_estimated_tokens = 4294967295, ex_query_text = []\<rparr>]"
  by simp

text \<open>Semantic selection: vectors are \<open>'v\<close>, scores \<open>'f\<close>, the sort is stable and descending.\<close>

fun embed_examples ::
  "(string \<Rightarrow> 'w \<Rightarrow> 'v result \<times> 'w) \<Rightarrow> ('v \<Rightarrow> 'f) \<Rightarrow> example list \<Rightarrow> 'w \<Rightarrow> ('f \<times> example) list result \<times> 'w" where
  "embed_examples embedder score [] w = (Inr [], w)"
| "embed_examples embedder score (e # es) w =
     (case embedder (ex_query_text e) w of
        (Inl err, w1) \<Rightarrow> (Inl err, w1)
      | (Inr v, w1) \<Rightarrow>
          (case embed_examples embedder score es w1 of
             (Inl err, w2) \<Rightarrow> (Inl err, w2)
           | (Inr rest, w2) \<Rightarrow> (Inr ((score v, e) # rest), w2)))"

definition sort_desc :: "('f::linorder \<times> 'a) list \<Rightarrow> ('f \<times> 'a) list" where
  "sort_desc xs = rev (sort_key fst (rev xs))"

definition semantic_select ::
  "(string \<Rightarrow> 'w \<Rightarrow> 'v result \<times> 'w) \<Rightarrow> ('v \<Rightarrow> 'v \<Rightarrow> 'f::linorder) \<Rightarrow> string \<Rightarrow> nat \<Rightarrow> example list \<Rightarrow> (string \<times> json) list \<Rightarrow> 'w \<Rightarrow>
   example list result \<times> 'w" where
  "semantic_select embedder cosine query_key top_k exs vars w =
     (case Option.bind (map_of vars query_key) as_str of
        None \<Rightarrow> (Inl (Internal (''missing var '' @ [CHR 0x27] @ query_key @ [CHR 0x27])), w)
      | Some q \<Rightarrow>
          (case embedder q w of
             (Inl err, w1) \<Rightarrow> (Inl err, w1)
           | (Inr qv, w1) \<Rightarrow>
               (case embed_examples embedder (cosine qv) exs w1 of
                  (Inl err, w2) \<Rightarrow> (Inl err, w2)
                | (Inr scored, w2) \<Rightarrow> (Inr (map snd (take top_k (sort_desc scored))), w2))))"

text \<open>The choice: no example left out scores higher than one that was taken.\<close>

lemma embed_examples_scores:
  "embed_examples embedder score es w = (Inr scored, w') \<Longrightarrow> map snd scored = es"
  by (induction es arbitrary: w scored) (auto split: prod.splits sum.splits)

lemma sort_desc_mset: "mset (sort_desc xs) = mset xs"
  by (simp add: sort_desc_def)

lemma sort_desc_sorted: "sorted_wrt (\<lambda>a b. fst b \<le> fst a) (sort_desc xs)"
  using sorted_sort_key_map [of fst "rev xs"] by (simp add: sort_desc_def sorted_wrt_rev sorted_map)

lemma top_k_dominates:
  "x \<in> set (take k (sort_desc xs)) \<Longrightarrow> y \<in> set (drop k (sort_desc xs)) \<Longrightarrow> fst y \<le> fst x"
  using sort_desc_sorted [of xs] by (metis append_take_drop_id sorted_wrt_append)

subsection \<open>Few-shot templates\<close>

type_synonym 'w selector = "(string \<times> json) list \<Rightarrow> 'w \<Rightarrow> example list result \<times> 'w"

fun render_examples ::
  "(json \<Rightarrow> string) \<Rightarrow> ((string \<times> json) list \<Rightarrow> (string \<times> json) list) \<Rightarrow> chat_template \<Rightarrow> example list \<Rightarrow>
   rendered_message list result" where
  "render_examples print iter t [] = Inr []"
| "render_examples print iter t (e # es) =
     try_then (render_chat print iter t (ex_vars e)) (\<lambda>r. try_then (render_examples print iter t es) (\<lambda>rs. Inr (r @ rs)))"

definition render_few_shot ::
  "(json \<Rightarrow> string) \<Rightarrow> ((string \<times> json) list \<Rightarrow> (string \<times> json) list) \<Rightarrow> chat_template \<Rightarrow> 'w selector \<Rightarrow> chat_template \<Rightarrow>
   (string \<times> json) list \<Rightarrow> 'w \<Rightarrow> rendered_message list result \<times> 'w" where
  "render_few_shot print iter formatter select example_template vars w =
     (case select vars w of
        (Inl e, w1) \<Rightarrow> (Inl e, w1)
      | (Inr exs, w1) \<Rightarrow>
          (try_then (render_examples print iter example_template exs)
             (\<lambda>shots. try_then (render_chat print iter formatter vars) (\<lambda>r. Inr (shots @ r))), w1))"

lemma few_shot_ok: "(\<exists>rs. fst (render_few_shot print iter f select t vars w) = Inr rs) \<longleftrightarrow> is_ok (fst (select vars w))"
proof -
  have "\<exists>rs. render_examples print iter t es = Inr rs" for es
    by (induction es) (auto simp: render_chat_def)
  then show ?thesis by (auto simp: render_few_shot_def render_chat_def try_then_eq_Inr split: prod.splits sum.splits)
qed

end
