(* ===== verification/Conversation.thy ===== *)
theory Conversation
  imports Callable Strings
begin

text \<open>
  Speech to text (\<open>crates/stt-harness\<close>): the conversation a transcription accumulates, the diarization stage, the
  loop that folds bursts of stream events into it, its termination rules, and the in-memory store. Word timings
  and their 32-bit floats are \<open>'d\<close>; seconds and confidences are \<open>'f\<close>, compared by a linear order; \<open>secs\<close> is the
  conversion of milliseconds to seconds.
\<close>

subsection \<open>Stream events (stt-core)\<close>

type_synonym u8 = "8 word"

record speaker_tag =
  sk_id :: u8
  sk_label :: "string option"

record ('d, 'f) stt_segment =
  sg_text :: string
  sg_start_ms :: u32
  sg_end_ms :: u32
  sg_words :: "'d list"
  sg_speaker :: "speaker_tag option"
  sg_confidence :: "'f option"

datatype ('d, 'f) stream_event =
    PartialText string u32 u32 "'d list"
  | FinalSegment "('d, 'f) stt_segment"
  | SpeakerTurn speaker_tag u32
  | UtteranceEnd u32
  | Metadata json

subsection \<open>The conversation (conversation.rs)\<close>

datatype turn_status = PartialTurn | FinalTurn

datatype speaker_ref = Diarized speaker_tag | RoleRef message_role | UnknownSpeaker

fun ref_id :: "speaker_ref \<Rightarrow> u8 option" where
  "ref_id (Diarized tag) = Some (sk_id tag)"
| "ref_id _ = None"

record 'd partial_buf =
  pb_text :: string
  pb_start_ms :: u32
  pb_end_ms :: u32
  pb_words :: "'d list"

record ('d, 'f) stt_turn =
  tn_index :: nat
  tn_speaker :: speaker_ref
  tn_text :: string
  tn_start_ms :: u32
  tn_end_ms :: u32
  tn_words :: "'d list"
  tn_confidence :: "'f option"
  tn_state :: turn_status

definition speaker_id :: "('d, 'f) stt_turn \<Rightarrow> u8 option" where
  "speaker_id t = ref_id (tn_speaker t)"

record speaker_map =
  sm_roles :: "(u8 \<times> message_role) list"
  sm_default :: message_role

definition speaker_map_default :: speaker_map where
  "speaker_map_default = \<lparr>sm_roles = [], sm_default = RoleUser\<rparr>"

definition map_from_pairs :: "(u8 \<times> message_role) list \<Rightarrow> speaker_map" where
  "map_from_pairs pairs = \<lparr>sm_roles = fold (\<lambda>(i, r) m. AList.update i r m) pairs [], sm_default = RoleUser\<rparr>"

definition role_for :: "speaker_map \<Rightarrow> ('d, 'f) stt_turn \<Rightarrow> message_role" where
  "role_for m t =
     (case tn_speaker t of
        RoleRef r \<Rightarrow> r
      | Diarized tag \<Rightarrow> (case map_of (sm_roles m) (sk_id tag) of Some r \<Rightarrow> r | None \<Rightarrow> sm_default m)
      | UnknownSpeaker \<Rightarrow> sm_default m)"

record ('d, 'f) conversation =
  cv_id :: string
  cv_language :: "string option"
  cv_turns :: "('d, 'f) stt_turn list"
  cv_open_partial :: "'d partial_buf option"
  cv_backend :: "string option"
  cv_model_id :: "string option"
  cv_total_audio :: 'f
  cv_speaker_labels :: "(u8 \<times> string) list"
  cv_current_speaker :: "speaker_tag option"

definition conv_new :: "(u32 \<Rightarrow> 'f::linorder) \<Rightarrow> string \<Rightarrow> ('d, 'f) conversation" where
  "conv_new secs i =
     \<lparr>cv_id = i, cv_language = None, cv_turns = [], cv_open_partial = None, cv_backend = None, cv_model_id = None,
      cv_total_audio = secs 0, cv_speaker_labels = [], cv_current_speaker = None\<rparr>"

definition bump_audio :: "(u32 \<Rightarrow> 'f::linorder) \<Rightarrow> u32 \<Rightarrow> ('d, 'f) conversation \<Rightarrow> ('d, 'f) conversation" where
  "bump_audio secs end_ms c = (if cv_total_audio c < secs end_ms then c\<lparr>cv_total_audio := secs end_ms\<rparr> else c)"

definition apply_partial ::
  "(u32 \<Rightarrow> 'f::linorder) \<Rightarrow> string \<Rightarrow> u32 \<Rightarrow> u32 \<Rightarrow> 'd list \<Rightarrow> ('d, 'f) conversation \<Rightarrow> ('d, 'f) conversation" where
  "apply_partial secs text start_ms end_ms words c =
     (bump_audio secs end_ms c)\<lparr>cv_open_partial := Some \<lparr>pb_text = text, pb_start_ms = start_ms, pb_end_ms = end_ms, pb_words = words\<rparr>\<rparr>"

fun tagged :: "speaker_tag option \<Rightarrow> speaker_ref" where
  "tagged (Some tag) = Diarized tag"
| "tagged None = UnknownSpeaker"

definition segment_turn :: "('d, 'f) conversation \<Rightarrow> ('d, 'f) stt_segment \<Rightarrow> ('d, 'f) stt_turn" where
  "segment_turn c seg =
     \<lparr>tn_index = length (cv_turns c),
      tn_speaker = tagged (case sg_speaker seg of Some t \<Rightarrow> Some t | None \<Rightarrow> cv_current_speaker c),
      tn_text = sg_text seg, tn_start_ms = sg_start_ms seg, tn_end_ms = sg_end_ms seg, tn_words = sg_words seg,
      tn_confidence = sg_confidence seg, tn_state = FinalTurn\<rparr>"

definition commit_segment ::
  "(u32 \<Rightarrow> 'f::linorder) \<Rightarrow> ('d, 'f) stt_segment \<Rightarrow> ('d, 'f) conversation \<Rightarrow> ('d, 'f) stt_turn \<times> ('d, 'f) conversation" where
  "commit_segment secs seg c =
     (let turn = segment_turn c seg in
      (turn, (bump_audio secs (sg_end_ms seg) c)\<lparr>cv_open_partial := None, cv_turns := cv_turns c @ [turn]\<rparr>))"

definition note_speaker_change :: "speaker_tag \<Rightarrow> ('d, 'f) conversation \<Rightarrow> ('d, 'f) conversation" where
  "note_speaker_change tag c = c\<lparr>cv_current_speaker := Some tag\<rparr>"

definition partial_turn :: "('d, 'f) conversation \<Rightarrow> 'd partial_buf \<Rightarrow> ('d, 'f) stt_turn" where
  "partial_turn c p =
     \<lparr>tn_index = length (cv_turns c), tn_speaker = tagged (cv_current_speaker c), tn_text = pb_text p,
      tn_start_ms = pb_start_ms p, tn_end_ms = pb_end_ms p, tn_words = pb_words p, tn_confidence = None, tn_state = FinalTurn\<rparr>"

definition close_open_turn ::
  "(u32 \<Rightarrow> 'f::linorder) \<Rightarrow> u32 \<Rightarrow> ('d, 'f) conversation \<Rightarrow> ('d, 'f) stt_turn option \<times> ('d, 'f) conversation" where
  "close_open_turn secs at_ms c =
     (case cv_open_partial c of
        None \<Rightarrow> (None, c)
      | Some p \<Rightarrow>
          (let turn = partial_turn c p in
           (Some turn,
            (bump_audio secs (max at_ms (pb_end_ms p)) c)\<lparr>cv_open_partial := None, cv_turns := cv_turns c @ [turn]\<rparr>)))"

definition rename_speaker :: "u8 \<Rightarrow> string \<Rightarrow> ('d, 'f) conversation \<Rightarrow> ('d, 'f) conversation" where
  "rename_speaker i label c = c\<lparr>cv_speaker_labels := AList.update i label (cv_speaker_labels c)\<rparr>"

definition effective_label :: "('d, 'f) conversation \<Rightarrow> u8 \<Rightarrow> string" where
  "effective_label c i =
     (case map_of (cv_speaker_labels c) i of Some l \<Rightarrow> l | None \<Rightarrow> ''speaker_'' @ show_nat (unat i))"

definition speaker_ids :: "('d, 'f) conversation \<Rightarrow> u8 list" where
  "speaker_ids c = remdups_adj (sort (List.map_filter speaker_id (cv_turns c)))"

definition to_messages :: "speaker_map \<Rightarrow> ('d, 'f) conversation \<Rightarrow> (message_role \<times> string) list" where
  "to_messages m c = map (\<lambda>t. (role_for m t, tn_text t)) (cv_turns c)"

record turn_input =
  ti_user :: string
  ti_history :: "(message_role \<times> string) list"

definition to_turn_input :: "speaker_map \<Rightarrow> ('d, 'f) conversation \<Rightarrow> turn_input option" where
  "to_turn_input m c =
     (if cv_turns c = [] then None
      else Some \<lparr>ti_user = tn_text (last (cv_turns c)),
                 ti_history = map (\<lambda>t. (role_for m t, tn_text t)) (butlast (cv_turns c))\<rparr>)"

definition append_agent_reply :: "string \<Rightarrow> ('d, 'f) conversation \<Rightarrow> ('d, 'f) stt_turn \<times> ('d, 'f) conversation" where
  "append_agent_reply text c =
     (let turn = \<lparr>tn_index = length (cv_turns c), tn_speaker = RoleRef RoleAssistant, tn_text = text, tn_start_ms = 0,
        tn_end_ms = 0, tn_words = [], tn_confidence = None, tn_state = FinalTurn\<rparr>
      in (turn, c\<lparr>cv_turns := cv_turns c @ [turn]\<rparr>))"

text \<open>Every operation keeps the committed turns turns_numbered by position and final, and only appends to them.\<close>

definition turns_numbered :: "('d, 'f) conversation \<Rightarrow> bool" where
  "turns_numbered c \<longleftrightarrow> map tn_index (cv_turns c) = [0..<length (cv_turns c)] \<and> list_all (\<lambda>t. tn_state t = FinalTurn) (cv_turns c)"

lemma bump_audio_fields [simp]:
  "cv_turns (bump_audio secs e c) = cv_turns c" "cv_open_partial (bump_audio secs e c) = cv_open_partial c"
  "cv_current_speaker (bump_audio secs e c) = cv_current_speaker c" "cv_id (bump_audio secs e c) = cv_id c"
  by (simp_all add: bump_audio_def)

lemma conversation_ops_numbered:
  assumes "turns_numbered c"
  shows "turns_numbered (apply_partial secs t s e ws c)" and "turns_numbered (snd (commit_segment secs seg c))"
    and "turns_numbered (note_speaker_change tag c)" and "turns_numbered (snd (close_open_turn secs a c))"
    and "turns_numbered (rename_speaker i l c)" and "turns_numbered (snd (append_agent_reply t c))"
  using assms
  by (auto simp: turns_numbered_def apply_partial_def commit_segment_def segment_turn_def note_speaker_change_def
      close_open_turn_def partial_turn_def rename_speaker_def append_agent_reply_def Let_def split: option.splits)

lemma turn_input_messages:
  "to_turn_input m c = Some ti \<Longrightarrow> \<exists>r. to_messages m c = ti_history ti @ [(r, ti_user ti)]"
  by (cases "cv_turns c" rule: rev_cases) (auto simp: to_turn_input_def to_messages_def)

lemma renamed_label: "effective_label (rename_speaker i l c) j = (if j = i then l else effective_label c j)"
  by (simp add: effective_label_def rename_speaker_def update_conv')

text \<open>The label a back end gives with the tag is not used.\<close>

lemma tag_label_ignored:
  "effective_label (snd (commit_segment secs (seg\<lparr>sg_speaker := Some \<lparr>sk_id = i, sk_label = Some l\<rparr>\<rparr>) c)) i = effective_label c i"
  by (simp add: effective_label_def commit_segment_def Let_def bump_audio_def)

lemma set_speaker_ids: "set (speaker_ids c) = {i. \<exists>t \<in> set (cv_turns c). speaker_id t = Some i}"
proof -
  have "set (List.map_filter speaker_id ts) = {i. \<exists>t \<in> set ts. speaker_id t = Some i}" for ts :: "('d, 'f) stt_turn list"
    by (induction ts) (auto simp: List.map_filter_simps split: option.splits)
  then show ?thesis by (simp add: speaker_ids_def)
qed

lemma distinct_remdups_adj_sorted: "sorted xs \<Longrightarrow> distinct (remdups_adj xs)"
  by (induction xs rule: remdups_adj.induct) (auto simp: order_antisym)

lemma distinct_speaker_ids: "distinct (speaker_ids c)"
  by (simp add: speaker_ids_def distinct_remdups_adj_sorted)

subsection \<open>Diarization (diarize.rs)\<close>

datatype stt_error = SttErr string | AudioErr string | ConfigErr string | PersistErr string | SttInternal string

datatype diarization_support = NoDiarization | SpeakerCount | NamedSpeakers

record diarization_span =
  dz_start_ms :: u32
  dz_end_ms :: u32
  dz_speaker :: u8

text \<open>A layered diarizer reads the samples of the utterance and their rate.\<close>

datatype ('p, 'w) diarization_policy =
    DiarizeOff
  | DiarizeBackend
  | DiarizeLayered "'p list \<Rightarrow> u32 \<Rightarrow> 'w \<Rightarrow> (stt_error + diarization_span list) \<times> 'w"

record ('p, 'w) diarization_stage =
  ds_policy :: "('p, 'w) diarization_policy"
  ds_support :: diarization_support
  ds_pcm :: "(u32 \<times> 'p list) list"
  ds_accum :: "'p list"
  ds_sample_rate :: u32

definition stage_new :: "('p, 'w) diarization_policy \<Rightarrow> diarization_support \<Rightarrow> ('p, 'w) diarization_stage" where
  "stage_new policy support =
     \<lparr>ds_policy = policy, ds_support = support, ds_pcm = [], ds_accum = [], ds_sample_rate = 16000\<rparr>"

fun wants_pcm :: "('p, 'w) diarization_policy \<Rightarrow> bool" where
  "wants_pcm (DiarizeLayered d) = True"
| "wants_pcm _ = False"

fun describe_policy :: "('p, 'w) diarization_policy \<Rightarrow> string" where
  "describe_policy DiarizeOff = ''off''"
| "describe_policy DiarizeBackend = ''backend''"
| "describe_policy (DiarizeLayered d) = ''layered''"

fun mismatch_warning :: "('p, 'w) diarization_policy \<Rightarrow> diarization_support \<Rightarrow> string option" where
  "mismatch_warning (DiarizeLayered d) SpeakerCount = Some ''layered diarization requested, but the backend already diarizes''"
| "mismatch_warning (DiarizeLayered d) NamedSpeakers = Some ''layered diarization requested, but the backend already diarizes''"
| "mismatch_warning DiarizeBackend NoDiarization =
     Some (''backend diarization requested, but the backend reports DiarizationSupport::None '' @
       [CHR 0xE2, CHR 0x80, CHR 0x94] @ '' turns will have no speaker'')"
| "mismatch_warning _ _ = None"

definition drain_pcm :: "('p, 'w) diarization_stage \<Rightarrow> ('p, 'w) diarization_stage" where
  "drain_pcm ds =
     fold (\<lambda>(r, xs) d. d\<lparr>ds_sample_rate := (if 0 < r then r else ds_sample_rate d), ds_accum := ds_accum d @ xs\<rparr>) (ds_pcm ds)
       (ds\<lparr>ds_pcm := []\<rparr>)"

definition overlap :: "u32 \<Rightarrow> u32 \<Rightarrow> diarization_span \<Rightarrow> u32" where
  "overlap lo hi span =
     (let o_lo = max lo (dz_start_ms span); o_hi = min hi (dz_end_ms span) in if o_hi \<le> o_lo then 0 else o_hi - o_lo)"

fun best_span :: "u32 \<Rightarrow> u32 \<Rightarrow> (u8 \<times> u32) option \<Rightarrow> diarization_span list \<Rightarrow> (u8 \<times> u32) option" where
  "best_span lo hi best [] = best"
| "best_span lo hi best (span # spans) =
     (let v = overlap lo hi span in
      if v = 0 then best_span lo hi best spans
      else if (case best of None \<Rightarrow> True | Some (i, prev) \<Rightarrow> v > prev)
      then best_span lo hi (Some (dz_speaker span, v)) spans
      else best_span lo hi best spans)"

definition apply_spans :: "diarization_span list \<Rightarrow> u32 \<Rightarrow> ('d, 'f) stt_segment \<Rightarrow> ('d, 'f) stt_segment" where
  "apply_spans spans utterance_ms seg =
     (case spans of
        [] \<Rightarrow> seg
      | first # _ \<Rightarrow>
          (let (lo, hi) = (if sg_start_ms seg < sg_end_ms seg then (sg_start_ms seg, sg_end_ms seg) else (0, max utterance_ms 1));
               i = (case best_span lo hi None spans of Some (i, v) \<Rightarrow> i | None \<Rightarrow> dz_speaker first)
           in seg\<lparr>sg_speaker := Some \<lparr>sk_id = i, sk_label = Some (''speaker_'' @ show_nat (unat i))\<rparr>\<rparr>))"

definition resolve_segment ::
  "('p list \<Rightarrow> u32 \<Rightarrow> u32) \<Rightarrow> ('d, 'f) stt_segment \<Rightarrow> ('p, 'w) diarization_stage \<Rightarrow> 'w \<Rightarrow>
   (stt_error + ('d, 'f) stt_segment) \<times> ('p, 'w) diarization_stage \<times> 'w" where
  "resolve_segment duration_ms seg ds w =
     (case ds_policy ds of
        DiarizeOff \<Rightarrow> (Inr (seg\<lparr>sg_speaker := None\<rparr>), ds, w)
      | DiarizeBackend \<Rightarrow> (Inr seg, ds, w)
      | DiarizeLayered diarize \<Rightarrow>
          (let d1 = drain_pcm ds; samples = ds_accum d1; rate = max (ds_sample_rate d1) 1; d2 = d1\<lparr>ds_accum := []\<rparr> in
           case diarize samples rate w of
             (Inl e, w1) \<Rightarrow> (Inl e, d2, w1)
           | (Inr spans, w1) \<Rightarrow> (Inr (apply_spans spans (duration_ms samples rate) seg), d2, w1)))"

text \<open>The chosen span overlaps the segment most, the first among equals.\<close>

lemma best_span_grows: "best_span lo hi (Some (j, u)) spans = Some (i, v) \<Longrightarrow> u \<le> v"
proof (induction spans arbitrary: j u)
  case (Cons s spans)
  then show ?case
    by (cases "overlap lo hi s = 0"; cases "u < overlap lo hi s") (force simp: Let_def)+
qed simp

lemma best_span_max:
  assumes "best_span lo hi best spans = Some (i, v)"
  shows "best = Some (i, v) \<or> (\<exists>s \<in> set spans. dz_speaker s = i \<and> overlap lo hi s = v)"
    and "\<forall>s \<in> set spans. overlap lo hi s \<le> v"
proof -
  show "best = Some (i, v) \<or> (\<exists>s \<in> set spans. dz_speaker s = i \<and> overlap lo hi s = v)"
    using assms by (induction spans arbitrary: best) (auto simp: Let_def split: if_splits option.splits)
  show "\<forall>s \<in> set spans. overlap lo hi s \<le> v"
    using assms
  proof (induction spans arbitrary: best)
    case (Cons s spans)
    show ?case
    proof (cases "overlap lo hi s = 0 \<or> \<not> (case best of None \<Rightarrow> True | Some (i, prev) \<Rightarrow> overlap lo hi s > prev)")
      case True
      with Cons have "best_span lo hi best spans = Some (i, v)" by (auto simp: Let_def split: if_splits)
      moreover from this True have "overlap lo hi s \<le> v"
        using best_span_grows by (fastforce split: option.splits prod.splits)
      ultimately show ?thesis using Cons.IH by simp
    next
      case False
      with Cons have "best_span lo hi (Some (dz_speaker s, overlap lo hi s)) spans = Some (i, v)" by (auto simp: Let_def split: if_splits)
      then show ?thesis using Cons.IH best_span_grows by fastforce
    qed
  qed simp
qed

subsection \<open>Events, state and termination (events.rs, state.rs, termination.rs)\<close>

datatype ('d, 'f) stt_event =
    SttStarted string string
  | SttPartial string u32 u32
  | UtteranceCommitted "('d, 'f) stt_turn"
  | SpeakerChanged speaker_tag u32
  | SttUtteranceEnd u32
  | SttMetadata json
  | DiarizationWarning string
  | SttFinished string nat 'f

text \<open>The loop state, with the diarization stage and what was sent to the subscribers. Timestamps are left out of the history.\<close>

record ('d, 'f, 'p, 'w) stt_state =
  ss_iteration :: nat
  ss_history :: "(nat \<times> string) list"
  ss_conversation :: "('d, 'f) conversation"
  ss_remaining_budget :: u32
  ss_stream_closed :: bool
  ss_stage :: "('p, 'w) diarization_stage"
  ss_events :: "('d, 'f) stt_event list"

definition stt_state_new :: "('d, 'f) conversation \<Rightarrow> u32 \<Rightarrow> ('p, 'w) diarization_stage \<Rightarrow> ('d, 'f, 'p, 'w) stt_state" where
  "stt_state_new c budget stage =
     \<lparr>ss_iteration = 0, ss_history = [], ss_conversation = c, ss_remaining_budget = budget, ss_stream_closed = False,
      ss_stage = stage, ss_events = []\<rparr>"

datatype 'f stt_termination =
    SttStreamEnd
  | UtteranceCap nat
  | AudioSecs 'f
  | SttBudget
  | SttComposite "'f stt_termination list"

fun stt_done :: "('f::linorder) stt_termination \<Rightarrow> ('d, 'f, 'p, 'w) stt_state \<Rightarrow> string option"
  and stt_any_done :: "('f::linorder) stt_termination list \<Rightarrow> ('d, 'f, 'p, 'w) stt_state \<Rightarrow> string option" where
  "stt_done SttStreamEnd s = None"
| "stt_done (UtteranceCap cap) s = (if cap \<le> length (cv_turns (ss_conversation s)) then Some ''utterance_cap'' else None)"
| "stt_done (AudioSecs m) s = (if m \<le> cv_total_audio (ss_conversation s) then Some ''audio_secs'' else None)"
| "stt_done SttBudget s = (if ss_remaining_budget s = 0 then Some ''budget_exhausted'' else None)"
| "stt_done (SttComposite ts) s = stt_any_done ts s"
| "stt_any_done [] s = None"
| "stt_any_done (t # ts) s = (case stt_done t s of Some r \<Rightarrow> Some r | None \<Rightarrow> stt_any_done ts s)"

subsection \<open>The loop (loop_strategy.rs)\<close>

datatype voice_mode = Live | TurnBased u32

definition stt_emit :: "('d, 'f) stt_event \<Rightarrow> ('d, 'f, 'p, 'w) stt_state \<Rightarrow> ('d, 'f, 'p, 'w) stt_state" where
  "stt_emit ev s = s\<lparr>ss_events := ss_events s @ [ev]\<rparr>"

text \<open>One event of a burst; the flag says whether it committed a turn.\<close>

fun stt_fold ::
  "(u32 \<Rightarrow> 'f::linorder) \<Rightarrow> ('p list \<Rightarrow> u32 \<Rightarrow> u32) \<Rightarrow> voice_mode \<Rightarrow> ('d, 'f) stream_event \<Rightarrow> ('d, 'f, 'p, 'w) stt_state \<Rightarrow> 'w \<Rightarrow>
   (stt_error + bool) \<times> ('d, 'f, 'p, 'w) stt_state \<times> 'w" where
  "stt_fold secs dur mode (PartialText text s e ws) st w =
     (let st1 = st\<lparr>ss_conversation := apply_partial secs text s e ws (ss_conversation st)\<rparr> in
      (Inr False, if mode = Live then stt_emit (SttPartial text s e) st1 else st1, w))"
| "stt_fold secs dur mode (FinalSegment seg) st w =
     (case resolve_segment dur seg (ss_stage st) w of
        (Inl e, d, w1) \<Rightarrow> (Inl e, st\<lparr>ss_stage := d\<rparr>, w1)
      | (Inr seg1, d, w1) \<Rightarrow>
          (case commit_segment secs seg1 (ss_conversation st) of
             (turn, c) \<Rightarrow> (Inr True, stt_emit (UtteranceCommitted turn) (st\<lparr>ss_stage := d, ss_conversation := c\<rparr>), w1)))"
| "stt_fold secs dur mode (SpeakerTurn tag at) st w =
     (Inr False, stt_emit (SpeakerChanged tag at) (st\<lparr>ss_conversation := note_speaker_change tag (ss_conversation st)\<rparr>), w)"
| "stt_fold secs dur mode (UtteranceEnd at) st w =
     (case close_open_turn secs at (ss_conversation st) of
        (Some turn, c) \<Rightarrow>
          (Inr True, stt_emit (SttUtteranceEnd at) (stt_emit (UtteranceCommitted turn) (st\<lparr>ss_conversation := c\<rparr>)), w)
      | (None, c) \<Rightarrow> (Inr False, stt_emit (SttUtteranceEnd at) (st\<lparr>ss_conversation := c\<rparr>), w))"
| "stt_fold secs dur mode (Metadata d) st w = (Inr False, stt_emit (SttMetadata d) st, w)"

fun stt_fold_all ::
  "(u32 \<Rightarrow> 'f::linorder) \<Rightarrow> ('p list \<Rightarrow> u32 \<Rightarrow> u32) \<Rightarrow> voice_mode \<Rightarrow> ('d, 'f) stream_event list \<Rightarrow> nat \<Rightarrow>
   ('d, 'f, 'p, 'w) stt_state \<Rightarrow> 'w \<Rightarrow> (stt_error + nat) \<times> ('d, 'f, 'p, 'w) stt_state \<times> 'w" where
  "stt_fold_all secs dur mode [] n st w = (Inr n, st, w)"
| "stt_fold_all secs dur mode (ev # evs) n st w =
     (case stt_fold secs dur mode ev st w of
        (Inl e, st1, w1) \<Rightarrow> (Inl e, st1, w1)
      | (Inr b, st1, w1) \<Rightarrow> stt_fold_all secs dur mode evs (if b then Suc n else n) st1 w1)"

fun collect_burst :: "(stt_error + ('d, 'f) stream_event) list \<Rightarrow> stt_error + ('d, 'f) stream_event list" where
  "collect_burst [] = Inr []"
| "collect_burst (Inl e # items) = Inl e"
| "collect_burst (Inr ev # items) = try_then (collect_burst items) (\<lambda>evs. Inr (ev # evs))"

text \<open>
  What reaches one step of the loop: the audio forwarded by then, and the first event with those that are
  ready behind it. No more bursts means that the channel is closed.
\<close>

type_synonym ('d, 'f, 'p) burst = "(u32 \<times> 'p list) list \<times> (stt_error + ('d, 'f) stream_event) list"

definition stt_step ::
  "(u32 \<Rightarrow> 'f::linorder) \<Rightarrow> ('p list \<Rightarrow> u32 \<Rightarrow> u32) \<Rightarrow> voice_mode \<Rightarrow> ('d, 'f, 'p) burst \<Rightarrow> ('d, 'f, 'p, 'w) stt_state \<Rightarrow> 'w \<Rightarrow>
   (stt_error + string) \<times> ('d, 'f, 'p, 'w) stt_state \<times> 'w" where
  "stt_step secs dur mode burst st w =
     (let st0 = (if wants_pcm (ds_policy (ss_stage st))
                 then st\<lparr>ss_stage := (ss_stage st)\<lparr>ds_pcm := ds_pcm (ss_stage st) @ fst burst\<rparr>\<rparr> else st)
      in case collect_burst (snd burst) of
           Inl e \<Rightarrow> (Inl e, st0, w)
         | Inr evs \<Rightarrow>
             (case stt_fold_all secs dur mode evs 0 st0 w of
                (Inl e, st1, w1) \<Rightarrow> (Inl e, st1, w1)
              | (Inr n, st1, w1) \<Rightarrow> (Inr (if 0 < n then ''committed:'' @ show_nat n else ''partials''), st1, w1)))"

definition push_step :: "string \<Rightarrow> ('d, 'f, 'p, 'w) stt_state \<Rightarrow> ('d, 'f, 'p, 'w) stt_state" where
  "push_step label s = s\<lparr>ss_history := ss_history s @ [(ss_iteration s, label)]\<rparr>"

fun stt_loop ::
  "(u32 \<Rightarrow> 'f::linorder) \<Rightarrow> ('p list \<Rightarrow> u32 \<Rightarrow> u32) \<Rightarrow> voice_mode \<Rightarrow> 'f stt_termination \<Rightarrow> ('d, 'f, 'p) burst list \<Rightarrow>
   ('d, 'f, 'p, 'w) stt_state \<Rightarrow> 'w \<Rightarrow> (stt_error + string) \<times> ('d, 'f, 'p, 'w) stt_state \<times> 'w" where
  "stt_loop secs dur mode term bursts st w =
     (case stt_done term st of
        Some reason \<Rightarrow> (Inr reason, st, w)
      | None \<Rightarrow>
          (let st1 = st\<lparr>ss_iteration := ss_iteration st + 1\<rparr> in
           case bursts of
             [] \<Rightarrow> (Inr ''stream_end'', push_step ''stream_closed'' (st1\<lparr>ss_stream_closed := True\<rparr>), w)
           | b # bs \<Rightarrow>
               (case stt_step secs dur mode b st1 w of
                  (Inl e, st2, w1) \<Rightarrow> (Inl e, st2, w1)
                | (Inr label, st2, w1) \<Rightarrow> stt_loop secs dur mode term bs (push_step label st2) w1)))"

declare stt_loop.simps [simp del]

subsection \<open>The harness (harness.rs)\<close>

text \<open>
  What is fixed for a run. Opening a session gives the bursts of events it will produce and the diarization it
  supports; the audio source is consumed by the first run.
\<close>

record ('d, 'f, 'p, 'w) stt_harness =
  sh_id :: string
  sh_backend :: string
  sh_budget :: u32
  sh_policy :: "('p, 'w) diarization_policy"
  sh_mode :: voice_mode
  sh_termination :: "'f stt_termination"
  sh_open :: "'w \<Rightarrow> (stt_error + diarization_support \<times> ('d, 'f, 'p) burst list) \<times> 'w"
  sh_audio :: bool

text \<open>The state the loop starts from: an empty conversation, the mismatch warning if there is one, and the start event.\<close>

definition stt_start ::
  "(u32 \<Rightarrow> 'f::linorder) \<Rightarrow> string \<Rightarrow> ('d, 'f, 'p, 'w) stt_harness \<Rightarrow> diarization_support \<Rightarrow> ('d, 'f, 'p, 'w) stt_state" where
  "stt_start secs run_id h support =
     (let c = (conv_new secs (sh_id h @ '':'' @ run_id))\<lparr>cv_backend := Some (sh_backend h)\<rparr>;
          st0 = stt_state_new c (sh_budget h) (stage_new (sh_policy h) support);
          st1 = (case mismatch_warning (sh_policy h) support of Some d \<Rightarrow> stt_emit (DiarizationWarning d) st0 | None \<Rightarrow> st0)
      in stt_emit (SttStarted (sh_backend h) (describe_policy (sh_policy h))) st1)"

definition stt_run ::
  "(u32 \<Rightarrow> 'f::linorder) \<Rightarrow> ('p list \<Rightarrow> u32 \<Rightarrow> u32) \<Rightarrow> string \<Rightarrow> ('d, 'f, 'p, 'w) stt_harness \<Rightarrow> 'w \<Rightarrow>
   (stt_error + ('d, 'f) conversation) \<times> ('d, 'f) stt_event list \<times> ('d, 'f, 'p, 'w) stt_harness \<times> 'w" where
  "stt_run secs dur run_id h w =
     (if \<not> sh_audio h then (Inl (ConfigErr ''audio source already consumed by a previous run()''), [], h, w)
      else
        (let h1 = h\<lparr>sh_audio := False\<rparr> in
         case sh_open h w of
           (Inl e, w1) \<Rightarrow> (Inl e, [], h1, w1)
         | (Inr (support, bursts), w1) \<Rightarrow>
             (case stt_loop secs dur (sh_mode h) (sh_termination h) bursts (stt_start secs run_id h support) w1 of
                (Inl e, st, w2) \<Rightarrow> (Inl e, ss_events st, h1, w2)
              | (Inr reason, st, w2) \<Rightarrow>
                  (let c = ss_conversation st in
                   (Inr c, ss_events st @ [SttFinished reason (length (cv_turns c)) (cv_total_audio c)], h1, w2)))))"

subsection \<open>What a run returns\<close>

text \<open>The committed turns are exactly those that were announced, turns_numbered by position.\<close>

fun committed :: "('d, 'f) stt_event list \<Rightarrow> ('d, 'f) stt_turn list" where
  "committed [] = []"
| "committed (UtteranceCommitted t # evs) = t # committed evs"
| "committed (ev # evs) = committed evs"

definition logged :: "('d, 'f, 'p, 'w) stt_state \<Rightarrow> bool" where
  "logged st \<longleftrightarrow> committed (ss_events st) = cv_turns (ss_conversation st) \<and> turns_numbered (ss_conversation st)"

lemma committed_append [simp]: "committed (xs @ ys) = committed xs @ committed ys"
  by (induction xs rule: committed.induct) auto

lemma stt_fold_logged:
  assumes "stt_fold secs dur mode ev st w = (r, st', w')" and "logged st"
  shows "logged st'"
proof (cases ev)
  case (FinalSegment seg)
  obtain r1 d w1 where res: "resolve_segment dur seg (ss_stage st) w = (r1, d, w1)" by (metis prod_cases3)
  show ?thesis
  proof (cases r1)
    case (Inr seg1)
    have "turns_numbered (snd (commit_segment secs seg1 (ss_conversation st)))"
      using assms(2) by (simp add: logged_def conversation_ops_numbered)
    then show ?thesis
      using assms FinalSegment res Inr by (auto simp: logged_def stt_emit_def commit_segment_def Let_def)
  qed (use assms FinalSegment res in \<open>auto simp: logged_def\<close>)
next
  case (UtteranceEnd a)
  have "turns_numbered (snd (close_open_turn secs a (ss_conversation st)))"
    using assms(2) by (simp add: logged_def conversation_ops_numbered)
  then show ?thesis
    using assms UtteranceEnd by (auto simp: logged_def stt_emit_def close_open_turn_def Let_def split: option.splits)
qed (use assms conversation_ops_numbered in
    \<open>auto simp: logged_def stt_emit_def Let_def apply_partial_def note_speaker_change_def turns_numbered_def split: if_splits\<close>)

lemma stt_fold_all_logged: "stt_fold_all secs dur mode evs n st w = (r, st', w') \<Longrightarrow> logged st \<Longrightarrow> logged st'"
  by (induction evs arbitrary: n st w) (auto split: prod.splits sum.splits dest: stt_fold_logged)

lemma stt_step_logged: "stt_step secs dur mode b st w = (r, st', w') \<Longrightarrow> logged st \<Longrightarrow> logged st'"
proof -
  have pcm: "logged (st\<lparr>ss_stage := d\<rparr>) = logged st" for d by (simp add: logged_def)
  show "stt_step secs dur mode b st w = (r, st', w') \<Longrightarrow> logged st \<Longrightarrow> ?thesis"
    by (auto simp: stt_step_def Let_def pcm split: prod.splits sum.splits if_splits dest!: stt_fold_all_logged)
qed

lemma logged_frame [simp]:
  "logged (push_step l st) = logged st" "logged (st\<lparr>ss_iteration := i\<rparr>) = logged st" "logged (st\<lparr>ss_stream_closed := b\<rparr>) = logged st"
  by (simp_all add: logged_def push_step_def)

lemma stt_loop_logged: "stt_loop secs dur mode term bursts st w = (r, st', w') \<Longrightarrow> logged st \<Longrightarrow> logged st'"
proof (induction bursts arbitrary: st w)
  case Nil
  then show ?case by (auto simp: stt_loop.simps [of _ _ _ _ "[]"] split: option.splits)
next
  case (Cons b bs)
  obtain r1 st2 w1 where b: "stt_step secs dur mode b (st\<lparr>ss_iteration := ss_iteration st + 1\<rparr>) w = (r1, st2, w1)"
    by (metis prod_cases3)
  have st2: "logged st2" by (rule stt_step_logged [OF b]) (simp add: Cons.prems(2))
  show ?case
  proof (cases "stt_done term st")
    case (Some reason)
    then show ?thesis using Cons.prems by (auto simp: stt_loop.simps [of _ _ _ _ "b # bs"])
  next
    case None
    note step = None b Cons.prems(1)
    show ?thesis
    proof (cases r1)
      case (Inl e)
      then show ?thesis using step st2 by (auto simp: stt_loop.simps [of _ _ _ _ "b # bs"] Let_def)
    next
      case (Inr label)
      then have "stt_loop secs dur mode term bs (push_step label st2) w1 = (r, st', w')"
        using step by (simp add: stt_loop.simps [of _ _ _ _ "b # bs"] Let_def)
      then show ?thesis using Cons.IH st2 by simp
    qed
  qed
qed

text \<open>
  (C35) A run that returns a conversation has announced exactly its turns, in order; they are numbered from zero, and the
  last event is the finish event with their number.
\<close>

theorem stt_run_logged:
  assumes "stt_run secs dur run_id h w = (Inr c, evs, h', w')"
  shows "committed evs = cv_turns c \<and> map tn_index (cv_turns c) = [0..<length (cv_turns c)] \<and>
    (\<exists>reason. last evs = SttFinished reason (length (cv_turns c)) (cv_total_audio c))"
proof -
  obtain w1 support bursts reason st3 w2 where opened: "sh_open h w = (Inr (support, bursts), w1)"
    and loop: "stt_loop secs dur (sh_mode h) (sh_termination h) bursts (stt_start secs run_id h support) w1 = (Inr reason, st3, w2)"
    and c: "c = ss_conversation st3" and evs: "evs = ss_events st3 @ [SttFinished reason (length (cv_turns c)) (cv_total_audio c)]"
    using assms by (auto simp: stt_run_def Let_def split: if_splits sum.splits prod.splits)
  have "logged (stt_start secs run_id h support)"
    by (simp add: stt_start_def Let_def logged_def stt_emit_def stt_state_new_def conv_new_def turns_numbered_def split: option.splits)
  with loop have "logged st3" by (rule stt_loop_logged)
  then show ?thesis using evs c by (simp add: logged_def turns_numbered_def)
qed

text \<open>A second run finds the audio gone.\<close>

lemma stt_run_consumes_audio:
  "stt_run secs dur r h w = (x, evs, h', w') \<Longrightarrow>
   stt_run secs dur r' h' w'' = (Inl (ConfigErr ''audio source already consumed by a previous run()''), [], h', w'')"
  by (auto simp: stt_run_def Let_def split: if_splits sum.splits prod.splits)

subsection \<open>Bursts do not matter\<close>

text \<open>Folding events reads and changes only the conversation, the stage and the emitted events.\<close>

definition core :: "('d, 'f, 'p, 'w) stt_state \<Rightarrow> ('d, 'f) conversation \<times> ('d, 'f) stt_event list \<times> ('p, 'w) diarization_stage" where
  "core st = (ss_conversation st, ss_events st, ss_stage st)"

text \<open>Everything a run shows: whether it ended or which error it met, the conversation, the events sent and the world.\<close>

definition seen ::
  "(stt_error + 'r) \<times> ('d, 'f, 'p, 'w) stt_state \<times> 'w \<Rightarrow>
   (stt_error + unit) \<times> ('d, 'f) conversation \<times> ('d, 'f) stt_event list \<times> 'w" where
  "seen x = (case x of (r, st, w) \<Rightarrow>
     ((case r of Inl e \<Rightarrow> Inl e | Inr _ \<Rightarrow> Inr ()), ss_conversation st, ss_events st, w))"

lemma stt_fold_core:
  assumes "core st = core st'" and "stt_fold secs dur mode ev st w = (r, a, w1)"
  shows "\<exists>b. stt_fold secs dur mode ev st' w = (r, b, w1) \<and> core a = core b"
  using assms
  by (cases ev) (auto simp: core_def stt_emit_def Let_def split: prod.splits sum.splits option.splits if_splits)

lemma stt_fold_all_core:
  assumes "core st = core st'" and "stt_fold_all secs dur mode evs n st w = (r, a, w1)"
  shows "\<exists>r' b. stt_fold_all secs dur mode evs m st' w = (r', b, w1) \<and> core a = core b \<and>
    (case (r, r') of (Inl e, Inl e') \<Rightarrow> e = e' | (Inr _, Inr _) \<Rightarrow> True | _ \<Rightarrow> False)"
  using assms
proof (induction evs arbitrary: n m st st' w)
  case (Cons ev evs)
  obtain r1 a1 w2 where ev: "stt_fold secs dur mode ev st w = (r1, a1, w2)" by (metis prod_cases3)
  from stt_fold_core [OF Cons.prems(1) ev]
  obtain b1 where b1: "stt_fold secs dur mode ev st' w = (r1, b1, w2)" "core a1 = core b1" by blast
  show ?case
  proof (cases r1)
    case (Inl e)
    then show ?thesis using Cons.prems(2) ev b1 by auto
  next
    case (Inr c)
    then have "stt_fold_all secs dur mode evs (if c then Suc n else n) a1 w2 = (r, a, w1)" using Cons.prems(2) ev by simp
    from Cons.IH [OF b1(2) this] show ?thesis using b1(1) Inr by simp
  qed
qed auto

lemma seen_fold_core:
  assumes "core st = core st'"
  shows "seen (stt_fold_all secs dur mode evs n st w) = seen (stt_fold_all secs dur mode evs m st' w)"
proof -
  obtain r a w1 where f: "stt_fold_all secs dur mode evs n st w = (r, a, w1)" by (metis prod_cases3)
  from stt_fold_all_core [OF assms f, of m] show ?thesis
    by (auto simp: f seen_def core_def split: sum.splits)
qed

text \<open>Without a layered diarizer an event is always folded.\<close>

lemma stt_fold_ok:
  assumes "\<not> wants_pcm (ds_policy (ss_stage st))" and "stt_fold secs dur mode ev st w = (r, st', w')"
  shows "\<exists>b. r = Inr b" and "ds_policy (ss_stage st') = ds_policy (ss_stage st)"
  using assms
  by (cases ev; cases "ds_policy (ss_stage st)";
      auto simp: resolve_segment_def stt_emit_def Let_def split: prod.splits option.splits if_splits)+

lemma stt_fold_all_ok:
  assumes "\<not> wants_pcm (ds_policy (ss_stage st))" and "stt_fold_all secs dur mode evs n st w = (r, st', w')"
  shows "(\<exists>m. r = Inr m) \<and> ds_policy (ss_stage st') = ds_policy (ss_stage st)"
  using assms
proof (induction evs arbitrary: n st w)
  case (Cons ev evs)
  obtain r1 a w1 where ev: "stt_fold secs dur mode ev st w = (r1, a, w1)" by (metis prod_cases3)
  note ok = stt_fold_ok [OF Cons.prems(1) ev]
  from ok(1) obtain c where c: "r1 = Inr c" by blast
  then have "stt_fold_all secs dur mode evs (if c then Suc n else n) a w1 = (r, st', w')" using Cons.prems(2) ev by simp
  with Cons.IH [of a] Cons.prems(1) ok(2) show ?case by simp
qed (auto simp: eq_commute [of r])

lemma stt_fold_all_append:
  "stt_fold_all secs dur mode (xs @ ys) n st w =
     (case stt_fold_all secs dur mode xs n st w of
        (Inl e, st1, w1) \<Rightarrow> (Inl e, st1, w1)
      | (Inr m, st1, w1) \<Rightarrow> stt_fold_all secs dur mode ys m st1 w1)"
  by (induction xs arbitrary: n st w) (auto split: prod.splits sum.splits)

lemma collect_burst_append:
  "collect_burst (xs @ ys) = try_then (collect_burst xs) (\<lambda>a. try_then (collect_burst ys) (\<lambda>b. Inr (a @ b)))"
proof (induction xs rule: collect_burst.induct)
  case 1
  show ?case by (cases "collect_burst ys") simp_all
next
  case (3 ev items)
  then show ?case by (cases "collect_burst items"; cases "collect_burst ys") simp_all
qed simp

text \<open>
  The reference folds all events at once: the events of the bursts before the first one that carries an error, of
  which nothing is folded, and that error.
\<close>

fun heard :: "('p list \<times> (stt_error + ('d, 'f) stream_event) list) list \<Rightarrow> stt_error option \<times> ('d, 'f) stream_event list" where
  "heard [] = (None, [])"
| "heard (b # bs) =
     (case collect_burst (snd b) of
        Inl e \<Rightarrow> (Some e, [])
      | Inr evs \<Rightarrow> (fst (heard bs), evs @ snd (heard bs)))"

lemma heard_concat:
  "heard bursts =
     (case collect_burst (concat (map snd bursts)) of
        Inl e \<Rightarrow> (Some e, snd (heard bursts))
      | Inr evs \<Rightarrow> (None, evs))"
proof (induction bursts rule: heard.induct)
  case (2 b bs)
  show ?case
  proof (cases "collect_burst (snd b)")
    case (Inr evs)
    then show ?thesis using 2 [of evs]
      by (cases "collect_burst (concat (map snd bs))") (auto simp: collect_burst_append prod_eq_iff)
  qed (simp add: collect_burst_append)
qed simp

lemma stt_loop_heard:
  assumes "\<not> wants_pcm (ds_policy (ss_stage st))"
  shows "seen (stt_loop secs dur mode SttStreamEnd bursts st w) =
    (case fst (heard bursts) of None \<Rightarrow> Inr () | Some e \<Rightarrow> Inl e,
     snd (seen (stt_fold_all secs dur mode (snd (heard bursts)) 0 st w)))"
  using assms
proof (induction bursts arbitrary: st w)
  case Nil
  show ?case by (simp add: stt_loop.simps seen_def push_step_def)
next
  case (Cons b bs)
  let ?st1 = "st\<lparr>ss_iteration := ss_iteration st + 1\<rparr>"
  have policy: "\<not> wants_pcm (ds_policy (ss_stage ?st1))" using Cons.prems by simp
  show ?case
  proof (cases "collect_burst (snd b)")
    case (Inl e)
    then show ?thesis
      using policy by (simp add: stt_loop.simps [of _ _ _ _ "b # bs"] Let_def stt_step_def seen_def)
  next
    case (Inr evs)
    obtain r st2 w1 where f1: "stt_fold_all secs dur mode evs 0 ?st1 w = (r, st2, w1)" by (metis prod_cases3)
    from stt_fold_all_ok [OF policy f1] obtain n where r: "r = Inr n" and p2: "\<not> wants_pcm (ds_policy (ss_stage st2))"
      using policy by auto
    have eq: "core ?st1 = core st" by (simp add: core_def)
    from stt_fold_all_core [OF eq f1, of 0] obtain r' st2' where f: "stt_fold_all secs dur mode evs 0 st w = (r', st2', w1)"
      "core st2 = core st2'" and "case (r, r') of (Inl e, Inl e') \<Rightarrow> e = e' | (Inr _, Inr _) \<Rightarrow> True | _ \<Rightarrow> False" by blast
    then obtain m where m: "r' = Inr m" using r by (cases r') auto
    define label where "label = (if 0 < n then ''committed:'' @ show_nat n else ''partials'')"
    have "seen (stt_loop secs dur mode SttStreamEnd (b # bs) st w) =
        seen (stt_loop secs dur mode SttStreamEnd bs (push_step label st2) w1)"
      using policy Inr f1 by (simp add: stt_loop.simps [of _ _ _ _ "b # bs"] Let_def stt_step_def r label_def)
    also have "\<dots> = (case fst (heard bs) of None \<Rightarrow> Inr () | Some e \<Rightarrow> Inl e,
        snd (seen (stt_fold_all secs dur mode (snd (heard bs)) 0 (push_step label st2) w1)))"
      using p2 by (intro Cons.IH) (simp add: push_step_def)
    also have "seen (stt_fold_all secs dur mode (snd (heard bs)) 0 (push_step label st2) w1) =
        seen (stt_fold_all secs dur mode (snd (heard bs)) m st2' w1)"
      using f(2) by (intro seen_fold_core) (simp add: core_def push_step_def)
    also have "\<dots> = seen (stt_fold_all secs dur mode (evs @ snd (heard bs)) 0 st w)"
      using f(1) m by (simp add: stt_fold_all_append)
    finally show ?thesis using Inr by simp
  qed
qed

text \<open>
  (C34) A transcription that runs to the end of its stream, without a layered diarizer, depends on how the stream falls
  into bursts only when the stream fails. The same items in other bursts give the same result, ending or error; when
  there is no error, also the same conversation, events and effects. When there is one, conversation and events are
  those of the bursts before the failing one: what the failing burst brought before its error is lost.
\<close>

theorem bursts_do_not_matter:
  assumes "\<not> wants_pcm (ds_policy (ss_stage st))" and "concat (map snd bursts) = concat (map snd bursts')"
  shows "fst (seen (stt_loop secs dur mode SttStreamEnd bursts st w)) =
      fst (seen (stt_loop secs dur mode SttStreamEnd bursts' st w)) \<and>
    (fst (seen (stt_loop secs dur mode SttStreamEnd bursts st w)) = Inr () \<longrightarrow>
      seen (stt_loop secs dur mode SttStreamEnd bursts st w) = seen (stt_loop secs dur mode SttStreamEnd bursts' st w)) \<and>
    snd (seen (stt_loop secs dur mode SttStreamEnd bursts st w)) =
      snd (seen (stt_fold_all secs dur mode (snd (heard bursts)) 0 st w))"
proof -
  have "fst (heard bursts) = fst (heard bursts')"
    by (subst (1 2) heard_concat) (simp add: assms(2) split: sum.splits)
  moreover have "heard bursts = heard bursts'" if "fst (heard bursts) = None"
    using that heard_concat [of bursts] heard_concat [of bursts'] assms(2)
    by (cases "collect_burst (concat (map snd bursts'))") (auto dest: arg_cong [where f = fst])
  ultimately show ?thesis
    by (auto simp: stt_loop_heard [OF assms(1)] split: option.splits)
qed

text \<open>The default stage trusts the tags of the back end.\<close>

definition demo_seg :: "string \<Rightarrow> u32 \<Rightarrow> (nat, nat) stt_segment" where
  "demo_seg text at = \<lparr>sg_text = text, sg_start_ms = at, sg_end_ms = at + 100, sg_words = [], sg_speaker = None, sg_confidence = None\<rparr>"

definition demo_stt :: "(nat, nat, nat, unit) stt_state" where
  "demo_stt = stt_state_new (conv_new unat ''c'') 0 (stage_new DiarizeBackend SpeakerCount)"

definition demo_items :: "(stt_error + (nat, nat) stream_event) list" where
  "demo_items = [Inr (PartialText ''he'' 0 50 []), Inr (FinalSegment (demo_seg ''hello'' 0)), Inr (PartialText ''you'' 200 250 []),
     Inr (UtteranceEnd 300)]"

theorem bursts_do_not_matter_witness:
  "seen (stt_loop unat (\<lambda>_ _. 0) Live SttStreamEnd [([], demo_items)] demo_stt ()) =
     seen (stt_loop unat (\<lambda>_ _. 0) Live SttStreamEnd [([], take 1 demo_items), ([], drop 1 demo_items)] demo_stt ()) \<and>
   map tn_text (cv_turns (fst (snd (seen (stt_loop unat (\<lambda>_ _. 0) Live SttStreamEnd [([], demo_items)] demo_stt ()))))) =
     [''hello'', ''you''] \<and>
   fst (seen (stt_loop unat (\<lambda>_ _. 0) Live SttStreamEnd [([], demo_items @ [Inl (SttErr ''closed'')])] demo_stt ())) =
     fst (seen (stt_loop unat (\<lambda>_ _. 0) Live SttStreamEnd [([], demo_items), ([], [Inl (SttErr ''closed'')])] demo_stt ()))"
proof (intro conjI)
  have quiet: "\<not> wants_pcm (ds_policy (ss_stage demo_stt))" by (simp add: demo_stt_def stt_state_new_def stage_new_def)
  have "fst (seen (stt_loop unat (\<lambda>_ _. 0) Live SttStreamEnd [([], demo_items)] demo_stt ())) = Inr ()" by code_simp
  moreover have same: "concat (map snd [([], demo_items)]) = concat (map snd [([], take 1 demo_items), ([], drop 1 demo_items)])"
    by simp
  ultimately show "seen (stt_loop unat (\<lambda>_ _. 0) Live SttStreamEnd [([], demo_items)] demo_stt ()) =
     seen (stt_loop unat (\<lambda>_ _. 0) Live SttStreamEnd [([], take 1 demo_items), ([], drop 1 demo_items)] demo_stt ())"
    using bursts_do_not_matter [OF quiet same, where w = "()" and mode = Live and secs = unat and dur = "\<lambda>_ _. 0"] by blast
  show "map tn_text (cv_turns (fst (snd (seen (stt_loop unat (\<lambda>_ _. 0) Live SttStreamEnd [([], demo_items)] demo_stt ()))))) =
     [''hello'', ''you'']" by code_simp
  show "fst (seen (stt_loop unat (\<lambda>_ _. 0) Live SttStreamEnd [([], demo_items @ [Inl (SttErr ''closed'')])] demo_stt ())) =
     fst (seen (stt_loop unat (\<lambda>_ _. 0) Live SttStreamEnd [([], demo_items), ([], [Inl (SttErr ''closed'')])] demo_stt ()))"
    by (rule bursts_do_not_matter [OF quiet, THEN conjunct1]) simp
qed

text \<open>The events in front of an error are sent when the error comes in a burst of its own, and lost when it does not.\<close>

lemma failing_burst_is_lost:
  "fst (snd (snd (seen (stt_loop unat (\<lambda>_ _. 0) Live SttStreamEnd [([], demo_items @ [Inl (SttErr ''closed'')])] demo_stt ())))) = [] \<and>
   fst (snd (snd (seen (stt_loop unat (\<lambda>_ _. 0) Live SttStreamEnd [([], demo_items), ([], [Inl (SttErr ''closed'')])] demo_stt ())))) \<noteq> []"
  by code_simp

definition demo_harness :: "(nat, nat, nat, unit) stt_harness" where
  "demo_harness = \<lparr>sh_id = ''h'', sh_backend = ''mock'', sh_budget = 0, sh_policy = DiarizeBackend, sh_mode = Live,
     sh_termination = SttStreamEnd, sh_open = (\<lambda>w. (Inr (SpeakerCount, [([], demo_items)]), w)), sh_audio = True\<rparr>"

definition demo_run where "demo_run = stt_run unat (\<lambda>_ _. 0) ''r'' demo_harness ()"

lemma demo_run_ok: "(case fst demo_run of Inr c \<Rightarrow> map tn_text (cv_turns c) | Inl _ \<Rightarrow> []) = [''hello'', ''you'']"
  by code_simp

theorem stt_run_logged_witness:
  "\<exists>c. fst demo_run = Inr c \<and> committed (fst (snd demo_run)) = cv_turns c \<and> map tn_text (cv_turns c) = [''hello'', ''you'']"
proof -
  obtain c where c: "fst demo_run = Inr c" using demo_run_ok by (cases "fst demo_run") simp_all
  then have "stt_run unat (\<lambda>_ _. 0) ''r'' demo_harness () = (Inr c, fst (snd demo_run), fst (snd (snd demo_run)), snd (snd (snd demo_run)))"
    by (simp add: demo_run_def prod_eq_iff)
  from stt_run_logged [OF this] demo_run_ok c show ?thesis by simp
qed

subsection \<open>The store (store.rs)\<close>

record 'f conversation_summary =
  csm_id :: string
  csm_language :: "string option"
  csm_turn_count :: nat
  csm_speaker_count :: nat
  csm_total_audio :: 'f
  csm_backend :: "string option"

definition conv_summary :: "('d, 'f) conversation \<Rightarrow> 'f conversation_summary" where
  "conv_summary c =
     \<lparr>csm_id = cv_id c, csm_language = cv_language c, csm_turn_count = length (cv_turns c),
      csm_speaker_count = length (speaker_ids c), csm_total_audio = cv_total_audio c, csm_backend = cv_backend c\<rparr>"

type_synonym ('d, 'f) conv_store = "(string \<times> ('d, 'f) conversation) list"

definition conv_put :: "('d, 'f) conversation \<Rightarrow> ('d, 'f) conv_store \<Rightarrow> ('d, 'f) conv_store" where
  "conv_put c s = AList.update (cv_id c) c s"

definition conv_get :: "string \<Rightarrow> ('d, 'f) conv_store \<Rightarrow> ('d, 'f) conversation option" where
  "conv_get i s = map_of s i"

definition conv_list :: "('d, 'f) conv_store \<Rightarrow> 'f conversation_summary list" where
  "conv_list s = sort_key csm_id (map (conv_summary \<circ> snd) s)"

definition conv_delete :: "string \<Rightarrow> ('d, 'f) conv_store \<Rightarrow> ('d, 'f) conv_store" where
  "conv_delete i s = AList.delete i s"

definition conv_rename ::
  "string \<Rightarrow> u8 \<Rightarrow> string \<Rightarrow> ('d, 'f) conv_store \<Rightarrow> ('d, 'f) conversation option \<times> ('d, 'f) conv_store" where
  "conv_rename i speaker label s =
     (case conv_get i s of
        None \<Rightarrow> (None, s)
      | Some c \<Rightarrow> (let c1 = rename_speaker speaker label c in (Some c1, conv_put c1 s)))"

lemma conv_store_laws:
  "conv_get i (conv_put c s) = (if i = cv_id c then Some c else conv_get i s)"
  "conv_get i (conv_delete j s) = (if i = j then None else conv_get i s)"
  by (simp_all add: conv_get_def conv_put_def conv_delete_def update_conv' delete_conv')

text \<open>A renamed speaker is found renamed, and nothing else changes, when conversations are stored under their ids.\<close>

lemma conv_rename_persists:
  assumes "conv_get i s = Some c" and "cv_id c = i"
  shows "conv_get j (snd (conv_rename i speaker label s)) =
    (if j = i then Some (rename_speaker speaker label c) else conv_get j s)"
  using assms by (simp add: conv_rename_def Let_def conv_store_laws) (simp add: rename_speaker_def)

end
