(* ===== verification/Meetings.thy ===== *)
theory Meetings
  imports Conversation Context
begin

text \<open>
  Meeting analysis (\<open>crates/meetings-harness\<close>): the analysis record, the shared tool handle with its ledgers
  and summary segments, the rule-based extractor, the batch and live loops and the store. The handle carries
  the world that fresh_id ids come from. Timestamps are left out. Regular expressions are a library: \<open>commitments\<close> gives
  the texts its capture group finds in a turn.
\<close>

subsection \<open>The analysis (analysis.rs)\<close>

datatype analysis_state = Pending | Streaming | Final
datatype action_status = Open | Done | Cancelled
datatype run_mode = Batch | LiveMode u32

record attendee =
  at_id :: string
  at_name :: string
  at_role :: "string option"
  at_tags :: "u8 list"
  at_email :: "string option"

record meeting_note =
  nt_id :: string
  nt_text :: string
  nt_sources :: "nat list"
  nt_start_ms :: "u32 option"
  nt_end_ms :: "u32 option"

record action_item =
  ac_id :: string
  ac_description :: string
  ac_owner :: "string option"
  ac_due :: "string option"
  ac_quote :: "string option"
  ac_source :: "nat option"
  ac_status :: action_status

record segment_summary =
  sgs_id :: string
  sgs_start :: nat
  sgs_end :: nat
  sgs_text :: string
  sgs_finalized :: bool

record analysis =
  an_id :: string
  an_title :: "string option"
  an_segments :: "segment_summary list"
  an_running :: "string option"
  an_tldr :: "string option"
  an_attendees :: "attendee list"
  an_notes :: "meeting_note list"
  an_actions :: "action_item list"
  an_source :: string
  an_watermark :: "nat option"
  an_model_id :: "string option"
  an_state :: analysis_state

definition analysis_new :: "string \<Rightarrow> analysis" where
  "analysis_new i =
     \<lparr>an_id = i, an_title = None, an_segments = [], an_running = None, an_tldr = None, an_attendees = [], an_notes = [],
      an_actions = [], an_source = i, an_watermark = None, an_model_id = None, an_state = Pending\<rparr>"

definition find_attendee :: "string \<Rightarrow> analysis \<Rightarrow> attendee option" where
  "find_attendee i a = find (\<lambda>x. at_id x = i) (an_attendees a)"

definition attendee_for_speaker :: "u8 \<Rightarrow> analysis \<Rightarrow> attendee option" where
  "attendee_for_speaker k a = find (\<lambda>x. k \<in> set (at_tags x)) (an_attendees a)"

text \<open>The segment still being revised is the last one that is not finalized.\<close>

definition open_tail :: "segment_summary list \<Rightarrow> segment_summary option" where
  "open_tail segs = find (\<lambda>s. \<not> sgs_finalized s) (rev segs)"

definition modify_tail :: "(segment_summary \<Rightarrow> segment_summary) \<Rightarrow> segment_summary list \<Rightarrow> segment_summary list" where
  "modify_tail f segs = rev (modify_first (\<lambda>s. \<not> sgs_finalized s) f (rev segs))"

definition highest_covered :: "analysis \<Rightarrow> nat option" where
  "highest_covered a = (if an_segments a = [] then None else Some (Max (set (map sgs_end (an_segments a)))))"

subsection \<open>The tool handle (tools/mod.rs)\<close>

datatype meetings_error =
    TranscriptNotFound string
  | MeetConfig string
  | Extraction string
  | ToolErr string
  | MeetSerde string
  | SttFailure stt_error
  | MeetPersistence string
  | MeetInternal string

datatype meetings_event =
    MeetStarted string string
  | AttendeeUpserted attendee
  | NoteAppended meeting_note
  | ActionAppended action_item
  | ActionUpdated string "action_status option" "string option" "string option"
  | SegmentRevised segment_summary
  | SegmentFinalized segment_summary
  | RunningUpdated string
  | TitleSet string
  | WatermarkAdvanced nat
  | MeetProgress nat nat
  | MeetFinalized string nat nat
  | MeetStopped string
  | MeetError string

record ('d, 'f, 'w) tool_handle =
  hd_analysis :: analysis
  hd_transcript :: "('d, 'f) conversation"
  hd_events :: "meetings_event list"
  hd_world :: 'w

definition hd_emit :: "meetings_event \<Rightarrow> ('d, 'f, 'w) tool_handle \<Rightarrow> ('d, 'f, 'w) tool_handle" where
  "hd_emit ev h = h\<lparr>hd_events := hd_events h @ [ev]\<rparr>"

definition with_analysis :: "(analysis \<Rightarrow> analysis) \<Rightarrow> ('d, 'f, 'w) tool_handle \<Rightarrow> ('d, 'f, 'w) tool_handle" where
  "with_analysis f h = h\<lparr>hd_analysis := f (hd_analysis h)\<rparr>"

definition set_transcript :: "('d, 'f) conversation \<Rightarrow> ('d, 'f, 'w) tool_handle \<Rightarrow> ('d, 'f, 'w) tool_handle" where
  "set_transcript c h = h\<lparr>hd_transcript := c\<rparr>"

type_synonym 'w id_supply = "'w \<Rightarrow> string \<times> 'w"

definition fresh_id :: "'w id_supply \<Rightarrow> ('d, 'f, 'w) tool_handle \<Rightarrow> string \<times> ('d, 'f, 'w) tool_handle" where
  "fresh_id N h = (case N (hd_world h) of (i, w) \<Rightarrow> (i, h\<lparr>hd_world := w\<rparr>))"

definition same_attendee :: "string \<Rightarrow> u8 list \<Rightarrow> attendee \<Rightarrow> bool" where
  "same_attendee name tags x \<longleftrightarrow>
     to_lowercase (at_name x) = to_lowercase name \<or> list_ex (\<lambda>t. t \<in> set tags) (at_tags x)"

definition merge_attendee ::
  "string \<Rightarrow> string option \<Rightarrow> u8 list \<Rightarrow> string option \<Rightarrow> attendee \<Rightarrow> attendee" where
  "merge_attendee name role tags email x =
     x\<lparr>at_name := (if to_lowercase (at_name x) = to_lowercase name then at_name x else name),
       at_role := (case role of None \<Rightarrow> at_role x | Some r \<Rightarrow> Some r),
       at_email := (case email of None \<Rightarrow> at_email x | Some e \<Rightarrow> Some e),
       at_tags := fold (\<lambda>t ts. if t \<in> set ts then ts else ts @ [t]) tags (at_tags x)\<rparr>"

definition upsert_attendee ::
  "'w id_supply \<Rightarrow> string \<Rightarrow> string option \<Rightarrow> u8 list \<Rightarrow> string option \<Rightarrow> ('d, 'f, 'w) tool_handle \<Rightarrow>
   string \<times> ('d, 'f, 'w) tool_handle" where
  "upsert_attendee N name role tags email h =
     (case find (same_attendee name tags) (an_attendees (hd_analysis h)) of
        Some x \<Rightarrow>
          (at_id x, hd_emit (AttendeeUpserted (merge_attendee name role tags email x))
             (with_analysis (\<lambda>a. a\<lparr>an_attendees :=
                modify_first (same_attendee name tags) (merge_attendee name role tags email) (an_attendees a)\<rparr>) h))
      | None \<Rightarrow>
          (case fresh_id N h of (i, h1) \<Rightarrow>
             (let x = \<lparr>at_id = i, at_name = name, at_role = role, at_tags = tags, at_email = email\<rparr> in
              (i, hd_emit (AttendeeUpserted x) (with_analysis (\<lambda>a. a\<lparr>an_attendees := an_attendees a @ [x]\<rparr>) h1)))))"

definition append_note ::
  "'w id_supply \<Rightarrow> string \<Rightarrow> nat list \<Rightarrow> u32 option \<Rightarrow> u32 option \<Rightarrow> ('d, 'f, 'w) tool_handle \<Rightarrow>
   string \<times> ('d, 'f, 'w) tool_handle" where
  "append_note N text sources s e h =
     (case fresh_id N h of (i, h1) \<Rightarrow>
        (let n = \<lparr>nt_id = i, nt_text = text, nt_sources = sources, nt_start_ms = s, nt_end_ms = e\<rparr> in
         (i, hd_emit (NoteAppended n) (with_analysis (\<lambda>a. a\<lparr>an_notes := an_notes a @ [n]\<rparr>) h1))))"

definition tick :: "string \<Rightarrow> string" where
  "tick s = CHR 0x60 # s @ [CHR 0x60]"

definition check_owner :: "string option \<Rightarrow> analysis \<Rightarrow> meetings_error + unit" where
  "check_owner own a =
     (case own of
        None \<Rightarrow> Inr ()
      | Some i \<Rightarrow> if find_attendee i a = None then Inl (ToolErr (''unknown owner_attendee_id '' @ tick i)) else Inr ())"

definition append_action ::
  "'w id_supply \<Rightarrow> string \<Rightarrow> string option \<Rightarrow> string option \<Rightarrow> string option \<Rightarrow> nat option \<Rightarrow> ('d, 'f, 'w) tool_handle \<Rightarrow>
   (meetings_error + string) \<times> ('d, 'f, 'w) tool_handle" where
  "append_action N desc own due quote source h =
     (case check_owner own (hd_analysis h) of
        Inl e \<Rightarrow> (Inl e, h)
      | Inr _ \<Rightarrow>
          (case fresh_id N h of (i, h1) \<Rightarrow>
             (let x = \<lparr>ac_id = i, ac_description = desc, ac_owner = own, ac_due = due, ac_quote = quote, ac_source = source,
                       ac_status = Open\<rparr> in
              (Inr i, hd_emit (ActionAppended x) (with_analysis (\<lambda>a. a\<lparr>an_actions := an_actions a @ [x]\<rparr>) h1)))))"

definition patch_action ::
  "action_status option \<Rightarrow> string option \<Rightarrow> string option \<Rightarrow> string option \<Rightarrow> action_item \<Rightarrow> action_item" where
  "patch_action status own due quote x =
     x\<lparr>ac_status := (case status of None \<Rightarrow> ac_status x | Some s \<Rightarrow> s),
       ac_owner := (case own of None \<Rightarrow> ac_owner x | Some i \<Rightarrow> Some i),
       ac_due := (case due of None \<Rightarrow> ac_due x | Some d \<Rightarrow> Some d),
       ac_quote := (case quote of None \<Rightarrow> ac_quote x | Some q \<Rightarrow> Some q)\<rparr>"

definition update_action ::
  "string \<Rightarrow> action_status option \<Rightarrow> string option \<Rightarrow> string option \<Rightarrow> string option \<Rightarrow> ('d, 'f, 'w) tool_handle \<Rightarrow>
   (meetings_error + unit) \<times> ('d, 'f, 'w) tool_handle" where
  "update_action i status own due quote h =
     (case check_owner own (hd_analysis h) of
        Inl e \<Rightarrow> (Inl e, h)
      | Inr _ \<Rightarrow>
          if \<not> list_ex (\<lambda>x. ac_id x = i) (an_actions (hd_analysis h)) then (Inl (ToolErr (''unknown action_id '' @ tick i)), h)
          else (Inr (), hd_emit (ActionUpdated i status own due)
                 (with_analysis (\<lambda>a. a\<lparr>an_actions :=
                    modify_first (\<lambda>x. ac_id x = i) (patch_action status own due quote) (an_actions a)\<rparr>) h)))"

definition widen_segment :: "string \<Rightarrow> nat \<Rightarrow> nat \<Rightarrow> segment_summary \<Rightarrow> segment_summary" where
  "widen_segment text s e x = x\<lparr>sgs_text := text, sgs_end := max e (sgs_end x), sgs_start := min (sgs_start x) s\<rparr>"

definition revise_tail ::
  "'w id_supply \<Rightarrow> string \<Rightarrow> nat \<Rightarrow> nat \<Rightarrow> ('d, 'f, 'w) tool_handle \<Rightarrow>
   (meetings_error + segment_summary) \<times> ('d, 'f, 'w) tool_handle" where
  "revise_tail N text s e h =
     (if e < s then (Inl (ToolErr ''end_turn_index must be >= start_turn_index''), h)
      else
        (case open_tail (an_segments (hd_analysis h)) of
           Some x \<Rightarrow>
             (let x1 = widen_segment text s e x in
              (Inr x1, hd_emit (SegmentRevised x1)
                 (with_analysis (\<lambda>a. a\<lparr>an_segments := modify_tail (widen_segment text s e) (an_segments a)\<rparr>) h)))
         | None \<Rightarrow>
             (case fresh_id N h of (i, h1) \<Rightarrow>
                (let x = \<lparr>sgs_id = i, sgs_start = s, sgs_end = e, sgs_text = text, sgs_finalized = False\<rparr> in
                 (Inr x, hd_emit (SegmentRevised x) (with_analysis (\<lambda>a. a\<lparr>an_segments := an_segments a @ [x]\<rparr>) h1))))))"

definition finalize_segment :: "('d, 'f, 'w) tool_handle \<Rightarrow> segment_summary option \<times> ('d, 'f, 'w) tool_handle" where
  "finalize_segment h =
     (case open_tail (an_segments (hd_analysis h)) of
        None \<Rightarrow> (None, h)
      | Some x \<Rightarrow>
          (let x1 = x\<lparr>sgs_finalized := True\<rparr> in
           (Some x1, hd_emit (SegmentFinalized x1)
              (with_analysis (\<lambda>a. a\<lparr>an_segments := modify_tail (\<lambda>y. y\<lparr>sgs_finalized := True\<rparr>) (an_segments a)\<rparr>) h))))"

definition regenerate_running :: "('d, 'f, 'w) tool_handle \<Rightarrow> string \<times> ('d, 'f, 'w) tool_handle" where
  "regenerate_running h =
     (let joined = join_with [lf, lf] (map sgs_text (filter sgs_finalized (an_segments (hd_analysis h)))) in
      (joined, hd_emit (RunningUpdated joined) (with_analysis (\<lambda>a. a\<lparr>an_running := Some joined\<rparr>) h)))"

definition set_title :: "string \<Rightarrow> ('d, 'f, 'w) tool_handle \<Rightarrow> ('d, 'f, 'w) tool_handle" where
  "set_title t h = hd_emit (TitleSet t) (with_analysis (\<lambda>a. a\<lparr>an_title := Some t\<rparr>) h)"

definition finalize_analysis :: "string \<Rightarrow> string option \<Rightarrow> ('d, 'f, 'w) tool_handle \<Rightarrow> (nat \<times> nat) \<times> ('d, 'f, 'w) tool_handle" where
  "finalize_analysis reason tldr h =
     (let h1 = with_analysis (\<lambda>a. a\<lparr>an_state := Final,
                  an_tldr := (case tldr of Some t \<Rightarrow> Some t | None \<Rightarrow> an_tldr a),
                  an_segments := map (\<lambda>s. s\<lparr>sgs_finalized := True\<rparr>) (an_segments a)\<rparr>) h;
          counts = (length (an_notes (hd_analysis h1)), length (an_actions (hd_analysis h1)))
      in (counts, hd_emit (MeetFinalized reason (fst counts) (snd counts)) h1))"

definition advance_watermark :: "nat \<Rightarrow> ('d, 'f, 'w) tool_handle \<Rightarrow> ('d, 'f, 'w) tool_handle" where
  "advance_watermark i h = hd_emit (WatermarkAdvanced i) (with_analysis (\<lambda>a. a\<lparr>an_watermark := Some i\<rparr>) h)"

subsection \<open>The rule-based extractor (extractor.rs)\<close>

record extraction_request =
  rq_since :: "nat option"
  rq_until :: "nat option"
  rq_finalize :: bool
  rq_live :: bool
  rq_segment_turns :: nat

definition in_window :: "extraction_request \<Rightarrow> ('d, 'f) conversation \<Rightarrow> ('d, 'f) stt_turn list" where
  "in_window rq conv =
     filter (\<lambda>t. (case rq_since rq of None \<Rightarrow> True | Some i \<Rightarrow> i \<le> tn_index t) \<and>
                 (case rq_until rq of None \<Rightarrow> True | Some i \<Rightarrow> tn_index t < i)) (cv_turns conv)"

text \<open>Cutting counts characters: a byte that starts with the bits 10 continues one. The cut is marked by an ellipsis.\<close>

definition continues_char :: "char \<Rightarrow> bool" where
  "continues_char c \<longleftrightarrow> of_char c div 64 = (2::nat)"

fun take_chars :: "nat \<Rightarrow> string \<Rightarrow> string" where
  "take_chars n [] = []"
| "take_chars n (c # s) =
     (if continues_char c then c # take_chars n s
      else case n of 0 \<Rightarrow> [] | Suc m \<Rightarrow> c # take_chars m s)"

definition truncate_text :: "string \<Rightarrow> nat \<Rightarrow> string" where
  "truncate_text s n =
     (if length (filter (\<lambda>c. \<not> continues_char c) s) \<le> n then s
      else take_chars n s @ [CHR 0xE2, CHR 0x80, CHR 0xA6])"

definition turn_label :: "('d, 'f) conversation \<Rightarrow> ('d, 'f) stt_turn \<Rightarrow> string" where
  "turn_label conv t = (case speaker_id t of Some k \<Rightarrow> effective_label conv k | None \<Rightarrow> ''unknown'')"

definition summarize_segment :: "(nat \<times> string \<times> string) list \<Rightarrow> string" where
  "summarize_segment ts =
     (if ts = [] then []
      else
        (let speakers = remdups_adj (sort (map (fst \<circ> snd) ts));
             preview = join_with '' / '' (map (\<lambda>(i, l, t). l @ '': '' @ truncate_text t 80) (take 2 ts))
         in ''Turns '' @ show_nat (fst (hd ts)) @ ''-'' @ show_nat (fst (last ts)) @ '' ('' @ show_nat (length speakers) @
            '' speakers: '' @ join_with '', '' speakers @ ''). '' @ preview))"

definition segment_slice :: "('d, 'f) conversation \<Rightarrow> nat \<Rightarrow> nat \<Rightarrow> (nat \<times> string \<times> string) list" where
  "segment_slice conv s e =
     map (\<lambda>t. (tn_index t, turn_label conv t, tn_text t)) (filter (\<lambda>t. s \<le> tn_index t \<and> tn_index t \<le> e) (cv_turns conv))"

fun link_attendees ::
  "'w id_supply \<Rightarrow> ('d, 'f) conversation \<Rightarrow> ('d, 'f) stt_turn list \<Rightarrow> (u8 \<times> string) list \<Rightarrow> ('d, 'f, 'w) tool_handle \<Rightarrow>
   (u8 \<times> string) list \<times> ('d, 'f, 'w) tool_handle" where
  "link_attendees N conv [] own h = (own, h)"
| "link_attendees N conv (t # ts) own h =
     (case speaker_id t of
        None \<Rightarrow> link_attendees N conv ts own h
      | Some k \<Rightarrow>
          (case upsert_attendee N (effective_label conv k) None [k] None h of
             (i, h1) \<Rightarrow> link_attendees N conv ts (AList.update k i own) h1))"

definition seed_owners :: "attendee list \<Rightarrow> (u8 \<times> string) list \<Rightarrow> (u8 \<times> string) list" where
  "seed_owners atts own =
     fold (\<lambda>x m. fold (\<lambda>k m. if map_of m k = None then (k, at_id x) # m else m) (at_tags x) m) atts own"

definition note_turn :: "'w id_supply \<Rightarrow> ('d, 'f) stt_turn \<Rightarrow> ('d, 'f, 'w) tool_handle \<Rightarrow> ('d, 'f, 'w) tool_handle" where
  "note_turn N t h =
     (let s = trim (tn_text t) in
      if s = [] then h else snd (append_note N s [tn_index t] (Some (tn_start_ms t)) (Some (tn_end_ms t)) h))"

fun action_descs ::
  "'w id_supply \<Rightarrow> (u8 \<times> string) list \<Rightarrow> ('d, 'f) stt_turn \<Rightarrow> string list \<Rightarrow> ('d, 'f, 'w) tool_handle \<Rightarrow>
   (meetings_error + unit) \<times> ('d, 'f, 'w) tool_handle" where
  "action_descs N own t [] h = (Inr (), h)"
| "action_descs N own t (d # ds) h =
     (if trim d = [] then action_descs N own t ds h
      else (case append_action N (trim d) (Option.bind (speaker_id t) (map_of own)) None (Some (tn_text t)) (Some (tn_index t)) h of
              (Inl e, h1) \<Rightarrow> (Inl e, h1)
            | (Inr i, h1) \<Rightarrow> action_descs N own t ds h1))"

fun action_turns ::
  "'w id_supply \<Rightarrow> (string \<Rightarrow> string list) \<Rightarrow> (u8 \<times> string) list \<Rightarrow> ('d, 'f) stt_turn list \<Rightarrow> ('d, 'f, 'w) tool_handle \<Rightarrow>
   (meetings_error + unit) \<times> ('d, 'f, 'w) tool_handle" where
  "action_turns N commitments own [] h = (Inr (), h)"
| "action_turns N commitments own (t # ts) h =
     (case action_descs N own t (commitments (tn_text t)) h of
        (Inl e, h1) \<Rightarrow> (Inl e, h1)
      | (Inr _, h1) \<Rightarrow> action_turns N commitments own ts h1)"

definition live_segment ::
  "'w id_supply \<Rightarrow> extraction_request \<Rightarrow> ('d, 'f) conversation \<Rightarrow> ('d, 'f) stt_turn list \<Rightarrow> ('d, 'f, 'w) tool_handle \<Rightarrow>
   (meetings_error + unit) \<times> ('d, 'f, 'w) tool_handle" where
  "live_segment N rq conv win h =
     (if win = [] then (Inr (), h)
      else
        (let s = (case open_tail (an_segments (hd_analysis h)) of Some x \<Rightarrow> sgs_start x | None \<Rightarrow> tn_index (hd win));
             e = tn_index (last win)
         in case revise_tail N (summarize_segment (segment_slice conv s e)) s e h of
              (Inl err, h1) \<Rightarrow> (Inl err, h1)
            | (Inr _, h1) \<Rightarrow>
                (let h2 = (if rq_segment_turns rq \<le> (e - s) + 1 then snd (regenerate_running (snd (finalize_segment h1))) else h1)
                 in (Inr (), advance_watermark (Max (set (map tn_index win))) h2))))"

text \<open>
  The bounds of the chunks of a batch. (The run loop passes a positive size; with zero the subtraction of
  the code underflows.)
\<close>

function batch_bounds :: "nat \<Rightarrow> nat \<Rightarrow> nat \<Rightarrow> (nat \<times> nat) list" where
  "batch_bounds n cursor final =
     (if final < cursor \<or> n = 0 then []
      else (cursor, min (cursor + n - 1) final) # batch_bounds n (min (cursor + n - 1) final + 1) final)"
  by pat_completeness auto

termination
  by (relation "measure (\<lambda>(n, cursor, final). final + 1 - cursor)") auto

declare batch_bounds.simps [simp del]

fun batch_segments ::
  "'w id_supply \<Rightarrow> ('d, 'f) conversation \<Rightarrow> (nat \<times> nat) list \<Rightarrow> ('d, 'f, 'w) tool_handle \<Rightarrow>
   (meetings_error + unit) \<times> ('d, 'f, 'w) tool_handle" where
  "batch_segments N conv [] h = (Inr (), h)"
| "batch_segments N conv ((s, e) # bs) h =
     (case revise_tail N (summarize_segment (segment_slice conv s e)) s e h of
        (Inl err, h1) \<Rightarrow> (Inl err, h1)
      | (Inr _, h1) \<Rightarrow> batch_segments N conv bs (snd (finalize_segment h1)))"

definition batch_stage ::
  "'w id_supply \<Rightarrow> extraction_request \<Rightarrow> ('d, 'f) conversation \<Rightarrow> ('d, 'f) stt_turn list \<Rightarrow> ('d, 'f, 'w) tool_handle \<Rightarrow>
   (meetings_error + unit) \<times> ('d, 'f, 'w) tool_handle" where
  "batch_stage N rq conv win h =
     (if win = [] then (Inr (), h)
      else
        (case batch_segments N conv (batch_bounds (rq_segment_turns rq) (tn_index (hd win)) (tn_index (last win))) h of
           (Inl e, h1) \<Rightarrow> (Inl e, h1)
         | (Inr _, h1) \<Rightarrow> (Inr (), advance_watermark (tn_index (last win)) (snd (regenerate_running h1)))))"

definition build_tldr :: "analysis \<Rightarrow> string" where
  "build_tldr a =
     show_nat (length (an_attendees a)) @ '' attendees ('' @ join_with '', '' (map at_name (an_attendees a)) @ ''). '' @
     show_nat (length (an_notes a)) @ '' notes, '' @ show_nat (length (an_actions a)) @ '' actions ('' @
     show_nat (length (filter (\<lambda>x. ac_status x = Open) (an_actions a))) @ '' open).''"

definition wrap_up :: "('d, 'f, 'w) tool_handle \<Rightarrow> ('d, 'f, 'w) tool_handle" where
  "wrap_up h =
     (let h1 = snd (finalize_segment h) in
      case regenerate_running h1 of
        (running, h2) \<Rightarrow>
          (let title = truncate_text (trim running) 60;
               h3 = (if an_title (hd_analysis h2) = None \<and> title \<noteq> [] then set_title title h2 else h2)
           in snd (finalize_analysis ''extractor'' (Some (build_tldr (hd_analysis h3))) h3)))"

definition run_extractor ::
  "'w id_supply \<Rightarrow> (string \<Rightarrow> string list) \<Rightarrow> extraction_request \<Rightarrow> ('d, 'f, 'w) tool_handle \<Rightarrow>
   (meetings_error + unit) \<times> ('d, 'f, 'w) tool_handle" where
  "run_extractor N commitments rq h =
     (let conv = hd_transcript h; win = in_window rq conv in
      if win = [] \<and> \<not> rq_finalize rq then (Inr (), h)
      else
        (case link_attendees N conv win [] h of
           (own, h1) \<Rightarrow>
             (let own1 = seed_owners (an_attendees (hd_analysis h1)) own; h2 = fold (note_turn N) win h1 in
              case action_turns N commitments own1 win h2 of
                (Inl e, h3) \<Rightarrow> (Inl e, h3)
              | (Inr _, h3) \<Rightarrow>
                  (case (if rq_live rq then live_segment N rq conv win h3 else batch_stage N rq conv win h3) of
                     (Inl e, h4) \<Rightarrow> (Inl e, h4)
                   | (Inr _, h4) \<Rightarrow> (Inr (), if rq_finalize rq then wrap_up h4 else h4)))))"

subsection \<open>The store (store.rs)\<close>

type_synonym analysis_store = "(string \<times> analysis) list"

definition an_put :: "analysis \<Rightarrow> analysis_store \<Rightarrow> analysis_store" where
  "an_put a s = AList.update (an_id a) a s"

definition an_get :: "string \<Rightarrow> analysis_store \<Rightarrow> analysis option" where
  "an_get i s = map_of s i"

definition an_delete :: "string \<Rightarrow> analysis_store \<Rightarrow> analysis_store" where
  "an_delete i s = AList.delete i s"

record analysis_summary =
  asm_id :: string
  asm_title :: "string option"
  asm_attendees :: nat
  asm_notes :: nat
  asm_actions :: nat
  asm_open_actions :: nat
  asm_state :: analysis_state

definition analysis_summary :: "analysis \<Rightarrow> analysis_summary" where
  "analysis_summary a =
     \<lparr>asm_id = an_id a, asm_title = an_title a, asm_attendees = length (an_attendees a), asm_notes = length (an_notes a),
      asm_actions = length (an_actions a), asm_open_actions = length (filter (\<lambda>x. ac_status x = Open) (an_actions a)),
      asm_state = an_state a\<rparr>"

definition an_list :: "analysis_store \<Rightarrow> analysis_summary list" where
  "an_list s = sort_key asm_id (map (analysis_summary \<circ> snd) s)"

definition store_update_attendee ::
  "string \<Rightarrow> string \<Rightarrow> string option \<Rightarrow> string option \<Rightarrow> string option \<Rightarrow> analysis_store \<Rightarrow>
   (meetings_error + analysis option) \<times> analysis_store" where
  "store_update_attendee i att name role email s =
     (case an_get i s of
        None \<Rightarrow> (Inr None, s)
      | Some a \<Rightarrow>
          if find_attendee att a = None then (Inl (ToolErr (''unknown attendee_id '' @ tick att)), s)
          else
            (let f = (\<lambda>x. x\<lparr>at_name := (case name of None \<Rightarrow> at_name x | Some n \<Rightarrow> n),
                           at_role := (case role of None \<Rightarrow> at_role x | Some r \<Rightarrow> Some r),
                           at_email := (case email of None \<Rightarrow> at_email x | Some e \<Rightarrow> Some e)\<rparr>);
                 a1 = a\<lparr>an_attendees := modify_first (\<lambda>x. at_id x = att) f (an_attendees a)\<rparr>
             in (Inr (Some a1), an_put a1 s)))"

definition store_update_action ::
  "string \<Rightarrow> string \<Rightarrow> action_status option \<Rightarrow> string option \<Rightarrow> string option \<Rightarrow> analysis_store \<Rightarrow>
   (meetings_error + analysis option) \<times> analysis_store" where
  "store_update_action i act status own due s =
     (case an_get i s of
        None \<Rightarrow> (Inr None, s)
      | Some a \<Rightarrow>
          (case check_owner own a of
             Inl e \<Rightarrow> (Inl e, s)
           | Inr _ \<Rightarrow>
               if \<not> list_ex (\<lambda>x. ac_id x = act) (an_actions a) then (Inl (ToolErr (''unknown action_id '' @ tick act)), s)
               else
                 (let a1 = a\<lparr>an_actions := modify_first (\<lambda>x. ac_id x = act) (patch_action status own due None) (an_actions a)\<rparr>
                  in (Inr (Some a1), an_put a1 s))))"

subsection \<open>The loop (state.rs, termination.rs, loop_strategy.rs, harness.rs)\<close>

record ('d, 'f, 'w) meet_state =
  ms_iteration :: nat
  ms_history :: "(nat \<times> string) list"
  ms_analysis :: analysis
  ms_transcript :: "('d, 'f) conversation"
  ms_remaining_budget :: u32
  ms_cancel_requested :: bool
  ms_stream_closed :: bool
  ms_handle :: "('d, 'f, 'w) tool_handle"
  ms_store :: analysis_store

datatype meet_termination =
    MeetStreamEnd
  | MeetIterationCap u32
  | MeetBudget
  | MeetComposite "meet_termination list"

fun meet_done :: "meet_termination \<Rightarrow> ('d, 'f, 'w) meet_state \<Rightarrow> string option"
  and meet_any_done :: "meet_termination list \<Rightarrow> ('d, 'f, 'w) meet_state \<Rightarrow> string option" where
  "meet_done MeetStreamEnd s =
     (if ms_cancel_requested s then Some ''cancelled'' else if ms_stream_closed s then Some ''stream_end'' else None)"
| "meet_done (MeetIterationCap cap) s =
     (if unat cap \<le> ms_iteration s then Some ''iteration_cap'' else if ms_cancel_requested s then Some ''cancelled'' else None)"
| "meet_done MeetBudget s =
     (if ms_cancel_requested s then Some ''cancelled'' else if ms_remaining_budget s = 0 then Some ''budget_exhausted'' else None)"
| "meet_done (MeetComposite ts) s = meet_any_done ts s"
| "meet_any_done [] s = None"
| "meet_any_done (t # ts) s = (case meet_done t s of Some r \<Rightarrow> Some r | None \<Rightarrow> meet_any_done ts s)"

text \<open>
  What one round finds: whether cancellation was asked for, what the event channel gives, and what the
  transcript store holds. The flag of an event says whether the transcription finished.
\<close>

datatype stt_recv = RecvEvent bool | RecvClosed | RecvLagged

record ('d, 'f) round_input =
  in_cancel :: bool
  in_recv :: stt_recv
  in_transcript :: "stt_error + ('d, 'f) conversation option"

datatype loop_kind = BatchExtraction | StreamingExtraction

type_synonym ('d, 'f, 'w) step_result = "(meetings_error + bool \<times> string) \<times> ('d, 'f, 'w) meet_state"

text \<open>A step that extracts, takes the snapshot and stores it; the flag of the result says that the loop is done.\<close>

definition extract_and_store ::
  "'w id_supply \<Rightarrow> (string \<Rightarrow> string list) \<Rightarrow> extraction_request \<Rightarrow> ('d, 'f, 'w) meet_state \<Rightarrow>
   (meetings_error + unit) \<times> ('d, 'f, 'w) meet_state" where
  "extract_and_store N commitments rq s =
     (case run_extractor N commitments rq (ms_handle s) of
        (Inl e, h) \<Rightarrow> (Inl e, s\<lparr>ms_handle := h\<rparr>)
      | (Inr _, h) \<Rightarrow>
          (Inr (), s\<lparr>ms_handle := h, ms_analysis := hd_analysis h, ms_store := an_put (hd_analysis h) (ms_store s)\<rparr>))"

definition batch_step ::
  "'w id_supply \<Rightarrow> (string \<Rightarrow> string list) \<Rightarrow> nat \<Rightarrow> ('d, 'f, 'w) meet_state \<Rightarrow> ('d, 'f, 'w) step_result" where
  "batch_step N commitments seg_turns s =
     (let s1 = s\<lparr>ms_analysis := (ms_analysis s)\<lparr>an_state := Streaming\<rparr>\<rparr>;
          rq = \<lparr>rq_since = None, rq_until = None, rq_finalize = True, rq_live = False, rq_segment_turns = seg_turns\<rparr>
      in case extract_and_store N commitments rq s1 of
           (Inl e, s2) \<Rightarrow> (Inl e, s2)
         | (Inr _, s2) \<Rightarrow> (Inr (True, ''batch_complete''), s2))"

text \<open>Receiving: whether to stop at once, whether to finalize, and the label.\<close>

fun on_receive :: "stt_recv \<Rightarrow> (bool \<times> string) option" where
  "on_receive (RecvEvent fin) = Some (fin, if fin then ''finished'' else ''burst'')"
| "on_receive RecvLagged = Some (False, ''lagged'')"
| "on_receive RecvClosed = None"

definition streaming_step ::
  "(u32 \<Rightarrow> 'f::linorder) \<Rightarrow> 'w id_supply \<Rightarrow> (string \<Rightarrow> string list) \<Rightarrow> nat \<Rightarrow> string \<Rightarrow> ('d, 'f) round_input \<Rightarrow>
   ('d, 'f, 'w) meet_state \<Rightarrow> ('d, 'f, 'w) step_result" where
  "streaming_step secs N commitments seg_turns source inp s =
     (let s1 = (if ms_iteration s = 1 then s\<lparr>ms_analysis := (ms_analysis s)\<lparr>an_state := Streaming\<rparr>\<rparr> else s) in
      case on_receive (in_recv inp) of
        None \<Rightarrow> (Inr (True, ''stream_closed''), s1)
      | Some (fin, label) \<Rightarrow>
          (let s2 = (if fin then s1\<lparr>ms_stream_closed := True\<rparr> else s1) in
           case in_transcript inp of
             Inl e \<Rightarrow> (Inl (SttFailure e), s2)
           | Inr found \<Rightarrow>
               (let conv = (case found of Some c \<Rightarrow> c | None \<Rightarrow> conv_new secs source);
                    s3 = s2\<lparr>ms_transcript := conv, ms_handle := set_transcript conv (ms_handle s2)\<rparr>;
                    rq = \<lparr>rq_since = map_option Suc (an_watermark (ms_analysis s3)), rq_until = None, rq_finalize = fin,
                          rq_live = True, rq_segment_turns = seg_turns\<rparr>
                in case extract_and_store N commitments rq s3 of
                     (Inl e, s4) \<Rightarrow> (Inl e, s4)
                   | (Inr _, s4) \<Rightarrow>
                       (Inr (fin, label),
                        s4\<lparr>ms_handle := hd_emit (MeetProgress (case an_watermark (ms_analysis s4) of Some i \<Rightarrow> i | None \<Rightarrow> 0)
                             (length (cv_turns (ms_transcript s4)))) (ms_handle s4)\<rparr>))))"

definition segment_turns :: "run_mode \<Rightarrow> nat" where
  "segment_turns mode = (case mode of Batch \<Rightarrow> 8 | LiveMode n \<Rightarrow> max (unat n) 1)"

definition push_meet_step :: "string \<Rightarrow> ('d, 'f, 'w) meet_state \<Rightarrow> ('d, 'f, 'w) meet_state" where
  "push_meet_step label s = s\<lparr>ms_history := ms_history s @ [(ms_iteration s, label)]\<rparr>"

text \<open>One round; a value is the reason to stop.\<close>

definition meet_round ::
  "(u32 \<Rightarrow> 'f::linorder) \<Rightarrow> 'w id_supply \<Rightarrow> (string \<Rightarrow> string list) \<Rightarrow> loop_kind \<Rightarrow> meet_termination \<Rightarrow> run_mode \<Rightarrow> string \<Rightarrow>
   ('d, 'f) round_input \<Rightarrow> ('d, 'f, 'w) meet_state \<Rightarrow> (meetings_error + string option) \<times> ('d, 'f, 'w) meet_state" where
  "meet_round secs N commitments kind term mode source inp s =
     (let s1 = (if in_cancel inp then s\<lparr>ms_cancel_requested := True\<rparr> else s) in
      case meet_done term s1 of
        Some reason \<Rightarrow>
          (Inr (Some reason),
           if reason = ''cancelled'' then s1\<lparr>ms_handle := hd_emit (MeetStopped reason) (ms_handle s1)\<rparr> else s1)
      | None \<Rightarrow>
          (let s2 = s1\<lparr>ms_iteration := ms_iteration s1 + 1\<rparr> in
           case (case kind of
                   BatchExtraction \<Rightarrow> batch_step N commitments (segment_turns mode) s2
                 | StreamingExtraction \<Rightarrow> streaming_step secs N commitments (segment_turns mode) source inp s2) of
             (Inl e, s3) \<Rightarrow> (Inl e, s3)
           | (Inr (fin, label), s3) \<Rightarrow> (Inr (if fin then Some ''complete'' else None), push_meet_step label s3)))"

text \<open>When no more rounds are scripted the event channel is closed, which ends a streaming loop.\<close>

definition closed_input :: "('d, 'f) round_input" where
  "closed_input = \<lparr>in_cancel = False, in_recv = RecvClosed, in_transcript = Inr None\<rparr>"

fun meet_loop ::
  "(u32 \<Rightarrow> 'f::linorder) \<Rightarrow> 'w id_supply \<Rightarrow> (string \<Rightarrow> string list) \<Rightarrow> loop_kind \<Rightarrow> meet_termination \<Rightarrow> run_mode \<Rightarrow> string \<Rightarrow>
   ('d, 'f) round_input list \<Rightarrow> ('d, 'f, 'w) meet_state \<Rightarrow> (meetings_error + string) \<times> ('d, 'f, 'w) meet_state" where
  "meet_loop secs N commitments kind term mode source [] s =
     (case meet_round secs N commitments kind term mode source closed_input s of
        (Inl e, s1) \<Rightarrow> (Inl e, s1)
      | (Inr r, s1) \<Rightarrow> (Inr (case r of Some reason \<Rightarrow> reason | None \<Rightarrow> ''complete''), s1))"
| "meet_loop secs N commitments kind term mode source (inp # inputs) s =
     (case meet_round secs N commitments kind term mode source inp s of
        (Inl e, s1) \<Rightarrow> (Inl e, s1)
      | (Inr (Some reason), s1) \<Rightarrow> (Inr reason, s1)
      | (Inr None, s1) \<Rightarrow> meet_loop secs N commitments kind term mode source inputs s1)"

record meet_spec =
  mp_model_id :: string
  mp_budget :: u32
  mp_mode :: run_mode

definition meet_start ::
  "meet_spec \<Rightarrow> ('d, 'f) conversation \<Rightarrow> analysis_store \<Rightarrow> 'w \<Rightarrow> ('d, 'f, 'w) meet_state" where
  "meet_start spec conv store w =
     (let a = (analysis_new (cv_id conv))\<lparr>an_model_id := Some (mp_model_id spec)\<rparr>;
          label = (case mp_mode spec of Batch \<Rightarrow> ''batch'' | LiveMode n \<Rightarrow> ''live'')
      in \<lparr>ms_iteration = 0, ms_history = [], ms_analysis = a, ms_transcript = conv, ms_remaining_budget = mp_budget spec,
          ms_cancel_requested = False, ms_stream_closed = False,
          ms_handle = \<lparr>hd_analysis = a, hd_transcript = conv, hd_events = [MeetStarted label (cv_id conv)], hd_world = w\<rparr>,
          ms_store = an_put a store\<rparr>)"

definition meet_run ::
  "(u32 \<Rightarrow> 'f::linorder) \<Rightarrow> 'w id_supply \<Rightarrow> (string \<Rightarrow> string list) \<Rightarrow> loop_kind \<Rightarrow> meet_termination \<Rightarrow> meet_spec \<Rightarrow> string \<Rightarrow>
   (stt_error + ('d, 'f) conversation option) \<Rightarrow> ('d, 'f) round_input list \<Rightarrow> analysis_store \<Rightarrow> 'w \<Rightarrow>
   (meetings_error + analysis) \<times> meetings_event list \<times> analysis_store \<times> 'w" where
  "meet_run secs N commitments kind term spec source found inputs store w =
     (case found of
        Inl e \<Rightarrow> (Inl (SttFailure e), [], store, w)
      | Inr None \<Rightarrow> (Inl (TranscriptNotFound source), [], store, w)
      | Inr (Some conv) \<Rightarrow>
          (case meet_loop secs N commitments kind term (mp_mode spec) source inputs (meet_start spec conv store w) of
             (Inl e, s) \<Rightarrow> (Inl e, hd_events (ms_handle s), ms_store s, hd_world (ms_handle s))
           | (Inr reason, s) \<Rightarrow>
               (let a = (hd_analysis (ms_handle s))\<lparr>an_state := Final\<rparr> in
                (Inr a,
                 hd_events (ms_handle s) @ [MeetFinalized reason (length (an_notes a)) (length (an_actions a))],
                 an_put a (ms_store s), hd_world (ms_handle s)))))"

definition extract_conversation_id :: "json \<Rightarrow> string + string" where
  "extract_conversation_id input =
     (case as_str input of
        Some s \<Rightarrow> Inr s
      | None \<Rightarrow>
          (case as_object input of
             Some m \<Rightarrow> (case get_str input ''conversation_id'' of
                Some i \<Rightarrow> Inr i
              | None \<Rightarrow> Inl ''call() requires a conversation id (string or { conversation_id: ... })'')
           | None \<Rightarrow> Inl ''call() requires a conversation id (string or { conversation_id: ... })''))"

subsection \<open>What each tool leaves alone\<close>

named_theorems tool_defs

lemmas [tool_defs] = upsert_attendee_def append_note_def append_action_def update_action_def revise_tail_def finalize_segment_def
  regenerate_running_def set_title_def finalize_analysis_def advance_watermark_def fresh_id_def hd_emit_def with_analysis_def Let_def

definition ids :: "analysis \<Rightarrow> string set" where
  "ids a = at_id ` set (an_attendees a)"

lemma check_owner_ids: "check_owner own a = Inr () \<longleftrightarrow> (\<forall>i. own = Some i \<longrightarrow> i \<in> ids a)"
  by (cases own) (auto simp: check_owner_def find_attendee_def ids_def find_None_iff image_iff)

lemma merge_id [simp]: "at_id (merge_attendee n r t e x) = at_id x"
  by (simp add: merge_attendee_def)

lemma upsert_frame [simp]:
  "an_notes (hd_analysis (snd (upsert_attendee N n r t e h))) = an_notes (hd_analysis h)"
  "an_actions (hd_analysis (snd (upsert_attendee N n r t e h))) = an_actions (hd_analysis h)"
  "an_segments (hd_analysis (snd (upsert_attendee N n r t e h))) = an_segments (hd_analysis h)"
  "an_watermark (hd_analysis (snd (upsert_attendee N n r t e h))) = an_watermark (hd_analysis h)"
  "hd_transcript (snd (upsert_attendee N n r t e h)) = hd_transcript h"
  by (simp_all add: tool_defs split: option.splits prod.splits)

lemma upsert_ids:
  assumes "upsert_attendee N n r t e h = (i, h')"
  shows "i \<in> ids (hd_analysis h')" and "ids (hd_analysis h) \<subseteq> ids (hd_analysis h')"
proof -
  let ?p = "same_attendee n t" and ?f = "merge_attendee n r t e" and ?xs = "an_attendees (hd_analysis h)"
  have keep: "at_id ` set (modify_first ?p ?f ?xs) = at_id ` set ?xs"
    using map_modify_first [of ?p at_id ?f ?xs] by (metis list.set_map merge_id)
  show "i \<in> ids (hd_analysis h')" and "ids (hd_analysis h) \<subseteq> ids (hd_analysis h')"
    using assms keep by (auto simp: tool_defs ids_def dest!: find_SomeD split: option.splits prod.splits)
qed

lemma note_frame [simp]:
  "an_attendees (hd_analysis (note_turn N t h)) = an_attendees (hd_analysis h)"
  "an_actions (hd_analysis (note_turn N t h)) = an_actions (hd_analysis h)"
  "an_segments (hd_analysis (note_turn N t h)) = an_segments (hd_analysis h)"
  "an_watermark (hd_analysis (note_turn N t h)) = an_watermark (hd_analysis h)"
  "hd_transcript (note_turn N t h) = hd_transcript h"
  by (simp_all add: note_turn_def tool_defs split: prod.splits)

lemma fold_note_frame [simp]:
  "an_attendees (hd_analysis (fold (note_turn N) ts h)) = an_attendees (hd_analysis h)"
  "an_actions (hd_analysis (fold (note_turn N) ts h)) = an_actions (hd_analysis h)"
  "an_segments (hd_analysis (fold (note_turn N) ts h)) = an_segments (hd_analysis h)"
  "an_watermark (hd_analysis (fold (note_turn N) ts h)) = an_watermark (hd_analysis h)"
  "hd_transcript (fold (note_turn N) ts h) = hd_transcript h"
  by (induction ts arbitrary: h) simp_all

text \<open>The notes of a run of turns: one for each turn with text, in order.\<close>

definition note_view :: "analysis \<Rightarrow> (nat list \<times> string) list" where
  "note_view a = map (\<lambda>n. (nt_sources n, nt_text n)) (an_notes a)"

definition noted :: "('d, 'f) stt_turn list \<Rightarrow> (nat list \<times> string) list" where
  "noted ts = map (\<lambda>t. ([tn_index t], trim (tn_text t))) (filter (\<lambda>t. trim (tn_text t) \<noteq> []) ts)"

lemma note_turn_view: "note_view (hd_analysis (note_turn N t h)) = note_view (hd_analysis h) @ noted [t]"
  by (simp add: note_view_def note_turn_def noted_def tool_defs del: trim_eq_Nil split: prod.splits)

lemma fold_note_view: "note_view (hd_analysis (fold (note_turn N) ts h)) = note_view (hd_analysis h) @ noted ts"
proof (induction ts arbitrary: h)
  case (Cons t ts)
  have "noted (t # ts) = noted [t] @ noted ts" by (simp add: noted_def del: trim_eq_Nil)
  then show ?case by (simp add: Cons note_turn_view)
qed (simp add: noted_def)

lemma link_frame:
  assumes "link_attendees N conv ts own h = (own', h')"
  shows "an_notes (hd_analysis h') = an_notes (hd_analysis h) \<and> an_actions (hd_analysis h') = an_actions (hd_analysis h) \<and>
    an_segments (hd_analysis h') = an_segments (hd_analysis h) \<and> an_watermark (hd_analysis h') = an_watermark (hd_analysis h) \<and>
    hd_transcript h' = hd_transcript h"
  using assms
proof (induction ts arbitrary: own h)
  case (Cons t ts)
  show ?case
  proof (cases "speaker_id t")
    case (Some k)
    obtain i h1 where u: "upsert_attendee N (effective_label conv k) None [k] None h = (i, h1)" by force
    with Cons Some show ?thesis
      using upsert_frame [of N "effective_label conv k" None "[k]" None h] by (simp add: u)
  qed (use Cons in simp)
qed simp

lemma link_ids:
  assumes "link_attendees N conv ts own h = (own', h')" and "ran (map_of own) \<subseteq> ids (hd_analysis h)"
  shows "ran (map_of own') \<subseteq> ids (hd_analysis h') \<and> ids (hd_analysis h) \<subseteq> ids (hd_analysis h')"
  using assms
proof (induction ts arbitrary: own h)
  case (Cons t ts)
  show ?case
  proof (cases "speaker_id t")
    case (Some k)
    obtain i h1 where u: "upsert_attendee N (effective_label conv k) None [k] None h = (i, h1)" by force
    note i = upsert_ids [OF u]
    have "ran (map_of (AList.update k i own)) \<subseteq> ids (hd_analysis h1)"
      using i Cons.prems(2) by (auto simp: update_conv' ran_def split: if_splits)
    with Cons Some u i show ?thesis by force
  qed (use Cons in simp)
qed simp

lemma seed_tags_ids:
  assumes "ran (map_of m) \<subseteq> ids a" and "at_id x \<in> ids a"
  shows "ran (map_of (fold (\<lambda>k m. if map_of m k = None then (k, at_id x) # m else m) ks m)) \<subseteq> ids a"
  using assms(1)
proof (induction ks arbitrary: m)
  case (Cons k ks)
  have "ran (map_of ((k, at_id x) # m)) \<subseteq> ids a"
    using Cons.prems assms(2) by (auto simp: ran_def split: if_splits)
  from Cons.IH [OF this] Cons.IH [OF Cons.prems] show ?case by simp
qed simp

lemma seed_owners_ids:
  assumes "ran (map_of own) \<subseteq> ids a" and "set atts \<subseteq> set (an_attendees a)"
  shows "ran (map_of (seed_owners atts own)) \<subseteq> ids a"
  using assms
proof (induction atts arbitrary: own)
  case (Cons x atts)
  have "at_id x \<in> ids a" using Cons.prems(2) by (auto simp: ids_def)
  note step = seed_tags_ids [OF Cons.prems(1) this, of "at_tags x"]
  have "set atts \<subseteq> set (an_attendees a)" using Cons.prems(2) by simp
  from Cons.IH [OF step this] show ?case by (simp add: seed_owners_def)
qed (simp add: seed_owners_def)

text \<open>Actions only ever name attendees of the analysis.\<close>

definition owners_ok :: "analysis \<Rightarrow> bool" where
  "owners_ok a \<longleftrightarrow> list_all (\<lambda>x. check_owner (ac_owner x) a = Inr ()) (an_actions a)"

text \<open>What actions leave alone.\<close>

definition same_but_actions :: "('d, 'f, 'w) tool_handle \<Rightarrow> ('d, 'f, 'w) tool_handle \<Rightarrow> bool" where
  "same_but_actions h h' \<longleftrightarrow>
     an_attendees (hd_analysis h') = an_attendees (hd_analysis h) \<and> an_notes (hd_analysis h') = an_notes (hd_analysis h) \<and>
     an_segments (hd_analysis h') = an_segments (hd_analysis h) \<and> an_watermark (hd_analysis h') = an_watermark (hd_analysis h) \<and>
     hd_transcript h' = hd_transcript h"

lemma append_action_ok:
  assumes "owners_ok (hd_analysis h)" and "check_owner own (hd_analysis h) = Inr ()"
  shows "\<exists>i h'. append_action N d own due q src h = (Inr i, h') \<and> owners_ok (hd_analysis h') \<and> same_but_actions h h'"
proof -
  obtain i w where N: "N (hd_world h) = (i, w)" by force
  have keep: "check_owner o1 (a\<lparr>an_actions := xs\<rparr>) = check_owner o1 a" for o1 a xs
    by (simp add: check_owner_def find_attendee_def split: option.splits)
  show ?thesis
    using assms
    by (simp add: append_action_def fresh_id_def N Let_def hd_emit_def with_analysis_def same_but_actions_def owners_ok_def keep)
qed

lemma action_descs_ok:
  assumes "owners_ok (hd_analysis h)" and "ran (map_of own) \<subseteq> ids (hd_analysis h)"
  shows "\<exists>h'. action_descs N own t ds h = (Inr (), h') \<and> owners_ok (hd_analysis h') \<and> same_but_actions h h'"
  using assms
proof (induction ds arbitrary: h)
  case Nil
  then show ?case by (simp add: same_but_actions_def)
next
  case (Cons d ds)
  show ?case
  proof (cases "trim d = []")
    case True
    with Cons show ?thesis by (simp del: trim_eq_Nil)
  next
    case False
    let ?own = "Option.bind (speaker_id t) (map_of own)"
    have "check_owner ?own (hd_analysis h) = Inr ()"
      using Cons.prems(2) by (auto simp: check_owner_ids ran_def bind_eq_Some_conv)
    from append_action_ok [OF Cons.prems(1) this] obtain i h1
      where a: "append_action N (trim d) ?own None (Some (tn_text t)) (Some (tn_index t)) h = (Inr i, h1)"
        and ok: "owners_ok (hd_analysis h1)" and same: "same_but_actions h h1"
      by blast
    have "ran (map_of own) \<subseteq> ids (hd_analysis h1)"
      using Cons.prems(2) same by (simp add: same_but_actions_def ids_def)
    from Cons.IH [OF ok this] obtain h2 where "action_descs N own t ds h1 = (Inr (), h2)" "owners_ok (hd_analysis h2)"
      "same_but_actions h1 h2" by blast
    with a False same show ?thesis by (simp add: same_but_actions_def del: trim_eq_Nil)
  qed
qed

lemma action_turns_ok:
  assumes "owners_ok (hd_analysis h)" and "ran (map_of own) \<subseteq> ids (hd_analysis h)"
  shows "\<exists>h'. action_turns N commitments own ts h = (Inr (), h') \<and> owners_ok (hd_analysis h') \<and> same_but_actions h h'"
  using assms
proof (induction ts arbitrary: h)
  case Nil
  then show ?case by (simp add: same_but_actions_def)
next
  case (Cons t ts)
  from action_descs_ok [OF Cons.prems, of N t "commitments (tn_text t)"] obtain h1
    where a: "action_descs N own t (commitments (tn_text t)) h = (Inr (), h1)"
      and ok: "owners_ok (hd_analysis h1)" and same: "same_but_actions h h1"
    by blast
  have "ran (map_of own) \<subseteq> ids (hd_analysis h1)"
    using Cons.prems(2) same by (simp add: same_but_actions_def ids_def)
  from Cons.IH [OF ok this] obtain h2 where "action_turns N commitments own ts h1 = (Inr (), h2)" "owners_ok (hd_analysis h2)"
    "same_but_actions h1 h2" by blast
  with a same show ?case by (simp add: same_but_actions_def)
qed

text \<open>All the discovery of a window: attendees, notes and actions.\<close>

lemma discovery_ok:
  assumes l: "link_attendees N conv win [] h = (own, h1)" and ok: "owners_ok (hd_analysis h)"
  defines "h2 \<equiv> fold (note_turn N) win h1"
  shows "\<exists>h3. action_turns N commitments (seed_owners (an_attendees (hd_analysis h1)) own) win h2 = (Inr (), h3) \<and>
    owners_ok (hd_analysis h3) \<and> note_view (hd_analysis h3) = note_view (hd_analysis h) @ noted win \<and>
    an_segments (hd_analysis h3) = an_segments (hd_analysis h) \<and> an_watermark (hd_analysis h3) = an_watermark (hd_analysis h) \<and>
    hd_transcript h3 = hd_transcript h"
proof -
  note f = link_frame [OF l]
  have i: "ran (map_of own) \<subseteq> ids (hd_analysis h1)" "ids (hd_analysis h) \<subseteq> ids (hd_analysis h1)"
    using link_ids [OF l] by auto
  have ok2: "owners_ok (hd_analysis h2)"
    using ok i(2) f by (auto simp: h2_def owners_ok_def list_all_iff check_owner_ids ids_def)
  have "ids (hd_analysis h2) = ids (hd_analysis h1)" by (simp add: h2_def ids_def)
  then have own: "ran (map_of (seed_owners (an_attendees (hd_analysis h1)) own)) \<subseteq> ids (hd_analysis h2)"
    using seed_owners_ids [OF i(1), of "an_attendees (hd_analysis h1)"] by simp
  from action_turns_ok [OF ok2 own, of N commitments win] obtain h3
    where "action_turns N commitments (seed_owners (an_attendees (hd_analysis h1)) own) win h2 = (Inr (), h3)"
      "owners_ok (hd_analysis h3)" "same_but_actions h2 h3" by blast
  then show ?thesis
    using f fold_note_view [of N win h1] by (simp add: h2_def same_but_actions_def note_view_def)
qed

subsection \<open>Segments partition the turns\<close>

text \<open>
  Frozen segments come first; at most one open segment follows. The turns they cover are those from zero on,
  each once.
\<close>

definition spans :: "segment_summary list \<Rightarrow> nat list" where
  "spans segs = concat (map (\<lambda>s. [sgs_start s..<Suc (sgs_end s)]) segs)"

definition frozen :: "segment_summary list \<Rightarrow> bool" where
  "frozen segs \<longleftrightarrow> list_all (\<lambda>s. sgs_finalized s \<and> sgs_start s \<le> sgs_end s) segs"

definition segs_cover :: "segment_summary list \<Rightarrow> nat \<Rightarrow> bool" where
  "segs_cover segs n \<longleftrightarrow>
     (frozen segs \<and> spans segs = [0..<n]) \<or>
     (\<exists>fs x. segs = fs @ [x] \<and> frozen fs \<and> \<not> sgs_finalized x \<and> spans fs = [0..<sgs_start x] \<and> sgs_start x \<le> sgs_end x \<and>
        n = Suc (sgs_end x))"

lemma spans_append [simp]: "spans (xs @ ys) = spans xs @ spans ys"
  by (simp add: spans_def)

lemma spans_one [simp]: "spans [x] = [sgs_start x..<Suc (sgs_end x)]"
  by (simp add: spans_def)

lemma frozen_append [simp]: "frozen (xs @ ys) \<longleftrightarrow> frozen xs \<and> frozen ys"
  by (simp add: frozen_def)

lemma open_tail_frozen [simp]: "frozen fs \<Longrightarrow> open_tail fs = None"
  by (auto simp: open_tail_def frozen_def list_all_iff find_None_iff)

lemma open_tail_last [simp]: "\<not> sgs_finalized x \<Longrightarrow> open_tail (fs @ [x]) = Some x"
  by (simp add: open_tail_def)

lemma modify_tail_last [simp]: "\<not> sgs_finalized x \<Longrightarrow> modify_tail f (fs @ [x]) = fs @ [f x]"
  by (simp add: modify_tail_def)

lemma upt_join: "a \<le> b \<Longrightarrow> [0..<a] @ [a..<b] = [0..<b]"
  using upt_add_eq_append [of 0 a "b - a"] by simp

text \<open>The fields a segment operation keeps.\<close>

definition same_but_segments :: "('d, 'f, 'w) tool_handle \<Rightarrow> ('d, 'f, 'w) tool_handle \<Rightarrow> bool" where
  "same_but_segments h h' \<longleftrightarrow>
     an_attendees (hd_analysis h') = an_attendees (hd_analysis h) \<and> an_notes (hd_analysis h') = an_notes (hd_analysis h) \<and>
     an_actions (hd_analysis h') = an_actions (hd_analysis h) \<and> an_watermark (hd_analysis h') = an_watermark (hd_analysis h) \<and>
     hd_transcript h' = hd_transcript h"

lemma same_segments_trans: "same_but_segments g h \<Longrightarrow> same_but_segments h h' \<Longrightarrow> same_but_segments g h'"
  by (simp add: same_but_segments_def)

lemma revise_tail_extends:
  assumes c: "segs_cover (an_segments (hd_analysis h)) n" and n: "n \<le> e"
  defines "s \<equiv> (case open_tail (an_segments (hd_analysis h)) of Some x \<Rightarrow> sgs_start x | None \<Rightarrow> n)"
  shows "\<exists>x fs h'. revise_tail N text s e h = (Inr x, h') \<and> an_segments (hd_analysis h') = fs @ [x] \<and> frozen fs \<and>
    \<not> sgs_finalized x \<and> spans fs = [0..<sgs_start x] \<and> sgs_start x \<le> sgs_end x \<and> sgs_end x = e \<and> same_but_segments h h'"
  using c unfolding segs_cover_def
proof (elim disjE exE conjE)
  assume f: "frozen (an_segments (hd_analysis h))" and sp: "spans (an_segments (hd_analysis h)) = [0..<n]"
  obtain i w where N: "N (hd_world h) = (i, w)" by force
  show ?thesis
    using f sp n by (simp add: s_def revise_tail_def fresh_id_def N Let_def hd_emit_def with_analysis_def same_but_segments_def)
next
  fix fs x
  assume a: "an_segments (hd_analysis h) = fs @ [x]" and f: "frozen fs" and x: "\<not> sgs_finalized x"
    and sp: "spans fs = [0..<sgs_start x]" and le: "sgs_start x \<le> sgs_end x" and m: "n = Suc (sgs_end x)"
  show ?thesis
    using a f x sp le m n
    by (simp add: s_def revise_tail_def widen_segment_def Let_def hd_emit_def with_analysis_def same_but_segments_def max_def)
qed

lemma finalize_segment_freezes:
  assumes "segs_cover (an_segments (hd_analysis h)) n"
  shows "frozen (an_segments (hd_analysis (snd (finalize_segment h))))"
    and "spans (an_segments (hd_analysis (snd (finalize_segment h)))) = [0..<n]"
    and "same_but_segments h (snd (finalize_segment h))"
  using assms
  by (auto simp: segs_cover_def finalize_segment_def Let_def hd_emit_def with_analysis_def same_but_segments_def upt_join
      simp del: upt_Suc) (auto simp: frozen_def)

lemma frozen_covers: "frozen segs \<Longrightarrow> spans segs = [0..<n] \<Longrightarrow> segs_cover segs n"
  by (simp add: segs_cover_def)

lemma running_frame [simp]:
  "an_segments (hd_analysis (snd (regenerate_running h))) = an_segments (hd_analysis h)"
  "same_but_segments g (snd (regenerate_running h)) = same_but_segments g h"
  by (simp_all add: regenerate_running_def Let_def hd_emit_def with_analysis_def same_but_segments_def)

lemma live_segment_covers:
  assumes c: "segs_cover (an_segments (hd_analysis h)) n" and win: "win \<noteq> []" "map tn_index win = [n..<m]"
  shows "\<exists>h'. live_segment N rq conv win h = (Inr (), advance_watermark (m - 1) h') \<and>
    segs_cover (an_segments (hd_analysis h')) m \<and> same_but_segments h h'"
proof -
  have nm: "n < m" using win by (metis map_is_Nil_conv upt_rec)
  then have le: "n \<le> m - 1" by simp
  have "Max {n..<m} = m - 1" using nm by (intro Max_eqI) auto
  then have ends: "tn_index (hd win) = n" "tn_index (last win) = m - 1" "Max (set (map tn_index win)) = m - 1"
    using win(2) nm hd_map [OF win(1), of tn_index] last_map [OF win(1), of tn_index] by simp_all
  let ?s = "case open_tail (an_segments (hd_analysis h)) of Some x \<Rightarrow> sgs_start x | None \<Rightarrow> n"
  obtain x fs h1 where r: "revise_tail N (summarize_segment (segment_slice conv ?s (m - 1))) ?s (m - 1) h = (Inr x, h1)"
    and h1: "an_segments (hd_analysis h1) = fs @ [x]" "frozen fs" "\<not> sgs_finalized x" "spans fs = [0..<sgs_start x]"
      "sgs_start x \<le> sgs_end x" "sgs_end x = m - 1" "same_but_segments h h1"
    using revise_tail_extends [OF c le, of N "summarize_segment (segment_slice conv ?s (m - 1))"] by blast
  have "m = Suc (sgs_end x)" using h1(6) nm by simp
  with h1 have c1: "segs_cover (an_segments (hd_analysis h1)) m" unfolding segs_cover_def by blast
  let ?h2 = "if rq_segment_turns rq \<le> (m - 1 - ?s) + 1 then snd (regenerate_running (snd (finalize_segment h1))) else h1"
  have "segs_cover (an_segments (hd_analysis ?h2)) m \<and> same_but_segments h ?h2"
    using finalize_segment_freezes [OF c1] c1 h1(7)
    by (simp add: frozen_covers same_segments_trans [of h h1 "snd (finalize_segment h1)"])
  moreover have "live_segment N rq conv win h = (Inr (), advance_watermark (m - 1) ?h2)"
    unfolding live_segment_def using win(1) by (simp only: ends if_False Let_def r prod.case sum.case)
  ultimately show ?thesis by blast
qed

subsection \<open>A live run covers the transcript\<close>

text \<open>What an analysis says once the first \<open>n\<close> of the turns \<open>ts\<close> have been processed.\<close>

definition analysed :: "('d, 'f) stt_turn list \<Rightarrow> nat \<Rightarrow> ('d, 'f, 'w) tool_handle \<Rightarrow> bool" where
  "analysed ts n h \<longleftrightarrow>
     n \<le> length ts \<and> note_view (hd_analysis h) = noted (take n ts) \<and> segs_cover (an_segments (hd_analysis h)) n \<and>
     an_watermark (hd_analysis h) = (if n = 0 then None else Some (n - 1)) \<and> owners_ok (hd_analysis h)"

lemma same_owners:
  "an_attendees a' = an_attendees a \<Longrightarrow> an_actions a' = an_actions a \<Longrightarrow> owners_ok a' = owners_ok a"
  by (simp add: owners_ok_def check_owner_ids ids_def)

lemma window_after:
  assumes t: "turns_numbered conv" and n: "n \<le> length (cv_turns conv)"
    and rq: "rq_since rq = (if n = 0 then None else Some n)" "rq_until rq = None"
  shows "in_window rq conv = drop n (cv_turns conv)"
proof -
  have ix: "tn_index (cv_turns conv ! i) = i" if "i < length (cv_turns conv)" for i
    using t that unfolding turns_numbered_def by (metis length_map nth_map nth_upt plus_nat.add_0)
  have early: "filter (\<lambda>t. n \<le> tn_index t) (take n (cv_turns conv)) = []"
    using ix n by (auto simp: filter_empty_conv in_set_conv_nth)
  have late: "filter (\<lambda>t. n \<le> tn_index t) (drop n (cv_turns conv)) = drop n (cv_turns conv)"
    using ix n by (auto simp: filter_id_conv in_set_conv_nth)
  have "in_window rq conv = filter (\<lambda>t. n \<le> tn_index t) (take n (cv_turns conv) @ drop n (cv_turns conv))"
    by (auto simp: in_window_def rq)
  then show ?thesis by (simp only: filter_append early late append_Nil)
qed

lemma noted_append: "noted (xs @ ys) = noted xs @ noted ys"
  by (simp add: noted_def del: trim_eq_Nil)

lemma wrap_up_ok:
  assumes "segs_cover (an_segments (hd_analysis h)) n"
  shows "frozen (an_segments (hd_analysis (wrap_up h))) \<and> spans (an_segments (hd_analysis (wrap_up h))) = [0..<n] \<and>
    same_but_segments h (wrap_up h)"
proof -
  note f = finalize_segment_freezes [OF assms]
  have all: "map (\<lambda>s. s\<lparr>sgs_finalized := True\<rparr>) xs = xs" if "frozen xs" for xs
    using that by (auto simp: frozen_def list_all_iff intro!: map_idI)
  obtain r h2 where r: "regenerate_running (snd (finalize_segment h)) = (r, h2)" by force
  have h2: "an_segments (hd_analysis h2) = an_segments (hd_analysis (snd (finalize_segment h)))" "same_but_segments h h2"
    using running_frame(1) [of "snd (finalize_segment h)"] running_frame(2) [of h "snd (finalize_segment h)"] f(3)
    by (simp_all add: r)
  have t: "an_segments (hd_analysis (set_title x h2)) = an_segments (hd_analysis h2)" "same_but_segments h (set_title x h2)" for x
    using h2(2) by (simp_all add: set_title_def hd_emit_def with_analysis_def same_but_segments_def)
  have fin: "an_segments (hd_analysis (snd (finalize_analysis rs td g))) =
      map (\<lambda>s. s\<lparr>sgs_finalized := True\<rparr>) (an_segments (hd_analysis g))"
    "same_but_segments h g \<Longrightarrow> same_but_segments h (snd (finalize_analysis rs td g))" for rs td g
    by (simp_all add: finalize_analysis_def Let_def hd_emit_def with_analysis_def same_but_segments_def)
  show ?thesis
    using f h2 t by (auto simp: wrap_up_def Let_def r fin all)
qed

lemma advance_frame [simp]:
  "an_attendees (hd_analysis (advance_watermark i h)) = an_attendees (hd_analysis h)"
  "an_notes (hd_analysis (advance_watermark i h)) = an_notes (hd_analysis h)"
  "an_actions (hd_analysis (advance_watermark i h)) = an_actions (hd_analysis h)"
  "an_segments (hd_analysis (advance_watermark i h)) = an_segments (hd_analysis h)"
  "an_watermark (hd_analysis (advance_watermark i h)) = Some i"
  "hd_transcript (advance_watermark i h) = hd_transcript h"
  by (simp_all add: advance_watermark_def hd_emit_def with_analysis_def)

lemma analysed_kept:
  assumes "analysed ts n h" and "an_segments (hd_analysis h') = segs" and "segs_cover segs n" and "same_but_segments h h'"
  shows "analysed ts n h'"
  using assms same_owners [of "hd_analysis h'" "hd_analysis h"]
  by (simp add: analysed_def same_but_segments_def note_view_def)

lemma extractor_analyses:
  assumes a: "analysed (cv_turns conv) n h" and tr: "hd_transcript h = conv" and num: "turns_numbered conv"
    and rq: "rq_since rq = (if n = 0 then None else Some n)" "rq_until rq = None" "rq_live rq"
  shows "\<exists>h'. run_extractor N commitments rq h = (Inr (), h') \<and> analysed (cv_turns conv) (length (cv_turns conv)) h' \<and>
    (rq_finalize rq \<longrightarrow> frozen (an_segments (hd_analysis h'))) \<and> hd_transcript h' = conv"
proof -
  let ?ts = "cv_turns conv" and ?win = "drop n (cv_turns conv)"
  have n: "n \<le> length ?ts" using a by (simp add: analysed_def)
  note w = window_after [OF num n rq(1,2)]
  have ix: "map tn_index ?win = [n..<length ?ts]"
    using num unfolding turns_numbered_def by (simp add: drop_map [symmetric])
  obtain own h1 where l: "link_attendees N conv ?win [] h = (own, h1)" by force
  obtain h3 where d: "action_turns N commitments (seed_owners (an_attendees (hd_analysis h1)) own) ?win (fold (note_turn N) ?win h1) =
      (Inr (), h3)" and h3: "owners_ok (hd_analysis h3)" "note_view (hd_analysis h3) = note_view (hd_analysis h) @ noted ?win"
      "an_segments (hd_analysis h3) = an_segments (hd_analysis h)" "an_watermark (hd_analysis h3) = an_watermark (hd_analysis h)"
      "hd_transcript h3 = hd_transcript h"
    using discovery_ok [OF l] a unfolding analysed_def by blast
  have nts: "note_view (hd_analysis h3) = noted ?ts"
    using h3(2) a noted_append [of "take n ?ts" ?win] by (simp add: analysed_def)
  obtain h4 where s: "live_segment N rq conv ?win h3 = (Inr (), h4)" and h4: "analysed ?ts (length ?ts) h4" "hd_transcript h4 = conv"
  proof (cases "?win = []")
    case True
    then have "n = length ?ts" using n by simp
    then have "analysed ?ts (length ?ts) h3" using a h3 nts by (simp add: analysed_def)
    with True h3(5) tr that show thesis by (simp add: live_segment_def)
  next
    case False
    have "segs_cover (an_segments (hd_analysis h3)) n" using a h3(3) by (simp add: analysed_def)
    from live_segment_covers [OF this False ix, of N rq conv] obtain g
      where g: "live_segment N rq conv ?win h3 = (Inr (), advance_watermark (length ?ts - 1) g)"
        and c: "segs_cover (an_segments (hd_analysis g)) (length ?ts)" and same: "same_but_segments h3 g"
      by blast
    let ?g = "advance_watermark (length ?ts - 1) g"
    have "?ts \<noteq> []" using False by auto
    have "owners_ok (hd_analysis ?g)"
      using same h3(1) same_owners [of "hd_analysis ?g" "hd_analysis h3"] by (simp add: same_but_segments_def)
    then have "analysed ?ts (length ?ts) ?g"
      using \<open>?ts \<noteq> []\<close> c same nts by (simp add: analysed_def same_but_segments_def note_view_def)
    moreover have "hd_transcript ?g = conv"
      using same h3(5) tr by (simp add: same_but_segments_def)
    ultimately show thesis using that g by blast
  qed
  have fin: "analysed ?ts (length ?ts) (wrap_up h4) \<and> frozen (an_segments (hd_analysis (wrap_up h4))) \<and> hd_transcript (wrap_up h4) = conv"
  proof -
    have c: "segs_cover (an_segments (hd_analysis h4)) (length ?ts)" using h4(1) by (simp add: analysed_def)
    note w = wrap_up_ok [OF c]
    then have "segs_cover (an_segments (hd_analysis (wrap_up h4))) (length ?ts)" by (blast intro: frozen_covers)
    from analysed_kept [OF h4(1) refl this] w h4(2) show ?thesis by (simp add: same_but_segments_def)
  qed
  show ?thesis
  proof (cases "?win = [] \<and> \<not> rq_finalize rq")
    case True
    then have "n = length ?ts" using n by simp
    with True a tr w show ?thesis by (simp add: run_extractor_def Let_def)
  next
    case False
    then show ?thesis
      unfolding run_extractor_def Let_def tr w
      by (simp only: if_False l d prod.case sum.case rq(3) if_True s) (use h4 fin in auto)
  qed
qed

text \<open>A run follows a transcript that only grows; each round finds it as it is at that time.\<close>

definition live_input :: "stt_recv \<Rightarrow> ('d, 'f) conversation \<Rightarrow> ('d, 'f) round_input" where
  "live_input r conv = \<lparr>in_cancel = False, in_recv = r, in_transcript = Inr (Some conv)\<rparr>"

definition followed :: "('d, 'f) stt_turn list \<Rightarrow> ('d, 'f, 'w) meet_state \<Rightarrow> bool" where
  "followed ts s \<longleftrightarrow>
     analysed ts (length ts) (ms_handle s) \<and> an_watermark (ms_analysis s) = an_watermark (hd_analysis (ms_handle s)) \<and>
     \<not> ms_cancel_requested s \<and> \<not> ms_stream_closed s"

lemma analysed_extend:
  assumes "analysed ts (length ts) h"
  shows "analysed (ts @ us) (length ts) h"
  using assms by (simp add: analysed_def)

lemma live_round:
  assumes f: "followed ts s" and num: "turns_numbered conv" and grow: "cv_turns conv = ts @ us"
    and r: "on_receive r = Some (fin, label)"
  shows "\<exists>s'. meet_round secs N commitments StreamingExtraction MeetStreamEnd mode source (live_input r conv) s =
      (Inr (if fin then Some ''complete'' else None), s') \<and>
    analysed (cv_turns conv) (length (cv_turns conv)) (ms_handle s') \<and>
    (fin \<longrightarrow> frozen (an_segments (hd_analysis (ms_handle s')))) \<and> (\<not> fin \<longrightarrow> followed (cv_turns conv) s')"
proof -
  let ?h = "set_transcript conv (ms_handle s)"
  let ?rq = "\<lparr>rq_since = map_option Suc (an_watermark (ms_analysis s)), rq_until = None, rq_finalize = fin, rq_live = True,
    rq_segment_turns = segment_turns mode\<rparr>"
  have a: "analysed (cv_turns conv) (length ts) ?h"
    using f grow analysed_extend [of ts "ms_handle s" us] by (simp add: followed_def set_transcript_def analysed_def)
  have since: "map_option Suc (an_watermark (ms_analysis s)) = (if length ts = 0 then None else Some (length ts))"
    using f by (cases ts) (simp_all add: followed_def analysed_def)
  have tr: "hd_transcript ?h = conv" by (simp add: set_transcript_def)
  obtain h' where x: "run_extractor N commitments ?rq ?h = (Inr (), h')"
    and h': "analysed (cv_turns conv) (length (cv_turns conv)) h'" "fin \<longrightarrow> frozen (an_segments (hd_analysis h'))"
    using extractor_analyses [OF a tr num, of ?rq N commitments] since by auto
  define s1 where "s1 = s\<lparr>ms_iteration := ms_iteration s + 1\<rparr>"
  have go: "meet_done MeetStreamEnd s = None" using f by (simp add: followed_def)
  obtain s' where st: "streaming_step secs N commitments (segment_turns mode) source (live_input r conv) s1 =
      (Inr (fin, label), s')"
    and s': "hd_analysis (ms_handle s') = hd_analysis h'" "an_watermark (ms_analysis s') = an_watermark (hd_analysis h')"
      "ms_cancel_requested s' = ms_cancel_requested s" "ms_stream_closed s' = (fin \<or> ms_stream_closed s)"
    using x
    by (cases fin; cases "ms_iteration s = 0")
      (simp_all add: streaming_step_def live_input_def r Let_def extract_and_store_def s1_def hd_emit_def)
  have same: "analysed us' n g \<longleftrightarrow> analysed us' n h'" if "hd_analysis g = hd_analysis h'" for us' n and g :: "('a, 'b, 'c) tool_handle"
    using that by (simp add: analysed_def)
  show ?thesis
    using f go h' s' same [OF s'(1)] st
    by (simp add: meet_round_def live_input_def Let_def s1_def push_meet_step_def followed_def)
qed

fun grows :: "('d, 'f) stt_turn list \<Rightarrow> ('d, 'f) conversation list \<Rightarrow> bool" where
  "grows ts [] \<longleftrightarrow> True"
| "grows ts (c # cs) \<longleftrightarrow> turns_numbered c \<and> take (length ts) (cv_turns c) = ts \<and> grows (cv_turns c) cs"

lemma live_loop:
  assumes "followed ts s" and "grows ts (map snd bursts @ [final])"
    and "list_all (\<lambda>(r, c). r = RecvEvent False \<or> r = RecvLagged) bursts"
  shows "\<exists>s'. meet_loop secs N commitments StreamingExtraction MeetStreamEnd mode source
      (map (\<lambda>(r, c). live_input r c) bursts @ [live_input (RecvEvent True) final]) s = (Inr ''complete'', s') \<and>
    analysed (cv_turns final) (length (cv_turns final)) (ms_handle s') \<and> frozen (an_segments (hd_analysis (ms_handle s')))"
  using assms
proof (induction bursts arbitrary: ts s)
  case Nil
  then have num: "turns_numbered final" and g: "cv_turns final = ts @ drop (length ts) (cv_turns final)"
    by simp_all (metis append_take_drop_id)
  from live_round [OF Nil.prems(1) num g, of "RecvEvent True" True "''finished''" secs N commitments mode source]
  obtain s1 where "meet_round secs N commitments StreamingExtraction MeetStreamEnd mode source (live_input (RecvEvent True) final) s =
      (Inr (Some ''complete''), s1)"
    and "analysed (cv_turns final) (length (cv_turns final)) (ms_handle s1)" "frozen (an_segments (hd_analysis (ms_handle s1)))"
    by auto
  then show ?case by simp
next
  case (Cons b bursts)
  obtain r c where b: "b = (r, c)" by force
  obtain label where r: "on_receive r = Some (False, label)" using Cons.prems(3) b by auto
  have num: "turns_numbered c" and g: "cv_turns c = ts @ drop (length ts) (cv_turns c)"
    and rest: "grows (cv_turns c) (map snd bursts @ [final])"
    using Cons.prems(2) by (simp_all add: b) (metis append_take_drop_id)
  from live_round [OF Cons.prems(1) num g r, of secs N commitments mode source] obtain s1
    where "meet_round secs N commitments StreamingExtraction MeetStreamEnd mode source (live_input r c) s = (Inr None, s1)"
      and "followed (cv_turns c) s1" by auto
  with Cons.IH [OF _ rest, of s1] Cons.prems(3) show ?case by (simp add: b)
qed

text \<open>
  (C33) A live run that follows a growing transcript to its end returns: whatever bursts and missed events there were
  on the way, the final analysis has one note for each turn with text, in the order of the transcript, its
  segments cover every turn once and in order and are all finalized, every action's owner is an attendee, and it is
  what the store holds.
\<close>

theorem live_run_covers:
  assumes "grows [] (map snd bursts @ [final])"
    and "list_all (\<lambda>(r, c). r = RecvEvent False \<or> r = RecvLagged) bursts"
  shows "\<exists>a evs st w'. meet_run secs N commitments StreamingExtraction MeetStreamEnd spec source (Inr (Some conv))
      (map (\<lambda>(r, c). live_input r c) bursts @ [live_input (RecvEvent True) final]) store w = (Inr a, evs, st, w') \<and>
    note_view a = noted (cv_turns final) \<and> spans (an_segments a) = [0..<length (cv_turns final)] \<and>
    list_all sgs_finalized (an_segments a) \<and> owners_ok a \<and> an_state a = Final \<and> an_get (an_id a) st = Some a"
proof -
  have "followed [] (meet_start spec conv store w)"
    by (simp add: followed_def analysed_def meet_start_def analysis_new_def note_view_def noted_def segs_cover_def frozen_def
        spans_def owners_ok_def Let_def)
  from live_loop [OF this assms, of secs N commitments "mp_mode spec" source] obtain s
    where l: "meet_loop secs N commitments StreamingExtraction MeetStreamEnd (mp_mode spec) source
        (map (\<lambda>(r, c). live_input r c) bursts @ [live_input (RecvEvent True) final]) (meet_start spec conv store w) =
        (Inr ''complete'', s)"
      and a: "analysed (cv_turns final) (length (cv_turns final)) (ms_handle s)"
      and f: "frozen (an_segments (hd_analysis (ms_handle s)))"
    by blast
  let ?a = "hd_analysis (ms_handle s)"
  have "spans (an_segments ?a) = [0..<length (cv_turns final)]"
    using a f unfolding analysed_def segs_cover_def by (auto simp: frozen_def)
  moreover have "list_all sgs_finalized (an_segments ?a)" using f by (simp add: frozen_def list_all_iff)
  moreover have "owners_ok (?a\<lparr>an_state := Final\<rparr>)"
    using a same_owners [of "?a\<lparr>an_state := Final\<rparr>" ?a] by (simp add: analysed_def)
  ultimately show ?thesis
    using a by (simp add: meet_run_def l Let_def an_get_def an_put_def update_conv' analysed_def note_view_def)
qed

definition demo_turn :: "nat \<Rightarrow> u8 \<Rightarrow> string \<Rightarrow> (unit, nat) stt_turn" where
  "demo_turn i k s =
     \<lparr>tn_index = i, tn_speaker = Diarized \<lparr>sk_id = k, sk_label = None\<rparr>, tn_text = s, tn_start_ms = 0, tn_end_ms = 0, tn_words = [], tn_confidence = None,
      tn_state = FinalTurn\<rparr>"

definition demo_meeting :: "(unit, nat) stt_turn list \<Rightarrow> (unit, nat) conversation" where
  "demo_meeting ts = (conv_new unat ''m'')\<lparr>cv_turns := ts\<rparr>"

definition demo_turns :: "(unit, nat) stt_turn list" where
  "demo_turns = [demo_turn 0 0 ''hello'', demo_turn 1 1 [], demo_turn 2 0 ''I will go'', demo_turn 3 1 ''bye'']"

definition demo_bursts :: "(stt_recv \<times> (unit, nat) conversation) list" where
  "demo_bursts = [(RecvEvent False, demo_meeting (take 1 demo_turns)), (RecvLagged, demo_meeting (take 3 demo_turns))]"

theorem live_run_covers_witness:
  "\<exists>a evs st w'. meet_run unat (\<lambda>n. (show_nat n, Suc n)) (\<lambda>s. if s = ''I will go'' then [''go''] else [])
      StreamingExtraction MeetStreamEnd \<lparr>mp_model_id = [], mp_budget = 0, mp_mode = LiveMode 2\<rparr> ''m'' (Inr (Some (demo_meeting [])))
      (map (\<lambda>(r, c). live_input r c) demo_bursts @ [live_input (RecvEvent True) (demo_meeting demo_turns)])
      [] (0::nat) = (Inr a, evs, st, w') \<and>
    note_view a = [([0], ''hello''), ([2], ''I will go''), ([3], ''bye'')] \<and>
    spans (an_segments a) = [0, 1, 2, 3] \<and> list_all sgs_finalized (an_segments a) \<and> owners_ok a \<and> an_state a = Final \<and>
    an_get (an_id a) st = Some a"
proof -
  have g: "grows [] (map snd demo_bursts @ [demo_meeting demo_turns])"
    by (simp add: demo_bursts_def demo_turns_def demo_meeting_def demo_turn_def turns_numbered_def upt_rec)
  have b: "list_all (\<lambda>(r, c). r = RecvEvent False \<or> r = RecvLagged) demo_bursts"
    by (simp add: demo_bursts_def)
  have n: "noted (cv_turns (demo_meeting demo_turns)) = [([0], ''hello''), ([2], ''I will go''), ([3], ''bye'')]"
    by (auto simp: noted_def demo_turns_def demo_meeting_def demo_turn_def trim_def is_ws_def simp del: trim_eq_Nil)
  have l: "[0..<length (cv_turns (demo_meeting demo_turns))] = [0, 1, 2, 3]" by code_simp
  show ?thesis
    using live_run_covers [OF g b, of unat "\<lambda>n. (show_nat n, Suc n)" "\<lambda>s. if s = ''I will go'' then [''go''] else []"
        "\<lparr>mp_model_id = [], mp_budget = 0, mp_mode = LiveMode 2\<rparr>" "''m''" "demo_meeting []" "[]" "0::nat"]
    by (simp only: n l)
qed

end
