(* ===== verification/Agent_Sdk.thy ===== *)
theory Agent_Sdk
  imports Sandbox_Harness Harness Strings
begin

text \<open>
  The harness around an external agent SDK (\<open>crates/agent-sdk-core\<close>, \<open>crates/agent-sdk-harness\<close>, with the sandbox
  feature on): configurations and messages, the rendered project files, headless runs with a cost cap,
  interactive sessions under a quota and their sandbox workspaces. The SDK, the host file system and the sandbox
  backend are arguments, each acting on a world; a stream is the list of what it delivers. Only the options the
  harness reads are named; the others travel unread in \<open>cf_rest\<close>. Amounts of money are floats (\<open>'f\<close>), and
  \<open>micro\<close> is their conversion to micro-dollars.
\<close>

subsection \<open>Configuration, requests, messages (agent-sdk-core)\<close>

datatype sdk_error =
    SdkUnavailable string
  | SdkInvalidConfig string
  | SdkSessionNotFound string
  | SdkSessionQuota nat
  | SdkBudgetExhausted string
  | SdkPolicyDenied string
  | SdkFailed string
  | SdkStreamClosed
  | SdkCancelled
  | SdkSerde string

datatype permission_mode = PermDefault | AcceptEdits | PlanMode | BypassPermissions

fun as_sdk_str :: "permission_mode \<Rightarrow> string" where
  "as_sdk_str PermDefault = ''default''"
| "as_sdk_str AcceptEdits = ''acceptEdits''"
| "as_sdk_str PlanMode = ''plan''"
| "as_sdk_str BypassPermissions = ''bypassPermissions''"

datatype setting_source = UserSettings | ProjectSettings | LocalSettings

datatype effort = LowEffort | MediumEffort | HighEffort | XhighEffort | MaxEffort

datatype mcp_server =
    Stdio string "string list" "(string \<times> string) list"
  | Sse string "(string \<times> string) list"
  | HttpServer string "(string \<times> string) list"
  | InProcess string

record 'x sdk_config =
  cf_allowed :: "string list"
  cf_disallowed :: "string list"
  cf_permission_mode :: permission_mode
  cf_cwd :: "string option"
  cf_mcp_servers :: "(string \<times> mcp_server) list"
  cf_setting_sources :: "setting_source list"
  cf_model :: "string option"
  cf_fallback_model :: "string option"
  cf_max_turns :: "u32 option"
  cf_effort :: "effort option"
  cf_workspace_id :: "string option"
  cf_rest :: 'x

record ('f, 'x) query_request =
  qr_prompt :: string
  qr_config :: "'x sdk_config"
  qr_max_cost :: "'f option"

record 'x session_spec =
  ss_config :: "'x sdk_config"
  ss_initial_prompt :: "string option"

record usage_summary =
  us_input :: u64
  us_output :: u64
  us_cache_creation :: u64
  us_cache_read :: u64

record 'f result_summary =
  rs_subtype :: string
  rs_result :: "string option"
  rs_session :: "string option"
  rs_num_turns :: u32
  rs_duration_ms :: "u64 option"
  rs_cost :: "'f option"
  rs_usage :: usage_summary
  rs_is_error :: bool

definition cost_micro_usd :: "('f \<Rightarrow> u64) \<Rightarrow> 'f result_summary \<Rightarrow> u64" where
  "cost_micro_usd micro r = (case rs_cost r of Some c \<Rightarrow> micro c | None \<Rightarrow> 0)"

datatype content_block =
    TextBlock string
  | ThinkingBlock string
  | ToolUseBlock string string json
  | ToolResultBlock string "json option" bool

datatype 'f sdk_message =
    SystemMsg "string option" "string option" "string option" "string list" "string list"
  | AssistantMsg "content_block list"
  | ResultMsg "'f result_summary"
  | UnknownMsg

datatype sdk_finish = Completed | MaxTurns | BudgetExhausted | Interrupted | ErrorFinish

datatype 'f sdk_event =
    RunStarted string "string option" "string option"
  | SystemInit "string option" "string list" "string list"
  | AssistantTextDelta string
  | ThinkingDelta string
  | ToolUseEvent string string json
  | ToolResultEvent string bool
  | UsageEvent u64 u64 "'f option"
  | RunFinished sdk_finish "string option" "string option"
  | NoteEvent string

datatype bus_event =
    BusTurn string u32 u32 u32 u64
  | BusIteration string u64 string

subsection \<open>Project files (projection.rs)\<close>

record skill_doc =
  sd_id :: string
  sd_name :: "string option"
  sd_description :: "string option"
  sd_allowed_tools :: "string list"
  sd_body :: string

record command_doc =
  cd_name :: string
  cd_description :: "string option"
  cd_allowed_tools :: "string list"
  cd_model :: "string option"
  cd_body :: string

record projection =
  pj_skills :: "skill_doc list"
  pj_commands :: "command_doc list"
  pj_mcp_servers :: "(string \<times> mcp_server) list"
  pj_settings :: "json option"

definition line :: "string \<Rightarrow> string" where
  "line s = s @ [lf]"

definition frontmatter_list :: "string \<Rightarrow> string list \<Rightarrow> string" where
  "frontmatter_list key items =
     (if items = [] then [] else line (key @ '':'') @ concat (map (\<lambda>i. line (''  - '' @ i)) items))"

definition ended :: "string \<Rightarrow> string" where
  "ended body = (if body \<noteq> [] \<and> last body = lf then body else line body)"

definition optional_line :: "string \<Rightarrow> string option \<Rightarrow> string" where
  "optional_line key v = (case v of Some s \<Rightarrow> line (key @ '': '' @ s) | None \<Rightarrow> [])"

definition skill_file :: "skill_doc \<Rightarrow> string \<times> string" where
  "skill_file s =
     (''.claude/skills/'' @ sd_id s @ ''/SKILL.md'',
      line ''---'' @ line (''name: '' @ (case sd_name s of Some n \<Rightarrow> n | None \<Rightarrow> sd_id s)) @
      optional_line ''description'' (sd_description s) @ frontmatter_list ''allowed-tools'' (sd_allowed_tools s) @
      line ''---'' @ [lf] @ ended (sd_body s))"

definition command_file :: "command_doc \<Rightarrow> string \<times> string" where
  "command_file c =
     (''.claude/commands/'' @ cd_name c @ ''.md'',
      (if cd_description c \<noteq> None \<or> cd_allowed_tools c \<noteq> [] \<or> cd_model c \<noteq> None
       then line ''---'' @ optional_line ''description'' (cd_description c) @ optional_line ''model'' (cd_model c) @
            frontmatter_list ''allowed-tools'' (cd_allowed_tools c) @ line ''---'' @ [lf]
       else []) @ ended (cd_body c))"

definition str_map :: "(string \<times> string) list \<Rightarrow> json" where
  "str_map kvs = obj_of (map (\<lambda>(k, v). (k, String v)) kvs)"

fun mcp_to_json :: "mcp_server \<Rightarrow> json option" where
  "mcp_to_json (Stdio command args env) =
     Some (obj_of [(''command'', String command), (''args'', Array (map String args)), (''env'', str_map env)])"
| "mcp_to_json (Sse url headers) = Some (obj_of [(''type'', String ''sse''), (''url'', String url), (''headers'', str_map headers)])"
| "mcp_to_json (HttpServer url headers) =
     Some (obj_of [(''type'', String ''http''), (''url'', String url), (''headers'', str_map headers)])"
| "mcp_to_json (InProcess name) = None"

text \<open>\<open>pretty\<close> is the printer of serde_json.\<close>

definition render_projection :: "(json \<Rightarrow> string) \<Rightarrow> projection \<Rightarrow> (string \<times> string) list" where
  "render_projection pretty p =
     (let ext = List.map_filter (\<lambda>(n, c). map_option (Pair n) (mcp_to_json c)) (pj_mcp_servers p) in
      map skill_file (pj_skills p) @ map command_file (pj_commands p) @
      (if ext = [] then [] else [(''.mcp.json'', pretty (obj_of [(''mcpServers'', obj_of ext)]))]) @
      (case pj_settings p of Some v \<Rightarrow> [(''.claude/settings.local.json'', pretty v)] | None \<Rightarrow> []))"

subsection \<open>Headless runs (bridge.rs, budget.rs, headless.rs, error.rs)\<close>

datatype sdk_harness_error =
    InvalidRequest string
  | InvalidWorkdir string
  | SessionNotFound string
  | SessionQuota u64
  | BudgetError string
  | SdkPolicy string
  | StreamClosed
  | SdkErr sdk_error
  | IoError string
  | SerdeError string
  | SandboxUnconfigured
  | SandboxErr string

text \<open>What messages are projected onto: the event stream, the bus and the ledger of the harness.\<close>

record 'f sdk_sink =
  sk_events :: "'f sdk_event list"
  sk_bus :: "bus_event list"
  sk_ledger :: spend_ledger

definition sdk_send_event :: "'f sdk_event \<Rightarrow> 'f sdk_sink \<Rightarrow> 'f sdk_sink" where
  "sdk_send_event ev k = k\<lparr>sk_events := sk_events k @ [ev]\<rparr>"

definition result_spend :: "('f \<Rightarrow> u64) \<Rightarrow> 'f result_summary \<Rightarrow> spend" where
  "result_spend micro r =
     \<lparr>sp_micro_usd = cost_micro_usd micro r, sp_tokens = ucast (us_input (rs_usage r) + us_output (rs_usage r)), sp_key = None\<rparr>"

fun block_event :: "content_block \<Rightarrow> 'f sdk_event" where
  "block_event (TextBlock t) = AssistantTextDelta t"
| "block_event (ThinkingBlock t) = ThinkingDelta t"
| "block_event (ToolUseBlock i n v) = ToolUseEvent i n v"
| "block_event (ToolResultBlock i c e) = ToolResultEvent i e"

fun project_msg ::
  "('f \<Rightarrow> u64) \<Rightarrow> string \<Rightarrow> 'f sdk_message \<Rightarrow> 'f sdk_sink \<Rightarrow> 'f result_summary option \<times> 'f sdk_sink" where
  "project_msg micro hid (SystemMsg sub sess model tools servers) k = (None, sdk_send_event (SystemInit sess tools servers) k)"
| "project_msg micro hid (AssistantMsg blocks) k = (None, k\<lparr>sk_events := sk_events k @ map block_event blocks\<rparr>)"
| "project_msg micro hid (ResultMsg r) k =
     (Some r,
      \<lparr>sk_events = sk_events k @
         [UsageEvent (us_input (rs_usage r)) (us_output (rs_usage r)) (rs_cost r),
          RunFinished (if rs_is_error r then ErrorFinish else Completed) (rs_session r) (rs_result r)],
       sk_bus = sk_bus k @
         [BusTurn hid (ucast (us_input (rs_usage r))) (ucast (us_output (rs_usage r))) (ucast (us_cache_read (rs_usage r)))
            (case rs_duration_ms r of Some d \<Rightarrow> d | None \<Rightarrow> 0),
          BusIteration hid (ucast (rs_num_turns r)) (rs_subtype r)],
       sk_ledger = ledger_record (sk_ledger k) (result_spend micro r)\<rparr>)"
| "project_msg micro hid UnknownMsg k = (None, k)"

fun headless_drive ::
  "('f \<Rightarrow> u64) \<Rightarrow> string \<Rightarrow> u64 option \<Rightarrow> (sdk_error + 'f sdk_message) list \<Rightarrow> 'f result_summary option \<Rightarrow> 'f sdk_sink \<Rightarrow>
   (sdk_harness_error + 'f result_summary) \<times> 'f sdk_sink" where
  "headless_drive micro hid cap [] res k = (case res of Some r \<Rightarrow> Inr r | None \<Rightarrow> Inl StreamClosed, k)"
| "headless_drive micro hid cap (Inl e # items) res k = (Inl (SdkErr e), k)"
| "headless_drive micro hid cap (Inr m # items) res k =
     (case project_msg micro hid m k of
        (r, k1) \<Rightarrow>
          (let res1 = (case r of Some x \<Rightarrow> Some x | None \<Rightarrow> res) in
           if (case cap of Some c \<Rightarrow> c < sl_total_micro (sk_ledger k1) | None \<Rightarrow> False)
           then (Inl (BudgetError ''money''),
                 sdk_send_event (RunFinished BudgetExhausted (Option.bind res1 rs_session) (Option.bind res1 rs_result)) k1)
           else headless_drive micro hid cap items res1 k1))"

subsection \<open>The harness (spec.rs, workspace.rs, session.rs, harness.rs)\<close>

datatype workspace_disposition = Discard | SnapshotOnClose

record workspace_config =
  wc_enabled :: bool
  wc_profile :: sandbox_profile
  wc_backend :: "backend_sel option"
  wc_on_close :: workspace_disposition
  wc_reuse_warm :: bool

record 'f sdk_spec =
  as_id :: string
  as_default_model :: "string option"
  as_fallback_model :: "string option"
  as_permission_mode :: permission_mode
  as_setting_sources :: "setting_source list"
  as_effort :: "effort option"
  as_max_sessions :: u64
  as_max_turns :: "u32 option"
  as_max_cost :: "'f option"
  as_workspace :: workspace_config

record session_workspace =
  sw_sandbox :: string
  sw_profile :: sandbox_profile
  sw_on_close :: workspace_disposition

text \<open>
  What the harness is given: the SDK backend and its sessions over the world \<open>'v\<close>, which also holds the host file
  system, and the sandbox backend over \<open>'w\<close>.
\<close>

record ('s, 'h, 'v, 'w, 'f, 'x) sdk_env =
  en_query :: "('f, 'x) query_request \<Rightarrow> 'v \<Rightarrow> (sdk_error + (sdk_error + 'f sdk_message) list) \<times> 'v"
  en_create_session :: "'x session_spec \<Rightarrow> 'v \<Rightarrow> (sdk_error + 's) \<times> 'v"
  en_session_id :: "'s \<Rightarrow> string"
  en_send :: "'s \<Rightarrow> string \<Rightarrow> 'v \<Rightarrow> (sdk_error + unit) \<times> 'v"
  en_receive :: "'s \<Rightarrow> 'v \<Rightarrow> (sdk_error + (sdk_error + 'f sdk_message) list) \<times> 'v"
  en_close :: "'s \<Rightarrow> 'v \<Rightarrow> (sdk_error + unit) \<times> 'v"
  en_run_id :: "'v \<Rightarrow> string \<times> 'v"
  en_is_dir :: "string \<Rightarrow> 'v \<Rightarrow> bool"
  en_write :: "string \<Rightarrow> string \<Rightarrow> string \<Rightarrow> 'v \<Rightarrow> (string + unit) \<times> 'v"
  en_sandbox :: "('h, 'w) sandbox_backend"
  en_sandbox_cap :: u64
  en_stage :: "'h \<Rightarrow> string \<Rightarrow> string \<Rightarrow> 'w \<Rightarrow> unit sb_result \<times> 'w"
  en_pretty :: "json \<Rightarrow> string"
  en_micro :: "'f \<Rightarrow> u64"

text \<open>
  The state: registered sessions, the admission counter, what was projected, workspaces by session, the sandbox
  harness with its pool when one is attached, tasks that still have to receive a response, and the two worlds.
\<close>

record ('s, 'h, 'v, 'w, 'f) sdk_state =
  ak_sessions :: "'s list"
  ak_live :: u64
  ak_sink :: "'f sdk_sink"
  ak_workspaces :: "(string \<times> session_workspace) list"
  ak_sandbox :: "('h sandbox_harness \<times> snapshot_pool) option"
  ak_pumps :: "'s list"
  ak_v :: 'v
  ak_w :: 'w

type_synonym ('a, 's, 'h, 'v, 'w, 'f) sdk_result = "(sdk_harness_error + 'a) \<times> ('s, 'h, 'v, 'w, 'f) sdk_state"

definition sdk_new ::
  "('h sandbox_harness \<times> snapshot_pool) option \<Rightarrow> 'v \<Rightarrow> 'w \<Rightarrow> ('s, 'h, 'v, 'w, 'f) sdk_state" where
  "sdk_new sandbox v w =
     \<lparr>ak_sessions = [], ak_live = 0, ak_sink = \<lparr>sk_events = [], sk_bus = [], sk_ledger = ledger_new\<rparr>, ak_workspaces = [],
      ak_sandbox = sandbox, ak_pumps = [], ak_v = v, ak_w = w\<rparr>"

definition apply_defaults :: "'f sdk_spec \<Rightarrow> 'x sdk_config \<Rightarrow> 'x sdk_config" where
  "apply_defaults spec c =
     c\<lparr>cf_model := (case cf_model c of None \<Rightarrow> as_default_model spec | m \<Rightarrow> m),
       cf_fallback_model := (case cf_fallback_model c of None \<Rightarrow> as_fallback_model spec | m \<Rightarrow> m),
       cf_max_turns := (case cf_max_turns c of None \<Rightarrow> as_max_turns spec | n \<Rightarrow> n),
       cf_effort := (case cf_effort c of None \<Rightarrow> as_effort spec | e \<Rightarrow> e),
       cf_setting_sources := (if cf_setting_sources c = [] then as_setting_sources spec else cf_setting_sources c)\<rparr>"

definition validate_cwd :: "('s, 'h, 'v, 'w, 'f, 'x) sdk_env \<Rightarrow> 'x sdk_config \<Rightarrow> 'v \<Rightarrow> sdk_harness_error + unit" where
  "validate_cwd env c v =
     (case cf_cwd c of
        Some d \<Rightarrow> if en_is_dir env d v then Inr () else Inl (InvalidWorkdir d)
      | None \<Rightarrow> Inr ())"

text \<open>Writing a list of files until one fails, into a directory of the host or into a sandbox.\<close>

fun write_files :: "('p \<Rightarrow> string \<Rightarrow> 'w \<Rightarrow> ('e + unit) \<times> 'w) \<Rightarrow> ('p \<times> string) list \<Rightarrow> 'w \<Rightarrow> ('e + unit) \<times> 'w" where
  "write_files put [] w = (Inr (), w)"
| "write_files put ((p, b) # fs) w =
     (case put p b w of
        (Inl e, w1) \<Rightarrow> (Inl e, w1)
      | (Inr _, w1) \<Rightarrow> write_files put fs w1)"

definition sdk_materialize ::
  "('s, 'h, 'v, 'w, 'f, 'x) sdk_env \<Rightarrow> projection \<Rightarrow> 'x sdk_config \<Rightarrow> 'v \<Rightarrow> (sdk_harness_error + unit) \<times> 'v" where
  "sdk_materialize env pj c v =
     (case cf_cwd c of
        None \<Rightarrow> (Inr (), v)
      | Some d \<Rightarrow>
          (case write_files (en_write env d) (render_projection (en_pretty env) pj) v of
             (Inl e, v1) \<Rightarrow> (Inl (IoError e), v1)
           | (Inr _, v1) \<Rightarrow> (Inr (), v1)))"

subsection \<open>Sandbox workspaces (harness.rs)\<close>

definition set_sandbox ::
  "'h sandbox_harness \<Rightarrow> snapshot_pool \<Rightarrow> 'w \<Rightarrow> ('s, 'h, 'v, 'w, 'f) sdk_state \<Rightarrow> ('s, 'h, 'v, 'w, 'f) sdk_state" where
  "set_sandbox sb pool w st = st\<lparr>ak_sandbox := Some (sb, pool), ak_w := w\<rparr>"

definition workspace_request :: "workspace_config \<Rightarrow> string option \<Rightarrow> create_sandbox" where
  "workspace_request cfg snap =
     (create_sandbox_new (wc_profile cfg))
       \<lparr>cs_backend := (case wc_backend cfg of Some b \<Rightarrow> b | None \<Rightarrow> Auto), cs_from_snapshot := snap\<rparr>"

definition acquire_workspace ::
  "('s, 'h, 'v, 'w, 'f, 'x) sdk_env \<Rightarrow> 'f sdk_spec \<Rightarrow> projection \<Rightarrow> ('s, 'h, 'v, 'w, 'f) sdk_state \<Rightarrow>
   (sandbox_info option, 's, 'h, 'v, 'w, 'f) sdk_result" where
  "acquire_workspace env spec pj st =
     (let cfg = as_workspace spec in
      if \<not> wc_enabled cfg then (Inr None, st)
      else
        (case ak_sandbox st of
           None \<Rightarrow> (Inl SandboxUnconfigured, st)
         | Some (sb, pool) \<Rightarrow>
             (let (snap, pool1) = (if wc_reuse_warm cfg then pool_take (wc_profile cfg) pool else (None, pool)) in
              case sh_create (en_sandbox env) (en_sandbox_cap env) (workspace_request cfg snap) sb (ak_w st) of
                (Inl e, sb1, w1) \<Rightarrow> (Inl (SandboxErr (sandbox_error_text e)), set_sandbox sb1 pool1 w1 st)
              | (Inr info, sb1, w1) \<Rightarrow>
                  (case sh_get sb1 (sb_id info) of
                     None \<Rightarrow> (Inl (SandboxErr ''workspace sandbox vanished after create''), set_sandbox sb1 pool1 w1 st)
                   | Some h \<Rightarrow>
                       (case write_files (en_stage env h) (render_projection (en_pretty env) pj) w1 of
                          (Inl e, w2) \<Rightarrow> (Inl (SandboxErr (sandbox_error_text e)), set_sandbox sb1 pool1 w2 st)
                        | (Inr _, w2) \<Rightarrow> (Inr (Some info), set_sandbox sb1 pool1 w2 st))))))"

definition push_new :: "string list \<Rightarrow> string list \<Rightarrow> string list" where
  "push_new ts xs = fold (\<lambda>t acc. if t \<in> set acc then acc else acc @ [t]) ts xs"

definition apply_containment :: "string \<Rightarrow> 'x sdk_config \<Rightarrow> 'x sdk_config" where
  "apply_containment i c =
     c\<lparr>cf_workspace_id := Some i,
       cf_disallowed := push_new [''Bash'', ''Write'', ''Edit''] (cf_disallowed c),
       cf_allowed := push_new [''mcp__atomr__run_in_sandbox''] (cf_allowed c)\<rparr>"

definition prepare_workspace ::
  "('s, 'h, 'v, 'w, 'f, 'x) sdk_env \<Rightarrow> 'f sdk_spec \<Rightarrow> projection \<Rightarrow> 'x sdk_config \<Rightarrow> ('s, 'h, 'v, 'w, 'f) sdk_state \<Rightarrow>
   (session_workspace option \<times> 'x sdk_config, 's, 'h, 'v, 'w, 'f) sdk_result" where
  "prepare_workspace env spec pj c st =
     (case acquire_workspace env spec pj st of
        (Inl e, st1) \<Rightarrow> (Inl e, st1)
      | (Inr (Some info), st1) \<Rightarrow>
          (Inr (Some \<lparr>sw_sandbox = sb_id info, sw_profile = sb_profile info, sw_on_close = wc_on_close (as_workspace spec)\<rparr>,
                apply_containment (sb_id info) c), st1)
      | (Inr None, st1) \<Rightarrow>
          (case sdk_materialize env pj c (ak_v st1) of
             (Inl e, v1) \<Rightarrow> (Inl e, st1\<lparr>ak_v := v1\<rparr>)
           | (Inr _, v1) \<Rightarrow> (Inr (None, c), st1\<lparr>ak_v := v1\<rparr>)))"

definition release_workspace ::
  "('s, 'h, 'v, 'w, 'f, 'x) sdk_env \<Rightarrow> session_workspace \<Rightarrow> ('s, 'h, 'v, 'w, 'f) sdk_state \<Rightarrow> ('s, 'h, 'v, 'w, 'f) sdk_state" where
  "release_workspace env ws st =
     (case ak_sandbox st of
        None \<Rightarrow> st
      | Some (sb, pool) \<Rightarrow>
          (let (sb1, pool1, w1) =
                 (if sw_on_close ws = SnapshotOnClose
                  then (case sh_snapshot (en_sandbox env) (sw_sandbox ws) sb (ak_w st) of
                          (Inl e, sb1, w1) \<Rightarrow> (sb1, pool, w1)
                        | (Inr snap, sb1, w1) \<Rightarrow> (sb1, snd (pool_offer (sw_profile ws) snap pool), w1))
                  else (sb, pool, ak_w st));
               (_, sb2, w2) = sh_destroy (en_sandbox env) (sw_sandbox ws) sb1 w1
           in set_sandbox sb2 pool1 w2 st))"

definition release_optional ::
  "('s, 'h, 'v, 'w, 'f, 'x) sdk_env \<Rightarrow> session_workspace option \<Rightarrow> ('s, 'h, 'v, 'w, 'f) sdk_state \<Rightarrow>
   ('s, 'h, 'v, 'w, 'f) sdk_state" where
  "release_optional env ws st = (case ws of Some x \<Rightarrow> release_workspace env x st | None \<Rightarrow> st)"

subsection \<open>Operations (harness.rs, session.rs)\<close>

definition sdk_reserve_slot :: "'f sdk_spec \<Rightarrow> ('s, 'h, 'v, 'w, 'f) sdk_state \<Rightarrow> (unit, 's, 'h, 'v, 'w, 'f) sdk_result" where
  "sdk_reserve_slot spec st =
     (let st1 = st\<lparr>ak_live := ak_live st + 1\<rparr> in
      if as_max_sessions spec \<le> ak_live st then (Inl (SessionQuota (as_max_sessions spec)), st1\<lparr>ak_live := ak_live st1 - 1\<rparr>)
      else (Inr (), st1))"

definition sdk_release_slot :: "('s, 'h, 'v, 'w, 'f) sdk_state \<Rightarrow> ('s, 'h, 'v, 'w, 'f) sdk_state" where
  "sdk_release_slot st = st\<lparr>ak_live := ak_live st - 1\<rparr>"

definition sdk_run ::
  "('s, 'h, 'v, 'w, 'f, 'x) sdk_env \<Rightarrow> 'f sdk_spec \<Rightarrow> projection \<Rightarrow> ('f, 'x) query_request \<Rightarrow> ('s, 'h, 'v, 'w, 'f) sdk_state \<Rightarrow>
   ('f result_summary, 's, 'h, 'v, 'w, 'f) sdk_result" where
  "sdk_run env spec pj req st =
     (case validate_cwd env (qr_config req) (ak_v st) of
        Inl e \<Rightarrow> (Inl e, st)
      | Inr _ \<Rightarrow>
          (let c = apply_defaults spec (qr_config req);
               cost_cap = (case qr_max_cost req of None \<Rightarrow> as_max_cost spec | m \<Rightarrow> m)
           in case prepare_workspace env spec pj c st of
                (Inl e, st1) \<Rightarrow> (Inl e, st1)
              | (Inr (ws, c1), st1) \<Rightarrow>
                  (let (rid, v1) = en_run_id env (ak_v st1);
                       k1 = sdk_send_event (RunStarted rid (cf_model c1) None) (ak_sink st1);
                       (q, v2) = en_query env (req\<lparr>qr_config := c1, qr_max_cost := cost_cap\<rparr>) v1;
                       (outcome, k2) = (case q of
                          Inl e \<Rightarrow> (Inl (SdkErr e), k1)
                        | Inr items \<Rightarrow> headless_drive (en_micro env) (as_id spec) (map_option (en_micro env) cost_cap) items None k1);
                       st2 = st1\<lparr>ak_sink := k2, ak_v := v2\<rparr>
                   in (outcome, release_optional env (map_option (\<lambda>x. x\<lparr>sw_on_close := Discard\<rparr>) ws) st2))))"

text \<open>Sending a prompt leaves a task behind that will receive the response.\<close>

definition session_send ::
  "('s, 'h, 'v, 'w, 'f, 'x) sdk_env \<Rightarrow> 's \<Rightarrow> string \<Rightarrow> ('s, 'h, 'v, 'w, 'f) sdk_state \<Rightarrow> (unit, 's, 'h, 'v, 'w, 'f) sdk_result" where
  "session_send env s prompt st =
     (case en_send env s prompt (ak_v st) of
        (Inl e, v1) \<Rightarrow> (Inl (SdkErr e), st\<lparr>ak_v := v1\<rparr>)
      | (Inr _, v1) \<Rightarrow> (Inr (), st\<lparr>ak_v := v1, ak_pumps := ak_pumps st @ [s]\<rparr>))"

fun pump_items :: "('f \<Rightarrow> u64) \<Rightarrow> string \<Rightarrow> (sdk_error + 'f sdk_message) list \<Rightarrow> 'f sdk_sink \<Rightarrow> 'f sdk_sink" where
  "pump_items micro hid [] k = k"
| "pump_items micro hid (Inl e # items) k = k"
| "pump_items micro hid (Inr m # items) k = pump_items micro hid items (snd (project_msg micro hid m k))"

definition run_pump ::
  "('s, 'h, 'v, 'w, 'f, 'x) sdk_env \<Rightarrow> 'f sdk_spec \<Rightarrow> nat \<Rightarrow> ('s, 'h, 'v, 'w, 'f) sdk_state \<Rightarrow> ('s, 'h, 'v, 'w, 'f) sdk_state" where
  "run_pump env spec n st =
     (if length (ak_pumps st) \<le> n then st
      else
        (case en_receive env (ak_pumps st ! n) (ak_v st) of
           (q, v1) \<Rightarrow>
             st\<lparr>ak_v := v1, ak_pumps := take n (ak_pumps st) @ drop (Suc n) (ak_pumps st),
                ak_sink := (case q of Inl e \<Rightarrow> ak_sink st
                            | Inr items \<Rightarrow> pump_items (en_micro env) (as_id spec) items (ak_sink st))\<rparr>))"

definition find_session :: "('s, 'h, 'v, 'w, 'f, 'x) sdk_env \<Rightarrow> string \<Rightarrow> ('s, 'h, 'v, 'w, 'f) sdk_state \<Rightarrow> 's option" where
  "find_session env i st = find (\<lambda>s. en_session_id env s = i) (ak_sessions st)"

definition start_session ::
  "('s, 'h, 'v, 'w, 'f, 'x) sdk_env \<Rightarrow> 'f sdk_spec \<Rightarrow> projection \<Rightarrow> 'x session_spec \<Rightarrow> ('s, 'h, 'v, 'w, 'f) sdk_state \<Rightarrow>
   ('s, 's, 'h, 'v, 'w, 'f) sdk_result" where
  "start_session env spec pj sess st =
     (case validate_cwd env (ss_config sess) (ak_v st) of
        Inl e \<Rightarrow> (Inl e, st)
      | Inr _ \<Rightarrow>
          (case sdk_reserve_slot spec st of
             (Inl e, st1) \<Rightarrow> (Inl e, st1)
           | (Inr _, st1) \<Rightarrow>
               (case prepare_workspace env spec pj (apply_defaults spec (ss_config sess)) st1 of
                  (Inl e, st2) \<Rightarrow> (Inl e, sdk_release_slot st2)
                | (Inr (ws, c1), st2) \<Rightarrow>
                    (case en_create_session env (sess\<lparr>ss_config := c1\<rparr>) (ak_v st2) of
                       (Inl e, v1) \<Rightarrow> (Inl (SdkErr e), sdk_release_slot (release_optional env ws (st2\<lparr>ak_v := v1\<rparr>)))
                     | (Inr s, v1) \<Rightarrow>
                         (let st3 = st2\<lparr>ak_v := v1, ak_sessions := ak_sessions st2 @ [s],
                                ak_workspaces := (case ws of Some x \<Rightarrow> AList.update (en_session_id env s) x (ak_workspaces st2)
                                                  | None \<Rightarrow> ak_workspaces st2)\<rparr>
                          in case ss_initial_prompt sess of
                               None \<Rightarrow> (Inr s, st3)
                             | Some prompt \<Rightarrow>
                                 (case session_send env s prompt st3 of
                                    (Inl e, st4) \<Rightarrow> (Inl e, st4)
                                  | (Inr _, st4) \<Rightarrow> (Inr s, st4)))))))"

text \<open>Stopping looks the session up first; everything after that works on what was found.\<close>

definition finish_stop ::
  "('s, 'h, 'v, 'w, 'f, 'x) sdk_env \<Rightarrow> string \<Rightarrow> 's \<Rightarrow> ('s, 'h, 'v, 'w, 'f) sdk_state \<Rightarrow> ('s, 'h, 'v, 'w, 'f) sdk_state" where
  "finish_stop env i s st =
     (let st1 = st\<lparr>ak_v := snd (en_close env s (ak_v st)),
                   ak_sessions := filter (\<lambda>x. en_session_id env x \<noteq> i) (ak_sessions st),
                   ak_workspaces := AList.delete i (ak_workspaces st)\<rparr>
      in sdk_release_slot (release_optional env (map_of (ak_workspaces st) i) st1))"

definition stop_session ::
  "('s, 'h, 'v, 'w, 'f, 'x) sdk_env \<Rightarrow> string \<Rightarrow> ('s, 'h, 'v, 'w, 'f) sdk_state \<Rightarrow> (unit, 's, 'h, 'v, 'w, 'f) sdk_result" where
  "stop_session env i st =
     (case find_session env i st of
        None \<Rightarrow> (Inl (SessionNotFound i), st)
      | Some s \<Rightarrow> (Inr (), finish_stop env i s st))"

datatype ('f, 'x) sdk_op =
    OpRun "('f, 'x) query_request"
  | OpStart "'x session_spec"
  | OpStop string
  | OpSend string string
  | OpPump nat

fun sdk_step ::
  "('s, 'h, 'v, 'w, 'f, 'x) sdk_env \<Rightarrow> 'f sdk_spec \<Rightarrow> projection \<Rightarrow> ('f, 'x) sdk_op \<Rightarrow> ('s, 'h, 'v, 'w, 'f) sdk_state \<Rightarrow>
   ('s, 'h, 'v, 'w, 'f) sdk_state" where
  "sdk_step env spec pj (OpRun req) st = snd (sdk_run env spec pj req st)"
| "sdk_step env spec pj (OpStart sess) st = snd (start_session env spec pj sess st)"
| "sdk_step env spec pj (OpStop i) st = snd (stop_session env i st)"
| "sdk_step env spec pj (OpSend i prompt) st =
     (case find_session env i st of Some s \<Rightarrow> snd (session_send env s prompt st) | None \<Rightarrow> st)"
| "sdk_step env spec pj (OpPump n) st = run_pump env spec n st"

subsection \<open>Sessions, slots and workspaces stay in step\<close>

text \<open>Which sandboxes a sandbox harness has registered, and how its operations change that.\<close>

definition registered :: "'h sandbox_harness \<Rightarrow> string set" where
  "registered sb = fst ` set (sh_sandboxes sb)"

lemma registered_broadcast [simp]: "registered (sh_broadcast evs sb) = registered sb"
  by (simp add: registered_def sh_broadcast_def)

lemma fst_upsert: "fst ` set (upsert_by (\<lambda>e. fst e = i) (i, h) xs) = insert i (fst ` set xs)"
  by (induction xs) auto

lemma find_upsert: "find (\<lambda>e. fst e = i) (upsert_by (\<lambda>e. fst e = i) (i, h) xs) = Some (i, h)"
  by (induction xs) auto

lemma registered_insert [simp]: "registered (sh_insert i h sb) = insert i (registered sb)"
  by (simp add: registered_def sh_insert_def fst_upsert)

lemma registered_live [simp]: "registered (sb\<lparr>sh_live := n\<rparr>) = registered sb"
  by (simp add: registered_def)

lemma get_inserted [simp]: "sh_get (sh_broadcast evs (sh_insert i h sb)) i = Some h"
  by (simp add: sh_get_def sh_broadcast_def sh_insert_def find_upsert)

context fresh_backend
begin

lemma create_registered:
  assumes "sh_create bk cap req sb w = (r, sb1, w1)"
  shows "(case r of Inl e \<Rightarrow> registered sb1 = registered sb \<and> used w \<subseteq> used w1
    | Inr info \<Rightarrow> registered sb1 = insert (sb_id info) (registered sb) \<and> sb_id info \<notin> used w \<and>
        insert (sb_id info) (used w) \<subseteq> used w1 \<and> sh_get sb1 (sb_id info) \<noteq> None)"
proof (cases rule: reserve_slot_cases [of cap sb, case_names full ok])
  case (full e)
  with assms show ?thesis by (auto simp: sh_create_def split: sum.splits)
next
  case ok
  obtain c w2 where c: "bk_create bk (normalize req) w = (c, w2)" by force
  show ?thesis
  proof (cases c)
    case (Inl e)
    with assms ok c create_used [OF c] show ?thesis
      by (auto simp: sh_create_def split: sum.splits)
  next
    case (Inr h)
    with assms ok c create_fresh [of "normalize req" w h w2] show ?thesis
      by (auto simp: sh_create_def Let_def split: sum.splits)
  qed
qed

lemma snapshot_registered: "sh_snapshot bk i sb w = (r, sb1, w1) \<Longrightarrow> registered sb1 = registered sb \<and> used w \<subseteq> used w1"
  by (auto simp: sh_snapshot_def split: option.splits prod.splits dest: snapshot_used)

lemma destroy_registered:
  assumes "sh_destroy bk i sb w = (r, sb1, w1)"
  shows "registered sb1 = registered sb - {i} \<and> used w \<subseteq> used w1"
proof (cases "sh_get sb i")
  case None
  then have "i \<notin> registered sb" by (auto simp: sh_get_def registered_def find_None_iff image_iff)
  with None assms show ?thesis by (auto simp: sh_destroy_def)
next
  case (Some h)
  obtain d w2 where d: "h_destroy bk h w = (d, w2)" by force
  have "registered (release_slot (sh_remove i sb)) = registered sb - {i}"
    by (auto simp: registered_def release_slot_def sh_remove_def)
  with assms Some d destroy_used [OF d] show ?thesis
    by (cases d) (auto simp: sh_destroy_def Let_def)
qed

end

text \<open>
  The laws of the environment: sandboxes and sessions get identifiers of their own (both are random UUIDs), and no
  call takes an identifier back.
\<close>

locale sdk_system = fresh_backend "en_sandbox env" used
  for env :: "('s, 'h, 'v, 'w, 'f, 'x) sdk_env" and used :: "'w \<Rightarrow> string set" +
  fixes issued :: "'v \<Rightarrow> string set"
  assumes session_fresh: "en_create_session env sess v = (Inr s, v') \<Longrightarrow>
      en_session_id env s \<notin> issued v \<and> insert (en_session_id env s) (issued v) \<subseteq> issued v'"
    and session_issued: "issued v \<subseteq> issued (snd (en_create_session env sess v))"
    and query_issued: "issued v \<subseteq> issued (snd (en_query env req v))"
    and send_issued: "issued v \<subseteq> issued (snd (en_send env s prompt v))"
    and receive_issued: "issued v \<subseteq> issued (snd (en_receive env s v))"
    and close_issued: "issued v \<subseteq> issued (snd (en_close env s v))"
    and run_id_issued: "issued v \<subseteq> issued (snd (en_run_id env v))"
    and write_issued: "issued v \<subseteq> issued (snd (en_write env dir path text v))"
    and stage_used: "used w \<subseteq> used (snd (en_stage env h path text w))"

text \<open>
  An operation that fails with a sandbox error can lose the sandbox it created, when it was the staging that failed;
  \<open>lost\<close> bounds what an operation with a given result loses.
\<close>

definition always_stages :: "('s, 'h, 'v, 'w, 'f, 'x) sdk_env \<Rightarrow> bool" where
  "always_stages env \<longleftrightarrow> (\<forall>h p b w. fst (en_stage env h p b w) = Inr ())"

fun sandbox_failure :: "sdk_harness_error + 'a \<Rightarrow> bool" where
  "sandbox_failure (Inl (SandboxErr m)) = True"
| "sandbox_failure r = False"

definition lost :: "bool \<Rightarrow> sdk_harness_error + 'a \<Rightarrow> string set \<Rightarrow> bool" where
  "lost staged r J \<longleftrightarrow> finite J \<and> card J \<le> of_bool (sandbox_failure r) \<and> (staged \<longrightarrow> J = {})"

lemma lost_nothing [simp]: "lost staged r {}"
  by (simp add: lost_def)

lemma lost_error: "lost staged (Inl e :: sdk_harness_error + 'a) J \<Longrightarrow> lost staged (Inl e :: sdk_harness_error + 'b) J"
  by (cases e) (simp_all add: lost_def)

text \<open>The part of the state that belongs to sessions; \<open>same_sessions\<close> says that it is unchanged.\<close>

definition same_sessions :: "('s, 'h, 'v, 'w, 'f) sdk_state \<Rightarrow> ('s, 'h, 'v, 'w, 'f) sdk_state \<Rightarrow> bool" where
  "same_sessions st st1 \<longleftrightarrow>
     ak_sessions st1 = ak_sessions st \<and> ak_live st1 = ak_live st \<and> ak_workspaces st1 = ak_workspaces st \<and>
     ak_pumps st1 = ak_pumps st"

definition tidy :: "('w \<Rightarrow> string set) \<Rightarrow> string set \<Rightarrow> ('s, 'h, 'v, 'w, 'f) sdk_state \<Rightarrow> bool" where
  "tidy used I st \<longleftrightarrow>
     (case ak_sandbox st of None \<Rightarrow> I = {} | Some (sb, pool) \<Rightarrow> registered sb = I \<and> I \<subseteq> used (ak_w st))"

lemma set_sandbox_v [simp]: "ak_v (set_sandbox sb pool w st) = ak_v st" "same_sessions st (set_sandbox sb pool w st)"
  by (simp_all add: set_sandbox_def same_sessions_def)

lemma tidy_v [simp]: "tidy used I (st\<lparr>ak_v := v\<rparr>) = tidy used I st"
  by (simp add: tidy_def split: option.splits)

context sdk_system
begin

lemma files_issued: "issued v \<subseteq> issued (snd (write_files (en_write env d) fs v))"
proof (induction fs arbitrary: v)
  case (Cons f fs)
  obtain p b where "f = (p, b)" by force
  moreover obtain r v1 where "en_write env d p b v = (r, v1)" by force
  ultimately show ?case using Cons.IH [of v1] write_issued [of v d p b] by (cases r) auto
qed simp

lemma files_used: "used w \<subseteq> used (snd (write_files (en_stage env h) fs w))"
proof (induction fs arbitrary: w)
  case (Cons f fs)
  obtain p b where "f = (p, b)" by force
  moreover obtain r w1 where "en_stage env h p b w = (r, w1)" by force
  ultimately show ?case using Cons.IH [of w1] stage_used [of w h p b] by (cases r) auto
qed simp

lemma materialize_issued: "issued v \<subseteq> issued (snd (sdk_materialize env pj c v))"
  using files_issued by (auto simp: sdk_materialize_def split: option.splits prod.splits sum.splits) (metis snd_conv subsetD)+

lemma files_staged:
  assumes "always_stages env"
  shows "fst (write_files (en_stage env h) fs w) = Inr ()"
proof (induction fs arbitrary: w)
  case (Cons f fs)
  obtain p b where f: "f = (p, b)" by force
  obtain w1 where "en_stage env h p b w = (Inr (), w1)" using assms by (metis always_stages_def prod.collapse)
  with f Cons.IH [of w1] show ?case by simp
qed simp

lemma acquire_tidy:
  assumes t: "tidy used I st" and a: "acquire_workspace env spec pj st = (r, st1)"
  shows "same_sessions st st1 \<and> ak_v st1 = ak_v st \<and>
    (case r of
       Inl e \<Rightarrow> \<exists>J. lost (always_stages env) r J \<and> J \<inter> I = {} \<and> tidy used (I \<union> J) st1
     | Inr None \<Rightarrow> tidy used I st1
     | Inr (Some info) \<Rightarrow> sb_id info \<notin> I \<and> tidy used (insert (sb_id info) I) st1)"
proof (cases "wc_enabled (as_workspace spec)"; cases "ak_sandbox st")
  fix sp assume True: "wc_enabled (as_workspace spec)" and "ak_sandbox st = Some sp"
  then obtain sb pool where sb: "ak_sandbox st = Some (sb, pool)" by force
  define tk where "tk = (if wc_reuse_warm (as_workspace spec) then pool_take (wc_profile (as_workspace spec)) pool else (None, pool))"
  obtain snap pool1 where tk1: "tk = (snap, pool1)" by force
  obtain c sb1 w1 where c: "sh_create (en_sandbox env) (en_sandbox_cap env) (workspace_request (as_workspace spec) snap) sb (ak_w st) =
      (c, sb1, w1)" using prod_cases3 by blast
  note cr = create_registered [OF c]
  show ?thesis
  proof (cases c)
    case (Inl e)
    then have st1: "st1 = set_sandbox sb1 pool1 w1 st" "r = Inl (SandboxErr (sandbox_error_text e))"
      using a True sb c tk1 by (auto simp: acquire_workspace_def Let_def tk_def [symmetric])
    have "tidy used I st1" using cr t sb Inl by (auto simp: st1 set_sandbox_def tidy_def)
    then show ?thesis by (auto simp: st1 intro!: exI [of _ "{}"])
  next
    case (Inr info)
    then obtain h where h: "sh_get sb1 (sb_id info) = Some h" using cr by auto
    obtain x w2 where w2: "write_files (en_stage env h) (render_projection (en_pretty env) pj) w1 = (x, w2)" by force
    have u: "used w1 \<subseteq> used w2" using files_used [of w1 h "render_projection (en_pretty env) pj"] by (simp add: w2)
    have st1: "st1 = set_sandbox sb1 pool1 w2 st"
      "r = (case x of Inl e \<Rightarrow> Inl (SandboxErr (sandbox_error_text e)) | Inr y \<Rightarrow> Inr (Some info))"
      using a True sb c Inr h w2 tk1 by (cases x; auto simp: acquire_workspace_def Let_def tk_def [symmetric])+
    have new: "sb_id info \<notin> I" "tidy used (insert (sb_id info) I) st1"
      using cr Inr t sb u by (auto simp: st1(1) set_sandbox_def tidy_def)
    show ?thesis
    proof (cases x)
      case (Inl e)
      then have "\<not> always_stages env" using files_staged [of h "render_projection (en_pretty env) pj" w1] w2 by auto
      then have "lost (always_stages env) r {sb_id info}" by (simp add: lost_def st1(2) Inl)
      with new show ?thesis by (auto simp: st1 Inl intro!: exI [of _ "{sb_id info}"])
    next
      case (Inr y)
      with new st1 show ?thesis by (simp add: set_sandbox_def same_sessions_def)
    qed
  qed
qed (use t a in \<open>auto simp: acquire_workspace_def Let_def same_sessions_def intro!: exI [of _ "{}"]\<close>)

lemma prepare_tidy:
  assumes t: "tidy used I st" and a: "prepare_workspace env spec pj c st = (r, st1)"
  shows "same_sessions st st1 \<and> issued (ak_v st) \<subseteq> issued (ak_v st1) \<and>
    (case r of
       Inl e \<Rightarrow> \<exists>J. lost (always_stages env) r J \<and> J \<inter> I = {} \<and> tidy used (I \<union> J) st1
     | Inr (None, c1) \<Rightarrow> tidy used I st1
     | Inr (Some ws, c1) \<Rightarrow> sw_sandbox ws \<notin> I \<and> tidy used (insert (sw_sandbox ws) I) st1)"
proof -
  obtain q st2 where q: "acquire_workspace env spec pj st = (q, st2)" by force
  note at = acquire_tidy [OF t q]
  show ?thesis
  proof (cases q)
    case (Inl e)
    then obtain J where J: "lost (always_stages env) (Inl e :: sdk_harness_error + sandbox_info option) J" "J \<inter> I = {}"
      "tidy used (I \<union> J) st2" using at by auto
    from J(1) have "lost (always_stages env) (Inl e :: sdk_harness_error + session_workspace option \<times> 'x sdk_config) J"
      by (rule lost_error)
    with a q at Inl J(2,3) show ?thesis by (auto simp: prepare_workspace_def)
  next
    case (Inr o1)
    show ?thesis
    proof (cases o1)
      case None
      obtain m v1 where m: "sdk_materialize env pj c (ak_v st2) = (m, v1)" by force
      have "issued (ak_v st2) \<subseteq> issued v1" using materialize_issued [of "ak_v st2" pj c] by (simp add: m)
      with a q at Inr None m show ?thesis
        by (cases m) (auto simp: prepare_workspace_def same_sessions_def intro!: exI [of _ "{}"])
    next
      case (Some info)
      with a q at Inr show ?thesis by (auto simp: prepare_workspace_def)
    qed
  qed
qed

lemma release_tidy:
  assumes "tidy used I st"
  shows "tidy used (I - {sw_sandbox ws}) (release_workspace env ws st) \<and> same_sessions st (release_workspace env ws st) \<and>
    ak_v (release_workspace env ws st) = ak_v st \<and> ak_sink (release_workspace env ws st) = ak_sink st"
proof (cases "ak_sandbox st")
  case None
  with assms show ?thesis by (simp add: release_workspace_def tidy_def same_sessions_def)
next
  case (Some sp)
  obtain sb pool where sb: "sp = (sb, pool)" by force
  define q where "q = (if sw_on_close ws = SnapshotOnClose
     then (case sh_snapshot (en_sandbox env) (sw_sandbox ws) sb (ak_w st) of
             (Inl e, sb1, w1) \<Rightarrow> (sb1, pool, w1)
           | (Inr snap, sb1, w1) \<Rightarrow> (sb1, snd (pool_offer (sw_profile ws) snap pool), w1))
     else (sb, pool, ak_w st))"
  obtain sb1 pool1 w1 where q1: "q = (sb1, pool1, w1)" using prod_cases3 by blast
  then have reg: "registered sb1 = registered sb" "used (ak_w st) \<subseteq> used w1"
    by (auto simp: q_def split: if_splits prod.splits sum.splits dest: snapshot_registered)
  obtain d sb2 w2 where d: "sh_destroy (en_sandbox env) (sw_sandbox ws) sb1 w1 = (d, sb2, w2)" using prod_cases3 by blast
  have "release_workspace env ws st = set_sandbox sb2 pool1 w2 st"
    by (simp add: release_workspace_def Some sb q_def [symmetric] q1 d)
  with destroy_registered [OF d] reg assms Some sb show ?thesis
    by (auto simp: set_sandbox_def tidy_def same_sessions_def)
qed

end

text \<open>
  The invariant of the harness: registered sessions have identifiers of their own, the admission counter is their
  number and at most the quota, workspaces belong to registered sessions, and the registered sandboxes are theirs and
  the lost ones \<open>L\<close>, which a failed staging left behind.
\<close>

definition sdk_inv ::
  "('s, 'h, 'v, 'w, 'f, 'x) sdk_env \<Rightarrow> ('w \<Rightarrow> string set) \<Rightarrow> ('v \<Rightarrow> string set) \<Rightarrow> string set \<Rightarrow> 'f sdk_spec \<Rightarrow>
   ('s, 'h, 'v, 'w, 'f) sdk_state \<Rightarrow> bool" where
  "sdk_inv env used issued L spec st \<longleftrightarrow>
     distinct (map (en_session_id env) (ak_sessions st)) \<and>
     set (map (en_session_id env) (ak_sessions st)) \<subseteq> issued (ak_v st) \<and>
     length (ak_sessions st) = unat (ak_live st) \<and> ak_live st \<le> as_max_sessions spec \<and>
     distinct (map fst (ak_workspaces st)) \<and> fst ` set (ak_workspaces st) \<subseteq> set (map (en_session_id env) (ak_sessions st)) \<and>
     distinct (map (sw_sandbox \<circ> snd) (ak_workspaces st)) \<and> L \<inter> set (map (sw_sandbox \<circ> snd) (ak_workspaces st)) = {} \<and>
     tidy used (set (map (sw_sandbox \<circ> snd) (ak_workspaces st)) \<union> L) st"

lemma sdk_inv_new:
  "(case sandbox of None \<Rightarrow> True | Some (sb, pool) \<Rightarrow> sb = sh_new) \<Longrightarrow> sdk_inv env used issued {} spec (sdk_new sandbox v w)"
  by (auto simp: sdk_inv_def sdk_new_def tidy_def registered_def sh_new_def split: option.splits)

lemma tidy_cong: "ak_sandbox st1 = ak_sandbox st \<Longrightarrow> ak_w st1 = ak_w st \<Longrightarrow> tidy used I st1 = tidy used I st"
  by (simp only: tidy_def)

text \<open>Operations that leave sessions and sandboxes alone keep it.\<close>

lemma inv_quiet:
  assumes "sdk_inv env used issued L spec st" and "same_sessions st st1" and "issued (ak_v st) \<subseteq> issued (ak_v st1)"
    and "tidy used (set (map (sw_sandbox \<circ> snd) (ak_workspaces st)) \<union> L \<union> J) st1"
    and "J \<inter> (set (map (sw_sandbox \<circ> snd) (ak_workspaces st)) \<union> L) = {}"
  shows "sdk_inv env used issued (L \<union> J) spec st1"
  using assms unfolding sdk_inv_def same_sessions_def by (auto simp: Un_assoc)

lemmas inv_same = inv_quiet [where J = "{}", simplified]

lemma update_new: "k \<notin> fst ` set xs \<Longrightarrow> AList.update k v xs = xs @ [(k, v)]"
  by (induction xs) auto

lemma filter_one: "distinct (map f xs) \<Longrightarrow> x \<in> set xs \<Longrightarrow> Suc (length (filter (\<lambda>y. f y \<noteq> f x) xs)) = length xs"
proof (induction xs)
  case (Cons y xs)
  show ?case
  proof (cases "f y = f x")
    case True
    with Cons.prems(1) have "f x \<notin> f ` set xs" by simp
    then have "filter (\<lambda>y. f y \<noteq> f x) xs = xs" by (intro filter_True) (metis imageI)
    with True show ?thesis by simp
  qed (use Cons in auto)
qed simp

lemma delete_images:
  assumes "distinct (map fst xs)" and "distinct (map g xs)" and "map_of xs k = Some x"
  shows "g ` set (AList.delete k xs) = g ` set xs - {g (k, x)}"
proof -
  have "set (AList.delete k xs) = set xs - {(k, x)}"
    using assms(1,3) by (auto simp: AList.delete_eq dest: map_of_SomeD) (metis map_of_is_SomeI option.inject)
  moreover have "inj_on g (set xs)" "(k, x) \<in> set xs"
    using assms(2,3) by (auto simp: distinct_map dest: map_of_SomeD)
  ultimately show ?thesis by (auto simp: inj_on_def)
qed

lemma distinct_delete: "distinct (map g xs) \<Longrightarrow> distinct (map g (AList.delete k xs))"
  by (simp add: AList.delete_eq distinct_map_filter)

context sdk_system
begin

lemma send_inv:
  assumes "sdk_inv env used issued L spec st"
  shows "sdk_inv env used issued L spec (snd (session_send env s prompt st))"
proof -
  obtain r v1 where r: "en_send env s prompt (ak_v st) = (r, v1)" by force
  have "issued (ak_v st) \<subseteq> issued v1" using send_issued [of "ak_v st" s prompt] by (simp add: r)
  with assms r show ?thesis
    by (cases r) (auto simp: session_send_def sdk_inv_def tidy_def split: option.splits)
qed

lemma pump_inv:
  assumes "sdk_inv env used issued L spec st"
  shows "sdk_inv env used issued L spec (run_pump env spec n st)"
proof (cases "length (ak_pumps st) \<le> n")
  case False
  obtain q v1 where q: "en_receive env (ak_pumps st ! n) (ak_v st) = (q, v1)" by force
  have "issued (ak_v st) \<subseteq> issued v1" using receive_issued [of "ak_v st" "ak_pumps st ! n"] by (simp add: q)
  with assms q False show ?thesis
    by (auto simp: run_pump_def sdk_inv_def tidy_def split: option.splits)
qed (use assms in \<open>simp add: run_pump_def\<close>)

lemma sdk_run_inv:
  assumes i: "sdk_inv env used issued L spec st"
  shows "\<exists>J. lost (always_stages env) (fst (sdk_run env spec pj req st)) J \<and>
    sdk_inv env used issued (L \<union> J) spec (snd (sdk_run env spec pj req st))"
proof (cases "validate_cwd env (qr_config req) (ak_v st)")
  case (Inr u)
  let ?c = "apply_defaults spec (qr_config req)" and ?I = "set (map (sw_sandbox \<circ> snd) (ak_workspaces st)) \<union> L"
  obtain r st1 where p: "prepare_workspace env spec pj ?c st = (r, st1)" by force
  have t: "tidy used ?I st" using i by (simp add: sdk_inv_def)
  note pt = prepare_tidy [OF t p]
  show ?thesis
  proof (cases r)
    case (Inl e)
    with pt obtain J where J: "lost (always_stages env) r J" "J \<inter> ?I = {}" "tidy used (?I \<union> J) st1" by auto
    with pt have "sdk_inv env used issued (L \<union> J) spec st1" by (intro inv_quiet [OF i]) simp_all
    with p Inr Inl J(1) show ?thesis by (auto simp: sdk_run_def Let_def intro: lost_error)
  next
    case (Inr wc)
    obtain ws c1 where wc: "wc = (ws, c1)" by force
    obtain outcome st3 where run: "sdk_run env spec pj req st =
        (outcome, release_optional env (map_option (\<lambda>x. x\<lparr>sw_on_close := Discard\<rparr>) ws) st3)"
      and st3: "same_sessions st1 st3" "ak_sandbox st3 = ak_sandbox st1" "ak_w st3 = ak_w st1" "issued (ak_v st1) \<subseteq> issued (ak_v st3)"
    proof -
      obtain rid v1 where rid: "en_run_id env (ak_v st1) = (rid, v1)" by force
      let ?cost = "case qr_max_cost req of None \<Rightarrow> as_max_cost spec | m \<Rightarrow> m"
      obtain q v2 where q: "en_query env (req\<lparr>qr_config := c1, qr_max_cost := ?cost\<rparr>) v1 = (q, v2)" by force
      have "issued (ak_v st1) \<subseteq> issued v2"
        using run_id_issued [of "ak_v st1"] query_issued [of v1 "req\<lparr>qr_config := c1, qr_max_cost := ?cost\<rparr>"]
        by (simp add: rid q)
      moreover obtain outcome k2 where "(case q of Inl e \<Rightarrow> (Inl (SdkErr e), sdk_send_event (RunStarted rid (cf_model c1) None) (ak_sink st1))
          | Inr items \<Rightarrow> headless_drive (en_micro env) (as_id spec) (map_option (en_micro env) ?cost) items None
              (sdk_send_event (RunStarted rid (cf_model c1) None) (ak_sink st1))) = (outcome, k2)"
        by force
      ultimately show thesis
        using \<open>validate_cwd env (qr_config req) (ak_v st) = Inr u\<close> p Inr wc rid q
        by (intro that [of outcome "st1\<lparr>ak_sink := k2, ak_v := v2\<rparr>"])
          (simp_all add: sdk_run_def Let_def same_sessions_def)
    qed
    show ?thesis
    proof (cases ws)
      case None
      with pt Inr wc have "tidy used ?I st3" using tidy_cong [OF st3(2,3), of used ?I] by simp
      with None run pt st3 inv_same [OF i, of st3] show ?thesis
        by (auto simp: release_optional_def same_sessions_def intro!: exI [of _ "{}"])
    next
      case (Some x)
      let ?x = "x\<lparr>sw_on_close := Discard\<rparr>"
      have "tidy used (insert (sw_sandbox x) ?I) st3" "sw_sandbox x \<notin> ?I"
        using pt Inr wc Some tidy_cong [OF st3(2,3), of used "insert (sw_sandbox x) ?I"] by simp_all
      then have "tidy used ?I (release_workspace env ?x st3)" and "same_sessions st3 (release_workspace env ?x st3)"
        and "ak_v (release_workspace env ?x st3) = ak_v st3"
        using release_tidy [of "insert (sw_sandbox x) ?I" st3 ?x] by simp_all
      with Some run pt st3 inv_same [OF i, of "release_workspace env ?x st3"] show ?thesis
        by (auto simp: release_optional_def same_sessions_def intro!: exI [of _ "{}"])
    qed
  qed
qed (use i in \<open>auto simp: sdk_run_def intro!: exI [of _ "{}"]\<close>)

lemma registered_session_inv:
  assumes i: "sdk_inv env used issued L spec st" and live: "ak_live st < as_max_sessions spec"
    and s2: "same_sessions (st\<lparr>ak_live := ak_live st + 1\<rparr>) st2" "issued (ak_v st) \<subseteq> issued (ak_v st2)"
    and t: "(case ws of Some x \<Rightarrow> sw_sandbox x \<notin> set (map (sw_sandbox \<circ> snd) (ak_workspaces st)) \<union> L \<and>
        tidy used (insert (sw_sandbox x) (set (map (sw_sandbox \<circ> snd) (ak_workspaces st)) \<union> L)) st2
      | None \<Rightarrow> tidy used (set (map (sw_sandbox \<circ> snd) (ak_workspaces st)) \<union> L) st2)"
    and c: "en_create_session env sess (ak_v st2) = (Inr s, v1)"
  shows "sdk_inv env used issued L spec (st2\<lparr>ak_v := v1, ak_sessions := ak_sessions st2 @ [s],
    ak_workspaces := (case ws of Some x \<Rightarrow> AList.update (en_session_id env s) x (ak_workspaces st2) | None \<Rightarrow> ak_workspaces st2)\<rparr>)"
proof -
  let ?sid = "en_session_id env s"
  have f: "?sid \<notin> issued (ak_v st2)" "insert ?sid (issued (ak_v st2)) \<subseteq> issued v1" using session_fresh [OF c] by auto
  then have new: "?sid \<notin> set (map (en_session_id env) (ak_sessions st))" using i s2(2) by (auto simp: sdk_inv_def)
  then have wnew: "?sid \<notin> fst ` set (ak_workspaces st)" using i by (auto simp: sdk_inv_def)
  have l: "unat (ak_live st + 1) = Suc (unat (ak_live st)) \<and> ak_live st + 1 \<le> as_max_sessions spec" by (rule live_inc [OF live])
  have iss: "set (map (en_session_id env) (ak_sessions st)) \<subseteq> issued v1" "?sid \<in> issued v1"
    using i s2(2) f(2) unfolding sdk_inv_def by blast+
  let ?st3 = "st2\<lparr>ak_v := v1, ak_sessions := ak_sessions st2 @ [s],
    ak_workspaces := (case ws of Some x \<Rightarrow> AList.update ?sid x (ak_workspaces st2) | None \<Rightarrow> ak_workspaces st2)\<rparr>"
  have t3: "tidy used J ?st3 = tidy used J st2" for J by (rule tidy_cong) simp_all
  have same: "ak_sessions st2 = ak_sessions st" "ak_live st2 = ak_live st + 1" "ak_workspaces st2 = ak_workspaces st"
    using s2(1) by (simp_all add: same_sessions_def)
  show ?thesis
  proof (cases ws)
    case None
    then show ?thesis
      using i t new l iss t3 by (simp add: sdk_inv_def same subset_insertI2)
  next
    case (Some x)
    then show ?thesis
      using i t new wnew l iss t3 by (simp add: sdk_inv_def same update_new [OF wnew] subset_insertI2)
  qed
qed

lemma start_inv:
  assumes i: "sdk_inv env used issued L spec st"
  shows "\<exists>J. lost (always_stages env) (fst (start_session env spec pj sess st)) J \<and>
    sdk_inv env used issued (L \<union> J) spec (snd (start_session env spec pj sess st))"
proof (cases "validate_cwd env (ss_config sess) (ak_v st)")
  case (Inr u)
  note ok = Inr
  let ?I = "set (map (sw_sandbox \<circ> snd) (ak_workspaces st)) \<union> L"
  show ?thesis
  proof (cases "as_max_sessions spec \<le> ak_live st")
    case True
    with i ok show ?thesis by (auto simp: start_session_def sdk_reserve_slot_def Let_def intro!: exI [of _ "{}"])
  next
    case False
    let ?st1 = "st\<lparr>ak_live := ak_live st + 1\<rparr>"
    have res: "sdk_reserve_slot spec st = (Inr (), ?st1)" using False by (simp add: sdk_reserve_slot_def)
    have t1: "tidy used ?I ?st1" using i tidy_cong [of ?st1 st used ?I] by (simp add: sdk_inv_def)
    obtain r st2 where p: "prepare_workspace env spec pj (apply_defaults spec (ss_config sess)) ?st1 = (r, st2)" by force
    note pt = prepare_tidy [OF t1 p]
    have undone: "sdk_inv env used issued (L \<union> J) spec (sdk_release_slot st3)"
      if "same_sessions ?st1 st3" "issued (ak_v st) \<subseteq> issued (ak_v st3)" "tidy used (?I \<union> J) st3" "J \<inter> ?I = {}" for st3 J
      using that i inv_quiet [OF i, of "sdk_release_slot st3" J] tidy_cong [of "sdk_release_slot st3" st3 used "?I \<union> J"]
      by (simp add: sdk_release_slot_def same_sessions_def)
    show ?thesis
    proof (cases r)
      case (Inl e)
      with pt obtain J where J: "lost (always_stages env) r J" "J \<inter> ?I = {}" "tidy used (?I \<union> J) st2" by auto
      with pt undone [of st2 J] have "sdk_inv env used issued (L \<union> J) spec (sdk_release_slot st2)" by simp
      with Inl J(1) p res ok show ?thesis by (auto simp: start_session_def intro: lost_error)
    next
      case (Inr wc)
      obtain ws c1 where wc: "wc = (ws, c1)" by force
      obtain q v1 where q: "en_create_session env (sess\<lparr>ss_config := c1\<rparr>) (ak_v st2) = (q, v1)" by force
      have v1: "issued (ak_v st2) \<subseteq> issued v1" using session_issued [of "ak_v st2" "sess\<lparr>ss_config := c1\<rparr>"] by (simp add: q)
      show ?thesis
      proof (cases q)
        case (Inl e)
        let ?st3 = "release_optional env ws (st2\<lparr>ak_v := v1\<rparr>)"
        have "same_sessions ?st1 ?st3 \<and> issued (ak_v st) \<subseteq> issued (ak_v ?st3) \<and> tidy used ?I ?st3"
        proof (cases ws)
          case None
          with pt Inr wc v1 show ?thesis by (auto simp: release_optional_def same_sessions_def)
        next
          case (Some x)
          with pt Inr wc v1 release_tidy [of "insert (sw_sandbox x) ?I" "st2\<lparr>ak_v := v1\<rparr>" x] show ?thesis
            by (auto simp: release_optional_def same_sessions_def)
        qed
        with undone [of ?st3 "{}"] ok res p Inr wc q Inl show ?thesis
          by (auto simp: start_session_def intro!: exI [of _ "{}"])
      next
        case (Inr s)
        let ?st3 = "st2\<lparr>ak_v := v1, ak_sessions := ak_sessions st2 @ [s],
          ak_workspaces := (case ws of Some x \<Rightarrow> AList.update (en_session_id env s) x (ak_workspaces st2) | None \<Rightarrow> ak_workspaces st2)\<rparr>"
        have i3: "sdk_inv env used issued L spec ?st3"
          using registered_session_inv [OF i, of st2 ws "sess\<lparr>ss_config := c1\<rparr>" s v1] False pt \<open>r = Inr wc\<close> wc q Inr
          by (auto simp: not_le split: option.splits)
        note start = start_session_def [of env spec pj sess st] ok res p \<open>r = Inr wc\<close> wc q Inr
        show ?thesis
        proof (cases "ss_initial_prompt sess")
          case None
          with i3 show ?thesis by (auto simp: start intro!: exI [of _ "{}"])
        next
          case (Some prompt)
          obtain x st4 where x: "session_send env s prompt ?st3 = (x, st4)" by force
          then have "sdk_inv env used issued L spec st4" using send_inv [OF i3, of s prompt] by simp
          with Some x show ?thesis by (cases x) (auto simp: start Let_def intro!: exI [of _ "{}"])
        qed
      qed
    qed
  qed
qed (use i in \<open>auto simp: start_session_def intro!: exI [of _ "{}"]\<close>)

lemma stop_inv:
  assumes i: "sdk_inv env used issued L spec st"
  shows "sdk_inv env used issued L spec (snd (stop_session env i0 st))"
proof (cases "find_session env i0 st")
  case (Some s)
  let ?st1 = "st\<lparr>ak_v := snd (en_close env s (ak_v st)), ak_sessions := filter (\<lambda>x. en_session_id env x \<noteq> i0) (ak_sessions st),
    ak_workspaces := AList.delete i0 (ak_workspaces st)\<rparr>"
  let ?ws = "map_of (ak_workspaces st) i0" and ?I = "set (map (sw_sandbox \<circ> snd) (ak_workspaces st)) \<union> L"
  have mem: "s \<in> set (ak_sessions st)" "en_session_id env s = i0" using find_SomeD [OF Some [unfolded find_session_def]] by simp_all
  have v: "issued (ak_v st) \<subseteq> issued (snd (en_close env s (ak_v st)))" by (rule close_issued)
  have t1: "tidy used ?I ?st1" using i tidy_cong [of ?st1 st used ?I] by (simp add: sdk_inv_def)
  obtain st2 where st2: "release_optional env ?ws ?st1 = st2" and same: "same_sessions ?st1 st2"
    and v2: "ak_v st2 = snd (en_close env s (ak_v st))"
    and t2: "tidy used (set (map (sw_sandbox \<circ> snd) (AList.delete i0 (ak_workspaces st))) \<union> L) st2"
  proof (cases ?ws)
    case None
    then have "i0 \<notin> fst ` set (ak_workspaces st)" by (simp add: map_of_eq_None_iff)
    with None t1 that [of ?st1] show thesis by (simp add: release_optional_def same_sessions_def delete_id)
  next
    case (Some x)
    have "sw_sandbox x \<notin> L" using map_of_SomeD [OF Some] i by (force simp: sdk_inv_def)
    moreover have "(sw_sandbox \<circ> snd) ` set (AList.delete i0 (ak_workspaces st)) =
        set (map (sw_sandbox \<circ> snd) (ak_workspaces st)) - {sw_sandbox x}"
      using delete_images [OF _ _ Some, of "sw_sandbox \<circ> snd"] i by (simp add: sdk_inv_def)
    ultimately have "(sw_sandbox \<circ> snd) ` set (AList.delete i0 (ak_workspaces st)) \<union> L = ?I - {sw_sandbox x}"
      by blast
    with Some release_tidy [OF t1, of x] that [of "release_workspace env x ?st1"] show thesis
      by (simp add: release_optional_def)
  qed
  have fields: "ak_sessions st2 = filter (\<lambda>x. en_session_id env x \<noteq> i0) (ak_sessions st)" "ak_live st2 = ak_live st"
    "ak_workspaces st2 = AList.delete i0 (ak_workspaces st)"
    using same by (simp_all add: same_sessions_def)
  have n: "Suc (length (filter (\<lambda>x. en_session_id env x \<noteq> i0) (ak_sessions st))) = unat (ak_live st)"
    using filter_one [of "en_session_id env" "ak_sessions st" s] mem i by (simp add: sdk_inv_def)
  then have live: "unat (ak_live st - 1) = length (filter (\<lambda>x. en_session_id env x \<noteq> i0) (ak_sessions st))"
    by (subst live_dec) auto
  then have le: "ak_live st - 1 \<le> as_max_sessions spec" using n i by (simp add: sdk_inv_def word_le_nat_alt)
  have keys: "set (map (en_session_id env) (filter (\<lambda>x. en_session_id env x \<noteq> i0) (ak_sessions st))) =
      set (map (en_session_id env) (ak_sessions st)) - {i0}"
    by auto
  have wkeys: "fst ` set (AList.delete i0 (ak_workspaces st)) = fst ` set (ak_workspaces st) - {i0}"
    by (auto simp: AList.delete_eq)
  have apart: "L \<inter> set (map (sw_sandbox \<circ> snd) (AList.delete i0 (ak_workspaces st))) = {}"
    using i by (auto simp: sdk_inv_def AList.delete_eq)
  have "tidy used (set (map (sw_sandbox \<circ> snd) (AList.delete i0 (ak_workspaces st))) \<union> L) (sdk_release_slot st2)"
    using t2 tidy_cong [of "sdk_release_slot st2" st2 used] by (simp add: sdk_release_slot_def)
  moreover have "set (map (en_session_id env) (ak_sessions st)) - {i0} \<subseteq> issued (snd (en_close env s (ak_v st)))"
    "fst ` set (ak_workspaces st) - {i0} \<subseteq> set (map (en_session_id env) (ak_sessions st)) - {i0}"
    using i v by (auto simp: sdk_inv_def)
  ultimately have "sdk_inv env used issued L spec (sdk_release_slot st2)"
    using i live le keys wkeys apart unfolding sdk_inv_def
    by (simp add: sdk_release_slot_def fields v2 distinct_map_filter distinct_delete)
  with Some st2 show ?thesis by (simp add: stop_session_def finish_stop_def Let_def)
qed (use i in \<open>simp add: stop_session_def\<close>)

end

text \<open>How many runs and session starts of a history failed with a sandbox error.\<close>

fun op_fails ::
  "('s, 'h, 'v, 'w, 'f, 'x) sdk_env \<Rightarrow> 'f sdk_spec \<Rightarrow> projection \<Rightarrow> ('f, 'x) sdk_op \<Rightarrow> ('s, 'h, 'v, 'w, 'f) sdk_state \<Rightarrow> bool" where
  "op_fails env spec pj (OpRun req) st = sandbox_failure (fst (sdk_run env spec pj req st))"
| "op_fails env spec pj (OpStart sess) st = sandbox_failure (fst (start_session env spec pj sess st))"
| "op_fails env spec pj a st = False"

fun sandbox_failures ::
  "('s, 'h, 'v, 'w, 'f, 'x) sdk_env \<Rightarrow> 'f sdk_spec \<Rightarrow> projection \<Rightarrow> ('f, 'x) sdk_op list \<Rightarrow> ('s, 'h, 'v, 'w, 'f) sdk_state \<Rightarrow> nat" where
  "sandbox_failures env spec pj [] st = 0"
| "sandbox_failures env spec pj (a # ops) st =
     of_bool (op_fails env spec pj a st) + sandbox_failures env spec pj ops (sdk_step env spec pj a st)"

context sdk_system
begin

lemma sdk_step_inv:
  assumes "sdk_inv env used issued L spec st"
  shows "\<exists>J. finite J \<and> card J \<le> of_bool (op_fails env spec pj a st) \<and> (always_stages env \<longrightarrow> J = {}) \<and>
    sdk_inv env used issued (L \<union> J) spec (sdk_step env spec pj a st)"
proof (cases a)
  case (OpRun req)
  with sdk_run_inv [OF assms, of pj req] show ?thesis by (auto simp: lost_def)
next
  case (OpStart sess)
  with start_inv [OF assms, of pj sess] show ?thesis by (auto simp: lost_def)
qed (use assms stop_inv send_inv pump_inv in \<open>auto intro!: exI [of _ "{}"] split: option.splits\<close>)

lemma sdk_steps_inv:
  "sdk_inv env used issued L spec st \<Longrightarrow>
     \<exists>J. finite J \<and> card J \<le> sandbox_failures env spec pj ops st \<and> (always_stages env \<longrightarrow> J = {}) \<and>
       sdk_inv env used issued (L \<union> J) spec (fold (sdk_step env spec pj) ops st)"
proof (induction ops arbitrary: L st)
  case (Cons a ops)
  from sdk_step_inv [OF Cons.prems, of pj a] obtain J where J: "finite J" "card J \<le> of_bool (op_fails env spec pj a st)"
    "always_stages env \<longrightarrow> J = {}" "sdk_inv env used issued (L \<union> J) spec (sdk_step env spec pj a st)" by blast
  from Cons.IH [OF J(4)] obtain K where K: "finite K"
    "card K \<le> sandbox_failures env spec pj ops (sdk_step env spec pj a st)" "always_stages env \<longrightarrow> K = {}"
    "sdk_inv env used issued (L \<union> J \<union> K) spec (fold (sdk_step env spec pj) ops (sdk_step env spec pj a st))" by blast
  have "card (J \<union> K) \<le> sandbox_failures env spec pj (a # ops) st"
    using J(2) K(2) card_Un_le [of J K] by simp
  with J K show ?case by (intro exI [of _ "J \<union> K"]) (simp add: Un_assoc)
qed (auto intro!: exI [of _ "{}"])

end

text \<open>
  (C37) Whatever runs, sessions and stops are done one after the other: the counter is the number of registered
  sessions and within the quota, every workspace belongs to one of them, and its sandbox is registered. The sandboxes
  registered besides those of the workspaces, which nothing gives back, are at most as many as runs and starts failed
  with a sandbox error; there are none when staging into a sandbox does not fail.
\<close>

theorem sessions_own_sandboxes:
  assumes "sdk_system env used issued"
    and "fold (sdk_step env spec pj) ops (sdk_new (Some (sh_new, pool)) v w) = st"
  shows "length (ak_sessions st) = unat (ak_live st) \<and> ak_live st \<le> as_max_sessions spec \<and>
    distinct (map (en_session_id env) (ak_sessions st)) \<and>
    fst ` set (ak_workspaces st) \<subseteq> en_session_id env ` set (ak_sessions st) \<and>
    (case ak_sandbox st of None \<Rightarrow> ak_workspaces st = []
     | Some (sb, _) \<Rightarrow>
         sw_sandbox ` snd ` set (ak_workspaces st) \<subseteq> registered sb \<and>
         card (registered sb - sw_sandbox ` snd ` set (ak_workspaces st)) \<le>
           sandbox_failures env spec pj ops (sdk_new (Some (sh_new, pool)) v w) \<and>
         (always_stages env \<longrightarrow> registered sb = sw_sandbox ` snd ` set (ak_workspaces st)))"
proof -
  have "sdk_inv env used issued {} spec (sdk_new (Some (sh_new, pool)) v w)" by (rule sdk_inv_new) simp
  from sdk_system.sdk_steps_inv [OF assms(1) this, of pj ops] obtain J where J: "finite J"
    "card J \<le> sandbox_failures env spec pj ops (sdk_new (Some (sh_new, pool)) v w)" "always_stages env \<longrightarrow> J = {}"
    "sdk_inv env used issued J spec st" unfolding assms(2) by auto
  let ?I = "sw_sandbox ` snd ` set (ak_workspaces st)"
  have t: "tidy used (?I \<union> J) st" "J \<inter> ?I = {}" using J(4) by (simp_all add: sdk_inv_def image_comp)
  then have "?I \<union> J - ?I = J" by blast
  with J t show ?thesis
    by (auto simp: sdk_inv_def tidy_def image_comp split: option.splits)
qed

subsection \<open>Containment\<close>

text \<open>An environment that writes down the configurations the SDK gets and the files written to the host.\<close>

record 'x sdk_log =
  lg_configs :: "'x sdk_config list"
  lg_writes :: "string list"

definition watched :: "('s, 'h, 'v, 'w, 'f, 'x) sdk_env \<Rightarrow> ('s, 'h, 'v \<times> 'x sdk_log, 'w, 'f, 'x) sdk_env" where
  "watched env =
     \<lparr>en_query = (\<lambda>req (v, l). case en_query env req v of (r, v1) \<Rightarrow> (r, v1, l\<lparr>lg_configs := lg_configs l @ [qr_config req]\<rparr>)),
      en_create_session =
        (\<lambda>sess (v, l). case en_create_session env sess v of (r, v1) \<Rightarrow> (r, v1, l\<lparr>lg_configs := lg_configs l @ [ss_config sess]\<rparr>)),
      en_session_id = en_session_id env,
      en_send = (\<lambda>s p (v, l). case en_send env s p v of (r, v1) \<Rightarrow> (r, v1, l)),
      en_receive = (\<lambda>s (v, l). case en_receive env s v of (r, v1) \<Rightarrow> (r, v1, l)),
      en_close = (\<lambda>s (v, l). case en_close env s v of (r, v1) \<Rightarrow> (r, v1, l)),
      en_run_id = (\<lambda>(v, l). case en_run_id env v of (r, v1) \<Rightarrow> (r, v1, l)),
      en_is_dir = (\<lambda>d (v, l). en_is_dir env d v),
      en_write = (\<lambda>d p t (v, l). case en_write env d p t v of (r, v1) \<Rightarrow> (r, v1, l\<lparr>lg_writes := lg_writes l @ [p]\<rparr>)),
      en_sandbox = en_sandbox env, en_sandbox_cap = en_sandbox_cap env, en_stage = en_stage env, en_pretty = en_pretty env,
      en_micro = en_micro env\<rparr>"

definition contained :: "'x sdk_config \<Rightarrow> bool" where
  "contained c \<longleftrightarrow>
     {''Bash'', ''Write'', ''Edit''} \<subseteq> set (cf_disallowed c) \<and> ''mcp__atomr__run_in_sandbox'' \<in> set (cf_allowed c) \<and>
     cf_workspace_id c \<noteq> None"

lemma set_push_new [simp]: "set (push_new ts xs) = set ts \<union> set xs"
  unfolding push_new_def by (induction ts arbitrary: xs) auto

lemma containment_contains [simp]: "contained (apply_containment i c)"
  by (simp add: contained_def apply_containment_def)

lemma acquire_v:
  "acquire_workspace env spec pj st = (r, st1) \<Longrightarrow>
   ak_v st1 = ak_v st \<and> (wc_enabled (as_workspace spec) \<longrightarrow> r \<noteq> Inr None)"
  by (auto simp: acquire_workspace_def Let_def set_sandbox_def split: if_splits option.splits prod.splits sum.splits)

lemma release_v [simp]: "ak_v (release_workspace env ws st) = ak_v st"
  by (auto simp: release_workspace_def Let_def set_sandbox_def split: option.splits prod.splits)

lemma release_optional_v [simp]: "ak_v (release_optional env ws st) = ak_v st"
  by (simp add: release_optional_def split: option.splits)

lemma prepare_contained:
  assumes "wc_enabled (as_workspace spec)" and "prepare_workspace env spec pj c st = (r, st1)"
  shows "ak_v st1 = ak_v st \<and> (case r of Inr (_, c1) \<Rightarrow> contained c1 | Inl _ \<Rightarrow> True)"
  using assms by (auto simp: prepare_workspace_def dest!: acquire_v split: prod.splits sum.splits option.splits)

definition contained_log :: "'x sdk_log \<Rightarrow> bool" where
  "contained_log l \<longleftrightarrow> list_all contained (lg_configs l) \<and> lg_writes l = []"

lemma watched_quiet [simp]:
  "snd (snd (en_send (watched env) s p vl)) = snd vl" "snd (snd (en_receive (watched env) s vl)) = snd vl"
  "snd (snd (en_close (watched env) s vl)) = snd vl" "snd (snd (en_run_id (watched env) vl)) = snd vl"
  by (cases vl; simp add: watched_def split: prod.splits)+

lemma watched_query: "contained (qr_config req) \<Longrightarrow> contained_log (snd vl) \<Longrightarrow> contained_log (snd (snd (en_query (watched env) req vl)))"
  by (cases vl) (simp add: watched_def contained_log_def split: prod.splits)

lemma watched_create:
  "contained (ss_config sess) \<Longrightarrow> contained_log (snd vl) \<Longrightarrow> contained_log (snd (snd (en_create_session (watched env) sess vl)))"
  by (cases vl) (simp add: watched_def contained_log_def split: prod.splits)

lemma send_log: "snd (ak_v (snd (session_send (watched env) s p st))) = snd (ak_v st)"
proof -
  obtain r vl where r: "en_send (watched env) s p (ak_v st) = (r, vl)" by (metis surj_pair)
  then have "snd vl = snd (ak_v st)" using watched_quiet(1) [of env s p "ak_v st"] by simp
  with r show ?thesis by (cases r) (simp_all add: session_send_def)
qed

lemma run_contained:
  assumes en: "wc_enabled (as_workspace spec)" and l: "contained_log (snd (ak_v st))"
  shows "contained_log (snd (ak_v (snd (sdk_run (watched env) spec pj req st))))"
proof (cases "validate_cwd (watched env) (qr_config req) (ak_v st)")
  case (Inr u)
  obtain r st1 where p: "prepare_workspace (watched env) spec pj (apply_defaults spec (qr_config req)) st = (r, st1)" by (metis surj_pair)
  note pc = prepare_contained [OF en p]
  show ?thesis
  proof (cases r)
    case (Inl e)
    with \<open>validate_cwd (watched env) (qr_config req) (ak_v st) = Inr u\<close> p pc l show ?thesis by (simp add: sdk_run_def Let_def)
  next
    case (Inr wc)
    obtain ws c1 where wc: "wc = (ws, c1)" by force
    obtain rid v1 where rid: "en_run_id (watched env) (ak_v st1) = (rid, v1)" by (metis surj_pair)
    let ?cost = "case qr_max_cost req of None \<Rightarrow> as_max_cost spec | m \<Rightarrow> m"
    let ?req = "req\<lparr>qr_config := c1, qr_max_cost := ?cost\<rparr>"
    obtain q v2 where q: "en_query (watched env) ?req v1 = (q, v2)" by (metis surj_pair)
    have "snd v1 = snd (ak_v st1)" using watched_quiet(4) [of env "ak_v st1"] by (simp add: rid)
    then have "contained_log (snd v1)" using l pc by simp
    then have "contained_log (snd v2)" using watched_query [of ?req v1 env] pc Inr wc by (simp add: q)
    with \<open>validate_cwd (watched env) (qr_config req) (ak_v st) = Inr u\<close> p Inr wc rid q show ?thesis
      by (simp add: sdk_run_def Let_def split: prod.splits)
  qed
qed (use l in \<open>simp add: sdk_run_def\<close>)

lemma start_contained:
  assumes en: "wc_enabled (as_workspace spec)" and l: "contained_log (snd (ak_v st))"
  shows "contained_log (snd (ak_v (snd (start_session (watched env) spec pj sess st))))"
proof (cases "validate_cwd (watched env) (ss_config sess) (ak_v st)")
  case (Inr u)
  note ok = Inr
  obtain z st1 where z: "sdk_reserve_slot spec st = (z, st1)" by force
  then have v1: "ak_v st1 = ak_v st" by (auto simp: sdk_reserve_slot_def Let_def split: if_splits)
  obtain r st2 where p: "prepare_workspace (watched env) spec pj (apply_defaults spec (ss_config sess)) st1 = (r, st2)" by (metis surj_pair)
  note pc = prepare_contained [OF en p]
  show ?thesis
  proof (cases z; cases r)
    fix uu wc assume zr: "z = Inr uu" "r = Inr wc"
    obtain ws c1 where wc: "wc = (ws, c1)" by force
    obtain q v2 where q: "en_create_session (watched env) (sess\<lparr>ss_config := c1\<rparr>) (ak_v st2) = (q, v2)" by (metis surj_pair)
    have "contained_log (snd (ak_v st2))" "contained c1" using pc l v1 zr wc by simp_all
    then have l2: "contained_log (snd v2)"
      using watched_create [of "sess\<lparr>ss_config := c1\<rparr>" "ak_v st2" env] by (simp add: q)
    show ?thesis
    proof (cases q)
      case (Inl e)
      with ok z zr p wc q l2 show ?thesis by (simp add: start_session_def sdk_release_slot_def)
    next
      case (Inr s)
      let ?st3 = "st2\<lparr>ak_v := v2, ak_sessions := ak_sessions st2 @ [s],
        ak_workspaces := (case ws of Some x \<Rightarrow> AList.update (en_session_id (watched env) s) x (ak_workspaces st2) | None \<Rightarrow> ak_workspaces st2)\<rparr>"
      note start = start_session_def [of "watched env" spec pj sess st] ok z zr p wc q Inr
      show ?thesis
      proof (cases "ss_initial_prompt sess")
        case None
        with l2 show ?thesis by (simp add: start)
      next
        case (Some prompt)
        obtain x st4 where x: "session_send (watched env) s prompt ?st3 = (x, st4)" by (metis surj_pair)
        then have "snd (ak_v st4) = snd v2" using send_log [of env s prompt ?st3] by simp
        with Some x l2 show ?thesis by (cases x) (simp_all add: start Let_def)
      qed
    qed
  qed (use ok z p pc v1 l in \<open>simp_all add: start_session_def sdk_release_slot_def\<close>)
qed (use l in \<open>simp add: start_session_def\<close>)

text \<open>
  (C38) With workspaces enabled every configuration the SDK gets, for a run or a session, takes the host's shell and
  file tools away and names the sandbox in their place, and nothing is written to the host's file system.
\<close>

theorem workspaces_contain:
  assumes "wc_enabled (as_workspace spec)"
    and "fold (sdk_step (watched env) spec pj) ops (sdk_new sandbox (v, \<lparr>lg_configs = [], lg_writes = []\<rparr>) w) = st"
  shows "list_all contained (lg_configs (snd (ak_v st))) \<and> lg_writes (snd (ak_v st)) = []"
proof -
  have "contained_log (snd (ak_v (fold (sdk_step (watched env) spec pj) ops st)))" if "contained_log (snd (ak_v st))" for st
    using that
  proof (induction ops arbitrary: st)
    case (Cons a ops)
    have "contained_log (snd (ak_v (sdk_step (watched env) spec pj a st)))"
    proof (cases a)
      case (OpStop i)
      with Cons.prems show ?thesis
        by (auto simp: stop_session_def finish_stop_def Let_def sdk_release_slot_def split: option.splits)
    next
      case (OpSend i p)
      with Cons.prems show ?thesis by (auto simp: send_log split: option.splits)
    next
      case (OpPump n)
      obtain q vl where "en_receive (watched env) (ak_pumps st ! n) (ak_v st) = (q, vl)" by (metis surj_pair)
      moreover have "snd (snd (en_receive (watched env) (ak_pumps st ! n) (ak_v st))) = snd (ak_v st)" by simp
      ultimately show ?thesis using OpPump Cons.prems by (simp add: run_pump_def)
    qed (use Cons.prems run_contained [OF assms(1)] start_contained [OF assms(1)] in simp_all)
    with Cons.IH show ?case by simp
  qed simp
  moreover have "contained_log (snd (ak_v (sdk_new sandbox (v, \<lparr>lg_configs = [], lg_writes = []\<rparr>) w)))"
    by (simp add: sdk_new_def contained_log_def)
  ultimately have "contained_log (snd (ak_v st))" using assms(2) by blast
  then show ?thesis by (simp add: contained_log_def)
qed

subsection \<open>Headless runs end at their result or at the cost cap\<close>

definition results :: "'f sdk_message list \<Rightarrow> 'f result_summary list" where
  "results ms = List.map_filter (\<lambda>m. case m of ResultMsg r \<Rightarrow> Some r | _ \<Rightarrow> None) ms"

definition charged :: "('f \<Rightarrow> u64) \<Rightarrow> spend_ledger \<Rightarrow> 'f sdk_message list \<Rightarrow> spend_ledger" where
  "charged micro g ms = foldl ledger_record g (map (result_spend micro) (results ms))"

definition within :: "u64 option \<Rightarrow> spend_ledger \<Rightarrow> bool" where
  "within cap g = (case cap of Some c \<Rightarrow> sl_total_micro g \<le> c | None \<Rightarrow> True)"

lemma results_Cons: "results (m # ms) = (case m of ResultMsg r \<Rightarrow> r # results ms | _ \<Rightarrow> results ms)"
  by (simp add: results_def List.map_filter_simps split: sdk_message.splits)

lemma results_Nil [simp]: "results [] = []"
  by (simp add: results_def List.map_filter_simps)

lemma project_charges:
  "project_msg micro hid m k = (r, k1) \<Longrightarrow>
   sk_ledger k1 = charged micro (sk_ledger k) [m] \<and> results [m] = (case r of Some x \<Rightarrow> [x] | None \<Rightarrow> [])"
  by (cases m) (auto simp: charged_def results_Cons sdk_send_event_def)

lemma charged_Cons: "charged micro g (m # ms) = charged micro (charged micro g [m]) ms"
  by (simp add: charged_def results_Cons split: sdk_message.splits)

lemma results_split: "results (m # ms) = results [m] @ results ms"
  by (simp add: results_Cons split: sdk_message.splits)

lemma drive_spec:
  "(case headless_drive micro hid cap (map Inr ms) res k of
      (Inr r, k1) \<Rightarrow> sk_ledger k1 = charged micro (sk_ledger k) ms \<and>
        Some r = (if results ms = [] then res else Some (last (results ms))) \<and>
        list_all (\<lambda>n. within cap (charged micro (sk_ledger k) (take n ms))) [1..<Suc (length ms)]
    | (Inl e, k1) \<Rightarrow>
        (if e = StreamClosed then results ms = [] \<and> res = None
         else e = BudgetError ''money'' \<and>
           (\<exists>pre m post. ms = pre @ m # post \<and> sk_ledger k1 = charged micro (sk_ledger k) (pre @ [m]) \<and>
              \<not> within cap (sk_ledger k1) \<and>
              list_all (\<lambda>n. within cap (charged micro (sk_ledger k) (take n pre))) [1..<Suc (length pre)])))"
proof (induction ms arbitrary: res k)
  case Nil
  then show ?case by (simp add: charged_def split: option.splits)
next
  case (Cons m ms)
  obtain r k1 where p: "project_msg micro hid m k = (r, k1)" by force
  note pc = project_charges [OF p]
  have shift: "list_all (\<lambda>n. within cap (charged micro g (take n (m # xs)))) [1..<Suc (length (m # xs))] \<longleftrightarrow>
      within cap (charged micro g [m]) \<and>
      list_all (\<lambda>n. within cap (charged micro (charged micro g [m]) (take n xs))) [1..<Suc (length xs)]" for g xs
  proof -
    have u: "[1..<Suc (length (m # xs))] = 1 # map Suc [1..<Suc (length xs)]"
      by (simp add: map_Suc_upt upt_conv_Cons del: upt_Suc)
    show ?thesis
      unfolding u list.pred_inject list.pred_map comp_def take_Suc_Cons charged_Cons [of micro g m "take n xs" for n] by simp
  qed
  show ?case
  proof (cases "within cap (sk_ledger k1)")
    case False
    then have d: "headless_drive micro hid cap (map Inr (m # ms)) res k = (Inl (BudgetError ''money''),
        sdk_send_event (RunFinished BudgetExhausted (Option.bind (case r of Some x \<Rightarrow> Some x | None \<Rightarrow> res) rs_session)
          (Option.bind (case r of Some x \<Rightarrow> Some x | None \<Rightarrow> res) rs_result)) k1)"
      by (simp add: p within_def not_le split: option.splits)
    then show ?thesis
      using pc False unfolding d prod.case sum.case
      by (intro exI [of _ "[]"] exI [of _ m] exI [of _ ms] conjI | simp add: sdk_send_event_def)+
  next
    case True
    let ?res = "case r of Some x \<Rightarrow> Some x | None \<Rightarrow> res"
    have d: "headless_drive micro hid cap (map Inr (m # ms)) res k = headless_drive micro hid cap (map Inr ms) ?res k1"
      using True by (cases cap) (simp_all add: p within_def not_less [symmetric])
    obtain o1 k2 where o1: "headless_drive micro hid cap (map Inr ms) ?res k1 = (o1, k2)" by force
    note ih = Cons.IH [of ?res k1, unfolded o1]
    show ?thesis
    proof (cases o1)
      case (Inr x)
      then show ?thesis
        using ih True pc results_split [of m ms] shift [of "sk_ledger k" ms] charged_Cons [of micro "sk_ledger k" m ms]
        unfolding d o1 by (cases r) (auto split: if_splits)
    next
      case (Inl e)
      show ?thesis
      proof (cases "e = StreamClosed")
        case True
        then show ?thesis using ih Inl pc results_split [of m ms] unfolding d o1 by (cases r) auto
      next
        case False
        then obtain pre m1 post where e: "e = BudgetError ''money''" "ms = pre @ m1 # post"
          "sk_ledger k2 = charged micro (sk_ledger k1) (pre @ [m1])" "\<not> within cap (sk_ledger k2)"
          "list_all (\<lambda>n. within cap (charged micro (sk_ledger k1) (take n pre))) [1..<Suc (length pre)]"
          using ih Inl by auto
        have "sk_ledger k2 = charged micro (sk_ledger k) ((m # pre) @ [m1])"
          using e(3) pc charged_Cons [of micro "sk_ledger k" m "pre @ [m1]"] by simp
        moreover have "list_all (\<lambda>n. within cap (charged micro (sk_ledger k) (take n (m # pre)))) [1..<Suc (length (m # pre))]"
          using e(5) pc True shift [of "sk_ledger k" pre] by simp
        moreover have "m # ms = (m # pre) @ m1 # post" using e(2) by simp
        ultimately show ?thesis
          using e(1,4) Inl unfolding d o1 by (simp only: prod.case sum.case if_False sdk_harness_error.distinct) blast
      qed
    qed
  qed
qed

text \<open>
  (C39) Driving the messages of a run: it returns the last result when the stream ends and no message took the ledger over
  the cap, it fails with the budget error at the first message that did, and with a closed stream when there was
  no result. The ledger has charged exactly the results up to there.
\<close>

theorem drive_ends_at_result_or_cap:
  "(case headless_drive micro hid cap (map Inr ms) None k of
      (Inr r, k1) \<Rightarrow> results ms \<noteq> [] \<and> r = last (results ms) \<and> sk_ledger k1 = charged micro (sk_ledger k) ms \<and>
        list_all (\<lambda>n. within cap (charged micro (sk_ledger k) (take n ms))) [1..<Suc (length ms)]
    | (Inl e, k1) \<Rightarrow>
        (if e = StreamClosed then results ms = []
         else e = BudgetError ''money'' \<and>
           (\<exists>pre m post. ms = pre @ m # post \<and> sk_ledger k1 = charged micro (sk_ledger k) (pre @ [m]) \<and>
              \<not> within cap (sk_ledger k1) \<and>
              list_all (\<lambda>n. within cap (charged micro (sk_ledger k) (take n pre))) [1..<Suc (length pre)])))"
proof -
  obtain x k1 where x: "headless_drive micro hid cap (map Inr ms) None k = (x, k1)" by force
  note d = drive_spec [where micro = micro and hid = hid and cap = cap and ms = ms and res = None and k = k, unfolded x prod.case]
  show ?thesis
  proof (cases x)
    case (Inr r)
    with d show ?thesis unfolding x by (simp del: upt_Suc split: if_splits)
  next
    case (Inl e)
    with d show ?thesis unfolding x by (simp only: prod.case sum.case) (metis (no_types, lifting))
  qed
qed

text \<open>
  The cap of a run is compared with what the harness has spent since it was built, so a run that costs nothing fails
  at its first message once earlier runs or sessions have cost more than its cap.
\<close>

lemma budget_is_shared:
  "c < sl_total_micro (sk_ledger k) \<Longrightarrow> fst (headless_drive micro hid (Some c) (Inr (AssistantMsg bs) # items) None k) = Inl (BudgetError ''money'')"
  by simp

text \<open>A session whose first prompt cannot be sent is reported as an error, yet it stays registered with its slot.\<close>

lemma failed_prompt_keeps_session:
  assumes "validate_cwd env (ss_config sess) (ak_v st) = Inr ()" and "ak_live st < as_max_sessions spec"
    and "\<not> wc_enabled (as_workspace spec)" and "cf_cwd (ss_config sess) = None"
    and "en_create_session env sess1 (ak_v st) = (Inr s, v1)"
    and "sess1 = sess\<lparr>ss_config := apply_defaults spec (ss_config sess)\<rparr>"
    and "ss_initial_prompt sess = Some p" and "en_send env s p v1 = (Inl e, v2)"
  shows "fst (start_session env spec pj sess st) = Inl (SdkErr e)"
    and "s \<in> set (ak_sessions (snd (start_session env spec pj sess st)))"
    and "ak_live (snd (start_session env spec pj sess st)) = ak_live st + 1"
  using assms
  by (simp_all add: start_session_def sdk_reserve_slot_def prepare_workspace_def acquire_workspace_def sdk_materialize_def
      apply_defaults_def session_send_def not_le [symmetric] Let_def)

text \<open>
  Two stops of one session that both look it up before either removes it give two slots back. With one session
  running the counter wraps around, and no session is admitted again.
\<close>

lemma double_stop_wraps:
  assumes "find_session env i st = Some s" and "ak_live st = 1"
  shows "ak_live (finish_stop env i s (finish_stop env i s st)) = - 1"
    and "fst (sdk_reserve_slot spec (finish_stop env i s (finish_stop env i s st))) = Inl (SessionQuota (as_max_sessions spec))"
proof -
  have live: "ak_live (finish_stop env i s st) = ak_live st - 1" for st
    by (auto simp: finish_stop_def Let_def sdk_release_slot_def release_optional_def release_workspace_def set_sandbox_def
        split: option.splits prod.splits)
  show l: "ak_live (finish_stop env i s (finish_stop env i s st)) = - 1" by (simp add: live assms(2))
  show "fst (sdk_reserve_slot spec (finish_stop env i s (finish_stop env i s st))) = Inl (SessionQuota (as_max_sessions spec))"
    by (simp add: sdk_reserve_slot_def Let_def l)
qed

subsection \<open>The in-memory backend (mock.rs)\<close>

record mock_sdk =
  mb_reply :: "string option"
  mb_tool :: "string option"

definition scripted_turn :: "mock_sdk \<Rightarrow> 'f \<Rightarrow> string \<Rightarrow> 'x sdk_config \<Rightarrow> 'f sdk_message list" where
  "scripted_turn b zero prompt c =
     (let sess = ''mock-session'';
          reply = (case mb_reply b of Some r \<Rightarrow> r | None \<Rightarrow> ''[mock] '' @ prompt)
      in [SystemMsg (Some ''init'') (Some sess) (cf_model c) (cf_allowed c) (map fst (cf_mcp_servers c)),
          AssistantMsg (TextBlock reply #
            (case mb_tool b of
               None \<Rightarrow> []
             | Some name \<Rightarrow>
                 [ToolUseBlock ''mock-tool-1'' name (obj_of []),
                  ToolResultBlock ''mock-tool-1'' (Some (String ''ok'')) False])),
          ResultMsg \<lparr>rs_subtype = ''success'', rs_result = Some reply, rs_session = Some sess, rs_num_turns = 1,
            rs_duration_ms = Some 0, rs_cost = Some zero,
            rs_usage = \<lparr>us_input = 1, us_output = 1, us_cache_creation = 0, us_cache_read = 0\<rparr>, rs_is_error = False\<rparr>])"

text \<open>A mock session is its id and configuration; its last prompt is kept in the world, with the numbers drawn and the files.\<close>

record 'x mock_session =
  mo_id :: string
  mo_config :: "'x sdk_config"

record mock_sdk_world =
  mv_drawn :: nat
  mv_prompts :: "(string \<times> string) list"
  mv_files :: "(string \<times> string) list"

definition sdk_uuid :: "nat \<Rightarrow> string" where
  "sdk_uuid n = ''agent-sess-'' @ show_nat n"

definition mock_sdk_env :: "mock_sdk \<Rightarrow> ('x mock_session, mock_handle, mock_sdk_world, mock_world, u64, 'x) sdk_env" where
  "mock_sdk_env b =
     \<lparr>en_query = (\<lambda>req v. (Inr (map Inr (scripted_turn b 0 (qr_prompt req) (qr_config req))), v)),
      en_create_session = (\<lambda>sess v.
        (Inr \<lparr>mo_id = sdk_uuid (mv_drawn v), mo_config = ss_config sess\<rparr>,
         v\<lparr>mv_drawn := Suc (mv_drawn v),
           mv_prompts := AList.update (sdk_uuid (mv_drawn v)) (case ss_initial_prompt sess of Some p \<Rightarrow> p | None \<Rightarrow> []) (mv_prompts v)\<rparr>)),
      en_session_id = mo_id,
      en_send = (\<lambda>s p v. (Inr (), v\<lparr>mv_prompts := AList.update (mo_id s) p (mv_prompts v)\<rparr>)),
      en_receive = (\<lambda>s v. (Inr (map Inr (scripted_turn b 0
        (case map_of (mv_prompts v) (mo_id s) of Some p \<Rightarrow> p | None \<Rightarrow> []) (mo_config s))), v)),
      en_close = (\<lambda>s v. (Inr (), v)),
      en_run_id = (\<lambda>v. (''agent-run-'' @ show_nat (mv_drawn v), v\<lparr>mv_drawn := Suc (mv_drawn v)\<rparr>)),
      en_is_dir = (\<lambda>d v. True),
      en_write = (\<lambda>d p t v. (Inr (), v\<lparr>mv_files := AList.update (d @ ''/'' @ p) t (mv_files v)\<rparr>)),
      en_sandbox = mock_backend demo_uuid, en_sandbox_cap = 2,
      en_stage = (\<lambda>h p t w. mock_write_file h p (map of_char t) w),
      en_pretty = (\<lambda>v. []), en_micro = (\<lambda>c. c)\<rparr>"

lemma mock_sdk_system:
  "sdk_system (mock_sdk_env b) (\<lambda>w. demo_uuid ` {..<mw_drawn w}) (\<lambda>v. sdk_uuid ` {..<mv_drawn v})"
proof -
  have inj: "sdk_uuid m = sdk_uuid n \<longleftrightarrow> m = n" for m n by (auto simp: sdk_uuid_def dest: show_nat_inj)
  have "fresh_backend (en_sandbox (mock_sdk_env b)) (\<lambda>w. demo_uuid ` {..<mw_drawn w})"
    using mock.fresh_backend_axioms by (simp add: mock_sdk_env_def)
  moreover have "sdk_system_axioms (mock_sdk_env b) (\<lambda>w. demo_uuid ` {..<mw_drawn w}) (\<lambda>v. sdk_uuid ` {..<mv_drawn v})"
    by unfold_locales (auto simp: mock_sdk_env_def mock_write_file_def inj)
  ultimately show ?thesis by (rule sdk_system.intro)
qed

interpretation mock_sdk: sdk_system "mock_sdk_env b" "\<lambda>w. demo_uuid ` {..<mw_drawn w}" "\<lambda>v. sdk_uuid ` {..<mv_drawn v}" for b
  by (rule mock_sdk_system)

definition demo_config :: "unit sdk_config" where
  "demo_config = \<lparr>cf_allowed = [], cf_disallowed = [''Edit''], cf_permission_mode = BypassPermissions, cf_cwd = Some ''/repo'',
     cf_mcp_servers = [], cf_setting_sources = [], cf_model = None, cf_fallback_model = None, cf_max_turns = None,
     cf_effort = None, cf_workspace_id = None, cf_rest = ()\<rparr>"

definition demo_spec :: "u64 sdk_spec" where
  "demo_spec = \<lparr>as_id = ''agent-sdk'', as_default_model = Some ''claude-opus-4-8'', as_fallback_model = None,
     as_permission_mode = BypassPermissions, as_setting_sources = [ProjectSettings], as_effort = None, as_max_sessions = 1,
     as_max_turns = None, as_max_cost = None,
     as_workspace = \<lparr>wc_enabled = True, wc_profile = PythonAndNpm, wc_backend = None, wc_on_close = SnapshotOnClose, wc_reuse_warm = True\<rparr>\<rparr>"

definition demo_projection :: projection where
  "demo_projection = \<lparr>pj_skills = [\<lparr>sd_id = ''s'', sd_name = None, sd_description = None, sd_allowed_tools = [], sd_body = ''x''\<rparr>],
     pj_commands = [], pj_mcp_servers = [], pj_settings = None\<rparr>"

definition demo_sdk_ops :: "(u64, unit) sdk_op list" where
  "demo_sdk_ops =
     [OpStart \<lparr>ss_config = demo_config, ss_initial_prompt = Some ''hi''\<rparr>, OpStart \<lparr>ss_config = demo_config, ss_initial_prompt = None\<rparr>,
      OpRun \<lparr>qr_prompt = ''go'', qr_config = demo_config, qr_max_cost = Some 5\<rparr>, OpStop ''agent-sess-0'', OpPump 0,
      OpStart \<lparr>ss_config = demo_config, ss_initial_prompt = None\<rparr>]"

definition demo_sdk_state :: "(unit mock_session, mock_handle, mock_sdk_world, mock_world, u64) sdk_state" where
  "demo_sdk_state = fold (sdk_step (mock_sdk_env \<lparr>mb_reply = None, mb_tool = None\<rparr>) demo_spec demo_projection) demo_sdk_ops
     (sdk_new (Some (sh_new, pool_new 1)) \<lparr>mv_drawn = 0, mv_prompts = [], mv_files = []\<rparr> \<lparr>mw_drawn = 0, mw_files = []\<rparr>)"

text \<open>
  A sandbox that takes no files as long as it is the only one: the first session does not start and its sandbox stays
  behind, the second one owns the other sandbox.
\<close>

definition shaky_env :: "('x mock_session, mock_handle, mock_sdk_world, mock_world, u64, 'x) sdk_env" where
  "shaky_env = (mock_sdk_env \<lparr>mb_reply = None, mb_tool = None\<rparr>)
     \<lparr>en_stage := (\<lambda>h p t w. if mw_drawn w = 1 then (Inl (Guest ''read-only''), w) else mock_write_file h p (map of_char t) w)\<rparr>"

lemma shaky_system:
  "sdk_system shaky_env (\<lambda>w. demo_uuid ` {..<mw_drawn w}) (\<lambda>v. sdk_uuid ` {..<mv_drawn v})"
proof -
  have inj: "sdk_uuid m = sdk_uuid n \<longleftrightarrow> m = n" for m n by (auto simp: sdk_uuid_def dest: show_nat_inj)
  have "fresh_backend (en_sandbox shaky_env) (\<lambda>w. demo_uuid ` {..<mw_drawn w})"
    using mock.fresh_backend_axioms by (simp add: shaky_env_def mock_sdk_env_def)
  moreover have "sdk_system_axioms shaky_env (\<lambda>w. demo_uuid ` {..<mw_drawn w}) (\<lambda>v. sdk_uuid ` {..<mv_drawn v})"
    by unfold_locales (auto simp: shaky_env_def mock_sdk_env_def mock_write_file_def inj split: if_splits)
  ultimately show ?thesis by (rule sdk_system.intro)
qed

definition shaky_ops :: "(u64, unit) sdk_op list" where
  "shaky_ops = [OpStart \<lparr>ss_config = demo_config, ss_initial_prompt = Some ''hi''\<rparr>,
     OpStart \<lparr>ss_config = demo_config, ss_initial_prompt = None\<rparr>]"

definition shaky_start :: "(unit mock_session, mock_handle, mock_sdk_world, mock_world, u64) sdk_state" where
  "shaky_start = sdk_new (Some (sh_new, pool_new 1)) \<lparr>mv_drawn = 0, mv_prompts = [], mv_files = []\<rparr> \<lparr>mw_drawn = 0, mw_files = []\<rparr>"

definition shaky_state :: "(unit mock_session, mock_handle, mock_sdk_world, mock_world, u64) sdk_state" where
  "shaky_state = fold (sdk_step shaky_env demo_spec demo_projection) shaky_ops shaky_start"

lemma failed_staging_keeps_sandbox:
  "map fst (sh_sandboxes (fst (the (ak_sandbox shaky_state)))) = [''sbx-0'', ''sbx-1'']"
  "map (sw_sandbox \<circ> snd) (ak_workspaces shaky_state) = [''sbx-1'']" "ak_sandbox shaky_state \<noteq> None"
  "sandbox_failures shaky_env demo_spec demo_projection shaky_ops shaky_start = 1"
  by code_simp+

theorem sessions_own_sandboxes_witness:
  "length (ak_sessions demo_sdk_state) = unat (ak_live demo_sdk_state) \<and> ak_live demo_sdk_state \<le> 1 \<and>
   registered (fst (the (ak_sandbox demo_sdk_state))) = sw_sandbox ` snd ` set (ak_workspaces demo_sdk_state) \<and>
   map mo_id (ak_sessions demo_sdk_state) = [''agent-sess-2''] \<and> map fst (sh_sandboxes (fst (the (ak_sandbox demo_sdk_state)))) = [''sbx-3''] \<and>
   map fst (sh_sandboxes (fst (the (ak_sandbox shaky_state)))) = [''sbx-0'', ''sbx-1''] \<and>
   map (sw_sandbox \<circ> snd) (ak_workspaces shaky_state) = [''sbx-1''] \<and>
   card (registered (fst (the (ak_sandbox shaky_state))) - sw_sandbox ` snd ` set (ak_workspaces shaky_state)) \<le> 1"
proof (intro conjI)
  have e: "map mo_id (ak_sessions demo_sdk_state) = [''agent-sess-2'']"
    "map fst (sh_sandboxes (fst (the (ak_sandbox demo_sdk_state)))) = [''sbx-3'']" "ak_sandbox demo_sdk_state \<noteq> None"
    by code_simp+
  have stage: "always_stages (mock_sdk_env \<lparr>mb_reply = None, mb_tool = None\<rparr>)"
    by (simp add: always_stages_def mock_sdk_env_def mock_write_file_def)
  obtain sb p where sb: "ak_sandbox demo_sdk_state = Some (sb, p)" using e(3) by auto
  have m: "as_max_sessions demo_spec = 1" by (simp add: demo_spec_def)
  note d = sessions_own_sandboxes [OF mock_sdk_system demo_sdk_state_def [symmetric]]
  show "length (ak_sessions demo_sdk_state) = unat (ak_live demo_sdk_state)" "ak_live demo_sdk_state \<le> 1"
    using d unfolding m by blast+
  show "registered (fst (the (ak_sandbox demo_sdk_state))) = sw_sandbox ` snd ` set (ak_workspaces demo_sdk_state)"
    using d stage unfolding sb prod.case option.case option.sel fst_conv by blast
  show "map mo_id (ak_sessions demo_sdk_state) = [''agent-sess-2'']"
    "map fst (sh_sandboxes (fst (the (ak_sandbox demo_sdk_state)))) = [''sbx-3'']" using e by blast+
  note f = failed_staging_keeps_sandbox
  show "map fst (sh_sandboxes (fst (the (ak_sandbox shaky_state)))) = [''sbx-0'', ''sbx-1'']"
    "map (sw_sandbox \<circ> snd) (ak_workspaces shaky_state) = [''sbx-1'']" using f by blast+
  obtain sb2 p2 where sb2: "ak_sandbox shaky_state = Some (sb2, p2)" using f(3) by auto
  have "fold (sdk_step shaky_env demo_spec demo_projection) shaky_ops (sdk_new (Some (sh_new, pool_new 1))
      \<lparr>mv_drawn = 0, mv_prompts = [], mv_files = []\<rparr> \<lparr>mw_drawn = 0, mw_files = []\<rparr>) = shaky_state"
    by (simp only: shaky_state_def shaky_start_def)
  from sessions_own_sandboxes [OF shaky_system this]
  show "card (registered (fst (the (ak_sandbox shaky_state))) - sw_sandbox ` snd ` set (ak_workspaces shaky_state)) \<le> 1"
    unfolding sb2 prod.case option.case option.sel fst_conv shaky_start_def [symmetric] f(4) by blast
qed

definition demo_watched_state :: "(unit mock_session, mock_handle, mock_sdk_world \<times> unit sdk_log, mock_world, u64) sdk_state" where
  "demo_watched_state = fold (sdk_step (watched (mock_sdk_env \<lparr>mb_reply = None, mb_tool = None\<rparr>)) demo_spec demo_projection) demo_sdk_ops
     (sdk_new (Some (sh_new, pool_new 1))
       (\<lparr>mv_drawn = 0, mv_prompts = [], mv_files = []\<rparr>, \<lparr>lg_configs = [], lg_writes = []\<rparr>) \<lparr>mw_drawn = 0, mw_files = []\<rparr>)"

theorem workspaces_contain_witness:
  "list_all contained (lg_configs (snd (ak_v demo_watched_state))) \<and> lg_writes (snd (ak_v demo_watched_state)) = [] \<and>
   map cf_workspace_id (lg_configs (snd (ak_v demo_watched_state))) = [Some ''sbx-0'', Some ''sbx-1'', Some ''sbx-3'']"
proof -
  have e: "map cf_workspace_id (lg_configs (snd (ak_v demo_watched_state))) = [Some ''sbx-0'', Some ''sbx-1'', Some ''sbx-3'']"
    by code_simp
  have "wc_enabled (as_workspace demo_spec)" by (simp add: demo_spec_def)
  from workspaces_contain [OF this demo_watched_state_def [symmetric]] e show ?thesis by blast
qed

end
