(* ===== verification/Spec2Isabelle.thy ===== *)
theory Spec2Isabelle
  imports Replay Journal_Run Interrupts Outbox Contract Ingest Output_Parsers Debate Sandbox_Harness Triggers Host_Scheduler Channel_Harness Prompts Conversation Meetings Agent_Sdk
begin

text \<open>
  A verification development for the Rust workspace \<open>atomr-agents\<close>: agents that call models and tools, workflows
  that survive crashes and wait for people, and the guards around both. The theories follow the crates.

  \<^bold>\<open>The program.\<close> A workflow is a graph of steps. The stateful runner executes it in layers over a run
  state whose channels merge concurrent writes with reducers, and saves a snapshot after each layer; the
  journal runner executes it in topological order and appends events. A run can pause at a breakpoint, park an
  approval in the interrupt registry and be resumed together with a write to an outside system through an
  outbox. A step is often an agent turn: memory, skills and tools are selected in parallel under token
  budgets, the instructions are rendered and packed into a prompt, and the model is called until it asks for
  no more tools. Clearances, policies, model pins and middleware restrict what a turn reaches. Organisation
  units route calls among agents, a harness repeats a step under an iteration and money budget, and the
  record store keeps every decision so that a run can be replayed without side effects. Around this core,
  documents are split and stamped before they can be retrieved, answers are parsed and repaired, code a model
  wrote runs in sandboxes under a quota, and an external agent SDK runs with its tools moved into such a
  sandbox. A deployed host fires triggers and schedules, messaging channels carry conversations in and out,
  and harnesses for speech and meetings turn event streams into records.

  \<^bold>\<open>The theories.\<close>
  \<^item> \<open>Prelude\<close>: results as \<open>error + 'a\<close>, upserts, stable sorting, ordered maps, folds that stop at an error.
  \<^item> \<open>Core\<close> (crates/core): JSON values, the error type, budgets as words with their saturating and checked
    operations. A token budget is a ledger.
  \<^item> \<open>State\<close>, \<open>Checkpoint\<close> (crates/state): reducers, schema, run state; snapshots, the in-memory and the SQL
    checkpoint store as interpretations of the locale \<open>checkpoint_store\<close>.
  \<^item> \<open>Dag\<close>, \<open>Stateful_Run\<close> (crates/workflow: dag.rs, state\_runner.rs, subgraph.rs): the topological sort and
    its layers; crash recovery of the stateful runner as a refinement of one undisturbed pass over the layers.
  \<^item> \<open>Journal_Run\<close> (runner.rs, event.rs, step.rs, dispatch.rs): the journal as the state, steps of every
    kind, joins and fan-out.
  \<^item> \<open>Interrupts\<close> (interrupt.rs): breakpoints, dynamic interrupts and commands; with at most one
    breakpoint before the steps of a layer, pauses only delay a run.
  \<^item> \<open>Registry\<close>, \<open>Outbox\<close> (interrupt\_registry.rs, resume\_effect.rs): parked approvals in memory and in SQL
    (locale \<open>interrupt_registry\<close>), both outbox stores (locale \<open>outbox_store\<close>), the relay, and \<open>resume_with\<close>
    as interleaved critical sections.
  \<^item> \<open>Contract\<close> (contract.rs): the data validator and the contract stage.
  \<^item> \<open>Provenance\<close>, \<open>Replay\<close> (record.rs, backends.rs, replay\_sink.rs, agent/src/replay.rs): step records over
    the locale \<open>record_store\<close>, decision replay and turn replay.
  \<^item> \<open>Parser\<close> (tool/src/parser.rs, agent/src/inference.rs): streamed tool calls.
  \<^item> \<open>Callable\<close> (crates/callable): decorators and pipelines over callables with an explicit world.
  \<^item> \<open>Context\<close>, \<open>Security\<close>, \<open>Guards\<close> (crates/context, security, retriever/src/retrieval\_filter.rs,
    strategy/src/policy.rs, agent/src/model\_pin.rs and middleware.rs, crates/tool): prompt packing, taint
    fences, walls, the secret broker, retrieval filters, policies, pins, hooks, tool sets.
  \<^item> \<open>Agent\<close> (instruction/src/lib.rs, agent/src/pipeline.rs and trait.rs): the whole turn.
  \<^item> \<open>Harness\<close> (crates/harness, agent/src/cost.rs): the iteration loop and spend accounting.
  \<^item> \<open>Org\<close>, \<open>Debate\<close> (crates/org, memory/src/store.rs): routing, units, the memory view (locale \<open>memory_store\<close>),
    the projection of a compiled organisation, the debate loop.
  \<^item> \<open>Strings\<close>: the operations of Rust's string library the text-handling crates use.
  \<^item> \<open>Ingest\<close>, \<open>Recall\<close> (crates/ingest, memory/src/long\_term.rs, memory\_tools.rs, recency.rs, summarizing.rs):
    the splitters, which lose nothing of ASCII text and keep a document's stamp on every part; the long-term store with the
    tools a model reads and writes it through, and the memory strategies.
  \<^item> \<open>Output_Parsers\<close>, \<open>Prompts\<close> (crates/parser, instruction/src/prompt\_template.rs): reading answers (JSON,
    schemas, lists, XML, YAML, streaming), repairing them, and rendering templates and examples.
  \<^item> \<open>Sandbox\<close>, \<open>Sandbox_Harness\<close> (crates/sandbox-core, sandbox-harness, sandbox-tool): profiles, placement
    and the pool; the harness over any backend (locale \<open>fresh_backend\<close>), its quota also as a step relation of
    concurrent callers.
  \<^item> \<open>Agent_Sdk\<close> (crates/agent-sdk-core, agent-sdk-harness): project files, headless runs with a cost cap,
    sessions and their sandbox workspaces (locale \<open>sdk_system\<close>, which extends the sandbox backend).
  \<^item> \<open>Triggers\<close>, \<open>Host_Scheduler\<close> (crates/host: triggers.rs, scheduler.rs): event and cron triggers with a
    trading calendar, cooldowns and the rate limit; the interval scheduler.
  \<^item> \<open>Channels\<close>, \<open>Channel_Harness\<close> (crates/channel-core, channel-harness): contents, threads and the store;
    inbound messages answered once, outbound messages sent once under an idempotency key.
  \<^item> \<open>Conversation\<close>, \<open>Meetings\<close> (crates/stt-harness, meetings-harness): the transcript a stream of recognition
    events builds, and the analysis a meeting run extracts from a growing transcript.

  \<^bold>\<open>Conventions.\<close> A struct is a record, an enum a datatype, \<open>u32\<close> and \<open>u64\<close> words, and a \<open>Result\<close> the sum
  \<open>error + 'a\<close>. A \<open>HashMap\<close> is a partial function where its order is never observed, a \<open>BTreeMap\<close> a sorted
  association list, a \<open>Vec\<close> a list. Asynchronous code that touches the outside takes a world and returns
  it: clocks, fresh identifiers, model calls and callables are functions of it. A lock is held for a whole
  operation, so an operation is atomic; where the code drops it between two accesses the model has one
  step for each critical section.

  \<^bold>\<open>Parameters.\<close> Serde codecs (with a round-trip hypothesis on the values stored), the JSON printer and
  parser, the inference runner and its usage arithmetic, SHA and the default hasher, the float backoff of the
  retry decorator, the cron crate, regular expressions, embeddings with their cosine, the back ends of
  sandboxes, channels, speech recognition and the agent SDK. Where a theorem needs a law of such an argument
  it is a locale assumption or a hypothesis, met by the in-memory back end of the sources.

  \<^bold>\<open>Termination.\<close> The topological sort ends by a measure on the unsorted steps. The tool loop of an agent takes
  \<open>max_tool_iterations.max(1)\<close> as its number of rounds, the number the code has, and the debate its
  \<open>max_rounds\<close>; no fuel is added. The harness loop may run for ever and is a \<open>partial_function\<close>, so that not
  returning is \<open>None\<close>; with an iteration cap or a money budget it is proved to return.

  \<^bold>\<open>Not modelled.\<close> Database and network failures inside the stores, the Redis back end, task panics and
  cancellation, scoring over floating-point numbers (rankers, embeddings, metrics), telemetry, audio and
  avatar streams, vendor protocols and command lines, web front ends, the file layout of a deployed host, and
  the language bindings.
\<close>

end
